(* ===== verification/Ngx_Prelude.thy ===== *)
theory Ngx_Prelude
  imports Main "HOL-Library.Word"
begin

text \<open>
  The vocabulary shared by every component: the machine types of the 64-bit little-endian
  Linux configuration recorded in \<^verbatim>\<open>objs/ngx_auto_config.h\<close>, the return codes of
  \<^verbatim>\<open>src/core/ngx_core.h\<close>, character literals, the byte-scanning loop that all resumable
  parsers of nginx share, and generic facts on bytes, words and lists.

  A C pointer into a buffer is an index (\<^typ>\<open>nat\<close>) or the list of bytes from the pointer to
  the end of the object it points into.  Where the code relies on a terminator instead of a
  length, the model returns \<^typ>\<open>'a option\<close> and \<^term>\<open>None\<close> is a read past the end of the
  object.
\<close>

unbundle bit_operations_syntax

named_theorems ngx_defs "definitions of small helpers, unfolded by the component proofs"
named_theorems ngx_splits "facts that split one iteration of a loop"

type_synonym u_char = "8 word"
type_synonym uint16 = "16 word"
type_synonym uint32 = "32 word"
type_synonym uint64 = "64 word"
type_synonym ngx_uint = "64 word"
type_synonym bytes = "u_char list"

abbreviation ch :: "char \<Rightarrow> u_char" where
  "ch c \<equiv> of_char c"

definition chars :: "string \<Rightarrow> bytes" where
  "chars s = map ch s"

section \<open>Return codes and control characters\<close>

definition NGX_OK :: int where "NGX_OK = 0"
definition NGX_ERROR :: int where "NGX_ERROR = -1"
definition NGX_AGAIN :: int where "NGX_AGAIN = -2"
definition NGX_DONE :: int where "NGX_DONE = -4"
definition NGX_DECLINED :: int where "NGX_DECLINED = -5"

lemmas ngx_rc [ngx_defs] = NGX_OK_def NGX_ERROR_def NGX_AGAIN_def NGX_DONE_def NGX_DECLINED_def

definition LF :: u_char where "LF = 0x0a"
definition CR :: u_char where "CR = 0x0d"

definition NGX_MAX_INT_T_VALUE :: int where "NGX_MAX_INT_T_VALUE = 9223372036854775807"
definition NGX_MAX_SIZE_T_VALUE :: int where "NGX_MAX_SIZE_T_VALUE = 9223372036854775807"
definition NGX_MAX_OFF_T_VALUE :: int where "NGX_MAX_OFF_T_VALUE = 9223372036854775807"
definition NGX_MAX_TIME_T_VALUE :: int where "NGX_MAX_TIME_T_VALUE = 9223372036854775807"

section \<open>Exhaustive reasoning on bytes\<close>

definition byte_values :: bytes where
  "byte_values = [
     0, 1, 2, 3, 4, 5, 6, 7, 8, 9, 10, 11, 12, 13, 14, 15,
     16, 17, 18, 19, 20, 21, 22, 23, 24, 25, 26, 27, 28, 29, 30, 31,
     32, 33, 34, 35, 36, 37, 38, 39, 40, 41, 42, 43, 44, 45, 46, 47,
     48, 49, 50, 51, 52, 53, 54, 55, 56, 57, 58, 59, 60, 61, 62, 63,
     64, 65, 66, 67, 68, 69, 70, 71, 72, 73, 74, 75, 76, 77, 78, 79,
     80, 81, 82, 83, 84, 85, 86, 87, 88, 89, 90, 91, 92, 93, 94, 95,
     96, 97, 98, 99, 100, 101, 102, 103, 104, 105, 106, 107, 108, 109, 110, 111,
     112, 113, 114, 115, 116, 117, 118, 119, 120, 121, 122, 123, 124, 125, 126, 127,
     128, 129, 130, 131, 132, 133, 134, 135, 136, 137, 138, 139, 140, 141, 142, 143,
     144, 145, 146, 147, 148, 149, 150, 151, 152, 153, 154, 155, 156, 157, 158, 159,
     160, 161, 162, 163, 164, 165, 166, 167, 168, 169, 170, 171, 172, 173, 174, 175,
     176, 177, 178, 179, 180, 181, 182, 183, 184, 185, 186, 187, 188, 189, 190, 191,
     192, 193, 194, 195, 196, 197, 198, 199, 200, 201, 202, 203, 204, 205, 206, 207,
     208, 209, 210, 211, 212, 213, 214, 215, 216, 217, 218, 219, 220, 221, 222, 223,
     224, 225, 226, 227, 228, 229, 230, 231, 232, 233, 234, 235, 236, 237, 238, 239,
     240, 241, 242, 243, 244, 245, 246, 247, 248, 249, 250, 251, 252, 253, 254, 255]"

lemma byte_values_upt: "map word_of_nat [0..<256] = byte_values"
  by (simp add: byte_values_def upt_rec_numeral upt_rec [of 0] upt_rec [of "Suc 0"] flip: numeral_2_eq_2)

lemma all_bytes: "(\<forall>b :: u_char. P b) = list_all P byte_values"
proof -
  have "b \<in> set byte_values" for b :: u_char
  proof -
    have "unat b < 256" using unsigned_less [of b] by simp
    then have "word_of_nat (unat b) \<in> (word_of_nat :: nat \<Rightarrow> u_char) ` {0..<256}"
      by (intro imageI) simp
    then show ?thesis unfolding byte_values_upt [symmetric] by simp
  qed
  then show ?thesis by (auto simp: list_all_iff)
qed

lemma byte_exhaust: "list_all P byte_values \<Longrightarrow> P (b :: u_char)"
  using all_bytes [of P] by blast

lemma unat_byte [simp, intro]: "unat (b :: u_char) < 256"
  using unsigned_less [of b] by simp

text \<open>Two bytes with the same eight bits are equal; the bits of a concrete mask evaluate.\<close>

lemmas byte_bits = bit_and_iff bit_or_iff bit_xor_iff bit_push_bit_iff bit_drop_bit_eq

lemma byte_eqI:
  assumes "bit a 0 = bit b 0" "bit a 1 = bit b 1" "bit a 2 = bit b 2" "bit a 3 = bit b 3"
    "bit a 4 = bit b 4" "bit a 5 = bit b 5" "bit a 6 = bit b 6" "bit a 7 = bit b 7"
  shows "a = (b :: u_char)"
proof (rule bit_word_eqI)
  fix n assume "n < LENGTH(8)"
  then have "n < 8" by simp
  then have "n \<in> {0,1,2,3,4,5,6,7}" by auto
  with assms show "bit a n = bit b n" by auto
qed

lemma byte_less_64: "\<not> bit v 6 \<Longrightarrow> \<not> bit v 7 \<Longrightarrow> v < (64 :: u_char)"
proof -
  have "\<not> bit v 6 \<and> \<not> bit v 7 \<longrightarrow> v < (64 :: u_char)"
    by (rule byte_exhaust) (simp add: byte_values_def)
  then show "\<not> bit v 6 \<Longrightarrow> \<not> bit v 7 \<Longrightarrow> ?thesis" by blast
qed

lemma byte_less_16_cases:
  assumes "v < (16 :: u_char)"
  shows "v \<in> {0, 1, 2, 3, 4, 5, 6, 7, 8, 9, 10, 11, 12, 13, 14, 15}"
proof -
  have "v < 16 \<longrightarrow> v \<in> {0, 1, 2, 3, 4, 5, 6, 7, 8, 9, 10, 11, 12, 13, 14, 15 :: u_char}"
    by (rule byte_exhaust) (simp add: byte_values_def)
  with assms show ?thesis by blast
qed

section \<open>Lists\<close>

lemma take_Suc_eq_imp_nth:
  "take (Suc p) m = take (Suc p) m' \<Longrightarrow> i \<le> p \<Longrightarrow> m ! i = m' ! i"
  by (metis le_imp_less_Suc nth_take)

lemma take_eq_mono: "take n m = take n m' \<Longrightarrow> k \<le> n \<Longrightarrow> take k m = take k m'"
  by (metis min.absorb1 take_take)

lemma dropWhile_append_hit: "\<forall>x\<in>set xs. P x \<Longrightarrow> \<not> P y \<Longrightarrow> dropWhile P (xs @ y # ys) = y # ys"
  by (induction xs) auto

lemma takeWhile_append_hit: "\<forall>x\<in>set xs. P x \<Longrightarrow> \<not> P y \<Longrightarrow> takeWhile P (xs @ y # ys) = xs"
  by (induction xs) auto

section \<open>Bitmaps of bytes\<close>

text \<open>The test \<^verbatim>\<open>map[ch >> 5] & (1 << (ch & 0x1f))\<close> on a table of eight 32-bit words.\<close>

definition bitmap_bit :: "uint32 list \<Rightarrow> u_char \<Rightarrow> bool" where
  "bitmap_bit bm c \<longleftrightarrow> (bm ! unat (drop_bit 5 c)) AND push_bit (unat (c AND 0x1f)) 1 \<noteq> 0"

section \<open>C strings\<close>

text \<open>The bytes before the terminator, and that there is one.\<close>

definition cstr :: "bytes \<Rightarrow> bytes" where
  "cstr s = takeWhile (\<lambda>c. c \<noteq> 0) s"

definition terminated :: "bytes \<Rightarrow> bool" where
  "terminated s \<longleftrightarrow> 0 \<in> set s"

lemma cstr_simps [simp]:
  "cstr [] = []" "cstr (0 # s) = []" "c \<noteq> 0 \<Longrightarrow> cstr (c # s) = c # cstr s"
  by (simp_all add: cstr_def)

lemma terminated_simps [simp]:
  "\<not> terminated []" "terminated (0 # s)" "c \<noteq> 0 \<Longrightarrow> terminated (c # s) = terminated s"
  by (auto simp: terminated_def)

lemma cstr_no_nul: "0 \<notin> set (cstr s)"
  unfolding cstr_def by (metis (full_types) set_takeWhileD)

section \<open>The scanning loop of the resumable parsers\<close>

text \<open>
  Every resumable parser is a loop \<^verbatim>\<open>for (p = b->pos; p < b->last; p++) { ch = *p; switch (state) ... }\<close>.
  One iteration either goes on with a new state or leaves the loop; \<open>scan\<close> is the loop, and
  returns the state and position at which the input ran out, or the result and the position of
  the byte that produced it.
\<close>

datatype ('s, 'r) iteration = Next 's | Return 'r

function scan ::
  "('s \<Rightarrow> bytes \<Rightarrow> nat \<Rightarrow> ('s, 'r) iteration) \<Rightarrow> 's \<Rightarrow> bytes \<Rightarrow> nat \<Rightarrow> nat \<Rightarrow> ('s \<times> nat) + ('r \<times> nat)"
where
  "scan step s m p lst =
     (if p < lst
      then case step s m p of
             Next s' \<Rightarrow> scan step s' m (Suc p) lst
           | Return r \<Rightarrow> Inr (r, p)
      else Inl (s, p))"
  by pat_completeness auto
termination
  by (relation "measure (\<lambda>(step, s, m, p, lst). lst - p)") auto

declare scan.simps [simp del]

lemma scan_stop [simp]: "lst \<le> p \<Longrightarrow> scan step s m p lst = Inl (s, p)"
  by (simp add: scan.simps)

lemma scan_next [ngx_splits]:
  "p < lst \<Longrightarrow> step s m p = Next s' \<Longrightarrow> scan step s m p lst = scan step s' m (Suc p) lst"
  by (simp add: scan.simps [of step s m p lst])

lemma scan_return [ngx_splits]:
  "p < lst \<Longrightarrow> step s m p = Return r \<Longrightarrow> scan step s m p lst = Inr (r, p)"
  by (simp add: scan.simps [of step s m p lst])

lemma scan_Inr_bounds: "scan step s m p lst = Inr (r, q) \<Longrightarrow> p \<le> q \<and> q < lst"
proof (induction step s m p lst rule: scan.induct)
  case (1 step s m p lst)
  then show ?case
    by (auto simp: scan.simps [of step s m p lst] split: if_splits iteration.splits)
qed

lemma scan_Inl_pos: "scan step s m p lst = Inl (s', q) \<Longrightarrow> q = max p lst"
proof (induction step s m p lst rule: scan.induct)
  case (1 step s m p lst)
  then show ?case
    by (auto simp: scan.simps [of step s m p lst] split: if_splits iteration.splits)
qed

text \<open>A property of the parser state that every iteration keeps holds when the input runs out.\<close>

lemma scan_Inl_invariant:
  assumes keep: "\<And>s p s'. I s p \<Longrightarrow> p < lst \<Longrightarrow> step s m p = Next s' \<Longrightarrow> I s' (Suc p)"
    and start: "I s p"
    and run: "scan step s m p lst = Inl (s', q)"
  shows "I s' q"
  using start run
proof (induction "lst - p" arbitrary: s p)
  case 0
  then show ?case by simp
next
  case (Suc n)
  then have "p < lst" by simp
  with Suc.prems obtain t where "step s m p = Next t" and "scan step t m (Suc p) lst = Inl (s', q)"
    by (auto simp: scan.simps [of step s m p lst] split: iteration.splits)
  with Suc keep \<open>p < lst\<close> show ?case by (metis Suc_diff_Suc diff_Suc_1)
qed

lemma scan_Inr_invariant:
  assumes keep: "\<And>s p s'. I s p \<Longrightarrow> p < lst \<Longrightarrow> step s m p = Next s' \<Longrightarrow> I s' (Suc p)"
    and leave: "\<And>s p r. I s p \<Longrightarrow> p < lst \<Longrightarrow> step s m p = Return r \<Longrightarrow> Q r p"
    and start: "I s p"
    and run: "scan step s m p lst = Inr (r, q)"
  shows "Q r q"
  using start run
proof (induction "lst - p" arbitrary: s p)
  case 0
  then show ?case by simp
next
  case (Suc n)
  then have p: "p < lst" by simp
  show ?case
  proof (cases "step s m p")
    case (Next t)
    then have "I t (Suc p)" "scan step t m (Suc p) lst = Inr (r, q)"
      using Suc.prems keep p by (auto simp: scan_next)
    with Suc p show ?thesis by (metis Suc_diff_Suc diff_Suc_1)
  next
    case (Return x)
    then show ?thesis using Suc.prems leave p by (auto simp: scan_return)
  qed
qed

end
