(* ===== verification/Ngx_Interfaces.thy ===== *)
theory Ngx_Interfaces
  imports Ngx_Prelude
begin

text \<open>
  The contracts the components of nginx rely on, each a locale whose laws are discharged by an
  interpretation in the theory of the component that provides the operations:
  \<^item> \<open>codec\<close>: a decoder that undoes an encoder;
  \<^item> \<open>two_pass_escape\<close>: the convention of the escape functions, called first with a null
    destination to learn how many bytes the escaped text adds;
  \<^item> \<open>resumable_parser\<close>: the convention of the protocol parsers, which may be entered again
    with more input and must behave as if the input had arrived in one piece.
\<close>

section \<open>Encoders and decoders\<close>

locale codec =
  fixes enc :: "'a \<Rightarrow> bytes" and dec :: "bytes \<Rightarrow> 'a option"
  assumes dec_enc: "dec (enc x) = Some x"
begin

lemma enc_inject: "enc x = enc y \<longleftrightarrow> x = y"
  by (metis dec_enc option.inject)

lemma enc_decodable: "\<exists>x. dec (enc y) = Some x \<and> enc x = enc y"
  using dec_enc by auto

end

section \<open>Two-pass escaping\<close>

locale two_pass_escape =
  fixes emit :: "u_char \<Rightarrow> bytes" and extra :: "u_char \<Rightarrow> nat"
  assumes length_emit: "length (emit c) = Suc (extra c)"
begin

lemma length_escaped: "length (concat (map emit s)) = length s + sum_list (map extra s)"
  by (induction s) (simp_all add: length_emit)

lemma escaped_unchanged:
  assumes "\<And>c. extra c = 0 \<Longrightarrow> emit c = [c]" and "sum_list (map extra s) = 0"
  shows "concat (map emit s) = s"
  using assms(2) by (induction s) (simp_all add: assms(1))

end

section \<open>Resumable parsers\<close>

text \<open>
  An iteration may look back at bytes already received (the request-line parser compares the
  method that starts at \<^verbatim>\<open>r->request_start\<close>) and never at bytes after the current one.
\<close>

locale resumable_parser =
  fixes step :: "'s \<Rightarrow> bytes \<Rightarrow> nat \<Rightarrow> ('s, 'r) iteration"
  assumes step_local:
    "p < length m \<Longrightarrow> p < length m' \<Longrightarrow> take (Suc p) m = take (Suc p) m' \<Longrightarrow> step s m p = step s m' p"
begin

lemma scan_local:
  assumes "take lst m = take lst m'" and "lst \<le> length m" and "lst \<le> length m'"
  shows "scan step s m p lst = scan step s m' p lst"
proof (induction "lst - p" arbitrary: s p)
  case 0
  then show ?case by simp
next
  case (Suc n)
  then have p: "p < lst" by simp
  have "step s m p = step s m' p"
    using p assms by (intro step_local) (auto intro: take_eq_mono)
  moreover have "scan step t m (Suc p) lst = scan step t m' (Suc p) lst" for t
    using Suc p by simp
  ultimately show ?case
    using p by (simp add: scan.simps [of step s _ p lst] split: iteration.splits)
qed

lemma scan_resume:
  assumes "p \<le> mid" and "mid \<le> lst"
  shows "scan step s m p lst =
    (case scan step s m p mid of
       Inl (s', p') \<Rightarrow> scan step s' m p' lst
     | Inr r \<Rightarrow> Inr r)"
  using assms
proof (induction "mid - p" arbitrary: s p)
  case 0
  then show ?case by simp
next
  case (Suc n)
  then have p: "p < mid" "p < lst" by simp_all
  have "scan step t m (Suc p) lst =
    (case scan step t m (Suc p) mid of
       Inl (s', p') \<Rightarrow> scan step s' m p' lst | Inr r \<Rightarrow> Inr r)" for t
    using Suc p by simp
  with p show ?case
    by (simp add: scan.simps [of step s m p lst] scan.simps [of step s m p mid] split: iteration.splits)
qed

text \<open>
  Receiving \<open>m1\<close> first and \<open>m1 @ m2\<close> later gives what one call on \<open>m1 @ m2\<close> gives.
\<close>

lemma scan_append:
  assumes "p \<le> length m1"
  shows "scan step s (m1 @ m2) p (length (m1 @ m2)) =
    (case scan step s m1 p (length m1) of
       Inl (s', p') \<Rightarrow> scan step s' (m1 @ m2) p' (length (m1 @ m2))
     | Inr r \<Rightarrow> Inr r)"
proof -
  have "scan step s (m1 @ m2) p (length m1) = scan step s m1 p (length m1)"
    by (rule scan_local) auto
  then show ?thesis
    using scan_resume [of p "length m1" "length (m1 @ m2)" s "m1 @ m2"] assms by simp
qed

end

end
