(* ===== verification/Ngx_String.thy ===== *)
theory Ngx_String
  imports Ngx_Interfaces
begin

text \<open>
  \<^verbatim>\<open>src/core/ngx_string.c\<close>, first part: case folding, bounded copies, comparisons,
  substring searches and the number parsers.  A \<^verbatim>\<open>(pointer, length)\<close> pair is the list of its
  bytes; a pointer to a terminated string is the list of bytes up to the end of the object, and
  running past it is \<^term>\<open>None\<close>.  The signed arithmetic of the number parsers is checked: an
  overflow, undefined in C, is \<^term>\<open>None\<close> as well.
\<close>

section \<open>Case folding and copies\<close>

definition ngx_tolower :: "u_char \<Rightarrow> u_char" where
  "ngx_tolower c = (if ch CHR ''A'' \<le> c \<and> c \<le> ch CHR ''Z'' then c OR 0x20 else c)"

definition ngx_toupper :: "u_char \<Rightarrow> u_char" where
  "ngx_toupper c = (if ch CHR ''a'' \<le> c \<and> c \<le> ch CHR ''z'' then c AND NOT 0x20 else c)"

definition ngx_strlow :: "bytes \<Rightarrow> bytes" where
  "ngx_strlow src = map ngx_tolower src"

text \<open>The bytes written to \<^verbatim>\<open>dst\<close>; the pointer returned is that of the last byte written.\<close>

fun ngx_cpystrn :: "bytes \<Rightarrow> nat \<Rightarrow> bytes option" where
  "ngx_cpystrn src 0 = Some []"
| "ngx_cpystrn src (Suc 0) = Some [0]"
| "ngx_cpystrn [] (Suc (Suc n)) = None"
| "ngx_cpystrn (c # src) (Suc (Suc n)) =
     (if c = 0 then Some [0] else map_option ((#) c) (ngx_cpystrn src (Suc n)))"

section \<open>Comparisons\<close>

fun ngx_strcasecmp :: "bytes \<Rightarrow> bytes \<Rightarrow> int option" where
  "ngx_strcasecmp (a # s1) (b # s2) =
     (let c1 = ngx_tolower a; c2 = ngx_tolower b in
      if c1 = c2 then (if c1 \<noteq> 0 then ngx_strcasecmp s1 s2 else Some 0)
      else Some (uint c1 - uint c2))"
| "ngx_strcasecmp _ _ = None"

fun ngx_strncasecmp :: "bytes \<Rightarrow> bytes \<Rightarrow> nat \<Rightarrow> int option" where
  "ngx_strncasecmp _ _ 0 = Some 0"
| "ngx_strncasecmp (a # s1) (b # s2) (Suc n) =
     (let c1 = ngx_tolower a; c2 = ngx_tolower b in
      if c1 = c2 then (if c1 \<noteq> 0 then ngx_strncasecmp s1 s2 n else Some 0)
      else Some (uint c1 - uint c2))"
| "ngx_strncasecmp _ _ (Suc n) = None"

text \<open>The C library's \<^verbatim>\<open>strncmp\<close>, of which the code uses only whether it is zero.\<close>

fun c_strncmp :: "bytes \<Rightarrow> bytes \<Rightarrow> nat \<Rightarrow> int option" where
  "c_strncmp _ _ 0 = Some 0"
| "c_strncmp (a # s1) (b # s2) (Suc n) =
     (if a \<noteq> b then Some (uint a - uint b) else if a = 0 then Some 0 else c_strncmp s1 s2 n)"
| "c_strncmp _ _ (Suc n) = None"

definition c_strlen :: "bytes \<Rightarrow> nat option" where
  "c_strlen s = (if terminated s then Some (length (cstr s)) else None)"

fun c_memcmp :: "bytes \<Rightarrow> bytes \<Rightarrow> nat \<Rightarrow> int option" where
  "c_memcmp _ _ 0 = Some 0"
| "c_memcmp (a # s1) (b # s2) (Suc n) =
     (if a \<noteq> b then Some (uint a - uint b) else c_memcmp s1 s2 n)"
| "c_memcmp _ _ (Suc n) = None"

text \<open>\<open>n\<close> is the index the loop of \<^verbatim>\<open>ngx_rstrncmp\<close> looks at.\<close>

fun rstrncmp_loop :: "(u_char \<Rightarrow> u_char) \<Rightarrow> bytes \<Rightarrow> bytes \<Rightarrow> nat \<Rightarrow> int option" where
  "rstrncmp_loop f s1 s2 n =
     (if n < length s1 \<and> n < length s2 then
        (let c1 = f (s1 ! n); c2 = f (s2 ! n) in
         if c1 \<noteq> c2 then Some (uint c1 - uint c2)
         else case n of 0 \<Rightarrow> Some 0 | Suc m \<Rightarrow> rstrncmp_loop f s1 s2 m)
      else None)"

definition ngx_rstrncmp :: "bytes \<Rightarrow> bytes \<Rightarrow> nat \<Rightarrow> int option" where
  "ngx_rstrncmp s1 s2 n = (if n = 0 then Some 0 else rstrncmp_loop id s1 s2 (n - 1))"

definition ngx_rstrncasecmp :: "bytes \<Rightarrow> bytes \<Rightarrow> nat \<Rightarrow> int option" where
  "ngx_rstrncasecmp s1 s2 n =
     (if n = 0 then Some 0
      else rstrncmp_loop
             (\<lambda>c. if ch CHR ''a'' \<le> c \<and> c \<le> ch CHR ''z'' then c - (ch CHR ''a'' - ch CHR ''A'') else c)
             s1 s2 (n - 1))"

definition ngx_memn2cmp :: "bytes \<Rightarrow> bytes \<Rightarrow> int option" where
  "ngx_memn2cmp s1 s2 =
     (let n1 = length s1; n2 = length s2;
          n = (if n1 \<le> n2 then n1 else n2); z = (if n1 \<le> n2 then -1 else 1)
      in case c_memcmp s1 s2 n of
           None \<Rightarrow> None
         | Some m \<Rightarrow> if m \<noteq> 0 \<or> n1 = n2 then Some m else Some z)"

fun ngx_dns_strcmp :: "bytes \<Rightarrow> bytes \<Rightarrow> int option" where
  "ngx_dns_strcmp (a # s1) (b # s2) =
     (let c1 = ngx_tolower a; c2 = ngx_tolower b in
      if c1 = c2 then (if c1 \<noteq> 0 then ngx_dns_strcmp s1 s2 else Some 0)
      else
        (let d1 = (if c1 = ch CHR ''.'' then ch CHR '' '' else c1);
             d2 = (if c2 = ch CHR ''.'' then ch CHR '' '' else c2)
         in Some (uint d1 - uint d2)))"
| "ngx_dns_strcmp _ _ = None"

fun ngx_filename_cmp :: "bytes \<Rightarrow> bytes \<Rightarrow> nat \<Rightarrow> int option" where
  "ngx_filename_cmp _ _ 0 = Some 0"
| "ngx_filename_cmp (c1 # s1) (c2 # s2) (Suc n) =
     (if c1 = c2 then (if c1 \<noteq> 0 then ngx_filename_cmp s1 s2 n else Some 0)
      else if c1 = 0 \<or> c2 = 0 then Some (uint c1 - uint c2)
      else
        (let d1 = (if c1 = ch CHR ''/'' then 0 else c1);
             d2 = (if c2 = ch CHR ''/'' then 0 else c2)
         in Some (uint d1 - uint d2)))"
| "ngx_filename_cmp _ _ (Suc n) = None"

section \<open>Substring searches\<close>

text \<open>
  The result is the offset of the match, the inner \<^term>\<open>None\<close> the null pointer the code returns
  when there is none.  \<open>i\<close> is the offset of \<^verbatim>\<open>s1\<close> from the start of the search.
\<close>

fun strnstr_loop :: "bytes \<Rightarrow> u_char \<Rightarrow> bytes \<Rightarrow> nat \<Rightarrow> nat \<Rightarrow> nat \<Rightarrow> nat option option" where
  "strnstr_loop s1 c2 s2 n 0 i = Some None"
| "strnstr_loop [] c2 s2 n (Suc len) i = None"
| "strnstr_loop (c1 # s1) c2 s2 n (Suc len) i =
     (if c1 = 0 then Some None
      else if c1 \<noteq> c2 then strnstr_loop s1 c2 s2 n len (Suc i)
      else if n > len then Some None
      else case c_strncmp s1 s2 n of
             None \<Rightarrow> None
           | Some r \<Rightarrow> if r \<noteq> 0 then strnstr_loop s1 c2 s2 n len (Suc i) else Some (Some i))"

definition ngx_strnstr :: "bytes \<Rightarrow> bytes \<Rightarrow> nat \<Rightarrow> nat option option" where
  "ngx_strnstr s1 s2 len =
     (case s2 of
        [] \<Rightarrow> None
      | c2 # t \<Rightarrow> (case c_strlen t of None \<Rightarrow> None | Some n \<Rightarrow> strnstr_loop s1 c2 t n len 0))"

fun strstrn_loop :: "bytes \<Rightarrow> u_char \<Rightarrow> bytes \<Rightarrow> nat \<Rightarrow> nat \<Rightarrow> nat option option" where
  "strstrn_loop [] c2 s2 n i = None"
| "strstrn_loop (c1 # s1) c2 s2 n i =
     (if c1 = 0 then Some None
      else if c1 \<noteq> c2 then strstrn_loop s1 c2 s2 n (Suc i)
      else case c_strncmp s1 s2 n of
             None \<Rightarrow> None
           | Some r \<Rightarrow> if r \<noteq> 0 then strstrn_loop s1 c2 s2 n (Suc i) else Some (Some i))"

definition ngx_strstrn :: "bytes \<Rightarrow> bytes \<Rightarrow> nat \<Rightarrow> nat option option" where
  "ngx_strstrn s1 s2 n = (case s2 of [] \<Rightarrow> None | c2 # t \<Rightarrow> strstrn_loop s1 c2 t n 0)"

text \<open>
  \<^verbatim>\<open>ngx_strcasestrn\<close> reads the first byte it looks for through a \<^verbatim>\<open>char *\<close>, which is signed on the
  platforms modelled: the byte is sign-extended, and one of \<open>0x80\<close> or above equals no byte of the string.
\<close>

fun strcasestrn_loop :: "bytes \<Rightarrow> ngx_uint \<Rightarrow> bytes \<Rightarrow> nat \<Rightarrow> nat \<Rightarrow> nat option option" where
  "strcasestrn_loop [] c2 s2 n i = None"
| "strcasestrn_loop (c1 # s1) c2 s2 n i =
     (if c1 = 0 then Some None
      else if ucast (ngx_tolower c1) \<noteq> c2 then strcasestrn_loop s1 c2 s2 n (Suc i)
      else case ngx_strncasecmp s1 s2 n of
             None \<Rightarrow> None
           | Some r \<Rightarrow> if r \<noteq> 0 then strcasestrn_loop s1 c2 s2 n (Suc i) else Some (Some i))"

definition ngx_strcasestrn :: "bytes \<Rightarrow> bytes \<Rightarrow> nat \<Rightarrow> nat option option" where
  "ngx_strcasestrn s1 s2 n =
     (case s2 of
        [] \<Rightarrow> None
      | b # t \<Rightarrow>
          (let c2 = scast b :: ngx_uint;
               c2 = (if 0x41 \<le> c2 \<and> c2 \<le> 0x5a then c2 OR 0x20 else c2)
           in strcasestrn_loop s1 c2 t n 0))"

text \<open>
  \<open>lst\<close> is the offset of \<^verbatim>\<open>last\<close> from the start of the search, already lowered by \<^verbatim>\<open>n\<close>;
  it may be negative, in which case the first test of the loop ends the search.
\<close>

fun strlcasestrn_loop :: "bytes \<Rightarrow> int \<Rightarrow> u_char \<Rightarrow> bytes \<Rightarrow> nat \<Rightarrow> nat \<Rightarrow> nat option option" where
  "strlcasestrn_loop s1 lst c2 s2 n i =
     (if int i \<ge> lst then Some None
      else case s1 of
             [] \<Rightarrow> None
           | c1 # t1 \<Rightarrow>
               (if ngx_tolower c1 \<noteq> c2 then strlcasestrn_loop t1 lst c2 s2 n (Suc i)
                else case ngx_strncasecmp t1 s2 n of
                       None \<Rightarrow> None
                     | Some r \<Rightarrow>
                         if r \<noteq> 0 then strlcasestrn_loop t1 lst c2 s2 n (Suc i) else Some (Some i)))"

definition ngx_strlcasestrn :: "bytes \<Rightarrow> int \<Rightarrow> bytes \<Rightarrow> nat \<Rightarrow> nat option option" where
  "ngx_strlcasestrn s1 lst s2 n =
     (case s2 of
        [] \<Rightarrow> None
      | c2 # t \<Rightarrow> strlcasestrn_loop s1 (lst - int n) (ngx_tolower c2) t n 0)"

section \<open>Laws of case folding, copies and comparisons\<close>

lemma ngx_tolower_idem [simp]: "ngx_tolower (ngx_tolower c) = ngx_tolower c"
  by (rule byte_exhaust) (simp add: byte_values_def ngx_tolower_def)

lemma ngx_tolower_eq_0 [simp]: "ngx_tolower c = 0 \<longleftrightarrow> c = 0"
  by (rule byte_exhaust) (simp add: byte_values_def ngx_tolower_def)

lemma ngx_tolower_0 [simp]: "ngx_tolower 0 = 0"
  by simp

lemma ngx_toupper_tolower: "ngx_tolower (ngx_toupper c) = ngx_tolower c"
  by (rule byte_exhaust) (simp add: byte_values_def ngx_tolower_def ngx_toupper_def)

lemma uint_byte_eq [simp]: "uint (a :: u_char) = uint b \<longleftrightarrow> a = b" "uint (a :: u_char) = 0 \<longleftrightarrow> a = 0"
  by (simp_all add: word_uint_eq_iff)

text \<open>
  Fact (bounds).  The bounded copy always writes a terminator, writes at most \<open>n\<close> bytes and
  copies the longest prefix of the source string that fits.
\<close>

theorem ngx_cpystrn_truncates:
  assumes "terminated src"
  shows "ngx_cpystrn src (Suc n) = Some (take n (cstr src) @ [0])
    \<and> length (take n (cstr src) @ [0]) \<le> Suc n"
  using assms by (induction src "Suc n" arbitrary: n rule: ngx_cpystrn.induct) auto

theorem ngx_cpystrn_truncates_witness:
  "ngx_cpystrn (chars ''nginx'' @ [0]) 4 = Some (chars ''ngi'' @ [0])"
proof -
  have "terminated (chars ''nginx'' @ [0])" by (simp add: terminated_def)
  from ngx_cpystrn_truncates [OF this, of 3]
  have "ngx_cpystrn (chars ''nginx'' @ [0]) (Suc 3) = Some (take 3 (cstr (chars ''nginx'' @ [0])) @ [0])"
    by (rule conjunct1)
  then show ?thesis by (simp add: chars_def cstr_def del: ngx_cpystrn.simps)
qed

text \<open>
  Fact (functional).  On terminated strings the case-insensitive comparison returns, and
  its result is zero exactly when the strings are equal up to case.
\<close>

theorem ngx_strcasecmp_eq:
  assumes "terminated s1" and "terminated s2"
  shows "\<exists>r. ngx_strcasecmp s1 s2 = Some r
    \<and> (r = 0 \<longleftrightarrow> ngx_strlow (cstr s1) = ngx_strlow (cstr s2))"
  using assms
proof (induction s1 s2 rule: ngx_strcasecmp.induct)
  case (1 a s1 b s2)
  have ends: "ngx_tolower a = ngx_tolower b \<Longrightarrow> a = 0 \<longleftrightarrow> b = 0"
    by (metis ngx_tolower_eq_0)
  show ?case
  proof (cases "ngx_tolower a = ngx_tolower b")
    case True
    with 1 ends show ?thesis
      by (cases "a = 0") (auto simp: Let_def ngx_strlow_def)
  next
    case False
    then show ?thesis
      by (cases "a = 0"; cases "b = 0") (auto simp: Let_def ngx_strlow_def)
  qed
qed auto

theorem ngx_strcasecmp_eq_witness:
  "\<exists>r. ngx_strcasecmp (chars ''Host'' @ [0]) (chars ''hOST'' @ [0, 7]) = Some r \<and> r = 0"
proof -
  have "terminated (chars ''Host'' @ [0])" and "terminated (chars ''hOST'' @ [0, 7])"
    by (simp_all add: terminated_def)
  from ngx_strcasecmp_eq [OF this] show ?thesis
    by (simp add: chars_def cstr_def ngx_strlow_def ngx_tolower_def)
qed

lemma ngx_strncasecmp_eq:
  assumes "n \<le> length s1" and "n \<le> length s2" and "0 \<notin> set (take n s2)"
  shows "\<exists>r. ngx_strncasecmp s1 s2 n = Some r
    \<and> (r = 0 \<longleftrightarrow> ngx_strlow (take n s1) = ngx_strlow (take n s2))"
  using assms
proof (induction s1 s2 n rule: ngx_strncasecmp.induct)
  case (2 a s1 b s2 n)
  then have "b \<noteq> 0" by simp
  then have "ngx_tolower a = ngx_tolower b \<Longrightarrow> a \<noteq> 0"
    by (metis ngx_tolower_eq_0)
  with 2 \<open>b \<noteq> 0\<close> show ?case by (auto simp: Let_def ngx_strlow_def)
qed (auto simp: ngx_strlow_def)

lemma rstrncmp_loop_eq:
  assumes "n < length s1" and "n < length s2"
  shows "\<exists>r. rstrncmp_loop f s1 s2 n = Some r
    \<and> (r = 0 \<longleftrightarrow> map f (take (Suc n) s1) = map f (take (Suc n) s2))"
  using assms
proof (induction n)
  case 0
  then show ?case by (cases s1; cases s2) (simp_all add: Let_def)
next
  case (Suc n)
  then have "take (Suc (Suc n)) s1 = take (Suc n) s1 @ [s1 ! Suc n]"
    and "take (Suc (Suc n)) s2 = take (Suc n) s2 @ [s2 ! Suc n]"
    by (simp_all only: take_Suc_conv_app_nth)
  with Suc show ?case by (auto simp: Let_def simp del: take_Suc)
qed

section \<open>Correctness of the substring search\<close>

fun first_occ :: "bytes \<Rightarrow> bytes \<Rightarrow> nat option" where
  "first_occ pat [] = None"
| "first_occ pat (c # s) =
     (if take (length pat) (c # s) = pat then Some 0 else map_option Suc (first_occ pat s))"

lemma first_occ_short: "length s < length pat \<Longrightarrow> first_occ pat s = None"
  by (induction pat s rule: first_occ.induct) (auto dest: arg_cong [where f = length])

lemma first_occ_iff_least:
  assumes "pat \<noteq> []"
  shows "first_occ pat s = Some i \<longleftrightarrow>
    take (length pat) (drop i s) = pat \<and> (\<forall>j < i. take (length pat) (drop j s) \<noteq> pat)"
  using assms
proof (induction pat s arbitrary: i rule: first_occ.induct)
  case (2 pat c s)
  then show ?case
    by (cases i) (auto simp: All_less_Suc2)
qed auto

lemma c_strncmp_eq:
  assumes "0 \<notin> set pt" and "length pt \<le> length s1 \<or> terminated s1"
  shows "\<exists>r. c_strncmp s1 (pt @ rest) (length pt) = Some r \<and> (r = 0 \<longleftrightarrow> take (length pt) s1 = pt)"
  using assms
proof (induction pt arbitrary: s1)
  case (Cons a pt)
  then show ?case by (cases s1) (auto simp: terminated_def)
qed simp

lemma take_cstr_eq:
  assumes "0 \<notin> set pt" and "length pt \<le> len"
  shows "take (length pt) (cstr (take len s)) = pt \<longleftrightarrow> take (length pt) s = pt"
  using assms
proof (induction pt arbitrary: s len)
  case (Cons a pt)
  then show ?case by (cases s; cases len) (auto simp: cstr_def)
qed simp

lemma strnstr_loop_first:
  assumes "c2 \<noteq> 0" and "0 \<notin> set pt" and "len \<le> length s1 \<or> terminated s1"
  shows "strnstr_loop s1 c2 (pt @ 0 # rest) (length pt) len i =
    Some (map_option ((+) i) (first_occ (c2 # pt) (cstr (take len s1))))"
  using assms
proof (induction s1 arbitrary: len i)
  case Nil
  then show ?case by simp
next
  case (Cons c1 s1)
  show ?case
  proof (cases len)
    case 0
    then show ?thesis by simp
  next
    case (Suc k)
    have IH: "strnstr_loop s1 c2 (pt @ 0 # rest) (length pt) k (Suc i) =
        Some (map_option ((+) (Suc i)) (first_occ (c2 # pt) (cstr (take k s1))))" if "c1 \<noteq> 0"
      using Cons that Suc by (auto simp: terminated_def)
    have mo: "map_option ((+) i) (map_option Suc x) = map_option ((+) (Suc i)) x" for x
      by (cases x) auto
    consider "c1 = 0" | "c1 \<noteq> 0" "c1 \<noteq> c2" | "c1 \<noteq> 0" "c1 = c2" "k < length pt"
      | "c1 \<noteq> 0" "c1 = c2" "length pt \<le> k" by linarith
    then show ?thesis
    proof cases
      case 1
      with Suc show ?thesis by simp
    next
      case 2
      with Suc IH mo show ?thesis by simp
    next
      case 3
      then have "length (cstr (take k s1)) < length pt"
        using length_takeWhile_le [of "\<lambda>c. c \<noteq> 0" "take k s1"] by (simp add: cstr_def)
      then have "first_occ (c2 # pt) (c1 # cstr (take k s1)) = None"
        by (intro first_occ_short) simp
      with 3 Suc show ?thesis by simp
    next
      case 4
      have "length pt \<le> length s1 \<or> terminated s1"
        using 4 Cons.prems(3) Suc by (auto simp: terminated_def)
      then obtain r where r: "c_strncmp s1 (pt @ 0 # rest) (length pt) = Some r"
        "r = 0 \<longleftrightarrow> take (length pt) s1 = pt"
        using c_strncmp_eq Cons.prems(2) by blast
      with 4 Suc IH mo take_cstr_eq [OF Cons.prems(2) 4(3), of s1] show ?thesis
        by auto
    qed
  qed
qed

text \<open>
  Fact (functional).  \<^verbatim>\<open>ngx_strnstr\<close> returns the first offset at which the pattern occurs
  within the first \<open>len\<close> bytes and before the terminator, or null when there is none; it never
  reads past an object that holds \<open>len\<close> bytes or a terminator.
\<close>

theorem ngx_strnstr_first:
  assumes "pat \<noteq> []" and "0 \<notin> set pat" and "len \<le> length s1 \<or> terminated s1"
  shows "ngx_strnstr s1 (pat @ 0 # rest) len = Some (first_occ pat (cstr (take len s1)))"
proof -
  obtain c2 pt where pat: "pat = c2 # pt" using assms(1) by (cases pat) auto
  then have nz: "c2 \<noteq> 0" "0 \<notin> set pt" using assms(2) by auto
  have "takeWhile (\<lambda>c. c \<noteq> 0) (pt @ 0 # rest) = pt"
    by (rule takeWhile_append_hit) (use nz in auto)
  then have "c_strlen (pt @ 0 # rest) = Some (length pt)"
    by (simp add: c_strlen_def terminated_def cstr_def)
  moreover have "map_option ((+) 0) x = x" for x :: "nat option" by (cases x) auto
  ultimately show ?thesis
    using strnstr_loop_first [OF nz assms(3), of rest 0] by (simp add: ngx_strnstr_def pat)
qed

theorem ngx_strnstr_first_witness:
  "ngx_strnstr (chars ''text/html'') (chars ''/h'' @ [0]) 9 = Some (Some 4)"
proof -
  have "chars ''/h'' \<noteq> []" and "0 \<notin> set (chars ''/h'')"
    and "9 \<le> length (chars ''text/html'') \<or> terminated (chars ''text/html'')"
    by (simp_all add: chars_def)
  from ngx_strnstr_first [OF this, of "[]"] show ?thesis
    by (simp add: chars_def cstr_def)
qed

end
