(* ===== verification/Ngx_Numbers.thy ===== *)
theory Ngx_Numbers
  imports Ngx_String
begin

text \<open>
  \<^verbatim>\<open>src/core/ngx_string.c\<close>, second part: the number parsers \<^verbatim>\<open>ngx_atoi\<close>, \<^verbatim>\<open>ngx_atofp\<close>,
  \<^verbatim>\<open>ngx_atosz\<close>, \<^verbatim>\<open>ngx_atoof\<close>, \<^verbatim>\<open>ngx_atotm\<close>, \<^verbatim>\<open>ngx_hextoi\<close>, the printers \<^verbatim>\<open>ngx_hex_dump\<close> and
  \<^verbatim>\<open>ngx_sprintf_num\<close>.  The parsers compute on signed integers, so every assignment is checked:
  \<^term>\<open>None\<close> is a signed overflow, and the theorems show that it never happens.
\<close>

section \<open>Model\<close>

definition assign :: "int \<Rightarrow> int \<Rightarrow> int option" where
  "assign limit v = (if - limit - 1 \<le> v \<and> v \<le> limit then Some v else None)"

definition is_digit :: "u_char \<Rightarrow> bool" where
  "is_digit c \<longleftrightarrow> \<not> (c < ch CHR ''0'' \<or> c > ch CHR ''9'')"

definition digit :: "u_char \<Rightarrow> int" where
  "digit c = uint c - uint (ch CHR ''0'')"

text \<open>The loop shared, up to the type of \<^verbatim>\<open>value\<close> and its largest value, by four of the parsers.\<close>

fun ato_loop :: "int \<Rightarrow> bytes \<Rightarrow> int \<Rightarrow> int option" where
  "ato_loop limit [] v = Some v"
| "ato_loop limit (c # line) v =
     (let cutoff = limit div 10; cutlim = limit mod 10 in
      if \<not> is_digit c then Some NGX_ERROR
      else if v \<ge> cutoff \<and> (v > cutoff \<or> digit c > cutlim) then Some NGX_ERROR
      else case assign limit (v * 10 + digit c) of
             None \<Rightarrow> None
           | Some v' \<Rightarrow> ato_loop limit line v')"

definition ngx_atoi :: "bytes \<Rightarrow> int option" where
  "ngx_atoi line = (if line = [] then Some NGX_ERROR else ato_loop NGX_MAX_INT_T_VALUE line 0)"

definition ngx_atosz :: "bytes \<Rightarrow> int option" where
  "ngx_atosz line = (if line = [] then Some NGX_ERROR else ato_loop NGX_MAX_SIZE_T_VALUE line 0)"

definition ngx_atoof :: "bytes \<Rightarrow> int option" where
  "ngx_atoof line = (if line = [] then Some NGX_ERROR else ato_loop NGX_MAX_OFF_T_VALUE line 0)"

definition ngx_atotm :: "bytes \<Rightarrow> int option" where
  "ngx_atotm line = (if line = [] then Some NGX_ERROR else ato_loop NGX_MAX_TIME_T_VALUE line 0)"

text \<open>\<^verbatim>\<open>ngx_atofp\<close>: the scan of the digits, then the loop that scales by the missing decimals.\<close>

fun atofp_scale :: "nat \<Rightarrow> int \<Rightarrow> int option" where
  "atofp_scale 0 v = Some v"
| "atofp_scale (Suc point) v =
     (if v > NGX_MAX_INT_T_VALUE div 10 then Some NGX_ERROR
      else case assign NGX_MAX_INT_T_VALUE (v * 10) of
             None \<Rightarrow> None
           | Some v' \<Rightarrow> atofp_scale point v')"

fun atofp_loop :: "bytes \<Rightarrow> nat \<Rightarrow> nat \<Rightarrow> int \<Rightarrow> int option" where
  "atofp_loop [] point dot v = atofp_scale point v"
| "atofp_loop (c # line) point dot v =
     (let cutoff = NGX_MAX_INT_T_VALUE div 10; cutlim = NGX_MAX_INT_T_VALUE mod 10 in
      if point = 0 then Some NGX_ERROR
      else if c = ch CHR ''.'' then
        (if dot \<noteq> 0 then Some NGX_ERROR else atofp_loop line point 1 v)
      else if \<not> is_digit c then Some NGX_ERROR
      else if v \<ge> cutoff \<and> (v > cutoff \<or> digit c > cutlim) then Some NGX_ERROR
      else case assign NGX_MAX_INT_T_VALUE (v * 10 + digit c) of
             None \<Rightarrow> None
           | Some v' \<Rightarrow> atofp_loop line (point - dot) dot v')"

definition ngx_atofp :: "bytes \<Rightarrow> nat \<Rightarrow> int option" where
  "ngx_atofp line point = (if line = [] then Some NGX_ERROR else atofp_loop line point 0 0)"

fun hextoi_loop :: "bytes \<Rightarrow> int \<Rightarrow> int option" where
  "hextoi_loop [] v = Some v"
| "hextoi_loop (b # line) v =
     (let c = b OR 0x20 in
      if v > NGX_MAX_INT_T_VALUE div 16 then Some NGX_ERROR
      else if ch CHR ''0'' \<le> b \<and> b \<le> ch CHR ''9'' then
        (case assign NGX_MAX_INT_T_VALUE (v * 16 + (uint b - uint (ch CHR ''0''))) of
           None \<Rightarrow> None | Some v' \<Rightarrow> hextoi_loop line v')
      else if ch CHR ''a'' \<le> c \<and> c \<le> ch CHR ''f'' then
        (case assign NGX_MAX_INT_T_VALUE (v * 16 + (uint c - uint (ch CHR ''a'') + 10)) of
           None \<Rightarrow> None | Some v' \<Rightarrow> hextoi_loop line v')
      else Some NGX_ERROR)"

definition ngx_hextoi :: "bytes \<Rightarrow> int option" where
  "ngx_hextoi line = (if line = [] then Some NGX_ERROR else hextoi_loop line 0)"

definition hex_lower :: bytes where "hex_lower = chars ''0123456789abcdef''"
definition hex_upper :: bytes where "hex_upper = chars ''0123456789ABCDEF''"

fun ngx_hex_dump :: "bytes \<Rightarrow> bytes" where
  "ngx_hex_dump [] = []"
| "ngx_hex_dump (c # src) =
     hex_lower ! unat (drop_bit 4 c) # hex_lower ! unat (c AND 0xf) # ngx_hex_dump src"

text \<open>
  \<^verbatim>\<open>ngx_sprintf_num\<close> fills \<^verbatim>\<open>temp\<close> from its end; \<open>temp\<close> here is the part already filled.  The
  32-bit loop of the code computes the same digits as the 64-bit one.
\<close>

function num_digits :: "uint64 \<Rightarrow> bytes \<Rightarrow> bytes" where
  "num_digits ui64 temp =
     (let temp' = ucast (ui64 mod 10 + ucast (ch CHR ''0'')) # temp; q = ui64 div 10 in
      if q \<noteq> 0 then num_digits q temp' else temp')"
  by pat_completeness auto
termination
proof (relation "measure (\<lambda>(ui64, temp). unat ui64)", goal_cases)
  case 1
  then show ?case by simp
next
  case (2 ui64 temp temp' q)
  then have "ui64 \<noteq> 0" by auto
  then have "0 < unat ui64" by (simp add: unat_gt_0)
  moreover have "unat (ui64 div 10) = unat ui64 div 10" by (simp add: unat_div_distrib)
  ultimately show ?case using 2 by simp
qed

function num_hex :: "bytes \<Rightarrow> uint64 \<Rightarrow> bytes \<Rightarrow> bytes" where
  "num_hex hex ui64 temp =
     (let temp' = hex ! unat (ui64 AND 0xf) # temp; q = drop_bit 4 ui64 in
      if q \<noteq> 0 then num_hex hex q temp' else temp')"
  by pat_completeness auto
termination
proof (relation "measure (\<lambda>(hex, ui64, temp). unat ui64)", goal_cases)
  case 1
  then show ?case by simp
next
  case (2 hex ui64 temp temp' q)
  then have "ui64 \<noteq> 0" by auto
  then have "0 < unat ui64" by (simp add: unat_gt_0)
  moreover have "unat (drop_bit 4 ui64) = unat ui64 div 16" by (simp add: drop_bit_eq_div unat_div_distrib)
  ultimately show ?case using 2 by simp
qed

declare num_digits.simps [simp del] num_hex.simps [simp del]

text \<open>The bytes written at \<^verbatim>\<open>buf\<close>, of which \<open>room\<close> are free before \<^verbatim>\<open>last\<close>.\<close>

definition ngx_sprintf_num :: "nat \<Rightarrow> uint64 \<Rightarrow> u_char \<Rightarrow> nat \<Rightarrow> nat \<Rightarrow> bytes" where
  "ngx_sprintf_num room ui64 zero hexadecimal width =
     (let temp = (if hexadecimal = 0 then num_digits ui64 []
                  else if hexadecimal = 1 then num_hex hex_lower ui64 []
                  else num_hex hex_upper ui64 []);
          pad = min (width - length temp) room
      in replicate pad zero @ take (room - pad) temp)"

section \<open>The value of a digit string\<close>

definition dec_from :: "int \<Rightarrow> bytes \<Rightarrow> int" where
  "dec_from v line = foldl (\<lambda>v c. v * 10 + digit c) v line"

lemma dec_from_simps [simp]:
  "dec_from v [] = v" "dec_from v (c # line) = dec_from (v * 10 + digit c) line"
  "dec_from v (xs @ ys) = dec_from (dec_from v xs) ys"
  by (simp_all add: dec_from_def)

lemma digit_range: "is_digit c \<Longrightarrow> 0 \<le> digit c \<and> digit c \<le> 9"
proof -
  have "is_digit c \<longrightarrow> 0 \<le> digit c \<and> digit c \<le> 9"
    by (rule byte_exhaust) (simp add: byte_values_def is_digit_def digit_def)
  then show "is_digit c \<Longrightarrow> ?thesis" ..
qed

lemma dec_from_ge: "list_all is_digit line \<Longrightarrow> 0 \<le> v \<Longrightarrow> v \<le> dec_from v line"
proof (induction line arbitrary: v)
  case (Cons c line)
  then have "0 \<le> digit c" using digit_range by simp
  with Cons have "v * 10 + digit c \<le> dec_from (v * 10 + digit c) line" by simp
  with \<open>0 \<le> digit c\<close> Cons.prems show ?case by simp
qed simp

lemma cutoff_exact:
  assumes "(0 :: int) \<le> d" and "d \<le> 9"
  shows "v \<ge> limit div 10 \<and> (v > limit div 10 \<or> d > limit mod 10) \<longleftrightarrow> limit < v * 10 + d"
proof -
  have "limit = limit div 10 * 10 + limit mod 10" and "0 \<le> limit mod 10" and "limit mod 10 < 10"
    by simp_all
  with assms show ?thesis by linarith
qed

lemma ato_loop_exact:
  assumes "0 \<le> v" and "v \<le> limit"
  shows "ato_loop limit line v =
    Some (if list_all is_digit line \<and> dec_from v line \<le> limit then dec_from v line else NGX_ERROR)"
  using assms
proof (induction line arbitrary: v)
  case (Cons c line)
  show ?case
  proof (cases "is_digit c")
    case True
    note d = digit_range [OF True]
    have big: "limit < v * 10 + digit c \<Longrightarrow> list_all is_digit line \<Longrightarrow>
        limit < dec_from (v * 10 + digit c) line"
      using dec_from_ge [of line "v * 10 + digit c"] Cons.prems d by simp
    show ?thesis
      using Cons.prems d True big Cons.IH [of "v * 10 + digit c"]
        cutoff_exact [where d = "digit c" and v = v and limit = limit]
      by (auto simp: Let_def assign_def)
  qed simp
qed simp

text \<open>
  Fact (functional).  \<^verbatim>\<open>ngx_atoi\<close> accepts exactly the non-empty strings of decimal digits
  whose value fits in \<^verbatim>\<open>ngx_int_t\<close>, returns that value, returns \<^verbatim>\<open>NGX_ERROR\<close> on everything else,
  and no intermediate value overflows; the cut-off test is exact.
\<close>

theorem ngx_atoi_exact:
  "ngx_atoi line =
    Some (if line \<noteq> [] \<and> list_all is_digit line \<and> dec_from 0 line \<le> NGX_MAX_INT_T_VALUE
          then dec_from 0 line else NGX_ERROR)"
  by (simp add: ngx_atoi_def ato_loop_exact NGX_MAX_INT_T_VALUE_def)

section \<open>Printing and parsing\<close>

lemma num_digits_append: "num_digits n temp = num_digits n [] @ temp"
proof (induction "unat n" arbitrary: n temp rule: less_induct)
  case less
  have less: "num_digits (n div 10) t = num_digits (n div 10) [] @ t" if "n div 10 \<noteq> 0" for t
  proof (rule less)
    have "n \<noteq> 0" using that by auto
    then have "0 < unat n" by (simp add: unat_gt_0)
    then show "unat (n div 10) < unat n" by (simp add: unat_div_distrib)
  qed
  show ?case
  proof (cases "n div 10 = 0")
    case True
    then show ?thesis by (simp add: num_digits.simps [of n] Let_def)
  next
    case False
    let ?d = "ucast (n mod 10 + ucast (ch CHR ''0'')) :: u_char"
    have "num_digits n temp = num_digits (n div 10) (?d # temp)"
      and "num_digits n [] = num_digits (n div 10) [?d]"
      using False by (simp_all add: num_digits.simps [of n] Let_def)
    moreover have "num_digits (n div 10) (?d # t) = num_digits (n div 10) [] @ ?d # t" for t
      using False by (rule less)
    ultimately show ?thesis by (metis append_Cons append_Nil append_assoc)
  qed
qed

lemma digit_char:
  assumes "n < (10 :: uint64)"
  shows "is_digit (ucast (n + 48)) \<and> digit (ucast (n + 48) :: u_char) = uint n"
proof -
  have "unat n < 10" using assms by (simp add: word_less_nat_alt)
  then have "unat n \<in> {0,1,2,3,4,5,6,7,8,9}" by auto
  then have "n \<in> {0,1,2,3,4,5,6,7,8,9}"
    by (auto simp: word_unat_eq_iff)
  then show ?thesis by (auto simp: is_digit_def digit_def)
qed

lemma num_digits_value:
  "num_digits n [] \<noteq> [] \<and> list_all is_digit (num_digits n []) \<and> dec_from 0 (num_digits n []) = uint n"
proof (induction "unat n" arbitrary: n rule: less_induct)
  case less
  let ?d = "ucast (n mod 10 + 48) :: u_char"
  have d: "is_digit ?d" "digit ?d = uint (n mod 10)"
    using digit_char [of "n mod 10"] by (auto simp: word_mod_less_divisor)
  have q: "uint n = uint (n div 10) * 10 + uint (n mod 10)"
    by (simp add: uint_div_distrib uint_mod_distrib)
  show ?case
  proof (cases "n div 10 = 0")
    case True
    with d q show ?thesis by (simp add: num_digits.simps [of n] Let_def)
  next
    case False
    then have "n \<noteq> 0" by auto
    then have "0 < unat n" by (simp add: unat_gt_0)
    then have "unat (n div 10) < unat n" by (simp add: unat_div_distrib)
    moreover have "num_digits n [] = num_digits (n div 10) [] @ [?d]"
      using False num_digits_append [of "n div 10" "[?d]"] by (simp add: num_digits.simps [of n] Let_def)
    ultimately show ?thesis using less [of "n div 10"] d q by simp
  qed
qed

text \<open>
  Fact (roundtrip).  A number printed by \<^verbatim>\<open>ngx_sprintf_num\<close> in decimal, without padding and
  into a buffer with room for its digits, is read back by \<^verbatim>\<open>ngx_atoi\<close>.
\<close>

theorem ngx_atoi_sprintf_num:
  assumes "uint n \<le> NGX_MAX_INT_T_VALUE" and "length (num_digits n []) \<le> room"
  shows "ngx_atoi (ngx_sprintf_num room n zero 0 0) = Some (uint n)"
  using assms num_digits_value [of n]
  by (simp add: ngx_sprintf_num_def ngx_atoi_def ato_loop_exact NGX_MAX_INT_T_VALUE_def)

theorem ngx_atoi_sprintf_num_witness:
  "ngx_atoi (ngx_sprintf_num 20 65535 (ch CHR '' '') 0 0) = Some 65535"
proof -
  have "uint (65535 :: uint64) \<le> NGX_MAX_INT_T_VALUE" by (simp add: NGX_MAX_INT_T_VALUE_def)
  moreover have "length (num_digits 65535 []) \<le> 20" by (simp add: num_digits.simps Let_def)
  ultimately have "ngx_atoi (ngx_sprintf_num 20 65535 (ch CHR '' '') 0 0) = Some (uint (65535 :: uint64))"
    by (rule ngx_atoi_sprintf_num)
  then show ?thesis by simp
qed

text \<open>
  Fact (bounds).  \<^verbatim>\<open>ngx_sprintf_num\<close> never writes more than the free bytes before
  \<^verbatim>\<open>last\<close>, whatever the number, the base and the width.
\<close>

theorem ngx_sprintf_num_bounded:
  "length (ngx_sprintf_num room n zero hexadecimal width) \<le> room"
  by (simp add: ngx_sprintf_num_def Let_def)

section \<open>Fixed-point numbers\<close>

lemma scale_ge: "(0 :: int) \<le> v \<Longrightarrow> v \<le> v * 10 ^ p"
  by (simp add: mult_le_cancel_left1)

lemma atofp_scale_exact:
  assumes "0 \<le> v" and "v \<le> NGX_MAX_INT_T_VALUE"
  shows "atofp_scale p v =
    Some (if v * 10 ^ p \<le> NGX_MAX_INT_T_VALUE then v * 10 ^ p else NGX_ERROR)"
  using assms
proof (induction p arbitrary: v)
  case (Suc p)
  have eq: "v * 10 ^ Suc p = v * 10 * 10 ^ p" by simp
  have big: "v > NGX_MAX_INT_T_VALUE div 10 \<Longrightarrow> v * 10 * 10 ^ p > NGX_MAX_INT_T_VALUE"
    using Suc.prems scale_ge [of "v * 10" p] unfolding NGX_MAX_INT_T_VALUE_def by linarith
  show ?case
  proof (cases "v > NGX_MAX_INT_T_VALUE div 10")
    case True
    with big eq show ?thesis by simp
  next
    case False
    then have "v * 10 \<le> NGX_MAX_INT_T_VALUE" by (simp add: NGX_MAX_INT_T_VALUE_def)
    with False Suc eq show ?thesis by (simp add: assign_def)
  qed
qed simp

lemma atofp_digit_step:
  assumes "is_digit c" and "0 \<le> v" and "v * 10 + digit c \<le> NGX_MAX_INT_T_VALUE" and "point > 0"
  shows "atofp_loop (c # line) point dot v = atofp_loop line (point - dot) dot (v * 10 + digit c)"
proof -
  have "c \<noteq> ch CHR ''.''" using assms(1) by (auto simp: is_digit_def)
  moreover have "\<not> (v \<ge> NGX_MAX_INT_T_VALUE div 10 \<and>
      (v > NGX_MAX_INT_T_VALUE div 10 \<or> digit c > NGX_MAX_INT_T_VALUE mod 10))"
    using assms digit_range [OF assms(1)] cutoff_exact [where d = "digit c" and v = v and limit = NGX_MAX_INT_T_VALUE]
    by linarith
  moreover have "assign NGX_MAX_INT_T_VALUE (v * 10 + digit c) = Some (v * 10 + digit c)"
    using assms digit_range [OF assms(1)] by (simp add: assign_def NGX_MAX_INT_T_VALUE_def)
  ultimately show ?thesis
    using assms by (simp only: atofp_loop.simps Let_def) simp
qed

lemma atofp_fraction:
  assumes "list_all is_digit fp" and "length fp \<le> point" and "0 \<le> v"
    and "dec_from v fp \<le> NGX_MAX_INT_T_VALUE"
  shows "atofp_loop fp point 1 v = atofp_scale (point - length fp) (dec_from v fp)"
  using assms
proof (induction fp arbitrary: point v)
  case (Cons c fp)
  then have d: "is_digit c" "0 \<le> v * 10 + digit c" "0 < point"
    using digit_range [of c] by auto
  have "v * 10 + digit c \<le> NGX_MAX_INT_T_VALUE"
    using dec_from_ge [of fp "v * 10 + digit c"] Cons.prems d by simp
  with Cons d show ?case by (simp add: atofp_digit_step del: atofp_loop.simps)
qed simp

lemma atofp_integer_part:
  assumes "list_all is_digit ip" and "0 < point" and "0 \<le> v" and "dec_from v ip \<le> NGX_MAX_INT_T_VALUE"
  shows "atofp_loop (ip @ ch CHR ''.'' # fp) point 0 v = atofp_loop fp point 1 (dec_from v ip)"
  using assms
proof (induction ip arbitrary: v)
  case (Cons c ip)
  then have d: "is_digit c" "0 \<le> v * 10 + digit c"
    using digit_range [of c] by auto
  have "v * 10 + digit c \<le> NGX_MAX_INT_T_VALUE"
    using dec_from_ge [of ip "v * 10 + digit c"] Cons.prems d by simp
  with Cons d show ?case by (simp add: atofp_digit_step del: atofp_loop.simps)
qed simp

text \<open>
  Fact (functional).  On \<open>digits.digits\<close> with at most \<open>point\<close> decimals, \<^verbatim>\<open>ngx_atofp\<close>
  returns the number times ten to the power \<open>point\<close>, or \<^verbatim>\<open>NGX_ERROR\<close> when that does not fit;
  nothing overflows on the way.
\<close>

theorem ngx_atofp_exact:
  assumes "list_all is_digit ip" and "list_all is_digit fp" and "length fp \<le> point" and "0 < point"
    and "dec_from 0 (ip @ fp) \<le> NGX_MAX_INT_T_VALUE"
  shows "ngx_atofp (ip @ ch CHR ''.'' # fp) point =
    (let v = dec_from 0 (ip @ fp) * 10 ^ (point - length fp)
     in Some (if v \<le> NGX_MAX_INT_T_VALUE then v else NGX_ERROR))"
proof -
  have ip: "0 \<le> dec_from 0 ip" and "dec_from 0 ip \<le> dec_from (dec_from 0 ip) fp"
    using dec_from_ge [OF assms(1)] dec_from_ge [OF assms(2)] by simp_all
  then have "ngx_atofp (ip @ ch CHR ''.'' # fp) point =
      atofp_scale (point - length fp) (dec_from 0 (ip @ fp))"
    using assms
    by (simp add: ngx_atofp_def atofp_integer_part [simplified] atofp_fraction [simplified] del: atofp_loop.simps)
  with ip assms dec_from_ge [OF assms(2), of "dec_from 0 ip"] show ?thesis
    by (simp add: atofp_scale_exact Let_def)
qed

theorem ngx_atofp_exact_witness: "ngx_atofp (chars ''10.5'') 2 = Some 1050"
proof -
  have "list_all is_digit (chars ''10'')" and "list_all is_digit (chars ''5'')"
    and "length (chars ''5'') \<le> 2" and "0 < (2 :: nat)"
    and "dec_from 0 (chars ''10'' @ chars ''5'') \<le> NGX_MAX_INT_T_VALUE"
    by (simp_all add: chars_def is_digit_def digit_def NGX_MAX_INT_T_VALUE_def)
  from ngx_atofp_exact [OF this] show ?thesis
    by (simp add: chars_def digit_def NGX_MAX_INT_T_VALUE_def Let_def)
qed

section \<open>Hexadecimal numbers\<close>

definition is_hex :: "u_char \<Rightarrow> bool" where
  "is_hex b \<longleftrightarrow> is_digit b \<or> (let c = b OR 0x20 in ch CHR ''a'' \<le> c \<and> c \<le> ch CHR ''f'')"

definition hex_digit :: "u_char \<Rightarrow> int" where
  "hex_digit b = (if is_digit b then digit b else uint (b OR 0x20) - uint (ch CHR ''a'') + 10)"

definition hex_from :: "int \<Rightarrow> bytes \<Rightarrow> int" where
  "hex_from v line = foldl (\<lambda>v c. v * 16 + hex_digit c) v line"

lemma hex_from_simps [simp]:
  "hex_from v [] = v" "hex_from v (c # line) = hex_from (v * 16 + hex_digit c) line"
  "hex_from v (xs @ ys) = hex_from (hex_from v xs) ys"
  by (simp_all add: hex_from_def)

lemma hex_digit_range: "is_hex c \<Longrightarrow> 0 \<le> hex_digit c \<and> hex_digit c \<le> 15"
proof -
  have "is_hex c \<longrightarrow> 0 \<le> hex_digit c \<and> hex_digit c \<le> 15"
    by (rule byte_exhaust) (simp add: byte_values_def is_hex_def is_digit_def hex_digit_def digit_def)
  then show "is_hex c \<Longrightarrow> ?thesis" ..
qed

lemma hex_from_ge: "list_all is_hex line \<Longrightarrow> 0 \<le> v \<Longrightarrow> v \<le> hex_from v line"
proof (induction line arbitrary: v)
  case (Cons c line)
  then have "0 \<le> hex_digit c" using hex_digit_range by simp
  with Cons have "v * 16 + hex_digit c \<le> hex_from (v * 16 + hex_digit c) line" by simp
  with \<open>0 \<le> hex_digit c\<close> Cons.prems show ?case by simp
qed simp

lemma hextoi_loop_step:
  "hextoi_loop (b # line) v =
     (if v > NGX_MAX_INT_T_VALUE div 16 \<or> \<not> is_hex b then Some NGX_ERROR
      else case assign NGX_MAX_INT_T_VALUE (v * 16 + hex_digit b) of
             None \<Rightarrow> None | Some v' \<Rightarrow> hextoi_loop line v')"
  by (auto simp: Let_def is_hex_def is_digit_def hex_digit_def digit_def not_less)

lemma hextoi_loop_exact:
  assumes "0 \<le> v" and "v \<le> NGX_MAX_INT_T_VALUE"
  shows "hextoi_loop line v =
    Some (if list_all is_hex line \<and> hex_from v line \<le> NGX_MAX_INT_T_VALUE
          then hex_from v line else NGX_ERROR)"
  using assms
proof (induction line arbitrary: v)
  case (Cons c line)
  show ?case
  proof (cases "is_hex c")
    case True
    note d = hex_digit_range [OF True]
    show ?thesis
    proof (cases "v > NGX_MAX_INT_T_VALUE div 16")
      case big: True
      then have "NGX_MAX_INT_T_VALUE < v * 16 + hex_digit c"
        using d by (simp add: NGX_MAX_INT_T_VALUE_def)
      with big True Cons.prems d hex_from_ge [of line "v * 16 + hex_digit c"] show ?thesis
        by (auto simp add: hextoi_loop_step simp del: hextoi_loop.simps)
    next
      case False
      then have "v * 16 + hex_digit c \<le> NGX_MAX_INT_T_VALUE"
        using d by (simp add: NGX_MAX_INT_T_VALUE_def)
      with False True Cons d show ?thesis
        by (auto simp add: hextoi_loop_step assign_def simp del: hextoi_loop.simps(2))
    qed
  next
    case False
    then show ?thesis by (simp add: hextoi_loop_step del: hextoi_loop.simps)
  qed
qed simp

text \<open>
  Fact (functional).  \<^verbatim>\<open>ngx_hextoi\<close> accepts exactly the non-empty strings of hexadecimal
  digits of either case whose value fits, and nothing overflows on the way.
\<close>

theorem ngx_hextoi_exact:
  "ngx_hextoi line =
    Some (if line \<noteq> [] \<and> list_all is_hex line \<and> hex_from 0 line \<le> NGX_MAX_INT_T_VALUE
          then hex_from 0 line else NGX_ERROR)"
  by (simp add: ngx_hextoi_def hextoi_loop_exact NGX_MAX_INT_T_VALUE_def)

end
