(* ===== verification/Ngx_Base64.thy ===== *)
theory Ngx_Base64
  imports Ngx_Interfaces
begin

text \<open>
  \<^verbatim>\<open>src/core/ngx_string.c\<close>, the base64 codecs: \<^verbatim>\<open>ngx_encode_base64\<close>, \<^verbatim>\<open>ngx_encode_base64url\<close>,
  \<^verbatim>\<open>ngx_decode_base64\<close>, \<^verbatim>\<open>ngx_decode_base64url\<close> and their internal routines, with the tables
  of the source.  Both pairs are instances of the \<open>codec\<close> contract.
\<close>

section \<open>Model\<close>

definition basis64 :: bytes where
  "basis64 = chars ''ABCDEFGHIJKLMNOPQRSTUVWXYZabcdefghijklmnopqrstuvwxyz0123456789+/''"

definition basis64url :: bytes where
  "basis64url = chars ''ABCDEFGHIJKLMNOPQRSTUVWXYZabcdefghijklmnopqrstuvwxyz0123456789-_''"

text \<open>The loop \<^verbatim>\<open>while (len > 2)\<close> and the tail of one or two bytes.\<close>

fun ngx_encode_base64_internal :: "bytes \<Rightarrow> bool \<Rightarrow> bytes \<Rightarrow> bytes" where
  "ngx_encode_base64_internal basis padding (s0 # s1 # s2 # s) =
     basis ! unat (drop_bit 2 s0 AND 0x3f)
     # basis ! unat (push_bit 4 (s0 AND 3) OR drop_bit 4 s1)
     # basis ! unat (push_bit 2 (s1 AND 0x0f) OR drop_bit 6 s2)
     # basis ! unat (s2 AND 0x3f)
     # ngx_encode_base64_internal basis padding s"
| "ngx_encode_base64_internal basis padding [s0, s1] =
     [basis ! unat (drop_bit 2 s0 AND 0x3f),
      basis ! unat (push_bit 4 (s0 AND 3) OR drop_bit 4 s1),
      basis ! unat (push_bit 2 (s1 AND 0x0f))]
     @ (if padding then [ch CHR ''='' ] else [])"
| "ngx_encode_base64_internal basis padding [s0] =
     [basis ! unat (drop_bit 2 s0 AND 0x3f), basis ! unat (push_bit 4 (s0 AND 3))]
     @ (if padding then [ch CHR ''='' ] else [])
     @ (if padding then [ch CHR ''='' ] else [])"
| "ngx_encode_base64_internal basis padding [] = []"

definition ngx_encode_base64 :: "bytes \<Rightarrow> bytes" where
  "ngx_encode_base64 src = ngx_encode_base64_internal basis64 True src"

definition ngx_encode_base64url :: "bytes \<Rightarrow> bytes" where
  "ngx_encode_base64url src = ngx_encode_base64_internal basis64url False src"

definition decode64 :: bytes where
  "decode64 = [
     77, 77, 77, 77, 77, 77, 77, 77, 77, 77, 77, 77, 77, 77, 77, 77,
     77, 77, 77, 77, 77, 77, 77, 77, 77, 77, 77, 77, 77, 77, 77, 77,
     77, 77, 77, 77, 77, 77, 77, 77, 77, 77, 77, 62, 77, 77, 77, 63,
     52, 53, 54, 55, 56, 57, 58, 59, 60, 61, 77, 77, 77, 77, 77, 77,
     77, 0, 1, 2, 3, 4, 5, 6, 7, 8, 9, 10, 11, 12, 13, 14,
     15, 16, 17, 18, 19, 20, 21, 22, 23, 24, 25, 77, 77, 77, 77, 77,
     77, 26, 27, 28, 29, 30, 31, 32, 33, 34, 35, 36, 37, 38, 39, 40,
     41, 42, 43, 44, 45, 46, 47, 48, 49, 50, 51, 77, 77, 77, 77, 77,
     77, 77, 77, 77, 77, 77, 77, 77, 77, 77, 77, 77, 77, 77, 77, 77,
     77, 77, 77, 77, 77, 77, 77, 77, 77, 77, 77, 77, 77, 77, 77, 77,
     77, 77, 77, 77, 77, 77, 77, 77, 77, 77, 77, 77, 77, 77, 77, 77,
     77, 77, 77, 77, 77, 77, 77, 77, 77, 77, 77, 77, 77, 77, 77, 77,
     77, 77, 77, 77, 77, 77, 77, 77, 77, 77, 77, 77, 77, 77, 77, 77,
     77, 77, 77, 77, 77, 77, 77, 77, 77, 77, 77, 77, 77, 77, 77, 77,
     77, 77, 77, 77, 77, 77, 77, 77, 77, 77, 77, 77, 77, 77, 77, 77,
     77, 77, 77, 77, 77, 77, 77, 77, 77, 77, 77, 77, 77, 77, 77, 77]"

definition decode64url :: bytes where
  "decode64url = [
     77, 77, 77, 77, 77, 77, 77, 77, 77, 77, 77, 77, 77, 77, 77, 77,
     77, 77, 77, 77, 77, 77, 77, 77, 77, 77, 77, 77, 77, 77, 77, 77,
     77, 77, 77, 77, 77, 77, 77, 77, 77, 77, 77, 77, 77, 62, 77, 77,
     52, 53, 54, 55, 56, 57, 58, 59, 60, 61, 77, 77, 77, 77, 77, 77,
     77, 0, 1, 2, 3, 4, 5, 6, 7, 8, 9, 10, 11, 12, 13, 14,
     15, 16, 17, 18, 19, 20, 21, 22, 23, 24, 25, 77, 77, 77, 77, 63,
     77, 26, 27, 28, 29, 30, 31, 32, 33, 34, 35, 36, 37, 38, 39, 40,
     41, 42, 43, 44, 45, 46, 47, 48, 49, 50, 51, 77, 77, 77, 77, 77,
     77, 77, 77, 77, 77, 77, 77, 77, 77, 77, 77, 77, 77, 77, 77, 77,
     77, 77, 77, 77, 77, 77, 77, 77, 77, 77, 77, 77, 77, 77, 77, 77,
     77, 77, 77, 77, 77, 77, 77, 77, 77, 77, 77, 77, 77, 77, 77, 77,
     77, 77, 77, 77, 77, 77, 77, 77, 77, 77, 77, 77, 77, 77, 77, 77,
     77, 77, 77, 77, 77, 77, 77, 77, 77, 77, 77, 77, 77, 77, 77, 77,
     77, 77, 77, 77, 77, 77, 77, 77, 77, 77, 77, 77, 77, 77, 77, 77,
     77, 77, 77, 77, 77, 77, 77, 77, 77, 77, 77, 77, 77, 77, 77, 77,
     77, 77, 77, 77, 77, 77, 77, 77, 77, 77, 77, 77, 77, 77, 77, 77]"

text \<open>The first loop of the decoder: the length up to a padding character, or an invalid byte.\<close>

fun decode_len :: "bytes \<Rightarrow> bytes \<Rightarrow> nat option" where
  "decode_len basis [] = Some 0"
| "decode_len basis (c # src) =
     (if c = ch CHR ''='' then Some 0
      else if basis ! unat c = 77 then None
      else map_option Suc (decode_len basis src))"

text \<open>The loop \<^verbatim>\<open>while (len > 3)\<close> and the two conditional writes after it.\<close>

fun decode_quads :: "bytes \<Rightarrow> bytes \<Rightarrow> bytes" where
  "decode_quads basis (a # b # c # d # s) =
     (push_bit 2 (basis ! unat a) OR drop_bit 4 (basis ! unat b))
     # (push_bit 4 (basis ! unat b) OR drop_bit 2 (basis ! unat c))
     # (push_bit 6 (basis ! unat c) OR basis ! unat d)
     # decode_quads basis s"
| "decode_quads basis [a, b, c] =
     [push_bit 2 (basis ! unat a) OR drop_bit 4 (basis ! unat b),
      push_bit 4 (basis ! unat b) OR drop_bit 2 (basis ! unat c)]"
| "decode_quads basis [a, b] = [push_bit 2 (basis ! unat a) OR drop_bit 4 (basis ! unat b)]"
| "decode_quads basis _ = []"

definition ngx_decode_base64_internal :: "bytes \<Rightarrow> bytes \<Rightarrow> bytes option" where
  "ngx_decode_base64_internal basis src =
     (case decode_len basis src of
        None \<Rightarrow> None
      | Some len \<Rightarrow> if len mod 4 = 1 then None else Some (decode_quads basis (take len src)))"

definition ngx_decode_base64 :: "bytes \<Rightarrow> bytes option" where
  "ngx_decode_base64 src = ngx_decode_base64_internal decode64 src"

definition ngx_decode_base64url :: "bytes \<Rightarrow> bytes option" where
  "ngx_decode_base64url src = ngx_decode_base64_internal decode64url src"

section \<open>The tables are inverse to each other\<close>

text \<open>A pair of tables as the round trip needs it, for either alphabet.\<close>

definition tables_agree :: "bytes \<Rightarrow> bytes \<Rightarrow> bool" where
  "tables_agree basis dec \<longleftrightarrow>
     (\<forall>v < (64 :: u_char). dec ! unat (basis ! unat v) = v \<and> basis ! unat v \<noteq> ch CHR ''='')"

lemma tables_agreeD:
  assumes "tables_agree basis dec" and "v < 64"
  shows "dec ! unat (basis ! unat v) = v" and "basis ! unat v \<noteq> 61" and "v \<noteq> 77"
  using assms by (auto simp: tables_agree_def)

lemma tables_agree_std: "tables_agree basis64 decode64"
proof -
  have "v < 64 \<longrightarrow> decode64 ! unat (basis64 ! unat v) = v \<and> basis64 ! unat v \<noteq> ch CHR ''=''" for v
    by (rule byte_exhaust) (simp add: byte_values_def decode64_def basis64_def chars_def)
  then show ?thesis by (simp add: tables_agree_def)
qed

lemma tables_agree_url: "tables_agree basis64url decode64url"
proof -
  have "v < 64 \<longrightarrow> decode64url ! unat (basis64url ! unat v) = v \<and> basis64url ! unat v \<noteq> ch CHR ''=''" for v
    by (rule byte_exhaust) (simp add: byte_values_def decode64url_def basis64url_def chars_def)
  then show ?thesis by (simp add: tables_agree_def)
qed

section \<open>Sextets\<close>

lemma sextets:
  "drop_bit 2 s0 AND 0x3f < (64 :: u_char)"
  "push_bit 4 (s0 AND 3) OR drop_bit 4 s1 < (64 :: u_char)"
  "push_bit 2 (s1 AND 0x0f) OR drop_bit 6 s2 < (64 :: u_char)"
  "s2 AND 0x3f < (64 :: u_char)"
  "push_bit 2 (s1 AND 0x0f) < (64 :: u_char)"
  "push_bit 4 (s0 AND 3) < (64 :: u_char)"
  by (rule byte_less_64; simp add: byte_bits impossible_bit)+

lemma join_sextets:
  "push_bit 2 (drop_bit 2 s0 AND 0x3f) OR drop_bit 4 (push_bit 4 (s0 AND 3) OR drop_bit 4 s1) = (s0 :: u_char)"
  "push_bit 4 (push_bit 4 (s0 AND 3) OR drop_bit 4 s1)
     OR drop_bit 2 (push_bit 2 (s1 AND 0x0f) OR drop_bit 6 s2) = (s1 :: u_char)"
  "push_bit 6 (push_bit 2 (s1 AND 0x0f) OR drop_bit 6 s2) OR (s2 AND 0x3f) = (s2 :: u_char)"
  "push_bit 2 (drop_bit 2 s0 AND 0x3f) OR drop_bit 4 (push_bit 4 (s0 AND 3)) = (s0 :: u_char)"
  "push_bit 4 (push_bit 4 (s0 AND 3) OR drop_bit 4 s1) OR drop_bit 2 (push_bit 2 (s1 AND 0x0f)) = (s1 :: u_char)"
  by (rule byte_eqI; simp add: byte_bits)+

section \<open>The round trip for any pair of tables\<close>

lemma decode_len_enc:
  assumes "tables_agree basis dec" and "(v :: u_char) < 64"
  shows "decode_len dec (basis ! unat v # s) = map_option Suc (decode_len dec s)"
  using tables_agreeD [OF assms] by simp

lemma decode_len_padding: "decode_len dec (ch CHR ''='' # s) = Some 0"
  by simp

lemma quads_round_trip:
  assumes t: "tables_agree basis dec"
  shows "\<exists>len. decode_len dec (ngx_encode_base64_internal basis padding s) = Some len
    \<and> len mod 4 \<noteq> 1
    \<and> decode_quads dec (take len (ngx_encode_base64_internal basis padding s)) = s"
  using t
proof (induction basis padding s rule: ngx_encode_base64_internal.induct)
  case (1 basis padding s0 s1 s2 s)
  let ?e = "ngx_encode_base64_internal basis padding s"
  obtain len where len: "decode_len dec ?e = Some len" "len mod 4 \<noteq> 1" "decode_quads dec (take len ?e) = s"
    using 1 by blast
  note dec = tables_agreeD(1) [OF 1(2)]
  have four: "len + 4 = Suc (Suc (Suc (Suc len)))" by simp
  have "decode_len dec (ngx_encode_base64_internal basis padding (s0 # s1 # s2 # s)) = Some (len + 4)"
    unfolding ngx_encode_base64_internal.simps
    by (simp only: decode_len_enc [OF 1(2)] sextets len(1) option.map) simp
  moreover have "decode_quads dec (take (len + 4) (ngx_encode_base64_internal basis padding (s0 # s1 # s2 # s)))
      = s0 # s1 # s2 # s"
    unfolding ngx_encode_base64_internal.simps four
    by (simp only: take_Suc_Cons decode_quads.simps dec sextets len(3) join_sextets)
  moreover have "(len + 4) mod 4 \<noteq> 1" using len(2) by simp
  ultimately show ?case by blast
next
  case (2 basis padding s0 s1)
  note dec = tables_agreeD(1) [OF 2]
  have "decode_len dec (if padding then [ch CHR ''=''] else []) = Some 0" by simp
  then have "decode_len dec (ngx_encode_base64_internal basis padding [s0, s1]) = Some 3"
    unfolding ngx_encode_base64_internal.simps append_Cons append_Nil
    by (simp only: decode_len_enc [OF 2] sextets option.map) simp
  moreover have "decode_quads dec (take 3 (ngx_encode_base64_internal basis padding [s0, s1])) = [s0, s1]"
    unfolding ngx_encode_base64_internal.simps
    by (simp only: append_Cons numeral_3_eq_3 take_Suc_Cons take_0 decode_quads.simps dec sextets join_sextets)
  ultimately show ?case by (intro exI [of _ 3]) simp
next
  case (3 basis padding s0)
  note dec = tables_agreeD(1) [OF 3]
  have "decode_len dec ((if padding then [ch CHR ''=''] else []) @ (if padding then [ch CHR ''=''] else [])) = Some 0"
    by simp
  then have "decode_len dec (ngx_encode_base64_internal basis padding [s0]) = Some 2"
    unfolding ngx_encode_base64_internal.simps append_Cons append_Nil
    by (simp only: decode_len_enc [OF 3] sextets option.map) simp
  moreover have "take 2 xs = take (Suc (Suc 0)) xs" for xs :: bytes
    by (simp only: numeral_2_eq_2)
  then have "decode_quads dec (take 2 (ngx_encode_base64_internal basis padding [s0])) = [s0]"
    unfolding ngx_encode_base64_internal.simps
    by (simp only: append_Cons take_Suc_Cons take_0 decode_quads.simps dec sextets join_sextets)
  ultimately show ?case by (intro exI [of _ 2]) simp
qed simp

interpretation base64: codec ngx_encode_base64 ngx_decode_base64
proof
  fix s
  show "ngx_decode_base64 (ngx_encode_base64 s) = Some s"
    using quads_round_trip [OF tables_agree_std, of True s]
    by (auto simp: ngx_decode_base64_def ngx_encode_base64_def ngx_decode_base64_internal_def)
qed

interpretation base64url: codec ngx_encode_base64url ngx_decode_base64url
proof
  fix s
  show "ngx_decode_base64url (ngx_encode_base64url s) = Some s"
    using quads_round_trip [OF tables_agree_url, of False s]
    by (auto simp: ngx_decode_base64url_def ngx_encode_base64url_def ngx_decode_base64_internal_def)
qed

text \<open>
  Fact (roundtrip).  Both base64 decoders undo their encoders on every byte string, so both
  encodings are injective.
\<close>

theorem base64_round_trip:
  "ngx_decode_base64 (ngx_encode_base64 s) = Some s
   \<and> ngx_decode_base64url (ngx_encode_base64url s) = Some s
   \<and> (ngx_encode_base64 s = ngx_encode_base64 t \<longleftrightarrow> s = t)
   \<and> (ngx_encode_base64url s = ngx_encode_base64url t \<longleftrightarrow> s = t)"
  by (intro conjI base64.dec_enc base64url.dec_enc base64.enc_inject base64url.enc_inject)

section \<open>Lengths\<close>

text \<open>The macros of \<^verbatim>\<open>ngx_string.h\<close> by which callers size the destination buffers.\<close>

definition ngx_base64_encoded_length :: "nat \<Rightarrow> nat" where
  "ngx_base64_encoded_length len = (len + 2) div 3 * 4"

definition ngx_base64_decoded_length :: "nat \<Rightarrow> nat" where
  "ngx_base64_decoded_length len = (len + 3) div 4 * 3"

lemma base64_length_steps:
  "ngx_base64_encoded_length (Suc (Suc (Suc n))) = ngx_base64_encoded_length n + 4"
  "ngx_base64_decoded_length (Suc (Suc (Suc (Suc n)))) = ngx_base64_decoded_length n + 3"
  unfolding ngx_base64_encoded_length_def ngx_base64_decoded_length_def by presburger+

lemma base64_length_small:
  "ngx_base64_encoded_length 0 = 0" "ngx_base64_encoded_length (Suc 0) = 4"
  "ngx_base64_encoded_length (Suc (Suc 0)) = 4"
  "ngx_base64_decoded_length 0 = 0" "ngx_base64_decoded_length (Suc 0) = 3"
  "ngx_base64_decoded_length (Suc (Suc 0)) = 3" "ngx_base64_decoded_length (Suc (Suc (Suc 0))) = 3"
  by (simp_all add: ngx_base64_encoded_length_def ngx_base64_decoded_length_def)

lemma length_encode_internal:
  "length (ngx_encode_base64_internal basis padding s) \<le> ngx_base64_encoded_length (length s)
   \<and> (padding \<longrightarrow> length (ngx_encode_base64_internal basis padding s) = ngx_base64_encoded_length (length s))"
  by (induction basis padding s rule: ngx_encode_base64_internal.induct)
    (auto simp: base64_length_steps base64_length_small)

lemma length_decode_quads: "length (decode_quads basis s) \<le> ngx_base64_decoded_length (length s)"
  by (induction basis s rule: decode_quads.induct) (auto simp: base64_length_steps base64_length_small)

text \<open>
  Fact (bounds).  The encoders and decoders never write past a destination sized by
  \<^verbatim>\<open>ngx_base64_encoded_length\<close> and \<^verbatim>\<open>ngx_base64_decoded_length\<close>; the padded encoder fills it exactly.
\<close>

theorem base64_lengths:
  "length (ngx_encode_base64 s) = ngx_base64_encoded_length (length s)
   \<and> length (ngx_encode_base64url s) \<le> ngx_base64_encoded_length (length s)
   \<and> (case ngx_decode_base64_internal basis s of
        None \<Rightarrow> True
      | Some d \<Rightarrow> length d \<le> ngx_base64_decoded_length (length s))"
proof -
  have mono: "length (decode_quads basis (take len s)) \<le> ngx_base64_decoded_length (length s)" for len
  proof (rule order_trans [OF length_decode_quads])
    show "ngx_base64_decoded_length (length (take len s)) \<le> ngx_base64_decoded_length (length s)"
      unfolding ngx_base64_decoded_length_def by (intro mult_le_mono1 div_le_mono) simp
  qed
  then show ?thesis
    using length_encode_internal [of basis64 True s] length_encode_internal [of basis64url False s]
    by (auto simp: ngx_encode_base64_def ngx_encode_base64url_def ngx_decode_base64_internal_def
        split: option.splits)
qed

end
