(* ===== verification/Ngx_Escape.thy ===== *)
theory Ngx_Escape
  imports Ngx_Interfaces
begin

text \<open>
  \<^verbatim>\<open>src/core/ngx_string.c\<close>, the escaping routines: \<^verbatim>\<open>ngx_escape_uri\<close> with its seven bitmaps,
  \<^verbatim>\<open>ngx_unescape_uri\<close>, \<^verbatim>\<open>ngx_escape_html\<close> and \<^verbatim>\<open>ngx_escape_json\<close>.  Each escape function has two
  modes: with a null destination it returns a count (\<open>..._count\<close>, \<open>..._len\<close> below), otherwise it
  writes.
\<close>

section \<open>Escaping URIs\<close>

datatype escape_type = NGX_ESCAPE_URI | NGX_ESCAPE_ARGS | NGX_ESCAPE_URI_COMPONENT | NGX_ESCAPE_HTML
  | NGX_ESCAPE_REFRESH | NGX_ESCAPE_MEMCACHED | NGX_ESCAPE_MAIL_AUTH

definition esc_uri :: "uint32 list" where
  "esc_uri = [0xffffffff, 0x80000029, 0x00000000, 0x80000000,
              0xffffffff, 0xffffffff, 0xffffffff, 0xffffffff]"

definition esc_args :: "uint32 list" where
  "esc_args = [0xffffffff, 0x88000869, 0x00000000, 0x80000000,
               0xffffffff, 0xffffffff, 0xffffffff, 0xffffffff]"

definition esc_uri_component :: "uint32 list" where
  "esc_uri_component = [0xffffffff, 0xfc009fff, 0x78000001, 0xb8000001,
                        0xffffffff, 0xffffffff, 0xffffffff, 0xffffffff]"

definition esc_html :: "uint32 list" where
  "esc_html = [0xffffffff, 0x000000ad, 0x00000000, 0x80000000,
               0xffffffff, 0xffffffff, 0xffffffff, 0xffffffff]"

definition esc_refresh :: "uint32 list" where
  "esc_refresh = [0xffffffff, 0x00000085, 0x00000000, 0x80000000,
                  0xffffffff, 0xffffffff, 0xffffffff, 0xffffffff]"

definition esc_memcached :: "uint32 list" where
  "esc_memcached = [0xffffffff, 0x00000021, 0x00000000, 0x00000000,
                    0x00000000, 0x00000000, 0x00000000, 0x00000000]"

fun escape_map :: "escape_type \<Rightarrow> uint32 list" where
  "escape_map NGX_ESCAPE_URI = esc_uri"
| "escape_map NGX_ESCAPE_ARGS = esc_args"
| "escape_map NGX_ESCAPE_URI_COMPONENT = esc_uri_component"
| "escape_map NGX_ESCAPE_HTML = esc_html"
| "escape_map NGX_ESCAPE_REFRESH = esc_refresh"
| "escape_map NGX_ESCAPE_MEMCACHED = esc_memcached"
| "escape_map NGX_ESCAPE_MAIL_AUTH = esc_memcached"

definition HEX :: bytes where
  "HEX = chars ''0123456789ABCDEF''"

fun ngx_escape_uri_count :: "escape_type \<Rightarrow> bytes \<Rightarrow> nat" where
  "ngx_escape_uri_count t [] = 0"
| "ngx_escape_uri_count t (c # src) =
     (if bitmap_bit (escape_map t) c then Suc (ngx_escape_uri_count t src)
      else ngx_escape_uri_count t src)"

definition escape_uri_char :: "escape_type \<Rightarrow> u_char \<Rightarrow> bytes" where
  "escape_uri_char t c =
     (if bitmap_bit (escape_map t) c
      then [ch CHR ''%'', HEX ! unat (drop_bit 4 c), HEX ! unat (c AND 0xf)]
      else [c])"

definition ngx_escape_uri :: "escape_type \<Rightarrow> bytes \<Rightarrow> bytes" where
  "ngx_escape_uri t src = concat (map (escape_uri_char t) src)"

section \<open>Unescaping URIs\<close>

definition NGX_UNESCAPE_URI :: ngx_uint where "NGX_UNESCAPE_URI = 1"
definition NGX_UNESCAPE_REDIRECT :: ngx_uint where "NGX_UNESCAPE_REDIRECT = 2"

datatype unescape_state = us_usual | us_quoted | us_quoted_second

text \<open>
  \<open>prev\<close> is the byte before the current one, \<^verbatim>\<open>*(s - 2)\<close> in the code.  The result is what is
  written and what is left of the source when the loop ends or jumps to \<^verbatim>\<open>done\<close>.
\<close>

definition emit :: "bytes \<Rightarrow> bytes \<times> bytes \<Rightarrow> bytes \<times> bytes" where
  "emit w r = (w @ fst r, snd r)"

fun unescape_loop :: "unescape_state \<Rightarrow> u_char \<Rightarrow> u_char \<Rightarrow> bytes \<Rightarrow> ngx_uint \<Rightarrow> bytes \<times> bytes" where
  "unescape_loop st decoded prev [] type = ([], [])"
| "unescape_loop us_usual decoded prev (b # s) type =
     (if b = ch CHR ''?'' \<and> type AND (NGX_UNESCAPE_URI OR NGX_UNESCAPE_REDIRECT) \<noteq> 0 then ([b], s)
      else if b = ch CHR ''%'' then unescape_loop us_quoted decoded b s type
      else emit [b] (unescape_loop us_usual decoded b s type))"
| "unescape_loop us_quoted decoded prev (b # s) type =
     (let c = b OR 0x20 in
      if ch CHR ''0'' \<le> b \<and> b \<le> ch CHR ''9'' then
        unescape_loop us_quoted_second (b - ch CHR ''0'') b s type
      else if ch CHR ''a'' \<le> c \<and> c \<le> ch CHR ''f'' then
        unescape_loop us_quoted_second (c - ch CHR ''a'' + 10) b s type
      else emit [b] (unescape_loop us_usual decoded b s type))"
| "unescape_loop us_quoted_second decoded prev (b # s) type =
     (let c = b OR 0x20; next = unescape_loop us_usual decoded b s type in
      if ch CHR ''0'' \<le> b \<and> b \<le> ch CHR ''9'' then
        (let d = push_bit 4 decoded + b - ch CHR ''0'' in
         if type AND NGX_UNESCAPE_REDIRECT \<noteq> 0 then
           (if d > ch CHR ''%'' \<and> d < 0x7f then emit [d] next
            else emit [ch CHR ''%'', prev, b] next)
         else emit [d] next)
      else if ch CHR ''a'' \<le> c \<and> c \<le> ch CHR ''f'' then
        (let d = push_bit 4 decoded + c - ch CHR ''a'' + 10 in
         if type AND NGX_UNESCAPE_URI \<noteq> 0 then
           (if d = ch CHR ''?'' then ([d], s) else emit [d] next)
         else if type AND NGX_UNESCAPE_REDIRECT \<noteq> 0 then
           (if d = ch CHR ''?'' then ([d], s)
            else if d > ch CHR ''%'' \<and> d < 0x7f then emit [d] next
            else emit [ch CHR ''%'', prev, b] next)
         else emit [d] next)
      else next)"

definition ngx_unescape_uri :: "bytes \<Rightarrow> ngx_uint \<Rightarrow> bytes \<times> bytes" where
  "ngx_unescape_uri src type = unescape_loop us_usual 0 0 src type"

section \<open>Escaping HTML and JSON\<close>

fun html_extra :: "u_char \<Rightarrow> nat" where
  "html_extra c =
     (if c = ch CHR ''<'' then 3 else if c = ch CHR ''>'' then 3
      else if c = ch CHR ''&'' then 4 else if c = 0x22 then 5 else 0)"

definition ngx_escape_html_len :: "bytes \<Rightarrow> nat" where
  "ngx_escape_html_len src = sum_list (map html_extra src)"

definition escape_html_char :: "u_char \<Rightarrow> bytes" where
  "escape_html_char c =
     (if c = ch CHR ''<'' then chars ''&lt;'' else if c = ch CHR ''>'' then chars ''&gt;''
      else if c = ch CHR ''&'' then chars ''&amp;'' else if c = 0x22 then chars ''&quot;'' else [c])"

definition ngx_escape_html :: "bytes \<Rightarrow> bytes" where
  "ngx_escape_html src = concat (map escape_html_char src)"

definition json_extra :: "u_char \<Rightarrow> nat" where
  "json_extra c = (if c = 0x5c \<or> c = 0x22 then 1 else if c \<le> 0x1f then 5 else 0)"

definition ngx_escape_json_len :: "bytes \<Rightarrow> nat" where
  "ngx_escape_json_len src = sum_list (map json_extra src)"

definition escape_json_char :: "u_char \<Rightarrow> bytes" where
  "escape_json_char c =
     (if c > 0x1f then (if c = 0x5c \<or> c = 0x22 then [0x5c] else []) @ [c]
      else [0x5c, ch CHR ''u'', ch CHR ''0'', ch CHR ''0'', ch CHR ''0'' + drop_bit 4 c,
            (let d = c AND 0xf in if d < 10 then ch CHR ''0'' + d else ch CHR ''A'' + d - 10)])"

definition ngx_escape_json :: "bytes \<Rightarrow> bytes" where
  "ngx_escape_json src = concat (map escape_json_char src)"

section \<open>The two passes agree\<close>

definition uri_extra :: "escape_type \<Rightarrow> u_char \<Rightarrow> nat" where
  "uri_extra t c = (if bitmap_bit (escape_map t) c then 2 else 0)"

interpretation uri_escape: two_pass_escape "escape_uri_char t" "uri_extra t" for t
  by unfold_locales (simp add: escape_uri_char_def uri_extra_def)

interpretation html_escape: two_pass_escape escape_html_char html_extra
  by unfold_locales (simp add: escape_html_char_def chars_def)

interpretation json_escape: two_pass_escape escape_json_char json_extra
  by unfold_locales (auto simp: escape_json_char_def json_extra_def Let_def)

lemma uri_count_extra: "sum_list (map (uri_extra t) src) = 2 * ngx_escape_uri_count t src"
  by (induction src) (simp_all add: uri_extra_def)

text \<open>
  Fact (bounds).  The first pass of each escape function sizes the destination of the second
  exactly: the URI pass counts the bytes to escape, each of which grows by two, the other two count
  the growth itself.
\<close>

theorem escape_lengths:
  "length (ngx_escape_uri t src) = length src + 2 * ngx_escape_uri_count t src
   \<and> length (ngx_escape_html src) = length src + ngx_escape_html_len src
   \<and> length (ngx_escape_json src) = length src + ngx_escape_json_len src"
  unfolding ngx_escape_uri_def ngx_escape_html_def ngx_escape_json_def
    ngx_escape_html_len_def ngx_escape_json_len_def
  by (simp only: uri_escape.length_escaped html_escape.length_escaped json_escape.length_escaped
      uri_count_extra)

section \<open>Unescaping undoes escaping\<close>

text \<open>
  Fact (functional).  Every escaping type but \<^verbatim>\<open>NGX_ESCAPE_REFRESH\<close> escapes the percent sign.
  The comment above the bitmap of \<^verbatim>\<open>NGX_ESCAPE_REFRESH\<close> lists the percent sign among the escaped
  characters, but its bit is not set in the bitmap.
\<close>

theorem escape_percent: "bitmap_bit (escape_map t) (ch CHR ''%'') \<longleftrightarrow> t \<noteq> NGX_ESCAPE_REFRESH"
  by (cases t) (simp_all add: bitmap_bit_def esc_uri_def esc_args_def esc_uri_component_def esc_html_def
      esc_refresh_def esc_memcached_def)

lemma percent_is_escaped: "t \<noteq> NGX_ESCAPE_REFRESH \<Longrightarrow> bitmap_bit (escape_map t) (ch CHR ''%'')"
  by (cases t) (simp_all add: bitmap_bit_def esc_uri_def esc_args_def esc_uri_component_def esc_html_def
      esc_memcached_def)

lemma hex_digit_decodes:
  assumes "v < (16 :: u_char)"
  shows "(let b = HEX ! unat v; c = b OR 0x20 in
      (ch CHR ''0'' \<le> b \<and> b \<le> ch CHR ''9'' \<and> b - ch CHR ''0'' = v)
      \<or> (\<not> (ch CHR ''0'' \<le> b \<and> b \<le> ch CHR ''9'')
          \<and> ch CHR ''a'' \<le> c \<and> c \<le> ch CHR ''f'' \<and> c - ch CHR ''a'' + 10 = v))"
  using byte_less_16_cases [OF assms] by (elim insertE emptyE) (simp_all add: HEX_def chars_def)

lemma nibbles:
  "drop_bit 4 c < (16 :: u_char)" "c AND 0xf < (16 :: u_char)"
  "push_bit 4 (drop_bit 4 c) + (c AND 0xf) = (c :: u_char)"
proof -
  have "drop_bit 4 c < (16 :: u_char) \<and> c AND 0xf < (16 :: u_char)
      \<and> push_bit 4 (drop_bit 4 c) + (c AND 0xf) = (c :: u_char)"
    by (rule byte_exhaust) (simp add: byte_values_def)
  then show "drop_bit 4 c < (16 :: u_char)" "c AND 0xf < (16 :: u_char)"
    "push_bit 4 (drop_bit 4 c) + (c AND 0xf) = (c :: u_char)" by blast+
qed

lemma unescape_triple:
  "unescape_loop us_usual decoded prev
     (ch CHR ''%'' # HEX ! unat (drop_bit 4 c) # HEX ! unat (c AND 0xf) # s) 0 =
   emit [c] (unescape_loop us_usual (drop_bit 4 c) (HEX ! unat (c AND 0xf)) s 0)"
proof -
  have first: "unescape_loop us_quoted d p (HEX ! unat (drop_bit 4 c) # s) 0 =
      unescape_loop us_quoted_second (drop_bit 4 c) (HEX ! unat (drop_bit 4 c)) s 0" for d p s
    using hex_digit_decodes [OF nibbles(1) [of c]] by (auto simp: Let_def)
  have second: "unescape_loop us_quoted_second (drop_bit 4 c) p (HEX ! unat (c AND 0xf) # s) 0 =
      emit [c] (unescape_loop us_usual (drop_bit 4 c) (HEX ! unat (c AND 0xf)) s 0)" for p s
    using hex_digit_decodes [OF nibbles(2) [of c]] nibbles(3) [of c]
    by (auto simp: Let_def algebra_simps)
  have start: "unescape_loop us_usual d p (ch CHR ''%'' # t) 0 = unescape_loop us_quoted d (ch CHR ''%'') t 0"
    for d p t by simp
  show ?thesis by (simp only: start first second)
qed

lemma unescape_escape:
  assumes "t \<noteq> NGX_ESCAPE_REFRESH"
  shows "unescape_loop us_usual decoded prev (ngx_escape_uri t src) 0 = (src, [])"
proof (induction src arbitrary: decoded prev)
  case Nil
  then show ?case by (simp add: ngx_escape_uri_def)
next
  case (Cons c src)
  show ?case
  proof (cases "bitmap_bit (escape_map t) c")
    case True
    then have "ngx_escape_uri t (c # src) =
        ch CHR ''%'' # HEX ! unat (drop_bit 4 c) # HEX ! unat (c AND 0xf) # ngx_escape_uri t src"
      by (simp add: ngx_escape_uri_def escape_uri_char_def)
    then show ?thesis by (simp only: unescape_triple Cons.IH emit_def) simp
  next
    case False
    then have "c \<noteq> ch CHR ''%''" using percent_is_escaped [OF assms] by blast
    moreover have "ngx_escape_uri t (c # src) = c # ngx_escape_uri t src"
      using False by (simp add: ngx_escape_uri_def escape_uri_char_def)
    ultimately show ?thesis by (simp add: Cons.IH emit_def)
  qed
qed

interpretation uri_codec: codec "ngx_escape_uri NGX_ESCAPE_URI" "\<lambda>s. Some (fst (ngx_unescape_uri s 0))"
  by unfold_locales (simp add: ngx_unescape_uri_def unescape_escape)

interpretation component_codec:
  codec "ngx_escape_uri NGX_ESCAPE_URI_COMPONENT" "\<lambda>s. Some (fst (ngx_unescape_uri s 0))"
  by unfold_locales (simp add: ngx_unescape_uri_def unescape_escape)

text \<open>
  Property C40 (roundtrip).  Under each escaping type but \<^verbatim>\<open>NGX_ESCAPE_REFRESH\<close>, unescaping the
  escaped bytes with the type zero gives the original bytes back and consumes all of the input.  (The other types,
  \<^verbatim>\<open>NGX_UNESCAPE_URI\<close> and \<^verbatim>\<open>NGX_UNESCAPE_REDIRECT\<close>, are for URIs with arguments: they stop at a question mark, so it does not hold of them.)
\<close>

theorem ngx_unescape_escape_uri:
  assumes "t \<noteq> NGX_ESCAPE_REFRESH"
  shows "ngx_unescape_uri (ngx_escape_uri t src) 0 = (src, [])"
  using assms by (simp add: ngx_unescape_uri_def unescape_escape)

theorem ngx_unescape_escape_uri_witness:
  "ngx_unescape_uri (ngx_escape_uri NGX_ESCAPE_ARGS (chars ''a b&c'')) 0 = (chars ''a b&c'', [])"
  by (rule ngx_unescape_escape_uri) simp

section \<open>Unescaping in place\<close>

fun pending :: "unescape_state \<Rightarrow> nat" where
  "pending us_usual = 0"
| "pending us_quoted = 1"
| "pending us_quoted_second = 2"

lemma emit_simps [simp]: "fst (emit w r) = w @ fst r" "snd (emit w r) = snd r"
  by (simp_all add: emit_def)

lemma unescape_loop_length:
  "length (fst (unescape_loop st decoded prev s type)) + length (snd (unescape_loop st decoded prev s type))
   \<le> length s + pending st"
proof (induction st decoded prev s type rule: unescape_loop.induct)
  case (1 st decoded prev type)
  then show ?case by simp
next
  case (2 decoded prev b s type)
  then show ?case by (auto split: if_splits)
next
  case (3 decoded prev b s type)
  then show ?case by (auto simp: Let_def split: if_splits)
next
  case (4 decoded prev b s type)
  then show ?case by (auto simp: Let_def split: if_splits)
qed

text \<open>
  Fact (bounds).  Whatever the flags, the unescaped bytes together with the unread rest are
  never longer than the source, so unescaping in place never overruns the buffer.
\<close>

theorem ngx_unescape_uri_in_place:
  "length (fst (ngx_unescape_uri src type)) + length (snd (ngx_unescape_uri src type)) \<le> length src"
  using unescape_loop_length [of us_usual 0 0 src type] by (simp add: ngx_unescape_uri_def)

section \<open>Escaped HTML is inert\<close>

text \<open>A reference decoder for the entities the code produces.\<close>

function html_text :: "bytes \<Rightarrow> bytes" where
  "html_text s =
     (case s of
        [] \<Rightarrow> []
      | c # t \<Rightarrow>
          if take 4 s = chars ''&lt;'' then ch CHR ''<'' # html_text (drop 4 s)
          else if take 4 s = chars ''&gt;'' then ch CHR ''>'' # html_text (drop 4 s)
          else if take 5 s = chars ''&amp;'' then ch CHR ''&'' # html_text (drop 5 s)
          else if take 6 s = chars ''&quot;'' then 0x22 # html_text (drop 6 s)
          else c # html_text t)"
  by pat_completeness auto
termination
  by (relation "measure length") auto

declare html_text.simps [simp del]

lemma html_text_char:
  "html_text (escape_html_char c @ s) = c # html_text s"
proof -
  consider "c = ch CHR ''<''" | "c = ch CHR ''>''" | "c = ch CHR ''&''" | "c = 0x22"
    | "c \<notin> {ch CHR ''<'', ch CHR ''>'', ch CHR ''&'', 0x22}" by blast
  then show ?thesis
    by cases (subst html_text.simps, simp add: escape_html_char_def chars_def)+
qed

lemma html_text_escape: "html_text (ngx_escape_html src) = src"
  by (induction src) (simp_all add: ngx_escape_html_def html_text_char html_text.simps [of "[]"])

interpretation html_codec: codec ngx_escape_html "\<lambda>s. Some (html_text s)"
  by unfold_locales (simp add: html_text_escape)

text \<open>
  Fact (safety).  Escaped text holds no angle bracket and no double quote, whatever the
  source, and reading its entities gives the source back.
\<close>

theorem ngx_escape_html_inert:
  "ch CHR ''<'' \<notin> set (ngx_escape_html src) \<and> ch CHR ''>'' \<notin> set (ngx_escape_html src)
   \<and> 0x22 \<notin> set (ngx_escape_html src)
   \<and> html_text (ngx_escape_html src) = src"
proof -
  have "ch CHR ''<'' \<notin> set (escape_html_char c) \<and> ch CHR ''>'' \<notin> set (escape_html_char c)
      \<and> 0x22 \<notin> set (escape_html_char c)" for c
    by (auto simp: escape_html_char_def chars_def)
  then show ?thesis
    using html_text_escape by (auto simp: ngx_escape_html_def)
qed

end
