(* ===== verification/Ngx_Utf8.thy ===== *)
theory Ngx_Utf8
  imports Ngx_Prelude
begin

text \<open>
  \<^verbatim>\<open>src/core/ngx_string.c\<close>, the UTF-8 routines \<^verbatim>\<open>ngx_utf8_decode\<close>, \<^verbatim>\<open>ngx_utf8_length\<close> and
  \<^verbatim>\<open>ngx_utf8_cpystrn\<close>.  The source pointer is the list of bytes from it to the end of the object,
  so \<^term>\<open>None\<close> is a read past the object.
\<close>

section \<open>Model\<close>

text \<open>The loop over the \<open>len\<close> continuation bytes and the final test.\<close>

fun utf8_tail :: "bytes \<Rightarrow> uint32 \<Rightarrow> nat \<Rightarrow> uint32 \<Rightarrow> (uint32 \<times> bytes) option" where
  "utf8_tail p u 0 valid = Some (if u > valid then u else 0xffffffff, p)"
| "utf8_tail [] u (Suc len) valid = None"
| "utf8_tail (b # p) u (Suc len) valid =
     (let i = ucast b :: uint32 in
      if i < 0x80 then Some (0xffffffff, p)
      else utf8_tail p (push_bit 6 u OR (i AND 0x3f)) len valid)"

definition ngx_utf8_decode :: "bytes \<Rightarrow> ngx_uint \<Rightarrow> (uint32 \<times> bytes) option" where
  "ngx_utf8_decode p n =
     (case p of
        [] \<Rightarrow> None
      | b # p' \<Rightarrow>
          (let u = ucast b :: uint32 in
           if u \<ge> 0xf0 then
             (if n - 1 < 3 then Some (0xfffffffe, p) else utf8_tail p' (u AND 0x07) 3 0xffff)
           else if u \<ge> 0xe0 then
             (if n - 1 < 2 then Some (0xfffffffe, p) else utf8_tail p' (u AND 0x0f) 2 0x7ff)
           else if u \<ge> 0xc2 then
             (if n - 1 < 1 then Some (0xfffffffe, p) else utf8_tail p' (u AND 0x1f) 1 0x7f)
           else Some (0xffffffff, p')))"

lemma utf8_tail_length: "utf8_tail p u len valid = Some (v, q) \<Longrightarrow> length q \<le> length p"
  by (induction p u len valid rule: utf8_tail.induct) (auto simp: Let_def split: if_splits)

lemma utf8_decode_length:
  "ngx_utf8_decode p n = Some (v, q) \<Longrightarrow> v \<le> 0x10ffff \<Longrightarrow> length q < length p"
  by (auto simp: ngx_utf8_decode_def Let_def le_imp_less_Suc dest!: utf8_tail_length
      split: list.splits if_splits)

text \<open>
  \<open>k\<close> is \<^verbatim>\<open>last - p\<close>.  Every call of the decoder gets \<open>n\<close>, the length of the whole string.
\<close>

function utf8_length_loop :: "bytes \<Rightarrow> int \<Rightarrow> ngx_uint \<Rightarrow> nat \<Rightarrow> nat option" where
  "utf8_length_loop p k n len =
     (if k \<le> 0 then Some len
      else case p of
             [] \<Rightarrow> None
           | c # p' \<Rightarrow>
               if c < 0x80 then utf8_length_loop p' (k - 1) n (Suc len)
               else case ngx_utf8_decode p n of
                      None \<Rightarrow> None
                    | Some (v, q) \<Rightarrow>
                        if v > 0x10ffff then Some (unat n)
                        else utf8_length_loop q (k - (int (length p) - int (length q))) n (Suc len))"
  by pat_completeness auto
termination
  by (relation "measure (\<lambda>(p, k, n, len). length p)") (auto dest: utf8_decode_length)

declare utf8_length_loop.simps [simp del]

definition ngx_utf8_length :: "bytes \<Rightarrow> ngx_uint \<Rightarrow> nat option" where
  "ngx_utf8_length p n = utf8_length_loop p (int (unat n)) n 0"

text \<open>The bytes written; the number \<open>n\<close> counts characters, \<open>len\<close> the bytes left in the source.\<close>

fun ngx_utf8_cpystrn :: "bytes \<Rightarrow> nat \<Rightarrow> ngx_uint \<Rightarrow> bytes option" where
  "ngx_utf8_cpystrn src 0 len = Some []"
| "ngx_utf8_cpystrn src (Suc 0) len = Some [0]"
| "ngx_utf8_cpystrn src (Suc (Suc n)) len =
     (case src of
        [] \<Rightarrow> None
      | c # src' \<Rightarrow>
          if c < 0x80 then
            (if c \<noteq> 0 then map_option ((#) c) (ngx_utf8_cpystrn src' (Suc n) (len - 1)) else Some [0])
          else case ngx_utf8_decode src len of
                 None \<Rightarrow> None
               | Some (v, q) \<Rightarrow>
                   if v > 0x10ffff then Some [0]
                   else
                     (let k = length src - length q in
                      map_option ((@) (take k src)) (ngx_utf8_cpystrn q (Suc n) (len - of_nat k))))"

section \<open>The value of a sequence\<close>

lemma utf8_tail_eval:
  "utf8_tail (b # p) u 1 valid =
     (if ucast b < (0x80 :: uint32) then Some (0xffffffff, p)
      else utf8_tail p (push_bit 6 u OR (ucast b AND 0x3f)) 0 valid)"
  "utf8_tail (b # p) u 2 valid =
     (if ucast b < (0x80 :: uint32) then Some (0xffffffff, p)
      else utf8_tail p (push_bit 6 u OR (ucast b AND 0x3f)) 1 valid)"
  "utf8_tail (b # p) u 3 valid =
     (if ucast b < (0x80 :: uint32) then Some (0xffffffff, p)
      else utf8_tail p (push_bit 6 u OR (ucast b AND 0x3f)) 2 valid)"
  by (simp_all add: numeral_3_eq_3 numeral_2_eq_2 Let_def del: utf8_tail.simps(1))

lemma unat_mask_and:
  "unat ((x :: uint32) AND 0x3f) = unat x mod 64" "unat (x AND 0x1f) = unat x mod 32"
  "unat (x AND 0x0f) = unat x mod 16" "unat (x AND 0x07) = unat x mod 8"
proof -
  have m: "(0x3f :: uint32) = mask 6" "(0x1f :: uint32) = mask 5" "(0x0f :: uint32) = mask 4"
    "(0x07 :: uint32) = mask 3"
    by (simp_all add: mask_eq_exp_minus_1)
  show "unat (x AND 0x3f) = unat x mod 64" "unat (x AND 0x1f) = unat x mod 32"
    "unat (x AND 0x0f) = unat x mod 16" "unat (x AND 0x07) = unat x mod 8"
    unfolding m take_bit_eq_mask [symmetric]
    by (simp_all add: unsigned_take_bit_eq take_bit_eq_mod unat_mod_distrib)
qed

lemma unat_shift_or:
  assumes "unat (u :: uint32) < 2 ^ 26"
  shows "unat (push_bit 6 u OR (i AND 0x3f)) = unat u * 64 + unat i mod 64"
proof -
  have m: "(0x3f :: uint32) = mask 6" by (simp add: mask_eq_exp_minus_1)
  have "push_bit 6 u OR (i AND 0x3f) = push_bit 6 u + (i AND 0x3f)"
    unfolding m by (rule disjunctive_add [symmetric]) (auto simp: bit_push_bit_iff bit_and_iff bit_mask_iff)
  moreover have "unat (push_bit 6 u) = unat u * 64"
    using assms by (simp add: push_bit_eq_mult unat_word_ariths)
  ultimately show ?thesis
    using assms unat_mask_and(1) [of i] by (simp add: unat_word_ariths)
qed

lemma unat_ucast_byte [simp]: "unat (ucast (b :: u_char) :: uint32) = unat b"
proof -
  have "unat b < 2 ^ 32" using unat_byte [of b] by (rule less_trans) simp
  then show ?thesis by (simp add: unsigned_ucast_eq take_bit_nat_eq_self)
qed

lemma utf8_tail_step:
  assumes "unat u < 2 ^ 26" and "unat b \<ge> 0x80"
  shows "\<exists>u'. utf8_tail (b # p) u (Suc len) valid = utf8_tail p u' len valid
    \<and> unat u' = unat u * 64 + unat b mod 64"
  using assms unat_shift_or [OF assms(1), of "ucast b"]
  by (intro exI [of _ "push_bit 6 u OR (ucast b AND 0x3f)"]) (auto simp: Let_def word_less_nat_alt)

section \<open>Well-formed sequences are accepted\<close>

text \<open>The encoding of RFC 3629 for the code points the decoder is called for.\<close>

definition utf8_encode :: "nat \<Rightarrow> bytes" where
  "utf8_encode u =
     (if u < 0x800 then [of_nat (0xc0 + u div 64), of_nat (0x80 + u mod 64)]
      else if u < 0x10000 then
        [of_nat (0xe0 + u div 4096), of_nat (0x80 + u div 64 mod 64), of_nat (0x80 + u mod 64)]
      else
        [of_nat (0xf0 + u div 262144), of_nat (0x80 + u div 4096 mod 64),
         of_nat (0x80 + u div 64 mod 64), of_nat (0x80 + u mod 64)])"

lemma unat_of_nat_byte: "k < 256 \<Longrightarrow> unat (of_nat k :: u_char) = k"
  by (simp add: unat_of_nat)

text \<open>The three lengths: the bytes give the value, which is then compared with the shortest form.\<close>

definition checked :: "nat \<Rightarrow> nat \<Rightarrow> uint32" where
  "checked w valid = (if w > valid then of_nat w else 0xffffffff)"

lemma utf8_tail_value:
  assumes "unat u = w" and "unat valid = k"
  shows "utf8_tail p u 0 valid = Some (checked w k, p)"
  using assms by (auto simp: checked_def word_less_nat_alt)

lemma enough_input:
  "2 \<le> unat (n :: ngx_uint) \<Longrightarrow> \<not> n - 1 < 1"
  "3 \<le> unat (n :: ngx_uint) \<Longrightarrow> \<not> n - 1 < 2"
  "4 \<le> unat (n :: ngx_uint) \<Longrightarrow> \<not> n - 1 < 3"
  by (cases "n = 0"; simp add: word_less_nat_alt unat_minus_one)+

lemma decode_2:
  assumes "unat b0 \<in> {0xc2..<0xe0}" and "unat b1 \<ge> 0x80" and "2 \<le> unat n"
  shows "ngx_utf8_decode (b0 # b1 # rest) n =
    Some (checked ((unat b0 mod 32) * 64 + unat b1 mod 64) 0x7f, rest)"
proof -
  let ?u = "ucast b0 AND 0x1f :: uint32"
  have u: "unat ?u = unat b0 mod 32" by (simp add: unat_mask_and)
  have "unat b0 mod 32 < 32" by simp
  then have "unat ?u < 2 ^ 26" using u by simp
  from utf8_tail_step [OF this assms(2)] obtain u1 where
    "utf8_tail (b1 # rest) ?u (Suc 0) 0x7f = utf8_tail rest u1 0 0x7f" "unat u1 = unat ?u * 64 + unat b1 mod 64"
    by blast
  moreover have "ngx_utf8_decode (b0 # b1 # rest) n = utf8_tail (b1 # rest) ?u (Suc 0) 0x7f"
    using assms enough_input(1) [of n]
    by (simp add: ngx_utf8_decode_def Let_def word_le_nat_alt del: utf8_tail.simps)
  ultimately show ?thesis using u utf8_tail_value [of u1 _ "0x7f" "0x7f"] by simp
qed

lemma decode_3:
  assumes "unat b0 \<in> {0xe0..<0xf0}" and "unat b1 \<ge> 0x80" and "unat b2 \<ge> 0x80" and "3 \<le> unat n"
  shows "ngx_utf8_decode (b0 # b1 # b2 # rest) n =
    Some (checked (((unat b0 mod 16) * 64 + unat b1 mod 64) * 64 + unat b2 mod 64) 0x7ff, rest)"
proof -
  let ?u = "ucast b0 AND 0x0f :: uint32"
  have u: "unat ?u = unat b0 mod 16" by (simp add: unat_mask_and)
  have "unat b0 mod 16 < 16" and m: "unat b1 mod 64 < 64" by simp_all
  then have "unat ?u < 16" using u by simp
  then have "unat ?u < 2 ^ 26" by simp
  from utf8_tail_step [OF this assms(2)] obtain u1 where
    1: "utf8_tail (b1 # b2 # rest) ?u (Suc (Suc 0)) 0x7ff = utf8_tail (b2 # rest) u1 (Suc 0) 0x7ff"
    and u1: "unat u1 = unat ?u * 64 + unat b1 mod 64"
    by blast
  then have "unat u1 < 2 ^ 26" using \<open>unat ?u < 16\<close> m by simp
  from utf8_tail_step [OF this assms(3)] obtain u2 where
    2: "utf8_tail (b2 # rest) u1 (Suc 0) 0x7ff = utf8_tail rest u2 0 0x7ff"
    and u2: "unat u2 = unat u1 * 64 + unat b2 mod 64"
    by blast
  have "ngx_utf8_decode (b0 # b1 # b2 # rest) n = utf8_tail (b1 # b2 # rest) ?u 2 0x7ff"
    using assms enough_input(2) [of n]
    by (simp add: ngx_utf8_decode_def Let_def word_le_nat_alt del: utf8_tail.simps)
  then have "ngx_utf8_decode (b0 # b1 # b2 # rest) n = utf8_tail (b1 # b2 # rest) ?u (Suc (Suc 0)) 0x7ff"
    by (simp only: numeral_2_eq_2)
  with 1 2 u u1 u2 utf8_tail_value [of u2 _ "0x7ff" "0x7ff"] show ?thesis by simp
qed

lemma decode_4:
  assumes "unat b0 \<ge> 0xf0" and "unat b1 \<ge> 0x80" and "unat b2 \<ge> 0x80" and "unat b3 \<ge> 0x80"
    and "4 \<le> unat n"
  shows "ngx_utf8_decode (b0 # b1 # b2 # b3 # rest) n =
    Some (checked ((((unat b0 mod 8) * 64 + unat b1 mod 64) * 64 + unat b2 mod 64) * 64
      + unat b3 mod 64) 0xffff, rest)"
proof -
  let ?u = "ucast b0 AND 0x07 :: uint32"
  have u: "unat ?u = unat b0 mod 8" by (simp add: unat_mask_and)
  have "unat b0 mod 8 < 8" and m: "unat b1 mod 64 < 64" "unat b2 mod 64 < 64" by simp_all
  then have "unat ?u < 8" using u by simp
  then have "unat ?u < 2 ^ 26" by simp
  from utf8_tail_step [OF this assms(2)] obtain u1 where
    1: "utf8_tail (b1 # b2 # b3 # rest) ?u (Suc (Suc (Suc 0))) 0xffff
        = utf8_tail (b2 # b3 # rest) u1 (Suc (Suc 0)) 0xffff"
    and u1: "unat u1 = unat ?u * 64 + unat b1 mod 64"
    by blast
  then have b1: "unat u1 < 512" using \<open>unat ?u < 8\<close> m by simp
  then have "unat u1 < 2 ^ 26" by simp
  from utf8_tail_step [OF this assms(3)] obtain u2 where
    2: "utf8_tail (b2 # b3 # rest) u1 (Suc (Suc 0)) 0xffff = utf8_tail (b3 # rest) u2 (Suc 0) 0xffff"
    and u2: "unat u2 = unat u1 * 64 + unat b2 mod 64"
    by blast
  then have "unat u2 < 2 ^ 26" using b1 m by simp
  from utf8_tail_step [OF this assms(4)] obtain u3 where
    3: "utf8_tail (b3 # rest) u2 (Suc 0) 0xffff = utf8_tail rest u3 0 0xffff"
    and u3: "unat u3 = unat u2 * 64 + unat b3 mod 64"
    by blast
  have "ngx_utf8_decode (b0 # b1 # b2 # b3 # rest) n = utf8_tail (b1 # b2 # b3 # rest) ?u 3 0xffff"
    using assms enough_input(3) [of n]
    by (simp add: ngx_utf8_decode_def Let_def word_le_nat_alt del: utf8_tail.simps)
  then have "ngx_utf8_decode (b0 # b1 # b2 # b3 # rest) n
      = utf8_tail (b1 # b2 # b3 # rest) ?u (Suc (Suc (Suc 0))) 0xffff"
    by (simp only: numeral_3_eq_3)
  with 1 2 3 u u1 u2 u3 utf8_tail_value [of u3 _ "0xffff" "0xffff"] show ?thesis by simp
qed

lemma lead_mod:
  "a < 32 \<Longrightarrow> (0xc0 + a) mod 32 = (a :: nat)"
  "a < 16 \<Longrightarrow> (0xe0 + a) mod 16 = (a :: nat)"
  "a < 8 \<Longrightarrow> (0xf0 + a) mod 8 = (a :: nat)"
  "(0x80 + a mod 64) mod 64 = a mod (64 :: nat)"
  using mod_mult_self3 [of 6 32 a] mod_mult_self3 [of 14 16 a] mod_mult_self3 [of 30 8 a]
    mod_mult_self3 [of 2 64 "a mod 64"]
  by simp_all

lemma base64_digits:
  "u div 64 * 64 + u mod 64 = (u :: nat)"
  "u div 4096 * 64 + u div 64 mod 64 = u div (64 :: nat)"
  "u div 262144 * 64 + u div 4096 mod 64 = u div (4096 :: nat)"
proof -
  have "u div 4096 = u div 64 div 64" and "u div 262144 = u div 4096 div 64"
    by (simp_all add: div_mult2_eq [symmetric])
  then show "u div 64 * 64 + u mod 64 = u" "u div 4096 * 64 + u div 64 mod 64 = u div 64"
    "u div 262144 * 64 + u div 4096 mod 64 = u div 4096"
    by simp_all
qed

text \<open>
  Fact (roundtrip).  The decoder accepts the standard encoding of every code point from U+0080
  to U+10FFFF, returns the code point and stops after its last byte.
\<close>

theorem ngx_utf8_decode_encode:
  assumes "0x80 \<le> u" and "u \<le> 0x10ffff" and "length (utf8_encode u) \<le> unat n"
  shows "ngx_utf8_decode (utf8_encode u @ rest) n = Some (of_nat u, rest)"
proof -
  have c: "unat (of_nat (0x80 + k mod 64) :: u_char) = 0x80 + k mod 64" for k
  proof (rule unat_of_nat_byte)
    have "k mod 64 < 64" by simp
    then show "0x80 + k mod 64 < 256" by linarith
  qed
  consider "u < 0x800" | "0x800 \<le> u" "u < 0x10000" | "0x10000 \<le> u" by linarith
  then show ?thesis
  proof cases
    case 1
    let ?b0 = "of_nat (0xc0 + u div 64) :: u_char" and ?b1 = "of_nat (0x80 + u mod 64) :: u_char"
    have "2 \<le> u div 64" "u div 64 < 32" using 1 assms(1) by (auto simp: less_mult_imp_div_less)
    then have b0: "unat ?b0 = 0xc0 + u div 64" by (intro unat_of_nat_byte) simp
    have "unat ?b0 \<in> {0xc2..<0xe0}" "unat ?b1 \<ge> 0x80" "2 \<le> unat n"
      using \<open>2 \<le> u div 64\<close> \<open>u div 64 < 32\<close> 1 assms(3) b0 c [of u]
      by (simp_all add: utf8_encode_def del: of_nat_add)
    from decode_2 [OF this, of rest] have "ngx_utf8_decode (?b0 # ?b1 # rest) n = Some (checked u 0x7f, rest)"
      unfolding b0 c lead_mod(1) [OF \<open>u div 64 < 32\<close>] lead_mod(4) base64_digits .
    with 1 assms(1) show ?thesis by (simp add: utf8_encode_def checked_def del: of_nat_add)
  next
    case 2
    let ?b0 = "of_nat (0xe0 + u div 4096) :: u_char"
    have l: "u div 4096 < 16" using 2 by (simp add: less_mult_imp_div_less)
    then have b0: "unat ?b0 = 0xe0 + u div 4096" by (intro unat_of_nat_byte) simp
    have "unat ?b0 \<in> {0xe0..<0xf0}" "unat (of_nat (0x80 + u div 64 mod 64) :: u_char) \<ge> 0x80"
      "unat (of_nat (0x80 + u mod 64) :: u_char) \<ge> 0x80" "3 \<le> unat n"
      using l 2 assms(3) b0 c by (simp_all add: utf8_encode_def del: of_nat_add)
    from decode_3 [OF this, of rest] show ?thesis
      unfolding b0 c lead_mod(2) [OF l] lead_mod(4) base64_digits
      using 2 by (simp add: utf8_encode_def checked_def del: of_nat_add)
  next
    case 3
    let ?b0 = "of_nat (0xf0 + u div 262144) :: u_char"
    have l: "u div 262144 < 8" using assms(2) by (simp add: less_mult_imp_div_less)
    then have b0: "unat ?b0 = 0xf0 + u div 262144" by (intro unat_of_nat_byte) simp
    have "unat ?b0 \<ge> 0xf0" "unat (of_nat (0x80 + u div 4096 mod 64) :: u_char) \<ge> 0x80"
      "unat (of_nat (0x80 + u div 64 mod 64) :: u_char) \<ge> 0x80"
      "unat (of_nat (0x80 + u mod 64) :: u_char) \<ge> 0x80" "4 \<le> unat n"
      using l 3 assms(3) b0 c by (simp_all add: utf8_encode_def del: of_nat_add)
    from decode_4 [OF this, of rest] show ?thesis
      unfolding b0 c lead_mod(3) [OF l] lead_mod(4) base64_digits
      using 3 by (simp add: utf8_encode_def checked_def del: of_nat_add)
  qed
qed

theorem ngx_utf8_decode_encode_witness:
  "ngx_utf8_decode [0xe2, 0x82, 0xac, 0x21] 3 = Some (0x20ac, [0x21])"
proof -
  have "0x80 \<le> (0x20ac :: nat)" and "(0x20ac :: nat) \<le> 0x10ffff"
    and "length (utf8_encode 0x20ac) \<le> unat (3 :: ngx_uint)"
    by (simp_all add: utf8_encode_def)
  from ngx_utf8_decode_encode [OF this, of "[0x21]"] show ?thesis
    by (simp add: utf8_encode_def)
qed

section \<open>What else is accepted\<close>

lemma utf8_tail_inv:
  assumes "utf8_tail p u len valid = Some (v, q)" and "v \<le> 0x10ffff"
    and "(unat u + 1) * 64 ^ len \<le> 2 ^ 32"
  shows "\<exists>bs. p = bs @ q \<and> length bs = len \<and> valid < v \<and> unat v < (unat u + 1) * 64 ^ len"
  using assms
proof (induction p u len valid rule: utf8_tail.induct)
  case (1 p u valid)
  then show ?case by (auto split: if_splits)
next
  case (3 b p u len valid)
  let ?i = "ucast b :: uint32" and ?u = "push_bit 6 u OR (ucast b AND 0x3f) :: uint32"
  have i: "\<not> ?i < 0x80" using 3 by (auto simp: Let_def split: if_splits)
  have "unat u * 64 < 2 ^ 32"
  proof -
    have "(unat u + 1) * 64 \<le> (unat u + 1) * 64 ^ Suc len" by (intro mult_le_mono2) simp
    also have "\<dots> \<le> 2 ^ 32" by (rule 3(4))
    finally show ?thesis by simp
  qed
  then have "unat u < 2 ^ 26" by simp
  from unat_shift_or [OF this, of ?i] have u: "unat ?u + 1 \<le> (unat u + 1) * 64"
    using mod_less_divisor [of 64 "unat ?i"] by simp
  then have "(unat ?u + 1) * 64 ^ len \<le> (unat u + 1) * 64 * 64 ^ len"
    by (rule mult_le_mono1)
  then have le: "(unat ?u + 1) * 64 ^ len \<le> (unat u + 1) * 64 ^ Suc len"
    by (simp only: power_Suc mult.assoc)
  have tail: "utf8_tail p ?u len valid = Some (v, q)"
    using 3(2) i by (simp add: Let_def)
  from le 3(4) have "(unat ?u + 1) * 64 ^ len \<le> 2 ^ 32" by (rule order_trans)
  from 3(1) [OF refl i tail 3(3) this]
  obtain bs where "p = bs @ q" "length bs = len" "valid < v" "unat v < (unat ?u + 1) * 64 ^ len"
    by (elim exE conjE)
  show ?case
  proof (intro exI conjI)
    show "b # p = (b # bs) @ q" "length (b # bs) = Suc len" "valid < v"
      using \<open>p = bs @ q\<close> \<open>length bs = len\<close> \<open>valid < v\<close> by simp_all
    show "unat v < (unat u + 1) * 64 ^ Suc len"
      using \<open>unat v < (unat ?u + 1) * 64 ^ len\<close> le by (rule less_le_trans)
  qed
qed simp

text \<open>
  Fact (bounds).  A value up to U+10FFFF is returned only for at least U+0080, and only when the
  sequence has the length of the shortest encoding of that value: overlong forms are rejected.
\<close>

theorem ngx_utf8_decode_shortest:
  assumes "ngx_utf8_decode p n = Some (v, q)" and "v \<le> 0x10ffff"
  shows "0x80 \<le> unat v \<and> (\<exists>bs. p = bs @ q \<and> length bs = length (utf8_encode (unat v)))"
proof -
  obtain b p' where p: "p = b # p'"
    using assms by (cases p) (auto simp: ngx_utf8_decode_def)
  let ?u = "ucast b :: uint32"
  have "unat (?u AND 0x07) < 8" "unat (?u AND 0x0f) < 16" "unat (?u AND 0x1f) < 32"
    by (simp_all add: unat_mask_and)
  consider "utf8_tail p' (?u AND 0x07) 3 0xffff = Some (v, q)"
    | "utf8_tail p' (?u AND 0x0f) 2 0x7ff = Some (v, q)"
    | "utf8_tail p' (?u AND 0x1f) 1 0x7f = Some (v, q)"
    using assms by (auto simp: p ngx_utf8_decode_def Let_def split: if_splits)
  then show ?thesis
  proof cases
    case 1
    from utf8_tail_inv [OF 1 assms(2)] \<open>unat (?u AND 0x07) < 8\<close>
    obtain bs where "p' = bs @ q" "length bs = 3" "0xffff < v" by auto
    then show ?thesis
      by (intro conjI exI [of _ "b # bs"]) (auto simp: p utf8_encode_def word_less_nat_alt)
  next
    case 2
    from utf8_tail_inv [OF 2 assms(2)] \<open>unat (?u AND 0x0f) < 16\<close>
    obtain bs where "p' = bs @ q" "length bs = 2" "0x7ff < v" "unat v < (unat (?u AND 0x0f) + 1) * 64 ^ 2"
      by auto
    moreover have "(unat (?u AND 0x0f) + 1) * 64 ^ 2 \<le> 0x10000"
      using \<open>unat (?u AND 0x0f) < 16\<close> by simp
    ultimately show ?thesis
      by (intro conjI exI [of _ "b # bs"]) (auto simp: p utf8_encode_def word_less_nat_alt)
  next
    case 3
    from utf8_tail_inv [OF 3 assms(2)] \<open>unat (?u AND 0x1f) < 32\<close>
    obtain bs where "p' = bs @ q" "length bs = 1" "0x7f < v" "unat v < (unat (?u AND 0x1f) + 1) * 64 ^ 1"
      by auto
    moreover have "(unat (?u AND 0x1f) + 1) * 64 ^ 1 \<le> 0x800"
      using \<open>unat (?u AND 0x1f) < 32\<close> by simp
    ultimately show ?thesis
      by (intro conjI exI [of _ "b # bs"]) (auto simp: p utf8_encode_def word_less_nat_alt)
  qed
qed

theorem ngx_utf8_decode_shortest_witness:
  "0x80 \<le> unat (0x20ac :: uint32)
   \<and> (\<exists>bs. [0xe2 :: u_char, 0x82, 0xac] = bs @ [] \<and> length bs = length (utf8_encode (unat (0x20ac :: uint32))))"
proof -
  have "ngx_utf8_decode [0xe2, 0x82, 0xac] 3 = Some (0x20ac, [])"
    by (simp add: ngx_utf8_decode_def Let_def utf8_tail_eval)
  then show ?thesis by (rule ngx_utf8_decode_shortest) simp
qed

text \<open>
  Fact (functional).  The decoder does not reject everything that is not UTF-8: the lead bytes
  F8 to FF are masked like F0 to F7, and any byte from 80 to FF is taken as a continuation byte.
\<close>

theorem ngx_utf8_decode_lenient:
  "ngx_utf8_decode [0xf8, 0x90, 0x80, 0x80] 4 = Some (0x10000, [])
   \<and> ngx_utf8_decode [0xc2, 0xff] 2 = Some (0xbf, [])"
  by (simp add: ngx_utf8_decode_def Let_def utf8_tail_eval)

text \<open>
  Fact (error).  \<^verbatim>\<open>ngx_utf8_length\<close> passes the length of the whole string to the decoder instead
  of what is left of it, so on a string that ends in the middle of a character it reads past the end.
\<close>

theorem ngx_utf8_length_overrun:
  "ngx_utf8_length [0x41, 0xc3] 2 = None"
  by (simp add: ngx_utf8_length_def utf8_length_loop.simps ngx_utf8_decode_def Let_def)

end
