(* ===== verification/Ngx_Hash_Key.thy ===== *)
theory Ngx_Hash_Key
  imports Ngx_String
begin

text \<open>
  The string hash of \<^verbatim>\<open>src/core/ngx_hash.h\<close> and its three loops in \<^verbatim>\<open>src/core/ngx_hash.c\<close>.  It is
  computed modulo \<open>2 ^ 64\<close>, incrementally by the header parser and at once by the hash tables.
\<close>

definition ngx_hash :: "ngx_uint \<Rightarrow> u_char \<Rightarrow> ngx_uint" where
  "ngx_hash key c = key * 31 + ucast c"

fun ngx_hash_key_loop :: "ngx_uint \<Rightarrow> bytes \<Rightarrow> ngx_uint" where
  "ngx_hash_key_loop key [] = key"
| "ngx_hash_key_loop key (c # cs) = ngx_hash_key_loop (ngx_hash key c) cs"

definition ngx_hash_key :: "bytes \<Rightarrow> ngx_uint" where
  "ngx_hash_key data = ngx_hash_key_loop 0 data"

fun ngx_hash_key_lc_loop :: "ngx_uint \<Rightarrow> bytes \<Rightarrow> ngx_uint" where
  "ngx_hash_key_lc_loop key [] = key"
| "ngx_hash_key_lc_loop key (c # cs) = ngx_hash_key_lc_loop (ngx_hash key (ngx_tolower c)) cs"

definition ngx_hash_key_lc :: "bytes \<Rightarrow> ngx_uint" where
  "ngx_hash_key_lc data = ngx_hash_key_lc_loop 0 data"

text \<open>The bytes written to \<^verbatim>\<open>dst\<close>, and the key.\<close>

fun ngx_hash_strlow_loop :: "ngx_uint \<Rightarrow> bytes \<Rightarrow> bytes \<Rightarrow> bytes \<times> ngx_uint" where
  "ngx_hash_strlow_loop key dst [] = (dst, key)"
| "ngx_hash_strlow_loop key dst (c # src) =
     (let d = ngx_tolower c in ngx_hash_strlow_loop (ngx_hash key d) (dst @ [d]) src)"

definition ngx_hash_strlow :: "bytes \<Rightarrow> bytes \<times> ngx_uint" where
  "ngx_hash_strlow src = ngx_hash_strlow_loop 0 [] src"

lemma ngx_hash_key_loop_append [simp]:
  "ngx_hash_key_loop key (xs @ ys) = ngx_hash_key_loop (ngx_hash_key_loop key xs) ys"
  by (induction xs arbitrary: key) simp_all

lemma ngx_hash_key_snoc: "ngx_hash_key (xs @ [c]) = ngx_hash (ngx_hash_key xs) c"
  by (simp add: ngx_hash_key_def)

lemma ngx_hash_key_lc_map: "ngx_hash_key_lc data = ngx_hash_key (map ngx_tolower data)"
proof -
  have "ngx_hash_key_lc_loop key data = ngx_hash_key_loop key (map ngx_tolower data)" for key
    by (induction data arbitrary: key) simp_all
  then show ?thesis by (simp add: ngx_hash_key_lc_def ngx_hash_key_def)
qed

lemma ngx_hash_strlow_map:
  "ngx_hash_strlow src = (map ngx_tolower src, ngx_hash_key_lc src)"
proof -
  have "ngx_hash_strlow_loop key dst src = (dst @ map ngx_tolower src, ngx_hash_key_lc_loop key src)" for key dst
    by (induction src arbitrary: key dst) (simp_all add: Let_def)
  then show ?thesis by (simp add: ngx_hash_strlow_def ngx_hash_key_lc_def)
qed

end
