(* ===== verification/Ngx_Hash.thy ===== *)
theory Ngx_Hash
  imports Ngx_Hash_Key Ngx_String
begin

text \<open>
  \<^verbatim>\<open>src/core/ngx_hash.c\<close>: \<^verbatim>\<open>ngx_hash_init\<close>, which lays the elements of a read-only hash table out in one
  block of memory, and \<^verbatim>\<open>ngx_hash_find\<close>, which walks a bucket.  Memory is a map from addresses to the
  objects written there; writing an object destroys every object that it overlaps, and reading where
  there is no object is \<^term>\<open>None\<close>.  The type of the values is a parameter; a null value is \<^term>\<open>None\<close>.
\<close>

section \<open>Memory\<close>

datatype 'v obj = Elt "'v option" uint16 bytes | Null_value

fun obj_size :: "'v obj \<Rightarrow> nat" where
  "obj_size (Elt v len name) = 10 + length name"
| "obj_size Null_value = 8"

type_synonym 'v store = "nat \<Rightarrow> 'v obj option"

definition store_obj :: "nat \<Rightarrow> 'v obj \<Rightarrow> 'v store \<Rightarrow> 'v store" where
  "store_obj a x m = (\<lambda>b.
     if b = a then Some x
     else case m b of
       None \<Rightarrow> None
     | Some y \<Rightarrow> if b < a + obj_size x \<and> a < b + obj_size y then None else Some y)"

text \<open>The macro masks with \<^verbatim>\<open>~(a - 1)\<close>, which is this for a power of two, as all alignments are.\<close>

definition ngx_align :: "nat \<Rightarrow> nat \<Rightarrow> nat" where
  "ngx_align d a = (d + (a - 1)) div a * a"

section \<open>Tables\<close>

record 'v hash_key =
  hk_null :: bool
  hk_data :: bytes
  hk_hash :: ngx_uint
  hk_value :: "'v option"

record 'v hash_table =
  ht_buckets :: "nat \<Rightarrow> nat option"
  ht_size :: nat
  ht_store :: "'v store"

definition NGX_HASH_ELT_SIZE :: "'v hash_key \<Rightarrow> nat" where
  "NGX_HASH_ELT_SIZE k = 8 + ngx_align (length (hk_data k) + 2) 8"

definition bucket_of :: "nat \<Rightarrow> 'v hash_key \<Rightarrow> nat" where
  "bucket_of sz k = unat (hk_hash k) mod sz"

text \<open>One try of a size: the counters are of type \<^verbatim>\<open>u_short\<close> and wrap.\<close>

fun hash_fits :: "nat \<Rightarrow> nat \<Rightarrow> (nat \<Rightarrow> uint16) \<Rightarrow> 'v hash_key list \<Rightarrow> bool" where
  "hash_fits bucket_size sz test [] = True"
| "hash_fits bucket_size sz test (k # ks) =
     (if hk_null k then hash_fits bucket_size sz test ks
      else
        let i = bucket_of sz k; t = test i + of_nat (NGX_HASH_ELT_SIZE k) in
        if t > of_nat bucket_size then False
        else hash_fits bucket_size sz (test(i := t)) ks)"

text \<open>The loop over the sizes: the first that fits, or none.\<close>

function hash_try_sizes :: "nat \<Rightarrow> nat \<Rightarrow> nat \<Rightarrow> 'v hash_key list \<Rightarrow> nat option" where
  "hash_try_sizes bucket_size sz max_size names =
     (if sz \<le> max_size then
        (if hash_fits bucket_size sz (\<lambda>_. 0) names then Some sz
         else hash_try_sizes bucket_size (sz + 1) max_size names)
      else None)"
  by pat_completeness auto
termination by (relation "measure (\<lambda>(b, sz, m, names). Suc m - sz)") auto

declare hash_try_sizes.simps [simp del]

text \<open>The counters after the label \<^verbatim>\<open>found\<close>, and the length of every bucket that is used.\<close>

fun hash_count :: "nat \<Rightarrow> (nat \<Rightarrow> uint16) \<Rightarrow> 'v hash_key list \<Rightarrow> nat \<Rightarrow> uint16" where
  "hash_count sz test [] = test"
| "hash_count sz test (k # ks) =
     (if hk_null k then hash_count sz test ks
      else
        let i = bucket_of sz k in
        hash_count sz (test(i := test i + of_nat (NGX_HASH_ELT_SIZE k))) ks)"

definition bucket_len :: "nat \<Rightarrow> uint16 \<Rightarrow> nat" where
  "bucket_len cacheline t = (if t = 8 then 0 else unat (of_nat (ngx_align (unat t) cacheline) :: uint16))"

definition hash_layout :: "nat \<Rightarrow> (nat \<Rightarrow> uint16) \<Rightarrow> nat \<Rightarrow> nat \<Rightarrow> nat option" where
  "hash_layout cacheline test elts i =
     (if test i = 8 then None else Some (elts + (\<Sum>j < i. bucket_len cacheline (test j))))"

text \<open>
  The loop that writes the elements.  A bucket that has no memory is a null pointer: the element would
  be written through it, so there is no answer.
\<close>

definition hash_elt :: "'v hash_key \<Rightarrow> 'v obj" where
  "hash_elt k = Elt (hk_value k) (of_nat (length (hk_data k))) (ngx_strlow (hk_data k))"

fun hash_place :: "nat \<Rightarrow> (nat \<Rightarrow> nat option) \<Rightarrow> (nat \<Rightarrow> uint16) \<Rightarrow> 'v store \<Rightarrow> 'v hash_key list
    \<Rightarrow> ((nat \<Rightarrow> uint16) \<times> 'v store) option" where
  "hash_place sz buckets test m [] = Some (test, m)"
| "hash_place sz buckets test m (k # ks) =
     (if hk_null k then hash_place sz buckets test m ks
      else
        let i = bucket_of sz k in
        case buckets i of
          None \<Rightarrow> None
        | Some b \<Rightarrow>
            hash_place sz buckets (test(i := test i + of_nat (NGX_HASH_ELT_SIZE k)))
              (store_obj (b + unat (test i)) (hash_elt k) m) ks)"

text \<open>The loop that ends every bucket, from the first to the last.\<close>

fun hash_end :: "(nat \<Rightarrow> nat option) \<Rightarrow> (nat \<Rightarrow> uint16) \<Rightarrow> nat \<Rightarrow> 'v store \<Rightarrow> 'v store" where
  "hash_end buckets test 0 m = m"
| "hash_end buckets test (Suc i) m =
     (let m = hash_end buckets test i m in
      case buckets i of None \<Rightarrow> m | Some b \<Rightarrow> store_obj (b + unat (test i)) Null_value m)"

definition hash_fill :: "nat \<Rightarrow> nat \<Rightarrow> nat \<Rightarrow> 'v hash_key list \<Rightarrow> 'v hash_table option" where
  "hash_fill cacheline elts sz names =
     (let buckets = hash_layout cacheline (hash_count sz (\<lambda>_. 8) names) elts in
      case hash_place sz buckets (\<lambda>_. 0) (\<lambda>_. None) names of
        None \<Rightarrow> None
      | Some (test, m) \<Rightarrow>
          Some \<lparr>ht_buckets = buckets, ht_size = sz, ht_store = hash_end buckets test sz m\<rparr>)"

datatype 'v init_result = Init_error | Init_fault | Init_ok "'v hash_table"

definition hash_start :: "nat \<Rightarrow> nat \<Rightarrow> nat \<Rightarrow> nat" where
  "hash_start bucket_size max_size nelts =
     (let start = nelts div (bucket_size div 16);
          start = (if start \<noteq> 0 then start else 1)
      in if max_size > 10000 \<and> nelts \<noteq> 0 \<and> max_size div nelts < 100 then max_size - 1000 else start)"

text \<open>
  \<open>hinit_bucket_size\<close> and \<open>hinit_max_size\<close> are the limits of \<^verbatim>\<open>hinit\<close>, \<open>elts\<close> the aligned address of
  the memory for the elements, and \<open>mem_ok\<close> says which of the three allocations succeed.  A division by
  zero and a write through a null pointer are \<open>Init_fault\<close>.
\<close>

definition ngx_hash_init :: "(nat \<Rightarrow> bool) \<Rightarrow> nat \<Rightarrow> nat \<Rightarrow> nat \<Rightarrow> nat \<Rightarrow> 'v hash_key list \<Rightarrow> 'v init_result" where
  "ngx_hash_init mem_ok cacheline elts hinit_max_size hinit_bucket_size names =
     (if hinit_max_size = 0 then Init_error
      else if \<not> list_all (\<lambda>k. NGX_HASH_ELT_SIZE k + 8 \<le> hinit_bucket_size) names then Init_error
      else if \<not> mem_ok 0 then Init_error
      else
        let bucket_size = hinit_bucket_size - 8 in
        if bucket_size div 16 = 0 then Init_fault
        else
          let start = hash_start bucket_size hinit_max_size (length names);
              sz = (case hash_try_sizes bucket_size start hinit_max_size names of
                        Some sz \<Rightarrow> sz | None \<Rightarrow> hinit_max_size)
          in
          if \<not> mem_ok 1 \<or> \<not> mem_ok 2 then Init_error
          else case hash_fill cacheline elts sz names of
                 None \<Rightarrow> Init_fault
               | Some h \<Rightarrow> Init_ok h)"

section \<open>Looking up\<close>

text \<open>The walk along a bucket; \<^term>\<open>None\<close> is a read where there is no element, or a walk that never ends.\<close>

partial_function (option) hash_walk :: "'v store \<Rightarrow> nat \<Rightarrow> bytes \<Rightarrow> 'v option option" where
  "hash_walk m a name =
     (case m a of
        None \<Rightarrow> None
      | Some Null_value \<Rightarrow> Some None
      | Some (Elt value len elt_name) \<Rightarrow>
          (case value of
             None \<Rightarrow> Some None
           | Some v \<Rightarrow>
               if length name = unat len \<and> name = take (unat len) elt_name then Some (Some v)
               else hash_walk m (ngx_align (a + 10 + unat len) 8) name))"

definition ngx_hash_find :: "'v hash_table \<Rightarrow> ngx_uint \<Rightarrow> bytes \<Rightarrow> 'v option option" where
  "ngx_hash_find h key name =
     (case ht_buckets h (unat key mod ht_size h) of
        None \<Rightarrow> Some None
      | Some elt \<Rightarrow> hash_walk (ht_store h) elt name)"

section \<open>Alignment and sizes\<close>

lemma unat_of_nat_16: "n < 65536 \<Longrightarrow> unat (of_nat n :: uint16) = n"
  by (simp add: unat_of_nat take_bit_nat_eq_self)

lemma ngx_align_bounds: "0 < a \<Longrightarrow> d \<le> ngx_align d a" "0 < a \<Longrightarrow> ngx_align d a < d + a"
proof -
  assume a: "0 < a"
  have "(d + (a - 1)) div a * a + (d + (a - 1)) mod a = d + (a - 1)" by simp
  moreover have "(d + (a - 1)) mod a < a" using a by simp
  ultimately show "d \<le> ngx_align d a" "ngx_align d a < d + a" using a unfolding ngx_align_def by linarith+
qed

lemma ngx_align_dvd [simp]: "a dvd ngx_align d a"
  by (simp add: ngx_align_def)

lemma ngx_align_add: "0 < a \<Longrightarrow> a dvd b \<Longrightarrow> ngx_align (b + d) a = b + ngx_align d a"
proof -
  assume a: "0 < a" "a dvd b"
  then obtain q where b: "b = a * q" by (elim dvdE)
  have "(d + (a - 1) + a * q) div a = q + (d + (a - 1)) div a"
    using a(1) by (intro div_mult_self2) simp
  then have "(b + d + (a - 1)) div a = q + (d + (a - 1)) div a" by (simp only: b ac_simps)
  then show ?thesis by (simp add: ngx_align_def b algebra_simps)
qed

lemma elt_size_bounds: "10 + length (hk_data k) \<le> NGX_HASH_ELT_SIZE k" "16 \<le> NGX_HASH_ELT_SIZE k"
  and elt_size_dvd: "8 dvd NGX_HASH_ELT_SIZE k"
proof -
  have "length (hk_data k) + 2 \<le> ngx_align (length (hk_data k) + 2) 8" by (rule ngx_align_bounds) simp
  then show "10 + length (hk_data k) \<le> NGX_HASH_ELT_SIZE k" by (simp add: NGX_HASH_ELT_SIZE_def)
  show dvd: "8 dvd NGX_HASH_ELT_SIZE k" by (simp add: NGX_HASH_ELT_SIZE_def)
  have "8 < NGX_HASH_ELT_SIZE k" using \<open>10 + length (hk_data k) \<le> NGX_HASH_ELT_SIZE k\<close> by simp
  with dvd show "16 \<le> NGX_HASH_ELT_SIZE k" by (auto elim!: dvdE)
qed

lemma next_elt:
  assumes "8 dvd a"
  shows "ngx_align (a + 10 + length (hk_data k)) 8 = a + NGX_HASH_ELT_SIZE k"
proof -
  have "8 dvd a + 8" using assms by simp
  from ngx_align_add [OF _ this, of "length (hk_data k) + 2"] show ?thesis
    by (simp add: NGX_HASH_ELT_SIZE_def ac_simps)
qed

section \<open>The elements of a bucket\<close>

fun chain :: "'v store \<Rightarrow> nat \<Rightarrow> 'v hash_key list \<Rightarrow> bool" where
  "chain m a [] \<longleftrightarrow> True"
| "chain m a (k # ks) \<longleftrightarrow> m a = Some (hash_elt k) \<and> chain m (a + NGX_HASH_ELT_SIZE k) ks"

definition elts_size :: "'v hash_key list \<Rightarrow> nat" where
  "elts_size ks = sum_list (map NGX_HASH_ELT_SIZE ks)"

lemma elts_size_simps [simp]:
  "elts_size [] = 0" "elts_size (k # ks) = NGX_HASH_ELT_SIZE k + elts_size ks"
  "elts_size (ks @ ls) = elts_size ks + elts_size ls"
  by (simp_all add: elts_size_def)

lemma elts_size_eq_0 [simp]: "elts_size ks = 0 \<longleftrightarrow> ks = []"
  using elt_size_bounds(2) by (cases ks) (auto simp: NGX_HASH_ELT_SIZE_def)

lemma chain_snoc: "chain m a (ks @ [k]) \<longleftrightarrow> chain m a ks \<and> m (a + elts_size ks) = Some (hash_elt k)"
  by (induction ks arbitrary: a) (auto simp: add.assoc)

lemma obj_size_elt [simp]: "obj_size (hash_elt k) = 10 + length (hk_data k)"
  by (simp add: hash_elt_def ngx_strlow_def)

lemma obj_size_pos: "0 < obj_size x"
  by (cases x) simp_all

lemma store_obj_same [simp]: "store_obj a x m a = Some x"
  by (simp add: store_obj_def)

lemma store_obj_apart:
  assumes "m b = Some y" and "b + obj_size y \<le> a \<or> a + obj_size x \<le> b"
  shows "store_obj a x m b = Some y"
  using assms obj_size_pos [of x] obj_size_pos [of y] by (auto simp: store_obj_def)

lemma chain_store_obj:
  assumes "chain m a ks" and "a + elts_size ks \<le> w \<or> w + obj_size x \<le> a"
  shows "chain (store_obj w x m) a ks"
  using assms
proof (induction ks arbitrary: a)
  case (Cons k ks)
  have "store_obj w x m a = Some (hash_elt k)"
    by (rule store_obj_apart) (use Cons.prems elt_size_bounds(1) [of k] in auto)
  with Cons show ?case by auto
qed simp

definition good_key :: "'v hash_key \<Rightarrow> bool" where
  "good_key k \<longleftrightarrow> hk_value k \<noteq> None \<and> length (hk_data k) < 65536"

lemma hash_walk_chain:
  assumes "chain m a ks" and "m (a + elts_size ks) = Some Null_value" and "8 dvd a" and "list_all good_key ks"
  shows "hash_walk m a name =
     Some (case find (\<lambda>k. ngx_strlow (hk_data k) = name) ks of None \<Rightarrow> None | Some k \<Rightarrow> hk_value k)"
  using assms
proof (induction ks arbitrary: a)
  case Nil
  then show ?case by (simp add: hash_walk.simps)
next
  case (Cons k ks)
  then have len: "unat (of_nat (length (hk_data k)) :: uint16) = length (hk_data k)"
    by (simp add: good_key_def unat_of_nat_16)
  obtain v where v: "hk_value k = Some v" using Cons.prems by (auto simp: good_key_def)
  have low: "length (ngx_strlow (hk_data k)) = length (hk_data k)" by (simp add: ngx_strlow_def)
  have at: "m a = Some (Elt (Some v) (of_nat (length (hk_data k))) (ngx_strlow (hk_data k)))"
    using Cons.prems v by (simp add: hash_elt_def)
  have dvd: "8 dvd a + NGX_HASH_ELT_SIZE k" using Cons.prems(3) elt_size_dvd by (rule dvd_add)
  have IH: "hash_walk m (a + NGX_HASH_ELT_SIZE k) name =
      Some (case find (\<lambda>k. ngx_strlow (hk_data k) = name) ks of None \<Rightarrow> None | Some k \<Rightarrow> hk_value k)"
    using Cons.prems dvd by (intro Cons.IH) (simp_all add: add.assoc)
  show ?case
  proof (cases "ngx_strlow (hk_data k) = name")
    case True
    with at len low v show ?thesis by (subst hash_walk.simps) auto
  next
    case False
    then have no: "(length name = length (hk_data k) \<and> name = take (length (hk_data k)) (ngx_strlow (hk_data k))) = False"
      using low by auto
    have "hash_walk m a name = hash_walk m (ngx_align (a + 10 + length (hk_data k)) 8) name"
      by (subst hash_walk.simps) (simp only: at option.case obj.case len no if_False)
    with v False IH next_elt [OF Cons.prems(3), of k] show ?thesis by simp
  qed
qed

section \<open>Filling the table\<close>

definition bucket_keys :: "nat \<Rightarrow> nat \<Rightarrow> 'v hash_key list \<Rightarrow> 'v hash_key list" where
  "bucket_keys sz i ks = filter (\<lambda>k. \<not> hk_null k \<and> bucket_of sz k = i) ks"

lemma bucket_keys_simps [simp]:
  "bucket_keys sz i [] = []"
  "bucket_keys sz i (k # ks) = (if \<not> hk_null k \<and> bucket_of sz k = i then k # bucket_keys sz i ks else bucket_keys sz i ks)"
  "bucket_keys sz i (ks @ ls) = bucket_keys sz i ks @ bucket_keys sz i ls"
  by (simp_all add: bucket_keys_def)

lemma hash_count_sum: "hash_count sz test ks i = test i + of_nat (elts_size (bucket_keys sz i ks))"
  by (induction ks arbitrary: test) (auto simp: Let_def)

text \<open>The elements of every bucket, its end and its alignment fit in 16 bits.\<close>

definition buckets_fit :: "nat \<Rightarrow> nat \<Rightarrow> 'v hash_key list \<Rightarrow> bool" where
  "buckets_fit cacheline sz ks \<longleftrightarrow> (\<forall>i. 8 + elts_size (bucket_keys sz i ks) + cacheline \<le> 65536)"

lemma elts_size_fit:
  assumes "buckets_fit cacheline sz ks"
  shows "8 + elts_size (bucket_keys sz i ks) + cacheline \<le> 65536"
  using assms by (simp add: buckets_fit_def)

lemma unat_count:
  assumes "buckets_fit cacheline sz ks" and "0 < cacheline"
  shows "unat (hash_count sz (\<lambda>_. 8) ks i) = 8 + elts_size (bucket_keys sz i ks)"
proof -
  have "8 + elts_size (bucket_keys sz i ks) < 65536"
    using assms unfolding buckets_fit_def by (metis less_add_same_cancel1 less_le_trans)
  then have "unat (of_nat (8 + elts_size (bucket_keys sz i ks)) :: uint16) = 8 + elts_size (bucket_keys sz i ks)"
    by (rule unat_of_nat_16)
  moreover have "hash_count sz (\<lambda>_. 8) ks i = of_nat (8 + elts_size (bucket_keys sz i ks))"
    by (simp add: hash_count_sum)
  ultimately show ?thesis by (simp only:)
qed

lemma hash_count_unused:
  assumes "buckets_fit cacheline sz ks" and "0 < cacheline"
  shows "hash_count sz (\<lambda>_. 8) ks i = 8 \<longleftrightarrow> bucket_keys sz i ks = []"
proof -
  have "hash_count sz (\<lambda>_. 8) ks i = 8 \<longleftrightarrow> unat (hash_count sz (\<lambda>_. 8) ks i) = unat (8 :: uint16)"
    by (rule word_unat_eq_iff)
  then show ?thesis by (simp add: unat_count [OF assms])
qed

lemma bucket_len_count:
  assumes "buckets_fit cacheline sz ks" and "0 < cacheline"
  shows "cacheline dvd bucket_len cacheline (hash_count sz (\<lambda>_. 8) ks i)"
    and "bucket_keys sz i ks \<noteq> [] \<Longrightarrow>
      8 + elts_size (bucket_keys sz i ks) \<le> bucket_len cacheline (hash_count sz (\<lambda>_. 8) ks i)"
proof -
  let ?d = "8 + elts_size (bucket_keys sz i ks)"
  have "ngx_align ?d cacheline < ?d + cacheline" using assms(2) by (rule ngx_align_bounds)
  also have "\<dots> \<le> 65536" using assms(1) by (simp add: buckets_fit_def)
  finally have len: "bucket_len cacheline (hash_count sz (\<lambda>_. 8) ks i) =
      (if bucket_keys sz i ks = [] then 0 else ngx_align ?d cacheline)"
    by (simp add: bucket_len_def hash_count_unused [OF assms] unat_count [OF assms] unat_of_nat_16)
  show "cacheline dvd bucket_len cacheline (hash_count sz (\<lambda>_. 8) ks i)" by (simp add: len)
  show "?d \<le> bucket_len cacheline (hash_count sz (\<lambda>_. 8) ks i)" if "bucket_keys sz i ks \<noteq> []"
    using that ngx_align_bounds(1) [OF assms(2), of ?d] by (simp add: len)
qed

text \<open>
  A table that is large enough: where its buckets start, and the room that each has for its keys and for
  the null value at the end.
\<close>

lemma layout_facts:
  fixes names :: "'v hash_key list"
  assumes fit: "buckets_fit cacheline sz names" and cl: "0 < cacheline" "8 dvd cacheline" and elts: "8 dvd elts"
    and buckets: "buckets = hash_layout cacheline (hash_count sz (\<lambda>_. 8) names) elts"
  shows "buckets i = None \<longleftrightarrow> bucket_keys sz i names = []"
    and "buckets i = Some b \<Longrightarrow> 8 dvd b"
    and "buckets i = Some b \<Longrightarrow> buckets j = Some c \<Longrightarrow> i < j \<Longrightarrow> b + elts_size (bucket_keys sz i names) + 8 \<le> c"
proof -
  let ?L = "\<lambda>j. bucket_len cacheline (hash_count sz (\<lambda>_. 8) names j)"
  show unused: "buckets i = None \<longleftrightarrow> bucket_keys sz i names = []" for i
    by (simp add: buckets hash_layout_def hash_count_unused [OF fit cl(1)])
  have start: "b = elts + (\<Sum>j < i. ?L j)" if "buckets i = Some b" for i b
    using that by (simp add: buckets hash_layout_def split: if_splits)
  have "8 dvd ?L j" for j using bucket_len_count(1) [OF fit cl(1)] cl(2) by (rule dvd_trans [rotated])
  then have "8 dvd (\<Sum>j < i. ?L j)" by (intro dvd_sum) simp
  with elts have "8 dvd elts + (\<Sum>j < i. ?L j)" by (rule dvd_add)
  with start [of i b] show "buckets i = Some b \<Longrightarrow> 8 dvd b" by metis
  assume b: "buckets i = Some b" and c: "buckets j = Some c" and "i < j"
  then have "bucket_keys sz i names \<noteq> []" using unused [of i] by simp
  from bucket_len_count(2) [OF fit cl(1) this] have "8 + elts_size (bucket_keys sz i names) \<le> ?L i" .
  moreover have "(\<Sum>k < i. ?L k) + ?L i \<le> (\<Sum>k < j. ?L k)"
  proof -
    have "(\<Sum>k < Suc i. ?L k) \<le> (\<Sum>k < j. ?L k)" using \<open>i < j\<close> by (intro sum_mono2) auto
    then show ?thesis by simp
  qed
  ultimately show "b + elts_size (bucket_keys sz i names) + 8 \<le> c"
    using start [OF b] start [OF c] by simp
qed

definition placed :: "nat \<Rightarrow> (nat \<Rightarrow> nat option) \<Rightarrow> 'v hash_key list \<Rightarrow> (nat \<Rightarrow> uint16) \<Rightarrow> 'v store \<Rightarrow> bool" where
  "placed sz buckets ks test m \<longleftrightarrow>
     (\<forall>i. test i = of_nat (elts_size (bucket_keys sz i ks)))
     \<and> (\<forall>i b. buckets i = Some b \<longrightarrow> chain m b (bucket_keys sz i ks))"

lemma bucket_apart:
  fixes names :: "'v hash_key list"
  assumes fit: "buckets_fit cacheline sz names" and cl: "0 < cacheline" "8 dvd cacheline" and elts: "8 dvd elts"
    and buckets: "buckets = hash_layout cacheline (hash_count sz (\<lambda>_. 8) names) elts"
    and "buckets i = Some b" and "buckets j = Some c" and "i \<noteq> j"
    and "d \<le> elts_size (bucket_keys sz i names)" and "w + n \<le> elts_size (bucket_keys sz j names) + 8"
  shows "b + d \<le> c + w \<or> c + w + n \<le> b"
  using layout_facts(3) [OF fit cl elts buckets, of i b j c] layout_facts(3) [OF fit cl elts buckets, of j c i b] assms(6-)
  by (cases "i < j") auto

lemma hash_place_keys:
  fixes names :: "'v hash_key list"
  assumes fit: "buckets_fit cacheline sz names" and cl: "0 < cacheline" "8 dvd cacheline" and elts: "8 dvd elts"
    and buckets: "buckets = hash_layout cacheline (hash_count sz (\<lambda>_. 8) names) elts"
    and "placed sz buckets ds test m" and "names = ds @ ks"
  shows "\<exists>test' m'. hash_place sz buckets test m ks = Some (test', m') \<and> placed sz buckets names test' m'"
  using assms(6,7)
proof (induction ks arbitrary: ds test m)
  case Nil
  then show ?case by simp
next
  case (Cons k ks)
  show ?case
  proof (cases "hk_null k")
    case True
    with Cons.prems have "placed sz buckets (ds @ [k]) test m" by (simp add: placed_def)
    with Cons.IH [of "ds @ [k]"] Cons.prems True show ?thesis by simp
  next
    case False
    define i where "i = bucket_of sz k"
    have "bucket_keys sz i names \<noteq> []" using Cons.prems(2) False by (simp add: i_def)
    with layout_facts(1) [OF fit cl elts buckets, of i] obtain b where b: "buckets i = Some b" by auto
    let ?T = "\<lambda>j. elts_size (bucket_keys sz j ds)"
    have within: "?T i + NGX_HASH_ELT_SIZE k \<le> elts_size (bucket_keys sz i names)"
      using Cons.prems(2) False by (simp add: i_def)
    have "elts_size (bucket_keys sz i names) < 65536"
      using elts_size_fit [OF fit, of i] by simp
    then have pos: "unat (test i) = ?T i"
      using Cons.prems(1) within by (simp add: placed_def unat_of_nat_16)
    let ?m = "store_obj (b + unat (test i)) (hash_elt k) m"
    let ?test = "test(i := test i + of_nat (NGX_HASH_ELT_SIZE k))"
    have next_placed: "placed sz buckets (ds @ [k]) ?test ?m"
      unfolding placed_def
    proof (intro conjI allI impI)
      fix j
      show "?test j = of_nat (elts_size (bucket_keys sz j (ds @ [k])))"
        using Cons.prems(1) False by (simp add: placed_def i_def)
    next
      fix j c
      assume c: "buckets j = Some c"
      have old: "chain m c (bucket_keys sz j ds)" using Cons.prems(1) c by (simp add: placed_def)
      show "chain ?m c (bucket_keys sz j (ds @ [k]))"
      proof (cases "j = i")
        case True
        with b c have "c = b" by simp
        have "chain ?m b (bucket_keys sz i ds)"
          using old unfolding True \<open>c = b\<close> by (rule chain_store_obj) (simp add: pos)
        then show ?thesis using False by (simp add: True \<open>c = b\<close> chain_snoc pos flip: i_def)
      next
        case other: False
        have size: "?T j \<le> elts_size (bucket_keys sz j names)" using Cons.prems(2) by simp
        have "c + ?T j \<le> b + ?T i \<or> b + ?T i + obj_size (hash_elt k) \<le> c"
          using within elt_size_bounds(1) [of k]
          by (intro bucket_apart [OF fit cl elts buckets c b other size]) simp
        then have "chain ?m c (bucket_keys sz j ds)"
          using old by (intro chain_store_obj) (simp_all add: pos)
        then show ?thesis using other by (simp add: i_def)
      qed
    qed
    have "hash_place sz buckets test m (k # ks) = hash_place sz buckets ?test ?m ks"
      using False b by (simp add: Let_def flip: i_def)
    moreover have "\<exists>test' m'. hash_place sz buckets ?test ?m ks = Some (test', m') \<and> placed sz buckets names test' m'"
      by (rule Cons.IH [OF next_placed]) (simp add: Cons.prems(2))
    ultimately show ?thesis by simp
  qed
qed

lemma hash_end_null:
  fixes names :: "'v hash_key list"
  assumes fit: "buckets_fit cacheline sz names" and cl: "0 < cacheline" "8 dvd cacheline" and elts: "8 dvd elts"
    and buckets: "buckets = hash_layout cacheline (hash_count sz (\<lambda>_. 8) names) elts"
    and placed: "placed sz buckets names test m"
  shows "placed sz buckets names test (hash_end buckets test n m)
    \<and> (\<forall>i < n. \<forall>b. buckets i = Some b \<longrightarrow>
         hash_end buckets test n m (b + elts_size (bucket_keys sz i names)) = Some Null_value)"
proof (induction n)
  case 0
  then show ?case using placed by simp
next
  case (Suc n)
  let ?T = "\<lambda>j. elts_size (bucket_keys sz j names)"
  let ?m = "hash_end buckets test n m"
  show ?case
  proof (cases "buckets n")
    case None
    with Suc show ?thesis by (auto simp: Let_def less_Suc_eq)
  next
    case (Some b)
    have "?T n < 65536"
      using elts_size_fit [OF fit, of n] by simp
    then have pos: "unat (test n) = ?T n" using placed by (simp add: placed_def unat_of_nat_16)
    let ?m' = "store_obj (b + ?T n) Null_value ?m"
    have step: "hash_end buckets test (Suc n) m = ?m'" using Some by (simp add: Let_def pos)
    have "chain ?m' c (bucket_keys sz j names)" if c: "buckets j = Some c" for j c
    proof (rule chain_store_obj)
      show "chain ?m c (bucket_keys sz j names)" using Suc c by (simp add: placed_def)
      show "c + ?T j \<le> b + ?T n \<or> b + ?T n + obj_size (Null_value :: 'v obj) \<le> c"
      proof (cases "j = n")
        case True
        with c Some show ?thesis by simp
      next
        case False
        show ?thesis by (rule bucket_apart [OF fit cl elts buckets c Some False]) simp_all
      qed
    qed
    moreover have "?m' (c + ?T j) = Some Null_value" if "j < Suc n" and c: "buckets j = Some c" for j c
    proof (cases "j = n")
      case True
      with c Some show ?thesis by simp
    next
      case False
      with that have "j < n" by simp
      with Suc c have old: "?m (c + ?T j) = Some Null_value" by blast
      have "c + ?T j + 8 \<le> b"
        using layout_facts(3) [OF fit cl elts buckets c Some \<open>j < n\<close>] .
      then show ?thesis using old by (intro store_obj_apart) simp_all
    qed
    ultimately show ?thesis using Suc unfolding step by (auto simp: placed_def)
  qed
qed

section \<open>What a look-up finds\<close>

text \<open>The value of the first key of the bucket that is the name in lower case.\<close>

definition key_value :: "nat \<Rightarrow> 'v hash_key list \<Rightarrow> ngx_uint \<Rightarrow> bytes \<Rightarrow> 'v option" where
  "key_value sz names key name =
     (case find (\<lambda>k. ngx_strlow (hk_data k) = name) (bucket_keys sz (unat key mod sz) names) of
        None \<Rightarrow> None
      | Some k \<Rightarrow> hk_value k)"

lemma hash_fill_find:
  fixes names :: "'v hash_key list"
  assumes fit: "buckets_fit cacheline sz names" and cl: "0 < cacheline" "8 dvd cacheline" and elts: "8 dvd elts"
    and "0 < sz" and good: "list_all (\<lambda>k. hk_null k \<or> good_key k) names"
  shows "\<exists>h. hash_fill cacheline elts sz names = Some h \<and> ht_size h = sz
    \<and> (\<forall>key name. ngx_hash_find h key name = Some (key_value sz names key name))"
proof -
  define buckets where "buckets = hash_layout cacheline (hash_count sz (\<lambda>_. 8) names) elts"
  have "placed sz buckets [] (\<lambda>_. 0) (\<lambda>_. None :: 'v obj option)" by (simp add: placed_def)
  from hash_place_keys [OF fit cl elts buckets_def this, of names] obtain test m where
    place: "hash_place sz buckets (\<lambda>_. 0) (\<lambda>_. None) names = Some (test, m)" and m: "placed sz buckets names test m"
    by auto
  define h where "h = \<lparr>ht_buckets = buckets, ht_size = sz, ht_store = hash_end buckets test sz m\<rparr>"
  have fill: "hash_fill cacheline elts sz names = Some h"
    by (simp add: hash_fill_def place h_def flip: buckets_def)
  note filled = hash_end_null [OF fit cl elts buckets_def m, of sz]
  have "ngx_hash_find h key name = Some (key_value sz names key name)" for key name
  proof (cases "buckets (unat key mod sz)")
    case None
    with layout_facts(1) [OF fit cl elts buckets_def, of "unat key mod sz"] have "bucket_keys sz (unat key mod sz) names = []" by simp
    with None show ?thesis by (simp add: ngx_hash_find_def h_def key_value_def)
  next
    case (Some b)
    have "list_all good_key (bucket_keys sz (unat key mod sz) names)"
      using good by (auto simp: list_all_iff bucket_keys_def)
    moreover have "8 dvd b" by (rule layout_facts(2) [OF fit cl elts buckets_def Some])
    moreover have "chain (ht_store h) b (bucket_keys sz (unat key mod sz) names)"
      using filled Some by (simp add: h_def placed_def)
    moreover have "ht_store h (b + elts_size (bucket_keys sz (unat key mod sz) names)) = Some Null_value"
      using filled Some \<open>0 < sz\<close> by (simp add: h_def)
    ultimately have "hash_walk (ht_store h) b name = Some (key_value sz names key name)"
      unfolding key_value_def by (intro hash_walk_chain)
    with Some show ?thesis by (simp add: ngx_hash_find_def h_def)
  qed
  moreover have "ht_size h = sz" by (simp add: h_def)
  ultimately show ?thesis using fill by blast
qed

text \<open>A size that the search accepts leaves room in every bucket.\<close>

lemma hash_fits_sum:
  assumes "hash_fits limit sz test ks" and "limit < 32768"
    and "list_all (\<lambda>k. NGX_HASH_ELT_SIZE k \<le> limit) ks" and "\<forall>i. unat (test i) \<le> limit"
  shows "unat (test i) + elts_size (bucket_keys sz i ks) \<le> limit"
  using assms
proof (induction ks arbitrary: test)
  case Nil
  then show ?case by simp
next
  case (Cons k ks)
  show ?case
  proof (cases "hk_null k")
    case True
    with Cons show ?thesis by simp
  next
    case False
    define j where "j = bucket_of sz k"
    define t where "t = test j + of_nat (NGX_HASH_ELT_SIZE k)"
    have small: "unat (test j) + NGX_HASH_ELT_SIZE k < 65536"
      using Cons.prems by (metis (no_types, lifting) add_mono list.pred_inject(2) le_less_trans numeral_Bit0 add_less_mono)
    have "unat (of_nat (NGX_HASH_ELT_SIZE k) :: uint16) = NGX_HASH_ELT_SIZE k"
      using small by (intro unat_of_nat_16) simp
    then have t: "unat t = unat (test j) + NGX_HASH_ELT_SIZE k"
      unfolding t_def using small by (simp add: unat_add_lem [THEN iffD1])
    have limit: "unat (of_nat limit :: uint16) = limit" using Cons.prems(2) by (intro unat_of_nat_16) simp
    have "\<not> t > of_nat limit" and rest: "hash_fits limit sz (test(j := t)) ks"
      using Cons.prems(1) False by (auto simp: Let_def t_def j_def split: if_splits)
    then have "unat t \<le> limit" by (simp add: word_less_nat_alt limit)
    with Cons.prems(4) have "\<forall>i. unat ((test(j := t)) i) \<le> limit" by simp
    with Cons.IH [OF rest Cons.prems(2)] Cons.prems(3)
    have "unat ((test(j := t)) i) + elts_size (bucket_keys sz i ks) \<le> limit" by simp
    with t False show ?thesis by (auto simp: j_def split: if_splits)
  qed
qed

lemma hash_try_sizes_fits:
  "hash_try_sizes limit n max_size names = Some sz \<Longrightarrow>
     n \<le> sz \<and> sz \<le> max_size \<and> hash_fits limit sz (\<lambda>_. 0) names"
proof (induction limit n max_size names rule: hash_try_sizes.induct)
  case (1 limit n max_size names)
  then show ?case by (auto simp: hash_try_sizes.simps [of limit n] split: if_splits)
qed

lemma hash_start_pos: "0 < hash_start bucket_size max_size nelts"
  by (simp add: hash_start_def Let_def)

lemma try_sizes_fit:
  assumes "hash_try_sizes (bucket_size - 8) n max_size names = Some sz"
    and "bucket_size + cacheline \<le> 32768" and "0 < n"
    and "list_all (\<lambda>k. NGX_HASH_ELT_SIZE k + 8 \<le> bucket_size) names"
  shows "buckets_fit cacheline sz names \<and> 0 < sz"
proof -
  have fits: "n \<le> sz" "hash_fits (bucket_size - 8) sz (\<lambda>_. 0) names"
    using hash_try_sizes_fits [OF assms(1)] by auto
  have "list_all (\<lambda>k. NGX_HASH_ELT_SIZE k \<le> bucket_size - 8) names"
    using assms(4) by (auto simp: list_all_iff)
  from hash_fits_sum [OF fits(2) _ this] have "elts_size (bucket_keys sz i names) \<le> bucket_size - 8" for i
    using assms(2) by simp
  note sum = this
  have "8 + elts_size (bucket_keys sz i names) + cacheline \<le> 65536" for i
    using assms(2) sum [of i] by simp
  with fits assms(3) show ?thesis by (simp add: buckets_fit_def)
qed

text \<open>The key that a name stands for: the first that is the name in lower case.\<close>

definition named_value :: "'v hash_key list \<Rightarrow> bytes \<Rightarrow> 'v option" where
  "named_value names name =
     (case find (\<lambda>k. \<not> hk_null k \<and> ngx_strlow (hk_data k) = name) names of
        None \<Rightarrow> None
      | Some k \<Rightarrow> hk_value k)"

lemma key_value_named:
  assumes "list_all (\<lambda>k. hk_null k \<or> hk_hash k = ngx_hash_key_lc (hk_data k)) names"
  shows "key_value sz names (ngx_hash_key name) name = named_value names name"
proof -
  have "find (\<lambda>k. ngx_strlow (hk_data k) = name) (bucket_keys sz (unat (ngx_hash_key name) mod sz) names) =
      find (\<lambda>k. \<not> hk_null k \<and> ngx_strlow (hk_data k) = name) names"
    using assms
  proof (induction names)
    case (Cons k names)
    have "ngx_strlow (hk_data k) = name \<Longrightarrow> ngx_hash_key_lc (hk_data k) = ngx_hash_key name"
      by (auto simp: ngx_hash_key_lc_map ngx_strlow_def)
    with Cons show ?case by (auto simp: bucket_of_def)
  qed simp
  then show ?thesis by (simp add: key_value_def named_value_def)
qed

text \<open>
  Property C14 (functional).  Let the keys carry a value and the hash of their names in lower case (those without a name are skipped), with names of less than
  65536 bytes, the bucket size be at least 24 (two pointers and one more), the cache line a multiple of 8, and the memory aligned to 8.
  \<^verbatim>\<open>ngx_hash_init\<close> fails with an error when the largest size is zero, when a key and a pointer do not fit in a bucket,
  or when memory is missing.  Else it builds a table in which \<^verbatim>\<open>ngx_hash_find\<close> gives, for every name in lower case,
  the value of the first key that is the name up to case, and null when there is none; no read leaves
  the elements.  The latter holds of every size that the search accepts, if the bucket size and the cache line
  are at most 32768 together, and of the largest size, which is taken when the search fails, if the
  length of every bucket fits in 16 bits.
\<close>

theorem hash_find_init:
  fixes names :: "'v hash_key list"
  assumes cl: "0 < cacheline" "8 dvd cacheline" and elts: "8 dvd elts" and bucket: "24 \<le> bucket_size"
    and keys: "list_all (\<lambda>k. hk_null k \<or> good_key k \<and> hk_hash k = ngx_hash_key_lc (hk_data k)) names"
  shows "if max_size = 0 \<or> (\<exists>k \<in> set names. bucket_size < NGX_HASH_ELT_SIZE k + 8) \<or> \<not> mem_ok 0 \<or> \<not> mem_ok 1 \<or> \<not> mem_ok 2
    then ngx_hash_init mem_ok cacheline elts max_size bucket_size names = Init_error
    else (case hash_try_sizes (bucket_size - 8) (hash_start (bucket_size - 8) max_size (length names)) max_size names of
        Some sz \<Rightarrow> bucket_size + cacheline \<le> 32768 | None \<Rightarrow> buckets_fit cacheline max_size names)
      \<longrightarrow> (\<exists>h. ngx_hash_init mem_ok cacheline elts max_size bucket_size names = Init_ok h
        \<and> (\<forall>name. ngx_hash_find h (ngx_hash_key name) name = Some (named_value names name)))"
proof (cases "max_size = 0 \<or> (\<exists>k \<in> set names. bucket_size < NGX_HASH_ELT_SIZE k + 8) \<or> \<not> mem_ok 0 \<or> \<not> mem_ok 1 \<or> \<not> mem_ok 2")
  case True
  have "(bucket_size - 8) div 16 \<noteq> 0" using bucket by (simp add: div_eq_0_iff)
  with True show ?thesis by (auto simp: ngx_hash_init_def Let_def list_all_iff not_le)
next
  case good: False
  then have size: "0 < max_size" "list_all (\<lambda>k. NGX_HASH_ELT_SIZE k + 8 \<le> bucket_size) names"
    by (auto simp: list_all_iff not_less)
  show ?thesis unfolding if_not_P [OF good]
  proof
    assume room: "case hash_try_sizes (bucket_size - 8) (hash_start (bucket_size - 8) max_size (length names)) max_size names of
        Some sz \<Rightarrow> bucket_size + cacheline \<le> 32768 | None \<Rightarrow> buckets_fit cacheline max_size names"
    define found where "found = hash_try_sizes (bucket_size - 8) (hash_start (bucket_size - 8) max_size (length names)) max_size names"
    define sz where "sz = (case found of Some sz \<Rightarrow> sz | None \<Rightarrow> max_size)"
    have sz: "buckets_fit cacheline sz names \<and> 0 < sz"
    proof (cases found)
      case None
      with room size show ?thesis by (simp add: sz_def flip: found_def)
    next
      case (Some n)
      with room have "bucket_size + cacheline \<le> 32768" by (simp flip: found_def)
      from try_sizes_fit [OF Some [unfolded found_def] this hash_start_pos size(2)] Some
      show ?thesis by (simp add: sz_def)
    qed
    have "list_all (\<lambda>k. hk_null k \<or> good_key k) names" using keys by (auto simp: list_all_iff)
    from hash_fill_find [OF conjunct1 [OF sz] cl elts conjunct2 [OF sz] this] obtain h where
      h: "hash_fill cacheline elts sz names = Some h"
      "\<And>key name. ngx_hash_find h key name = Some (key_value sz names key name)" by blast
    have "(bucket_size - 8) div 16 \<noteq> 0" using bucket by (simp add: div_eq_0_iff)
    with size good h(1) have "ngx_hash_init mem_ok cacheline elts max_size bucket_size names = Init_ok h"
      by (simp add: ngx_hash_init_def sz_def found_def Let_def)
    moreover have "list_all (\<lambda>k. hk_null k \<or> hk_hash k = ngx_hash_key_lc (hk_data k)) names"
      using keys by (auto simp: list_all_iff)
    then have "key_value sz names (ngx_hash_key name) name = named_value names name" for name
      by (rule key_value_named)
    ultimately show "\<exists>h. ngx_hash_init mem_ok cacheline elts max_size bucket_size names = Init_ok h
        \<and> (\<forall>name. ngx_hash_find h (ngx_hash_key name) name = Some (named_value names name))"
      using h(2) by (intro exI [of _ h]) simp
  qed
qed

definition header_keys :: "nat hash_key list" where
  "header_keys =
     [\<lparr>hk_null = False, hk_data = chars ''Host'', hk_hash = ngx_hash_key_lc (chars ''Host''), hk_value = Some 1\<rparr>,
      \<lparr>hk_null = False, hk_data = chars ''Connection'', hk_hash = ngx_hash_key_lc (chars ''Connection''), hk_value = Some 2\<rparr>]"

theorem hash_find_init_witness:
  "\<exists>h. ngx_hash_init (\<lambda>_. True) 64 4096 512 64 header_keys = Init_ok h
    \<and> ngx_hash_find h (ngx_hash_key (chars ''host'')) (chars ''host'') = Some (Some 1)
    \<and> ngx_hash_find h (ngx_hash_key (chars ''range'')) (chars ''range'') = Some None"
proof -
  have fit: "hash_try_sizes (64 - 8) (hash_start (64 - 8) 512 (length header_keys)) 512 header_keys = Some 1"
    by (simp add: hash_start_def header_keys_def hash_try_sizes.simps [of _ "Suc 0"] bucket_of_def NGX_HASH_ELT_SIZE_def
        ngx_align_def chars_def)
  have room: "case hash_try_sizes (64 - 8) (hash_start (64 - 8) 512 (length header_keys)) 512 header_keys of
      Some sz \<Rightarrow> 64 + 64 \<le> (32768 :: nat) | None \<Rightarrow> buckets_fit 64 512 header_keys"
    unfolding fit by simp
  have ok: "\<not> (\<exists>k \<in> set header_keys. 64 < NGX_HASH_ELT_SIZE k + 8)"
    "list_all (\<lambda>k. hk_null k \<or> good_key k \<and> hk_hash k = ngx_hash_key_lc (hk_data k)) header_keys"
    by (simp_all add: header_keys_def good_key_def NGX_HASH_ELT_SIZE_def ngx_align_def chars_def)
  have "\<exists>h. ngx_hash_init (\<lambda>_. True) 64 4096 512 64 header_keys = Init_ok h
    \<and> (\<forall>name. ngx_hash_find h (ngx_hash_key name) name = Some (named_value header_keys name))"
    using hash_find_init [OF _ _ _ _ ok(2), of 64 4096 64 512 "\<lambda>_. True"] ok(1) room by simp
  moreover have "named_value header_keys (chars ''host'') = Some 1" "named_value header_keys (chars ''range'') = None"
    by (simp_all add: named_value_def header_keys_def chars_def ngx_strlow_def ngx_tolower_def)
  ultimately show ?thesis by auto
qed

text \<open>
  Fact (error).  When no size fits, the largest is taken and the bucket size ignored, but the length
  of a bucket is still counted in 16 bits: 4096 keys of six bytes in one bucket make it wrap to nothing, so
  the bucket gets no memory and the elements are written through a null pointer.
\<close>

theorem hash_fallback_wraps:
  "ngx_hash_init (\<lambda>_. True) 64 elts 1 64
     (replicate 4096 \<lparr>hk_null = False, hk_data = chars ''accept'', hk_hash = h, hk_value = v\<rparr>) = Init_fault"
proof -
  let ?k = "\<lparr>hk_null = False, hk_data = chars ''accept'', hk_hash = h, hk_value = v\<rparr>"
  have elt: "NGX_HASH_ELT_SIZE ?k = 16" by (simp add: NGX_HASH_ELT_SIZE_def ngx_align_def chars_def)
  have start: "hash_start 56 1 4096 = 1365" by (simp add: hash_start_def)
  have "bucket_keys 1 0 (replicate n ?k) = replicate n ?k" for n
    by (induction n) (simp_all add: bucket_of_def)
  then have "elts_size (bucket_keys 1 0 (replicate 4096 ?k)) = 65536"
    by (simp add: elts_size_def elt sum_list_replicate)
  then have "hash_count 1 (\<lambda>_. 8) (replicate 4096 ?k) 0 = 8"
    by (simp add: hash_count_sum)
  then have layout: "hash_layout 64 (hash_count 1 (\<lambda>_. 8) (replicate 4096 ?k)) elts 0 = None"
    by (simp add: hash_layout_def)
  have cons: "replicate 4096 ?k = ?k # replicate 4095 ?k"
    by (simp flip: replicate_Suc)
  have place: "hash_place 1 b t m (replicate 4096 ?k) = None" if "b 0 = None" for b t m
    unfolding cons using that by (simp add: bucket_of_def)
  have "hash_fill 64 elts 1 (replicate 4096 ?k) = None"
    by (simp only: hash_fill_def Let_def place [of "hash_layout 64 (hash_count 1 (\<lambda>_. 8) (replicate 4096 ?k)) elts", OF layout] option.case)
  moreover have "hash_try_sizes 56 1365 1 (replicate 4096 ?k) = None"
    by (simp add: hash_try_sizes.simps)
  ultimately show ?thesis
    by (simp add: ngx_hash_init_def elt start [simplified] list_all_iff)
qed

end
