(* ===== verification/Ngx_Locks.thy ===== *)
theory Ngx_Locks
  imports Ngx_Prelude
begin

text \<open>
  What the models of the shared-memory locks have in common: runs of a machine, an interface for
  invariants, the counting of processes, and the schedule of the spinning loops.
\<close>

subsection \<open>Machines and their invariants\<close>

inductive reach :: "'s \<Rightarrow> ('s \<Rightarrow> 's \<Rightarrow> bool) \<Rightarrow> 's \<Rightarrow> bool" for init step where
  reach_init: "reach init step init"
| reach_step: "reach init step s \<Longrightarrow> step s t \<Longrightarrow> reach init step t"

text \<open>The contract of a machine with an invariant, and what a client gets from it.\<close>

locale machine =
  fixes init :: 's
    and step :: "'s \<Rightarrow> 's \<Rightarrow> bool"
    and inv :: "'s \<Rightarrow> bool"
  assumes inv_init: "inv init"
    and inv_step: "\<lbrakk> inv s; step s t \<rbrakk> \<Longrightarrow> inv t"
begin

lemma reach_inv: "reach init step s \<Longrightarrow> inv s"
  by (induction rule: reach.induct) (auto intro: inv_init inv_step)

end

subsection \<open>Counting processes\<close>

definition cnt :: "nat \<Rightarrow> ('a \<Rightarrow> bool) \<Rightarrow> (nat \<Rightarrow> 'a) \<Rightarrow> nat" where
  "cnt n P f = card {p. p < n \<and> P (f p)}"

lemma cnt_le: "cnt n P f \<le> n"
proof -
  have "card {p. p < n \<and> P (f p)} \<le> card {..<n}"
    by (rule card_mono) auto
  then show ?thesis by (simp add: cnt_def)
qed

lemma cnt_upd: 
  assumes "p < n"
  shows "cnt n P (f(p := x)) + (if P (f p) then 1 else 0) = cnt n P f + (if P x then 1 else 0)"
proof -
  have S: "card {q. q < n \<and> P (g q)} = card {q. q < n \<and> q \<noteq> p \<and> P (g q)} + (if P (g p) then 1 else 0)"
    for g :: "nat \<Rightarrow> 'a"
  proof (cases "P (g p)")
    case True
    then have "{q. q < n \<and> P (g q)} = insert p {q. q < n \<and> q \<noteq> p \<and> P (g q)}" using assms by auto
    then show ?thesis using True by simp
  next
    case False
    then have "{q. q < n \<and> P (g q)} = {q. q < n \<and> q \<noteq> p \<and> P (g q)}" by auto
    then show ?thesis using False by simp
  qed
  have "{q. q < n \<and> q \<noteq> p \<and> P ((f(p := x)) q)} = {q. q < n \<and> q \<noteq> p \<and> P (f q)}" by auto
  then show ?thesis using S[of f] S[of "f(p := x)"] by (simp add: cnt_def)
qed

lemma cnt_upd_same: "\<lbrakk> p < n; P x = P (f p) \<rbrakk> \<Longrightarrow> cnt n P (f(p := x)) = cnt n P f"
  using cnt_upd[of p n P f x] by (simp split: if_splits)

lemma cnt_upd_in: "\<lbrakk> p < n; P x; \<not> P (f p) \<rbrakk> \<Longrightarrow> cnt n P (f(p := x)) = Suc (cnt n P f)"
  using cnt_upd[of p n P f x] by simp

lemma cnt_upd_out: "\<lbrakk> p < n; \<not> P x; P (f p) \<rbrakk> \<Longrightarrow> cnt n P (f(p := x)) = cnt n P f - 1"
  using cnt_upd[of p n P f x] by simp

lemma cnt_pos: "\<lbrakk> p < n; P (f p) \<rbrakk> \<Longrightarrow> 0 < cnt n P f"
  by (auto simp: cnt_def card_gt_0_iff)

lemma cnt_zero: "cnt n P f = 0 \<longleftrightarrow> (\<forall>p<n. \<not> P (f p))"
  by (auto simp: cnt_def)

lemma cnt_none: "(\<And>p. \<not> P (f p)) \<Longrightarrow> cnt n P f = 0"
  by (simp add: cnt_zero)

lemma cnt_one_eq:
  assumes "cnt n P f = 1" "p < n" "P (f p)" "q < n" "P (f q)"
  shows "p = q"
proof -
  define S where "S = {r. r < n \<and> P (f r)}"
  have "card S = 1" using assms(1) by (simp only: cnt_def S_def)
  then obtain a where "S = {a}" by (rule card_1_singletonE)
  moreover have "p \<in> S" "q \<in> S" using assms by (simp_all add: S_def)
  ultimately show ?thesis by simp
qed

lemma cnt_less: 
  assumes "p < n" "\<not> P (f p)"
  shows "cnt n P f < n"
proof -
  have "card {q. q < n \<and> P (f q)} < card {..<n}"
    by (rule psubset_card_mono) (use assms in auto)
  then show ?thesis by (simp add: cnt_def)
qed

subsection \<open>The spinning loop\<close>

text \<open>
  \<^verbatim>\<open>for (n = 1; n < spin; n <<= 1)\<close> with a check of the lock in every turn, inside an endless loop
  that starts with a check of its own (\<^term>\<open>None\<close>).  The result says which check follows one that
  failed; \<^term>\<open>None\<close> is the end of the spinning.  The pauses touch nothing.
\<close>

definition spin_next :: "int \<Rightarrow> ngx_uint \<Rightarrow> ngx_uint option \<Rightarrow> ngx_uint option" where
  "spin_next ncpu spin k =
     (case k of
        None \<Rightarrow> if 1 < ncpu \<and> 1 < spin then Some 1 else None
      | Some m \<Rightarrow> if push_bit 1 m < spin then Some (push_bit 1 m) else None)"

end
