(* ===== verification/Ngx_Rwlock.thy ===== *)
theory Ngx_Rwlock
  imports Ngx_Locks
begin

text \<open>
  The read-write lock of \<^verbatim>\<open>core/ngx_rwlock.c\<close> as a machine whose steps are the single accesses of the
  processes to the shared word, its invariant, its contract and the refinement between them.
\<close>

subsection \<open>The read-write lock\<close>

text \<open>
  A process is somewhere in one of the three functions of \<^verbatim>\<open>core/ngx_rwlock.c\<close>; each constructor is
  the next access to the shared word that it makes, with the local variables that are live there.
  The mode in the unlocking states says which lock the caller holds; the code does not look at it.
\<close>

datatype rw_mode = Reader | Writer

datatype rw_pc =
    Outside
  | WCheck "ngx_uint option" | WCas "ngx_uint option"
  | RLoad "ngx_uint option" | RCas ngx_uint "ngx_uint option"
  | Held rw_mode
  | ULoad rw_mode | UStore rw_mode | UCas rw_mode ngx_uint | UReload rw_mode

record rwlock =
  rw_lock :: ngx_uint
  rw_pc :: "nat \<Rightarrow> rw_pc"

definition NGX_RWLOCK_SPIN :: ngx_uint where "NGX_RWLOCK_SPIN = 2048"

definition NGX_RWLOCK_WLOCK :: ngx_uint where "NGX_RWLOCK_WLOCK = -1"

definition rw_goto :: "nat \<Rightarrow> rw_pc \<Rightarrow> rwlock \<Rightarrow> rwlock" where
  "rw_goto p c s = s\<lparr>rw_pc := (rw_pc s)(p := c)\<rparr>"

definition wlock_retry :: "int \<Rightarrow> ngx_uint option \<Rightarrow> rw_pc" where
  "wlock_retry ncpu k = WCheck (spin_next ncpu NGX_RWLOCK_SPIN k)"

definition rlock_retry :: "int \<Rightarrow> ngx_uint option \<Rightarrow> rw_pc" where
  "rlock_retry ncpu k = RLoad (spin_next ncpu NGX_RWLOCK_SPIN k)"

definition ngx_rwlock_wlock :: "int \<Rightarrow> nat \<Rightarrow> rwlock \<Rightarrow> rwlock option" where
  "ngx_rwlock_wlock ncpu p s =
     (case rw_pc s p of
        WCheck k \<Rightarrow> Some (rw_goto p (if rw_lock s = 0 then WCas k else wlock_retry ncpu k) s)
      | WCas k \<Rightarrow>
          if rw_lock s = 0 then Some (rw_goto p (Held Writer) (s\<lparr>rw_lock := NGX_RWLOCK_WLOCK\<rparr>))
          else Some (rw_goto p (wlock_retry ncpu k) s)
      | _ \<Rightarrow> None)"

definition ngx_rwlock_rlock :: "int \<Rightarrow> nat \<Rightarrow> rwlock \<Rightarrow> rwlock option" where
  "ngx_rwlock_rlock ncpu p s =
     (case rw_pc s p of
        RLoad k \<Rightarrow>
          Some (rw_goto p (if rw_lock s \<noteq> NGX_RWLOCK_WLOCK then RCas (rw_lock s) k else rlock_retry ncpu k) s)
      | RCas readers k \<Rightarrow>
          if rw_lock s = readers then Some (rw_goto p (Held Reader) (s\<lparr>rw_lock := readers + 1\<rparr>))
          else Some (rw_goto p (rlock_retry ncpu k) s)
      | _ \<Rightarrow> None)"

definition ngx_rwlock_unlock :: "nat \<Rightarrow> rwlock \<Rightarrow> rwlock option" where
  "ngx_rwlock_unlock p s =
     (case rw_pc s p of
        ULoad m \<Rightarrow>
          Some (rw_goto p (if rw_lock s = NGX_RWLOCK_WLOCK then UStore m else UCas m (rw_lock s)) s)
      | UStore m \<Rightarrow> Some (rw_goto p Outside (s\<lparr>rw_lock := 0\<rparr>))
      | UCas m readers \<Rightarrow>
          if rw_lock s = readers then Some (rw_goto p Outside (s\<lparr>rw_lock := readers - 1\<rparr>))
          else Some (rw_goto p (UReload m) s)
      | UReload m \<Rightarrow> Some (rw_goto p (UCas m (rw_lock s)) s)
      | _ \<Rightarrow> None)"

text \<open>The next access of process \<open>p\<close>, whichever function it is in.\<close>

definition rw_act :: "int \<Rightarrow> nat \<Rightarrow> rwlock \<Rightarrow> rwlock option" where
  "rw_act ncpu p s =
     (case ngx_rwlock_wlock ncpu p s of Some t \<Rightarrow> Some t
      | None \<Rightarrow> case ngx_rwlock_rlock ncpu p s of Some t \<Rightarrow> Some t
      | None \<Rightarrow> ngx_rwlock_unlock p s)"

definition rw_init :: rwlock where
  "rw_init = \<lparr>rw_lock = 0, rw_pc = (\<lambda>_. Outside)\<rparr>"

text \<open>The processes call the functions when they like, and unlock what they hold.\<close>

inductive rw_step :: "int \<Rightarrow> nat \<Rightarrow> rwlock \<Rightarrow> rwlock \<Rightarrow> bool" for ncpu n where
  call_wlock: "\<lbrakk> p < n; rw_pc s p = Outside \<rbrakk> \<Longrightarrow> rw_step ncpu n s (rw_goto p (WCheck None) s)"
| call_rlock: "\<lbrakk> p < n; rw_pc s p = Outside \<rbrakk> \<Longrightarrow> rw_step ncpu n s (rw_goto p (RLoad None) s)"
| call_unlock: "\<lbrakk> p < n; rw_pc s p = Held m \<rbrakk> \<Longrightarrow> rw_step ncpu n s (rw_goto p (ULoad m) s)"
| proceed: "\<lbrakk> p < n; rw_act ncpu p s = Some t \<rbrakk> \<Longrightarrow> rw_step ncpu n s t"

fun rw_solo :: "int \<Rightarrow> nat \<Rightarrow> nat \<Rightarrow> rwlock \<Rightarrow> rwlock option" where
  "rw_solo ncpu p 0 s = Some s"
| "rw_solo ncpu p (Suc k) s = (case rw_act ncpu p s of None \<Rightarrow> None | Some t \<Rightarrow> rw_solo ncpu p k t)"

text \<open>Which lock a process holds: from the exchange that takes it to the store that gives it back.\<close>

fun rw_holds :: "rw_pc \<Rightarrow> rw_mode option" where
  "rw_holds (Held m) = Some m"
| "rw_holds (ULoad m) = Some m"
| "rw_holds (UStore m) = Some m"
| "rw_holds (UCas m v) = Some m"
| "rw_holds (UReload m) = Some m"
| "rw_holds c = None"

definition readers_of :: "nat \<Rightarrow> rwlock \<Rightarrow> nat" where
  "readers_of n s = cnt n (\<lambda>c. rw_holds c = Some Reader) (rw_pc s)"

definition writers_of :: "nat \<Rightarrow> rwlock \<Rightarrow> nat" where
  "writers_of n s = cnt n (\<lambda>c. rw_holds c = Some Writer) (rw_pc s)"

fun rw_pc_ok :: "rw_pc \<Rightarrow> bool" where
  "rw_pc_ok (RCas v k) = (v \<noteq> NGX_RWLOCK_WLOCK)"
| "rw_pc_ok (UStore m) = (m = Writer)"
| "rw_pc_ok (UCas m v) = (m = Reader)"
| "rw_pc_ok (UReload m) = (m = Reader)"
| "rw_pc_ok c = True"

definition rw_inv :: "nat \<Rightarrow> rwlock \<Rightarrow> bool" where
  "rw_inv n s \<longleftrightarrow>
     (if writers_of n s = 0 then rw_lock s = of_nat (readers_of n s)
      else writers_of n s = 1 \<and> readers_of n s = 0 \<and> rw_lock s = NGX_RWLOCK_WLOCK)
     \<and> (\<forall>p<n. rw_pc_ok (rw_pc s p))"

lemmas rw_acts = rw_act_def ngx_rwlock_wlock_def ngx_rwlock_rlock_def ngx_rwlock_unlock_def
  rw_goto_def wlock_retry_def rlock_retry_def

lemma of_nat_pred: "0 < k \<Longrightarrow> (of_nat (k - 1) :: ngx_uint) = of_nat k - 1"
  by (cases k) simp_all

lemma count_zero_iff: "k < 2 ^ 64 \<Longrightarrow> (of_nat k :: ngx_uint) = 0 \<longleftrightarrow> k = 0"
  by (auto simp: word_unat_eq_iff unat_of_nat take_bit_nat_eq_self)

lemma wlock_is_no_count:
  assumes "Suc k < 2 ^ 64" shows "of_nat k \<noteq> NGX_RWLOCK_WLOCK"
proof
  assume "of_nat k = NGX_RWLOCK_WLOCK"
  then have "(of_nat (Suc k) :: ngx_uint) = 0" by (simp add: NGX_RWLOCK_WLOCK_def)
  then show False using count_zero_iff[of "Suc k"] assms by simp
qed

text \<open>What moving one process does to the counts.\<close>

lemma readers_goto:
  "p < n \<Longrightarrow> readers_of n (rw_goto p c s) =
     (if rw_holds c = Some Reader \<and> rw_holds (rw_pc s p) \<noteq> Some Reader then Suc (readers_of n s)
      else if rw_holds c \<noteq> Some Reader \<and> rw_holds (rw_pc s p) = Some Reader then readers_of n s - 1
      else readers_of n s)"
  using cnt_upd[of p n "\<lambda>c. rw_holds c = Some Reader" "rw_pc s" c]
  by (auto simp: readers_of_def rw_goto_def split: if_splits)

lemma writers_goto:
  "p < n \<Longrightarrow> writers_of n (rw_goto p c s) =
     (if rw_holds c = Some Writer \<and> rw_holds (rw_pc s p) \<noteq> Some Writer then Suc (writers_of n s)
      else if rw_holds c \<noteq> Some Writer \<and> rw_holds (rw_pc s p) = Some Writer then writers_of n s - 1
      else writers_of n s)"
  using cnt_upd[of p n "\<lambda>c. rw_holds c = Some Writer" "rw_pc s" c]
  by (auto simp: writers_of_def rw_goto_def split: if_splits)

lemma counts_lock [simp]:
  "readers_of n (s\<lparr>rw_lock := v\<rparr>) = readers_of n s" "writers_of n (s\<lparr>rw_lock := v\<rparr>) = writers_of n s"
  by (simp_all add: readers_of_def writers_of_def)

lemma rw_goto_simps [simp]:
  "rw_lock (rw_goto p c s) = rw_lock s"
  "rw_pc (rw_goto p c s) = (rw_pc s)(p := c)"
  by (simp_all add: rw_goto_def)

lemma readers_pos: "\<lbrakk> p < n; rw_holds (rw_pc s p) = Some Reader \<rbrakk> \<Longrightarrow> 0 < readers_of n s"
  unfolding readers_of_def by (rule cnt_pos)

lemma writers_pos: "\<lbrakk> p < n; rw_holds (rw_pc s p) = Some Writer \<rbrakk> \<Longrightarrow> 0 < writers_of n s"
  unfolding writers_of_def by (rule cnt_pos)

lemma readers_less: "\<lbrakk> p < n; rw_holds (rw_pc s p) \<noteq> Some Reader \<rbrakk> \<Longrightarrow> readers_of n s < n"
  unfolding readers_of_def by (rule cnt_less)

text \<open>Moving without taking or giving back.\<close>

lemma rw_inv_move:
  assumes "rw_inv n s" "p < n" "rw_holds c = rw_holds (rw_pc s p)" "rw_pc_ok c"
  shows "rw_inv n (rw_goto p c s)"
  using assms by (auto simp: rw_inv_def readers_goto writers_goto split: if_splits)

lemma rw_inv_take_write:
  assumes "rw_inv n s" "p < n" "rw_holds (rw_pc s p) = None" "rw_lock s = 0" "Suc n < 2 ^ 64"
  shows "rw_inv n (rw_goto p (Held Writer) (s\<lparr>rw_lock := NGX_RWLOCK_WLOCK\<rparr>))"
proof -
  have R: "readers_of n s \<le> n" unfolding readers_of_def by (rule cnt_le)
  have "writers_of n s = 0" using assms by (auto simp: rw_inv_def NGX_RWLOCK_WLOCK_def split: if_splits)
  moreover from this have "readers_of n s = 0"
    using assms(1,4,5) R count_zero_iff[of "readers_of n s"] by (simp add: rw_inv_def)
  ultimately show ?thesis using assms by (auto simp: rw_inv_def readers_goto writers_goto)
qed

lemma rw_inv_take_read:
  assumes "rw_inv n s" "p < n" "rw_holds (rw_pc s p) = None" "rw_lock s \<noteq> NGX_RWLOCK_WLOCK"
  shows "rw_inv n (rw_goto p (Held Reader) (s\<lparr>rw_lock := rw_lock s + 1\<rparr>))"
proof -
  have "writers_of n s = 0" using assms by (auto simp: rw_inv_def split: if_splits)
  then show ?thesis using assms by (auto simp: rw_inv_def readers_goto writers_goto)
qed

lemma rw_inv_give_write:
  assumes "rw_inv n s" "p < n" "rw_holds (rw_pc s p) = Some Writer"
  shows "rw_inv n (rw_goto p Outside (s\<lparr>rw_lock := 0\<rparr>))"
proof -
  have "writers_of n s = 1" "readers_of n s = 0"
    using assms writers_pos[OF assms(2,3)] by (auto simp: rw_inv_def split: if_splits)
  then show ?thesis using assms by (auto simp: rw_inv_def readers_goto writers_goto)
qed

lemma rw_inv_give_read:
  assumes "rw_inv n s" "p < n" "rw_holds (rw_pc s p) = Some Reader"
  shows "rw_inv n (rw_goto p Outside (s\<lparr>rw_lock := rw_lock s - 1\<rparr>))"
proof -
  have R: "0 < readers_of n s" by (rule readers_pos[OF assms(2,3)])
  then have "writers_of n s = 0" using assms by (auto simp: rw_inv_def split: if_splits)
  then show ?thesis using assms R by (auto simp: rw_inv_def readers_goto writers_goto of_nat_pred)
qed

lemma rw_held_lock:
  assumes "rw_inv n s" "p < n" "rw_holds (rw_pc s p) = Some m" "Suc n < 2 ^ 64"
  shows "rw_lock s = NGX_RWLOCK_WLOCK \<longleftrightarrow> m = Writer"
proof (cases m)
  case Writer
  then show ?thesis using assms writers_pos[of p n s] by (auto simp: rw_inv_def split: if_splits)
next
  case Reader
  have "readers_of n s \<le> n" unfolding readers_of_def by (rule cnt_le)
  then show ?thesis using assms Reader readers_pos[of p n s] wlock_is_no_count[of "readers_of n s"]
    by (auto simp: rw_inv_def split: if_splits)
qed


lemma rw_inv_act:
  assumes "rw_inv n s" "p < n" "rw_act ncpu p s = Some t" "Suc n < 2 ^ 64"
  shows "rw_inv n t"
proof -
  have ok: "rw_pc_ok (rw_pc s p)" using assms by (simp add: rw_inv_def)
  note act = assms(3)[unfolded rw_act_def ngx_rwlock_wlock_def ngx_rwlock_rlock_def ngx_rwlock_unlock_def]
  show ?thesis
  proof (cases "rw_pc s p")
    case (WCheck k)
    then show ?thesis using act assms
      by (auto simp: wlock_retry_def intro!: rw_inv_move split: if_splits)
  next
    case (WCas k)
    then show ?thesis using act assms
      by (cases "rw_lock s = 0") (auto simp: wlock_retry_def intro: rw_inv_move intro!: rw_inv_take_write[simplified])
  next
    case (RLoad k)
    then show ?thesis using act assms
      by (auto simp: rlock_retry_def intro!: rw_inv_move split: if_splits)
  next
    case (RCas v k)
    then show ?thesis using act assms ok
      by (cases "rw_lock s = v") (auto simp: rlock_retry_def intro: rw_inv_move intro!: rw_inv_take_read)
  next
    case (ULoad m)
    then show ?thesis using act assms rw_held_lock[of n s p m]
      by (cases m) (auto intro!: rw_inv_move split: if_splits)
  next
    case (UStore m)
    then show ?thesis using act assms ok by (auto intro!: rw_inv_give_write)
  next
    case (UCas m v)
    then show ?thesis using act assms ok
      by (cases "rw_lock s = v") (auto intro: rw_inv_move intro!: rw_inv_give_read)
  next
    case (UReload m)
    then show ?thesis using act assms ok by (auto intro!: rw_inv_move)
  qed (use act in simp_all)
qed

lemma rw_inv_step:
  assumes "rw_inv n s" "rw_step ncpu n s t" "Suc n < 2 ^ 64"
  shows "rw_inv n t"
  using assms(2,1,3) by cases (auto intro: rw_inv_act rw_inv_move)

lemma rw_inv_init: "rw_inv n rw_init"
proof -
  have "writers_of n rw_init = 0" "readers_of n rw_init = 0"
    by (simp_all add: writers_of_def readers_of_def rw_init_def cnt_none)
  then show ?thesis by (simp add: rw_inv_def) (simp add: rw_init_def)
qed

interpretation rw: machine rw_init "rw_step ncpu n" "\<lambda>s. Suc n < 2 ^ 64 \<longrightarrow> rw_inv n s" for ncpu n
  by unfold_locales (auto intro: rw_inv_init rw_inv_step)

subsection \<open>What the read-write lock promises\<close>

definition rw_abs :: "rwlock \<Rightarrow> nat \<Rightarrow> rw_mode option" where
  "rw_abs s p = rw_holds (rw_pc s p)"

text \<open>The lock as its clients see it: who holds what, and when it may be taken.\<close>

inductive rw_spec :: "nat \<Rightarrow> (nat \<Rightarrow> rw_mode option) \<Rightarrow> (nat \<Rightarrow> rw_mode option) \<Rightarrow> bool" for n where
  stay: "rw_spec n h h"
| take_write: "\<lbrakk> p < n; \<forall>q<n. h q = None \<rbrakk> \<Longrightarrow> rw_spec n h (h(p := Some Writer))"
| take_read: "\<lbrakk> p < n; h p = None; \<forall>q<n. h q \<noteq> Some Writer \<rbrakk> \<Longrightarrow> rw_spec n h (h(p := Some Reader))"
| give_back: "\<lbrakk> p < n; h p \<noteq> None \<rbrakk> \<Longrightarrow> rw_spec n h (h(p := None))"

lemma rw_abs_goto: "rw_abs (rw_goto p c s) = (rw_abs s)(p := rw_holds c)"
  by (auto simp: rw_abs_def)

lemma rw_abs_lock [simp]: "rw_abs (s\<lparr>rw_lock := v\<rparr>) = rw_abs s"
  by (auto simp: rw_abs_def)

lemma rw_abs_move: "rw_holds c = rw_holds (rw_pc s p) \<Longrightarrow> rw_abs (rw_goto p c s) = rw_abs s"
  by (auto simp: rw_abs_def)

lemma rw_free:
  assumes "rw_inv n s" "rw_lock s = 0" "Suc n < 2 ^ 64" "q < n"
  shows "rw_abs s q = None"
proof -
  have R: "readers_of n s \<le> n" unfolding readers_of_def by (rule cnt_le)
  have W: "writers_of n s = 0" using assms by (auto simp: rw_inv_def NGX_RWLOCK_WLOCK_def split: if_splits)
  moreover from this have "readers_of n s = 0"
    using assms R count_zero_iff[of "readers_of n s"] by (simp add: rw_inv_def)
  ultimately show ?thesis
    using readers_pos[of q n s] writers_pos[of q n s] assms(4)
    by (cases "rw_holds (rw_pc s q)"; cases "the (rw_holds (rw_pc s q))") (auto simp: rw_abs_def)
qed

lemma rw_no_writer:
  assumes "rw_inv n s" "rw_lock s \<noteq> NGX_RWLOCK_WLOCK" "q < n"
  shows "rw_abs s q \<noteq> Some Writer"
proof
  assume "rw_abs s q = Some Writer"
  then have "0 < writers_of n s" using assms(3) by (simp add: rw_abs_def writers_pos)
  then show False using assms(1,2) by (simp add: rw_inv_def)
qed

lemma rw_spec_act:
  assumes "rw_inv n s" "p < n" "rw_act ncpu p s = Some t" "Suc n < 2 ^ 64"
  shows "rw_spec n (rw_abs s) (rw_abs t)"
proof -
  have ok: "rw_pc_ok (rw_pc s p)" using assms by (simp add: rw_inv_def)
  note act = assms(3)[unfolded rw_act_def ngx_rwlock_wlock_def ngx_rwlock_rlock_def ngx_rwlock_unlock_def]
  have mv: "rw_spec n (rw_abs s) (rw_abs (rw_goto p c s))" if "rw_holds c = rw_holds (rw_pc s p)" for c
    using that by (simp add: rw_abs_move rw_spec.stay)
  have gb: "rw_spec n (rw_abs s) (rw_abs (rw_goto p Outside (s\<lparr>rw_lock := v\<rparr>)))"
    if "rw_holds (rw_pc s p) \<noteq> None" for v
    using rw_spec.give_back[of p n "rw_abs s"] assms(2) that by (simp add: rw_abs_goto) (simp add: rw_abs_def)
  show ?thesis
  proof (cases "rw_pc s p")
    case (WCas k)
    show ?thesis
    proof (cases "rw_lock s = 0")
      case True
      then have t: "t = rw_goto p (Held Writer) (s\<lparr>rw_lock := NGX_RWLOCK_WLOCK\<rparr>)" using act WCas by simp
      show ?thesis using rw_spec.take_write[of p n "rw_abs s"] rw_free[OF assms(1) True assms(4)] assms(2)
        by (simp add: t rw_abs_goto)
    next
      case False
      then show ?thesis using act WCas by (auto simp: wlock_retry_def intro!: mv)
    qed
  next
    case (RCas v k)
    show ?thesis
    proof (cases "rw_lock s = v")
      case True
      then have t: "t = rw_goto p (Held Reader) (s\<lparr>rw_lock := v + 1\<rparr>)" using act RCas by simp
      have "rw_lock s \<noteq> NGX_RWLOCK_WLOCK" using ok RCas True by simp
      then show ?thesis using rw_spec.take_read[of p n "rw_abs s"] rw_no_writer[OF assms(1)] assms(2) RCas
        by (simp add: t rw_abs_goto) (simp add: rw_abs_def)
    next
      case False
      then show ?thesis using act RCas by (auto simp: rlock_retry_def intro!: mv)
    qed
  next
    case (UCas m v)
    then show ?thesis using act by (cases "rw_lock s = v") (auto intro!: gb intro: mv)
  next
    case (UStore m)
    then show ?thesis using act by (auto intro!: gb)
  qed (use act in \<open>auto simp: wlock_retry_def rlock_retry_def intro!: mv split: if_splits\<close>)
qed

text \<open>
  Property C20 (refinement).  The read-write lock of \<^verbatim>\<open>core/ngx_rwlock.c\<close> implements its contract:
  whatever the interleaving of fewer than $2^{64} - 1$ processes, and however long they spin, each
  access to the shared word is, for the clients, nothing at all, or one process taking the lock for
  writing when no process holds it, or taking it for reading when no process holds it for writing, or
  giving it back.
\<close>

theorem rwlock_refines:
  assumes "reach rw_init (rw_step ncpu n) s" and "rw_step ncpu n s t" and "Suc n < 2 ^ 64"
  shows "rw_spec n (rw_abs s) (rw_abs t)"
proof -
  have inv: "rw_inv n s" using rw.reach_inv[OF assms(1)] assms(3) by simp
  from assms(2) show ?thesis
  proof cases
    case (proceed p)
    then show ?thesis using rw_spec_act[OF inv] assms(3) by blast
  qed (simp_all add: rw_abs_move rw_spec.stay)
qed

lemma rwlock_refines_witness:
  "rw_spec 2 (rw_abs rw_init) (rw_abs (rw_goto 1 (WCheck None) rw_init))"
  by (rule rwlock_refines[OF reach_init[where step = "rw_step 4 2"]])
     (auto simp: rw_init_def intro: rw_step.call_wlock)

text \<open>
  Fact (invariant).  The shared word of the read-write lock is the truth about its holders: it is
  the mark of a writer exactly when one process holds the lock for writing, and then no other process
  holds it in any way; otherwise no process holds it for writing and the word is the number of readers.
\<close>

theorem rwlock_word_counts:
  assumes "reach rw_init (rw_step ncpu n) s" and "Suc n < 2 ^ 64"
  shows "if rw_lock s = NGX_RWLOCK_WLOCK
         then \<exists>p<n. rw_abs s p = Some Writer \<and> (\<forall>q<n. q \<noteq> p \<longrightarrow> rw_abs s q = None)
         else (\<forall>p<n. rw_abs s p \<noteq> Some Writer)
            \<and> rw_lock s = of_nat (card {p. p < n \<and> rw_abs s p = Some Reader})"
proof -
  have inv: "rw_inv n s" using rw.reach_inv[OF assms(1)] assms(2) by simp
  have R: "card {p. p < n \<and> rw_abs s p = Some Reader} = readers_of n s"
    by (simp add: readers_of_def cnt_def rw_abs_def)
  have le: "readers_of n s \<le> n" unfolding readers_of_def by (rule cnt_le)
  show ?thesis
  proof (cases "rw_lock s = NGX_RWLOCK_WLOCK")
    case True
    then have W: "writers_of n s = 1" "readers_of n s = 0"
      using inv wlock_is_no_count[of "readers_of n s"] le assms(2) by (auto simp: rw_inv_def split: if_splits)
    then obtain p where p: "p < n" "rw_abs s p = Some Writer"
      by (metis (mono_tags, lifting) cnt_zero rw_abs_def writers_of_def zero_neq_one)
    have "rw_abs s q = None" if q: "q < n" "q \<noteq> p" for q
    proof (rule ccontr)
      assume "rw_abs s q \<noteq> None"
      moreover have "rw_abs s q \<noteq> Some Reader" using W(2) readers_pos[OF q(1), of s] by (auto simp: rw_abs_def)
      ultimately have "rw_abs s q = Some Writer" by (cases "the (rw_abs s q)") auto
      then show False
        using cnt_one_eq[of n "\<lambda>c. rw_holds c = Some Writer" "rw_pc s" p q] W(1) p q
        by (simp add: writers_of_def rw_abs_def)
    qed
    then show ?thesis using True p by auto
  next
    case False
    then show ?thesis using inv rw_no_writer[OF inv False] R by (simp add: rw_inv_def split: if_splits)
  qed
qed

lemma rwlock_word_counts_witness:
  "(\<forall>p<2. rw_abs rw_init p \<noteq> Some Writer)
     \<and> rw_lock rw_init = of_nat (card {p. p < 2 \<and> rw_abs rw_init p = Some Reader})"
  using rwlock_word_counts[OF reach_init[where step = "rw_step 4 2"]]
  by (simp add: rw_init_def NGX_RWLOCK_WLOCK_def)

text \<open>
  Fact (liveness).  No operation of the read-write lock depends on another process being
  scheduled, unless that process holds the lock: a writer that finds no holder has the lock after two
  accesses of its own, a reader that finds no writer too, and an unlocking process that is not
  interrupted has given the lock back after two.
\<close>

theorem rwlock_progress:
  assumes "reach rw_init (rw_step ncpu n) s" and "Suc n < 2 ^ 64" and "p < n"
  shows "(rw_pc s p = WCheck k \<and> (\<forall>q<n. rw_abs s q = None) \<longrightarrow>
            (\<exists>t. rw_solo ncpu p 2 s = Some t \<and> rw_pc t p = Held Writer \<and> rw_lock t = NGX_RWLOCK_WLOCK))
       \<and> (rw_pc s p = RLoad k \<and> (\<forall>q<n. rw_abs s q \<noteq> Some Writer) \<longrightarrow>
            (\<exists>t. rw_solo ncpu p 2 s = Some t \<and> rw_pc t p = Held Reader \<and> rw_lock t = rw_lock s + 1))
       \<and> (rw_pc s p = ULoad m \<longrightarrow>
            (\<exists>t. rw_solo ncpu p 2 s = Some t \<and> rw_pc t p = Outside
               \<and> rw_lock t = (if m = Writer then 0 else rw_lock s - 1)))"
proof -
  have inv: "rw_inv n s" using rw.reach_inv[OF assms(1)] assms(2) by simp
  note sol = numeral_2_eq_2 rw_act_def ngx_rwlock_wlock_def ngx_rwlock_rlock_def ngx_rwlock_unlock_def
  have free: "rw_lock s = 0" if "\<forall>q<n. rw_abs s q = None"
  proof -
    have "writers_of n s = 0" "readers_of n s = 0"
      using that by (simp_all add: writers_of_def readers_of_def cnt_zero rw_abs_def)
    then show ?thesis using inv by (simp add: rw_inv_def)
  qed
  have nw: "rw_lock s \<noteq> NGX_RWLOCK_WLOCK" if "\<forall>q<n. rw_abs s q \<noteq> Some Writer"
  proof -
    have "writers_of n s = 0" using that by (simp add: writers_of_def cnt_zero rw_abs_def)
    moreover have "readers_of n s \<le> n" unfolding readers_of_def by (rule cnt_le)
    ultimately show ?thesis using inv wlock_is_no_count[of "readers_of n s"] assms(2) by (simp add: rw_inv_def)
  qed
  have hl: "rw_lock s = NGX_RWLOCK_WLOCK \<longleftrightarrow> m = Writer" if "rw_pc s p = ULoad m"
    using rw_held_lock[OF inv assms(3) _ assms(2)] that by simp
  show ?thesis
    by (intro conjI impI) (use free nw hl in \<open>auto simp: sol\<close>)
qed

lemma rwlock_progress_witness:
  "\<exists>t. rw_solo 4 0 2 (rw_goto 0 (WCheck None) rw_init) = Some t \<and> rw_pc t 0 = Held Writer
     \<and> rw_lock t = NGX_RWLOCK_WLOCK"
proof -
  have "reach rw_init (rw_step 4 2) (rw_goto 0 (WCheck None) rw_init)"
    by (rule reach_step[OF reach_init]) (auto simp: rw_init_def intro: rw_step.call_wlock)
  from rwlock_progress[OF this, of 0 None] show ?thesis by (simp add: rw_abs_def rw_init_def)
qed

end
