(* ===== verification/Ngx_Shmtx.thy ===== *)
theory Ngx_Shmtx
  imports Ngx_Rwlock
begin

text \<open>
  The mutex in shared memory, \<^verbatim>\<open>core/ngx_shmtx.c\<close> on atomic operations and POSIX semaphores.  As
  for the read-write lock, each constructor of the program counter is the next access of a process to
  the shared memory.  A process may die anywhere; the master then releases its lock by force.
\<close>

subsection \<open>The mutex\<close>

datatype sh_pc =
    Out
  | TryCheck | TryCas
  | LockCheck "ngx_uint option" | LockCas "ngx_uint option"
  | WaitInc | WaitCheck | WaitCas | WaitDec | SemWait
  | InLock
  | UnlockCas | ForceCas nat
  | WakeLoad | WakeCas ngx_uint | SemPost
  | Dead

record shmtx =
  sh_lock :: ngx_uint
  sh_wait :: ngx_uint
  sh_sem :: nat
  sh_pc :: "nat \<Rightarrow> sh_pc"

text \<open>
  The fixed data: the number of processors, the fields of \<^verbatim>\<open>ngx_shmtx_t\<close>, the process numbers, and
  what the environment may do: let \<^verbatim>\<open>sem_wait\<close> fail with something else than an interruption, and
  kill processes.
\<close>

record shmtx_conf =
  ncpu :: int
  spin :: ngx_uint
  semaphore :: bool
  ngx_pid :: "nat \<Rightarrow> ngx_uint"
  sem_may_fail :: bool
  may_die :: bool

text \<open>The fields that \<^verbatim>\<open>ngx_shmtx_create\<close> sets, given whether \<^verbatim>\<open>sem_init\<close> succeeds.\<close>

definition ngx_shmtx_create :: "bool \<Rightarrow> shmtx_conf \<Rightarrow> shmtx_conf" where
  "ngx_shmtx_create sem_init_ok cf =
     (if spin cf = -1 then cf
      else let cf = cf\<lparr>spin := 2048\<rparr> in if sem_init_ok then cf\<lparr>semaphore := True\<rparr> else cf)"

definition sh_goto :: "nat \<Rightarrow> sh_pc \<Rightarrow> shmtx \<Rightarrow> shmtx" where
  "sh_goto p c s = s\<lparr>sh_pc := (sh_pc s)(p := c)\<rparr>"

definition ngx_shmtx_trylock :: "shmtx_conf \<Rightarrow> nat \<Rightarrow> shmtx \<Rightarrow> shmtx option" where
  "ngx_shmtx_trylock cf p s =
     (case sh_pc s p of
        TryCheck \<Rightarrow> Some (sh_goto p (if sh_lock s = 0 then TryCas else Out) s)
      | TryCas \<Rightarrow>
          if sh_lock s = 0 then Some (sh_goto p InLock (s\<lparr>sh_lock := ngx_pid cf p\<rparr>))
          else Some (sh_goto p Out s)
      | _ \<Rightarrow> None)"

text \<open>Where a failed attempt goes: to the next check of the spinning, then to the semaphore or back.\<close>

definition lock_retry :: "shmtx_conf \<Rightarrow> ngx_uint option \<Rightarrow> sh_pc" where
  "lock_retry cf k =
     (case spin_next (ncpu cf) (spin cf) k of
        Some m \<Rightarrow> LockCheck (Some m)
      | None \<Rightarrow> if semaphore cf then WaitInc else LockCheck None)"

definition ngx_shmtx_lock :: "shmtx_conf \<Rightarrow> nat \<Rightarrow> shmtx \<Rightarrow> shmtx option" where
  "ngx_shmtx_lock cf p s =
     (case sh_pc s p of
        LockCheck k \<Rightarrow> Some (sh_goto p (if sh_lock s = 0 then LockCas k else lock_retry cf k) s)
      | LockCas k \<Rightarrow>
          if sh_lock s = 0 then Some (sh_goto p InLock (s\<lparr>sh_lock := ngx_pid cf p\<rparr>))
          else Some (sh_goto p (lock_retry cf k) s)
      | WaitInc \<Rightarrow> Some (sh_goto p WaitCheck (s\<lparr>sh_wait := sh_wait s + 1\<rparr>))
      | WaitCheck \<Rightarrow> Some (sh_goto p (if sh_lock s = 0 then WaitCas else SemWait) s)
      | WaitCas \<Rightarrow>
          if sh_lock s = 0 then Some (sh_goto p WaitDec (s\<lparr>sh_lock := ngx_pid cf p\<rparr>))
          else Some (sh_goto p SemWait s)
      | WaitDec \<Rightarrow> Some (sh_goto p InLock (s\<lparr>sh_wait := sh_wait s + (- 1)\<rparr>))
      | SemWait \<Rightarrow>
          if 0 < sh_sem s then Some (sh_goto p (LockCheck None) (s\<lparr>sh_sem := sh_sem s - 1\<rparr>))
          else None
      | _ \<Rightarrow> None)"

definition ngx_shmtx_wakeup :: "nat \<Rightarrow> shmtx \<Rightarrow> shmtx option" where
  "ngx_shmtx_wakeup p s =
     (case sh_pc s p of
        WakeLoad \<Rightarrow> Some (sh_goto p (if sint (sh_wait s) \<le> 0 then Out else WakeCas (sh_wait s)) s)
      | WakeCas w \<Rightarrow>
          if sh_wait s = w then Some (sh_goto p SemPost (s\<lparr>sh_wait := w - 1\<rparr>))
          else Some (sh_goto p WakeLoad s)
      | SemPost \<Rightarrow> Some (sh_goto p Out (s\<lparr>sh_sem := sh_sem s + 1\<rparr>))
      | _ \<Rightarrow> None)"

text \<open>The call of \<^verbatim>\<open>ngx_shmtx_wakeup\<close>, with its test of the semaphore.\<close>

definition wakeup_entry :: "shmtx_conf \<Rightarrow> sh_pc" where
  "wakeup_entry cf = (if semaphore cf then WakeLoad else Out)"

definition ngx_shmtx_unlock :: "shmtx_conf \<Rightarrow> nat \<Rightarrow> shmtx \<Rightarrow> shmtx option" where
  "ngx_shmtx_unlock cf p s =
     (case sh_pc s p of
        UnlockCas \<Rightarrow>
          if sh_lock s = ngx_pid cf p then Some (sh_goto p (wakeup_entry cf) (s\<lparr>sh_lock := 0\<rparr>))
          else Some (sh_goto p Out s)
      | _ \<Rightarrow> None)"

definition ngx_shmtx_force_unlock :: "shmtx_conf \<Rightarrow> nat \<Rightarrow> shmtx \<Rightarrow> shmtx option" where
  "ngx_shmtx_force_unlock cf p s =
     (case sh_pc s p of
        ForceCas d \<Rightarrow>
          if sh_lock s = ngx_pid cf d then Some (sh_goto p (wakeup_entry cf) (s\<lparr>sh_lock := 0\<rparr>))
          else Some (sh_goto p Out s)
      | _ \<Rightarrow> None)"

text \<open>The next access of process \<open>p\<close>; none when it is outside, dead, or asleep on the semaphore.\<close>

definition sh_act :: "shmtx_conf \<Rightarrow> nat \<Rightarrow> shmtx \<Rightarrow> shmtx option" where
  "sh_act cf p s =
     (case sh_pc s p of
        TryCheck \<Rightarrow> ngx_shmtx_trylock cf p s | TryCas \<Rightarrow> ngx_shmtx_trylock cf p s
      | UnlockCas \<Rightarrow> ngx_shmtx_unlock cf p s
      | ForceCas d \<Rightarrow> ngx_shmtx_force_unlock cf p s
      | WakeLoad \<Rightarrow> ngx_shmtx_wakeup p s | WakeCas w \<Rightarrow> ngx_shmtx_wakeup p s | SemPost \<Rightarrow> ngx_shmtx_wakeup p s
      | _ \<Rightarrow> ngx_shmtx_lock cf p s)"

definition sh_init :: shmtx where
  "sh_init = \<lparr>sh_lock = 0, sh_wait = 0, sh_sem = 0, sh_pc = (\<lambda>_. Out)\<rparr>"

inductive sh_step :: "shmtx_conf \<Rightarrow> nat \<Rightarrow> shmtx \<Rightarrow> shmtx \<Rightarrow> bool" for cf n where
  call_trylock: "\<lbrakk> p < n; sh_pc s p = Out \<rbrakk> \<Longrightarrow> sh_step cf n s (sh_goto p TryCheck s)"
| call_lock: "\<lbrakk> p < n; sh_pc s p = Out \<rbrakk> \<Longrightarrow> sh_step cf n s (sh_goto p (LockCheck None) s)"
| call_unlock: "\<lbrakk> p < n; sh_pc s p = InLock \<rbrakk> \<Longrightarrow> sh_step cf n s (sh_goto p UnlockCas s)"
| call_force: "\<lbrakk> p < n; sh_pc s p = Out; d < n; sh_pc s d = Dead \<rbrakk> \<Longrightarrow> sh_step cf n s (sh_goto p (ForceCas d) s)"
| proceed: "\<lbrakk> p < n; sh_act cf p s = Some t \<rbrakk> \<Longrightarrow> sh_step cf n s t"
| sem_error: "\<lbrakk> p < n; sem_may_fail cf; sh_pc s p = SemWait \<rbrakk> \<Longrightarrow> sh_step cf n s (sh_goto p (LockCheck None) s)"
| die: "\<lbrakk> p < n; may_die cf \<rbrakk> \<Longrightarrow> sh_step cf n s (sh_goto p Dead s)"

fun sh_solo :: "shmtx_conf \<Rightarrow> nat \<Rightarrow> nat \<Rightarrow> shmtx \<Rightarrow> shmtx option" where
  "sh_solo cf p 0 s = Some s"
| "sh_solo cf p (Suc k) s = (case sh_act cf p s of None \<Rightarrow> None | Some t \<Rightarrow> sh_solo cf p k t)"

text \<open>
  The states in which a process has the lock, in which it is counted in \<^verbatim>\<open>wait\<close>, and in which it is
  on its way to take the lock or to wake a sleeper.
\<close>

fun owns :: "sh_pc \<Rightarrow> bool" where
  "owns InLock = True" | "owns UnlockCas = True" | "owns WaitDec = True" | "owns c = False"

fun counted :: "sh_pc \<Rightarrow> bool" where
  "counted WaitCheck = True" | "counted WaitCas = True" | "counted WaitDec = True"
| "counted SemWait = True" | "counted c = False"

fun active :: "sh_pc \<Rightarrow> bool" where
  "active (LockCheck k) = True" | "active (LockCas k) = True" | "active WaitInc = True"
| "active WaitCheck = True" | "active WaitCas = True"
| "active WakeLoad = True" | "active (WakeCas w) = True" | "active SemPost = True"
| "active c = False"

text \<open>The process numbers are different and not zero.\<close>

definition pids_ok :: "shmtx_conf \<Rightarrow> nat \<Rightarrow> bool" where
  "pids_ok cf n \<longleftrightarrow> (\<forall>p<n. ngx_pid cf p \<noteq> 0 \<and> (\<forall>q<n. ngx_pid cf p = ngx_pid cf q \<longrightarrow> p = q))"

definition lock_inv :: "shmtx_conf \<Rightarrow> nat \<Rightarrow> shmtx \<Rightarrow> bool" where
  "lock_inv cf n s \<longleftrightarrow>
     (\<forall>p<n. owns (sh_pc s p) \<longrightarrow> sh_lock s = ngx_pid cf p)
     \<and> (sh_lock s = 0 \<or> (\<exists>p<n. sh_lock s = ngx_pid cf p \<and> (owns (sh_pc s p) \<or> sh_pc s p = Dead)))
     \<and> (\<forall>p<n. \<forall>d. sh_pc s p = ForceCas d \<longrightarrow> d < n \<and> sh_pc s d = Dead)"

definition waiting :: "nat \<Rightarrow> shmtx \<Rightarrow> int" where
  "waiting n s = int (cnt n counted (sh_pc s)) - int (cnt n (\<lambda>c. c = SemPost) (sh_pc s)) - int (sh_sem s)"

definition wait_inv :: "nat \<Rightarrow> shmtx \<Rightarrow> bool" where
  "wait_inv n s \<longleftrightarrow>
     sh_wait s = of_int (waiting n s)
     \<and> cnt n (\<lambda>c. c = SemPost) (sh_pc s) + sh_sem s \<le> n
     \<and> (\<forall>p<n. \<forall>w. sh_pc s p = WakeCas w \<longrightarrow> 0 < sint w)"

definition wake_inv :: "shmtx_conf \<Rightarrow> nat \<Rightarrow> shmtx \<Rightarrow> bool" where
  "wake_inv cf n s \<longleftrightarrow>
     (sh_lock s = 0 \<and> (\<exists>p<n. sh_pc s p = SemWait) \<longrightarrow> 0 < sh_sem s \<or> (\<exists>p<n. active (sh_pc s p)))
     \<and> (\<forall>p<n. counted (sh_pc s p) \<or> sh_pc s p = WaitInc \<longrightarrow> semaphore cf)"

lemmas sh_code = sh_act_def ngx_shmtx_trylock_def ngx_shmtx_lock_def ngx_shmtx_unlock_def
  ngx_shmtx_force_unlock_def ngx_shmtx_wakeup_def

lemma sh_goto_simps [simp]:
  "sh_lock (sh_goto p c s) = sh_lock s" "sh_wait (sh_goto p c s) = sh_wait s"
  "sh_sem (sh_goto p c s) = sh_sem s" "sh_pc (sh_goto p c s) = (sh_pc s)(p := c)"
  by (simp_all add: sh_goto_def)

lemma lock_retry_cases: "lock_retry cf k = WaitInc \<and> semaphore cf \<or> (\<exists>m. lock_retry cf k = LockCheck m)"
  by (auto simp: lock_retry_def split: option.splits)

lemma lock_retry_class [simp]:
  "\<not> owns (lock_retry cf k)" "\<not> counted (lock_retry cf k)" "active (lock_retry cf k)"
  "lock_retry cf k \<noteq> SemPost" "lock_retry cf k \<noteq> SemWait" "lock_retry cf k \<noteq> ForceCas d" "lock_retry cf k \<noteq> WakeCas w"
  "lock_retry cf k = WaitInc \<Longrightarrow> semaphore cf"
  using lock_retry_cases[of cf k] by auto

lemma wakeup_entry_class [simp]:
  "\<not> owns (wakeup_entry cf)" "\<not> counted (wakeup_entry cf)" "wakeup_entry cf \<noteq> SemPost"
  "wakeup_entry cf \<noteq> SemWait" "wakeup_entry cf \<noteq> ForceCas d" "wakeup_entry cf \<noteq> WaitInc" "wakeup_entry cf \<noteq> WakeCas w"
  "semaphore cf \<Longrightarrow> active (wakeup_entry cf)"
  by (simp_all add: wakeup_entry_def)

text \<open>One lemma per kind of step, for the invariant of the lock.\<close>

lemma lock_invI:
  assumes "\<And>p. \<lbrakk> p < n; owns (sh_pc s p) \<rbrakk> \<Longrightarrow> sh_lock s = ngx_pid cf p"
    and "sh_lock s \<noteq> 0 \<Longrightarrow> \<exists>p<n. sh_lock s = ngx_pid cf p \<and> (owns (sh_pc s p) \<or> sh_pc s p = Dead)"
    and "\<And>p d. \<lbrakk> p < n; sh_pc s p = ForceCas d \<rbrakk> \<Longrightarrow> d < n \<and> sh_pc s d = Dead"
  shows "lock_inv cf n s"
  using assms unfolding lock_inv_def by blast

lemma lock_inv_owner: "\<lbrakk> lock_inv cf n s; p < n; owns (sh_pc s p) \<rbrakk> \<Longrightarrow> sh_lock s = ngx_pid cf p"
  unfolding lock_inv_def by blast

lemma lock_inv_holder:
  "\<lbrakk> lock_inv cf n s; sh_lock s \<noteq> 0 \<rbrakk> \<Longrightarrow> \<exists>p<n. sh_lock s = ngx_pid cf p \<and> (owns (sh_pc s p) \<or> sh_pc s p = Dead)"
  unfolding lock_inv_def by blast

lemma lock_inv_force: "\<lbrakk> lock_inv cf n s; p < n; sh_pc s p = ForceCas d \<rbrakk> \<Longrightarrow> d < n \<and> sh_pc s d = Dead"
  unfolding lock_inv_def by blast

lemma pid_nonzero: "\<lbrakk> pids_ok cf n; p < n \<rbrakk> \<Longrightarrow> ngx_pid cf p \<noteq> 0"
  by (simp add: pids_ok_def)

lemma pid_inj: "\<lbrakk> pids_ok cf n; p < n; q < n; ngx_pid cf p = ngx_pid cf q \<rbrakk> \<Longrightarrow> p = q"
  by (simp add: pids_ok_def)

lemma lock_inv_move:
  assumes "lock_inv cf n s" "p < n" "c = Dead \<or> sh_pc s p \<noteq> Dead \<and> (owns c \<longleftrightarrow> owns (sh_pc s p))"
    "\<forall>d. c = ForceCas d \<longrightarrow> d < n \<and> sh_pc s d = Dead"
  shows "lock_inv cf n (sh_goto p c s)"
proof (rule lock_invI)
  fix q assume "q < n" "owns (sh_pc (sh_goto p c s) q)"
  then have "owns (sh_pc s q)" using assms(3) by (auto split: if_splits)
  then show "sh_lock (sh_goto p c s) = ngx_pid cf q" using lock_inv_owner[OF assms(1) \<open>q < n\<close>] by simp
next
  assume "sh_lock (sh_goto p c s) \<noteq> 0"
  then obtain q where "q < n" "sh_lock s = ngx_pid cf q" "owns (sh_pc s q) \<or> sh_pc s q = Dead"
    using lock_inv_holder[OF assms(1)] by auto
  moreover from this have "owns (sh_pc (sh_goto p c s) q) \<or> sh_pc (sh_goto p c s) q = Dead"
    using assms(3) by (cases "q = p") auto
  ultimately show "\<exists>q<n. sh_lock (sh_goto p c s) = ngx_pid cf q
      \<and> (owns (sh_pc (sh_goto p c s) q) \<or> sh_pc (sh_goto p c s) q = Dead)"
    by (metis sh_goto_simps(1))
next
  fix q d assume "q < n" "sh_pc (sh_goto p c s) q = ForceCas d"
  then have "d < n \<and> sh_pc s d = Dead" using assms(4) lock_inv_force[OF assms(1) \<open>q < n\<close>] by (auto split: if_splits)
  moreover from this have "d = p \<Longrightarrow> c = Dead" using assms(3) by blast
  ultimately show "d < n \<and> sh_pc (sh_goto p c s) d = Dead" by simp
qed

lemma lock_inv_take:
  assumes "lock_inv cf n s" "p < n" "sh_lock s = 0" "pids_ok cf n" "owns c" "sh_pc s p \<noteq> Dead"
  shows "lock_inv cf n (sh_goto p c (s\<lparr>sh_lock := ngx_pid cf p\<rparr>))"
proof (rule lock_invI)
  fix q assume "q < n" "owns (sh_pc (sh_goto p c (s\<lparr>sh_lock := ngx_pid cf p\<rparr>)) q)"
  then show "sh_lock (sh_goto p c (s\<lparr>sh_lock := ngx_pid cf p\<rparr>)) = ngx_pid cf q"
    using lock_inv_owner[OF assms(1) \<open>q < n\<close>] pid_nonzero[OF assms(4) \<open>q < n\<close>] assms(3) by (auto split: if_splits)
next
  show "\<exists>q<n. sh_lock (sh_goto p c (s\<lparr>sh_lock := ngx_pid cf p\<rparr>)) = ngx_pid cf q \<and>
     (owns (sh_pc (sh_goto p c (s\<lparr>sh_lock := ngx_pid cf p\<rparr>)) q) \<or> sh_pc (sh_goto p c (s\<lparr>sh_lock := ngx_pid cf p\<rparr>)) q = Dead)"
    using assms(2,5) by (intro exI[of _ p]) simp
next
  fix q d assume "q < n" "sh_pc (sh_goto p c (s\<lparr>sh_lock := ngx_pid cf p\<rparr>)) q = ForceCas d"
  then have "d < n \<and> sh_pc s d = Dead" using assms(5) lock_inv_force[OF assms(1) \<open>q < n\<close>] by (auto split: if_splits)
  then show "d < n \<and> sh_pc (sh_goto p c (s\<lparr>sh_lock := ngx_pid cf p\<rparr>)) d = Dead" using assms(6) by auto
qed

lemma lock_inv_give:
  assumes "lock_inv cf n s" "p < n" "sh_lock s = ngx_pid cf q" "pids_ok cf n" "\<not> owns c"
    "q = p \<or> q < n \<and> sh_pc s q = Dead" "\<And>d. c \<noteq> ForceCas d" "sh_pc s p \<noteq> Dead"
  shows "lock_inv cf n (sh_goto p c (s\<lparr>sh_lock := 0\<rparr>))"
proof (rule lock_invI)
  fix r assume r: "r < n" "owns (sh_pc (sh_goto p c (s\<lparr>sh_lock := 0\<rparr>)) r)"
  then have "r \<noteq> p" "owns (sh_pc s r)" using assms(5) by (auto split: if_splits)
  moreover from this have "r = q" 
    using lock_inv_owner[OF assms(1) r(1)] assms(2,3,6) pid_inj[OF assms(4) r(1), of q] by auto
  ultimately have False using assms(6) by auto
  then show "sh_lock (sh_goto p c (s\<lparr>sh_lock := 0\<rparr>)) = ngx_pid cf r" ..
next
  fix q d assume "q < n" "sh_pc (sh_goto p c (s\<lparr>sh_lock := 0\<rparr>)) q = ForceCas d"
  then have "d < n \<and> sh_pc s d = Dead" using assms(7) lock_inv_force[OF assms(1) \<open>q < n\<close>] by (auto split: if_splits)
  then show "d < n \<and> sh_pc (sh_goto p c (s\<lparr>sh_lock := 0\<rparr>)) d = Dead" using assms(8) by auto
qed simp

lemma lock_inv_counters [simp]:
  "lock_inv cf n (s\<lparr>sh_wait := w\<rparr>) = lock_inv cf n s" "lock_inv cf n (s\<lparr>sh_sem := k\<rparr>) = lock_inv cf n s"
  by (simp_all add: lock_inv_def)

lemma lock_inv_act:
  assumes "lock_inv cf n s" "p < n" "sh_act cf p s = Some t" "pids_ok cf n"
  shows "lock_inv cf n t"
proof (cases "sh_pc s p")
  case TryCas
  then show ?thesis using assms
    by (cases "sh_lock s = 0") (auto simp: sh_code intro!: lock_inv_take intro: lock_inv_move)
next
  case (LockCas k)
  then show ?thesis using assms
    by (cases "sh_lock s = 0") (auto simp: sh_code intro!: lock_inv_take intro: lock_inv_move)
next
  case WaitCas
  then show ?thesis using assms
    by (cases "sh_lock s = 0") (auto simp: sh_code intro!: lock_inv_take intro: lock_inv_move)
next
  case UnlockCas
  then have "sh_lock s = ngx_pid cf p" using lock_inv_owner[OF assms(1,2)] by simp
  then show ?thesis using UnlockCas assms by (auto simp: sh_code intro!: lock_inv_give)
next
  case (ForceCas d)
  then show ?thesis using assms
    using lock_inv_force[of cf n s p d]
    by (cases "sh_lock s = ngx_pid cf d") (auto simp: sh_code intro!: lock_inv_give[of _ _ _ _ d] intro: lock_inv_move)
qed (use assms in \<open>auto simp: sh_code intro!: lock_inv_move split: if_splits\<close>)

lemma lock_inv_step:
  assumes "lock_inv cf n s" "sh_step cf n s t" "pids_ok cf n"
  shows "lock_inv cf n t"
  using assms(2,1,3) by cases (auto intro!: lock_inv_move intro: lock_inv_act)

text \<open>The invariant of the counters.\<close>

definition posts :: "nat \<Rightarrow> shmtx \<Rightarrow> nat" where
  "posts n s = cnt n (\<lambda>c. c = SemPost) (sh_pc s)"

lemma posts_goto:
  "p < n \<Longrightarrow> int (posts n (sh_goto p c s)) = int (posts n s) + of_bool (c = SemPost) - of_bool (sh_pc s p = SemPost)"
  using cnt_upd[of p n "\<lambda>c. c = SemPost" "sh_pc s" c] by (auto simp: posts_def)

lemma waiting_goto:
  "p < n \<Longrightarrow> waiting n (sh_goto p c s) = waiting n s + of_bool (counted c) - of_bool (counted (sh_pc s p))
     - of_bool (c = SemPost) + of_bool (sh_pc s p = SemPost)"
  using cnt_upd[of p n "\<lambda>c. c = SemPost" "sh_pc s" c] cnt_upd[of p n counted "sh_pc s" c]
  by (auto simp: waiting_def)

lemma waiting_simps [simp]:
  "waiting n (s\<lparr>sh_lock := v\<rparr>) = waiting n s" "waiting n (s\<lparr>sh_wait := v\<rparr>) = waiting n s"
  "waiting n (s\<lparr>sh_sem := k\<rparr>) = waiting n s + int (sh_sem s) - int k"
  "posts n (s\<lparr>sh_lock := v\<rparr>) = posts n s" "posts n (s\<lparr>sh_wait := v\<rparr>) = posts n s"
  "posts n (s\<lparr>sh_sem := k\<rparr>) = posts n s"
  by (simp_all add: waiting_def posts_def)

lemma wait_invI:
  assumes "sh_wait s = of_int (waiting n s)" "int (posts n s) + int (sh_sem s) \<le> int n"
    and "\<And>p w. \<lbrakk> p < n; sh_pc s p = WakeCas w \<rbrakk> \<Longrightarrow> 0 < sint w"
  shows "wait_inv n s"
  using assms unfolding wait_inv_def posts_def by simp

lemma wait_inv_counts:
  "wait_inv n s \<Longrightarrow> sh_wait s = of_int (waiting n s)"
  "wait_inv n s \<Longrightarrow> int (posts n s) + int (sh_sem s) \<le> int n"
  "\<lbrakk> wait_inv n s; p < n; sh_pc s p = WakeCas w \<rbrakk> \<Longrightarrow> 0 < sint w"
  unfolding wait_inv_def posts_def by auto

lemma wait_signed:
  assumes "wait_inv n s" "n < 2 ^ 63"
  shows "sint (sh_wait s) = waiting n s"
proof -
  have "int (posts n s) + int (sh_sem s) \<le> int n" by (rule wait_inv_counts(2)[OF assms(1)])
  moreover have "cnt n counted (sh_pc s) \<le> n" by (rule cnt_le)
  ultimately have "- (2 ^ 63) \<le> waiting n s" "waiting n s < 2 ^ 63"
    using assms(2) by (auto simp: waiting_def posts_def)
  then show ?thesis by (simp add: wait_inv_counts(1)[OF assms(1)] int_word_sint)
qed

lemma wait_inv_move:
  assumes "wait_inv n s" "p < n" "counted c = counted (sh_pc s p)" "c \<noteq> SemPost" "sh_pc s p \<noteq> SemPost"
    "\<And>w. c = WakeCas w \<Longrightarrow> 0 < sint w"
  shows "wait_inv n (sh_goto p c s)"
  by (rule wait_invI)
     (use assms(2-6) wait_inv_counts(1,2)[OF assms(1)] in
       \<open>auto simp: waiting_goto posts_goto intro: wait_inv_counts(3)[OF assms(1)] split: if_splits\<close>)

lemma wait_inv_lock [simp]: "wait_inv n (s\<lparr>sh_lock := v\<rparr>) = wait_inv n s"
  by (simp add: wait_inv_def)

lemma wait_inv_act:
  assumes "wait_inv n s" "p < n" "sh_act cf p s = Some t" "n < 2 ^ 63"
  shows "wait_inv n t"
proof -
  note inv = wait_inv_counts[OF assms(1)]
  show ?thesis
  proof (cases "sh_pc s p")
    case WaitInc
    then have t: "t = sh_goto p WaitCheck (s\<lparr>sh_wait := sh_wait s + 1\<rparr>)" using assms by (simp add: sh_code)
    show ?thesis unfolding t
      by (rule wait_invI) (use WaitInc assms(2) inv(1,2) in \<open>auto simp: waiting_goto posts_goto intro: inv(3) split: if_splits\<close>)
  next
    case WaitDec
    then have t: "t = sh_goto p InLock (s\<lparr>sh_wait := sh_wait s + (- 1)\<rparr>)" using assms by (simp add: sh_code)
    show ?thesis unfolding t
      by (rule wait_invI) (use WaitDec assms(2) inv(1,2) in \<open>auto simp: waiting_goto posts_goto intro: inv(3) split: if_splits\<close>)
  next
    case SemWait
    then have t: "0 < sh_sem s" "t = sh_goto p (LockCheck None) (s\<lparr>sh_sem := sh_sem s - 1\<rparr>)"
      using assms by (simp_all add: sh_code split: if_splits)
    show ?thesis unfolding t(2)
      by (rule wait_invI) (use SemWait t(1) assms(2) inv(1,2) in \<open>auto simp: waiting_goto posts_goto intro: inv(3) split: if_splits\<close>)
  next
    case (WakeCas w)
    show ?thesis
    proof (cases "sh_wait s = w")
      case True
      then have t: "t = sh_goto p SemPost (s\<lparr>sh_wait := w - 1\<rparr>)" using assms WakeCas by (simp add: sh_code)
      have "0 < waiting n s" using inv(3)[OF assms(2) WakeCas] wait_signed[OF assms(1,4)] True by simp
      then have "int (posts n s) + int (sh_sem s) < int n"
        using cnt_le[of n counted "sh_pc s"] by (simp add: waiting_def posts_def)
      then show ?thesis unfolding t
        by (intro wait_invI) (use WakeCas True assms(2) inv(1,2) in \<open>auto simp: waiting_goto posts_goto intro: inv(3) split: if_splits\<close>)
    next
      case False
      then show ?thesis using WakeCas assms by (auto simp: sh_code intro!: wait_inv_move)
    qed
  next
    case SemPost
    then have t: "t = sh_goto p Out (s\<lparr>sh_sem := sh_sem s + 1\<rparr>)" using assms by (simp add: sh_code)
    show ?thesis unfolding t
      by (rule wait_invI) (use SemPost assms(2) inv(1,2) in \<open>auto simp: waiting_goto posts_goto intro: inv(3) split: if_splits\<close>)
  next
    case WakeLoad
    then show ?thesis using assms by (auto simp: sh_code intro!: wait_inv_move split: if_splits)
  qed (use assms in \<open>auto simp: sh_code intro!: wait_inv_move split: if_splits\<close>)
qed

text \<open>The invariant of the sleepers.\<close>

lemma wake_inv_semaphore:
  "\<lbrakk> wake_inv cf n s; p < n; counted (sh_pc s p) \<or> sh_pc s p = WaitInc \<rbrakk> \<Longrightarrow> semaphore cf"
  unfolding wake_inv_def by blast

lemma wake_inv_sleepers:
  "\<lbrakk> wake_inv cf n s; sh_lock s = 0; p < n; sh_pc s p = SemWait \<rbrakk> \<Longrightarrow>
     0 < sh_sem s \<or> (\<exists>p<n. active (sh_pc s p))"
  unfolding wake_inv_def by blast

lemma wake_invI:
  assumes "wake_inv cf n s" "p < n" "sh_pc t = (sh_pc s)(p := c)" "counted c \<or> c = WaitInc \<Longrightarrow> semaphore cf"
    and "sh_lock t = 0 \<Longrightarrow> \<exists>q<n. sh_pc t q = SemWait \<Longrightarrow> 0 < sh_sem t \<or> (\<exists>q<n. active (sh_pc t q))"
  shows "wake_inv cf n t"
  unfolding wake_inv_def
proof (intro conjI allI impI)
  fix q assume "q < n" "counted (sh_pc t q) \<or> sh_pc t q = WaitInc"
  then show "semaphore cf" using wake_inv_semaphore[OF assms(1), of q] assms(3,4) by (auto split: if_splits)
qed (use assms(5) in blast)

lemma wake_inv_active:
  "\<lbrakk> wake_inv cf n s; p < n; sh_pc t = (sh_pc s)(p := c); counted c \<or> c = WaitInc \<Longrightarrow> semaphore cf; active c \<rbrakk>
     \<Longrightarrow> wake_inv cf n t"
  by (rule wake_invI) auto

lemma wake_inv_locked:
  "\<lbrakk> wake_inv cf n s; p < n; sh_pc t = (sh_pc s)(p := c); counted c \<or> c = WaitInc \<Longrightarrow> semaphore cf; sh_lock t \<noteq> 0 \<rbrakk>
     \<Longrightarrow> wake_inv cf n t"
  by (rule wake_invI) auto

lemma wake_inv_posted:
  "\<lbrakk> wake_inv cf n s; p < n; sh_pc t = (sh_pc s)(p := c); counted c \<or> c = WaitInc \<Longrightarrow> semaphore cf; 0 < sh_sem t \<rbrakk>
     \<Longrightarrow> wake_inv cf n t"
  by (rule wake_invI) auto

lemma wake_inv_passive:
  assumes "wake_inv cf n s" "p < n" "sh_pc t = (sh_pc s)(p := c)" "\<not> counted c" "c \<noteq> WaitInc"
    "\<not> active (sh_pc s p)" "sh_lock t = 0 \<longrightarrow> sh_lock s = 0" "sh_sem s \<le> sh_sem t"
  shows "wake_inv cf n t"
proof (rule wake_invI[OF assms(1,2,3)])
  assume "sh_lock t = 0" "\<exists>q<n. sh_pc t q = SemWait"
  then obtain q where q: "q < n" "sh_pc s q = SemWait" using assms(3,4) by (auto split: if_splits)
  have "0 < sh_sem s \<or> (\<exists>r<n. active (sh_pc s r))"
    using wake_inv_sleepers[OF assms(1) _ q] assms(7) \<open>sh_lock t = 0\<close> by simp
  then show "0 < sh_sem t \<or> (\<exists>r<n. active (sh_pc t r))"
    using assms(3,6,8) by (metis fun_upd_other le_less_trans linorder_not_le not_gr_zero)
qed (use assms(4,5) in simp)

lemma wake_inv_plain:
  assumes "wake_inv cf n s" "p < n" "sh_pc t = (sh_pc s)(p := c)" "\<not> counted c" "c \<noteq> WaitInc" "\<not> semaphore cf"
  shows "wake_inv cf n t"
proof (rule wake_invI[OF assms(1,2,3)])
  assume "\<exists>q<n. sh_pc t q = SemWait"
  then obtain q where "q < n" "sh_pc s q = SemWait" using assms(3,4) by (auto split: if_splits)
  then show "0 < sh_sem t \<or> (\<exists>r<n. active (sh_pc t r))" using wake_inv_semaphore[OF assms(1)] assms(6) by fastforce
qed (use assms(4,5) in simp)

lemma wake_inv_unlock:
  assumes "wake_inv cf n s" "p < n"
  shows "wake_inv cf n (sh_goto p (wakeup_entry cf) (s\<lparr>sh_lock := 0\<rparr>))"
  by (cases "semaphore cf") (auto intro: wake_inv_active[OF assms] wake_inv_plain[OF assms])

text \<open>
  A process that reads that nobody waits returns without waking anybody: then every sleeper that is
  left has been posted for.
\<close>

lemma wake_inv_return:
  assumes "wake_inv cf n s" "wait_inv n s" "p < n" "sh_pc s p = WakeLoad" "sint (sh_wait s) \<le> 0" "n < 2 ^ 63"
  shows "wake_inv cf n (sh_goto p Out s)"
proof (rule wake_invI[OF assms(1,3)])
  assume "\<exists>q<n. sh_pc (sh_goto p Out s) q = SemWait"
  then obtain q where "q < n" "sh_pc s q = SemWait" by (auto split: if_splits)
  then have "0 < cnt n counted (sh_pc s)" by (intro cnt_pos) auto
  then have "0 < posts n s \<or> 0 < sh_sem s"
    using wait_signed[OF assms(2,6)] assms(5) by (auto simp: waiting_def posts_def)
  then show "0 < sh_sem (sh_goto p Out s) \<or> (\<exists>r<n. active (sh_pc (sh_goto p Out s) r))"
  proof
    assume "0 < posts n s"
    then obtain r where "r < n" "sh_pc s r = SemPost" by (auto simp: posts_def cnt_zero simp flip: neq0_conv)
    then show ?thesis using assms(4) by (intro disjI2 exI[of _ r]) auto
  qed simp
qed auto

lemma wake_inv_act:
  assumes "wake_inv cf n s" "wait_inv n s" "p < n" "sh_act cf p s = Some t" "pids_ok cf n" "n < 2 ^ 63"
  shows "wake_inv cf n t"
proof -
  note semaphore = wake_inv_semaphore[OF assms(1,3)]
  have pid: "ngx_pid cf p \<noteq> 0" using assms(3,5) by (rule pid_nonzero[rotated])
  note act = assms(4)[unfolded sh_code]
  show ?thesis
  proof (cases "sh_pc s p")
    case UnlockCas
    then show ?thesis using act
      by (auto intro: wake_inv_unlock[OF assms(1,3)] wake_inv_passive[OF assms(1,3)] split: if_splits)
  next
    case (ForceCas d)
    then show ?thesis using act
      by (auto intro: wake_inv_unlock[OF assms(1,3)] wake_inv_passive[OF assms(1,3)] split: if_splits)
  next
    case WakeLoad
    then show ?thesis using act
      by (auto intro: wake_inv_return[OF assms(1-3) _ _ assms(6)] wake_inv_active[OF assms(1,3)] split: if_splits)
  next
    case TryCheck
    then show ?thesis using act by (auto intro!: wake_inv_passive[OF assms(1,3)] split: if_splits)
  next
    case TryCas
    then show ?thesis using act pid
      by (cases "sh_lock s = 0") (auto intro: wake_inv_passive[OF assms(1,3)] wake_inv_locked[OF assms(1,3)])
  next
    case (LockCheck k)
    then show ?thesis using act by (auto intro!: wake_inv_active[OF assms(1,3)] split: if_splits)
  next
    case (LockCas k)
    then show ?thesis using act pid
      by (cases "sh_lock s = 0") (auto intro: wake_inv_active[OF assms(1,3)] wake_inv_locked[OF assms(1,3)])
  next
    case WaitInc
    then show ?thesis using act semaphore by (auto intro!: wake_inv_active[OF assms(1,3)])
  next
    case WaitCheck
    then show ?thesis using act semaphore
      by (cases "sh_lock s = 0") (auto intro: wake_inv_active[OF assms(1,3)] wake_inv_locked[OF assms(1,3)])
  next
    case WaitCas
    then show ?thesis using act semaphore pid
      by (cases "sh_lock s = 0") (auto intro!: wake_inv_locked[OF assms(1,3)])
  next
    case WaitDec
    then show ?thesis using act by (auto intro!: wake_inv_passive[OF assms(1,3)])
  next
    case SemWait
    then show ?thesis using act by (auto intro!: wake_inv_active[OF assms(1,3)] split: if_splits)
  next
    case (WakeCas w)
    then show ?thesis using act by (auto intro!: wake_inv_active[OF assms(1,3)] split: if_splits)
  next
    case SemPost
    then show ?thesis using act by (auto intro!: wake_inv_posted[OF assms(1,3)])
  qed (use act in simp_all)
qed

lemma counters_step:
  assumes "wait_inv n s \<and> wake_inv cf n s" "sh_step cf n s t" "pids_ok cf n" "n < 2 ^ 63"
    "\<not> sem_may_fail cf" "\<not> may_die cf"
  shows "wait_inv n t \<and> wake_inv cf n t"
  using assms(2)
proof cases
  case (proceed p)
  then show ?thesis using assms wait_inv_act wake_inv_act by blast
qed (use assms in \<open>auto intro!: wait_inv_move intro: wake_inv_passive wake_inv_active\<close>)

lemma sh_inv_init: "lock_inv cf n sh_init" "wait_inv n sh_init" "wake_inv cf n sh_init"
  by (simp_all add: lock_inv_def wait_inv_def wake_inv_def sh_init_def waiting_def cnt_none)

interpretation sh: machine sh_init "sh_step cf n" "\<lambda>s. pids_ok cf n \<longrightarrow> lock_inv cf n s" for cf n
  by unfold_locales (auto intro: sh_inv_init lock_inv_step)

interpretation sh_counters: machine sh_init "sh_step cf n"
  "\<lambda>s. pids_ok cf n \<and> n < 2 ^ 63 \<and> \<not> sem_may_fail cf \<and> \<not> may_die cf \<longrightarrow> wait_inv n s \<and> wake_inv cf n s" for cf n
  by unfold_locales (use sh_inv_init counters_step in blast)+

text \<open>Nobody is dead where nobody dies.\<close>

lemma sh_act_alive:
  assumes "sh_act cf p s = Some t"
  shows "\<exists>c. sh_pc t = (sh_pc s)(p := c) \<and> c \<noteq> Dead"
proof -
  have [simp]: "lock_retry cf k \<noteq> Dead" "wakeup_entry cf \<noteq> Dead" for k
    using lock_retry_cases[of cf k] by (auto simp: wakeup_entry_def)
  show ?thesis
    by (cases "sh_pc s p") (use assms in \<open>auto simp: sh_code split: if_splits\<close>)
qed

lemma alive_step:
  assumes "\<forall>p. sh_pc s p \<noteq> Dead" "sh_step cf n s t" "\<not> may_die cf"
  shows "\<forall>p. sh_pc t p \<noteq> Dead"
  using assms(2)
proof cases
  case (proceed p)
  then obtain c where "sh_pc t = (sh_pc s)(p := c)" "c \<noteq> Dead" using sh_act_alive by blast
  then show ?thesis using assms(1) by simp
qed (use assms(1,3) in simp_all)

interpretation sh_alive: machine sh_init "sh_step cf n" "\<lambda>s. \<not> may_die cf \<longrightarrow> (\<forall>p. sh_pc s p \<noteq> Dead)" for cf n
proof
  show "\<not> may_die cf \<longrightarrow> (\<forall>p. sh_pc sh_init p \<noteq> Dead)" by (simp add: sh_init_def)
qed (use alive_step in blast)

subsection \<open>What the mutex promises\<close>

text \<open>
  Property C18 (safety).  The mutex of \<^verbatim>\<open>core/ngx_shmtx.c\<close> excludes: however the accesses of any number
  of processes interleave, with any number of processors and any spin count, with or without the
  semaphore, when \<^verbatim>\<open>sem_wait\<close> fails, when processes die anywhere, and when the locks of dead processes
  are released by force, two processes never both have the lock.
\<close>

theorem shmtx_excludes:
  assumes "reach sh_init (sh_step cf n) s" and "pids_ok cf n"
    and "p < n" "owns (sh_pc s p)" and "q < n" "owns (sh_pc s q)"
  shows "p = q"
proof -
  have inv: "lock_inv cf n s" using sh.reach_inv[OF assms(1)] assms(2) by simp
  have "ngx_pid cf p = ngx_pid cf q"
    using lock_inv_owner[OF inv assms(3,4)] lock_inv_owner[OF inv assms(5,6)] by simp
  then show ?thesis by (rule pid_inj[OF assms(2,3,5)])
qed

definition two_workers :: shmtx_conf where
  "two_workers = ngx_shmtx_create True
     \<lparr>ncpu = 4, spin = 0, semaphore = False, ngx_pid = (\<lambda>p. of_nat p + 1000), sem_may_fail = False, may_die = False\<rparr>"

lemma two_workers_ok: "pids_ok two_workers 2"
proof -
  have two: "(\<forall>p<2. P p) \<longleftrightarrow> P 0 \<and> P (1 :: nat)" for P by (auto simp: numeral_2_eq_2 less_Suc_eq)
  show ?thesis unfolding pids_ok_def two by (simp add: two_workers_def ngx_shmtx_create_def)
qed

lemma solo_reach:
  "\<lbrakk> reach init (sh_step cf n) s; p < n; sh_solo cf p k s = Some t \<rbrakk> \<Longrightarrow> reach init (sh_step cf n) t"
proof (induction k arbitrary: s)
  case (Suc k)
  then obtain u where u: "sh_act cf p s = Some u" "sh_solo cf p k u = Some t" by (auto split: option.splits)
  have "reach init (sh_step cf n) u"
    using Suc.prems(1) sh_step.proceed[OF Suc.prems(2) u(1)] by (rule reach_step)
  then show ?case using Suc.IH u(2) Suc.prems(2) by blast
qed simp

text \<open>A worker that takes the free lock.\<close>

definition worker_in :: shmtx where
  "worker_in = the (sh_solo two_workers 1 2 (sh_goto 1 (LockCheck None) sh_init))"

lemma worker_in_eq: "worker_in = \<lparr>sh_lock = 1001, sh_wait = 0, sh_sem = 0, sh_pc = (\<lambda>_. Out)(1 := InLock)\<rparr>"
  by (simp add: worker_in_def sh_init_def sh_code numeral_2_eq_2 two_workers_def ngx_shmtx_create_def sh_goto_def)

lemma worker_in_reach: "reach sh_init (sh_step two_workers 2) worker_in"
proof -
  have "reach sh_init (sh_step two_workers 2) (sh_goto 1 (LockCheck None) sh_init)"
    by (rule reach_step[OF reach_init]) (auto simp: sh_init_def intro: sh_step.call_lock)
  then show ?thesis
    by (rule solo_reach[where p = 1 and k = 2])
       (simp_all add: worker_in_eq sh_init_def sh_code numeral_2_eq_2 two_workers_def ngx_shmtx_create_def sh_goto_def)
qed

lemma shmtx_excludes_witness: "sh_pc worker_in 1 = InLock \<and> \<not> owns (sh_pc worker_in 0)"
proof
  show in_lock: "sh_pc worker_in 1 = InLock" by (simp add: worker_in_eq)
  show "\<not> owns (sh_pc worker_in 0)"
  proof
    assume "owns (sh_pc worker_in 0)"
    then have "(0 :: nat) = 1"
      by (intro shmtx_excludes[OF worker_in_reach two_workers_ok]) (simp_all add: in_lock[simplified])
    then show False by simp
  qed
qed

text \<open>
  Property C19 (invariant).  No wake-up is lost: as long as processes do not die and \<^verbatim>\<open>sem_wait\<close> only
  fails when it is interrupted, the shared counter \<^verbatim>\<open>wait\<close>, read as a signed number, is the number of
  processes counted in it less the wake-ups under way, and whenever the lock is free while a process
  sleeps on the semaphore, the semaphore is positive or some process is on its way to take the lock or
  to post.
\<close>

theorem shmtx_no_lost_wakeup:
  assumes "reach sh_init (sh_step cf n) s" and "pids_ok cf n" "n < 2 ^ 63" "\<not> sem_may_fail cf" "\<not> may_die cf"
  shows "sint (sh_wait s) = int (card {p. p < n \<and> counted (sh_pc s p)})
           - int (card {p. p < n \<and> sh_pc s p = SemPost}) - int (sh_sem s)
         \<and> (sh_lock s = 0 \<and> p < n \<and> sh_pc s p = SemWait \<longrightarrow> 0 < sh_sem s \<or> (\<exists>q<n. active (sh_pc s q)))"
proof -
  have inv: "wait_inv n s" "wake_inv cf n s" using sh_counters.reach_inv[OF assms(1)] assms(2-) by simp_all
  then show ?thesis using wait_signed[OF inv(1) assms(3)] wake_inv_sleepers[OF inv(2)]
    by (auto simp: waiting_def cnt_def)
qed

lemma shmtx_no_lost_wakeup_witness:
  "sint (sh_wait worker_in) = int (card {p. p < 2 \<and> counted (sh_pc worker_in p)})
     - int (card {p. p < 2 \<and> sh_pc worker_in p = SemPost}) - int (sh_sem worker_in)"
  using shmtx_no_lost_wakeup[OF worker_in_reach two_workers_ok]
  by (simp add: two_workers_def ngx_shmtx_create_def)

text \<open>
  Fact (liveness).  The mutex does not deadlock: under the same conditions, whenever a process is
  inside one of the functions, some process can make its next access, or some process has the lock and
  is working under it.
\<close>

theorem shmtx_no_deadlock:
  assumes "reach sh_init (sh_step cf n) s" and "pids_ok cf n" "n < 2 ^ 63" "\<not> sem_may_fail cf" "\<not> may_die cf"
    and "p < n" "sh_pc s p \<noteq> Out"
  shows "\<exists>q<n. sh_pc s q = InLock \<or> (\<exists>t. sh_act cf q s = Some t)"
proof -
  have lock: "lock_inv cf n s" using sh.reach_inv[OF assms(1)] assms(2) by simp
  have wake: "wake_inv cf n s" using sh_counters.reach_inv[OF assms(1)] assms(2-5) by simp
  have alive: "sh_pc s q \<noteq> Dead" for q using sh_alive.reach_inv[OF assms(1)] assms(5) by simp
  have acts: "\<exists>t. sh_act cf q s = Some t"
    if "sh_pc s q \<noteq> Out" "sh_pc s q \<noteq> InLock" "sh_pc s q \<noteq> SemWait \<or> 0 < sh_sem s" for q
    using that alive[of q] by (cases "sh_pc s q") (simp_all add: sh_code)
  show ?thesis
  proof (cases "sh_pc s p = SemWait \<and> sh_sem s = 0")
    case False
    then show ?thesis using acts[of p] assms(6,7) by blast
  next
    case True
    show ?thesis
    proof (cases "sh_lock s = 0")
      case True
      then obtain q where "q < n" "active (sh_pc s q)"
        using wake_inv_sleepers[OF wake True assms(6)] \<open>sh_pc s p = SemWait \<and> sh_sem s = 0\<close> by auto
      then show ?thesis using acts[of q] by (cases "sh_pc s q") auto
    next
      case False
      then obtain q where "q < n" "owns (sh_pc s q)" using lock_inv_holder[OF lock] alive by blast
      then show ?thesis using acts[of q] by (cases "sh_pc s q") auto
    qed
  qed
qed

lemma shmtx_no_deadlock_witness: "\<exists>q<2. sh_pc worker_in q = InLock \<or> (\<exists>t. sh_act two_workers q worker_in = Some t)"
  by (rule shmtx_no_deadlock[OF worker_in_reach two_workers_ok, of 1])
     (simp_all add: worker_in_eq two_workers_def ngx_shmtx_create_def)

text \<open>
  Fact (termination).  Releasing the lock takes at most four accesses of a process that is not
  interrupted: the unlock of a holder, and the release by force of the lock of a dead process, return
  with the lock free, and with one more post of the semaphore exactly when the semaphore is in use and
  somebody is counted as waiting.
\<close>

theorem shmtx_release:
  assumes "reach sh_init (sh_step cf n) s" and "pids_ok cf n" and "p < n"
    and "sh_pc s p = UnlockCas \<or> (\<exists>d. sh_pc s p = ForceCas d \<and> sh_lock s = ngx_pid cf d)"
  shows "\<exists>k\<le>4. \<exists>t. sh_solo cf p k s = Some t \<and> sh_pc t p = Out \<and> sh_lock t = 0
           \<and> sh_sem t = (if semaphore cf \<and> 0 < sint (sh_wait s) then sh_sem s + 1 else sh_sem s)"
proof -
  have "sh_lock s = ngx_pid cf p" if "sh_pc s p = UnlockCas"
    using lock_inv_owner[OF _ assms(3)] sh.reach_inv[OF assms(1)] assms(2) that by simp
  then have u: "sh_act cf p s = Some (sh_goto p (wakeup_entry cf) (s\<lparr>sh_lock := 0\<rparr>))"
    using assms(4) by (auto simp: sh_code)
  show ?thesis
  proof (cases "semaphore cf \<and> 0 < sint (sh_wait s)")
    case True
    then show ?thesis using u
      by (intro exI[of _ 4]) (simp add: eval_nat_numeral wakeup_entry_def sh_code)
  next
    case False
    then show ?thesis using u
      by (intro exI[of _ "if semaphore cf then 2 else 1"]) (auto simp: eval_nat_numeral wakeup_entry_def sh_code)
  qed
qed

text \<open>A worker that has taken the lock and gives it back.\<close>

lemma shmtx_release_witness:
  "\<exists>k\<le>4. \<exists>t. sh_solo two_workers 1 k (sh_goto 1 UnlockCas worker_in) = Some t \<and> sh_pc t 1 = Out \<and> sh_lock t = 0"
proof -
  have "reach sh_init (sh_step two_workers 2) (sh_goto 1 UnlockCas worker_in)"
    by (rule reach_step[OF worker_in_reach sh_step.call_unlock]) (simp_all add: worker_in_eq)
  from shmtx_release[OF this two_workers_ok, of 1] show ?thesis by auto
qed

end
