(* ===== verification/Ngx_Queue.thy ===== *)
theory Ngx_Queue
  imports Ngx_Prelude "HOL-Library.Multiset"
begin

text \<open>
  The doubly linked queues of \<^verbatim>\<open>core/ngx_queue.h\<close> and \<^verbatim>\<open>core/ngx_queue.c\<close>: the macros as
  operations on a memory of \<^verbatim>\<open>prev\<close> and \<^verbatim>\<open>next\<close> pointers, what a queue is in such a memory, and
  that every operation is the list operation that its callers rely on.
\<close>

subsection \<open>The operations in memory\<close>

type_synonym addr = nat

record qmem =
  prev :: "addr \<Rightarrow> addr"
  "next" :: "addr \<Rightarrow> addr"

definition set_prev :: "addr \<Rightarrow> addr \<Rightarrow> qmem \<Rightarrow> qmem" where
  "set_prev a v s = s\<lparr>prev := (prev s)(a := v)\<rparr>"

definition set_next :: "addr \<Rightarrow> addr \<Rightarrow> qmem \<Rightarrow> qmem" where
  "set_next a v s = s\<lparr>next := (next s)(a := v)\<rparr>"

definition ngx_queue_init :: "addr \<Rightarrow> qmem \<Rightarrow> qmem" where
  "ngx_queue_init q s = set_next q q (set_prev q q s)"

definition ngx_queue_empty :: "qmem \<Rightarrow> addr \<Rightarrow> bool" where
  "ngx_queue_empty s h \<longleftrightarrow> h = prev s h"

definition ngx_queue_head :: "qmem \<Rightarrow> addr \<Rightarrow> addr" where
  "ngx_queue_head s h = next s h"

definition ngx_queue_last :: "qmem \<Rightarrow> addr \<Rightarrow> addr" where
  "ngx_queue_last s h = prev s h"

text \<open>Each macro is a sequence of assignments; the states between them are named.\<close>

definition ngx_queue_insert_head :: "addr \<Rightarrow> addr \<Rightarrow> qmem \<Rightarrow> qmem" where
  "ngx_queue_insert_head h x s =
     (let s = set_next x (next s h) s;
          s = set_prev (next s x) x s;
          s = set_prev x h s
      in set_next h x s)"

definition ngx_queue_insert_tail :: "addr \<Rightarrow> addr \<Rightarrow> qmem \<Rightarrow> qmem" where
  "ngx_queue_insert_tail h x s =
     (let s = set_prev x (prev s h) s;
          s = set_next (prev s x) x s;
          s = set_next x h s
      in set_prev h x s)"

definition ngx_queue_remove :: "addr \<Rightarrow> qmem \<Rightarrow> qmem" where
  "ngx_queue_remove x s =
     (let s = set_prev (next s x) (prev s x) s
      in set_next (prev s x) (next s x) s)"

definition ngx_queue_split :: "addr \<Rightarrow> addr \<Rightarrow> addr \<Rightarrow> qmem \<Rightarrow> qmem" where
  "ngx_queue_split h q n s =
     (let s = set_prev n (prev s h) s;
          s = set_next (prev s n) n s;
          s = set_next n q s;
          s = set_prev h (prev s q) s;
          s = set_next (prev s h) h s
      in set_prev q n s)"

definition ngx_queue_add :: "addr \<Rightarrow> addr \<Rightarrow> qmem \<Rightarrow> qmem" where
  "ngx_queue_add h n s =
     (let s = set_next (prev s h) (next s n) s;
          s = set_prev (next s n) (prev s h) s;
          s = set_prev h (prev s n) s
      in set_next (prev s h) h s)"

partial_function (option) middle_loop :: "qmem \<Rightarrow> addr \<Rightarrow> addr \<Rightarrow> addr \<Rightarrow> addr option" where
  "middle_loop s queue middle nxt =
     (let middle = next s middle; nxt = next s nxt in
      if nxt = ngx_queue_last s queue then Some middle
      else let nxt = next s nxt in
        if nxt = ngx_queue_last s queue then Some middle
        else middle_loop s queue middle nxt)"

definition ngx_queue_middle :: "qmem \<Rightarrow> addr \<Rightarrow> addr option" where
  "ngx_queue_middle s queue =
     (let middle = ngx_queue_head s queue in
      if middle = ngx_queue_last s queue then Some middle
      else middle_loop s queue middle (ngx_queue_head s queue))"

text \<open>The inner loop walks back to the element after which \<open>q\<close> belongs.\<close>

partial_function (option) sort_back :: "(addr \<Rightarrow> addr \<Rightarrow> int) \<Rightarrow> qmem \<Rightarrow> addr \<Rightarrow> addr \<Rightarrow> addr \<Rightarrow> addr option" where
  "sort_back cmp s queue p q =
     (if cmp p q \<le> 0 then Some p
      else let p = prev s p in
        if p \<noteq> queue then sort_back cmp s queue p q else Some p)"

partial_function (option) sort_loop :: "(addr \<Rightarrow> addr \<Rightarrow> int) \<Rightarrow> qmem \<Rightarrow> addr \<Rightarrow> addr \<Rightarrow> qmem option" where
  "sort_loop cmp s queue q =
     (if q = queue then Some s
      else
        let p = prev s q; nxt = next s q; s = ngx_queue_remove q s in
        case sort_back cmp s queue p q of
          None \<Rightarrow> None
        | Some p \<Rightarrow> sort_loop cmp (ngx_queue_insert_head p q s) queue nxt)"

definition ngx_queue_sort :: "(addr \<Rightarrow> addr \<Rightarrow> int) \<Rightarrow> qmem \<Rightarrow> addr \<Rightarrow> qmem option" where
  "ngx_queue_sort cmp s queue =
     (let q = ngx_queue_head s queue in
      if q = ngx_queue_last s queue then Some s
      else sort_loop cmp s queue (next s q))"

subsection \<open>Queues in memory\<close>

fun dseg :: "qmem \<Rightarrow> addr \<Rightarrow> addr list \<Rightarrow> addr \<Rightarrow> bool" where
  "dseg s a [] b \<longleftrightarrow> next s a = b \<and> prev s b = a"
| "dseg s a (x # xs) b \<longleftrightarrow> next s a = x \<and> prev s x = a \<and> dseg s x xs b"

definition is_queue :: "qmem \<Rightarrow> addr \<Rightarrow> addr list \<Rightarrow> bool" where
  "is_queue s h xs \<longleftrightarrow> dseg s h xs h \<and> distinct (h # xs)"

text \<open>The memory outside a set of addresses is untouched.\<close>

definition same_outside :: "addr set \<Rightarrow> qmem \<Rightarrow> qmem \<Rightarrow> bool" where
  "same_outside A s t \<longleftrightarrow> (\<forall>a. a \<notin> A \<longrightarrow> prev t a = prev s a \<and> next t a = next s a)"

lemma mem_simps [simp]:
  "prev (set_prev a v s) = (prev s)(a := v)" "next (set_prev a v s) = next s"
  "next (set_next a v s) = (next s)(a := v)" "prev (set_next a v s) = prev s"
  by (simp_all add: set_prev_def set_next_def)

lemma same_outside_refl [simp]: "same_outside A s s"
  by (simp add: same_outside_def)

lemma same_outside_trans: "\<lbrakk> same_outside A s t; same_outside A t u \<rbrakk> \<Longrightarrow> same_outside A s u"
  by (simp add: same_outside_def)

lemma same_outside_set:
  "a \<in> A \<Longrightarrow> same_outside A s (set_prev a v t) \<longleftrightarrow> same_outside A s t"
  "a \<in> A \<Longrightarrow> same_outside A s (set_next a v t) \<longleftrightarrow> same_outside A s t"
  by (auto simp: same_outside_def)

lemma dseg_append [simp]: "dseg s a (xs @ x # ys) b \<longleftrightarrow> dseg s a xs x \<and> dseg s x ys b"
  by (induction xs arbitrary: a) auto

text \<open>A segment looks at the successors of its start and its elements, and at the predecessors of its
  elements and its end.\<close>

lemma dseg_cong:
  "\<lbrakk> \<forall>c\<in>set (a # xs). next t c = next s c; \<forall>c\<in>set (xs @ [b]). prev t c = prev s c \<rbrakk>
     \<Longrightarrow> dseg t a xs b = dseg s a xs b"
  by (induction xs arbitrary: a) auto

lemma dseg_frame [simp]:
  "c \<notin> set (a # xs) \<Longrightarrow> dseg (set_next c v s) a xs b = dseg s a xs b"
  "c \<notin> set (xs @ [b]) \<Longrightarrow> dseg (set_prev c v s) a xs b = dseg s a xs b"
  by (auto intro!: dseg_cong)

lemma dseg_next: "dseg s a xs b \<Longrightarrow> next s a = hd (xs @ [b])"
  by (cases xs) auto

lemma dseg_prev: "dseg s a xs b \<Longrightarrow> prev s b = last (a # xs)"
  by (induction xs arbitrary: a) auto

lemma dseg_last: "xs \<noteq> [] \<Longrightarrow> dseg s a xs b \<longleftrightarrow> dseg s a (butlast xs) (last xs) \<and> next s (last xs) = b \<and> prev s b = last xs"
  by (induction xs arbitrary: a) auto

lemma is_queue_other:
  "\<lbrakk> is_queue s h xs; same_outside A s t; A \<inter> set (h # xs) = {} \<rbrakk> \<Longrightarrow> is_queue t h xs"
proof -
  assume q: "is_queue s h xs" and so: "same_outside A s t" and d: "A \<inter> set (h # xs) = {}"
  have "dseg t h xs h = dseg s h xs h"
    by (rule dseg_cong) (use so d in \<open>auto simp: same_outside_def\<close>)
  then show ?thesis using q by (simp add: is_queue_def)
qed

lemma is_queue_head: "is_queue s h xs \<Longrightarrow> ngx_queue_head s h = hd (xs @ [h])"
  by (simp add: is_queue_def ngx_queue_head_def dseg_next)

lemma is_queue_last: "is_queue s h xs \<Longrightarrow> ngx_queue_last s h = last (h # xs)"
  using dseg_prev[of s h xs h] by (simp add: is_queue_def ngx_queue_last_def)

lemma is_queue_empty: "is_queue s h xs \<Longrightarrow> ngx_queue_empty s h \<longleftrightarrow> xs = []"
  using dseg_prev[of s h xs h] by (auto simp: is_queue_def ngx_queue_empty_def)

text \<open>Splitting a list at an element that ends a prefix.\<close>

lemma init_queue: "is_queue (ngx_queue_init q s) q [] \<and> same_outside {q} s (ngx_queue_init q s)"
  by (simp add: is_queue_def ngx_queue_init_def same_outside_set)

subsection \<open>Every operation is a list operation\<close>

lemma insert_dseg:
  assumes "dseg s a (xs @ ys) a" "distinct (a # xs @ ys)" "x \<notin> set (a # xs @ ys)"
  shows "dseg (ngx_queue_insert_head (last (a # xs)) x s) a (xs @ x # ys) a"
proof -
  define m where "m = last (a # xs)"
  define y where "y = hd (ys @ [a])"
  have m: "m \<in> set (a # xs)" unfolding m_def by (rule last_in_set) simp
  have y: "y \<in> set (ys @ [a])" unfolding y_def by (rule hd_in_set) simp
  have n: "next s m = y"
    using assms(1) by (cases xs rule: rev_cases; cases ys) (auto simp: m_def y_def)
  have ne: "m \<noteq> x" "x \<noteq> y" "m \<notin> set ys" "y \<notin> set xs" "x \<noteq> a" "x \<notin> set xs" "x \<notin> set ys"
    using m y assms(2,3) by auto
  have r: "ngx_queue_insert_head m x s = set_next m x (set_prev x m (set_prev y x (set_next x y s)))"
    using n ne by (simp add: ngx_queue_insert_head_def Let_def)
  have "dseg (ngx_queue_insert_head m x s) a xs x"
  proof (cases xs rule: rev_cases)
    case Nil
    then show ?thesis unfolding r using ne by (simp add: m_def)
  next
    case (snoc zs z)
    then have z: "m = z" "z \<notin> set (a # zs)" using assms(2) by (auto simp: m_def)
    have "dseg s a zs z" using assms(1) snoc by simp
    then show ?thesis unfolding r using ne z snoc assms(2) by simp
  qed
  moreover have "dseg (ngx_queue_insert_head m x s) x ys a"
  proof (cases ys)
    case Nil
    then show ?thesis unfolding r using ne by (simp add: y_def)
  next
    case (Cons z zs)
    then have z: "y = z" "z \<notin> set (a # zs)" using assms(2) by (auto simp: y_def)
    have "dseg s z zs a" using assms(1) Cons by simp
    then show ?thesis unfolding r using ne z Cons assms(2) by simp
  qed
  ultimately show ?thesis by (simp add: m_def)
qed

text \<open>\<^verbatim>\<open>ngx_queue_insert_after\<close> is \<^verbatim>\<open>ngx_queue_insert_head\<close> on an element.\<close>

lemma insert_after:
  assumes "is_queue s h (xs @ ys)" "x \<notin> set (h # xs @ ys)"
  shows "is_queue (ngx_queue_insert_head (last (h # xs)) x s) h (xs @ x # ys)"
    and "same_outside (set (h # x # xs @ ys)) s (ngx_queue_insert_head (last (h # xs)) x s)"
proof -
  show "is_queue (ngx_queue_insert_head (last (h # xs)) x s) h (xs @ x # ys)"
    using insert_dseg[of s h xs ys x] assms by (auto simp: is_queue_def)
  have "dseg s h (xs @ ys) h" using assms(1) by (simp add: is_queue_def)
  then have "next s (last (h # xs)) \<in> set (h # ys)"
    by (cases xs rule: rev_cases; cases ys) auto
  then show "same_outside (set (h # x # xs @ ys)) s (ngx_queue_insert_head (last (h # xs)) x s)"
    unfolding ngx_queue_insert_head_def Let_def
    by (intro same_outside_set[THEN iffD2]) auto
qed

lemma insert_tail:
  assumes "is_queue s h xs" "x \<notin> set (h # xs)"
  shows "is_queue (ngx_queue_insert_tail h x s) h (xs @ [x])"
proof -
  have p: "prev s h = last (h # xs)" using assms(1) dseg_prev[of s h xs h] by (simp add: is_queue_def)
  show ?thesis
  proof (cases xs rule: rev_cases)
    case Nil
    then show ?thesis using assms by (auto simp: is_queue_def ngx_queue_insert_tail_def Let_def)
  next
    case (snoc zs z)
    then show ?thesis using assms p
      by (auto simp: is_queue_def ngx_queue_insert_tail_def Let_def intro!: dseg_cong[THEN iffD2])
  qed
qed

lemma insert_tail_outside:
  assumes "is_queue s h xs"
  shows "same_outside (set (h # x # xs)) s (ngx_queue_insert_tail h x s)"
proof -
  have "prev s h = last (h # xs)" using assms dseg_prev[of s h xs h] by (simp add: is_queue_def)
  then have "prev s h \<in> set (h # xs)" using last_in_set[of "h # xs"] by simp
  then show ?thesis unfolding ngx_queue_insert_tail_def Let_def
    by (intro same_outside_set[THEN iffD2]) auto
qed

lemma remove_queue:
  assumes "is_queue s h (xs @ x # ys)"
  shows "is_queue (ngx_queue_remove x s) h (xs @ ys)"
    and "same_outside (set (h # xs @ ys)) s (ngx_queue_remove x s)"
proof -
  have d: "dseg s h xs x" "dseg s x ys h" "distinct (h # xs @ x # ys)" using assms by (auto simp: is_queue_def)
  have p: "prev s x = last (h # xs)" "next s x = hd (ys @ [h])" using d by (simp_all add: dseg_prev dseg_next)
  have r: "ngx_queue_remove x s = set_next (last (h # xs)) (hd (ys @ [h])) (set_prev (hd (ys @ [h])) (last (h # xs)) s)"
    using d(3) p by (auto simp: ngx_queue_remove_def Let_def hd_append)
  show "is_queue (ngx_queue_remove x s) h (xs @ ys)"
    unfolding r using d
    by (cases xs rule: rev_cases; cases ys) (auto simp: is_queue_def intro!: dseg_cong[THEN iffD2])
  show "same_outside (set (h # xs @ ys)) s (ngx_queue_remove x s)"
    unfolding r by (cases ys) (auto intro!: same_outside_set[THEN iffD2])
qed

lemma split_queue:
  assumes "is_queue s h (xs @ q # ys)" "n \<notin> set (h # xs @ q # ys)"
  shows "is_queue (ngx_queue_split h q n s) h xs" and "is_queue (ngx_queue_split h q n s) n (q # ys)"
    and "same_outside (set (h # n # xs @ q # ys)) s (ngx_queue_split h q n s)"
proof -
  define l where "l = last (q # ys)"
  define m where "m = last (h # xs)"
  have d: "dseg s h xs q" "dseg s q ys h" "distinct (h # xs @ q # ys)" using assms by (auto simp: is_queue_def)
  have p: "prev s q = m" "prev s h = l" using dseg_prev[OF d(1)] dseg_prev[OF d(2)] by (simp_all add: l_def m_def)
  have ins: "l \<in> set (q # ys)" "m \<in> set (h # xs)" unfolding l_def m_def by (rule last_in_set, simp)+
  have ne: "l \<noteq> h" "l \<noteq> n" "l \<notin> set xs" "m \<noteq> n" "m \<noteq> q" "m \<notin> set ys" "n \<noteq> h" "q \<noteq> h" "n \<noteq> q" "n \<notin> set xs" "n \<notin> set ys"
    "l \<noteq> m" using ins d(3) assms(2) by auto
  have r: "ngx_queue_split h q n s =
      set_prev q n (set_next m h (set_prev h m (set_next n q (set_next l n (set_prev n l s)))))"
    using p ne by (simp add: ngx_queue_split_def Let_def)
  have "dseg (ngx_queue_split h q n s) h xs h"
  proof (cases xs rule: rev_cases)
    case Nil
    then show ?thesis using ne by (simp add: r m_def)
  next
    case (snoc zs z)
    then have z: "m = z" using snoc by (simp add: m_def)
    have "z \<noteq> h" "z \<notin> set zs" "h \<notin> set zs" "q \<notin> set zs" "n \<notin> set zs" "l \<notin> set zs"
      using snoc d(3) ne by auto
    moreover have "dseg s h zs z" using d(1) snoc by simp
    ultimately show ?thesis unfolding r snoc z using ne[unfolded z] by simp
  qed
  then show "is_queue (ngx_queue_split h q n s) h xs" using d(3) by (simp add: is_queue_def)
  have "dseg (ngx_queue_split h q n s) n (q # ys) n"
  proof (cases ys rule: rev_cases)
    case Nil
    then show ?thesis using ne by (simp add: r l_def)
  next
    case (snoc zs z)
    then have z: "l = z" by (simp add: l_def)
    have "z \<noteq> q" "z \<notin> set zs" "q \<notin> set zs" "h \<notin> set zs" "n \<notin> set zs" "m \<notin> set zs"
      using snoc d(3) ne by auto
    moreover have "dseg s q zs z" using d(2) snoc by simp
    ultimately show ?thesis unfolding r snoc z using ne[unfolded z] by simp
  qed
  then show "is_queue (ngx_queue_split h q n s) n (q # ys)" using d(3) assms(2) by (simp add: is_queue_def)
  show "same_outside (set (h # n # xs @ q # ys)) s (ngx_queue_split h q n s)"
    unfolding r using ins by (intro same_outside_set[THEN iffD2]) auto
qed

lemma add_queue:
  assumes "is_queue s h xs" "is_queue s n ys" "ys \<noteq> []" "set (h # xs) \<inter> set (n # ys) = {}"
  shows "is_queue (ngx_queue_add h n s) h (xs @ ys)"
    and "same_outside (set (h # xs @ ys)) s (ngx_queue_add h n s)"
proof -
  obtain y us where ys: "ys = y # us" using assms(3) by (cases ys) auto
  define l where "l = last (y # us)"
  define m where "m = last (h # xs)"
  have d: "dseg s h xs h" "dseg s n (y # us) n" "distinct (h # xs)" "distinct (n # y # us)"
    using assms(1,2) by (auto simp: is_queue_def ys)
  have p: "prev s h = m" "prev s n = l" "next s n = y"
    using dseg_prev[OF d(1)] dseg_prev[OF d(2)] d(2) by (simp_all add: m_def l_def)
  have ins: "l \<in> set (y # us)" "m \<in> set (h # xs)" unfolding l_def m_def by (rule last_in_set, simp)+
  have ne: "l \<noteq> h" "l \<notin> set xs" "l \<noteq> n" "m \<noteq> n" "m \<noteq> y" "m \<notin> set us" "y \<noteq> h" "y \<notin> set xs" "l \<noteq> m"
      "h \<notin> set us" "n \<noteq> h" "n \<noteq> y"
    using ins d(3,4) assms(4) ys by auto
  have r: "ngx_queue_add h n s = set_next l h (set_prev h l (set_prev y m (set_next m y s)))"
    using p ne by (simp add: ngx_queue_add_def Let_def)
  have "dseg s y us n" using d(2) by simp
  then have Y: "dseg (ngx_queue_add h n s) y us h"
  proof (cases us rule: rev_cases)
    case Nil
    then show ?thesis using ne by (simp add: r l_def)
  next
    case (snoc zs z)
    then have z: "l = z" "z \<notin> set (y # zs)" using d(4) by (auto simp: l_def)
    have "dseg s y zs z" using \<open>dseg s y us n\<close> snoc by simp
    then show ?thesis using ne z d(4) by (simp add: r snoc)
  qed
  have X: "dseg (ngx_queue_add h n s) h xs y"
  proof (cases xs rule: rev_cases)
    case Nil
    then show ?thesis using ne by (simp add: r m_def)
  next
    case (snoc zs z)
    then have z: "m = z" "z \<notin> set (h # zs)" using d(3) by (auto simp: m_def)
    have "dseg s h zs z" using d(1) snoc by simp
    then show ?thesis using ne z d(3) by (simp add: r snoc)
  qed
  show "is_queue (ngx_queue_add h n s) h (xs @ ys)"
    using X Y assms(4) d(3,4) by (auto simp: is_queue_def ys)
  show "same_outside (set (h # xs @ ys)) s (ngx_queue_add h n s)"
    unfolding r using ins by (intro same_outside_set[THEN iffD2]) (auto simp: ys)
qed

subsection \<open>The middle and the sort as functions on lists\<close>

definition queue_middle :: "'a list \<Rightarrow> 'a" where
  "queue_middle xs = xs ! (length xs div 2)"

definition queue_insert :: "('a \<Rightarrow> 'a \<Rightarrow> int) \<Rightarrow> 'a list \<Rightarrow> 'a \<Rightarrow> 'a list" where
  "queue_insert cmp xs q =
     rev (dropWhile (\<lambda>p. 0 < cmp p q) (rev xs)) @ q # rev (takeWhile (\<lambda>p. 0 < cmp p q) (rev xs))"

definition queue_sort :: "('a \<Rightarrow> 'a \<Rightarrow> int) \<Rightarrow> 'a list \<Rightarrow> 'a list" where
  "queue_sort cmp xs = foldl (queue_insert cmp) [] xs"

text \<open>What a comparison function must be: a total preorder, read from the sign of its result.\<close>

definition preorder_cmp :: "('a \<Rightarrow> 'a \<Rightarrow> int) \<Rightarrow> 'a set \<Rightarrow> bool" where
  "preorder_cmp cmp A \<longleftrightarrow>
     (\<forall>a\<in>A. \<forall>b\<in>A. cmp a b \<le> 0 \<or> cmp b a \<le> 0)
     \<and> (\<forall>a\<in>A. \<forall>b\<in>A. \<forall>c\<in>A. cmp a b \<le> 0 \<and> cmp b c \<le> 0 \<longrightarrow> cmp a c \<le> 0)"

definition cmp_same :: "('a \<Rightarrow> 'a \<Rightarrow> int) \<Rightarrow> 'a \<Rightarrow> 'a \<Rightarrow> bool" where
  "cmp_same cmp a b \<longleftrightarrow> cmp a b \<le> 0 \<and> cmp b a \<le> 0"

lemma queue_insert_split:
  obtains A B where "xs = A @ B" "queue_insert cmp xs q = A @ q # B" "\<forall>b\<in>set B. 0 < cmp b q"
    "A = [] \<or> cmp (last A) q \<le> 0"
proof
  let ?P = "\<lambda>p. 0 < cmp p q"
  let ?A = "rev (dropWhile ?P (rev xs))" and ?B = "rev (takeWhile ?P (rev xs))"
  have "rev (?A @ ?B) = rev xs" by simp
  then show "xs = ?A @ ?B" by (metis rev_rev_ident)
  show "queue_insert cmp xs q = ?A @ q # ?B" by (simp add: queue_insert_def)
  show "\<forall>b\<in>set ?B. 0 < cmp b q" by (auto dest: set_takeWhileD)
  show "?A = [] \<or> cmp (last ?A) q \<le> 0"
  proof (cases "dropWhile ?P (rev xs) = []")
    case False
    then have "\<not> ?P (hd (dropWhile ?P (rev xs)))" by (rule hd_dropWhile)
    then show ?thesis using False by (simp add: last_rev)
  qed simp
qed

lemma queue_insert_set [simp]: "set (queue_insert cmp xs q) = insert q (set xs)"
  by (rule queue_insert_split[of xs cmp q]) auto

lemma queue_insert_mset [simp]: "mset (queue_insert cmp xs q) = add_mset q (mset xs)"
  by (rule queue_insert_split[of xs cmp q]) auto

lemma queue_insert_sorted:
  assumes "preorder_cmp cmp (insert q (set xs))" "sorted_wrt (\<lambda>a b. cmp a b \<le> 0) xs"
  shows "sorted_wrt (\<lambda>a b. cmp a b \<le> 0) (queue_insert cmp xs q)"
proof -
  obtain A B where i: "xs = A @ B" "queue_insert cmp xs q = A @ q # B" "\<forall>b\<in>set B. 0 < cmp b q"
    "A = [] \<or> cmp (last A) q \<le> 0" by (rule queue_insert_split)
  have B: "cmp q b \<le> 0" if "b \<in> set B" for b
  proof -
    have "b \<in> set xs" "0 < cmp b q" using that i(1,3) by simp_all
    then have "cmp b q \<le> 0 \<or> cmp q b \<le> 0" using assms(1) unfolding preorder_cmp_def by blast
    then show ?thesis using \<open>0 < cmp b q\<close> by simp
  qed
  have A: "cmp a q \<le> 0" if "a \<in> set A" for a
  proof -
    have l: "A \<noteq> []" "cmp (last A) q \<le> 0" using that i(4) by auto
    then obtain zs z where A: "A = zs @ [z]" by (cases A rule: rev_cases) auto
    have "sorted_wrt (\<lambda>a b. cmp a b \<le> 0) A" using assms(2) unfolding i(1) sorted_wrt_append by blast
    then have *: "\<forall>b\<in>set zs. cmp b z \<le> 0" unfolding A sorted_wrt_append by simp
    have 1: "a = last A \<or> cmp a (last A) \<le> 0" using * that unfolding A by auto
    have "a \<in> set xs" "last A \<in> set xs" using that l i(1) by auto
    then have "cmp a (last A) \<le> 0 \<and> cmp (last A) q \<le> 0 \<longrightarrow> cmp a q \<le> 0"
      using assms(1) unfolding preorder_cmp_def by blast
    then show ?thesis using 1 l(2) by blast
  qed
  have "sorted_wrt (\<lambda>a b. cmp a b \<le> 0) A \<and> sorted_wrt (\<lambda>a b. cmp a b \<le> 0) B
      \<and> (\<forall>a\<in>set A. \<forall>b\<in>set B. cmp a b \<le> 0)"
    using assms(2) unfolding i(1) sorted_wrt_append .
  then show ?thesis unfolding i(2) sorted_wrt_append using A B by auto
qed

lemma queue_insert_stable:
  assumes "preorder_cmp cmp (insert k (insert q (set xs)))"
  shows "filter (cmp_same cmp k) (queue_insert cmp xs q) = filter (cmp_same cmp k) (xs @ [q])"
proof -
  obtain A B where i: "xs = A @ B" "queue_insert cmp xs q = A @ q # B" "\<forall>b\<in>set B. 0 < cmp b q"
    by (rule queue_insert_split)
  show ?thesis
  proof (cases "cmp_same cmp k q")
    case True
    have "\<not> cmp_same cmp k b" if "b \<in> set B" for b
    proof
      assume "cmp_same cmp k b"
      then have "cmp b q \<le> 0" using assms that i(1) True unfolding preorder_cmp_def cmp_same_def by auto
      then show False using i(3) that by auto
    qed
    then have "filter (cmp_same cmp k) B = []" by (simp add: filter_empty_conv)
    then show ?thesis unfolding i(2) using i(1) True by simp
  next
    case False
    then show ?thesis unfolding i(2) using i(1) by simp
  qed
qed

lemma queue_sort_snoc: "queue_sort cmp (xs @ [q]) = queue_insert cmp (queue_sort cmp xs) q"
  by (simp add: queue_sort_def)

lemma queue_sort_Nil [simp]: "queue_sort cmp [] = []"
  by (simp add: queue_sort_def)

lemma queue_sort_mset [simp]: "mset (queue_sort cmp xs) = mset xs"
  by (induction xs rule: rev_induct) (simp_all add: queue_sort_snoc)

lemma queue_sort_set [simp]: "set (queue_sort cmp xs) = set xs"
  by (metis queue_sort_mset set_mset_mset)

lemma queue_sort_length [simp]: "length (queue_sort cmp xs) = length xs"
  by (metis queue_sort_mset size_mset)

lemma preorder_cmp_mono: "\<lbrakk> preorder_cmp cmp B; A \<subseteq> B \<rbrakk> \<Longrightarrow> preorder_cmp cmp A"
  unfolding preorder_cmp_def by blast

lemma queue_sort_sorted:
  "preorder_cmp cmp (set xs) \<Longrightarrow> sorted_wrt (\<lambda>a b. cmp a b \<le> 0) (queue_sort cmp xs)"
proof (induction xs rule: rev_induct)
  case (snoc q xs)
  have "preorder_cmp cmp (set xs)" using snoc.prems by (rule preorder_cmp_mono) auto
  then show ?case using snoc queue_insert_sorted[of cmp q "queue_sort cmp xs"] by (simp add: queue_sort_snoc)
qed simp

lemma queue_sort_stable:
  "\<lbrakk> preorder_cmp cmp (set xs); k \<in> set xs \<rbrakk> \<Longrightarrow> filter (cmp_same cmp k) (queue_sort cmp xs) = filter (cmp_same cmp k) xs"
proof -
  have "filter (cmp_same cmp k) (queue_sort cmp xs) = filter (cmp_same cmp k) xs"
    if "preorder_cmp cmp (insert k (set xs))" for xs
    using that
  proof (induction xs rule: rev_induct)
    case (snoc q xs)
    have "preorder_cmp cmp (insert k (set xs))" using snoc.prems by (rule preorder_cmp_mono) auto
    then show ?case using snoc queue_insert_stable[of cmp k q "queue_sort cmp xs"]
      by (simp add: queue_sort_snoc insert_commute)
  qed simp
  then show "\<lbrakk> preorder_cmp cmp (set xs); k \<in> set xs \<rbrakk> \<Longrightarrow> ?thesis" by (simp add: insert_absorb)
qed

subsection \<open>The loops in memory compute them\<close>

lemma queue_nth_next:
  assumes "is_queue s h xs" "Suc k < length xs"
  shows "next s (xs ! k) = xs ! Suc k"
proof -
  have e: "xs = take k xs @ xs ! k # xs ! Suc k # drop (Suc (Suc k)) xs"
    using assms(2) by (metis Cons_nth_drop_Suc Suc_lessD append_take_drop_id)
  have "dseg s h (take k xs @ xs ! k # xs ! Suc k # drop (Suc (Suc k)) xs) h"
    using assms(1) unfolding is_queue_def e[symmetric] by simp
  then show ?thesis by simp
qed

lemma queue_nth_last:
  assumes "is_queue s h xs" "k < length xs"
  shows "xs ! k = ngx_queue_last s h \<longleftrightarrow> Suc k = length xs"
proof -
  have "ngx_queue_last s h = xs ! (length xs - 1)"
    using is_queue_last[OF assms(1)] assms(2) by (auto simp: last_conv_nth)
  moreover have "distinct xs" using assms(1) by (simp add: is_queue_def)
  ultimately show ?thesis using assms(2) by (auto simp: nth_eq_iff_index_eq)
qed

lemma middle_loop_eq:
  assumes "is_queue s h xs" "2 * i + 1 < length xs"
  shows "middle_loop s h (xs ! i) (xs ! (2 * i)) = Some (queue_middle xs)"
  using assms(2)
proof (induction "length xs - 2 * i" arbitrary: i rule: less_induct)
  case less
  have m: "next s (xs ! i) = xs ! Suc i" "next s (xs ! (2 * i)) = xs ! Suc (2 * i)"
    using less.prems by (auto intro!: queue_nth_next[OF assms(1)])
  show ?case
  proof (cases "Suc (Suc (2 * i)) = length xs")
    case True
    then have "xs ! Suc (2 * i) = ngx_queue_last s h" using queue_nth_last[OF assms(1), of "Suc (2 * i)"] by simp
    moreover have "length xs div 2 = Suc i" using True by simp
    ultimately show ?thesis by (subst middle_loop.simps) (simp add: m queue_middle_def)
  next
    case False
    then have n1: "xs ! Suc (2 * i) \<noteq> ngx_queue_last s h"
      using queue_nth_last[OF assms(1), of "Suc (2 * i)"] less.prems by simp
    have n2: "next s (xs ! Suc (2 * i)) = xs ! Suc (Suc (2 * i))"
      using False less.prems by (intro queue_nth_next[OF assms(1)]) simp
    show ?thesis
    proof (cases "Suc (Suc (Suc (2 * i))) = length xs")
      case True
      then have "xs ! Suc (Suc (2 * i)) = ngx_queue_last s h"
        using queue_nth_last[OF assms(1), of "Suc (Suc (2 * i))"] by simp
      moreover have "length xs div 2 = Suc i" using True by linarith
      ultimately show ?thesis using n1 n2 by (subst middle_loop.simps) (simp add: m queue_middle_def Let_def)
    next
      case F2: False
      then have "xs ! Suc (Suc (2 * i)) \<noteq> ngx_queue_last s h"
        using queue_nth_last[OF assms(1), of "Suc (Suc (2 * i))"] False less.prems by simp
      moreover have "middle_loop s h (xs ! Suc i) (xs ! (2 * Suc i)) = Some (queue_middle xs)"
        using less.hyps[of "Suc i"] less.prems False F2 by simp
      ultimately show ?thesis using n1 n2 by (subst middle_loop.simps) (simp add: m Let_def)
    qed
  qed
qed

lemma middle_queue:
  assumes "is_queue s h xs" "xs \<noteq> []"
  shows "ngx_queue_middle s h = Some (queue_middle xs)"
proof (cases "length xs = 1")
  case True
  then obtain x where "xs = [x]" by (cases xs) auto
  then show ?thesis using is_queue_head[OF assms(1)] is_queue_last[OF assms(1)]
    by (simp add: ngx_queue_middle_def queue_middle_def)
next
  case False
  have h: "ngx_queue_head s h = xs ! 0" using is_queue_head[OF assms(1)] assms(2) by (simp add: hd_append hd_conv_nth)
  then have "ngx_queue_head s h \<noteq> ngx_queue_last s h"
    using queue_nth_last[OF assms(1), of 0] False assms(2) by simp
  moreover have "1 < length xs" using False assms(2) by (cases xs) auto
  ultimately show ?thesis using middle_loop_eq[OF assms(1), of 0] h by (simp add: ngx_queue_middle_def)
qed

lemma sort_back_eq:
  assumes "is_queue s h (xs @ ys)" "xs \<noteq> []"
  shows "sort_back cmp s h (last xs) q = Some (last (h # rev (dropWhile (\<lambda>p. 0 < cmp p q) (rev xs))))"
  using assms
proof (induction xs arbitrary: ys rule: rev_induct)
  case (snoc x xs)
  have p: "prev s x = last (h # xs)" "h \<notin> set xs"
    using snoc.prems(1) by (auto simp: is_queue_def dseg_prev)
  show ?case
  proof (cases "cmp x q \<le> 0")
    case True
    then show ?thesis by (subst sort_back.simps) simp
  next
    case False
    show ?thesis
    proof (cases "xs = []")
      case True
      then show ?thesis using False p by (subst sort_back.simps) (simp add: Let_def)
    next
      case ne: False
      then have "last xs \<noteq> h" using p(2) last_in_set[of xs] by auto
      then show ?thesis using False ne p snoc.IH[of "x # ys"] snoc.prems(1)
        by (subst sort_back.simps) (simp add: Let_def)
    qed
  qed
qed simp

lemma same_outside_mono: "\<lbrakk> same_outside A s t; A \<subseteq> B \<rbrakk> \<Longrightarrow> same_outside B s t"
  by (auto simp: same_outside_def)

lemma sort_loop_eq:
  assumes "is_queue s h (xs @ ys)" "xs \<noteq> []"
  shows "\<exists>t. sort_loop cmp s h (hd (ys @ [h])) = Some t
           \<and> is_queue t h (foldl (queue_insert cmp) xs ys) \<and> same_outside (set (h # xs @ ys)) s t"
  using assms
proof (induction ys arbitrary: s xs)
  case Nil
  then show ?case by (subst sort_loop.simps) simp
next
  case (Cons q ys)
  let ?A = "rev (dropWhile (\<lambda>p. 0 < cmp p q) (rev xs))" and ?B = "rev (takeWhile (\<lambda>p. 0 < cmp p q) (rev xs))"
  define r where "r = ngx_queue_remove q s"
  have q: "q \<noteq> h" "prev s q = last xs" "next s q = hd (ys @ [h])" "q \<notin> set (h # xs @ ys)"
    using Cons.prems by (auto simp: is_queue_def dseg_prev dseg_next)
  have R: "is_queue r h (xs @ ys)" "same_outside (set (h # xs @ ys)) s r"
    unfolding r_def using remove_queue[OF Cons.prems(1)] by auto
  have "rev (?A @ ?B) = rev xs" by simp
  then have AB: "xs = ?A @ ?B" by (metis rev_rev_ident)
  have "is_queue r h (?A @ (?B @ ys))" using R(1) AB by (metis append_assoc)
  moreover have "q \<notin> set (h # ?A @ (?B @ ys))" using q(4) AB by (metis append_assoc)
  ultimately have I: "is_queue (ngx_queue_insert_head (last (h # ?A)) q r) h (?A @ q # (?B @ ys))"
    "same_outside (set (h # q # ?A @ (?B @ ys))) r (ngx_queue_insert_head (last (h # ?A)) q r)"
    by (rule insert_after)+
  define u where "u = ngx_queue_insert_head (last (h # ?A)) q r"
  have S: "set (h # q # ?A @ (?B @ ys)) = set (h # xs @ q # ys)"
    using arg_cong[OF AB, of set] by auto
  have u: "is_queue u h (queue_insert cmp xs q @ ys)" "same_outside (set (h # xs @ q # ys)) s u"
  proof -
    show "is_queue u h (queue_insert cmp xs q @ ys)" using I(1) unfolding u_def queue_insert_def by simp
    have "same_outside (set (h # xs @ q # ys)) s r" using R(2) by (rule same_outside_mono) auto
    then show "same_outside (set (h # xs @ q # ys)) s u"
      using I(2) unfolding S u_def[symmetric] by (rule same_outside_trans)
  qed
  have ne: "queue_insert cmp xs q \<noteq> []" by (simp add: queue_insert_def)
  obtain t where t: "sort_loop cmp u h (hd (ys @ [h])) = Some t"
      "is_queue t h (foldl (queue_insert cmp) (queue_insert cmp xs q) ys)"
      "same_outside (set (h # queue_insert cmp xs q @ ys)) u t"
    using Cons.IH[OF u(1) ne] by blast
  have bk: "sort_back cmp r h (last xs) q = Some (last (h # ?A))"
    by (rule sort_back_eq[OF R(1) Cons.prems(2)])
  have step: "sort_loop cmp s h q = sort_loop cmp u h (hd (ys @ [h]))"
    using q(1-3) bk by (subst sort_loop.simps) (simp only: Let_def r_def[symmetric] u_def if_False option.case)
  have "same_outside (set (h # xs @ q # ys)) u t" using t(3) by (rule same_outside_mono) auto
  then have "same_outside (set (h # xs @ q # ys)) s t" using u(2) same_outside_trans by blast
  then show ?case using t(1,2) step by simp
qed

lemma sort_queue:
  assumes "is_queue s h xs" "xs \<noteq> []"
  shows "\<exists>t. ngx_queue_sort cmp s h = Some t \<and> is_queue t h (queue_sort cmp xs) \<and> same_outside (set (h # xs)) s t"
proof -
  obtain x ys where xs: "xs = x # ys" using assms(2) by (cases xs) auto
  have one: "queue_insert cmp [] x = [x]" by (simp add: queue_insert_def)
  show ?thesis
  proof (cases "ys = []")
    case True
    then show ?thesis using assms(1) is_queue_head[OF assms(1)] is_queue_last[OF assms(1)]
      by (simp add: ngx_queue_sort_def queue_sort_def xs one)
  next
    case False
    have h: "ngx_queue_head s h = x" "next s x = hd (ys @ [h])"
      using is_queue_head[OF assms(1)] assms(1) by (auto simp: xs is_queue_def dseg_next)
    have "x \<noteq> ngx_queue_last s h"
      using is_queue_last[OF assms(1)] assms(1) False by (auto simp: xs is_queue_def)
    then show ?thesis
      using sort_loop_eq[of s h "[x]" ys cmp] assms(1) h by (simp add: ngx_queue_sort_def queue_sort_def xs one)
  qed
qed

subsection \<open>What the queue promises\<close>

text \<open>
  Property C21 (refinement).  The pointer operations of \<^verbatim>\<open>core/ngx_queue.h\<close> are the list operations
  that the rest of the program takes them for.  In any memory that holds a queue, which may be empty, and for an element \<open>x\<close> that is not in it: making \<open>x\<close> an
  empty queue, inserting \<open>x\<close> at the head, at the tail and after any element, removing any element, splitting at any element with
  \<open>x\<close> as the new head, appending another queue that is not empty, and taking the middle of a queue that is not empty, yield the queues of the
  corresponding lists, and each leaves every node but \<open>x\<close> and those of the queues it works on as it was; a removal leaves the removed node, too.
\<close>

theorem ngx_queue_refines:
  assumes "is_queue s h xs" and "x \<notin> set (h # xs)"
  shows "is_queue (ngx_queue_init x s) x [] \<and> same_outside {x} s (ngx_queue_init x s)
       \<and> is_queue (ngx_queue_insert_head h x s) h (x # xs) \<and> same_outside (set (h # x # xs)) s (ngx_queue_insert_head h x s)
       \<and> is_queue (ngx_queue_insert_tail h x s) h (xs @ [x]) \<and> same_outside (set (h # x # xs)) s (ngx_queue_insert_tail h x s)
       \<and> (\<forall>us q vs. xs = us @ q # vs \<longrightarrow>
            is_queue (ngx_queue_insert_head q x s) h (us @ q # x # vs) \<and> same_outside (set (h # x # xs)) s (ngx_queue_insert_head q x s)
          \<and> is_queue (ngx_queue_remove q s) h (us @ vs) \<and> same_outside (set (h # us @ vs)) s (ngx_queue_remove q s)
          \<and> is_queue (ngx_queue_split h q x s) h us \<and> is_queue (ngx_queue_split h q x s) x (q # vs)
          \<and> same_outside (set (h # x # xs)) s (ngx_queue_split h q x s))
       \<and> (\<forall>n zs. is_queue s n zs \<and> zs \<noteq> [] \<and> set (n # zs) \<inter> set (h # xs) = {} \<longrightarrow>
            is_queue (ngx_queue_add h n s) h (xs @ zs) \<and> same_outside (set (h # xs @ zs)) s (ngx_queue_add h n s))
       \<and> (xs \<noteq> [] \<longrightarrow> ngx_queue_middle s h = Some (queue_middle xs))"
proof (intro conjI allI impI; (elim conjE)?)
  show "is_queue (ngx_queue_init x s) x []" "same_outside {x} s (ngx_queue_init x s)" using init_queue by blast+
  show "is_queue (ngx_queue_insert_head h x s) h (x # xs)" "same_outside (set (h # x # xs)) s (ngx_queue_insert_head h x s)"
    using insert_after[of s h "[]" xs x] assms by simp_all
  show "is_queue (ngx_queue_insert_tail h x s) h (xs @ [x])" "same_outside (set (h # x # xs)) s (ngx_queue_insert_tail h x s)"
    using insert_tail[OF assms] insert_tail_outside[OF assms(1)] by simp_all
  show "ngx_queue_middle s h = Some (queue_middle xs)" if "xs \<noteq> []" by (rule middle_queue[OF assms(1) that])
next
  fix us q vs
  assume xs: "xs = us @ q # vs"
  show "is_queue (ngx_queue_insert_head q x s) h (us @ q # x # vs)" "same_outside (set (h # x # xs)) s (ngx_queue_insert_head q x s)"
    using insert_after[of s h "us @ [q]" vs x] assms xs by simp_all
  show "is_queue (ngx_queue_remove q s) h (us @ vs)" "same_outside (set (h # us @ vs)) s (ngx_queue_remove q s)"
    using remove_queue[of s h us q vs] assms(1) xs by simp_all
  show "is_queue (ngx_queue_split h q x s) h us" "is_queue (ngx_queue_split h q x s) x (q # vs)"
    "same_outside (set (h # x # xs)) s (ngx_queue_split h q x s)"
    using split_queue[of s h us q vs x] assms xs by simp_all
next
  fix n zs
  assume z: "is_queue s n zs" "zs \<noteq> []" "set (n # zs) \<inter> set (h # xs) = {}"
  have "set (h # xs) \<inter> set (n # zs) = {}" using z(3) by blast
  from add_queue[OF assms(1) z(1,2) this]
  show "is_queue (ngx_queue_add h n s) h (xs @ zs)" "same_outside (set (h # xs @ zs)) s (ngx_queue_add h n s)" by blast+
qed

text \<open>A memory with the queue 1, 2, 3 at 0 and the queue 6 at 5.\<close>

definition two_queues :: qmem where
  "two_queues = \<lparr>prev = id(0 := 3, 1 := 0, 2 := 1, 3 := 2, 5 := 6, 6 := 5),
                 next = id(0 := 1, 1 := 2, 2 := 3, 3 := 0, 5 := 6, 6 := 5)\<rparr>"

lemma two_queues_are: "is_queue two_queues 0 ([1] @ 2 # [3])" "is_queue two_queues 5 [6]"
  by (simp_all add: is_queue_def two_queues_def)

lemma ngx_queue_refines_witness:
  "is_queue (ngx_queue_remove 2 two_queues) 0 [1, 3] \<and> is_queue (ngx_queue_add 0 5 two_queues) 0 [1, 2, 3, 6]"
proof -
  have "9 \<notin> set (0 # [1] @ 2 # [3 :: addr])" by simp
  note r = ngx_queue_refines[OF two_queues_are(1) this]
  have "is_queue (ngx_queue_remove 2 two_queues) 0 ([1] @ [3])" using r by blast
  moreover have "is_queue (ngx_queue_add 0 5 two_queues) 0 (([1] @ 2 # [3]) @ [6])"
    using r two_queues_are(2) by (elim conjE allE[of _ 5] allE[of _ "[6]"]) simp
  ultimately show ?thesis by simp
qed

text \<open>
  Property C22 (functional).  \<^verbatim>\<open>ngx_queue_sort\<close> terminates on every queue and sorts it in place: with
  a comparison that is a total preorder on the elements, the queue afterwards holds the same elements,
  in ascending order, equal ones in the order they had, and no other node has been touched.
\<close>

theorem ngx_queue_sort_sorts:
  assumes "is_queue s h xs" and "preorder_cmp cmp (set xs)"
  shows "\<exists>t ys. ngx_queue_sort cmp s h = Some t \<and> is_queue t h ys \<and> same_outside (set (h # xs)) s t
           \<and> mset ys = mset xs \<and> sorted_wrt (\<lambda>a b. cmp a b \<le> 0) ys
           \<and> (\<forall>k\<in>set xs. filter (cmp_same cmp k) ys = filter (cmp_same cmp k) xs)"
proof (cases "xs = []")
  case True
  then have "ngx_queue_sort cmp s h = Some s"
    using is_queue_head[OF assms(1)] is_queue_last[OF assms(1)] by (simp add: ngx_queue_sort_def)
  then show ?thesis using assms True by (intro exI[of _ s] exI[of _ "[]"]) simp
next
  case False
  then show ?thesis
    using sort_queue[OF assms(1)] queue_sort_sorted[OF assms(2)] queue_sort_stable[OF assms(2)] queue_sort_mset
    by blast
qed

lemma ngx_queue_sort_sorts_witness:
  "\<exists>t. ngx_queue_sort (\<lambda>a b. int b - int a) two_queues 0 = Some t \<and> is_queue t 0 [3, 2, 1]"
proof -
  have "preorder_cmp (\<lambda>a b. int b - int a) (set ([1] @ 2 # [3]))" by (simp add: preorder_cmp_def)
  from ngx_queue_sort_sorts[OF two_queues_are(1) this] obtain t ys where
    t: "ngx_queue_sort (\<lambda>a b. int b - int a) two_queues 0 = Some t" "is_queue t 0 ys"
    and ys: "mset ys = mset [1, 2, 3]" "sorted_wrt (\<lambda>a b. int b - int a \<le> 0) ys" by auto
  have "sorted_wrt (\<lambda>a b. b \<le> a) ys" using ys(2) by (rule sorted_wrt_mono_rel[rotated]) simp
  then have "sorted (rev ys)" by (simp add: sorted_wrt_rev)
  moreover have "sorted [1, 2, 3 :: nat]" "mset (rev ys) = mset [1, 2, 3 :: nat]" using ys(1) by simp_all
  ultimately have "rev ys = [1, 2, 3]" by (metis properties_for_sort sorted_sort_id)
  then have "ys = [3, 2, 1]" by (metis rev.simps rev_rev_ident append.simps)
  then show ?thesis using t by blast
qed

end
