(* ===== verification/Ngx_Http_Locations.thy ===== *)
theory Ngx_Http_Locations
  imports Ngx_String Ngx_Queue
begin

text \<open>
  The locations of a server: how \<^verbatim>\<open>http/ngx_http.c\<close> sorts the location blocks of a configuration
  and builds the search tree of the static ones, and how \<^verbatim>\<open>http/ngx_http_core_module.c\<close> finds the
  location of a URI in it.  A queue is the list of its elements (\<open>Ngx_Queue\<close> shows that the pointer
  operations do what the list operations do).
\<close>

subsection \<open>Data\<close>

text \<open>
  A node of the tree; \<^term>\<open>Null\<close> is the null pointer.  The pointers \<^verbatim>\<open>exact\<close> and \<^verbatim>\<open>inclusive\<close> lead
  to location blocks.
\<close>

datatype 'c ltree =
    Null
  | Node (tleft: "'c ltree") (tright: "'c ltree") (tinner: "'c ltree")
      (texact: "'c option") (tinclusive: "'c option") (tauto: bool) (tlen: u_char) (tname: bytes)

text \<open>
  The fields of \<^verbatim>\<open>ngx_http_core_loc_conf_t\<close> that take part.  A regular expression is a number that
  stands for its compiled form.
\<close>

datatype loc_conf =
  Loc_conf (loc_name: bytes) (regex: "nat option") (noname: bool) (named: bool) (exact_match: bool)
    (noregex: bool) (auto_redirect: bool) (locations: "loc_conf list")
    (regex_locations: "loc_conf list") (static_locations: "loc_conf ltree")

text \<open>An element of a queue of locations, \<^verbatim>\<open>ngx_http_location_queue_t\<close>.\<close>

datatype 'c lqueue =
  Lq (lq_name: bytes) (lq_exact: "'c option") (lq_inclusive: "'c option") (lq_list: "'c lqueue list")

definition set_lq_list :: "'c lqueue list \<Rightarrow> 'c lqueue \<Rightarrow> 'c lqueue" where
  "set_lq_list l q = Lq (lq_name q) (lq_exact q) (lq_inclusive q) l"

text \<open>The element that \<^verbatim>\<open>ngx_http_add_location\<close> puts at the tail of the queue for a block.\<close>

definition ngx_http_add_location :: "loc_conf lqueue list \<Rightarrow> loc_conf \<Rightarrow> loc_conf lqueue list" where
  "ngx_http_add_location locs clcf =
     locs @ [if exact_match clcf \<or> regex clcf \<noteq> None \<or> named clcf \<or> noname clcf
             then Lq (loc_name clcf) (Some clcf) None []
             else Lq (loc_name clcf) None (Some clcf) []]"

definition lq_conf :: "'c lqueue \<Rightarrow> 'c" where
  "lq_conf q = (case lq_exact q of Some c \<Rightarrow> c | None \<Rightarrow> the (lq_inclusive q))"

subsection \<open>Sorting\<close>

text \<open>The comparison of the code; the inputs it gets never make it read past a name (see
  \<open>names_compare\<close>).\<close>

definition filename_cmp :: "bytes \<Rightarrow> bytes \<Rightarrow> nat \<Rightarrow> int" where
  "filename_cmp a b n = (case ngx_filename_cmp a b n of Some r \<Rightarrow> r | None \<Rightarrow> 0)"

fun c_strcmp :: "bytes \<Rightarrow> bytes \<Rightarrow> int" where
  "c_strcmp [] [] = 0"
| "c_strcmp [] (b # bs) = - 1"
| "c_strcmp (a # as) [] = 1"
| "c_strcmp (a # as) (b # bs) = (if a = b then c_strcmp as bs else uint a - uint b)"

definition ngx_http_cmp_locations :: "loc_conf lqueue \<Rightarrow> loc_conf lqueue \<Rightarrow> int" where
  "ngx_http_cmp_locations one two =
     (let first = lq_conf one; second = lq_conf two in
      if noname first \<and> \<not> noname second then 1
      else if \<not> noname first \<and> noname second then -1
      else if noname first \<or> noname second then 0
      else if named first \<and> \<not> named second then 1
      else if \<not> named first \<and> named second then -1
      else if named first \<and> named second then c_strcmp (loc_name first) (loc_name second)
      else if regex first \<noteq> None \<and> regex second = None then 1
      else if regex first = None \<and> regex second \<noteq> None then -1
      else if regex first \<noteq> None \<or> regex second \<noteq> None then 0
      else
        let rc = filename_cmp (loc_name first @ [0]) (loc_name second @ [0])
                   (min (length (loc_name first)) (length (loc_name second)) + 1)
        in if rc = 0 \<and> \<not> exact_match first \<and> exact_match second then 1 else rc)"

subsection \<open>From the sorted queue to the tree\<close>

text \<open>\<^term>\<open>None\<close> is \<^verbatim>\<open>NGX_ERROR\<close>: a duplicate location.\<close>

fun ngx_http_join_exact_locations :: "'c lqueue list \<Rightarrow> 'c lqueue list option" where
  "ngx_http_join_exact_locations [] = Some []"
| "ngx_http_join_exact_locations [q] = Some [q]"
| "ngx_http_join_exact_locations (q # x # locs) =
     (if length (lq_name q) = length (lq_name x)
         \<and> filename_cmp (lq_name q) (lq_name x) (length (lq_name x)) = 0 then
        if lq_exact q \<noteq> None \<and> lq_exact x \<noteq> None \<or> lq_inclusive q \<noteq> None \<and> lq_inclusive x \<noteq> None then None
        else ngx_http_join_exact_locations (Lq (lq_name q) (lq_exact q) (lq_inclusive x) (lq_list q) # locs)
      else map_option (Cons q) (ngx_http_join_exact_locations (x # locs)))"

definition in_location :: "'c lqueue \<Rightarrow> 'c lqueue \<Rightarrow> bool" where
  "in_location q x \<longleftrightarrow>
     \<not> (length (lq_name q) > length (lq_name x) \<or> filename_cmp (lq_name q) (lq_name x) (length (lq_name q)) \<noteq> 0)"

text \<open>
  The argument is the part of the queue from \<open>q\<close> on: the function never looks at what is before it.
  The elements that start with the name of an inclusive one move to its own queue.
\<close>

lemma lqueue_size_drop:
  "size_list size (dropWhile P xs) \<le> size_list size xs" for xs :: "'c lqueue list"
  by (induction xs) auto

lemma lqueue_size_take:
  "size_list size (takeWhile P xs) \<le> size_list size xs" for xs :: "'c lqueue list"
  by (induction xs) auto

lemma lqueue_size_list: "size_list size (lq_list q) < size q" for q :: "'c lqueue"
  by (cases q) simp

lemma size_list_append [simp]: "size_list f (xs @ ys) = size_list f xs + size_list f ys"
  by (induction xs) auto

function ngx_http_create_locations_list :: "'c lqueue list \<Rightarrow> 'c lqueue list" where
  "ngx_http_create_locations_list [] = []"
| "ngx_http_create_locations_list (q # locs) =
     (if locs = [] then [q]
      else if lq_inclusive q = None then q # ngx_http_create_locations_list locs
      else
        let inner = takeWhile (in_location q) locs; tail = dropWhile (in_location q) locs in
        if inner = [] then q # ngx_http_create_locations_list tail
        else if tail = [] then [set_lq_list (ngx_http_create_locations_list (lq_list q @ inner)) q]
        else set_lq_list (ngx_http_create_locations_list (lq_list q @ inner)) q
               # ngx_http_create_locations_list tail)"
  by pat_completeness auto

termination
proof (relation "measure (size_list size)", goal_cases)
  case (3 q locs x xa)
  then show ?case using lqueue_size_drop[of "in_location q" locs] by simp
next
  case (4 q locs x xa)
  then show ?case using lqueue_size_list[of q] lqueue_size_take[of "in_location q" locs] by simp
next
  case (5 q locs x xa)
  then show ?case using lqueue_size_list[of q] lqueue_size_take[of "in_location q" locs] by simp
next
  case (6 q locs x xa)
  then show ?case using lqueue_size_drop[of "in_location q" locs] by simp
qed auto

text \<open>
  Allocation is a parameter: whether the node of an element is allocated.  \<^term>\<open>None\<close> is the null
  pointer that the code returns when a node is not.
\<close>

definition lq_auto_redirect :: "loc_conf lqueue \<Rightarrow> bool" where
  "lq_auto_redirect q \<longleftrightarrow>
     (case lq_exact q of None \<Rightarrow> False | Some c \<Rightarrow> auto_redirect c)
     \<or> (case lq_inclusive q of None \<Rightarrow> False | Some c \<Rightarrow> auto_redirect c)"

lemma size_list_take: "size_list size (take n xs) \<le> size_list size xs" for xs :: "'c lqueue list"
  by (induction xs arbitrary: n) (auto simp: take_Cons split: nat.splits intro: le_SucI add_le_mono)

lemma size_list_drop: "size_list size (drop n xs) \<le> size_list size xs" for xs :: "'c lqueue list"
  by (induction xs arbitrary: n) (auto simp: drop_Cons split: nat.splits intro: le_SucI trans_le_add2)

lemma split_middle:
  "xs \<noteq> [] \<Longrightarrow> xs = take (length xs div 2) xs @ queue_middle xs # drop (Suc (length xs div 2)) xs"
  unfolding queue_middle_def by (rule id_take_nth_drop) simp

lemma size_list_middle:
  fixes xs :: "'c lqueue list"
  assumes "xs \<noteq> []"
  shows "size_list size (take (length xs div 2) xs) + size (queue_middle xs)
           + size_list size (drop (Suc (length xs div 2)) xs) < size_list size xs"
proof -
  have "size_list size xs = size_list size (take (length xs div 2) xs @ queue_middle xs # drop (Suc (length xs div 2)) xs)"
    using split_middle[OF assms] by simp
  then show ?thesis by simp
qed

function ngx_http_create_locations_tree ::
    "(bytes \<Rightarrow> bool) \<Rightarrow> loc_conf lqueue list \<Rightarrow> nat \<Rightarrow> loc_conf ltree option" where
  "ngx_http_create_locations_tree alloc locs pre =
     (if locs = [] then None
      else
        let lq = queue_middle locs; len = length (lq_name lq) - pre;
            left = take (length locs div 2) locs; tail = drop (Suc (length locs div 2)) locs in
        if \<not> alloc (lq_name lq) then None
        else
          case (if left = [] then Some Null else ngx_http_create_locations_tree alloc left pre) of
            None \<Rightarrow> None
          | Some l \<Rightarrow>
          case (if left = [] \<or> tail = [] then Some Null else ngx_http_create_locations_tree alloc tail pre) of
            None \<Rightarrow> None
          | Some r \<Rightarrow>
          case (if lq_list lq = [] then Some Null
                else ngx_http_create_locations_tree alloc (lq_list lq) (pre + len)) of
            None \<Rightarrow> None
          | Some t \<Rightarrow>
              Some (Node l r t (lq_exact lq) (lq_inclusive lq) (lq_auto_redirect lq)
                 (of_nat len) (take len (drop pre (lq_name lq)))))"
  by pat_completeness auto

termination
proof (relation "measure (\<lambda>(alloc, locs, pre). size_list size locs)", goal_cases)
  case 1
  show ?case by simp
next
  case (2 alloc locs pre x xa xb xc)
  then show ?case using size_list_middle[of locs] by simp
next
  case (3 alloc locs pre x xa xb xc)
  then show ?case using size_list_middle[of locs] by simp
next
  case (4 alloc locs pre x xa xb xc)
  then show ?case using size_list_middle[of locs] lqueue_size_list[of "queue_middle locs"] by simp
qed

subsection \<open>The search\<close>

text \<open>
  The loop of \<^verbatim>\<open>ngx_http_core_find_static_location\<close>: the rest of the URI, the answer so far, and the
  location the request is in.  (A node has an exact or an inclusive block; the values for one that has
  neither, where the code would follow a null pointer, are never used.)
\<close>

fun ngx_http_core_find_static_location :: "'c ltree \<Rightarrow> bytes \<Rightarrow> int \<Rightarrow> 'c \<Rightarrow> int \<times> 'c" where
  "ngx_http_core_find_static_location Null uri rv conf = (rv, conf)"
| "ngx_http_core_find_static_location (Node left right tree exact inclusive auto_redir node_len name) uri rv conf =
     (let len = length uri;
          n = (if len \<le> unat node_len then len else unat node_len);
          rc = filename_cmp uri name n in
      if rc \<noteq> 0 then
        if rc < 0 then ngx_http_core_find_static_location left uri rv conf
        else ngx_http_core_find_static_location right uri rv conf
      else if len > unat node_len then
        case inclusive of
          Some c \<Rightarrow> ngx_http_core_find_static_location tree (drop n uri) NGX_AGAIN c
        | None \<Rightarrow> ngx_http_core_find_static_location right uri rv conf
      else if len = unat node_len then
        case exact of
          Some c \<Rightarrow> (NGX_OK, c)
        | None \<Rightarrow> (case inclusive of Some c \<Rightarrow> (NGX_AGAIN, c) | None \<Rightarrow> (NGX_ERROR, conf))
      else if len + 1 = unat node_len \<and> auto_redir then
        ngx_http_core_find_static_location left uri NGX_DONE
          (case exact of Some c \<Rightarrow> c | None \<Rightarrow> case inclusive of Some c \<Rightarrow> c | None \<Rightarrow> conf)
      else ngx_http_core_find_static_location left uri rv conf)"

subsection \<open>The order of the names\<close>

text \<open>The slash is the lowest character, and the end of a name is lower.\<close>

definition char_key :: "u_char \<Rightarrow> nat" where
  "char_key c = (if c = ch CHR ''/'' then 0 else unat c)"

fun name_less :: "bytes \<Rightarrow> bytes \<Rightarrow> bool" where
  "name_less a [] = False"
| "name_less [] (b # bs) = True"
| "name_less (a # as) (b # bs) = (char_key a < char_key b \<or> a = b \<and> name_less as bs)"

definition no_nul :: "bytes \<Rightarrow> bool" where
  "no_nul s \<longleftrightarrow> 0 \<notin> set s"

lemma no_nul_simps [simp]:
  "no_nul []" "no_nul (a # s) \<longleftrightarrow> a \<noteq> 0 \<and> no_nul s" "no_nul (s @ t) \<longleftrightarrow> no_nul s \<and> no_nul t"
  by (auto simp: no_nul_def)

lemma char_key_eq: "\<lbrakk> a \<noteq> 0; b \<noteq> 0 \<rbrakk> \<Longrightarrow> char_key a = char_key b \<longleftrightarrow> a = b"
  using unat_0_iff[of a] unat_0_iff[of b] word_unat_eq_iff[of a b] unfolding char_key_def by (metis)

lemma name_less_irrefl [simp]: "\<not> name_less a a"
  by (induction a) auto

lemma name_less_trans: "\<lbrakk> name_less a b; name_less b c \<rbrakk> \<Longrightarrow> name_less a c"
proof (induction a b arbitrary: c rule: name_less.induct)
  case (3 a as b bs)
  then show ?case by (cases c) auto
qed (metis name_less.elims(2) name_less.simps)+

lemma name_less_total: "\<lbrakk> no_nul a; no_nul b \<rbrakk> \<Longrightarrow> name_less a b \<or> a = b \<or> name_less b a"
proof (induction a b rule: name_less.induct)
  case (1 a)
  then show ?case by (cases a) auto
next
  case (3 a as b bs)
  then show ?case using char_key_eq[of a b] by (auto simp: linorder_neq_iff)
qed auto

lemma name_less_asym: "name_less a b \<Longrightarrow> \<not> name_less b a"
  using name_less_trans[of a b a] by auto

lemma name_less_append [simp]: "name_less (p @ a) (p @ b) = name_less a b"
  by (induction p) auto

lemma name_less_ext: "x \<noteq> [] \<Longrightarrow> name_less a (a @ x)"
  by (induction a) (auto simp: neq_Nil_conv)

lemma name_less_ext_iff [simp]: "name_less a (a @ x) \<longleftrightarrow> x \<noteq> []"
  using name_less_ext[of x a] by auto

lemma name_not_less_ext [simp]: "\<not> name_less (a @ x) a"
  by (induction a) auto

text \<open>Two names that differ before one of them ends compare the same whatever follows.\<close>

definition apart :: "bytes \<Rightarrow> bytes \<Rightarrow> bool" where
  "apart a b \<longleftrightarrow> (\<forall>x y. name_less (a @ x) (b @ y))"

lemma apart_less: "apart a b \<Longrightarrow> name_less (a @ x) (b @ y)"
  by (simp add: apart_def)

lemma apart_Cons: "apart (a # as) (b # bs) \<longleftrightarrow> char_key a < char_key b \<or> a = b \<and> apart as bs"
  by (auto simp: apart_def)

lemma less_apart:
  "name_less a b \<Longrightarrow> apart a b \<or> (\<exists>x. b = a @ x)"
proof (induction a b rule: name_less.induct)
  case (3 a as b bs)
  then show ?case by (auto simp: apart_Cons)
qed auto

lemma apart_append [simp]: "apart (p @ a) (p @ b) = apart a b"
  by (induction p) (auto simp: apart_Cons)

text \<open>What the comparison of the code returns on names without a NUL.\<close>

lemma uint_key: "uint (if a = ch CHR ''/'' then 0 else a) = int (char_key a)"
proof (cases "a = ch CHR ''/''")
  case False
  show ?thesis unfolding char_key_def if_not_P[OF False] by (rule uint_nat)
qed (simp add: char_key_def)

lemma uint_pos: "c \<noteq> 0 \<Longrightarrow> 0 < uint c" for c :: u_char
  using uint_ge_0[of c] uint_0_iff[of c] by linarith

lemma filename_cmp_step:
  assumes "a \<noteq> b" "a \<noteq> 0" "b \<noteq> 0"
  shows "ngx_filename_cmp (a # s) (b # t) (Suc n) = Some (int (char_key a) - int (char_key b))"
  using assms by (simp add: Let_def flip: uint_key)

text \<open>Within the length of both: equal, or apart.\<close>

lemma filename_cmp_within:
  assumes "n \<le> length a" "n \<le> length b" "no_nul a" "no_nul b"
  shows "ngx_filename_cmp a b n = Some (filename_cmp a b n)"
    and "filename_cmp a b n = 0 \<longleftrightarrow> take n a = take n b"
    and "filename_cmp a b n < 0 \<longleftrightarrow> apart (take n a) (take n b)"
    and "filename_cmp a b n > 0 \<longleftrightarrow> apart (take n b) (take n a)"
proof -
  have "\<exists>r. ngx_filename_cmp a b n = Some r \<and> (r = 0 \<longleftrightarrow> take n a = take n b)
      \<and> (r < 0 \<longleftrightarrow> apart (take n a) (take n b)) \<and> (r > 0 \<longleftrightarrow> apart (take n b) (take n a))"
    using assms
  proof (induction a b n rule: ngx_filename_cmp.induct)
    case (1 a b)
    have "\<not> apart [] []" using apart_less[of "[]" "[]" "[]" "[]"] by auto
    then show ?case by simp
  next
    case (2 c1 s1 c2 s2 n)
    show ?case
    proof (cases "c1 = c2")
      case True
      then show ?thesis using 2 by (simp add: apart_Cons)
    next
      case False
      have nz: "c1 \<noteq> 0" "c2 \<noteq> 0" using 2 by auto
      have k: "char_key c1 \<noteq> char_key c2" using char_key_eq[OF nz] False by simp
      show ?thesis unfolding filename_cmp_step[OF False nz] using False k by (auto simp: apart_Cons)
    qed
  qed auto
  then show "ngx_filename_cmp a b n = Some (filename_cmp a b n)"
    "filename_cmp a b n = 0 \<longleftrightarrow> take n a = take n b"
    "filename_cmp a b n < 0 \<longleftrightarrow> apart (take n a) (take n b)"
    "filename_cmp a b n > 0 \<longleftrightarrow> apart (take n b) (take n a)"
    unfolding filename_cmp_def by auto
qed

text \<open>Up to one byte more than the shorter, with the terminating NUL: the order of the names.\<close>

lemma names_compare:
  assumes "no_nul a" "no_nul b"
  defines "n \<equiv> min (length a) (length b) + 1"
  shows "ngx_filename_cmp (a @ [0]) (b @ [0]) n = Some (filename_cmp (a @ [0]) (b @ [0]) n)"
    and "filename_cmp (a @ [0]) (b @ [0]) n = 0 \<longleftrightarrow> a = b"
    and "filename_cmp (a @ [0]) (b @ [0]) n < 0 \<longleftrightarrow> name_less a b"
    and "filename_cmp (a @ [0]) (b @ [0]) n > 0 \<longleftrightarrow> name_less b a"
proof -
  have "\<exists>r. ngx_filename_cmp (a @ [0]) (b @ [0]) (min (length a) (length b) + 1) = Some r
      \<and> (r = 0 \<longleftrightarrow> a = b) \<and> (r < 0 \<longleftrightarrow> name_less a b) \<and> (r > 0 \<longleftrightarrow> name_less b a)"
    using assms(1,2)
  proof (induction a arbitrary: b)
    case Nil
    show ?case using Nil by (cases b) (auto dest: uint_pos)
  next
    case (Cons c a)
    have pos: "uint c > 0" using Cons.prems by (simp add: uint_pos)
    show ?case
    proof (cases b)
      case Nil
      then show ?thesis using Cons.prems pos by simp
    next
      case (Cons d b')
      show ?thesis
      proof (cases "c = d")
        case True
        then show ?thesis using Cons.IH[of b'] Cons Cons.prems by simp
      next
        case False
        have nz: "c \<noteq> 0" "d \<noteq> 0" using Cons Cons.prems by auto
        have k: "char_key c \<noteq> char_key d" using char_key_eq[OF nz] False by simp
        have "min (length (c # a)) (length b) + 1 = Suc (min (length a) (length b') + 1)" using Cons by simp
        then show ?thesis unfolding Cons append_Cons using filename_cmp_step[OF False nz] False k by auto
      qed
    qed
  qed
  then show "ngx_filename_cmp (a @ [0]) (b @ [0]) n = Some (filename_cmp (a @ [0]) (b @ [0]) n)"
    "filename_cmp (a @ [0]) (b @ [0]) n = 0 \<longleftrightarrow> a = b"
    "filename_cmp (a @ [0]) (b @ [0]) n < 0 \<longleftrightarrow> name_less a b"
    "filename_cmp (a @ [0]) (b @ [0]) n > 0 \<longleftrightarrow> name_less b a"
    unfolding filename_cmp_def n_def by auto
qed

end
