(* ===== verification/Ngx_Http_Location_Tree.thy ===== *)
theory Ngx_Http_Location_Tree
  imports Ngx_Http_Locations "HOL-Library.Sublist"
begin

text \<open>
  The search tree of the static locations (\<^verbatim>\<open>http/ngx_http.c\<close>, \<^verbatim>\<open>http/ngx_http_core_module.c\<close>): nesting
  keeps every element and its order, each level of the tree is a search tree of names none of which
  extends another, and the search in the tree is the one in the sorted list of names.
\<close>

subsection \<open>The nested queues\<close>

text \<open>The elements of nested queues in order, each without its own queue.\<close>

fun flat :: "'c lqueue list \<Rightarrow> 'c lqueue list" where
  "flat [] = []"
| "flat (Lq n e i l # locs) = Lq n e i [] # flat l @ flat locs"

lemma flat_append [simp]: "flat (xs @ ys) = flat xs @ flat ys"
  by (induction xs rule: flat.induct) auto

lemma flat_Cons: "flat (q # locs) = set_lq_list [] q # flat (lq_list q) @ flat locs"
  by (cases q) (simp add: set_lq_list_def)

lemma flat_Nil_iff [simp]: "flat xs = [] \<longleftrightarrow> xs = []"
  by (cases xs) (auto simp: flat_Cons)

lemma set_lq_list_simps [simp]:
  "lq_name (set_lq_list l q) = lq_name q" "lq_exact (set_lq_list l q) = lq_exact q"
  "lq_inclusive (set_lq_list l q) = lq_inclusive q" "lq_list (set_lq_list l q) = l"
  "set_lq_list k (set_lq_list l q) = set_lq_list k q"
  by (simp_all add: set_lq_list_def)

lemma lq_auto_redirect_list [simp]: "lq_auto_redirect (set_lq_list l q) = lq_auto_redirect q"
  by (simp add: lq_auto_redirect_def)

lemma set_lq_list_id: "lq_list q = l \<Longrightarrow> set_lq_list l q = q"
  by (cases q) (auto simp: set_lq_list_def)

definition plain :: "'c lqueue list \<Rightarrow> bool" where
  "plain locs \<longleftrightarrow> (\<forall>q\<in>set locs. lq_list q = [])"

lemma flat_plain: "plain locs \<Longrightarrow> flat locs = locs"
  by (induction locs) (auto simp: flat_Cons plain_def set_lq_list_id)

text \<open>
  What the nesting keeps: an element has one of the two blocks; only an inclusive one has a queue, whose
  names extend its own; and no later name on its level or deeper there does.
\<close>

fun nested :: "'c lqueue list \<Rightarrow> bool" where
  "nested [] = True"
| "nested (Lq n e i l # locs) \<longleftrightarrow>
     (e \<noteq> None \<or> i \<noteq> None) \<and> (l \<noteq> [] \<longrightarrow> i \<noteq> None) \<and> (\<forall>f\<in>set (flat l). strict_prefix n (lq_name f))
     \<and> (i \<noteq> None \<longrightarrow> (\<forall>f\<in>set (flat locs). \<not> prefix n (lq_name f))) \<and> nested l \<and> nested locs"

lemma nested_Cons:
  "nested (q # locs) \<longleftrightarrow>
     (lq_exact q \<noteq> None \<or> lq_inclusive q \<noteq> None) \<and> (lq_list q \<noteq> [] \<longrightarrow> lq_inclusive q \<noteq> None)
     \<and> (\<forall>f\<in>set (flat (lq_list q)). strict_prefix (lq_name q) (lq_name f))
     \<and> (lq_inclusive q \<noteq> None \<longrightarrow> (\<forall>f\<in>set (flat locs). \<not> prefix (lq_name q) (lq_name f)))
     \<and> nested (lq_list q) \<and> nested locs"
  by (cases q) simp

definition sorted_names :: "'c lqueue list \<Rightarrow> bool" where
  "sorted_names locs \<longleftrightarrow> sorted_wrt name_less (map lq_name locs)"

lemma sorted_names_Cons:
  "sorted_names (q # locs) \<longleftrightarrow> (\<forall>f\<in>set locs. name_less (lq_name q) (lq_name f)) \<and> sorted_names locs"
  by (simp add: sorted_names_def)

lemma sorted_names_append:
  "sorted_names (xs @ ys) \<longleftrightarrow>
     sorted_names xs \<and> sorted_names ys \<and> (\<forall>x\<in>set xs. \<forall>y\<in>set ys. name_less (lq_name x) (lq_name y))"
  by (simp add: sorted_names_def sorted_wrt_append)

definition lq_ok :: "'c lqueue \<Rightarrow> bool" where
  "lq_ok q \<longleftrightarrow> no_nul (lq_name q) \<and> (lq_exact q \<noteq> None \<or> lq_inclusive q \<noteq> None)"

lemma in_location_prefix:
  assumes "no_nul (lq_name q)" "no_nul (lq_name x)"
  shows "in_location q x \<longleftrightarrow> prefix (lq_name q) (lq_name x)"
proof (cases "length (lq_name q) \<le> length (lq_name x)")
  case True
  then show ?thesis
    using filename_cmp_within(2)[of "length (lq_name q)" "lq_name q" "lq_name x"] assms
    by (simp add: in_location_def) (metis take_is_prefix append_eq_conv_conj prefix_def)
next
  case False
  then show ?thesis by (auto simp: in_location_def dest: prefix_length_le)
qed

text \<open>In a sorted queue the names that extend the first one come directly after it.\<close>

lemma extensions_first:
  assumes "sorted_names (q # locs)" "\<forall>f\<in>set (q # locs). no_nul (lq_name f)"
  shows "\<forall>f\<in>set (dropWhile (in_location q) locs). \<not> prefix (lq_name q) (lq_name f)"
proof
  fix f assume f: "f \<in> set (dropWhile (in_location q) locs)"
  then obtain x rest where d: "dropWhile (in_location q) locs = x # rest" "\<not> in_location q x"
    by (cases "dropWhile (in_location q) locs") (auto simp: dropWhile_eq_Cons_conv)
  have sub: "set (x # rest) \<subseteq> set locs" using d(1) by (metis set_dropWhileD subsetI)
  have np: "\<not> prefix (lq_name q) (lq_name x)" using d(2) in_location_prefix[of q x] assms(2) sub by auto
  have "name_less (lq_name q) (lq_name x)" using assms(1) sub by (auto simp: sorted_names_Cons)
  then have ap: "apart (lq_name q) (lq_name x)" using less_apart np by (auto simp: prefix_def)
  have s: "sorted_names (x # rest)"
  proof -
    have "sorted_names (takeWhile (in_location q) locs @ x # rest)"
      using assms(1) d(1) by (metis sorted_names_Cons takeWhile_dropWhile_id)
    then show ?thesis by (simp add: sorted_names_append)
  qed
  have "f = x \<or> name_less (lq_name x) (lq_name f)" using f s unfolding d(1) by (auto simp: sorted_names_Cons)
  then show "\<not> prefix (lq_name q) (lq_name f)"
  proof
    assume less: "name_less (lq_name x) (lq_name f)"
    show ?thesis
    proof
      assume "prefix (lq_name q) (lq_name f)"
      then obtain t where "lq_name f = lq_name q @ t" by (auto simp: prefix_def)
      then have "name_less (lq_name f) (lq_name x)" using apart_less[OF ap, of t "[]"] by simp
      then show False using less name_less_asym by blast
    qed
  qed (use np in simp)
qed

lemma create_list_correct:
  assumes "sorted_names locs" "\<forall>q\<in>set locs. lq_ok q" "plain locs"
  shows "flat (ngx_http_create_locations_list locs) = locs \<and> nested (ngx_http_create_locations_list locs)"
  using assms
proof (induction locs rule: ngx_http_create_locations_list.induct)
  case 1
  then show ?case by simp
next
  case (2 q locs)
  let ?inner = "takeWhile (in_location q) locs" and ?tail = "dropWhile (in_location q) locs"
  note [simp del] = ngx_http_create_locations_list.simps(2)
  have q: "lq_list q = []" "lq_ok q" "no_nul (lq_name q)" using 2 by (auto simp: plain_def lq_ok_def)
  have rest: "sorted_names locs" "\<forall>f\<in>set locs. lq_ok f" "plain locs"
    using 2 by (auto simp: sorted_names_Cons plain_def)
  have split: "?inner @ ?tail = locs" by simp
  have inn: "sorted_names ?inner" "\<forall>f\<in>set ?inner. lq_ok f" "plain ?inner"
    and tl: "sorted_names ?tail" "\<forall>f\<in>set ?tail. lq_ok f" "plain ?tail"
    using rest split sorted_names_append[of ?inner ?tail]
    by (auto simp: plain_def dest: set_takeWhileD set_dropWhileD)
  have flat_locs: "flat locs = locs" by (rule flat_plain[OF rest(3)])
  have ok: "lq_exact q \<noteq> None \<or> lq_inclusive q \<noteq> None" using q(2) by (simp add: lq_ok_def)
  show ?case
  proof (cases "locs = [] \<or> lq_inclusive q = None")
    case True
    then show ?thesis
    proof (cases "locs = []")
      case True
      then show ?thesis using q ok
        by (simp add: ngx_http_create_locations_list.simps(2) flat_Cons nested_Cons set_lq_list_id)
    next
      case False
      have "lq_inclusive q = None" using True False by simp
      then show ?thesis using False 2(1)[OF False _ rest] q ok
        by (simp add: ngx_http_create_locations_list.simps(2) flat_Cons nested_Cons set_lq_list_id)
    qed
  next
    case False
    then have ne: "locs \<noteq> []" "lq_inclusive q \<noteq> None" by auto
    have ext: "\<forall>f\<in>set ?tail. \<not> prefix (lq_name q) (lq_name f)"
      by (rule extensions_first) (use 2 in \<open>auto simp: lq_ok_def\<close>)
    have inner_ext: "\<forall>f\<in>set ?inner. strict_prefix (lq_name q) (lq_name f)"
    proof
      fix f assume f: "f \<in> set ?inner"
      then have "in_location q f" "f \<in> set locs" by (auto dest: set_takeWhileD)
      then have "prefix (lq_name q) (lq_name f)" "name_less (lq_name q) (lq_name f)"
        using in_location_prefix[of q f] 2(6,7) by (auto simp: lq_ok_def sorted_names_Cons)
      then show "strict_prefix (lq_name q) (lq_name f)" by (auto simp: strict_prefix_def)
    qed
    show ?thesis
    proof (cases "?inner = []")
      case True
      have r: "ngx_http_create_locations_list (q # locs) = q # ngx_http_create_locations_list ?tail"
        using ne True by (auto simp: ngx_http_create_locations_list.simps(2) Let_def)
      have "?tail = locs" using True split by simp
      moreover have "flat (ngx_http_create_locations_list ?tail) = ?tail \<and> nested (ngx_http_create_locations_list ?tail)"
        using 2(2)[OF ne refl refl True tl] .
      ultimately show ?thesis unfolding r using q ok ext
        by (simp add: flat_Cons nested_Cons set_lq_list_id)
    next
      case inner: False
      have IH: "flat (ngx_http_create_locations_list (lq_list q @ ?inner)) = ?inner
          \<and> nested (ngx_http_create_locations_list (lq_list q @ ?inner))"
      proof (cases "?tail = []")
        case True
        then show ?thesis using 2(3)[OF ne refl refl inner True] inn q(1) by simp
      next
        case False
        then show ?thesis using 2(4)[OF ne refl refl inner False] inn q(1) by simp
      qed
      show ?thesis
      proof (cases "?tail = []")
        case True
        have r: "ngx_http_create_locations_list (q # locs) = [set_lq_list (ngx_http_create_locations_list (lq_list q @ ?inner)) q]"
          using ne inner True by (auto simp: ngx_http_create_locations_list.simps(2) Let_def)
        have "?inner = locs" using True split by simp
        then show ?thesis unfolding r using q ok IH inner_ext ne(2)
          by (simp add: flat_Cons nested_Cons set_lq_list_id)
      next
        case tail: False
        have r: "ngx_http_create_locations_list (q # locs)
            = set_lq_list (ngx_http_create_locations_list (lq_list q @ ?inner)) q # ngx_http_create_locations_list ?tail"
          using ne inner tail by (auto simp: ngx_http_create_locations_list.simps(2) Let_def)
        have "flat (ngx_http_create_locations_list ?tail) = ?tail \<and> nested (ngx_http_create_locations_list ?tail)"
          using 2(5)[OF ne refl refl inner tail tl] .
        then show ?thesis unfolding r using q ok IH inner_ext ne(2) ext split
          by (simp add: flat_Cons nested_Cons set_lq_list_id)
      qed
    qed
  qed
qed

subsection \<open>The search in the tree and the search in the list\<close>

abbreviation slash :: u_char where "slash \<equiv> ch CHR ''/''"

definition lq_redirect :: "bytes \<Rightarrow> loc_conf lqueue \<Rightarrow> bool" where
  "lq_redirect u q \<longleftrightarrow> lq_name q = u @ [slash] \<and> lq_auto_redirect q"

definition lq_covers :: "bytes \<Rightarrow> loc_conf lqueue \<Rightarrow> bool" where
  "lq_covers u q \<longleftrightarrow> lq_inclusive q \<noteq> None \<and> strict_prefix (lq_name q) u"

text \<open>
  What the search is to find among the elements in their order: the element with the name of the URI;
  else one that redirects to the URI with a slash; else the last inclusive one that the URI extends.
\<close>

definition look :: "loc_conf lqueue list \<Rightarrow> bytes \<Rightarrow> int \<times> loc_conf \<Rightarrow> int \<times> loc_conf" where
  "look E u d =
     (case filter (\<lambda>q. lq_name q = u) E of
        q # qs \<Rightarrow> (case lq_exact q of Some c \<Rightarrow> (NGX_OK, c) | None \<Rightarrow> (NGX_AGAIN, the (lq_inclusive q)))
      | [] \<Rightarrow>
      case filter (lq_redirect u) E of
        q # qs \<Rightarrow> (NGX_DONE, lq_conf q)
      | [] \<Rightarrow>
      case filter (lq_covers u) E of
        q # qs \<Rightarrow> (NGX_AGAIN, the (lq_inclusive (last (q # qs))))
      | [] \<Rightarrow> d)"

definition matches :: "bytes \<Rightarrow> loc_conf lqueue \<Rightarrow> bool" where
  "matches u q \<longleftrightarrow> lq_name q = u \<or> lq_redirect u q \<or> lq_covers u q"

lemma filter_none: "(\<And>x. x \<in> set A \<Longrightarrow> \<not> P x) \<Longrightarrow> filter P A = []"
  by (simp add: filter_empty_conv)

lemma look_drop:
  assumes "\<And>q. q \<in> set A \<Longrightarrow> \<not> matches u q" "\<And>q. q \<in> set B \<Longrightarrow> \<not> matches u q"
  shows "look (A @ E @ B) u d = look E u d"
proof -
  have "filter (\<lambda>q. lq_name q = u) (A @ E @ B) = filter (\<lambda>q. lq_name q = u) E"
    "filter (lq_redirect u) (A @ E @ B) = filter (lq_redirect u) E"
    "filter (lq_covers u) (A @ E @ B) = filter (lq_covers u) E"
    using assms by (simp_all add: filter_none matches_def)
  then show ?thesis by (simp only: look_def)
qed

lemma look_Nil [simp]: "look [] u d = d"
  by (simp add: look_def)

lemma apart_ext: "apart a b \<Longrightarrow> apart (a @ x) (b @ y)"
  by (simp add: apart_def)

lemma apart_not_prefix: "apart a b \<Longrightarrow> \<not> prefix b (a @ x) \<and> \<not> prefix a (b @ x)"
proof
  assume ap: "apart a b"
  show "\<not> prefix b (a @ x)"
  proof
    assume "prefix b (a @ x)"
    then obtain y where "a @ x = b @ y" by (auto simp: prefix_def)
    then show False using apart_less[OF ap, of x y] by simp
  qed
  show "\<not> prefix a (b @ x)"
  proof
    assume "prefix a (b @ x)"
    then obtain y where "b @ x = a @ y" by (auto simp: prefix_def)
    then show False using apart_less[OF ap, of y x] by simp
  qed
qed

text \<open>The URI lies before an element: neither it nor what follows it matches.\<close>

lemma no_match_after:
  assumes "apart u (lq_name m)" "lq_name f = lq_name m \<or> name_less (lq_name m) (lq_name f)"
  shows "\<not> matches u f"
proof -
  have l: "name_less (u @ x) (lq_name f)" for x
  proof -
    have "name_less (u @ x) (lq_name m)" using apart_less[OF assms(1), of x "[]"] by simp
    then show ?thesis using assms(2) name_less_trans by metis
  qed
  have ne: "lq_name f \<noteq> u @ x" for x using l[of x] by auto
  then have "lq_name f \<noteq> u" "\<not> lq_redirect u f" using ne[of "[]"] ne[of "[slash]"] by (simp_all add: lq_redirect_def)
  moreover have "\<not> lq_covers u f"
  proof
    assume "lq_covers u f"
    then obtain x where "u = lq_name f @ x" by (auto simp: lq_covers_def strict_prefix_def prefix_def)
    then show False using l[of "[]"] by simp
  qed
  ultimately show ?thesis by (simp add: matches_def)
qed

text \<open>The URI lies after an element: neither it, nor what extends it, nor what comes before it matches.\<close>

lemma no_match_before:
  assumes "apart (lq_name m) u"
    and "prefix (lq_name m) (lq_name f)
       \<or> name_less (lq_name f) (lq_name m) \<and> (lq_inclusive f \<noteq> None \<longrightarrow> \<not> prefix (lq_name f) (lq_name m))"
  shows "\<not> matches u f"
  using assms(2)
proof
  assume "prefix (lq_name m) (lq_name f)"
  then obtain x where x: "lq_name f = lq_name m @ x" by (auto simp: prefix_def)
  have l: "name_less (lq_name f) (u @ y)" for y using apart_less[OF assms(1), of x y] x by simp
  have ne: "lq_name f \<noteq> u @ y" for y using l[of y] by auto
  then have "lq_name f \<noteq> u" "\<not> lq_redirect u f" using ne[of "[]"] ne[of "[slash]"] by (simp_all add: lq_redirect_def)
  moreover have "\<not> lq_covers u f"
  proof
    assume "lq_covers u f"
    then obtain y where "u = lq_name f @ y" by (auto simp: lq_covers_def strict_prefix_def prefix_def)
    then have "u = lq_name m @ (x @ y)" using x by simp
    then show False using apart_less[OF assms(1), of "x @ y" "[]"] by simp
  qed
  ultimately show ?thesis by (simp add: matches_def)
next
  assume b: "name_less (lq_name f) (lq_name m) \<and> (lq_inclusive f \<noteq> None \<longrightarrow> \<not> prefix (lq_name f) (lq_name m))"
  have l: "name_less (lq_name f) (u @ y)" for y
    using apart_less[OF assms(1), of "[]" y] b name_less_trans by auto
  have ne: "lq_name f \<noteq> u @ y" for y using l[of y] by auto
  then have "lq_name f \<noteq> u" "\<not> lq_redirect u f" using ne[of "[]"] ne[of "[slash]"] by (simp_all add: lq_redirect_def)
  moreover have "\<not> lq_covers u f"
  proof
    assume c: "lq_covers u f"
    then obtain y where y: "u = lq_name f @ y" by (auto simp: lq_covers_def strict_prefix_def prefix_def)
    have "\<not> prefix (lq_name f) (lq_name m)" using b c by (simp add: lq_covers_def)
    then have "apart (lq_name f) (lq_name m)" using less_apart b by (auto simp: prefix_def)
    then have "name_less u (lq_name m)" using apart_less[of _ _ y "[]"] y by simp
    then show False using apart_less[OF assms(1), of "[]" "[]"] name_less_asym by auto
  qed
  ultimately show ?thesis by (simp add: matches_def)
qed

text \<open>The URI extends the name of an element.\<close>

lemma no_match_extended_before:
  assumes "u = lq_name m @ x" "name_less (lq_name f) (lq_name m)" "lq_inclusive f \<noteq> None \<longrightarrow> \<not> prefix (lq_name f) (lq_name m)"
  shows "\<not> matches u f"
proof -
  have l: "name_less (lq_name f) (u @ y)" for y
    using assms(1,2) name_less_trans[of "lq_name f" "lq_name m" "u @ y"] by (cases "x @ y = []") auto
  have ne: "lq_name f \<noteq> u @ y" for y using l[of y] by auto
  then have "lq_name f \<noteq> u" "\<not> lq_redirect u f" using ne[of "[]"] ne[of "[slash]"] by (simp_all add: lq_redirect_def)
  moreover have "\<not> lq_covers u f"
  proof
    assume c: "lq_covers u f"
    then have "prefix (lq_name f) u" "prefix (lq_name m) u" using assms(1) by (auto simp: lq_covers_def)
    then have "prefix (lq_name f) (lq_name m) \<or> prefix (lq_name m) (lq_name f)" by (rule prefix_same_cases)
    moreover have "\<not> prefix (lq_name f) (lq_name m)" using assms(3) c by (simp add: lq_covers_def)
    ultimately show False using assms(2) by (auto simp: prefix_def)
  qed
  ultimately show ?thesis by (simp add: matches_def)
qed

lemma no_match_extended_after:
  assumes "u = lq_name m @ x" "\<not> prefix (lq_name m) (lq_name f)" "name_less (lq_name m) (lq_name f)"
  shows "\<not> matches u f"
proof -
  have ne: "lq_name f \<noteq> u @ y" for y using assms(1,2) by auto
  then have "lq_name f \<noteq> u" "\<not> lq_redirect u f" using ne[of "[]"] ne[of "[slash]"] by (simp_all add: lq_redirect_def)
  moreover have "\<not> lq_covers u f"
  proof
    assume "lq_covers u f"
    then have "prefix (lq_name f) u" "prefix (lq_name m) u" using assms(1) by (auto simp: lq_covers_def)
    then have "prefix (lq_name f) (lq_name m) \<or> prefix (lq_name m) (lq_name f)" by (rule prefix_same_cases)
    then show False using assms(2,3) by (auto simp: prefix_def)
  qed
  ultimately show ?thesis by (simp add: matches_def)
qed

text \<open>The URI is a part of the name of an element; here the slash must be the lowest character.\<close>

lemma slash_lowest: "\<lbrakk> x \<noteq> []; no_nul x \<rbrakk> \<Longrightarrow> x = [slash] \<or> name_less [slash] x"
proof (cases x)
  case (Cons c y)
  assume nn: "no_nul x"
  have "c = slash \<or> 0 < char_key c"
    using nn Cons char_key_eq[of c slash] by (auto simp: char_key_def)
  then show ?thesis using Cons by (cases y) (auto simp: char_key_def)
qed simp

lemma no_match_part_after:
  assumes "lq_name m = u @ x" "x \<noteq> []" "no_nul x" "name_less (lq_name m) (lq_name f)"
  shows "\<not> matches u f"
proof -
  have um: "name_less u (lq_name f)" using assms name_less_trans[of u "lq_name m" "lq_name f"] by simp
  then have "lq_name f \<noteq> u" by auto
  moreover have "\<not> lq_redirect u f"
  proof
    assume "lq_redirect u f"
    then have "lq_name f = u @ [slash]" by (simp add: lq_redirect_def)
    then show False using slash_lowest[OF assms(2,3)] assms(1,4) name_less_asym by auto
  qed
  moreover have "\<not> lq_covers u f"
    using um by (auto simp: lq_covers_def strict_prefix_def prefix_def)
  ultimately show ?thesis by (simp add: matches_def)
qed

text \<open>No inclusive name to the left of an element is a part of a name from there on.\<close>

lemma nested_left:
  "nested (L @ m # R) \<Longrightarrow> f \<in> set (flat L) \<Longrightarrow> lq_inclusive f \<noteq> None \<Longrightarrow> g \<in> set (flat (m # R)) \<Longrightarrow>
     \<not> prefix (lq_name f) (lq_name g)"
proof (induction L)
  case (Cons q L)
  have n: "nested (L @ m # R)" "lq_list q \<noteq> [] \<longrightarrow> lq_inclusive q \<noteq> None"
    "\<forall>f\<in>set (flat (lq_list q)). strict_prefix (lq_name q) (lq_name f)"
    "lq_inclusive q \<noteq> None \<longrightarrow> \<not> prefix (lq_name q) (lq_name g)"
    using Cons.prems(1,4) by (auto simp: nested_Cons)
  consider "f = set_lq_list [] q" | "f \<in> set (flat (lq_list q))" | "f \<in> set (flat L)"
    using Cons.prems(2) by (auto simp: flat_Cons)
  then show ?case
  proof cases
    case 1
    then show ?thesis using n(4) Cons.prems(3) by simp
  next
    case 2
    then have "strict_prefix (lq_name q) (lq_name f)" "lq_inclusive q \<noteq> None" using n(2,3) by auto
    then show ?thesis using n(4) by (auto simp: strict_prefix_def dest: prefix_order.order_trans)
  next
    case 3
    then show ?thesis using Cons.IH[OF n(1) 3 Cons.prems(3,4)] by simp
  qed
qed simp

lemma nested_part: "nested (L @ m # R) \<Longrightarrow> nested L \<and> nested (lq_list m) \<and> nested R
   \<and> (lq_exact m \<noteq> None \<or> lq_inclusive m \<noteq> None) \<and> (lq_list m \<noteq> [] \<longrightarrow> lq_inclusive m \<noteq> None)
   \<and> (\<forall>f\<in>set (flat (lq_list m)). strict_prefix (lq_name m) (lq_name f))
   \<and> (lq_inclusive m \<noteq> None \<longrightarrow> (\<forall>f\<in>set (flat R). \<not> prefix (lq_name m) (lq_name f)))"
  by (induction L) (auto simp: nested_Cons)

text \<open>
  What the tree needs of the names: no NUL, a common prefix, a length that fits in the byte of the node,
  and a redirect only for a name that ends in a slash.
\<close>

definition level_ok :: "bytes \<Rightarrow> loc_conf lqueue list \<Rightarrow> bool" where
  "level_ok p locs \<longleftrightarrow>
     nested locs \<and> sorted_names (flat locs)
     \<and> (\<forall>q\<in>set (flat locs). no_nul (lq_name q) \<and> prefix p (lq_name q) \<and> length (lq_name q) \<le> 255
          \<and> (lq_auto_redirect q \<longrightarrow> (\<exists>a. lq_name q = a @ [slash])))"

lemma look_last:
  assumes "\<And>q. q \<in> set A \<Longrightarrow> lq_name q \<noteq> u \<and> \<not> lq_redirect u q"
    and "A \<noteq> []" "\<And>q. q \<in> set A \<Longrightarrow> lq_covers u q"
  shows "look (A @ E) u d = look E u (NGX_AGAIN, the (lq_inclusive (last A)))"
proof -
  have f: "filter (\<lambda>q. lq_name q = u) A = []" "filter (lq_redirect u) A = []" "filter (lq_covers u) A = A"
    using assms(1,3) by (simp_all add: filter_none filter_id_conv)
  obtain a as where A: "A = a # as" using assms(2) by (cases A) auto
  have c: "filter (lq_covers u) (A @ E) = a # (as @ filter (lq_covers u) E)"
    by (simp only: filter_append f(3)) (simp add: A)
  have l: "last (a # as @ filter (lq_covers u) E) = (if filter (lq_covers u) E = [] then last A else last (filter (lq_covers u) E))"
    using A by simp
  have e: "filter (\<lambda>q. lq_name q = u) (A @ E) = filter (\<lambda>q. lq_name q = u) E"
    "filter (lq_redirect u) (A @ E) = filter (lq_redirect u) E" using f by simp_all
  show ?thesis unfolding look_def c e list.case l
    by (cases "filter (lq_covers u) E") (simp_all split: list.split)
qed

lemma look_redirect:
  assumes "\<And>q. q \<in> set A \<Longrightarrow> \<not> lq_redirect u q \<and> \<not> lq_covers u q" "lq_redirect u m" "\<not> lq_covers u m" "lq_name m \<noteq> u"
  shows "look (A @ [m]) u d = look A u (NGX_DONE, lq_conf m)"
proof -
  have "filter (lq_redirect u) A = []" "filter (lq_covers u) A = []" using assms(1) by (simp_all add: filter_none)
  then show ?thesis using assms(2-4) by (auto simp: look_def split: list.splits)
qed

lemma lq_conf_list [simp]: "lq_conf (set_lq_list l q) = lq_conf q"
  by (simp add: lq_conf_def split: option.split)

lemma look_found:
  assumes "\<And>q. q \<in> set A \<Longrightarrow> lq_name q \<noteq> u" "lq_name m = u"
  shows "look (A @ m # B) u d =
    (case lq_exact m of Some c \<Rightarrow> (NGX_OK, c) | None \<Rightarrow> (NGX_AGAIN, the (lq_inclusive m)))"
proof -
  have "filter (\<lambda>q. lq_name q = u) A = []" using assms(1) by (simp add: filter_none)
  then show ?thesis using assms(2) by (simp add: look_def)
qed

text \<open>One level: what the search does at the root, on the parts of the list to its left and right and inside.\<close>

definition root_ok :: "bytes \<Rightarrow> loc_conf lqueue list \<Rightarrow> loc_conf lqueue \<Rightarrow> loc_conf lqueue list \<Rightarrow> bytes \<Rightarrow> bool" where
  "root_ok p L m R nm \<longleftrightarrow> level_ok p (L @ m # R) \<and> lq_name m = p @ nm"

lemma level_parts:
  assumes "root_ok p L m R nm"
  shows "nested (L @ m # R)"
  "\<And>q. q \<in> set (flat L) \<Longrightarrow> name_less (lq_name q) (lq_name m)"
  "\<And>q. q \<in> set (flat (lq_list m)) \<Longrightarrow> name_less (lq_name m) (lq_name q) \<and> prefix (lq_name m) (lq_name q)"
  "\<And>q. q \<in> set (flat R) \<Longrightarrow> name_less (lq_name m) (lq_name q)"
  "\<And>q. q \<in> set (flat L) \<Longrightarrow> lq_inclusive q \<noteq> None \<Longrightarrow> \<not> prefix (lq_name q) (lq_name m)"
  "no_nul nm" "lq_auto_redirect m \<Longrightarrow> \<exists>a. lq_name m = a @ [slash]"
proof -
  have ok: "level_ok p (L @ m # R)" and name: "lq_name m = p @ nm" using assms by (auto simp: root_ok_def)
  show n: "nested (L @ m # R)" using ok by (simp add: level_ok_def)
  have s: "sorted_names (flat L @ set_lq_list [] m # flat (lq_list m) @ flat R)"
    using ok by (simp add: level_ok_def flat_Cons)
  show "\<And>q. q \<in> set (flat L) \<Longrightarrow> name_less (lq_name q) (lq_name m)"
    using s by (auto simp: sorted_names_append)
  show "\<And>q. q \<in> set (flat R) \<Longrightarrow> name_less (lq_name m) (lq_name q)"
    using s by (auto simp: sorted_names_append sorted_names_Cons)
  show "\<And>q. q \<in> set (flat (lq_list m)) \<Longrightarrow> name_less (lq_name m) (lq_name q) \<and> prefix (lq_name m) (lq_name q)"
    using s nested_part[OF n] by (auto simp: sorted_names_append sorted_names_Cons strict_prefix_def)
  show "\<And>q. q \<in> set (flat L) \<Longrightarrow> lq_inclusive q \<noteq> None \<Longrightarrow> \<not> prefix (lq_name q) (lq_name m)"
    using nested_left[OF n, of _ "set_lq_list [] m"] by (simp add: flat_Cons)
  show "no_nul nm" using ok name by (simp add: level_ok_def flat_Cons)
  show "lq_auto_redirect m \<Longrightarrow> \<exists>a. lq_name m = a @ [slash]" using ok by (simp add: level_ok_def flat_Cons)
qed

lemma look_left:
  assumes root: "root_ok p L m R nm" and "apart s nm"
  shows "look (flat (L @ m # R)) (p @ s) d = look (flat L) (p @ s) d"
proof -
  note name = conjunct2[OF root[unfolded root_ok_def]] and parts = level_parts[OF root]
  have ap: "apart (p @ s) (lq_name m)" using assms(2) name by simp
  have nm: "\<not> matches (p @ s) q" if "q \<in> set (set_lq_list [] m # flat (lq_list m) @ flat R)" for q
    by (rule no_match_after[OF ap]) (use that parts(3,4) in auto)
  show ?thesis using look_drop[of "[]" "p @ s" "set_lq_list [] m # flat (lq_list m) @ flat R" "flat L" d] nm
    by (simp add: flat_Cons)
qed

lemma look_right:
  assumes root: "root_ok p L m R nm" and "apart nm s"
  shows "look (flat (L @ m # R)) (p @ s) d = look (flat R) (p @ s) d"
proof -
  note name = conjunct2[OF root[unfolded root_ok_def]] and parts = level_parts[OF root]
  have ap: "apart (lq_name m) (p @ s)" using assms(2) name by simp
  have nm: "\<not> matches (p @ s) q" if "q \<in> set (flat L @ set_lq_list [] m # flat (lq_list m))" for q
    by (rule no_match_before[OF ap]) (use that parts(2,3,5) in auto)
  show ?thesis using look_drop[of "flat L @ set_lq_list [] m # flat (lq_list m)" "p @ s" "[]" "flat R" d] nm
    by (simp add: flat_Cons)
qed

lemma look_inner:
  assumes root: "root_ok p L m R nm" and "s = nm @ x" "x \<noteq> []" "lq_inclusive m = Some c"
  shows "look (flat (L @ m # R)) (p @ s) d = look (flat (lq_list m)) (lq_name m @ x) (NGX_AGAIN, c)"
proof -
  note name = conjunct2[OF root[unfolded root_ok_def]] and parts = level_parts[OF root]
  have u: "p @ s = lq_name m @ x" using assms(2) name by simp
  have left: "\<not> matches (p @ s) q" if "q \<in> set (flat L)" for q
    by (rule no_match_extended_before[OF u]) (use that parts(2,5) in auto)
  have right: "\<not> matches (p @ s) q" if q: "q \<in> set (flat R)" for q
  proof (rule no_match_extended_after[OF u])
    show "\<not> prefix (lq_name m) (lq_name q)" using nested_part[OF parts(1)] q assms(4) by simp
  qed (use parts(4)[OF q] in simp)
  have "look (flat (L @ m # R)) (p @ s) d = look ([set_lq_list [] m] @ flat (lq_list m)) (p @ s) d"
    using look_drop[of "flat L" "p @ s" "flat R" "set_lq_list [] m # flat (lq_list m)" d] left right
    by (simp add: flat_Cons)
  moreover have "lq_name m \<noteq> p @ s \<and> \<not> lq_redirect (p @ s) (set_lq_list [] m) \<and> lq_covers (p @ s) (set_lq_list [] m)"
    using assms(3,4) unfolding u by (simp add: lq_redirect_def lq_covers_def strict_prefix_def)
  ultimately show ?thesis
    using look_last[of "[set_lq_list [] m]" "p @ s" "flat (lq_list m)" d] assms(4) u by simp
qed

lemma look_exact_only:
  assumes root: "root_ok p L m R nm" and "s = nm @ x" "x \<noteq> []" "lq_inclusive m = None"
  shows "look (flat (L @ m # R)) (p @ s) d = look (flat R) (p @ s) d"
proof -
  note name = conjunct2[OF root[unfolded root_ok_def]] and parts = level_parts[OF root]
  have u: "p @ s = lq_name m @ x" using assms(2) name by simp
  have "lq_list m = []" using nested_part[OF parts(1)] assms(4) by auto
  moreover have left: "\<not> matches (p @ s) q" if "q \<in> set (flat L)" for q
    by (rule no_match_extended_before[OF u]) (use that parts(2,5) in auto)
  moreover have "\<not> matches (p @ s) (set_lq_list [] m)"
    using assms(2-) u by (auto simp: matches_def lq_redirect_def lq_covers_def)
  ultimately show ?thesis
    using look_drop[of "flat L @ [set_lq_list [] m]" "p @ s" "[]" "flat R" d] by (auto simp: flat_Cons)
qed

lemma look_here:
  assumes root: "root_ok p L m R nm"
  shows "look (flat (L @ m # R)) (p @ nm) d =
     (case lq_exact m of Some c \<Rightarrow> (NGX_OK, c) | None \<Rightarrow> (NGX_AGAIN, the (lq_inclusive m)))"
proof -
  note name = conjunct2[OF root[unfolded root_ok_def]] and parts = level_parts[OF root]
  have "lq_name q \<noteq> p @ nm" if "q \<in> set (flat L)" for q using parts(2)[OF that] name by auto
  then show ?thesis
    using look_found[of "flat L" "p @ nm" "set_lq_list [] m" "flat (lq_list m) @ flat R" d] name
    by (simp add: flat_Cons split: option.split)
qed

lemma look_part:
  assumes root: "root_ok p L m R nm" and "nm = s @ x" "x \<noteq> []"
  shows "look (flat (L @ m # R)) (p @ s) d =
    look (flat L) (p @ s) (if length x = 1 \<and> lq_auto_redirect m then (NGX_DONE, lq_conf m) else d)"
proof -
  note name = conjunct2[OF root[unfolded root_ok_def]] and parts = level_parts[OF root]
  have n: "lq_name m = (p @ s) @ x" "no_nul x" using assms(2) name parts(6) by simp_all
  have after: "\<not> matches (p @ s) q" if "q \<in> set (flat (lq_list m) @ flat R)" for q
    by (rule no_match_part_after[OF n(1) assms(3) n(2)]) (use that parts(3,4) in auto)
  have e: "look (flat (L @ m # R)) (p @ s) d = look (flat L @ [set_lq_list [] m]) (p @ s) d"
    using look_drop[of "[]" "p @ s" "flat (lq_list m) @ flat R" "flat L @ [set_lq_list [] m]" d] after
    by (simp add: flat_Cons)
  have m: "\<not> lq_covers (p @ s) (set_lq_list [] m)" "lq_name m \<noteq> p @ s"
    using n(1) assms(3) by (simp_all add: lq_covers_def strict_prefix_def prefix_def)
  show ?thesis
  proof (cases "length x = 1 \<and> lq_auto_redirect m")
    case True
    then obtain a where "lq_name m = a @ [slash]" using parts(7) by blast
    moreover obtain c where "x = [c]" using True by (cases x) auto
    ultimately have r: "lq_name m = (p @ s) @ [slash]" using n(1) by simp
    have "\<not> lq_redirect (p @ s) q \<and> \<not> lq_covers (p @ s) q" if q: "q \<in> set (flat L)" for q
    proof
      have "lq_name q \<noteq> lq_name m" using parts(2)[OF q] by auto
      then show "\<not> lq_redirect (p @ s) q" unfolding lq_redirect_def r by blast
      show "\<not> lq_covers (p @ s) q"
      proof
        assume "lq_covers (p @ s) q"
        then have "lq_inclusive q \<noteq> None" "prefix (lq_name q) (lq_name m)"
          unfolding lq_covers_def n(1) strict_prefix_def by (blast intro: prefix_prefix)+
        then show False using parts(5)[OF q] by blast
      qed
    qed
    moreover have "lq_redirect (p @ s) (set_lq_list [] m)" using r True by (simp add: lq_redirect_def)
    ultimately have "look (flat L @ [set_lq_list [] m]) (p @ s) d = look (flat L) (p @ s) (NGX_DONE, lq_conf (set_lq_list [] m))"
      using m by (intro look_redirect) simp_all
    then show ?thesis using e True by simp
  next
    case False
    have "\<not> lq_redirect (p @ s) (set_lq_list [] m)"
    proof
      assume "lq_redirect (p @ s) (set_lq_list [] m)"
      then have "lq_auto_redirect m" "(p @ s) @ x = (p @ s) @ [slash]" using n(1) by (simp_all add: lq_redirect_def)
      then show False using False by simp
    qed
    then have "\<not> matches (p @ s) (set_lq_list [] m)" using m by (simp add: matches_def)
    then show ?thesis unfolding if_not_P[OF False]
      using e look_drop[of "[]" "p @ s" "[set_lq_list [] m]" "flat L" d] by simp
  qed
qed

lemma create_tree_Nil: "ngx_http_create_locations_tree alloc [] n = None"
  by simp

text \<open>The node that is built for a level, and where its parts come from.\<close>

lemma create_tree_node:
  assumes "ngx_http_create_locations_tree alloc locs pre = Some tree"
  defines "m \<equiv> queue_middle locs" and "L \<equiv> take (length locs div 2) locs" and "R \<equiv> drop (Suc (length locs div 2)) locs"
  obtains l r t where
    "locs = L @ m # R" "L = [] \<longrightarrow> R = []"
    "tree = Node l r t (lq_exact m) (lq_inclusive m) (lq_auto_redirect m)
       (of_nat (length (lq_name m) - pre)) (take (length (lq_name m) - pre) (drop pre (lq_name m)))"
    "if L = [] then l = Null else ngx_http_create_locations_tree alloc L pre = Some l"
    "if R = [] then r = Null else ngx_http_create_locations_tree alloc R pre = Some r"
    "if lq_list m = [] then t = Null
     else ngx_http_create_locations_tree alloc (lq_list m) (pre + (length (lq_name m) - pre)) = Some t"
    "alloc (lq_name m)"
proof -
  have ne: "locs \<noteq> []" using assms(1) by auto
  have split: "locs = L @ m # R" unfolding L_def R_def m_def by (rule split_middle[OF ne])
  have LR: "L = [] \<longrightarrow> R = []"
  proof
    assume "L = []"
    then have "length locs div 2 = 0" using ne by (auto simp: L_def)
    then show "R = []" using ne by (auto simp: R_def)
  qed
  have "(if locs = [] then None
      else if \<not> alloc (lq_name m) then None
        else
          case (if L = [] then Some Null else ngx_http_create_locations_tree alloc L pre) of
            None \<Rightarrow> None
          | Some l \<Rightarrow>
          case (if L = [] \<or> R = [] then Some Null else ngx_http_create_locations_tree alloc R pre) of
            None \<Rightarrow> None
          | Some r \<Rightarrow>
          case (if lq_list m = [] then Some Null
                else ngx_http_create_locations_tree alloc (lq_list m) (pre + (length (lq_name m) - pre))) of
            None \<Rightarrow> None
          | Some t \<Rightarrow>
              Some (Node l r t (lq_exact m) (lq_inclusive m) (lq_auto_redirect m)
                 (of_nat (length (lq_name m) - pre)) (take (length (lq_name m) - pre) (drop pre (lq_name m))))) = Some tree"
    using assms(1) unfolding L_def R_def m_def
    by (subst (asm) ngx_http_create_locations_tree.simps) (simp only: Let_def)
  then show thesis using that split LR ne by (auto split: if_splits option.splits)
qed

text \<open>
  The search in the tree finds what the search in the list finds.  Induction on the size of the queues;
  at the root the five cases of the comparison are the five lemmas on a level.
\<close>

lemma find_static_correct:
  assumes "ngx_http_create_locations_tree alloc locs (length p) = Some tree" "level_ok p locs" "no_nul s"
  shows "ngx_http_core_find_static_location tree s rv conf = look (flat locs) (p @ s) (rv, conf)"
  using assms
proof (induction "size_list size locs" arbitrary: locs p s rv conf tree rule: less_induct)
  case less
  define m where "m = queue_middle locs"
  define L where "L = take (length locs div 2) locs"
  define R where "R = drop (Suc (length locs div 2)) locs"
  obtain l r t where parts: "locs = L @ m # R" "L = [] \<longrightarrow> R = []"
      "tree = Node l r t (lq_exact m) (lq_inclusive m) (lq_auto_redirect m)
       (of_nat (length (lq_name m) - length p)) (take (length (lq_name m) - length p) (drop (length p) (lq_name m)))"
      "if L = [] then l = Null else ngx_http_create_locations_tree alloc L (length p) = Some l"
      "if R = [] then r = Null else ngx_http_create_locations_tree alloc R (length p) = Some r"
      "if lq_list m = [] then t = Null
       else ngx_http_create_locations_tree alloc (lq_list m) (length p + (length (lq_name m) - length p)) = Some t"
      "alloc (lq_name m)"
    by (rule create_tree_node[OF less.prems(1), folded m_def L_def R_def])
  have size: "size_list size L < size_list size locs" "size_list size R < size_list size locs"
    "size_list size (lq_list m) < size_list size locs"
    using parts(1) lqueue_size_list[of m] by simp_all
  have ok: "level_ok p (L @ m # R)" using less.prems(2) parts(1) by simp
  have "prefix p (lq_name m)" "length (lq_name m) \<le> 255"
    using ok by (simp_all add: level_ok_def flat_Cons)
  then obtain nm where nm: "lq_name m = p @ nm" "length nm \<le> 255" by (auto simp: prefix_def)
  have root: "root_ok p L m R nm" using ok nm(1) by (simp add: root_ok_def)
  have nn: "no_nul nm" by (rule level_parts(6)[OF root])
  have sub: "level_ok p L" "level_ok p R" "level_ok (lq_name m) (lq_list m)"
  proof -
    have n: "nested L" "nested R" "nested (lq_list m)" "\<forall>f\<in>set (flat (lq_list m)). strict_prefix (lq_name m) (lq_name f)"
      using nested_part[OF level_parts(1)[OF root]] by simp_all
    then show "level_ok p L" "level_ok p R" "level_ok (lq_name m) (lq_list m)"
      using ok by (auto simp: level_ok_def flat_Cons sorted_names_append sorted_names_Cons strict_prefix_def)
  qed
  have IHl: "ngx_http_core_find_static_location l s rv conf = look (flat L) (p @ s) (rv, conf)" for rv conf
    using less.hyps[OF size(1) _ sub(1) less.prems(3)] parts(4) by (cases "L = []") simp_all
  have IHr: "ngx_http_core_find_static_location r s rv conf = look (flat R) (p @ s) (rv, conf)" for rv conf
    using less.hyps[OF size(2) _ sub(2) less.prems(3)] parts(5) by (cases "R = []") simp_all
  have IHt: "ngx_http_core_find_static_location t x rv conf = look (flat (lq_list m)) (lq_name m @ x) (rv, conf)"
    if "no_nul x" for x rv conf
    using less.hyps[OF size(3) _ sub(3) that] parts(6) nm(1) by (cases "lq_list m = []") simp_all
  have "unat (of_nat (length nm) :: u_char) = length nm"
    using nm(2) by (simp add: unat_of_nat take_bit_nat_eq_self)
  then have tree: "tree = Node l r t (lq_exact m) (lq_inclusive m) (lq_auto_redirect m) (of_nat (length nm)) nm"
    and len: "unat (of_nat (length nm) :: u_char) = length nm"
    using parts(3) nm(1) by simp_all
  define n where "n = (if length s \<le> length nm then length s else length nm)"
  have n: "n \<le> length s" "n \<le> length nm" by (auto simp: n_def)
  note cmp = filename_cmp_within[OF n less.prems(3) nn]
  have apart_whole: "apart (take n a) (take n b) \<Longrightarrow> apart a b" for a b
    using apart_ext[of "take n a" "take n b" "drop n a" "drop n b"] by simp
  note step = ngx_http_core_find_static_location.simps(2)[of l r t "lq_exact m" "lq_inclusive m" "lq_auto_redirect m"
      "of_nat (length nm)" nm s rv conf, folded tree, unfolded len Let_def, folded n_def]
  have goal: "look (flat locs) (p @ s) (rv, conf) = look (flat (L @ m # R)) (p @ s) (rv, conf)" using parts(1) by simp
  consider (lt) "filename_cmp s nm n < 0" | (gt) "filename_cmp s nm n > 0" | (eq) "filename_cmp s nm n = 0" by linarith
  then show ?case
  proof cases
    case lt
    then have "apart s nm" using cmp(3) apart_whole by blast
    then show ?thesis unfolding goal look_left[OF root \<open>apart s nm\<close>] step using lt IHl by simp
  next
    case gt
    then have "apart nm s" using cmp(4) apart_whole by blast
    then show ?thesis unfolding goal look_right[OF root \<open>apart nm s\<close>] step using gt IHr by simp
  next
    case eq
    then have pre: "take n s = take n nm" using cmp(2) by simp
    consider (longer) "length s > length nm" | (same) "length s = length nm" | (shorter) "length s < length nm" by linarith
    then show ?thesis
    proof cases
      case longer
      define x where "x = drop (length nm) s"
      have n': "n = length nm" using longer by (simp add: n_def)
      then have "take (length nm) s = nm" using pre by simp
      then have x: "s = nm @ x" "x \<noteq> []" using longer unfolding x_def by (metis append_take_drop_id, simp)
      have nx: "no_nul x" using less.prems(3) x(1) by simp
      show ?thesis
      proof (cases "lq_inclusive m")
        case None
        then show ?thesis unfolding goal look_exact_only[OF root x None] step using eq longer IHr by simp
      next
        case (Some c)
        have "drop n s = x" using n' by (simp add: x_def)
        then show ?thesis unfolding goal look_inner[OF root x Some] step using eq longer IHt[OF nx] Some by simp
      qed
    next
      case same
      then have "s = nm" using pre by (simp add: n_def)
      have "lq_exact m \<noteq> None \<or> lq_inclusive m \<noteq> None" using nested_part[OF level_parts(1)[OF root]] by simp
      then show ?thesis unfolding goal step using eq look_here[OF root] \<open>s = nm\<close>
        by (auto split: option.split)
    next
      case shorter
      define x where "x = drop (length s) nm"
      have n': "n = length s" using shorter by (simp add: n_def)
      then have "take (length s) nm = s" using pre by simp
      then have x: "nm = s @ x" "x \<noteq> []" using shorter unfolding x_def by (metis append_take_drop_id, simp)
      have c: "length x = 1 \<longleftrightarrow> length s + 1 = length nm" using x(1) by auto
      have "lq_exact m \<noteq> None \<or> lq_inclusive m \<noteq> None" using nested_part[OF level_parts(1)[OF root]] by simp
      then have cf: "(case lq_exact m of Some c \<Rightarrow> c | None \<Rightarrow> case lq_inclusive m of Some c \<Rightarrow> c | None \<Rightarrow> conf) = lq_conf m"
        by (auto simp: lq_conf_def split: option.split)
      show ?thesis unfolding goal look_part[OF root x] c step
        using eq shorter IHl cf by simp
    qed
  qed
qed

end
