(* ===== verification/Ngx_Http_Location_Rules.thy ===== *)
theory Ngx_Http_Location_Rules
  imports Ngx_Http_Location_Tree
begin

text \<open>
  From the blocks of a configuration to the location of a request: \<^verbatim>\<open>ngx_http_init_locations\<close> and
  \<^verbatim>\<open>ngx_http_init_static_location_trees\<close> of \<^verbatim>\<open>http/ngx_http.c\<close>, \<^verbatim>\<open>ngx_http_core_find_location\<close> of
  \<^verbatim>\<open>http/ngx_http_core_module.c\<close>, and the rules that they implement.
\<close>

subsection \<open>From a configuration to a server\<close>

text \<open>
  The argument of \<^verbatim>\<open>ngx_http_init_locations\<close> carries its nested blocks, on which the function calls
  itself.  The second component of the result is the array \<^verbatim>\<open>named_locations\<close> of the server.  \<open>arr\<close>
  says whether the array of the named (\<^term>\<open>True\<close>) and of the regular expression locations of a block
  is allocated; \<^term>\<open>None\<close> is \<^verbatim>\<open>NGX_ERROR\<close>.
\<close>

definition location_queue :: "loc_conf list \<Rightarrow> loc_conf lqueue list" where
  "location_queue locs = foldl ngx_http_add_location [] locs"

definition loop_breaks :: "loc_conf \<Rightarrow> bool" where
  "loop_breaks c \<longleftrightarrow> regex c = None \<and> \<not> named c \<and> noname c"

definition sorted_locations :: "loc_conf list \<Rightarrow> loc_conf list" where
  "sorted_locations locs = map lq_conf (queue_sort ngx_http_cmp_locations (location_queue locs))"

text \<open>The three parts of the sorted queue, each split off at the first element of its kind.\<close>

definition named_part :: "loc_conf list \<Rightarrow> loc_conf list" where
  "named_part locs = dropWhile (\<lambda>c. \<not> (regex c = None \<and> named c)) locs"

definition regex_part :: "loc_conf list \<Rightarrow> loc_conf list" where
  "regex_part locs = dropWhile (\<lambda>c. regex c = None) (takeWhile (\<lambda>c. \<not> (regex c = None \<and> named c)) locs)"

definition static_part :: "loc_conf list \<Rightarrow> loc_conf list" where
  "static_part locs = takeWhile (\<lambda>c. regex c = None) (takeWhile (\<lambda>c. \<not> (regex c = None \<and> named c)) locs)"

lemma foldl_add_location: "foldl ngx_http_add_location qs locs = qs @ location_queue locs"
proof (induction locs arbitrary: qs rule: rev_induct)
  case (snoc c locs)
  then show ?case by (simp add: location_queue_def ngx_http_add_location_def)
qed (simp add: location_queue_def)

definition lq_of :: "loc_conf \<Rightarrow> loc_conf lqueue" where
  "lq_of c = (if exact_match c \<or> regex c \<noteq> None \<or> named c \<or> noname c
              then Lq (loc_name c) (Some c) None [] else Lq (loc_name c) None (Some c) [])"

lemma location_queue_map: "location_queue locs = map lq_of locs"
  by (induction locs rule: rev_induct) (simp_all add: location_queue_def ngx_http_add_location_def lq_of_def)

lemma lq_of_simps [simp]:
  "lq_name (lq_of c) = loc_name c" "lq_conf (lq_of c) = c" "lq_list (lq_of c) = []"
  by (simp_all add: lq_of_def lq_conf_def)

lemma sorted_locations_set: "set (sorted_locations locs) = set locs"
  by (auto simp: sorted_locations_def location_queue_map image_iff)

lemma loc_conf_size_mem: "x \<in> set locs \<Longrightarrow> size x < Suc (size_list size locs)" for x :: loc_conf
  by (induction locs) auto

text \<open>The blocks the loop visits: the one at which it breaks is still initialised, and then split off with those after it.\<close>

definition kept_locations :: "loc_conf list \<Rightarrow> loc_conf list" where
  "kept_locations locs = takeWhile (\<lambda>c. \<not> loop_breaks c) locs"

definition visited_locations :: "loc_conf list \<Rightarrow> loc_conf list" where
  "visited_locations locs = take (length (kept_locations locs) + 1) locs"

lemma visited_locations_set: "c \<in> set (visited_locations (sorted_locations locs)) \<Longrightarrow> c \<in> set locs"
  using sorted_locations_set[of locs] by (auto simp: visited_locations_def dest: in_set_takeD)

lemma visited_locations_Nil [simp]: "visited_locations [] = []" "kept_locations [] = []"
  by (simp_all add: visited_locations_def kept_locations_def)

lemma take_kept_visited [simp]: "take (length (kept_locations locs)) (map f (visited_locations locs)) = map f (kept_locations locs)"
  by (simp add: visited_locations_def kept_locations_def take_map takeWhile_eq_take[symmetric])

function ngx_http_init_locations ::
    "(loc_conf \<Rightarrow> bool \<Rightarrow> bool) \<Rightarrow> loc_conf \<Rightarrow> (loc_conf \<times> loc_conf list) option" where
  "ngx_http_init_locations arr (Loc_conf nm rx non nd ex nr au locs rl st) =
     (case those (map (ngx_http_init_locations arr) (visited_locations (sorted_locations locs))) of
        None \<Rightarrow> None
      | Some inner \<Rightarrow>
          let kept = map fst (take (length (kept_locations (sorted_locations locs))) inner); conf = Loc_conf nm rx non nd ex nr au locs rl st in
          if named_part kept \<noteq> [] \<and> \<not> arr conf True \<or> regex_part kept \<noteq> [] \<and> \<not> arr conf False then None
          else Some (Loc_conf nm rx non nd ex nr au (static_part kept)
                       (if regex_part kept = [] then rl else regex_part kept) st, named_part kept))"
  by pat_completeness auto

termination
proof (relation "measure (\<lambda>(arr, c). size c)")
  fix arr nm rx non nd ex nr au and locs rl :: "loc_conf list" and st c
  assume "c \<in> set (visited_locations (sorted_locations locs))"
  then have "c \<in> set locs" by (rule visited_locations_set)
  then show "((arr, c), (arr, Loc_conf nm rx non nd ex nr au locs rl st)) \<in> measure (\<lambda>(arr, c). size c)"
    using loc_conf_size_mem by fastforce
qed simp

function ngx_http_init_static_location_trees :: "(bytes \<Rightarrow> bool) \<Rightarrow> loc_conf \<Rightarrow> loc_conf option" where
  "ngx_http_init_static_location_trees alloc (Loc_conf nm rx non nd ex nr au locs rl st) =
     (if locs = [] then Some (Loc_conf nm rx non nd ex nr au locs rl st)
      else case those (map (ngx_http_init_static_location_trees alloc) locs) of
        None \<Rightarrow> None
      | Some inner \<Rightarrow>
          case ngx_http_join_exact_locations (location_queue inner) of
            None \<Rightarrow> None
          | Some queue \<Rightarrow>
              case ngx_http_create_locations_tree alloc (ngx_http_create_locations_list queue) 0 of
                None \<Rightarrow> None
              | Some tree \<Rightarrow> Some (Loc_conf nm rx non nd ex nr au inner rl tree))"
  by pat_completeness auto

termination
  by (relation "measure (\<lambda>(alloc, c). size c)") (use loc_conf_size_mem in fastforce)+

text \<open>
  The search for the location of a request.  Matching of regular expressions is a parameter: the answer
  of \<^verbatim>\<open>ngx_http_regex_exec\<close> for a compiled expression and a URI.  The static search only
  ever leads to blocks of the tree, so the search ends.
\<close>

lemma find_static_block:
  "ngx_http_core_find_static_location tree uri rv conf = (NGX_AGAIN, c) \<Longrightarrow>
     c \<in> set_ltree tree \<or> rv = NGX_AGAIN \<and> c = conf"
proof (induction tree uri rv conf rule: ngx_http_core_find_static_location.induct)
  case (2 left right tree exact inclusive auto_redir node_len name uri rv conf)
  then show ?case by (auto simp: Let_def ngx_rc split: if_splits option.splits)
qed simp

lemma ltree_size_mem: "c \<in> set_ltree t \<Longrightarrow> size c < size_ltree size t" for c :: loc_conf
  by (induction t) auto

lemma loc_conf_size_static: "c \<in> set_ltree (static_locations p) \<Longrightarrow> size c < size p"
  by (cases p) (auto dest: ltree_size_mem)

lemma loc_conf_size_regex: "c \<in> set (regex_locations p) \<Longrightarrow> size c < size p"
  by (cases p) (auto dest: loc_conf_size_mem)

text \<open>The first expression that does not decline the URI, and its answer.\<close>

fun regex_loop :: "(nat \<Rightarrow> bytes \<Rightarrow> int) \<Rightarrow> bytes \<Rightarrow> loc_conf list \<Rightarrow> (int \<times> loc_conf) option" where
  "regex_loop rx uri [] = None"
| "regex_loop rx uri (c # cs) =
     (let n = (case regex c of Some k \<Rightarrow> rx k uri | None \<Rightarrow> NGX_DECLINED) in
      if n = NGX_DECLINED then regex_loop rx uri cs else Some (n, c))"

lemma regex_loop_mem: "regex_loop rx uri cs = Some (n, c) \<Longrightarrow> c \<in> set cs"
  by (induction cs) (auto simp: Let_def split: if_splits)

function ngx_http_core_find_location :: "(nat \<Rightarrow> bytes \<Rightarrow> int) \<Rightarrow> bytes \<Rightarrow> loc_conf \<Rightarrow> int \<times> loc_conf" where
  "ngx_http_core_find_location rx uri pclcf =
     (let (rc, clcf) = ngx_http_core_find_static_location (static_locations pclcf) uri NGX_DECLINED pclcf;
          noreg = (rc = NGX_AGAIN \<and> noregex clcf);
          (rc, conf) = (if rc = NGX_AGAIN then ngx_http_core_find_location rx uri clcf else (rc, clcf)) in
      if rc = NGX_OK \<or> rc = NGX_DONE then (rc, conf)
      else if \<not> noreg then
        case regex_loop rx uri (regex_locations pclcf) of
          None \<Rightarrow> (rc, conf)
        | Some (n, c) \<Rightarrow>
            if n = NGX_OK then
              (let (rc, conf) = ngx_http_core_find_location rx uri c in
               (if rc = NGX_ERROR then rc else NGX_OK, conf))
            else (NGX_ERROR, conf)
      else (rc, conf))"
  by pat_completeness auto

termination
proof (relation "measure (\<lambda>(rx, uri, c). size c)", goal_cases)
  case (2 rx uri pclcf x xa y)
  then have "y \<in> set_ltree (static_locations pclcf)"
    using find_static_block[of "static_locations pclcf" uri NGX_DECLINED pclcf y] by (auto simp: ngx_rc)
  then show ?case using loc_conf_size_static by simp
next
  case (3 rx uri pclcf)
  then show ?case using loc_conf_size_regex regex_loop_mem by force
qed simp

subsection \<open>Sorting and joining\<close>

definition static_conf :: "loc_conf \<Rightarrow> bool" where
  "static_conf c \<longleftrightarrow> regex c = None \<and> \<not> named c \<and> \<not> noname c \<and> no_nul (loc_name c)"

text \<open>The blocks of a queue in order: the name, whether it is an exact one, and the block.\<close>

definition blocks :: "'c lqueue \<Rightarrow> (bytes \<times> bool \<times> 'c) list" where
  "blocks q = (case lq_exact q of Some c \<Rightarrow> [(lq_name q, True, c)] | None \<Rightarrow> [])
     @ (case lq_inclusive q of Some c \<Rightarrow> [(lq_name q, False, c)] | None \<Rightarrow> [])"

definition block_key :: "bytes \<times> bool \<times> 'c \<Rightarrow> bytes \<times> bool" where
  "block_key b = (fst b, fst (snd b))"

definition single :: "'c lqueue \<Rightarrow> bool" where
  "single q \<longleftrightarrow> (lq_exact q = None) \<noteq> (lq_inclusive q = None)"

text \<open>The order that sorting leaves: ascending names, and an exact block before the inclusive one.\<close>

definition queue_le :: "'c lqueue \<Rightarrow> 'c lqueue \<Rightarrow> bool" where
  "queue_le a b \<longleftrightarrow> name_less (lq_name a) (lq_name b)
     \<or> lq_name a = lq_name b \<and> (lq_exact a \<noteq> None \<or> lq_exact b = None)"

lemma same_name:
  assumes "no_nul a" "no_nul b"
  shows "length a = length b \<and> filename_cmp a b (length b) = 0 \<longleftrightarrow> a = b"
  using filename_cmp_within(2)[of "length b" a b] assms by auto

lemma blocks_name: "b \<in> set (blocks q) \<Longrightarrow> fst b = lq_name q"
  by (auto simp: blocks_def split: option.splits)

lemma blocks_keys_distinct: "distinct (map block_key (blocks q))"
  by (auto simp: blocks_def block_key_def split: option.splits)

lemma join_names:
  "\<lbrakk> ngx_http_join_exact_locations locs = Some qs; q \<in> set qs \<rbrakk> \<Longrightarrow> \<exists>x\<in>set locs. lq_name q = lq_name x"
proof (induction locs arbitrary: qs rule: ngx_http_join_exact_locations.induct)
  case (3 q x locs)
  then show ?case by (auto split: if_splits)
qed auto

lemma join_correct:
  assumes "sorted_wrt queue_le locs" "\<forall>q\<in>set locs. no_nul (lq_name q) \<and> lq_list q = []"
    "\<forall>q\<in>set (tl locs). single q" "\<forall>q\<in>set locs. lq_exact q \<noteq> None \<or> lq_inclusive q \<noteq> None"
  shows "case ngx_http_join_exact_locations locs of
      None \<Rightarrow> \<not> distinct (map block_key (concat (map blocks locs)))
    | Some qs \<Rightarrow> concat (map blocks qs) = concat (map blocks locs) \<and> sorted_names qs
        \<and> distinct (map block_key (concat (map blocks locs)))
        \<and> (\<forall>q\<in>set qs. lq_ok q \<and> lq_list q = [])"
  using assms
proof (induction locs rule: ngx_http_join_exact_locations.induct)
  case 1
  then show ?case by (simp add: sorted_names_def)
next
  case (2 q)
  then show ?case using blocks_keys_distinct[of q] by (simp add: sorted_names_def lq_ok_def)
next
  case (3 q x locs)
  have nn: "no_nul (lq_name q)" "no_nul (lq_name x)" using "3.prems"(2) by simp_all
  have sx: "single x" using "3.prems"(3) by simp
  have le: "queue_le q x" using "3.prems"(1) by simp
  show ?case
  proof (cases "lq_name q = lq_name x")
    case True
    then have c: "length (lq_name q) = length (lq_name x) \<and> filename_cmp (lq_name q) (lq_name x) (length (lq_name x)) = 0"
      using same_name[OF nn] by simp
    show ?thesis
    proof (cases "lq_exact q \<noteq> None \<and> lq_exact x \<noteq> None \<or> lq_inclusive q \<noteq> None \<and> lq_inclusive x \<noteq> None")
      case dup: True
      then have "\<not> distinct (map block_key (blocks q @ blocks x))"
        using True by (auto simp: blocks_def block_key_def split: option.splits)
      moreover have "concat (map blocks (q # x # locs)) = (blocks q @ blocks x) @ concat (map blocks locs)" by simp
      ultimately have "\<not> distinct (map block_key (concat (map blocks (q # x # locs))))"
        by (metis distinct_append map_append)
      then show ?thesis using c dup by simp
    next
      case no_dup: False
      have q: "lq_exact q \<noteq> None" "lq_inclusive q = None" and x: "lq_exact x = None" "lq_inclusive x \<noteq> None"
        using no_dup le sx True "3.prems"(4) by (auto simp: single_def queue_le_def)
      define j where "j = Lq (lq_name q) (lq_exact q) (lq_inclusive x) (lq_list q)"
      have b: "blocks j = blocks q @ blocks x" using q x True by (auto simp: blocks_def j_def)
      have sl: "sorted_wrt queue_le locs" "\<forall>y\<in>set locs. queue_le q y" using "3.prems"(1) by simp_all
      then have "sorted_wrt queue_le (j # locs)" using q True by (simp add: j_def) (auto simp: queue_le_def)
      moreover have "\<forall>r\<in>set (j # locs). no_nul (lq_name r) \<and> lq_list r = []" "\<forall>r\<in>set (tl (j # locs)). single r"
        "\<forall>r\<in>set (j # locs). lq_exact r \<noteq> None \<or> lq_inclusive r \<noteq> None"
        using "3.prems" q by (auto simp: j_def)
      ultimately have IH: "case ngx_http_join_exact_locations (j # locs) of
          None \<Rightarrow> \<not> distinct (map block_key (concat (map blocks (j # locs))))
        | Some qs \<Rightarrow> concat (map blocks qs) = concat (map blocks (j # locs)) \<and> sorted_names qs
            \<and> distinct (map block_key (concat (map blocks (j # locs)))) \<and> (\<forall>q\<in>set qs. lq_ok q \<and> lq_list q = [])"
        using "3.IH"(1)[OF c no_dup] unfolding j_def by blast
      have eq: "ngx_http_join_exact_locations (q # x # locs) = ngx_http_join_exact_locations (j # locs)"
        unfolding j_def by (simp only: ngx_http_join_exact_locations.simps(3) if_P[OF c] if_not_P[OF no_dup])
      have cat: "concat (map blocks (j # locs)) = concat (map blocks (q # x # locs))" using b by simp
      show ?thesis using IH unfolding eq cat .
    qed
  next
    case False
    then have c: "\<not> (length (lq_name q) = length (lq_name x) \<and> filename_cmp (lq_name q) (lq_name x) (length (lq_name x)) = 0)"
      using same_name[OF nn] by simp
    have less: "name_less (lq_name q) (lq_name y)" if "y \<in> set (x # locs)" for y
    proof -
      have qx: "name_less (lq_name q) (lq_name x)" using le False by (simp add: queue_le_def)
      have "y = x \<or> queue_le x y" using that "3.prems"(1) by auto
      then show ?thesis using qx name_less_trans by (auto simp: queue_le_def)
    qed
    have IH: "case ngx_http_join_exact_locations (x # locs) of
          None \<Rightarrow> \<not> distinct (map block_key (concat (map blocks (x # locs))))
        | Some qs \<Rightarrow> concat (map blocks qs) = concat (map blocks (x # locs)) \<and> sorted_names qs
            \<and> distinct (map block_key (concat (map blocks (x # locs)))) \<and> (\<forall>q\<in>set qs. lq_ok q \<and> lq_list q = [])"
      using "3.IH"(2)[OF c] "3.prems" by auto
    have names: "fst b \<noteq> lq_name q" if "b \<in> set (concat (map blocks (x # locs)))" for b
      using that less by (auto dest!: blocks_name) (metis name_less_irrefl)+
    have dist: "distinct (map block_key (concat (map blocks (q # x # locs))))
        \<longleftrightarrow> distinct (map block_key (concat (map blocks (x # locs))))"
    proof -
      have "block_key ` set (blocks q) \<inter> block_key ` set (concat (map blocks (x # locs))) = {}"
        using names blocks_name[of _ q] by (fastforce simp: block_key_def)
      moreover have "concat (map blocks (q # x # locs)) = blocks q @ concat (map blocks (x # locs))" by simp
      ultimately show ?thesis
        using blocks_keys_distinct[of q] by (simp only: map_append distinct_append set_map) blast
    qed
    have e: "ngx_http_join_exact_locations (q # x # locs) = map_option (Cons q) (ngx_http_join_exact_locations (x # locs))"
      by (simp only: ngx_http_join_exact_locations.simps(3) if_not_P[OF c])
    show ?thesis
    proof (cases "ngx_http_join_exact_locations (x # locs)")
      case None
      then show ?thesis using IH dist e by simp
    next
      case (Some qs)
      have "name_less (lq_name q) (lq_name r)" if "r \<in> set qs" for r
        using join_names[OF Some that] less by auto
      moreover have "lq_ok q \<and> lq_list q = []" using "3.prems"(2,4) by (simp add: lq_ok_def)
      ultimately show ?thesis using IH dist e Some by (simp add: sorted_names_Cons)
    qed
  qed
qed

text \<open>The comparison is a total preorder: by the kind of the block, then by the name.\<close>

definition loc_rank :: "loc_conf \<Rightarrow> nat" where
  "loc_rank c = (if noname c then 3 else if named c then 2 else if regex c \<noteq> None then 1 else 0)"

definition name_le :: "loc_conf \<Rightarrow> loc_conf \<Rightarrow> bool" where
  "name_le a b \<longleftrightarrow> name_less (loc_name a) (loc_name b)
     \<or> loc_name a = loc_name b \<and> (exact_match a \<or> \<not> exact_match b)"

lemma strcmp_total: "c_strcmp a b \<le> 0 \<or> c_strcmp b a \<le> 0"
  by (induction a b rule: c_strcmp.induct) auto

lemma strcmp_trans: "\<lbrakk> c_strcmp a b \<le> 0; c_strcmp b c \<le> 0 \<rbrakk> \<Longrightarrow> c_strcmp a c \<le> 0"
proof (induction a b arbitrary: c rule: c_strcmp.induct)
  case (4 a as b bs)
  show ?case
  proof (cases c)
    case (Cons d ds)
    have step: "uint x \<le> uint y" if "c_strcmp (x # xs) (y # ys) \<le> 0" for x y xs ys
    proof (cases "x = y")
      case False
      then have "uint x - uint y \<le> 0" using that by (simp only: c_strcmp.simps if_False)
      then show ?thesis by linarith
    qed simp
    have "uint a \<le> uint b" using step "4.prems"(1) by blast
    moreover have "uint b \<le> uint d" using step "4.prems"(2) Cons by blast
    ultimately have ad: "uint a \<le> uint d" "uint a = uint d \<Longrightarrow> uint a = uint b" by linarith+
    show ?thesis
    proof (cases "a = d")
      case True
      then have ab: "a = b" using ad(2) by (simp only: word_uint_eq_iff)
      have "c_strcmp as bs \<le> 0" "c_strcmp bs ds \<le> 0"
        using "4.prems" Cons True ab by (simp_all only: c_strcmp.simps if_True refl)
      then show ?thesis using "4.IH"[OF ab] Cons True by (simp only: c_strcmp.simps if_True refl)
    next
      case False
      then show ?thesis using ad(1) Cons by (simp only: c_strcmp.simps if_False)
    qed
  qed (use 4 in simp)
next
  case 1
  then show ?case by (cases c) auto
next
  case (2 b bs)
  show ?case by (cases c) auto
qed simp

definition loc_le :: "loc_conf \<Rightarrow> loc_conf \<Rightarrow> bool" where
  "loc_le a b \<longleftrightarrow> loc_rank a < loc_rank b \<or> loc_rank a = loc_rank b
      \<and> (loc_rank a = 0 \<longrightarrow> name_le a b) \<and> (loc_rank a = 2 \<longrightarrow> c_strcmp (loc_name a) (loc_name b) \<le> 0)"

lemma cmp_static:
  assumes "no_nul (loc_name a)" "no_nul (loc_name b)" "loc_rank a = 0" "loc_rank b = 0"
  shows "ngx_http_cmp_locations (lq_of a) (lq_of b) \<le> 0 \<longleftrightarrow> name_le a b"
proof -
  define n where "n = min (length (loc_name a)) (length (loc_name b)) + 1"
  define rc where "rc = filename_cmp (loc_name a @ [0]) (loc_name b @ [0]) n"
  have f: "\<not> noname c \<and> \<not> named c \<and> regex c = None" if "loc_rank c = 0" for c
    using that unfolding loc_rank_def by (simp split: if_splits)
  have c: "rc = 0 \<longleftrightarrow> loc_name a = loc_name b" "rc < 0 \<longleftrightarrow> name_less (loc_name a) (loc_name b)"
    unfolding rc_def n_def using names_compare(2,3)[OF assms(1,2)] by blast+
  have "ngx_http_cmp_locations (lq_of a) (lq_of b) = (if rc = 0 \<and> \<not> exact_match a \<and> exact_match b then 1 else rc)"
    using f[OF assms(3)] f[OF assms(4)] by (simp add: ngx_http_cmp_locations_def Let_def rc_def n_def)
  then show ?thesis unfolding name_le_def c(1,2)[symmetric] by (simp split: if_splits) linarith
qed

lemma cmp_le:
  assumes "no_nul (loc_name a)" "no_nul (loc_name b)"
  shows "ngx_http_cmp_locations (lq_of a) (lq_of b) \<le> 0 \<longleftrightarrow> loc_le a b"
proof (cases "loc_rank a = 0 \<and> loc_rank b = 0")
  case True
  then show ?thesis using cmp_static[OF assms] by (simp add: loc_le_def)
next
  case False
  then show ?thesis unfolding loc_le_def
    by (cases "noname a"; cases "noname b"; cases "named a"; cases "named b"; cases "regex a"; cases "regex b")
       (simp_all add: ngx_http_cmp_locations_def loc_rank_def)
qed

lemma name_le_total: "\<lbrakk> no_nul (loc_name a); no_nul (loc_name b) \<rbrakk> \<Longrightarrow> name_le a b \<or> name_le b a"
  using name_less_total[of "loc_name a" "loc_name b"] by (auto simp: name_le_def)

lemma name_le_trans: "\<lbrakk> name_le a b; name_le b c \<rbrakk> \<Longrightarrow> name_le a c"
  using name_less_trans[of "loc_name a" "loc_name b" "loc_name c"] by (auto simp: name_le_def)

lemma loc_le_total: "\<lbrakk> no_nul (loc_name a); no_nul (loc_name b) \<rbrakk> \<Longrightarrow> loc_le a b \<or> loc_le b a"
  using name_le_total[of a b] strcmp_total[of "loc_name a" "loc_name b"]
  by (cases "loc_rank a" "loc_rank b" rule: linorder_cases; cases "loc_rank b = 0") (simp_all add: loc_le_def)

lemma loc_le_trans: "\<lbrakk> loc_le a b; loc_le b c \<rbrakk> \<Longrightarrow> loc_le a c"
  using name_le_trans[of a b c] strcmp_trans[of "loc_name a" "loc_name b" "loc_name c"]
  by (cases "loc_rank a" "loc_rank b" rule: linorder_cases; cases "loc_rank b" "loc_rank c" rule: linorder_cases)
     (simp_all add: loc_le_def)

lemma location_preorder:
  assumes "\<forall>c\<in>set cs. no_nul (loc_name c)"
  shows "preorder_cmp ngx_http_cmp_locations (set (location_queue cs))"
proof -
  have e: "ngx_http_cmp_locations (lq_of a) (lq_of b) \<le> 0 \<longleftrightarrow> loc_le a b" if "a \<in> set cs" "b \<in> set cs" for a b
    using assms that by (intro cmp_le) simp_all
  have tot: "loc_le a b \<or> loc_le b a" if "a \<in> set cs" "b \<in> set cs" for a b
    using assms that by (intro loc_le_total) simp_all
  show ?thesis unfolding preorder_cmp_def
  proof (intro conjI ballI impI)
    fix x y assume "x \<in> set (location_queue cs)" "y \<in> set (location_queue cs)"
    then obtain a b where "a \<in> set cs" "b \<in> set cs" "x = lq_of a" "y = lq_of b" by (auto simp: location_queue_map)
    then show "ngx_http_cmp_locations x y \<le> 0 \<or> ngx_http_cmp_locations y x \<le> 0" using e tot by blast
  next
    fix x y z assume xyz: "x \<in> set (location_queue cs)" "y \<in> set (location_queue cs)" "z \<in> set (location_queue cs)"
      and h: "ngx_http_cmp_locations x y \<le> 0 \<and> ngx_http_cmp_locations y z \<le> 0"
    then obtain a b c where abc: "a \<in> set cs" "b \<in> set cs" "c \<in> set cs" "x = lq_of a" "y = lq_of b" "z = lq_of c"
      by (auto simp: location_queue_map)
    then have "loc_le a b" "loc_le b c" using h e by blast+
    then show "ngx_http_cmp_locations x z \<le> 0" using e abc loc_le_trans by blast
  qed
qed

subsection \<open>The parts of the sorted queue\<close>

lemma sorted_queue_map: "queue_sort ngx_http_cmp_locations (location_queue cs) = map lq_of (sorted_locations cs)"
  unfolding sorted_locations_def map_map
  by (rule map_idI[symmetric]) (auto simp: location_queue_map)

lemma sorted_locations_mset: "mset (sorted_locations cs) = mset cs"
proof -
  have "mset (sorted_locations cs) = image_mset lq_conf (mset (location_queue cs))"
    by (simp add: sorted_locations_def)
  also have "\<dots> = mset (map (lq_conf \<circ> lq_of) cs)" by (simp add: location_queue_map image_mset.compositionality)
  also have "map (lq_conf \<circ> lq_of) cs = cs" by (simp add: map_idI)
  finally show ?thesis .
qed

lemma sorted_locations_sorted:
  assumes "\<forall>c\<in>set cs. no_nul (loc_name c)"
  shows "sorted_wrt (\<lambda>a b. ngx_http_cmp_locations (lq_of a) (lq_of b) \<le> 0) (sorted_locations cs)"
  using queue_sort_sorted[OF location_preorder[OF assms]] unfolding sorted_queue_map sorted_wrt_map .

lemma rank_split:
  "sorted_wrt (\<lambda>a b. loc_rank a \<le> loc_rank b) cs \<Longrightarrow>
     cs = filter (\<lambda>c. loc_rank c = 0) cs @ filter (\<lambda>c. loc_rank c = 1) cs
       @ filter (\<lambda>c. loc_rank c = 2) cs @ filter (\<lambda>c. loc_rank c = 3) cs"
proof (induction cs)
  case (Cons c cs)
  have r: "loc_rank c = 0 \<or> loc_rank c = 1 \<or> loc_rank c = 2 \<or> loc_rank c = 3" by (simp add: loc_rank_def)
  have above: "\<forall>d\<in>set cs. loc_rank c \<le> loc_rank d" using Cons.prems by simp
  have none: "filter (\<lambda>c. loc_rank c = k) cs = []" if "k < loc_rank c" for k
    using above that by (auto simp: filter_empty_conv)
  show ?case using r Cons.IH Cons.prems none[of 0] none[of 1] none[of 2] by auto
qed simp

subsection \<open>What the static search finds\<close>

definition static_ok :: "loc_conf \<Rightarrow> bool" where
  "static_ok c \<longleftrightarrow> loc_rank c = 0 \<and> no_nul (loc_name c) \<and> length (loc_name c) \<le> 255
     \<and> (auto_redirect c \<longrightarrow> (\<exists>a. loc_name c = a @ [slash]))"

text \<open>
  The answer for a URI, in terms of the blocks as they stand in the configuration: an exact block with the
  name of the URI; else an inclusive one with that name; else a redirect to the name with a slash; else
  the inclusive block with the longest name that the URI extends; else none.
\<close>

definition static_spec :: "loc_conf list \<Rightarrow> loc_conf \<Rightarrow> bytes \<Rightarrow> int \<Rightarrow> loc_conf \<Rightarrow> bool" where
  "static_spec cs c0 uri rc c \<longleftrightarrow>
     (if \<exists>e\<in>set cs. exact_match e \<and> loc_name e = uri then
        rc = NGX_OK \<and> c \<in> set cs \<and> exact_match c \<and> loc_name c = uri
      else if \<exists>e\<in>set cs. loc_name e = uri then
        rc = NGX_AGAIN \<and> c \<in> set cs \<and> loc_name c = uri
      else if \<exists>e\<in>set cs. loc_name e = uri @ [slash] \<and> auto_redirect e then
        rc = NGX_DONE \<and> c \<in> set cs \<and> loc_name c = uri @ [slash]
      else if \<exists>e\<in>set cs. \<not> exact_match e \<and> prefix (loc_name e) uri then
        rc = NGX_AGAIN \<and> c \<in> set cs \<and> \<not> exact_match c \<and> prefix (loc_name c) uri
          \<and> (\<forall>e\<in>set cs. \<not> exact_match e \<and> prefix (loc_name e) uri \<longrightarrow> length (loc_name e) \<le> length (loc_name c))
      else rc = NGX_DECLINED \<and> c = c0)"

text \<open>The queue after joining, in terms of the blocks.\<close>

definition joined :: "loc_conf list \<Rightarrow> loc_conf lqueue list \<Rightarrow> bool" where
  "joined cs qs \<longleftrightarrow>
     (\<forall>c\<in>set cs. \<exists>q\<in>set qs. lq_name q = loc_name c \<and> (if exact_match c then lq_exact q = Some c else lq_inclusive q = Some c))
     \<and> (\<forall>q\<in>set qs. \<forall>c. lq_exact q = Some c \<longrightarrow> c \<in> set cs \<and> exact_match c \<and> lq_name q = loc_name c)
     \<and> (\<forall>q\<in>set qs. \<forall>c. lq_inclusive q = Some c \<longrightarrow> c \<in> set cs \<and> \<not> exact_match c \<and> lq_name q = loc_name c)"

lemma blocks_lq_of: "static_ok c \<Longrightarrow> blocks (lq_of c) = [(loc_name c, exact_match c, c)]"
  by (auto simp: static_ok_def loc_rank_def blocks_def lq_of_def split: if_splits)

lemma blocks_mem:
  "(n, True, c) \<in> set (blocks q) \<longleftrightarrow> lq_exact q = Some c \<and> n = lq_name q"
  "(n, False, c) \<in> set (blocks q) \<longleftrightarrow> lq_inclusive q = Some c \<and> n = lq_name q"
  by (auto simp: blocks_def split: option.splits)

lemma joined_blocks:
  assumes "concat (map blocks qs) = concat (map blocks (map lq_of ds))" "set ds = set cs" "\<forall>c\<in>set cs. static_ok c"
  shows "joined cs qs"
proof -
  have "\<forall>c\<in>set ds. static_ok c" using assms(2,3) by simp
  then have "concat (map blocks (map lq_of ds)) = map (\<lambda>c. (loc_name c, exact_match c, c)) ds"
    by (induction ds) (simp_all add: blocks_lq_of)
  then have S: "set (concat (map blocks qs)) = (\<lambda>c. (loc_name c, exact_match c, c)) ` set cs"
    unfolding assms(1) using assms(2) by simp
  have b: "(\<exists>q\<in>set qs. (n, e, c) \<in> set (blocks q)) \<longleftrightarrow> c \<in> set cs \<and> n = loc_name c \<and> e = exact_match c" for n e c
  proof -
    have "(\<exists>q\<in>set qs. (n, e, c) \<in> set (blocks q)) \<longleftrightarrow> (n, e, c) \<in> set (concat (map blocks qs))" by simp
    then show ?thesis unfolding S by auto
  qed
  show ?thesis unfolding joined_def
  proof (intro conjI ballI allI impI)
    fix c assume c: "c \<in> set cs"
    have "\<exists>q\<in>set qs. (loc_name c, exact_match c, c) \<in> set (blocks q)" by (rule iffD2[OF b]) (simp add: c)
    then obtain q where q: "q \<in> set qs" "(loc_name c, exact_match c, c) \<in> set (blocks q)" by (elim bexE)
    have "lq_name q = loc_name c \<and> (if exact_match c then lq_exact q = Some c else lq_inclusive q = Some c)"
      using q(2) by (cases "exact_match c") (simp_all add: blocks_mem)
    then show "\<exists>q\<in>set qs. lq_name q = loc_name c \<and> (if exact_match c then lq_exact q = Some c else lq_inclusive q = Some c)"
      using q(1) by (rule bexI)
  next
    fix q c assume q: "q \<in> set qs" "lq_exact q = Some c"
    have "c \<in> set cs \<and> lq_name q = loc_name c \<and> True = exact_match c"
      by (rule iffD1[OF b]) (rule bexI[OF _ q(1)], simp add: blocks_mem q(2))
    then show "c \<in> set cs" "exact_match c" "lq_name q = loc_name c" by simp_all
  next
    fix q c assume q: "q \<in> set qs" "lq_inclusive q = Some c"
    have "c \<in> set cs \<and> lq_name q = loc_name c \<and> False = exact_match c"
      by (rule iffD1[OF b]) (rule bexI[OF _ q(1)], simp add: blocks_mem q(2))
    then show "c \<in> set cs" "\<not> exact_match c" "lq_name q = loc_name c" by simp_all
  qed
qed

lemma sorted_distinct: "\<lbrakk> sorted_names qs; q \<in> set qs; r \<in> set qs; lq_name q = lq_name r \<rbrakk> \<Longrightarrow> q = r"
  by (induction qs) (auto simp: sorted_names_Cons)

lemma filter_hd: "filter P xs = y # ys \<Longrightarrow> y \<in> set xs \<and> P y"
proof -
  assume f: "filter P xs = y # ys"
  have "y \<in> set (filter P xs)" unfolding f by simp
  then show ?thesis by simp
qed

lemma sorted_last_longest:
  assumes "sorted_names qs" "\<forall>q\<in>set qs. prefix (lq_name q) u" "q \<in> set qs"
  shows "length (lq_name q) \<le> length (lq_name (last qs))"
  using assms
proof (induction qs rule: rev_induct)
  case (snoc r qs)
  then show ?case
  proof (cases "q = r")
    case False
    then have "name_less (lq_name q) (lq_name r)" using snoc.prems by (auto simp: sorted_names_append)
    moreover have "prefix (lq_name q) (lq_name r) \<or> prefix (lq_name r) (lq_name q)"
      using snoc.prems prefix_same_cases by fastforce
    ultimately have "prefix (lq_name q) (lq_name r)" by (auto simp: prefix_def)
    then show ?thesis by (simp add: prefix_length_le)
  qed simp
qed simp

lemma look_spec:
  assumes "joined cs qs" "sorted_names qs" "\<forall>q\<in>set qs. lq_exact q \<noteq> None \<or> lq_inclusive q \<noteq> None"
    and "look qs uri (NGX_DECLINED, c0) = (rc, c)"
  shows "static_spec cs c0 uri rc c"
proof -
  note j = assms(1)[unfolded joined_def]
  have to: "\<exists>q\<in>set qs. lq_name q = loc_name c \<and> (if exact_match c then lq_exact q = Some c else lq_inclusive q = Some c)"
    if "c \<in> set cs" for c using j that by blast
  have ex: "c \<in> set cs \<and> exact_match c \<and> lq_name q = loc_name c" if "q \<in> set qs" "lq_exact q = Some c" for q c
    using j that by blast
  have inc: "c \<in> set cs \<and> \<not> exact_match c \<and> lq_name q = loc_name c" if "q \<in> set qs" "lq_inclusive q = Some c" for q c
    using j that by blast
  have conf: "lq_conf q \<in> set cs \<and> loc_name (lq_conf q) = lq_name q" if "q \<in> set qs" for q
    using ex[OF that] inc[OF that] assms(3) that by (cases "lq_exact q"; cases "lq_inclusive q") (auto simp: lq_conf_def)
  show ?thesis
  proof (cases "filter (\<lambda>q. lq_name q = uri) qs")
    case (Cons q rest)
    then have q: "q \<in> set qs" "lq_name q = uri" using filter_hd[OF Cons] by simp_all
    have only: "r = q" if "r \<in> set qs" "lq_name r = uri" for r using sorted_distinct[OF assms(2) that(1) q(1)] that q by simp
    show ?thesis
    proof (cases "lq_exact q")
      case (Some e)
      then have "rc = NGX_OK" "c = e" using assms(4) Cons by (simp_all add: look_def)
      then show ?thesis using ex[OF q(1) Some] q(2) by (auto simp: static_spec_def)
    next
      case None
      then obtain e where e: "lq_inclusive q = Some e" using assms(3) q(1) by auto
      have r: "rc = NGX_AGAIN" "c = e" using assms(4) Cons None e by (simp_all add: look_def)
      have "\<not> (exact_match x \<and> loc_name x = uri)" if "x \<in> set cs" for x
        using to[OF that] only None by auto
      then show ?thesis using inc[OF q(1) e] q(2) r by (auto simp: static_spec_def)
    qed
  next
    case Nil
    have no_eq: "loc_name x \<noteq> uri" if "x \<in> set cs" for x
      using to[OF that] Nil by (auto simp: filter_empty_conv)
    show ?thesis
    proof (cases "filter (lq_redirect uri) qs")
      case (Cons q rest)
      then have q: "q \<in> set qs" "lq_name q = uri @ [slash]" "lq_auto_redirect q"
        using filter_hd[OF Cons] by (simp_all add: lq_redirect_def)
      have r: "rc = NGX_DONE" "c = lq_conf q" using assms(4) Nil Cons by (simp_all add: look_def)
      have "\<exists>e\<in>set cs. loc_name e = uri @ [slash] \<and> auto_redirect e"
        using q ex[OF q(1)] inc[OF q(1)] by (auto simp: lq_auto_redirect_def split: option.splits)
      then show ?thesis using conf[OF q(1)] q(2) r no_eq by (auto simp: static_spec_def)
    next
      case Nil2: Nil
      have no_red: "\<not> (loc_name x = uri @ [slash] \<and> auto_redirect x)" if x: "x \<in> set cs" for x
      proof
        assume a: "loc_name x = uri @ [slash] \<and> auto_redirect x"
        obtain q where "q \<in> set qs" "lq_name q = loc_name x" "if exact_match x then lq_exact q = Some x else lq_inclusive q = Some x"
          using to[OF x] by blast
        then have "lq_redirect uri q" "q \<in> set qs" using a
          by (auto simp: lq_redirect_def lq_auto_redirect_def split: option.splits if_splits)
        then show False using Nil2 by (auto simp: filter_empty_conv)
      qed
      show ?thesis
      proof (cases "filter (lq_covers uri) qs")
        case Nil3: Nil
        have "\<not> (\<not> exact_match x \<and> prefix (loc_name x) uri)" if x: "x \<in> set cs" for x
        proof
          assume a: "\<not> exact_match x \<and> prefix (loc_name x) uri"
          then obtain q where q: "q \<in> set qs" "lq_name q = loc_name x" "lq_inclusive q = Some x" using to[OF x] by auto
          then have "lq_covers uri q" using a no_eq[OF x] by (simp add: lq_covers_def strict_prefix_def)
          then show False using Nil3 q(1) by (simp add: filter_empty_conv)
        qed
        then show ?thesis using assms(4) Nil Nil2 Nil3 no_eq no_red by (auto simp: look_def static_spec_def)
      next
        case (Cons q0 rest)
        define F where "F = filter (lq_covers uri) qs"
        have F: "F \<noteq> []" "set F \<subseteq> set qs" "\<forall>q\<in>set F. lq_covers uri q"
        proof -
          show "F \<noteq> []" using Cons by (simp add: F_def)
        qed (auto simp: F_def)
        have sF: "sorted_names F" using assms(2) unfolding sorted_names_def F_def
          by (simp add: sorted_wrt_map sorted_wrt_filter)
        define q where "q = last F"
        have q: "q \<in> set qs" "lq_covers uri q" using F last_in_set[OF F(1)] by (auto simp: q_def)
        then obtain e where e: "lq_inclusive q = Some e" "strict_prefix (lq_name q) uri" by (auto simp: lq_covers_def)
        have r: "rc = NGX_AGAIN" "c = e" using assms(4) Nil Nil2 Cons e q_def F_def by (simp_all add: look_def)
        have c: "c \<in> set cs" "\<not> exact_match c" "loc_name c = lq_name q" "prefix (loc_name c) uri"
          using inc[OF q(1) e(1)] r e(2) by (auto simp: strict_prefix_def)
        have "length (loc_name x) \<le> length (loc_name c)" if x: "x \<in> set cs" "\<not> exact_match x" "prefix (loc_name x) uri" for x
        proof -
          obtain p where p: "p \<in> set qs" "lq_name p = loc_name x" "lq_inclusive p = Some x" using to[OF x(1)] x(2) by auto
          then have "p \<in> set F" using x(3) no_eq[OF x(1)] by (simp add: F_def lq_covers_def strict_prefix_def)
          then have "length (lq_name p) \<le> length (lq_name (last F))"
            by (intro sorted_last_longest[OF sF]) (use F(3) in \<open>auto simp: lq_covers_def strict_prefix_def\<close>)
          then show ?thesis using p(2) c(3) by (simp add: q_def)
        qed
        then show ?thesis using c r no_eq no_red by (auto simp: static_spec_def)
      qed
    qed
  qed
qed

subsection \<open>A server whose locations are not nested\<close>

definition flat_conf :: "loc_conf \<Rightarrow> bool" where
  "flat_conf c \<longleftrightarrow> locations c = [] \<and> regex_locations c = [] \<and> static_locations c = Null
     \<and> no_nul (loc_name c) \<and> (noname c \<longrightarrow> regex c = None \<and> \<not> named c) \<and> (named c \<longrightarrow> regex c = None)
     \<and> (loc_rank c = 0 \<longrightarrow> static_ok c)"

definition flat_server :: "loc_conf \<Rightarrow> bool" where
  "flat_server srv \<longleftrightarrow> regex_locations srv = [] \<and> static_locations srv = Null \<and> (\<forall>c\<in>set (locations srv). flat_conf c)"

abbreviation static_blocks :: "loc_conf list \<Rightarrow> loc_conf list" where
  "static_blocks cs \<equiv> filter (\<lambda>c. loc_rank c = 0) cs"

abbreviation regex_blocks :: "loc_conf list \<Rightarrow> loc_conf list" where
  "regex_blocks cs \<equiv> filter (\<lambda>c. loc_rank c = 1) cs"

lemma sorted_locations_Nil [simp]: "sorted_locations [] = []"
  by (simp add: sorted_locations_def location_queue_def)

lemma init_flat: "flat_conf c \<Longrightarrow> ngx_http_init_locations arr c = Some (c, [])"
  by (cases c) (simp add: flat_conf_def named_part_def regex_part_def static_part_def)

lemma static_flat: "flat_conf c \<Longrightarrow> ngx_http_init_static_location_trees alloc c = Some c"
  by (cases c) (simp add: flat_conf_def)

lemma find_flat: "flat_conf c \<Longrightarrow> ngx_http_core_find_location rx uri c = (NGX_DECLINED, c)"
  by (subst ngx_http_core_find_location.simps) (simp add: flat_conf_def ngx_rc)

lemma those_map_Some: "(\<And>x. x \<in> set xs \<Longrightarrow> f x = Some (g x)) \<Longrightarrow> those (map f xs) = Some (map g xs)"
  by (induction xs) auto

lemma takeWhile_dropWhile_append:
  assumes "\<forall>x\<in>set xs. P x" "\<forall>y\<in>set ys. \<not> P y"
  shows "takeWhile P (xs @ ys) = xs" "dropWhile P (xs @ ys) = ys"
  using assms by (induction xs; cases ys; simp)+

text \<open>The three parts of the sorted queue are the blocks of the three kinds.\<close>

lemma parts_of_sorted:
  assumes "\<forall>c\<in>set cs. flat_conf c"
  defines "ds \<equiv> sorted_locations cs"
  defines "kept \<equiv> takeWhile (\<lambda>c. \<not> loop_breaks c) ds"
  shows "static_part kept = static_blocks ds" and "regex_part kept = regex_blocks ds"
    and "named_part kept = filter (\<lambda>c. loc_rank c = 2) ds"
proof -
  have mem: "set ds = set cs" by (simp add: ds_def sorted_locations_set)
  have fl: "flat_conf c" if "c \<in> set ds" for c using assms(1) mem that by simp
  have k3: "loop_breaks c \<longleftrightarrow> loc_rank c = 3" if "c \<in> set ds" for c
    using fl[OF that] by (auto simp: loop_breaks_def loc_rank_def flat_conf_def)
  have k2: "regex c = None \<and> named c \<longleftrightarrow> loc_rank c = 2" if "c \<in> set ds" for c
    using fl[OF that] by (auto simp: loc_rank_def flat_conf_def)
  have k1: "regex c = None \<longleftrightarrow> loc_rank c = 0" if "c \<in> set ds" "loc_rank c < 2" for c
    using that by (auto simp: loc_rank_def split: if_splits)
  have nn: "\<forall>c\<in>set cs. no_nul (loc_name c)" using assms(1) by (simp add: flat_conf_def)
  have "sorted_wrt (\<lambda>a b. loc_rank a \<le> loc_rank b) ds"
  proof (rule sorted_wrt_mono_rel[rotated])
    show "sorted_wrt (\<lambda>a b. ngx_http_cmp_locations (lq_of a) (lq_of b) \<le> 0) ds"
      unfolding ds_def by (rule sorted_locations_sorted[OF nn])
    fix a b assume "a \<in> set ds" "b \<in> set ds" "ngx_http_cmp_locations (lq_of a) (lq_of b) \<le> 0"
    then show "loc_rank a \<le> loc_rank b" using cmp_le[of a b] nn mem by (auto simp: loc_le_def)
  qed
  note split = rank_split[OF this]
  define A where "A = static_blocks ds"
  define B where "B = regex_blocks ds"
  define C where "C = filter (\<lambda>c. loc_rank c = 2) ds"
  define D where "D = filter (\<lambda>c. loc_rank c = 3) ds"
  have ds: "ds = (A @ B @ C) @ D" using split by (simp add: A_def B_def C_def D_def)
  have "\<forall>c\<in>set (A @ B @ C). \<not> loop_breaks c" "\<forall>c\<in>set D. \<not> \<not> loop_breaks c"
    using k3 by (auto simp: A_def B_def C_def D_def)
  then have "takeWhile (\<lambda>c. \<not> loop_breaks c) ((A @ B @ C) @ D) = A @ B @ C" by (rule takeWhile_dropWhile_append(1))
  then have K: "kept = (A @ B) @ C" unfolding kept_def ds append_assoc .
  have "\<not> (regex c = None \<and> named c)" if "c \<in> set (A @ B)" for c
    using k2[of c] that by (auto simp: A_def B_def)
  moreover have "regex c = None \<and> named c" if "c \<in> set C" for c
    using k2[of c] that by (simp add: C_def)
  ultimately have "\<forall>c\<in>set (A @ B). \<not> (regex c = None \<and> named c)" "\<forall>c\<in>set C. \<not> \<not> (regex c = None \<and> named c)"
    by blast+
  then have AB: "takeWhile (\<lambda>c. \<not> (regex c = None \<and> named c)) kept = A @ B"
    "dropWhile (\<lambda>c. \<not> (regex c = None \<and> named c)) kept = C"
    unfolding K by (rule takeWhile_dropWhile_append)+
  have "\<forall>c\<in>set A. regex c = None" "\<forall>c\<in>set B. \<not> regex c = None"
    using k1 by (auto simp: A_def B_def)
  then have "takeWhile (\<lambda>c. regex c = None) (A @ B) = A" "dropWhile (\<lambda>c. regex c = None) (A @ B) = B"
    by (rule takeWhile_dropWhile_append)+
  then show "static_part kept = static_blocks ds" "regex_part kept = regex_blocks ds"
    "named_part kept = filter (\<lambda>c. loc_rank c = 2) ds"
    using AB by (simp_all add: static_part_def regex_part_def named_part_def A_def B_def C_def)
qed

text \<open>Sorting keeps the regular expressions in the order of the configuration.\<close>

lemma regex_order:
  assumes "\<forall>c\<in>set cs. no_nul (loc_name c)"
  shows "regex_blocks (sorted_locations cs) = regex_blocks cs"
proof (cases "regex_blocks cs")
  case Nil
  then show ?thesis using sorted_locations_set by (auto simp: filter_empty_conv)
next
  case (Cons k rest)
  then have k: "k \<in> set cs" "loc_rank k = 1" using filter_hd[OF Cons] by simp_all
  have same: "cmp_same ngx_http_cmp_locations (lq_of k) (lq_of c) \<longleftrightarrow> loc_rank c = 1" if c: "c \<in> set cs" for c
  proof -
    have nn: "no_nul (loc_name k)" "no_nul (loc_name c)" using assms k(1) c by simp_all
    show ?thesis unfolding cmp_same_def cmp_le[OF nn] cmp_le[OF nn(2,1)] loc_le_def k(2) by auto
  qed
  have f: "filter (cmp_same ngx_http_cmp_locations (lq_of k)) (map lq_of xs) = map lq_of (regex_blocks xs)"
    if "set xs \<subseteq> set cs" for xs
  proof -
    have "filter (cmp_same ngx_http_cmp_locations (lq_of k) \<circ> lq_of) xs = regex_blocks xs"
      by (rule filter_cong) (use same that in auto)
    then show ?thesis unfolding filter_map by simp
  qed
  have "lq_of k \<in> set (location_queue cs)" using k(1) by (simp add: location_queue_map)
  from queue_sort_stable[OF location_preorder[OF assms] this]
  have "map lq_of (regex_blocks (sorted_locations cs)) = map lq_of (regex_blocks cs)"
    unfolding sorted_queue_map unfolding location_queue_map
    using f[of cs] f[of "sorted_locations cs"] by (simp only: sorted_locations_set order_refl)
  then have "map lq_conf (map lq_of (regex_blocks (sorted_locations cs))) = map lq_conf (map lq_of (regex_blocks cs))"
    by (rule arg_cong)
  then show ?thesis by (simp add: comp_def)
qed

lemma some_if: "(\<not> P \<Longrightarrow> x \<noteq> None) \<Longrightarrow> \<exists>l. (if P then Some y else x) = Some l"
  by (cases P) auto

lemma create_tree_some:
  "\<lbrakk> locs \<noteq> []; \<And>n. alloc n \<rbrakk> \<Longrightarrow> ngx_http_create_locations_tree alloc locs pre \<noteq> None"
proof (induction "size_list size locs" arbitrary: locs pre rule: less_induct)
  case less
  note sz = size_list_middle[OF less.prems(1)] lqueue_size_list[of "queue_middle locs"]
  have a: "ngx_http_create_locations_tree alloc (take (length locs div 2) locs) p \<noteq> None"
    if "take (length locs div 2) locs \<noteq> []" for p using less.hyps[OF _ that less.prems(2)] sz by simp
  have b: "ngx_http_create_locations_tree alloc (drop (Suc (length locs div 2)) locs) p \<noteq> None"
    if "drop (Suc (length locs div 2)) locs \<noteq> []" for p using less.hyps[OF _ that less.prems(2)] sz by simp
  have c: "ngx_http_create_locations_tree alloc (lq_list (queue_middle locs)) p \<noteq> None"
    if "lq_list (queue_middle locs) \<noteq> []" for p using less.hyps[OF _ that less.prems(2)] sz by simp
  have "\<exists>l. (if take (length locs div 2) locs = [] then Some Null
      else ngx_http_create_locations_tree alloc (take (length locs div 2) locs) pre) = Some l"
    by (rule some_if[OF a])
  then obtain l where l: "(if take (length locs div 2) locs = [] then Some Null
      else ngx_http_create_locations_tree alloc (take (length locs div 2) locs) pre) = Some l" ..
  have "\<exists>r. (if take (length locs div 2) locs = [] \<or> drop (Suc (length locs div 2)) locs = [] then Some Null
      else ngx_http_create_locations_tree alloc (drop (Suc (length locs div 2)) locs) pre) = Some r"
    by (rule some_if) (use b in blast)
  then obtain r where r: "(if take (length locs div 2) locs = [] \<or> drop (Suc (length locs div 2)) locs = [] then Some Null
      else ngx_http_create_locations_tree alloc (drop (Suc (length locs div 2)) locs) pre) = Some r" ..
  define n where "n = pre + (length (lq_name (queue_middle locs)) - pre)"
  have "\<exists>t. (if lq_list (queue_middle locs) = [] then Some Null
      else ngx_http_create_locations_tree alloc (lq_list (queue_middle locs)) n) = Some t"
    by (rule some_if[OF c])
  then obtain t where t: "(if lq_list (queue_middle locs) = [] then Some Null
      else ngx_http_create_locations_tree alloc (lq_list (queue_middle locs)) n) = Some t" ..
  show ?case
    by (subst ngx_http_create_locations_tree.simps)
       (simp only: Let_def if_not_P[OF less.prems(1)] less.prems(2) not_True_eq_False if_False l r t[unfolded n_def]
          option.case option.distinct not_False_eq_True)
qed

text \<open>The static blocks, sorted, as a queue that can be joined.\<close>

lemma static_queue:
  assumes "\<forall>c\<in>set cs. flat_conf c"
  defines "S \<equiv> static_blocks (sorted_locations cs)"
  shows "sorted_wrt queue_le (location_queue S)" "\<forall>c\<in>set S. static_ok c" "set S = set (static_blocks cs)"
    "mset S = mset (static_blocks cs)"
    "\<forall>q\<in>set (location_queue S). no_nul (lq_name q) \<and> lq_list q = []" "\<forall>q\<in>set (location_queue S). single q"
    "\<forall>q\<in>set (location_queue S). lq_exact q \<noteq> None \<or> lq_inclusive q \<noteq> None"
proof -
  have nn: "\<forall>c\<in>set cs. no_nul (loc_name c)" using assms(1) by (simp add: flat_conf_def)
  show ok: "\<forall>c\<in>set S. static_ok c" using assms(1) by (auto simp: S_def sorted_locations_set flat_conf_def)
  show "set S = set (static_blocks cs)" by (simp add: S_def sorted_locations_set)
  show "mset S = mset (static_blocks cs)" unfolding S_def mset_filter sorted_locations_mset ..
  have "sorted_wrt (\<lambda>a b. ngx_http_cmp_locations (lq_of a) (lq_of b) \<le> 0) S"
    unfolding S_def by (rule sorted_wrt_filter[OF sorted_locations_sorted[OF nn]])
  then have "sorted_wrt (\<lambda>a b. queue_le (lq_of a) (lq_of b)) S"
  proof (rule sorted_wrt_mono_rel[rotated])
    fix a b assume ab: "a \<in> set S" "b \<in> set S" "ngx_http_cmp_locations (lq_of a) (lq_of b) \<le> 0"
    have r: "loc_rank a = 0" "loc_rank b = 0" "no_nul (loc_name a)" "no_nul (loc_name b)"
      using ok ab by (auto simp: static_ok_def)
    then have "name_le a b" using cmp_static ab(3) by blast
    then show "queue_le (lq_of a) (lq_of b)"
      using r(1,2) by (auto simp: queue_le_def name_le_def lq_of_def loc_rank_def split: if_splits)
  qed
  then show "sorted_wrt queue_le (location_queue S)" by (simp add: location_queue_map sorted_wrt_map)
  show "\<forall>q\<in>set (location_queue S). no_nul (lq_name q) \<and> lq_list q = []" using ok by (auto simp: location_queue_map static_ok_def)
  show "\<forall>q\<in>set (location_queue S). single q" "\<forall>q\<in>set (location_queue S). lq_exact q \<noteq> None \<or> lq_inclusive q \<noteq> None"
    by (auto simp: location_queue_map single_def lq_of_def)
qed

subsection \<open>What the locations promise\<close>

text \<open>Building the locations of a server, both passes.\<close>

definition build_server :: "(loc_conf \<Rightarrow> bool \<Rightarrow> bool) \<Rightarrow> (bytes \<Rightarrow> bool) \<Rightarrow> loc_conf \<Rightarrow> loc_conf option" where
  "build_server arr alloc srv =
     (case ngx_http_init_locations arr srv of None \<Rightarrow> None
      | Some (srv', named_locs) \<Rightarrow> ngx_http_init_static_location_trees alloc srv')"

lemma init_flat_server:
  assumes "flat_server (Loc_conf nm rx non nd ex nr au cs rl st)"
    and "ngx_http_init_locations arr (Loc_conf nm rx non nd ex nr au cs rl st) = Some (srv, named_locs)"
  shows "srv = Loc_conf nm rx non nd ex nr au (static_blocks (sorted_locations cs)) (regex_blocks cs) Null"
proof -
  have fl: "\<forall>c\<in>set cs. flat_conf c" and rl: "rl = []" "st = Null" using assms(1) by (simp_all add: flat_server_def)
  define K where "K = kept_locations (sorted_locations cs)"
  define V where "V = visited_locations (sorted_locations cs)"
  have "those (map (ngx_http_init_locations arr) V) = Some (map (\<lambda>c. (c, [])) V)"
    by (rule those_map_Some) (use fl in \<open>auto simp: V_def intro!: init_flat dest!: visited_locations_set\<close>)
  moreover have "map fst (take (length K) (map (\<lambda>c. (c, [] :: loc_conf list)) V)) = K" by (simp add: K_def V_def comp_def)
  moreover have "regex_blocks (sorted_locations cs) = regex_blocks cs"
    by (rule regex_order) (use fl in \<open>simp add: flat_conf_def\<close>)
  ultimately show ?thesis
    using assms(2) parts_of_sorted[OF fl, folded kept_locations_def] rl by (auto simp: Let_def simp flip: K_def V_def split: if_splits)
qed

text \<open>The regular expressions that are tried after the static search, and what a request ends with.\<close>

definition location_spec ::
    "(nat \<Rightarrow> bytes \<Rightarrow> int) \<Rightarrow> loc_conf list \<Rightarrow> loc_conf \<Rightarrow> bytes \<Rightarrow> int \<times> loc_conf \<Rightarrow> bool" where
  "location_spec rx cs srv uri ans \<longleftrightarrow>
     (\<exists>rc c. static_spec (static_blocks cs) srv uri rc c
        \<and> ans = (if rc = NGX_OK \<or> rc = NGX_DONE then (rc, c)
                 else if rc = NGX_AGAIN \<and> noregex c then (NGX_DECLINED, c)
                 else case regex_loop rx uri (regex_blocks cs) of
                        None \<Rightarrow> (NGX_DECLINED, c)
                      | Some (n, e) \<Rightarrow> if n = NGX_OK then (NGX_OK, e) else (NGX_ERROR, c)))"

lemma static_result_block:
  assumes "static_spec cs srv uri rc c"
  shows "rc = NGX_DECLINED \<and> c = srv \<or> c \<in> set cs \<and> rc \<in> {NGX_OK, NGX_DONE, NGX_AGAIN}"
  using assms by (auto simp: static_spec_def split: if_splits)

text \<open>The static tree of a flat server.\<close>

lemma static_tree_spec:
  assumes "flat_server srv0" "build_server arr alloc srv0 = Some srv" "no_nul uri"
    and "ngx_http_core_find_static_location (static_locations srv) uri NGX_DECLINED srv = (rc, c)"
  shows "static_spec (static_blocks (locations srv0)) srv uri rc c \<and> regex_locations srv = regex_blocks (locations srv0)"
proof -
  obtain nm rx non nd ex nr au cs rl st where srv0: "srv0 = Loc_conf nm rx non nd ex nr au cs rl st" by (cases srv0)
  have fl: "\<forall>c\<in>set cs. flat_conf c" using assms(1) by (simp add: flat_server_def srv0)
  define S where "S = static_blocks (sorted_locations cs)"
  define srv1 where "srv1 = Loc_conf nm rx non nd ex nr au S (regex_blocks cs) Null"
  obtain named_locs where i: "ngx_http_init_locations arr srv0 = Some (srv1, named_locs)"
      and b: "ngx_http_init_static_location_trees alloc srv1 = Some srv"
    using assms(2) init_flat_server[of nm rx non nd ex nr au cs rl st arr] assms(1)
    unfolding build_server_def srv0 srv1_def S_def by (auto simp del: ngx_http_init_locations.simps split: option.splits)
  note q = static_queue[OF fl, folded S_def]
  have flS: "those (map (ngx_http_init_static_location_trees alloc) S) = Some (map (\<lambda>c. c) S)"
    by (rule those_map_Some, rule static_flat) (use fl in \<open>auto simp: S_def sorted_locations_set\<close>)
  show ?thesis
  proof (cases "S = []")
    case True
    then have "srv = srv1" using b by (simp add: srv1_def)
    then have "static_locations srv = Null" "regex_locations srv = regex_blocks cs" by (simp_all add: srv1_def)
    moreover have "static_blocks cs = []" using q(3) True by simp
    ultimately show ?thesis using assms(4) by (simp add: srv0 static_spec_def)
  next
    case False
    obtain qs tree where qs: "ngx_http_join_exact_locations (location_queue S) = Some qs"
        and tree: "ngx_http_create_locations_tree alloc (ngx_http_create_locations_list qs) 0 = Some tree"
        and srv: "srv = Loc_conf nm rx non nd ex nr au S (regex_blocks cs) tree"
      using b False flS unfolding srv1_def
      by (auto simp del: ngx_http_create_locations_tree.simps split: option.splits)
    have st: "\<forall>q\<in>set (tl (location_queue S)). single q" using q(6) by (cases "location_queue S") auto
    have J: "concat (map blocks qs) = concat (map blocks (location_queue S))" "sorted_names qs" "\<forall>q\<in>set qs. lq_ok q \<and> lq_list q = []"
      using join_correct[OF q(1,5) st q(7)] qs by simp_all
    have joined: "joined (static_blocks cs) qs"
      using joined_blocks[of qs S "static_blocks cs"] J(1) q(2,3) by (simp add: location_queue_map)
    have flat: "flat (ngx_http_create_locations_list qs) = qs" "nested (ngx_http_create_locations_list qs)"
      using create_list_correct[OF J(2)] J(3) by (auto simp: plain_def)
    have lvl: "level_ok [] (ngx_http_create_locations_list qs)"
      unfolding level_ok_def flat(1)
    proof (intro conjI ballI flat(2) J(2))
      fix x assume x: "x \<in> set qs"
      have "lq_exact x \<noteq> None \<or> lq_inclusive x \<noteq> None" using J(3) x by (simp add: lq_ok_def)
      then obtain d where d: "d \<in> set S" "lq_name x = loc_name d" using joined x q(3) unfolding joined_def by fastforce
      have ok: "static_ok d" using q(2) d(1) by simp
      show "no_nul (lq_name x)" "prefix [] (lq_name x)" "length (lq_name x) \<le> 255" using ok d(2) by (simp_all add: static_ok_def)
      show "lq_auto_redirect x \<longrightarrow> (\<exists>a. lq_name x = a @ [slash])"
      proof
        assume "lq_auto_redirect x"
        then obtain e where "lq_exact x = Some e \<or> lq_inclusive x = Some e" "auto_redirect e"
          by (auto simp: lq_auto_redirect_def split: option.splits)
        then have "e \<in> set S" "lq_name x = loc_name e" "auto_redirect e" using joined x q(3) unfolding joined_def by auto
        then show "\<exists>a. lq_name x = a @ [slash]" using q(2) by (auto simp: static_ok_def)
      qed
    qed
    have "ngx_http_core_find_static_location tree uri NGX_DECLINED srv = look qs uri (NGX_DECLINED, srv)"
      using find_static_correct[of alloc "ngx_http_create_locations_list qs" "[]" tree uri] tree lvl assms(3) flat(1) by simp
    then have "static_spec (static_blocks cs) srv uri rc c"
      using look_spec[OF joined J(2)] J(3) assms(4) srv by (auto simp: lq_ok_def)
    then show ?thesis by (simp add: srv0 srv)
  qed
qed

text \<open>
  Property C2 (functional).  The location of a request follows the documented rules.  For every server whose locations are not nested and have names without
  NUL, the exact and prefix ones of at most 255 bytes (longer ones are cut, see \<open>location_length_wraps\<close>), and redirect only from names that end in a
  slash, in whatever order they are in the configuration, if it can be built, and for every URI without NUL, the search
  in the tree gives: an exact location with the name of the URI; else a prefix location with that name; else the redirect of a location that
  redirects and has the URI and a slash as its name; else, of the prefix locations that the URI starts with, the one with the longest name.  An exact location and a redirect
  are final, and so is a prefix location that forbids regular expressions; else the first regular expression, in the order of the configuration, that
  does not decline the URI is the location (or an error, if it fails); else the prefix location is; else the server.
\<close>

theorem location_of_request:
  assumes "flat_server srv0" and "build_server arr alloc srv0 = Some srv" and "no_nul uri"
  shows "location_spec rx (locations srv0) srv uri (ngx_http_core_find_location rx uri srv)"
proof -
  obtain rc c where f: "ngx_http_core_find_static_location (static_locations srv) uri NGX_DECLINED srv = (rc, c)"
    by (cases "ngx_http_core_find_static_location (static_locations srv) uri NGX_DECLINED srv")
  note s = static_tree_spec[OF assms f]
  have fl: "flat_conf e" if "e \<in> set (locations srv0)" for e using assms(1) that by (simp add: flat_server_def)
  have nested: "ngx_http_core_find_location rx uri c = (NGX_DECLINED, c)" if "rc = NGX_AGAIN"
    using static_result_block[OF conjunct1[OF s]] that by (intro find_flat fl) (auto simp: ngx_rc)
  have re: "ngx_http_core_find_location rx uri e = (NGX_DECLINED, e)" if "regex_loop rx uri (regex_blocks (locations srv0)) = Some (n, e)" for n e
    using regex_loop_mem[OF that] by (intro find_flat fl) auto
  have rcs: "rc = NGX_OK \<or> rc = NGX_DONE \<or> rc = NGX_AGAIN \<or> rc = NGX_DECLINED"
    using static_result_block[OF conjunct1[OF s]] by auto
  have "ngx_http_core_find_location rx uri srv =
      (if rc = NGX_OK \<or> rc = NGX_DONE then (rc, c)
       else if rc = NGX_AGAIN \<and> noregex c then (NGX_DECLINED, c)
       else case regex_loop rx uri (regex_blocks (locations srv0)) of
              None \<Rightarrow> (NGX_DECLINED, c)
            | Some (n, e) \<Rightarrow> if n = NGX_OK then (NGX_OK, e) else (NGX_ERROR, c))"
    by (subst ngx_http_core_find_location.simps)
       (use f nested re rcs conjunct2[OF s] in \<open>auto simp: ngx_rc split: option.splits\<close>)
  then show ?thesis using conjunct1[OF s] unfolding location_spec_def by blast
qed

lemma location_of_request_witness:
  "let root = Loc_conf (chars ''/'') None False False False False False [] [] Null;
       img = Loc_conf (chars ''/img/'') None False False False False False [] [] Null;
       php = Loc_conf [] (Some 7) False False False False False [] [] Null;
       srv0 = Loc_conf [] None False False False False False [php, img, root] [] Null;
       rx = (\<lambda>k u. if k = 7 \<and> drop (length u - 4) u = chars ''.php'' then NGX_OK else NGX_DECLINED)
   in \<exists>srv. build_server (\<lambda>c b. True) (\<lambda>n. True) srv0 = Some srv
        \<and> location_spec rx [php, img, root] srv (chars ''/img/a.php'')
             (ngx_http_core_find_location rx (chars ''/img/a.php'') srv)
        \<and> ngx_http_core_find_location rx (chars ''/img/a.php'') srv = (NGX_OK, php)
        \<and> ngx_http_core_find_location rx (chars ''/img/a.png'') srv = (NGX_DECLINED, img)"
proof -
  define root where "root = Loc_conf (chars ''/'') None False False False False False [] [] Null"
  define img where "img = Loc_conf (chars ''/img/'') None False False False False False [] [] Null"
  define php where "php = Loc_conf [] (Some 7) False False False False False [] [] Null"
  define srv0 where "srv0 = Loc_conf [] None False False False False False [php, img, root] [] Null"
  define rx where "rx = (\<lambda>k u. if k = (7::nat) \<and> drop (length u - 4) u = chars ''.php'' then NGX_OK else NGX_DECLINED)"
  note defs = root_def img_def php_def srv0_def rx_def
  have built: "case build_server (\<lambda>c b. True) (\<lambda>n. True) srv0 of None \<Rightarrow> False
     | Some srv \<Rightarrow> ngx_http_core_find_location rx (chars ''/img/a.php'') srv = (NGX_OK, php)
         \<and> ngx_http_core_find_location rx (chars ''/img/a.png'') srv = (NGX_DECLINED, img)"
    unfolding defs by code_simp
  have nn: "no_nul (chars ''/'')" "no_nul (chars ''/img/'')" by code_simp+
  have flat: "flat_server srv0"
    using nn by (simp add: defs flat_server_def flat_conf_def static_ok_def loc_rank_def chars_def)
  have uri: "no_nul (chars ''/img/a.php'')" by code_simp
  obtain srv where b: "build_server (\<lambda>c b. True) (\<lambda>n. True) srv0 = Some srv"
    using built by (auto split: option.splits)
  show ?thesis
    using location_of_request[OF flat b uri, of rx] built b
    unfolding Let_def root_def[symmetric] img_def[symmetric] php_def[symmetric] rx_def[symmetric] srv0_def[symmetric]
    by (simp add: srv0_def)
qed

lemma init_flat_some:
  assumes "flat_server (Loc_conf nm rx non nd ex nr au cs rl st)"
  shows "\<exists>named_locs. ngx_http_init_locations (\<lambda>c b. True) (Loc_conf nm rx non nd ex nr au cs rl st)
    = Some (Loc_conf nm rx non nd ex nr au (static_blocks (sorted_locations cs)) (regex_blocks cs) Null, named_locs)"
proof -
  have fl: "\<forall>c\<in>set cs. flat_conf c" using assms(1) by (simp add: flat_server_def)
  define V where "V = visited_locations (sorted_locations cs)"
  have "those (map (ngx_http_init_locations (\<lambda>c b. True)) V) = Some (map (\<lambda>c. (c, [])) V)"
    by (rule those_map_Some) (use fl in \<open>auto simp: V_def intro!: init_flat dest!: visited_locations_set\<close>)
  then have "ngx_http_init_locations (\<lambda>c b. True) (Loc_conf nm rx non nd ex nr au cs rl st) \<noteq> None"
    by (simp add: Let_def flip: V_def)
  then obtain srv named_locs where
    s: "ngx_http_init_locations (\<lambda>c b. True) (Loc_conf nm rx non nd ex nr au cs rl st) = Some (srv, named_locs)" by auto
  show ?thesis unfolding s init_flat_server[OF assms s] by simp
qed

lemma static_keys:
  assumes "\<forall>c\<in>set cs. flat_conf c"
  shows "mset (map block_key (concat (map blocks (location_queue (static_blocks (sorted_locations cs))))))
       = image_mset (\<lambda>c. (loc_name c, exact_match c)) (mset (static_blocks cs))"
proof -
  note q = static_queue[OF assms]
  have "map block_key (concat (map blocks (map lq_of S))) = map (\<lambda>c. (loc_name c, exact_match c)) S"
    if "\<forall>c\<in>set S. static_ok c" for S
    using that by (induction S) (simp_all add: blocks_lq_of block_key_def)
  from this[OF q(2)] have "map block_key (concat (map blocks (location_queue (static_blocks (sorted_locations cs)))))
      = map (\<lambda>c. (loc_name c, exact_match c)) (static_blocks (sorted_locations cs))"
    unfolding location_queue_map .
  then show ?thesis using arg_cong[OF q(4), of "image_mset (\<lambda>c. (loc_name c, exact_match c))"] by (simp only: mset_map)
qed

text \<open>
  Property C23 (error).  Building the locations of a server that are not nested, with names as \<open>location_of_request\<close> has them, when no allocation fails,
  fails exactly when two blocks of the same kind (exact, or prefix) have the same name; the order of the
  blocks in the configuration and the locations between the two do not matter.
\<close>

theorem build_fails_iff_duplicate:
  assumes "flat_server srv0"
  shows "build_server (\<lambda>c b. True) (\<lambda>n. True) srv0 = None \<longleftrightarrow>
    \<not> distinct (map (\<lambda>c. (loc_name c, exact_match c)) (static_blocks (locations srv0)))"
proof -
  obtain nm rx non nd ex nr au cs rl st where srv0: "srv0 = Loc_conf nm rx non nd ex nr au cs rl st" by (cases srv0)
  have fl: "\<forall>c\<in>set cs. flat_conf c" using assms(1) by (simp add: flat_server_def srv0)
  define S where "S = static_blocks (sorted_locations cs)"
  note q = static_queue[OF fl, folded S_def]
  have i: "\<exists>named_locs. ngx_http_init_locations (\<lambda>c b. True) srv0
      = Some (Loc_conf nm rx non nd ex nr au S (regex_blocks cs) Null, named_locs)"
    using init_flat_some[OF assms(1)[unfolded srv0]] unfolding srv0 S_def .
  have flS: "those (map (ngx_http_init_static_location_trees (\<lambda>n. True)) S) = Some (map (\<lambda>c. c) S)"
    by (rule those_map_Some, rule static_flat) (use fl in \<open>auto simp: S_def sorted_locations_set\<close>)
  have st: "\<forall>q\<in>set (tl (location_queue S)). single q" using q(6) by (cases "location_queue S") auto
  have keys: "distinct (map block_key (concat (map blocks (location_queue S))))
      = distinct (map (\<lambda>c. (loc_name c, exact_match c)) (static_blocks cs))"
    using static_keys[OF fl] unfolding S_def[symmetric]
    by (intro mset_eq_imp_distinct_iff) (simp only: mset_map)
  show ?thesis
  proof (cases "S = []")
    case True
    then have "static_blocks cs = []" using q(3) by simp
    moreover have "locations srv0 = cs" by (simp add: srv0)
    ultimately show ?thesis using i True by (auto simp: build_server_def)
  next
    case False
    have ne: "ngx_http_create_locations_list qs \<noteq> []" if "qs \<noteq> []" for qs :: "loc_conf lqueue list"
      using that by (cases qs) (auto simp: Let_def)
    have tree: "\<exists>t. ngx_http_create_locations_tree (\<lambda>n. True) (ngx_http_create_locations_list qs) 0 = Some t"
      if "ngx_http_join_exact_locations (location_queue S) = Some qs" for qs
    proof -
      have "concat (map blocks qs) = concat (map blocks (location_queue S))"
        using join_correct[OF q(1,5) st q(7)] that by simp
      moreover have "concat (map blocks (location_queue S)) \<noteq> []"
        using False q(2) by (cases S) (simp_all add: location_queue_map blocks_lq_of)
      ultimately have "qs \<noteq> []" by auto
      then have "ngx_http_create_locations_tree (\<lambda>n. True) (ngx_http_create_locations_list qs) 0 \<noteq> None"
        by (intro create_tree_some ne) simp_all
      then show ?thesis by (simp only: not_None_eq)
    qed
    have "build_server (\<lambda>c b. True) (\<lambda>n. True) srv0 = None \<longleftrightarrow> ngx_http_join_exact_locations (location_queue S) = None"
    proof (cases "ngx_http_join_exact_locations (location_queue S)")
      case None
      then show ?thesis using i False flS by (auto simp: build_server_def)
    next
      case (Some qs)
      from tree[OF Some] obtain t where
        "ngx_http_create_locations_tree (\<lambda>n. True) (ngx_http_create_locations_list qs) 0 = Some t" by blast
      then have "ngx_http_init_static_location_trees (\<lambda>n. True) (Loc_conf nm rx non nd ex nr au S (regex_blocks cs) Null) \<noteq> None"
        using False flS Some by (simp del: ngx_http_create_locations_tree.simps)
      moreover obtain named_locs where "ngx_http_init_locations (\<lambda>c b. True) srv0
          = Some (Loc_conf nm rx non nd ex nr au S (regex_blocks cs) Null, named_locs)" using i by blast
      ultimately show ?thesis using Some
        by (simp add: build_server_def del: ngx_http_init_static_location_trees.simps)
    qed
    also have "\<dots> \<longleftrightarrow> \<not> distinct (map block_key (concat (map blocks (location_queue S))))"
      using join_correct[OF q(1,5) st q(7)] by (auto split: option.splits)
    finally show ?thesis unfolding keys by (simp add: srv0)
  qed
qed

lemma build_fails_iff_duplicate_witness:
  "let a = Loc_conf (chars ''/a'') None False False False False False [] [] Null;
       e = Loc_conf (chars ''/a'') None False False True False False [] [] Null;
       b = Loc_conf (chars ''/b'') None False False False False False [] [] Null;
       server = (\<lambda>cs. Loc_conf [] None False False False False False cs [] Null)
   in build_server (\<lambda>c b. True) (\<lambda>n. True) (server [a, b, a]) = None
    \<and> build_server (\<lambda>c b. True) (\<lambda>n. True) (server [a, b, e]) \<noteq> None"
proof -
  have nn: "no_nul (chars ''/a'')" "no_nul (chars ''/b'')" "chars ''/a'' \<noteq> chars ''/b''" by code_simp+
  define server where "server = (\<lambda>cs. Loc_conf [] None False False False False False cs [] Null)"
  define a where "a = Loc_conf (chars ''/a'') None False False False False False [] [] Null"
  define e where "e = Loc_conf (chars ''/a'') None False False True False False [] [] Null"
  define b where "b = Loc_conf (chars ''/b'') None False False False False False [] [] Null"
  have f: "flat_server (server [a, b, a])" "flat_server (server [a, b, e])"
    using nn by (simp_all add: server_def a_def b_def e_def flat_server_def flat_conf_def static_ok_def loc_rank_def chars_def)
  show ?thesis
    using build_fails_iff_duplicate[OF f(1)] build_fails_iff_duplicate[OF f(2)] nn(3)
    unfolding Let_def a_def[symmetric] b_def[symmetric] e_def[symmetric] server_def[symmetric]
    by (simp add: server_def a_def b_def e_def loc_rank_def)
qed

text \<open>
  Fact.  The node keeps the length of a name in a byte: a prefix location with a name of 256 characters
  takes every URI that is not empty.
\<close>

theorem location_length_wraps:
  "let c = Loc_conf (slash # replicate 255 (ch CHR ''a'')) None False False False False False [] [] Null in
   case build_server (\<lambda>c b. True) (\<lambda>n. True) (Loc_conf [] None False False False False False [c] [] Null) of
     None \<Rightarrow> False
   | Some srv \<Rightarrow> ngx_http_core_find_location (\<lambda>k u. NGX_DECLINED) (chars ''/x'') srv = (NGX_DECLINED, c)"
  by code_simp

text \<open>
  Fact.  A prefix location inside a location with a regular expression is never found: the second pass
  builds the search trees of the blocks in the queue of the static locations only.
\<close>

theorem nested_in_regex_unreachable:
  "let inner = Loc_conf (chars ''/a/b'') None False False False False False [] [] Null;
       outer = Loc_conf (chars ''/a'') (Some 0) False False False False False [inner] [] Null in
   case build_server (\<lambda>c b. True) (\<lambda>n. True) (Loc_conf [] None False False False False False [outer] [] Null) of
     None \<Rightarrow> False
   | Some srv \<Rightarrow> (case ngx_http_core_find_location (\<lambda>k u. NGX_OK) (chars ''/a/b'') srv of
       (rc, c) \<Rightarrow> rc = NGX_OK \<and> regex c = Some 0 \<and> locations c = [inner] \<and> static_locations c = Null)"
  by code_simp

end
