(* ===== verification/Ngx_Upstream_Peers.thy ===== *)
theory Ngx_Upstream_Peers
  imports Ngx_Locks
begin

text \<open>
  Balancing requests over the servers of an upstream, \<^verbatim>\<open>http/ngx_http_upstream_round_robin.c\<close>:
  smooth weighted round robin with failures, and the bitmap that keeps a request from trying a server
  twice.  The list of peers is the list that their \<^verbatim>\<open>next\<close> pointers make.  The weights are
  \<^verbatim>\<open>ngx_int_t\<close>, times are \<^verbatim>\<open>time_t\<close>: integers.  An address is a number that stands for it.
\<close>

subsection \<open>Peers\<close>

record rr_peer =
  peer_addr :: nat
  current_weight :: int
  effective_weight :: int
  weight :: int
  conns :: ngx_uint
  fails :: ngx_uint
  accessed :: int
  checked :: int
  max_fails :: ngx_uint
  fail_timeout :: int
  down :: bool

record rr_peers =
  number :: nat
  total_weight :: ngx_uint
  single :: bool
  weighted :: bool
  peers :: "rr_peer list"

text \<open>The group of the servers and, where its \<^verbatim>\<open>next\<close> leads, that of the backup servers.\<close>

record rr_upstream =
  primary :: rr_peers
  backup :: "rr_peers option"

text \<open>A server of the configuration.\<close>

record upstream_server =
  srv_addrs :: "nat list"
  srv_weight :: ngx_uint
  srv_max_fails :: ngx_uint
  srv_fail_timeout :: int
  srv_down :: bool
  srv_backup :: bool

definition server_peers :: "upstream_server \<Rightarrow> rr_peer list" where
  "server_peers s = map (\<lambda>a.
     \<lparr> peer_addr = a, current_weight = 0, effective_weight = sint (srv_weight s), weight = sint (srv_weight s),
       conns = 0, fails = 0, accessed = 0, checked = 0, max_fails = srv_max_fails s,
       fail_timeout = srv_fail_timeout s, down = srv_down s \<rparr>) (srv_addrs s)"

definition servers_number :: "upstream_server list \<Rightarrow> nat" where
  "servers_number ss = sum_list (map (\<lambda>s. length (srv_addrs s)) ss)"

definition servers_weight :: "upstream_server list \<Rightarrow> ngx_uint" where
  "servers_weight ss = sum_list (map (\<lambda>s. of_nat (length (srv_addrs s)) * srv_weight s) ss)"

definition server_group :: "bool \<Rightarrow> upstream_server list \<Rightarrow> rr_peers" where
  "server_group one ss =
     \<lparr> number = servers_number ss, total_weight = servers_weight ss, single = one,
       weighted = (servers_weight ss \<noteq> of_nat (servers_number ss)), peers = concat (map server_peers ss) \<rparr>"

text \<open>
  The servers of an \<^verbatim>\<open>upstream\<close> block, or the addresses of a host for an upstream that is defined
  by its use.  \<open>alloc\<close> says which of the four allocations succeed; \<^term>\<open>None\<close> is \<^verbatim>\<open>NGX_ERROR\<close>.
\<close>

definition init_servers :: "(nat \<Rightarrow> bool) \<Rightarrow> upstream_server list \<Rightarrow> rr_upstream option" where
  "init_servers alloc ss =
     (let mine = filter (\<lambda>s. \<not> srv_backup s) ss; spare = filter srv_backup ss in
      if servers_number mine = 0 \<or> \<not> alloc 0 \<or> \<not> alloc 1 then None
      else if servers_number spare = 0 then
        Some \<lparr> primary = server_group (servers_number mine = 1) mine, backup = None \<rparr>
      else if \<not> alloc 2 \<or> \<not> alloc 3 then None
      else Some \<lparr> primary = server_group False mine, backup = Some (server_group False spare) \<rparr>)"

definition resolved_peer :: "nat \<Rightarrow> rr_peer" where
  "resolved_peer a =
     \<lparr> peer_addr = a, current_weight = 0, effective_weight = 1, weight = 1, conns = 0, fails = 0,
       accessed = 0, checked = 0, max_fails = 1, fail_timeout = 10, down = False \<rparr>"

definition ngx_http_upstream_init_round_robin ::
    "(nat \<Rightarrow> bool) \<Rightarrow> upstream_server list option \<Rightarrow> nat \<Rightarrow> nat list option \<Rightarrow> rr_upstream option" where
  "ngx_http_upstream_init_round_robin alloc servers port resolved =
     (case servers of
        Some ss \<Rightarrow> init_servers alloc ss
      | None \<Rightarrow>
          if port = 0 then None
          else case resolved of
            None \<Rightarrow> None
          | Some addrs \<Rightarrow>
              if \<not> alloc 0 \<or> \<not> alloc 1 then None
              else Some \<lparr> primary =
                \<lparr> number = length addrs, total_weight = of_nat (length addrs), single = (length addrs = 1),
                  weighted = False, peers = map resolved_peer addrs \<rparr>, backup = None \<rparr>)"

subsection \<open>The state of a request\<close>

text \<open>
  \<open>on_backup\<close> says which group \<^verbatim>\<open>rrp->peers\<close> is; a peer is named by its group and its index.  The
  two last fields are those of \<^verbatim>\<open>ngx_peer_connection_t\<close>.
\<close>

type_synonym peer_ref = "bool \<times> nat"

record rr_request =
  on_backup :: bool
  rr_current :: "peer_ref option"
  tried :: "ngx_uint list"
  tries :: ngx_uint
  sockaddr :: "nat option"

definition bitmap_words :: "nat \<Rightarrow> nat" where
  "bitmap_words n = (n + 63) div 64"

definition ngx_http_upstream_tries :: "rr_upstream \<Rightarrow> ngx_uint" where
  "ngx_http_upstream_tries up =
     of_nat (number (primary up)) + (case backup up of None \<Rightarrow> 0 | Some b \<Rightarrow> of_nat (number b))"

text \<open>
  For up to 64 peers the bitmap is the field \<^verbatim>\<open>data\<close>, else it is allocated.  \<open>alloc\<close> numbers the
  allocations in the order of the code.
\<close>

definition new_request :: "bool \<Rightarrow> nat \<Rightarrow> rr_upstream \<Rightarrow> rr_request option" where
  "new_request alloc n up =
     (let bitmap = (if n \<le> 64 then Some [0] else if alloc then Some (replicate (bitmap_words n) 0) else None) in
      case bitmap of
        None \<Rightarrow> None
      | Some t \<Rightarrow> Some \<lparr> on_backup = False, rr_current = None, tried = t,
                       tries = ngx_http_upstream_tries up, sockaddr = None \<rparr>)"

definition ngx_http_upstream_init_round_robin_peer :: "(nat \<Rightarrow> bool) \<Rightarrow> rr_upstream \<Rightarrow> rr_request option" where
  "ngx_http_upstream_init_round_robin_peer alloc up =
     (if \<not> alloc 0 then None
      else
        let n = number (primary up);
            n = (case backup up of None \<Rightarrow> n | Some b \<Rightarrow> if number b > n then number b else n)
        in new_request (alloc 1) n up)"

text \<open>
  The upstream of one request, whose address is known (\<^verbatim>\<open>ur->sockaddr\<close>) or has been resolved to
  \<open>addrs\<close>; of each of those the address and its text are allocated.
\<close>

definition ngx_http_upstream_create_round_robin_peer ::
    "(nat \<Rightarrow> bool) \<Rightarrow> nat \<Rightarrow> nat option \<Rightarrow> nat list \<Rightarrow> (rr_upstream \<times> rr_request) option" where
  "ngx_http_upstream_create_round_robin_peer alloc naddrs known addrs =
     (let group = (case known of Some a \<Rightarrow> [resolved_peer a] | None \<Rightarrow> map resolved_peer (take naddrs addrs));
          up = \<lparr> primary = \<lparr> number = naddrs, total_weight = 0, single = (naddrs = 1), weighted = False, peers = group \<rparr>,
                 backup = None \<rparr> in
      if \<not> list_all alloc [0, 1, 2] \<or> known = None \<and> \<not> list_all alloc [3..<3 + 2 * naddrs] then None
      else map_option (Pair up) (new_request (alloc (if known = None then 3 + 2 * naddrs else 3)) naddrs up))"

subsection \<open>The choice\<close>

definition tried_bit :: "ngx_uint list \<Rightarrow> nat \<Rightarrow> bool" where
  "tried_bit t i \<longleftrightarrow> (t ! (i div 64)) AND push_bit (i mod 64) 1 \<noteq> 0"

definition set_tried :: "ngx_uint list \<Rightarrow> nat \<Rightarrow> ngx_uint list" where
  "set_tried t p = t[p div 64 := (t ! (p div 64)) OR push_bit (p mod 64) 1]"

text \<open>The peers that the loop passes over.\<close>

definition rr_skip :: "int \<Rightarrow> ngx_uint list \<Rightarrow> nat \<Rightarrow> rr_peer \<Rightarrow> bool" where
  "rr_skip now t i p \<longleftrightarrow> tried_bit t i \<or> down p
     \<or> max_fails p \<noteq> 0 \<and> fails p \<ge> max_fails p \<and> now - checked p \<le> fail_timeout p"

text \<open>The weights of a peer that takes part, and the best one so far: its index and its weight.\<close>

definition rr_raise :: "rr_peer \<Rightarrow> rr_peer" where
  "rr_raise p = p\<lparr> current_weight := current_weight p + effective_weight p,
     effective_weight := (if effective_weight p < weight p then effective_weight p + 1 else effective_weight p) \<rparr>"

fun rr_loop ::
    "int \<Rightarrow> ngx_uint list \<Rightarrow> nat \<Rightarrow> rr_peer list \<Rightarrow> (nat \<times> int) option \<Rightarrow> int
     \<Rightarrow> rr_peer list \<times> (nat \<times> int) option \<times> int" where
  "rr_loop now t i [] best tot = ([], best, tot)"
| "rr_loop now t i (p # ps) best tot =
     (if rr_skip now t i p then
        (let (ps', b, w) = rr_loop now t (Suc i) ps best tot in (p # ps', b, w))
      else
        (let q = rr_raise p;
             best' = (case best of
                        None \<Rightarrow> Some (i, current_weight q)
                      | Some (j, w) \<Rightarrow> if current_weight q > w then Some (i, current_weight q) else best);
             (ps', b, w) = rr_loop now t (Suc i) ps best' (tot + effective_weight p)
         in (q # ps', b, w)))"

text \<open>The result is the index of the peer, or \<^term>\<open>None\<close> for the null pointer.\<close>

definition ngx_http_upstream_get_peer ::
    "int \<Rightarrow> rr_peer list \<Rightarrow> ngx_uint list \<Rightarrow> (rr_peer list \<times> ngx_uint list \<times> nat) option" where
  "ngx_http_upstream_get_peer now ps t =
     (case rr_loop now t 0 ps None 0 of
        (ps', None, tot) \<Rightarrow> None
      | (ps', Some (p, w), tot) \<Rightarrow>
          let best = (ps' ! p)\<lparr> current_weight := current_weight (ps' ! p) - tot \<rparr>;
              best = (if now - checked best > fail_timeout best then best\<lparr> checked := now \<rparr> else best)
          in Some (ps'[p := best], set_tried t p, p))"

subsection \<open>Getting and freeing a peer\<close>

definition NGX_BUSY :: int where "NGX_BUSY = -3"

definition group_of :: "rr_upstream \<Rightarrow> bool \<Rightarrow> rr_peers" where
  "group_of up b = (if b then the (backup up) else primary up)"

definition set_group :: "bool \<Rightarrow> rr_peer list \<Rightarrow> rr_upstream \<Rightarrow> rr_upstream" where
  "set_group b ps up =
     (if b then up\<lparr> backup := map_option (\<lambda>g. g\<lparr> peers := ps \<rparr>) (backup up) \<rparr>
      else up\<lparr> primary := (primary up)\<lparr> peers := ps \<rparr> \<rparr>)"

definition clear_tried :: "nat \<Rightarrow> ngx_uint list \<Rightarrow> ngx_uint list" where
  "clear_tried n t = map (\<lambda>w. 0) (take n t) @ drop n t"

text \<open>The part before the label \<^verbatim>\<open>failed\<close>: the peer of the group, if there is one.\<close>

definition rr_choose ::
    "int \<Rightarrow> rr_upstream \<Rightarrow> rr_request \<Rightarrow> (rr_upstream \<times> rr_request \<times> nat) option" where
  "rr_choose now up rq =
     (let b = on_backup rq; g = group_of up b in
      if single g then
        if down (peers g ! 0) then None else Some (up, rq\<lparr> rr_current := Some (b, 0) \<rparr>, 0)
      else
        case ngx_http_upstream_get_peer now (peers g) (tried rq) of
          None \<Rightarrow> None
        | Some (ps, t, p) \<Rightarrow> Some (set_group b ps up, rq\<lparr> rr_current := Some (b, p), tried := t \<rparr>, p))"

definition clear_fails :: "bool \<Rightarrow> rr_upstream \<Rightarrow> rr_upstream" where
  "clear_fails b up = set_group b (map (\<lambda>p. p\<lparr> fails := 0 \<rparr>) (peers (group_of up b))) up"

function ngx_http_upstream_get_round_robin_peer ::
    "int \<Rightarrow> rr_upstream \<Rightarrow> rr_request \<Rightarrow> rr_upstream \<times> rr_request \<times> int" where
  "ngx_http_upstream_get_round_robin_peer now up rq =
     (let b = on_backup rq in
      case rr_choose now up rq of
        Some (up', rq', p) \<Rightarrow>
          let g = group_of up' b; q = peers g ! p in
          (set_group b ((peers g)[p := q\<lparr> conns := conns q + 1 \<rparr>]) up',
           rq'\<lparr> sockaddr := Some (peer_addr q) \<rparr>, NGX_OK)
      | None \<Rightarrow>
          if \<not> b \<and> backup up \<noteq> None then
            let n = bitmap_words (number (the (backup up)));
                (up', rq', rc) = ngx_http_upstream_get_round_robin_peer now up
                                   (rq\<lparr> on_backup := True, tried := clear_tried n (tried rq) \<rparr>) in
            if rc \<noteq> NGX_BUSY then (up', rq', rc) else (clear_fails b up', rq', NGX_BUSY)
          else (clear_fails b up, rq, NGX_BUSY))"
  by pat_completeness auto

termination
  by (relation "measure (\<lambda>(now, up, rq). if on_backup rq then 0 else 1)") auto

text \<open>
  \<^verbatim>\<open>peer->weight / peer->max_fails\<close> divides a signed by an unsigned integer, so both are unsigned.
\<close>

definition rr_failed :: "int \<Rightarrow> rr_peer \<Rightarrow> rr_peer" where
  "rr_failed now p =
     (let p = p\<lparr> fails := fails p + 1, accessed := now, checked := now \<rparr>;
          p = (if max_fails p \<noteq> 0 then
                 p\<lparr> effective_weight := effective_weight p - uint (word_of_int (weight p) div max_fails p) \<rparr> else p)
      in if effective_weight p < 0 then p\<lparr> effective_weight := 0 \<rparr> else p)"

definition rr_passed :: "rr_peer \<Rightarrow> rr_peer" where
  "rr_passed p = (if accessed p < checked p then p\<lparr> fails := 0 \<rparr> else p)"

definition ngx_http_upstream_free_round_robin_peer ::
    "int \<Rightarrow> bool \<Rightarrow> rr_upstream \<Rightarrow> rr_request \<Rightarrow> rr_upstream \<times> rr_request" where
  "ngx_http_upstream_free_round_robin_peer now failed up rq =
     (let (b, i) = the (rr_current rq); ps = peers (group_of up b); p = ps ! i in
      if single (group_of up (on_backup rq)) then
        (set_group b (ps[i := p\<lparr> conns := conns p - 1 \<rparr>]) up, rq\<lparr> tries := 0 \<rparr>)
      else
        let p = (if failed then rr_failed now p else rr_passed p) in
        (set_group b (ps[i := p\<lparr> conns := conns p - 1 \<rparr>]) up,
         if tries rq \<noteq> 0 then rq\<lparr> tries := tries rq - 1 \<rparr> else rq))"

subsection \<open>Least connections\<close>

text \<open>
  \<^verbatim>\<open>http/modules/ngx_http_upstream_least_conn_module.c\<close>.  The connections of two peers are compared
  relative to their weights; \<^verbatim>\<open>conns * weight\<close> is unsigned.
\<close>

definition load_times :: "rr_peer \<Rightarrow> rr_peer \<Rightarrow> ngx_uint" where
  "load_times p best = conns p * word_of_int (weight best)"

text \<open>The first loop: the least loaded peer, and whether another one has the same load.\<close>

fun lc_best ::
    "int \<Rightarrow> ngx_uint list \<Rightarrow> nat \<Rightarrow> rr_peer list \<Rightarrow> (nat \<times> rr_peer) option \<Rightarrow> bool \<Rightarrow> (nat \<times> rr_peer) option \<times> bool" where
  "lc_best now t i [] best many = (best, many)"
| "lc_best now t i (p # ps) best many =
     (if rr_skip now t i p then lc_best now t (Suc i) ps best many
      else
        case best of
          None \<Rightarrow> lc_best now t (Suc i) ps (Some (i, p)) False
        | Some (j, b) \<Rightarrow>
            if load_times p b < load_times b p then lc_best now t (Suc i) ps (Some (i, p)) False
            else lc_best now t (Suc i) ps best (if load_times p b = load_times b p then True else many))"

text \<open>The second loop: round robin over the peers with that load, from the first of them on.\<close>

fun lc_many ::
    "int \<Rightarrow> ngx_uint list \<Rightarrow> nat \<Rightarrow> rr_peer list \<Rightarrow> nat \<times> rr_peer \<Rightarrow> int \<Rightarrow> rr_peer list \<times> (nat \<times> rr_peer) \<times> int" where
  "lc_many now t i [] best tot = ([], best, tot)"
| "lc_many now t i (p # ps) (j, b) tot =
     (if rr_skip now t i p \<or> load_times p b \<noteq> load_times b p then
        (let (ps', best, w) = lc_many now t (Suc i) ps (j, b) tot in (p # ps', best, w))
      else
        (let q = rr_raise p;
             b = (if i = j then q else b);
             best = (if current_weight q > current_weight b then (i, q) else (j, b));
             (ps', best', w) = lc_many now t (Suc i) ps best (tot + effective_weight p)
         in (q # ps', best', w)))"

definition lc_choose :: "int \<Rightarrow> rr_upstream \<Rightarrow> rr_request \<Rightarrow> (rr_upstream \<times> rr_request \<times> nat) option" where
  "lc_choose now up rq =
     (let b = on_backup rq; ps = peers (group_of up b) in
      case lc_best now (tried rq) 0 ps None False of
        (None, many) \<Rightarrow> None
      | (Some (p, q), many) \<Rightarrow>
          let (ps', best, tot) = (if many then lc_many now (tried rq) p (drop p ps) (p, q) 0 else (drop p ps, (p, q), 0));
              ps' = take p ps @ ps'; p = fst best;
              best = (ps' ! p)\<lparr> current_weight := current_weight (ps' ! p) - tot \<rparr>;
              best = (if now - checked best > fail_timeout best then best\<lparr> checked := now \<rparr> else best)
          in Some (set_group b (ps'[p := best]) up, rq\<lparr> rr_current := Some (b, p), tried := set_tried (tried rq) p \<rparr>, p))"

function ngx_http_upstream_get_least_conn_peer ::
    "int \<Rightarrow> rr_upstream \<Rightarrow> rr_request \<Rightarrow> rr_upstream \<times> rr_request \<times> int" where
  "ngx_http_upstream_get_least_conn_peer now up rq =
     (let b = on_backup rq in
      if single (group_of up b) then ngx_http_upstream_get_round_robin_peer now up rq
      else
        case lc_choose now up rq of
          Some (up', rq', p) \<Rightarrow>
            let g = group_of up' b; q = peers g ! p in
            (set_group b ((peers g)[p := q\<lparr> conns := conns q + 1 \<rparr>]) up',
             rq'\<lparr> sockaddr := Some (peer_addr q) \<rparr>, NGX_OK)
        | None \<Rightarrow>
            if \<not> b \<and> backup up \<noteq> None then
              let n = bitmap_words (number (the (backup up)));
                  (up', rq', rc) = ngx_http_upstream_get_least_conn_peer now up
                                     (rq\<lparr> on_backup := True, tried := clear_tried n (tried rq) \<rparr>) in
              if rc \<noteq> NGX_BUSY then (up', rq', rc) else (clear_fails b up', rq', NGX_BUSY)
            else (clear_fails b up, rq, NGX_BUSY))"
  by pat_completeness auto

termination
  by (relation "measure (\<lambda>(now, up, rq). if on_backup rq then 0 else 1)") auto

declare ngx_http_upstream_get_least_conn_peer.simps [simp del]

end
