(* ===== verification/Ngx_Upstream_Choice.thy ===== *)
theory Ngx_Upstream_Choice
  imports Ngx_Upstream_Peers
begin

text \<open>
  The two choosing loops of round robin and least_conn in terms of the peers that take part, the bitmap of
  tried peers, the groups, and what one call that gets or frees a peer does to the state.
\<close>

subsection \<open>The choice, in terms of the peers that take part\<close>

abbreviation ready :: "int \<Rightarrow> ngx_uint list \<Rightarrow> nat \<Rightarrow> rr_peer \<Rightarrow> bool" where
  "ready now t i p \<equiv> \<not> rr_skip now t i p"

lemma rr_raise_simps [simp]:
  "current_weight (rr_raise p) = current_weight p + effective_weight p"
  "weight (rr_raise p) = weight p" "conns (rr_raise p) = conns p" "fails (rr_raise p) = fails p"
  "checked (rr_raise p) = checked p" "fail_timeout (rr_raise p) = fail_timeout p" "down (rr_raise p) = down p"
  "accessed (rr_raise p) = accessed p" "max_fails (rr_raise p) = max_fails p" "peer_addr (rr_raise p) = peer_addr p"
  by (simp_all add: rr_raise_def)

definition raised :: "int \<Rightarrow> ngx_uint list \<Rightarrow> nat \<Rightarrow> rr_peer list \<Rightarrow> rr_peer list" where
  "raised now t i ps = map (\<lambda>(k, p). if ready now t k p then rr_raise p else p) (enumerate i ps)"

definition ready_weight :: "int \<Rightarrow> ngx_uint list \<Rightarrow> nat \<Rightarrow> rr_peer list \<Rightarrow> int" where
  "ready_weight now t i ps = sum_list (map (\<lambda>(k, p). if ready now t k p then effective_weight p else 0) (enumerate i ps))"

lemma raised_simps [simp]:
  "raised now t i [] = []"
  "raised now t i (p # ps) = (if ready now t i p then rr_raise p else p) # raised now t (Suc i) ps"
  "length (raised now t i ps) = length ps"
  by (simp_all add: raised_def)

lemma raised_nth:
  "k < length ps \<Longrightarrow> raised now t i ps ! k = (if ready now t (i + k) (ps ! k) then rr_raise (ps ! k) else ps ! k)"
  by (simp add: raised_def nth_enumerate_eq)

lemma ready_weight_simps [simp]:
  "ready_weight now t i [] = 0"
  "ready_weight now t i (p # ps) = (if ready now t i p then effective_weight p else 0) + ready_weight now t (Suc i) ps"
  by (simp_all add: ready_weight_def)

lemma raised_sum:
  "sum_list (map current_weight (raised now t i ps)) = sum_list (map current_weight ps) + ready_weight now t i ps"
  by (induction ps arbitrary: i) auto

lemma rr_loop_lists:
  "rr_loop now t i ps best tot = (ps', b, tot') \<Longrightarrow> ps' = raised now t i ps \<and> tot' = tot + ready_weight now t i ps"
proof (induction now t i ps best tot arbitrary: ps' b tot' rule: rr_loop.induct)
  case (2 now t i p ps best tot)
  then show ?case by (auto simp: Let_def split: if_splits prod.splits)
qed simp

text \<open>The best peer is the first of those with the highest weight after it was raised.\<close>

definition first_best :: "int \<Rightarrow> ngx_uint list \<Rightarrow> nat \<Rightarrow> rr_peer list \<Rightarrow> nat \<Rightarrow> bool" where
  "first_best now t i ps k \<longleftrightarrow> k < length ps \<and> ready now t (i + k) (ps ! k)
     \<and> (\<forall>j<length ps. ready now t (i + j) (ps ! j) \<longrightarrow>
          (if j < k then current_weight (rr_raise (ps ! j)) < current_weight (rr_raise (ps ! k))
           else current_weight (rr_raise (ps ! j)) \<le> current_weight (rr_raise (ps ! k))))"

definition best_of :: "int \<Rightarrow> ngx_uint list \<Rightarrow> nat \<Rightarrow> rr_peer list \<Rightarrow> (nat \<times> int) option \<Rightarrow> (nat \<times> int) option \<Rightarrow> bool" where
  "best_of now t i ps best b \<longleftrightarrow>
     b = best \<and> (\<forall>j<length ps. ready now t (i + j) (ps ! j) \<longrightarrow>
        (\<exists>k w. best = Some (k, w) \<and> current_weight (rr_raise (ps ! j)) \<le> w))
     \<or> (\<exists>k. b = Some (i + k, current_weight (rr_raise (ps ! k))) \<and> first_best now t i ps k
          \<and> (\<forall>j w. best = Some (j, w) \<longrightarrow> w < current_weight (rr_raise (ps ! k))))"

lemma all_less_Suc_nth:
  "(\<forall>j<Suc n. P j) \<longleftrightarrow> P 0 \<and> (\<forall>j<n. P (Suc j))"
  using less_Suc_eq_0_disj by auto

lemma first_best_Cons_0:
  "first_best now t i (p # ps) 0 \<longleftrightarrow> ready now t i p
     \<and> (\<forall>j<length ps. ready now t (Suc i + j) (ps ! j) \<longrightarrow> current_weight (rr_raise (ps ! j)) \<le> current_weight (rr_raise p))"
  by (auto simp: first_best_def all_less_Suc_nth)

lemma first_best_Cons_Suc:
  "first_best now t i (p # ps) (Suc k) \<longleftrightarrow> first_best now t (Suc i) ps k
     \<and> (ready now t i p \<longrightarrow> current_weight (rr_raise p) < current_weight (rr_raise (ps ! k)))"
  by (auto simp: first_best_def all_less_Suc_nth)

lemma best_of_elim:
  assumes "best_of now t i ps best b"
  obtains "b = best" "\<forall>j<length ps. ready now t (i + j) (ps ! j) \<longrightarrow>
        (\<exists>k w. best = Some (k, w) \<and> current_weight (rr_raise (ps ! j)) \<le> w)"
  | k where "b = Some (i + k, current_weight (rr_raise (ps ! k)))" "first_best now t i ps k"
      "\<forall>j w. best = Some (j, w) \<longrightarrow> w < current_weight (rr_raise (ps ! k))"
  using assms unfolding best_of_def by blast

lemma best_of_keep:
  assumes "ready now t i p \<Longrightarrow> \<exists>k w. best = Some (k, w) \<and> current_weight (rr_raise p) \<le> w"
    and "best_of now t (Suc i) ps best b"
  shows "best_of now t i (p # ps) best b"
  using assms(2)
proof (cases rule: best_of_elim)
  case 1
  then show ?thesis using assms(1) unfolding best_of_def by (intro disjI1) (simp add: all_less_Suc_nth)
next
  case (2 k)
  have "current_weight (rr_raise p) < current_weight (rr_raise (ps ! k))" if "ready now t i p"
    using assms(1)[OF that] 2(3) by fastforce
  then show ?thesis unfolding best_of_def
    by (intro disjI2 exI[of _ "Suc k"]) (use 2 in \<open>simp add: first_best_Cons_Suc\<close>)
qed

lemma best_of_take:
  assumes "ready now t i p" "\<forall>j w. best = Some (j, w) \<longrightarrow> w < current_weight (rr_raise p)"
    "best_of now t (Suc i) ps (Some (i, current_weight (rr_raise p))) b"
  shows "best_of now t i (p # ps) best b"
  using assms(3)
proof (cases rule: best_of_elim)
  case 1
  then show ?thesis unfolding best_of_def
    by (intro disjI2 exI[of _ 0]) (use assms(1,2) in \<open>simp add: first_best_Cons_0\<close>)
next
  case (2 k)
  then show ?thesis unfolding best_of_def
    by (intro disjI2 exI[of _ "Suc k"]) (use assms(2) in \<open>fastforce simp: first_best_Cons_Suc\<close>)
qed

lemma rr_loop_best:
  "rr_loop now t i ps best tot = (ps', b, tot') \<Longrightarrow> best_of now t i ps best b"
proof (induction now t i ps best tot arbitrary: ps' b tot' rule: rr_loop.induct)
  case (1 now t i best tot)
  then show ?case by (simp add: best_of_def)
next
  case (2 now t i p ps best tot)
  show ?case
  proof (cases "rr_skip now t i p")
    case True
    then show ?thesis using 2 by (auto intro!: best_of_keep split: prod.splits)
  next
    case False
    obtain ps1 b1 t1 where r: "rr_loop now t (Suc i) ps
        (case best of None \<Rightarrow> Some (i, current_weight (rr_raise p))
         | Some (j, w) \<Rightarrow> if current_weight (rr_raise p) > w then Some (i, current_weight (rr_raise p)) else best)
        (tot + effective_weight p) = (ps1, b1, t1)" by (metis prod_cases3)
    have b: "b = b1" using "2.prems" False r by (simp add: Let_def)
    have ih: "best_of now t (Suc i) ps
        (case best of None \<Rightarrow> Some (i, current_weight (rr_raise p))
         | Some (j, w) \<Rightarrow> if current_weight (rr_raise p) > w then Some (i, current_weight (rr_raise p)) else best) b"
      using "2.IH"(2)[OF False refl refl] r b by blast
    show ?thesis
    proof (cases "\<exists>j w. best = Some (j, w) \<and> current_weight (rr_raise p) \<le> w")
      case True
      then obtain j w where "best = Some (j, w)" "current_weight (rr_raise p) \<le> w" by blast
      then show ?thesis using ih by (intro best_of_keep) auto
    next
      case no: False
      then have "(case best of None \<Rightarrow> Some (i, current_weight (rr_raise p))
         | Some (j, w) \<Rightarrow> if current_weight (rr_raise p) > w then Some (i, current_weight (rr_raise p)) else best)
          = Some (i, current_weight (rr_raise p))" by (cases best) auto
      then show ?thesis using ih no best_of_take[of now t i p best ps b] False by fastforce
    qed
  qed
qed

text \<open>What the choice does to the group.\<close>

definition picked :: "int \<Rightarrow> int \<Rightarrow> rr_peer \<Rightarrow> rr_peer" where
  "picked now tot p =
     (let p = p\<lparr> current_weight := current_weight p - tot \<rparr>
      in if now - checked p > fail_timeout p then p\<lparr> checked := now \<rparr> else p)"

lemma picked_simps [simp]:
  "current_weight (picked now tot p) = current_weight p - tot"
  "effective_weight (picked now tot p) = effective_weight p"
  "weight (picked now tot p) = weight p" "conns (picked now tot p) = conns p" "fails (picked now tot p) = fails p"
  "fail_timeout (picked now tot p) = fail_timeout p" "down (picked now tot p) = down p"
  "max_fails (picked now tot p) = max_fails p" "peer_addr (picked now tot p) = peer_addr p"
  by (simp_all add: picked_def Let_def)

lemma get_peer_cases:
  obtains "ngx_http_upstream_get_peer now ps t = None" "\<forall>k<length ps. rr_skip now t k (ps ! k)"
  | p where "ngx_http_upstream_get_peer now ps t =
      Some ((raised now t 0 ps)[p := picked now (ready_weight now t 0 ps) (rr_raise (ps ! p))], set_tried t p, p)"
      "first_best now t 0 ps p"
proof -
  obtain ps' b tot where r: "rr_loop now t 0 ps None 0 = (ps', b, tot)" by (metis prod_cases3)
  note l = rr_loop_lists[OF r] and best = rr_loop_best[OF r]
  show ?thesis
  proof (cases b)
    case None
    then show ?thesis using best r that(1) by (auto simp: best_of_def ngx_http_upstream_get_peer_def)
  next
    case (Some kw)
    then obtain p where p: "b = Some (p, current_weight (rr_raise (ps ! p)))" "first_best now t 0 ps p"
      using best by (auto simp: best_of_def)
    then have "raised now t 0 ps ! p = rr_raise (ps ! p)" using raised_nth[of p ps now t 0] by (auto simp: first_best_def)
    then show ?thesis
      using that(2)[of p] p r l by (simp add: ngx_http_upstream_get_peer_def picked_def Let_def)
  qed
qed

subsection \<open>The bitmap\<close>

lemma and_push_bit_1: "w AND push_bit k 1 \<noteq> 0 \<longleftrightarrow> bit w k" for w :: ngx_uint
  unfolding push_bit_eq_mult mult_1 and_exp_eq_0_iff_not_bit by simp

lemma tried_bit_eq: "tried_bit t i = bit (t ! (i div 64)) (i mod 64)"
  unfolding tried_bit_def and_push_bit_1 ..

lemma length_set_tried [simp]: "length (set_tried t p) = length t"
  by (simp add: set_tried_def)

lemma tried_set:
  assumes "i < 64 * length t" "p < 64 * length t"
  shows "tried_bit (set_tried t p) i \<longleftrightarrow> i = p \<or> tried_bit t i"
proof -
  have l: "i div 64 < length t" "p div 64 < length t" using assms by (simp_all add: less_mult_imp_div_less mult.commute)
  have eq: "i = p \<longleftrightarrow> i div 64 = p div 64 \<and> i mod 64 = p mod 64" by (metis div_mult_mod_eq)
  have m: "bit (push_bit (p mod 64) 1 :: ngx_uint) (i mod 64) \<longleftrightarrow> i mod 64 = p mod 64"
    by (simp add: push_bit_eq_mult bit_exp_iff)
  show ?thesis
    unfolding tried_bit_eq set_tried_def nth_list_update[OF l(2)] eq
    by (cases "i div 64 = p div 64") (auto simp only: if_True if_False simp_thms bit_or_iff m eq_commute[of "p div 64"])
qed

lemma bitmap_covers: "n \<le> 64 * bitmap_words n"
  unfolding bitmap_words_def by linarith

lemma length_clear_tried [simp]: "length (clear_tried n t) = length t"
  by (simp add: clear_tried_def)

lemma tried_zero: "t ! (i div 64) = 0 \<Longrightarrow> \<not> tried_bit t i"
  by (simp add: tried_bit_eq)

lemma tried_clear:
  assumes "i < n" "n \<le> 64 * length t"
  shows "\<not> tried_bit (clear_tried (bitmap_words n) t) i"
proof (rule tried_zero)
  have "i div 64 < bitmap_words n" using assms(1) unfolding bitmap_words_def by linarith
  moreover have "i div 64 < length t" using assms by (simp add: less_mult_imp_div_less mult.commute)
  ultimately show "clear_tried (bitmap_words n) t ! (i div 64) = 0" by (simp add: clear_tried_def nth_append)
qed

subsection \<open>Groups and references\<close>

definition has_group :: "rr_upstream \<Rightarrow> bool \<Rightarrow> bool" where
  "has_group up b \<longleftrightarrow> (b \<longrightarrow> backup up \<noteq> None)"

definition peer_at :: "rr_upstream \<Rightarrow> peer_ref \<Rightarrow> rr_peer" where
  "peer_at up r = peers (group_of up (fst r)) ! snd r"

definition valid_ref :: "rr_upstream \<Rightarrow> peer_ref \<Rightarrow> bool" where
  "valid_ref up r \<longleftrightarrow> has_group up (fst r) \<and> snd r < number (group_of up (fst r))"

definition upd_peer :: "peer_ref \<Rightarrow> (rr_peer \<Rightarrow> rr_peer) \<Rightarrow> rr_upstream \<Rightarrow> rr_upstream" where
  "upd_peer r f up = set_group (fst r) ((peers (group_of up (fst r)))[snd r := f (peer_at up r)]) up"

text \<open>What the operations never change.\<close>

definition shape :: "rr_upstream \<Rightarrow> (nat \<times> bool) \<times> (nat \<times> bool) option" where
  "shape up = ((number (primary up), single (primary up)), map_option (\<lambda>g. (number g, single g)) (backup up))"

lemma shape_eqD:
  assumes "shape up' = shape up"
  shows "backup up' = None \<longleftrightarrow> backup up = None" "has_group up' c = has_group up c" "valid_ref up' r = valid_ref up r"
    "single (primary up') = single (primary up)"
    "has_group up b \<Longrightarrow> number (group_of up' b) = number (group_of up b)"
    "has_group up b \<Longrightarrow> single (group_of up' b) = single (group_of up b)"
  using assms by (cases "backup up"; cases "backup up'"; auto simp: shape_def group_of_def valid_ref_def has_group_def)+

lemma shape_set_group [simp]: "shape (set_group b ps up) = shape up"
  by (cases "backup up") (auto simp: shape_def set_group_def)

lemmas shape_group [simp] = shape_eqD(1,2,3)[OF shape_set_group]

lemma shape_upd_peer [simp]: "shape (upd_peer r f up) = shape up"
  by (simp add: upd_peer_def)

lemma shape_clear_fails [simp]: "shape (clear_fails b up) = shape up"
  by (simp add: clear_fails_def)

lemma group_of_set_group:
  "has_group up b \<Longrightarrow> group_of (set_group b ps up) c = (if c = b then (group_of up b)\<lparr> peers := ps \<rparr> else group_of up c)"
  by (cases "backup up") (auto simp: group_of_def set_group_def has_group_def)

definition groups_ok :: "rr_upstream \<Rightarrow> bool" where
  "groups_ok up \<longleftrightarrow> (\<forall>b. has_group up b \<longrightarrow>
     number (group_of up b) = length (peers (group_of up b)) \<and> 0 < number (group_of up b)
     \<and> (single (group_of up b) \<longrightarrow> number (group_of up b) = 1 \<and> backup up = None))"

definition weights_ok :: "rr_upstream \<Rightarrow> bool" where
  "weights_ok up \<longleftrightarrow> (\<forall>r. valid_ref up r \<longrightarrow>
     0 \<le> effective_weight (peer_at up r) \<and> effective_weight (peer_at up r) \<le> weight (peer_at up r))"

lemma groups_okD:
  assumes "groups_ok up" "has_group up b"
  shows "number (group_of up b) = length (peers (group_of up b))" "0 < number (group_of up b)"
    "single (group_of up b) \<Longrightarrow> number (group_of up b) = 1 \<and> backup up = None"
  using assms(1)[unfolded groups_ok_def, rule_format, OF assms(2)] by blast+

lemma groups_ok_set_group:
  assumes "groups_ok up" "has_group up b" "length ps = length (peers (group_of up b))"
  shows "groups_ok (set_group b ps up)"
  unfolding groups_ok_def
proof (intro allI impI)
  fix c assume "has_group (set_group b ps up) c"
  then have c: "has_group up c" by simp
  show "number (group_of (set_group b ps up) c) = length (peers (group_of (set_group b ps up) c))
      \<and> 0 < number (group_of (set_group b ps up) c)
      \<and> (single (group_of (set_group b ps up) c) \<longrightarrow> number (group_of (set_group b ps up) c) = 1 \<and> backup (set_group b ps up) = None)"
    using groups_okD[OF assms(1) c] assms(3) by (cases "c = b") (simp_all add: group_of_set_group[OF assms(2)])
qed

lemma peer_at_set_group:
  "has_group up b \<Longrightarrow> peer_at (set_group b ps up) r = (if fst r = b then ps ! snd r else peer_at up r)"
  by (simp add: peer_at_def group_of_set_group)

lemma peer_at_upd:
  assumes "groups_ok up" "valid_ref up r"
  shows "peer_at (upd_peer r f up) q = (if q = r then f (peer_at up r) else peer_at up q)"
proof -
  have "snd r < length (peers (group_of up (fst r)))" using assms groups_okD(1)[of up "fst r"] by (simp add: valid_ref_def)
  then show ?thesis using assms(2)
    by (cases q; cases r) (auto simp: upd_peer_def valid_ref_def group_of_set_group peer_at_def nth_list_update)
qed

lemma groups_ok_upd:
  assumes "groups_ok up" "valid_ref up r"
  shows "groups_ok (upd_peer r f up)"
  unfolding upd_peer_def by (rule groups_ok_set_group) (use assms in \<open>simp_all add: valid_ref_def\<close>)

lemma groups_ok_clear:
  assumes "groups_ok up" "has_group up b"
  shows "groups_ok (clear_fails b up)"
  unfolding clear_fails_def by (rule groups_ok_set_group) (use assms in simp_all)

lemma peer_at_clear:
  assumes "groups_ok up" "has_group up b" "valid_ref up r"
  shows "peer_at (clear_fails b up) r = (if fst r = b then (peer_at up r)\<lparr> fails := 0 \<rparr> else peer_at up r)"
  using assms groups_okD(1)[OF assms(1,2)] by (auto simp: clear_fails_def group_of_set_group valid_ref_def peer_at_def)

definition weight_sum :: "rr_upstream \<Rightarrow> bool \<Rightarrow> int" where
  "weight_sum up b = sum_list (map current_weight (peers (group_of up b)))"

lemma weight_sum_keep:
  assumes "groups_ok up" "groups_ok up'" "shape up' = shape up" "has_group up b"
    "\<And>i. valid_ref up (b, i) \<Longrightarrow> current_weight (peer_at up' (b, i)) = current_weight (peer_at up (b, i))"
  shows "weight_sum up' b = weight_sum up b"
proof -
  have "length (peers (group_of up' b)) = length (peers (group_of up b))"
    using groups_okD(1)[OF assms(1,4)] groups_okD(1)[of up' b] assms(2,4) shape_eqD[OF assms(3)] by simp
  moreover have "current_weight (peers (group_of up' b) ! i) = current_weight (peers (group_of up b) ! i)"
    if "i < length (peers (group_of up b))" for i
    using assms(5)[of i] that groups_okD(1)[OF assms(1,4)] assms(4) by (simp add: valid_ref_def peer_at_def)
  ultimately have "map current_weight (peers (group_of up' b)) = map current_weight (peers (group_of up b))"
    by (intro nth_equalityI) simp_all
  then show ?thesis by (simp add: weight_sum_def)
qed

subsection \<open>What choosing does\<close>

text \<open>The part of the state that only \<^verbatim>\<open>conns++\<close> and \<^verbatim>\<open>conns--\<close> change, and the configuration.\<close>

definition fixed :: "rr_peer \<Rightarrow> nat \<times> int \<times> ngx_uint \<times> int \<times> bool" where
  "fixed p = (peer_addr p, weight p, max_fails p, fail_timeout p, down p)"

definition same_peers :: "rr_upstream \<Rightarrow> rr_upstream \<Rightarrow> bool" where
  "same_peers up up' \<longleftrightarrow> shape up' = shape up
     \<and> (\<forall>r. valid_ref up r \<longrightarrow> fixed (peer_at up' r) = fixed (peer_at up r))"

definition same_conns :: "rr_upstream \<Rightarrow> rr_upstream \<Rightarrow> bool" where
  "same_conns up up' \<longleftrightarrow> (\<forall>r. valid_ref up r \<longrightarrow> conns (peer_at up' r) = conns (peer_at up r))"

definition rr_ok :: "rr_upstream \<Rightarrow> bool" where
  "rr_ok up \<longleftrightarrow> groups_ok up \<and> weights_ok up \<and> (\<forall>b. has_group up b \<longrightarrow> weight_sum up b = 0)"

lemma valid_refI: "\<lbrakk> groups_ok up; has_group up b; i < length (peers (group_of up b)) \<rbrakk> \<Longrightarrow> valid_ref up (b, i)"
  by (simp add: valid_ref_def groups_okD)

lemma valid_ref_less: "\<lbrakk> groups_ok up; valid_ref up (b, i) \<rbrakk> \<Longrightarrow> has_group up b \<and> i < length (peers (group_of up b))"
  by (auto simp: valid_ref_def groups_okD)

lemma weights_okD:
  "\<lbrakk> weights_ok up; valid_ref up r \<rbrakk> \<Longrightarrow> 0 \<le> effective_weight (peer_at up r) \<and> effective_weight (peer_at up r) \<le> weight (peer_at up r)"
  unfolding weights_ok_def by blast

lemma rr_raise_weight: "\<lbrakk> 0 \<le> effective_weight p; effective_weight p \<le> weight p \<rbrakk>
   \<Longrightarrow> 0 \<le> effective_weight (rr_raise p) \<and> effective_weight (rr_raise p) \<le> weight (rr_raise p)"
  by (simp add: rr_raise_def)

lemma sum_list_update_int:
  "k < length xs \<Longrightarrow> sum_list (xs[k := x]) = sum_list xs + x - xs ! k" for x :: int
  by (induction xs arbitrary: k) (auto split: nat.split)

text \<open>The group after a choice, peer by peer.\<close>

lemma chosen_group:
  assumes "groups_ok up" "has_group up b" "first_best now t 0 (peers (group_of up b)) p"
  defines "ps \<equiv> peers (group_of up b)"
  defines "up1 \<equiv> set_group b ((raised now t 0 ps)[p := picked now (ready_weight now t 0 ps) (rr_raise (ps ! p))]) up"
  shows "groups_ok up1" "same_peers up up1" "same_conns up up1" "weights_ok up \<Longrightarrow> weights_ok up1"
    "has_group up c \<Longrightarrow> weight_sum up1 c = weight_sum up c"
proof -
  have p: "p < length ps" using assms(3) by (simp add: first_best_def ps_def)
  have sh: "shape up1 = shape up" by (simp add: up1_def)
  show g: "groups_ok up1" unfolding up1_def by (rule groups_ok_set_group[OF assms(1,2)]) (simp add: ps_def)
  have at: "peer_at up1 (c, i) = (if c = b then
        if i = p then picked now (ready_weight now t 0 ps) (rr_raise (ps ! p))
        else if ready now t i (ps ! i) then rr_raise (ps ! i) else ps ! i else peer_at up (c, i))"
    if "valid_ref up (c, i)" for c i
    using valid_ref_less[OF assms(1) that] p raised_nth[of i ps now t 0]
    by (auto simp: up1_def peer_at_set_group[OF assms(2)] nth_list_update ps_def)
  have at': "peer_at up (b, i) = ps ! i" for i by (simp add: peer_at_def ps_def)
  show "same_peers up up1" unfolding same_peers_def using sh
    by (auto simp: at at' fixed_def)
  show "same_conns up up1" unfolding same_conns_def by (auto simp: at at')
  show "weights_ok up1" if w: "weights_ok up"
    unfolding weights_ok_def
  proof (intro allI impI)
    fix r assume "valid_ref up1 r"
    then have r: "valid_ref up (fst r, snd r)" using shape_eqD(3)[OF sh] by simp
    have "0 \<le> effective_weight (rr_raise (peer_at up r)) \<and> effective_weight (rr_raise (peer_at up r)) \<le> weight (rr_raise (peer_at up r))"
      using weights_okD[OF w r] by (intro rr_raise_weight) simp_all
    then show "0 \<le> effective_weight (peer_at up1 r) \<and> effective_weight (peer_at up1 r) \<le> weight (peer_at up1 r)"
      using at[OF r] weights_okD[OF w r] by (cases r) (auto simp: at')
  qed
  show "weight_sum up1 c = weight_sum up c" if c: "has_group up c"
  proof (cases "c = b")
    case True
    have r: "raised now t 0 ps ! p = rr_raise (ps ! p)" using assms(3) raised_nth[OF p, of now t 0] by (simp add: first_best_def ps_def)
    have "sum_list (map current_weight ((raised now t 0 ps)[p := picked now tot (rr_raise (ps ! p))]))
        = sum_list (map current_weight (raised now t 0 ps)) - tot" for tot
      unfolding map_update using p by (simp add: sum_list_update_int r)
    then show ?thesis unfolding True
      by (simp add: weight_sum_def up1_def group_of_set_group[OF assms(2)] raised_sum) (simp add: ps_def)
  next
    case False
    then show ?thesis by (simp add: weight_sum_def up1_def group_of_set_group[OF assms(2)])
  qed
qed

lemma same_peers_refl [simp]: "same_peers up up" "same_conns up up"
  by (simp_all add: same_peers_def same_conns_def)

lemma choose_peer:
  assumes "groups_ok up" "has_group up (on_backup rq)" "rr_choose now up rq = Some (up1, rq1, i)"
  shows "valid_ref up (on_backup rq, i)" "groups_ok up1" "same_peers up up1" "same_conns up up1"
    "weights_ok up \<Longrightarrow> weights_ok up1" "has_group up c \<Longrightarrow> weight_sum up1 c = weight_sum up c"
    "rr_current rq1 = Some (on_backup rq, i)" "on_backup rq1 = on_backup rq" "tries rq1 = tries rq" "sockaddr rq1 = sockaddr rq"
    "tried rq1 = (if single (group_of up (on_backup rq)) then tried rq else set_tried (tried rq) i)"
    "single (group_of up (on_backup rq)) \<Longrightarrow> i = 0 \<and> \<not> down (peer_at up (on_backup rq, 0))"
    "\<not> single (group_of up (on_backup rq)) \<Longrightarrow> first_best now (tried rq) 0 (peers (group_of up (on_backup rq))) i"
proof -
  define b g where "b = on_backup rq" and "g = group_of up b"
  have "valid_ref up (b, i) \<and> groups_ok up1 \<and> same_peers up up1 \<and> same_conns up up1
    \<and> (weights_ok up \<longrightarrow> weights_ok up1) \<and> (\<forall>c. has_group up c \<longrightarrow> weight_sum up1 c = weight_sum up c)
    \<and> rr_current rq1 = Some (b, i) \<and> on_backup rq1 = b \<and> tries rq1 = tries rq \<and> sockaddr rq1 = sockaddr rq
    \<and> tried rq1 = (if single g then tried rq else set_tried (tried rq) i)
    \<and> (single g \<longrightarrow> i = 0 \<and> \<not> down (peer_at up (b, 0)))
    \<and> (\<not> single g \<longrightarrow> first_best now (tried rq) 0 (peers g) i)"
  proof (cases "single g")
    case True
    then have "\<not> down (peers g ! 0)" "up1 = up" "rq1 = rq\<lparr> rr_current := Some (b, 0) \<rparr>" "i = 0"
      using assms(3) by (auto simp: rr_choose_def b_def g_def Let_def split: if_splits)
    moreover have "valid_ref up (b, 0)" using groups_okD(2)[OF assms(1,2)] assms(2) by (simp add: valid_ref_def b_def)
    ultimately show ?thesis using True assms(1) by (simp add: b_def g_def peer_at_def)
  next
    case False
    from get_peer_cases[of now "peers g" "tried rq"] obtain
      "ngx_http_upstream_get_peer now (peers g) (tried rq) =
        Some ((raised now (tried rq) 0 (peers g))[i := picked now (ready_weight now (tried rq) 0 (peers g)) (rr_raise (peers g ! i))],
          set_tried (tried rq) i, i)" "first_best now (tried rq) 0 (peers g) i"
      using assms(3) False by (fastforce simp: rr_choose_def b_def g_def Let_def split: option.splits)
    then have up1: "up1 = set_group b ((raised now (tried rq) 0 (peers g))[i := picked now (ready_weight now (tried rq) 0 (peers g)) (rr_raise (peers g ! i))]) up"
      and rq1: "rq1 = rq\<lparr> rr_current := Some (b, i), tried := set_tried (tried rq) i \<rparr>"
      and fb: "first_best now (tried rq) 0 (peers g) i"
      using assms(3) False by (simp_all add: rr_choose_def b_def g_def Let_def)
    have hb: "has_group up b" using assms(2) by (simp add: b_def)
    have "valid_ref up (b, i)" using fb by (intro valid_refI[OF assms(1) hb]) (simp add: first_best_def g_def)
    then show ?thesis
      using chosen_group[OF assms(1) hb fb[unfolded g_def]] False fb rq1 unfolding up1 by (simp add: g_def b_def)
  qed
  then show "valid_ref up (on_backup rq, i)" "groups_ok up1" "same_peers up up1" "same_conns up up1"
    "weights_ok up \<Longrightarrow> weights_ok up1" "has_group up c \<Longrightarrow> weight_sum up1 c = weight_sum up c"
    "rr_current rq1 = Some (on_backup rq, i)" "on_backup rq1 = on_backup rq" "tries rq1 = tries rq" "sockaddr rq1 = sockaddr rq"
    "tried rq1 = (if single (group_of up (on_backup rq)) then tried rq else set_tried (tried rq) i)"
    "single (group_of up (on_backup rq)) \<Longrightarrow> i = 0 \<and> \<not> down (peer_at up (on_backup rq, 0))"
    "\<not> single (group_of up (on_backup rq)) \<Longrightarrow> first_best now (tried rq) 0 (peers (group_of up (on_backup rq))) i"
    by (simp_all only: b_def g_def simp_thms)
qed

subsection \<open>What getting and freeing do\<close>

text \<open>
  The balancing modules share the frame of \<^verbatim>\<open>get\<close>: a choice, and what to do when there is none.
\<close>

type_synonym choose_fun = "int \<Rightarrow> rr_upstream \<Rightarrow> rr_request \<Rightarrow> (rr_upstream \<times> rr_request \<times> nat) option"

function rr_get :: "choose_fun \<Rightarrow> int \<Rightarrow> rr_upstream \<Rightarrow> rr_request \<Rightarrow> rr_upstream \<times> rr_request \<times> int" where
  "rr_get pick now up rq =
     (let b = on_backup rq in
      case pick now up rq of
        Some (up', rq', p) \<Rightarrow>
          let g = group_of up' b; q = peers g ! p in
          (set_group b ((peers g)[p := q\<lparr> conns := conns q + 1 \<rparr>]) up',
           rq'\<lparr> sockaddr := Some (peer_addr q) \<rparr>, NGX_OK)
      | None \<Rightarrow>
          if \<not> b \<and> backup up \<noteq> None then
            let n = bitmap_words (number (the (backup up)));
                (up', rq', rc) = rr_get pick now up (rq\<lparr> on_backup := True, tried := clear_tried n (tried rq) \<rparr>) in
            if rc \<noteq> NGX_BUSY then (up', rq', rc) else (clear_fails b up', rq', NGX_BUSY)
          else (clear_fails b up, rq, NGX_BUSY))"
  by pat_completeness auto

termination
  by (relation "measure (\<lambda>(pick, now, up, rq). if on_backup rq then 0 else 1)") auto

declare rr_get.simps [simp del] ngx_http_upstream_get_round_robin_peer.simps [simp del]

lemma round_robin_get: "ngx_http_upstream_get_round_robin_peer now up rq = rr_get rr_choose now up rq"
proof (induction now up rq rule: ngx_http_upstream_get_round_robin_peer.induct)
  case (1 now up rq)
  show ?case
  proof (cases "rr_choose now up rq = None \<and> \<not> on_backup rq \<and> backup up \<noteq> None")
    case True
    define rq' where "rq' = rq\<lparr> on_backup := True, tried := clear_tried (bitmap_words (number (the (backup up)))) (tried rq) \<rparr>"
    have "ngx_http_upstream_get_round_robin_peer now up rq' = rr_get rr_choose now up rq'"
      using 1 True unfolding rq'_def by blast
    then show ?thesis using True
      by (subst rr_get.simps, subst ngx_http_upstream_get_round_robin_peer.simps) (simp add: Let_def rq'_def)
  next
    case False
    then show ?thesis
      by (subst rr_get.simps, subst ngx_http_upstream_get_round_robin_peer.simps) (auto simp: Let_def split: option.split)
  qed
qed

definition use_peer :: "rr_peer \<Rightarrow> rr_peer" where
  "use_peer p = p\<lparr> conns := conns p + 1 \<rparr>"

definition switched :: "rr_upstream \<Rightarrow> rr_request \<Rightarrow> rr_request" where
  "switched up rq = rq\<lparr> on_backup := True, tried := clear_tried (bitmap_words (number (the (backup up)))) (tried rq) \<rparr>"

lemma get_here:
  assumes "pick now up rq = Some (up1, rq1, i)"
  shows "rr_get pick now up rq =
    (upd_peer (on_backup rq, i) use_peer up1, rq1\<lparr> sockaddr := Some (peer_addr (peer_at up1 (on_backup rq, i))) \<rparr>, NGX_OK)"
  using assms by (subst rr_get.simps) (simp add: Let_def upd_peer_def peer_at_def use_peer_def)

lemma get_none:
  assumes "pick now up rq = None" "on_backup rq \<or> backup up = None"
  shows "rr_get pick now up rq = (clear_fails (on_backup rq) up, rq, NGX_BUSY)"
  using assms by (subst rr_get.simps) (auto simp: Let_def)

lemma NGX_BUSY_OK [simp]: "NGX_OK \<noteq> NGX_BUSY" "NGX_BUSY \<noteq> NGX_OK"
  by (simp_all add: NGX_BUSY_def NGX_OK_def)

lemma get_backup:
  assumes "pick now up rq = None" "\<not> on_backup rq" "backup up \<noteq> None"
  shows "rr_get pick now up rq =
    (case pick now up (switched up rq) of
       Some (up1, rq1, i) \<Rightarrow> (upd_peer (True, i) use_peer up1, rq1\<lparr> sockaddr := Some (peer_addr (peer_at up1 (True, i))) \<rparr>, NGX_OK)
     | None \<Rightarrow> (clear_fails False (clear_fails True up), switched up rq, NGX_BUSY))"
proof -
  have sw: "rq\<lparr> on_backup := True, tried := clear_tried (bitmap_words (number (the (backup up)))) (tried rq) \<rparr> = switched up rq"
    "on_backup (switched up rq)" by (simp_all add: switched_def)
  have "rr_get pick now up rq =
    (case rr_get pick now up (switched up rq) of
      (up', rq', rc) \<Rightarrow> if rc \<noteq> NGX_BUSY then (up', rq', rc) else (clear_fails False up', rq', NGX_BUSY))"
    using assms by (subst rr_get.simps)
      (simp add: Let_def sw)
  then show ?thesis
    using get_none[of pick now up "switched up rq"] get_here[of pick now up "switched up rq"] sw(2)
    by (auto split: option.splits prod.splits)
qed

text \<open>The three ways a call can end: with a peer of the group, with one of the backup, or busy.\<close>

lemma get_cases:
  obtains up1 rq1 i where "pick now up rq = Some (up1, rq1, i)"
      "rr_get pick now up rq =
        (upd_peer (on_backup rq, i) use_peer up1, rq1\<lparr> sockaddr := Some (peer_addr (peer_at up1 (on_backup rq, i))) \<rparr>, NGX_OK)"
  | up1 rq1 i where "pick now up rq = None" "\<not> on_backup rq" "backup up \<noteq> None"
      "pick now up (switched up rq) = Some (up1, rq1, i)"
      "rr_get pick now up rq =
        (upd_peer (True, i) use_peer up1, rq1\<lparr> sockaddr := Some (peer_addr (peer_at up1 (True, i))) \<rparr>, NGX_OK)"
  | "pick now up rq = None" "on_backup rq \<or> backup up = None"
      "rr_get pick now up rq = (clear_fails (on_backup rq) up, rq, NGX_BUSY)"
  | "pick now up rq = None" "\<not> on_backup rq" "backup up \<noteq> None" "pick now up (switched up rq) = None"
      "rr_get pick now up rq =
        (clear_fails False (clear_fails True up), switched up rq, NGX_BUSY)"
proof (cases "pick now up rq")
  case (Some a)
  then show ?thesis using that(1) get_here[of pick] by (cases a) blast
next
  case None
  show ?thesis
  proof (cases "on_backup rq \<or> backup up = None")
    case True
    then show ?thesis using that(3) None get_none[of pick] by blast
  next
    case False
    then have f: "\<not> on_backup rq" "backup up \<noteq> None" by simp_all
    show ?thesis
    proof (cases "pick now up (switched up rq)")
      case no: None
      then show ?thesis using that(4)[OF None f] get_backup[of pick, OF None f] by simp
    next
      case (Some a)
      then show ?thesis using that(2)[OF None f] get_backup[of pick, OF None f] by (cases a) simp
    qed
  qed
qed

definition release_peer :: "int \<Rightarrow> bool \<Rightarrow> bool \<Rightarrow> rr_peer \<Rightarrow> rr_peer" where
  "release_peer now one failed p =
     (let q = (if one then p else if failed then rr_failed now p else rr_passed p) in q\<lparr> conns := conns p - 1 \<rparr>)"

lemma rr_failed_simps [simp]:
  "conns (rr_failed now p) = conns p" "current_weight (rr_failed now p) = current_weight p" "fixed (rr_failed now p) = fixed p"
  "weight (rr_failed now p) = weight p"
  by (simp_all add: rr_failed_def Let_def fixed_def)

lemma rr_passed_simps [simp]:
  "conns (rr_passed p) = conns p" "current_weight (rr_passed p) = current_weight p" "fixed (rr_passed p) = fixed p"
  "weight (rr_passed p) = weight p" "effective_weight (rr_passed p) = effective_weight p"
  by (simp_all add: rr_passed_def fixed_def)

lemma rr_failed_weight:
  assumes "0 \<le> effective_weight p" "effective_weight p \<le> weight p"
  shows "0 \<le> effective_weight (rr_failed now p) \<and> effective_weight (rr_failed now p) \<le> weight p"
proof -
  have "effective_weight p - uint x \<le> weight p" for x :: ngx_uint
    using assms(2) uint_ge_0[of x] by linarith
  then show ?thesis using assms unfolding rr_failed_def Let_def by simp
qed

lemma free_peer:
  assumes "rr_current rq = Some r"
  shows "ngx_http_upstream_free_round_robin_peer now failed up rq =
    (upd_peer r (release_peer now (single (group_of up (on_backup rq))) failed) up,
     if single (group_of up (on_backup rq)) then rq\<lparr> tries := 0 \<rparr>
     else if tries rq \<noteq> 0 then rq\<lparr> tries := tries rq - 1 \<rparr> else rq)"
  using assms by (cases r) (simp add: ngx_http_upstream_free_round_robin_peer_def upd_peer_def peer_at_def release_peer_def Let_def)

text \<open>Updates of one peer.\<close>

lemma upd_same_peers:
  assumes "groups_ok up" "valid_ref up r" "fixed (f (peer_at up r)) = fixed (peer_at up r)"
  shows "same_peers up (upd_peer r f up)"
  using assms by (simp add: same_peers_def peer_at_upd)

lemma upd_weights_ok:
  assumes "groups_ok up" "valid_ref up r" "weights_ok up"
    "0 \<le> effective_weight (f (peer_at up r)) \<and> effective_weight (f (peer_at up r)) \<le> weight (f (peer_at up r))"
  shows "weights_ok (upd_peer r f up)"
  using assms shape_eqD(3)[OF shape_upd_peer[of r f up]] by (simp add: weights_ok_def peer_at_upd)

lemma upd_weight_sum:
  assumes "groups_ok up" "valid_ref up r" "current_weight (f (peer_at up r)) = current_weight (peer_at up r)" "has_group up b"
  shows "weight_sum (upd_peer r f up) b = weight_sum up b"
  by (rule weight_sum_keep) (use assms groups_ok_upd in \<open>simp_all add: peer_at_upd\<close>)

lemma upd_rr_ok:
  assumes "rr_ok up" "valid_ref up r" "current_weight (f (peer_at up r)) = current_weight (peer_at up r)"
    "0 \<le> effective_weight (f (peer_at up r)) \<and> effective_weight (f (peer_at up r)) \<le> weight (f (peer_at up r))"
  shows "rr_ok (upd_peer r f up)"
  using assms groups_ok_upd upd_weights_ok upd_weight_sum shape_eqD(2)[OF shape_upd_peer[of r f up]]
  by (simp add: rr_ok_def)

lemma clear_rr_ok:
  assumes "rr_ok up" "has_group up b"
  shows "rr_ok (clear_fails b up)" "same_peers up (clear_fails b up)" "same_conns up (clear_fails b up)"
proof -
  have g: "groups_ok up" using assms(1) by (simp add: rr_ok_def)
  note at = peer_at_clear[OF g assms(2)]
  have s: "weight_sum (clear_fails b up) c = weight_sum up c" if "has_group up c" for c
    by (rule weight_sum_keep[OF g groups_ok_clear[OF g assms(2)] shape_clear_fails that]) (simp add: at)
  show "rr_ok (clear_fails b up)"
    using assms s groups_ok_clear[OF g assms(2)] shape_eqD(2,3)[OF shape_clear_fails[of b up]]
    by (simp add: rr_ok_def weights_ok_def at)
  show "same_peers up (clear_fails b up)" "same_conns up (clear_fails b up)"
    by (simp_all add: same_peers_def same_conns_def at fixed_def)
qed

end
