(* ===== verification/Ngx_Upstream_Requests.thy ===== *)
theory Ngx_Upstream_Requests
  imports Ngx_Upstream_Choice
begin

text \<open>
  Requests that share an upstream as a machine of events, the invariant of its runs, the contract of a
  balancing module as a locale (a choice of a peer, then a get) and its two interpretations, on round
  robin and on least_conn.
\<close>

subsection \<open>Requests that share an upstream\<close>

text \<open>
  The callers in \<^verbatim>\<open>http/ngx_http_upstream.c\<close>: a request is started with a fresh state, gets a peer
  (for the first time, or again after a failure while it has tries left), and frees each peer it got.
  Requests interleave in any order; a step may find any cached time.  \<open>seen\<close> and \<open>picks\<close> are history:
  the peers of a request and of all requests, the latest first.
\<close>

record rr_sys =
  up :: rr_upstream
  reqs :: "nat \<Rightarrow> rr_request option"
  seen :: "nat \<Rightarrow> peer_ref list"
  picks :: "peer_ref list"

datatype rr_event =
    Start nat "nat \<Rightarrow> bool" ngx_uint
  | Get nat int
  | Free nat int bool
  | Finish nat

definition limit_tries :: "ngx_uint \<Rightarrow> rr_request \<Rightarrow> rr_request" where
  "limit_tries lim rq = (if lim \<noteq> 0 \<and> tries rq > lim then rq\<lparr> tries := lim \<rparr> else rq)"

definition may_get :: "rr_request \<Rightarrow> bool" where
  "may_get rq \<longleftrightarrow> sockaddr rq = None \<and> (rr_current rq = None \<or> tries rq \<noteq> 0)"

text \<open>
  \<open>get\<close> is the function that \<^verbatim>\<open>peer.get\<close> points to; the balancing modules differ in it.
\<close>

type_synonym get_peer = "int \<Rightarrow> rr_upstream \<Rightarrow> rr_request \<Rightarrow> rr_upstream \<times> rr_request \<times> int"

definition do_get :: "get_peer \<Rightarrow> nat \<Rightarrow> int \<Rightarrow> rr_request \<Rightarrow> rr_sys \<Rightarrow> rr_sys" where
  "do_get get r now rq s =
     (case get now (up s) rq of
        (up', rq', rc) \<Rightarrow>
          if rc = NGX_OK then
            s\<lparr> up := up', reqs := (reqs s)(r \<mapsto> rq'), seen := (seen s)(r := the (rr_current rq') # seen s r),
               picks := the (rr_current rq') # picks s \<rparr>
          else s\<lparr> up := up', reqs := (reqs s)(r \<mapsto> rq') \<rparr>)"

definition do_free :: "nat \<Rightarrow> int \<Rightarrow> bool \<Rightarrow> rr_request \<Rightarrow> rr_sys \<Rightarrow> rr_sys" where
  "do_free r now failed rq s =
     (case ngx_http_upstream_free_round_robin_peer now failed (up s) rq of
        (up', rq') \<Rightarrow> s\<lparr> up := up', reqs := (reqs s)(r \<mapsto> rq'\<lparr> sockaddr := None \<rparr>) \<rparr>)"

text \<open>An event that the state does not allow changes nothing.  Requests are numbered below \<open>n\<close>.\<close>

fun rr_do :: "get_peer \<Rightarrow> nat \<Rightarrow> rr_event \<Rightarrow> rr_sys \<Rightarrow> rr_sys" where
  "rr_do get n (Start r alloc lim) s =
     (if r < n \<and> reqs s r = None then
        case ngx_http_upstream_init_round_robin_peer alloc (up s) of
          None \<Rightarrow> s
        | Some rq \<Rightarrow> s\<lparr> reqs := (reqs s)(r \<mapsto> limit_tries lim rq), seen := (seen s)(r := []) \<rparr>
      else s)"
| "rr_do get n (Get r now) s =
     (case reqs s r of None \<Rightarrow> s | Some rq \<Rightarrow> if r < n \<and> may_get rq then do_get get r now rq s else s)"
| "rr_do get n (Free r now failed) s =
     (case reqs s r of None \<Rightarrow> s | Some rq \<Rightarrow> if r < n \<and> sockaddr rq \<noteq> None then do_free r now failed rq s else s)"
| "rr_do get n (Finish r) s =
     (case reqs s r of None \<Rightarrow> s | Some rq \<Rightarrow> if sockaddr rq = None then s\<lparr> reqs := (reqs s)(r := None) \<rparr> else s)"

definition rr_start :: "rr_upstream \<Rightarrow> rr_sys" where
  "rr_start u = \<lparr> up = u, reqs = (\<lambda>r. None), seen = (\<lambda>r. []), picks = [] \<rparr>"

definition rr_step :: "get_peer \<Rightarrow> nat \<Rightarrow> rr_sys \<Rightarrow> rr_sys \<Rightarrow> bool" where
  "rr_step get n s s' \<longleftrightarrow> (\<exists>e. s' = rr_do get n e s)"

subsection \<open>The invariant\<close>

definition rr_holds :: "peer_ref \<Rightarrow> rr_request option \<Rightarrow> bool" where
  "rr_holds p x \<longleftrightarrow> (case x of None \<Rightarrow> False | Some rq \<Rightarrow> sockaddr rq \<noteq> None \<and> rr_current rq = Some p)"

definition conns_ok :: "nat \<Rightarrow> rr_upstream \<Rightarrow> (nat \<Rightarrow> rr_request option) \<Rightarrow> bool" where
  "conns_ok n u rs \<longleftrightarrow> (\<forall>p. valid_ref u p \<longrightarrow> conns (peer_at u p) = of_nat (cnt n (rr_holds p) rs))"

definition request_ok :: "rr_upstream \<Rightarrow> rr_request \<Rightarrow> bool" where
  "request_ok u rq \<longleftrightarrow> has_group u (on_backup rq)
     \<and> (\<forall>b. has_group u b \<longrightarrow> number (group_of u b) \<le> 64 * length (tried rq))
     \<and> (\<forall>p. rr_current rq = Some p \<longrightarrow> valid_ref u p)
     \<and> (sockaddr rq \<noteq> None \<longrightarrow> rr_current rq \<noteq> None)"

definition seen_ok :: "rr_upstream \<Rightarrow> rr_request \<Rightarrow> peer_ref list \<Rightarrow> bool" where
  "seen_ok u rq ps \<longleftrightarrow> distinct ps \<and> (\<forall>p\<in>set ps. valid_ref u p \<and> (fst p \<longrightarrow> on_backup rq))
     \<and> (if single (primary u) then
          (if rr_current rq = None then ps = [] else ps = [(False, 0)] \<and> (sockaddr rq = None \<longrightarrow> tries rq = 0))
        else \<forall>i<number (group_of u (on_backup rq)). tried_bit (tried rq) i \<longleftrightarrow> (on_backup rq, i) \<in> set ps)"

definition rr_inv :: "nat \<Rightarrow> rr_sys \<Rightarrow> bool" where
  "rr_inv n s \<longleftrightarrow> rr_ok (up s) \<and> conns_ok n (up s) (reqs s)
     \<and> (\<forall>r rq. reqs s r = Some rq \<longrightarrow> r < n \<and> request_ok (up s) rq \<and> seen_ok (up s) rq (seen s r))"

lemma request_ok_shape:
  assumes "shape u' = shape u" "request_ok u rq"
  shows "request_ok u' rq"
  using assms(2) shape_eqD[OF assms(1)] by (simp add: request_ok_def)

lemma seen_ok_shape:
  assumes "shape u' = shape u" "request_ok u rq" "seen_ok u rq ps"
  shows "seen_ok u' rq ps"
  using assms(2,3) shape_eqD[OF assms(1)] by (simp add: request_ok_def seen_ok_def)

lemma rr_invI:
  assumes "rr_inv n s" "rr_ok u" "shape u = shape (up s)" "conns_ok n u (reqs s')" "up s' = u"
    and "\<And>q. q \<noteq> r \<Longrightarrow> reqs s' q = reqs s q \<and> seen s' q = seen s q"
    and "\<And>rq. reqs s' r = Some rq \<Longrightarrow> r < n \<and> request_ok u rq \<and> seen_ok u rq (seen s' r)"
  shows "rr_inv n s'"
  unfolding rr_inv_def assms(5)
proof (intro conjI allI impI assms(2,4))
  fix q rq assume q: "reqs s' q = Some rq"
  have *: "q < n \<and> request_ok u rq \<and> seen_ok u rq (seen s' q)"
  proof (cases "q = r")
    case True
    then show ?thesis using assms(7) q by simp
  next
    case False
    then have "q < n \<and> request_ok (up s) rq \<and> seen_ok (up s) rq (seen s' q)"
      using assms(1) q assms(6)[OF False] by (simp add: rr_inv_def)
    then show ?thesis using request_ok_shape[OF assms(3)] seen_ok_shape[OF assms(3)] by blast
  qed
  then show "q < n" "request_ok u rq" "seen_ok u rq (seen s' q)" by simp_all
qed

lemma conns_ok_same:
  assumes "conns_ok n u rs" "same_peers u u'" "same_conns u u'"
    "\<And>p. cnt n (rr_holds p) rs' = cnt n (rr_holds p) rs"
  shows "conns_ok n u' rs'"
  using assms shape_eqD(3)[of u' u] by (simp add: conns_ok_def same_peers_def same_conns_def)

subsection \<open>What a balancing module promises\<close>

text \<open>
  The contract of \<^verbatim>\<open>peer.get\<close>, for a request that has seen the peers \<open>ps\<close>: with \<^verbatim>\<open>NGX_OK\<close> it
  counts the request at one new peer and points it there; otherwise the counters stay.  The groups, the
  configuration of the peers and the invariants of weights and requests are kept.
\<close>

definition got :: "rr_upstream \<Rightarrow> peer_ref list \<Rightarrow> rr_upstream \<times> rr_request \<times> int \<Rightarrow> bool" where
  "got u ps ans \<longleftrightarrow> (case ans of (u', rq', rc) \<Rightarrow>
     rr_ok u' \<and> same_peers u u' \<and> request_ok u rq'
     \<and> (if rc = NGX_OK then
          (\<exists>p. rr_current rq' = Some p \<and> sockaddr rq' \<noteq> None \<and> valid_ref u p \<and> seen_ok u rq' (p # ps)
             \<and> (\<forall>q. valid_ref u q \<longrightarrow> conns (peer_at u' q) = conns (peer_at u q) + (if q = p then 1 else 0)))
        else sockaddr rq' = None \<and> same_conns u u' \<and> seen_ok u rq' ps))"

locale balancer =
  fixes get :: get_peer
  assumes get_ok: "\<lbrakk> rr_ok u; request_ok u rq; seen_ok u rq ps; may_get rq \<rbrakk> \<Longrightarrow> got u ps (get now u rq)"

subsection \<open>Every event keeps the invariant\<close>

lemma holds_simps [simp]:
  "\<not> rr_holds p None" "rr_holds p (Some rq) \<longleftrightarrow> sockaddr rq \<noteq> None \<and> rr_current rq = Some p"
  by (simp_all add: rr_holds_def)

lemma conns_okD: "\<lbrakk> conns_ok n u rs; valid_ref u p \<rbrakk> \<Longrightarrow> conns (peer_at u p) = of_nat (cnt n (rr_holds p) rs)"
  unfolding conns_ok_def by blast

lemma request_ok_bits: "\<lbrakk> request_ok u rq; has_group u b \<rbrakk> \<Longrightarrow> number (group_of u b) \<le> 64 * length (tried rq)"
  unfolding request_ok_def by blast

lemma rr_invD:
  assumes "rr_inv n s"
  shows "rr_ok (up s)" "groups_ok (up s)" "conns_ok n (up s) (reqs s)"
    "reqs s r = Some rq \<Longrightarrow> r < n \<and> request_ok (up s) rq \<and> seen_ok (up s) rq (seen s r)"
  using assms by (simp_all add: rr_inv_def rr_ok_def)

lemma cnt_idle:
  assumes "r < n" "\<And>rq. reqs s r = Some rq \<Longrightarrow> sockaddr rq = None" "\<And>rq. x = Some rq \<Longrightarrow> sockaddr rq = None"
  shows "cnt n (rr_holds p) ((reqs s)(r := x)) = cnt n (rr_holds p) (reqs s)"
  by (rule cnt_upd_same[OF assms(1)]) (use assms(2,3) in \<open>cases x; cases "reqs s r"; simp\<close>)

lemma seen_single:
  assumes "groups_ok u" "has_group u b"
  shows "single (group_of u b) \<longleftrightarrow> single (primary u)" "single (primary u) \<Longrightarrow> \<not> b"
proof -
  have "single (primary u) \<Longrightarrow> backup u = None" using groups_okD(3)[OF assms(1), of False] by (simp add: has_group_def group_of_def)
  moreover have "b \<Longrightarrow> \<not> single (group_of u b)" using groups_okD(3)[OF assms] assms(2) by (auto simp: has_group_def)
  ultimately show "single (group_of u b) \<longleftrightarrow> single (primary u)" "single (primary u) \<Longrightarrow> \<not> b"
    using assms(2) by (cases b; auto simp: has_group_def group_of_def)+
qed

lemma switched_simps [simp]:
  "on_backup (switched u rq)" "sockaddr (switched u rq) = sockaddr rq" "rr_current (switched u rq) = rr_current rq"
  "tries (switched u rq) = tries rq" "length (tried (switched u rq)) = length (tried rq)"
  by (simp_all add: switched_def)

lemma switched_ok:
  assumes "groups_ok u" "request_ok u rq" "seen_ok u rq ps" "\<not> on_backup rq" "backup u \<noteq> None"
  shows "request_ok u (switched u rq)" "seen_ok u (switched u rq) ps"
proof -
  have hb: "has_group u True" using assms(5) by (simp add: has_group_def)
  have ns: "\<not> single (primary u)" using groups_okD(3)[OF assms(1), of False] assms(5) by (auto simp: has_group_def group_of_def)
  show "request_ok u (switched u rq)" using assms(2) hb by (simp add: request_ok_def)
  have "\<not> tried_bit (tried (switched u rq)) i" if "i < number (group_of u True)" for i
    using tried_clear[of i "number (the (backup u))" "tried rq"] that request_ok_bits[OF assms(2) hb]
    by (simp add: switched_def group_of_def)
  moreover have "(True, i) \<notin> set ps" for i using assms(3,4) by (auto simp: seen_ok_def)
  ultimately show "seen_ok u (switched u rq) ps" using assms(3) ns by (auto simp: seen_ok_def)
qed

lemma first_best_ready: "first_best now t 0 ps i \<Longrightarrow> i < length ps \<and> \<not> tried_bit t i \<and> \<not> down (ps ! i)"
  by (simp add: first_best_def rr_skip_def)

text \<open>
  The contract of a choice: a peer of the request's group that it has not seen, taken from a group with
  the same weight in total.
\<close>

definition chosen :: "rr_upstream \<Rightarrow> rr_request \<Rightarrow> rr_upstream \<times> rr_request \<times> nat \<Rightarrow> bool" where
  "chosen u rq a \<longleftrightarrow> (case a of (u1, rq1, i) \<Rightarrow>
     valid_ref u (on_backup rq, i) \<and> groups_ok u1 \<and> same_peers u u1 \<and> same_conns u u1
     \<and> (weights_ok u \<longrightarrow> weights_ok u1) \<and> (\<forall>c. has_group u c \<longrightarrow> weight_sum u1 c = weight_sum u c)
     \<and> rr_current rq1 = Some (on_backup rq, i) \<and> on_backup rq1 = on_backup rq
     \<and> tried rq1 = (if single (group_of u (on_backup rq)) then tried rq else set_tried (tried rq) i)
     \<and> (single (group_of u (on_backup rq)) \<longrightarrow> i = 0)
     \<and> (\<not> single (group_of u (on_backup rq)) \<longrightarrow> \<not> tried_bit (tried rq) i))"

locale peer_choice =
  fixes pick :: choose_fun
  assumes choose_ok: "\<lbrakk> groups_ok u; has_group u (on_backup rq); pick now u rq = Some a \<rbrakk> \<Longrightarrow> chosen u rq a"

lemma seen_new:
  assumes "groups_ok u" "request_ok u rq" "seen_ok u rq ps" "may_get rq"
    and "chosen u rq (u1, rq1, i)" "sockaddr rq' \<noteq> None"
    and "tried rq' = tried rq1" "on_backup rq' = on_backup rq1" "rr_current rq' = rr_current rq1"
  shows "seen_ok u rq' ((on_backup rq, i) # ps)"
proof -
  have hg: "has_group u (on_backup rq)" using assms(2) by (simp add: request_ok_def)
  have c: "valid_ref u (on_backup rq, i)" "rr_current rq1 = Some (on_backup rq, i)" "on_backup rq1 = on_backup rq"
      "tried rq1 = (if single (group_of u (on_backup rq)) then tried rq else set_tried (tried rq) i)"
      "single (group_of u (on_backup rq)) \<Longrightarrow> i = 0" "\<not> single (group_of u (on_backup rq)) \<Longrightarrow> \<not> tried_bit (tried rq) i"
    using assms(5) by (simp_all add: chosen_def)
  note s = seen_single[OF assms(1) hg]
  show ?thesis
  proof (cases "single (primary u)")
    case True
    then have "ps = []" using assms(3,4) by (auto simp: seen_ok_def may_get_def split: if_splits)
    moreover have "i = 0" "\<not> on_backup rq" using True s c(5) by blast+
    ultimately show ?thesis using True c(1,2) assms(6,9) by (auto simp: seen_ok_def)
  next
    case False
    then have t: "tried rq1 = set_tried (tried rq) i" "\<not> tried_bit (tried rq) i" using s(1) c(4,6) by simp_all
    have bits: "tried_bit (tried rq) j \<longleftrightarrow> (on_backup rq, j) \<in> set ps" if "j < number (group_of u (on_backup rq))" for j
      using assms(3) False that by (simp add: seen_ok_def)
    have i: "i < number (group_of u (on_backup rq))" using c(1) by (simp add: valid_ref_def)
    have len: "j < 64 * length (tried rq)" if "j < number (group_of u (on_backup rq))" for j
      using assms(2) hg that order_less_le_trans unfolding request_ok_def by blast
    have "tried_bit (tried rq') j \<longleftrightarrow> (on_backup rq, j) \<in> set ((on_backup rq, i) # ps)"
      if "j < number (group_of u (on_backup rq))" for j
      using tried_set[OF len[OF that] len[OF i]] bits[OF that] by (auto simp: assms(7) t(1))
    then show ?thesis using assms(3) False c(1,3) bits[OF i] t(2) assms(8) by (simp add: seen_ok_def)
  qed
qed

lemma same_peers_trans: "\<lbrakk> same_peers u v; same_peers v w \<rbrakk> \<Longrightarrow> same_peers u w"
  using shape_eqD(3)[of v u] by (auto simp: same_peers_def)

lemma same_trans:
  assumes "same_peers u v" "same_conns u v" "same_peers v w" "same_conns v w"
  shows "same_peers u w" "same_conns u w"
  using assms shape_eqD(3)[of v u] by (auto simp: same_peers_def same_conns_def)

text \<open>A choice whose peer is then counted keeps the contract, and so does an answer without a peer.\<close>

lemma chosen_got:
  assumes "rr_ok u" "request_ok u rq" "seen_ok u rq ps" "may_get rq"
    and "valid_ref u p" "groups_ok u1" "same_peers u u1" "same_conns u u1" "weights_ok u1"
      "\<And>c. has_group u c \<Longrightarrow> weight_sum u1 c = weight_sum u c"
    and "request_ok u rq'" "seen_ok u rq' (p # ps)" "rr_current rq' = Some p" "sockaddr rq' \<noteq> None"
  shows "got u ps (upd_peer p use_peer u1, rq', NGX_OK)"
proof -
  have sh1: "shape u1 = shape u" using assms(7) by (simp add: same_peers_def)
  have v1: "valid_ref u1 p" using assms(5) shape_eqD(3)[OF sh1] by simp
  have ok1: "rr_ok u1" using assms(1,6,9,10) shape_eqD(2)[OF sh1] by (simp add: rr_ok_def)
  have ok': "rr_ok (upd_peer p use_peer u1)"
    by (rule upd_rr_ok[OF ok1 v1]) (use weights_okD[OF assms(9) v1] in \<open>simp_all add: use_peer_def\<close>)
  have "same_peers u1 (upd_peer p use_peer u1)" by (rule upd_same_peers[OF assms(6) v1]) (simp add: use_peer_def fixed_def)
  then have sp: "same_peers u (upd_peer p use_peer u1)" using same_peers_trans[OF assms(7)] by blast
  have "conns (peer_at (upd_peer p use_peer u1) q) = conns (peer_at u q) + (if q = p then 1 else 0)" if "valid_ref u q" for q
  proof -
    have "conns (peer_at u1 q) = conns (peer_at u q)" using assms(8) that unfolding same_conns_def by metis
    then show ?thesis by (auto simp: peer_at_upd[OF assms(6) v1] use_peer_def)
  qed
  then show ?thesis using ok' sp assms(5,11-14) by (simp add: got_def)
qed

lemma busy_got:
  assumes "rr_ok u'" "same_peers u u'" "same_conns u u'" "request_ok u rq" "seen_ok u rq ps" "sockaddr rq = None"
  shows "got u ps (u', rq, NGX_BUSY)"
  using assms by (simp add: got_def)

context balancer
begin

lemma do_get_inv:
  assumes "rr_inv n s" "reqs s r = Some rq" "r < n" "may_get rq"
  shows "rr_inv n (do_get get r now rq s) \<and> shape (up (do_get get r now rq s)) = shape (up s)"
proof -
  note inv = rr_invD[OF assms(1)]
  have req: "request_ok (up s) rq" and sn: "seen_ok (up s) rq (seen s r)" using inv(4)[OF assms(2)] by simp_all
  have sa: "sockaddr rq = None" using assms(4) by (simp add: may_get_def)
  obtain u' rq' rc where g: "get now (up s) rq = (u', rq', rc)" by (metis prod_cases3)
  have got: "got (up s) (seen s r) (u', rq', rc)" using get_ok[OF inv(1) req sn assms(4), of now] g by simp
  have ok': "rr_ok u'" and sp: "same_peers (up s) u'" and rq': "request_ok (up s) rq'" using got by (simp_all add: got_def)
  have sh: "shape u' = shape (up s)" using sp by (simp add: same_peers_def)
  show ?thesis
  proof (cases "rc = NGX_OK")
    case True
    then obtain p where p: "rr_current rq' = Some p" "sockaddr rq' \<noteq> None" "valid_ref (up s) p" "seen_ok (up s) rq' (p # seen s r)"
        "\<And>q. valid_ref (up s) q \<Longrightarrow> conns (peer_at u' q) = conns (peer_at (up s) q) + (if q = p then 1 else 0)"
      using got unfolding got_def by auto
    have cn: "cnt n (rr_holds q) ((reqs s)(r \<mapsto> rq')) = cnt n (rr_holds q) (reqs s) + (if q = p then 1 else 0)" for q
    proof (cases "q = p")
      case True
      then show ?thesis using cnt_upd_in[OF assms(3), of "rr_holds q" "Some rq'" "reqs s"] assms(2) sa p(1,2) by simp
    next
      case False
      then show ?thesis using cnt_upd_same[OF assms(3), of "rr_holds q" "Some rq'" "reqs s"] assms(2) sa p(1,2) by simp
    qed
    have "conns (peer_at u' q) = of_nat (cnt n (rr_holds q) ((reqs s)(r \<mapsto> rq')))" if "valid_ref (up s) q" for q
      using conns_okD[OF inv(3) that] p(5)[OF that] by (auto simp: cn)
    then have "conns_ok n u' ((reqs s)(r \<mapsto> rq'))" unfolding conns_ok_def using shape_eqD(3)[OF sh] by blast
    then have "rr_inv n (s\<lparr> up := u', reqs := (reqs s)(r \<mapsto> rq'), seen := (seen s)(r := p # seen s r), picks := p # picks s \<rparr>)"
      by (intro rr_invI[OF assms(1) ok' sh, of _ r])
        (use assms(3) request_ok_shape[OF sh rq'] seen_ok_shape[OF sh rq' p(4)] in auto)
    then show ?thesis using g True p(1) sh by (simp add: do_get_def)
  next
    case False
    then have b: "sockaddr rq' = None" "same_conns (up s) u'" "seen_ok (up s) rq' (seen s r)" using got by (simp_all add: got_def)
    have "conns_ok n u' ((reqs s)(r \<mapsto> rq'))"
      by (rule conns_ok_same[OF inv(3) sp b(2)], rule cnt_idle[OF assms(3)]) (use assms(2) sa b(1) in auto)
    then have "rr_inv n (s\<lparr> up := u', reqs := (reqs s)(r \<mapsto> rq') \<rparr>)"
      by (intro rr_invI[OF assms(1) ok' sh, of _ r])
        (use assms(3) request_ok_shape[OF sh rq'] seen_ok_shape[OF sh rq' b(3)] in auto)
    then show ?thesis using g False sh by (simp add: do_get_def)
  qed
qed

end

text \<open>A choice that keeps its contract makes a \<open>get\<close> that does.\<close>

context peer_choice
begin

lemma get_chosen:
  assumes "rr_ok u" "request_ok u rq" "seen_ok u rq ps" "may_get rq" "pick now u rq = Some (u1, rq1, i)"
  shows "got u ps (upd_peer (on_backup rq, i) use_peer u1, rq1\<lparr> sockaddr := Some a \<rparr>, NGX_OK)"
proof -
  have g: "groups_ok u" and w: "weights_ok u" using assms(1) by (simp_all add: rr_ok_def)
  have h: "has_group u (on_backup rq)" using assms(2) by (simp add: request_ok_def)
  have c: "chosen u rq (u1, rq1, i)" by (rule choose_ok[OF g h assms(5)])
  then have "request_ok u (rq1\<lparr> sockaddr := Some a \<rparr>)" using assms(2) by (auto simp: request_ok_def chosen_def)
  moreover have "seen_ok u (rq1\<lparr> sockaddr := Some a \<rparr>) ((on_backup rq, i) # ps)"
    by (rule seen_new[OF g assms(2-4) c]) simp_all
  ultimately show ?thesis
    using c w by (intro chosen_got[OF assms(1-4)]) (simp_all add: chosen_def)
qed

lemma get_got:
  assumes "rr_ok u" "request_ok u rq" "seen_ok u rq ps" "may_get rq"
  shows "got u ps (rr_get pick now u rq)"
proof -
  have g: "groups_ok u" using assms(1) by (simp add: rr_ok_def)
  have sa: "sockaddr rq = None" using assms(4) by (simp add: may_get_def)
  have hg: "has_group u (on_backup rq)" using assms(2) by (simp add: request_ok_def)
  show ?thesis
  proof (cases rule: get_cases[of pick now u rq])
    case (1 u1 rq1 i)
    then show ?thesis using get_chosen[OF assms 1(1)] by simp
  next
    case (2 u1 rq1 i)
    note sw = switched_ok[OF g assms(2,3) 2(2,3)]
    have "may_get (switched u rq)" using assms(4) by (simp add: may_get_def)
    then show ?thesis using get_chosen[OF assms(1) sw _ 2(4)] 2(5) by simp
  next
    case 3
    then show ?thesis using busy_got[OF clear_rr_ok[OF assms(1) hg] assms(2,3) sa] by simp
  next
    case 4
    note sw = switched_ok[OF g assms(2,3) 4(2,3)]
    have hb: "has_group u True" "has_group (clear_fails True u) False" using 4(3) by (simp_all add: has_group_def)
    note c1 = clear_rr_ok[OF assms(1) hb(1)] note c2 = clear_rr_ok[OF c1(1) hb(2)]
    show ?thesis using busy_got[OF c2(1) same_trans[OF c1(2,3) c2(2,3)] sw] sa 4(5) by simp
  qed
qed

end

sublocale peer_choice \<subseteq> balancer "rr_get pick"
  by unfold_locales (rule get_got)

interpretation rr_choice: peer_choice rr_choose
proof
  fix u rq now a
  assume a: "groups_ok u" "has_group u (on_backup rq)" "rr_choose now u rq = Some a"
  obtain u1 rq1 i where [simp]: "a = (u1, rq1, i)" by (cases a)
  note c = choose_peer[OF a(1,2), of now u1 rq1 i]
  have "rr_choose now u rq = Some (u1, rq1, i)" using a(3) by simp
  note c = c[OF this]
  have "\<not> tried_bit (tried rq) i" if "\<not> single (group_of u (on_backup rq))"
    using first_best_ready[OF c(13)[OF that]] by blast
  then show "chosen u rq a" unfolding chosen_def using c(1-8,11) c(12) by simp
qed

interpretation round_robin: balancer ngx_http_upstream_get_round_robin_peer
  unfolding ext[OF ext[OF ext[OF round_robin_get]]] by (rule rr_choice.balancer_axioms)

text \<open>Freeing a peer, and the events that start and finish a request.\<close>

lemma do_free_inv:
  assumes "rr_inv n s" "reqs s r = Some rq" "r < n" "sockaddr rq \<noteq> None"
  shows "rr_inv n (do_free r now failed rq s)"
proof -
  note inv = rr_invD[OF assms(1)]
  have req: "request_ok (up s) rq" and sn: "seen_ok (up s) rq (seen s r)" using inv(4)[OF assms(2)] by simp_all
  obtain p where p: "rr_current rq = Some p" "valid_ref (up s) p" using req assms(4) unfolding request_ok_def by blast
  define one where "one = single (group_of (up s) (on_backup rq))"
  define u' where "u' = upd_peer p (release_peer now one failed) (up s)"
  define rq' where "rq' = (if one then rq\<lparr> tries := 0 \<rparr> else if tries rq \<noteq> 0 then rq\<lparr> tries := tries rq - 1 \<rparr> else rq)\<lparr> sockaddr := None \<rparr>"
  have rq': "rr_current rq' = rr_current rq" "on_backup rq' = on_backup rq" "tried rq' = tried rq" "sockaddr rq' = None"
      "one \<Longrightarrow> tries rq' = 0" by (simp_all add: rq'_def)
  have sh: "shape u' = shape (up s)" by (simp add: u'_def)
  have w: "0 \<le> effective_weight (peer_at (up s) p) \<and> effective_weight (peer_at (up s) p) \<le> weight (peer_at (up s) p)"
    using weights_okD[OF _ p(2)] inv(1) by (simp add: rr_ok_def)
  have ok': "rr_ok u'" unfolding u'_def
    by (rule upd_rr_ok[OF inv(1) p(2)]) (use w rr_failed_weight in \<open>auto simp: release_peer_def Let_def\<close>)
  have cn: "cnt n (rr_holds q) ((reqs s)(r \<mapsto> rq')) = (if q = p then cnt n (rr_holds q) (reqs s) - 1 else cnt n (rr_holds q) (reqs s))" for q
  proof (cases "q = p")
    case True
    then show ?thesis using cnt_upd_out[OF assms(3), of "rr_holds q" "Some rq'" "reqs s"] assms(2,4) p(1) rq'(4) by simp
  next
    case False
    then show ?thesis using cnt_upd_same[OF assms(3), of "rr_holds q" "Some rq'" "reqs s"] assms(2) p(1) rq'(4) by simp
  qed
  have pos: "0 < cnt n (rr_holds p) (reqs s)" by (rule cnt_pos[OF assms(3)]) (use assms(2,4) p(1) in simp)
  have "conns (peer_at u' q) = of_nat (cnt n (rr_holds q) ((reqs s)(r \<mapsto> rq')))" if "valid_ref (up s) q" for q
    using conns_okD[OF inv(3) that] pos
    by (auto simp: u'_def peer_at_upd[OF inv(2) p(2)] release_peer_def Let_def cn)
  then have co: "conns_ok n u' ((reqs s)(r \<mapsto> rq'))"
    unfolding conns_ok_def using shape_eqD(3)[OF sh] by blast
  have rok: "request_ok (up s) rq'" using req rq' by (simp add: request_ok_def)
  have "one = single (primary (up s))"
    using seen_single(1)[OF inv(2)] req unfolding one_def request_ok_def by blast
  then have sok: "seen_ok (up s) rq' (seen s r)" using sn p(1) rq' by (simp add: seen_ok_def)
  have "do_free r now failed rq s = s\<lparr> up := u', reqs := (reqs s)(r \<mapsto> rq') \<rparr>"
    unfolding do_free_def free_peer[OF p(1)] u'_def rq'_def one_def by simp
  then show ?thesis
    by (simp only:) (rule rr_invI[OF assms(1) ok' sh, of _ r],
      use co assms(3) request_ok_shape[OF sh rok] seen_ok_shape[OF sh rok sok] in auto)
qed

lemma new_tried:
  assumes "ngx_http_upstream_init_round_robin_peer alloc u = Some rq"
  shows "on_backup rq = False" "rr_current rq = None" "sockaddr rq = None"
    "has_group u b \<Longrightarrow> number (group_of u b) \<le> 64 * length (tried rq)"
    "has_group u b \<Longrightarrow> i < number (group_of u b) \<Longrightarrow> \<not> tried_bit (tried rq) i"
proof -
  define m where "m = (case backup u of None \<Rightarrow> number (primary u) | Some b \<Rightarrow> if number b > number (primary u) then number b else number (primary u))"
  have m: "new_request (alloc 1) m u = Some rq"
    using assms unfolding ngx_http_upstream_init_round_robin_peer_def Let_def m_def by (simp split: if_splits)
  then show "on_backup rq = False" "rr_current rq = None" "sockaddr rq = None"
    by (auto simp: new_request_def Let_def split: if_splits)
  have t: "tried rq = (if m \<le> 64 then [0] else replicate (bitmap_words m) 0)"
    using m by (auto simp: new_request_def Let_def split: if_splits)
  have le: "number (group_of u b) \<le> m" if "has_group u b" for b
    using that by (cases "backup u") (auto simp: m_def group_of_def has_group_def)
  have len: "m \<le> 64 * length (tried rq)" using bitmap_covers[of m] by (simp add: t)
  show "number (group_of u b) \<le> 64 * length (tried rq)" if "has_group u b" using le[OF that] len by simp
  show "\<not> tried_bit (tried rq) i" if "has_group u b" "i < number (group_of u b)"
  proof (rule tried_zero)
    have "i < 64 * length (tried rq)" using that(2) le[OF that(1)] len by simp
    then have l: "i div 64 < length (tried rq)" by (simp add: less_mult_imp_div_less mult.commute)
    then have "tried rq ! (i div 64) \<in> set (tried rq)" by (rule nth_mem)
    then show "tried rq ! (i div 64) = 0" by (auto simp: t split: if_splits)
  qed
qed

lemma start_inv:
  assumes "rr_inv n s" "reqs s r = None" "r < n" "ngx_http_upstream_init_round_robin_peer alloc (up s) = Some rq"
  shows "rr_inv n (s\<lparr> reqs := (reqs s)(r \<mapsto> limit_tries lim rq), seen := (seen s)(r := []) \<rparr>)"
proof -
  note inv = rr_invD[OF assms(1)] and t = new_tried[OF assms(4)]
  define rq' where "rq' = limit_tries lim rq"
  have rq': "on_backup rq' = False" "rr_current rq' = None" "sockaddr rq' = None" "tried rq' = tried rq"
    using t by (simp_all add: rq'_def limit_tries_def)
  have hg: "has_group (up s) False" by (simp add: has_group_def)
  have rok: "request_ok (up s) rq'" using t(4) hg by (simp add: request_ok_def rq')
  have sok: "seen_ok (up s) rq' []" using t(5)[OF hg] by (simp add: seen_ok_def rq')
  have "conns_ok n (up s) ((reqs s)(r \<mapsto> rq'))"
    by (rule conns_ok_same[OF inv(3) same_peers_refl], rule cnt_idle[OF assms(3)]) (use assms(2) rq' in auto)
  then show ?thesis
    by (intro rr_invI[OF assms(1) inv(1) refl, of _ r]) (use assms(3) rok sok in \<open>auto simp flip: rq'_def\<close>)
qed

lemma finish_inv:
  assumes "rr_inv n s" "reqs s r = Some rq" "sockaddr rq = None"
  shows "rr_inv n (s\<lparr> reqs := (reqs s)(r := None) \<rparr>)"
proof -
  note inv = rr_invD[OF assms(1)]
  have r: "r < n" using inv(4)[OF assms(2)] by simp
  have "conns_ok n (up s) ((reqs s)(r := None))"
    by (rule conns_ok_same[OF inv(3) same_peers_refl], rule cnt_idle[OF r]) (use assms(2,3) in auto)
  then show ?thesis by (intro rr_invI[OF assms(1) inv(1) refl, of _ r]) auto
qed

text \<open>Every event keeps the invariant and the shape.\<close>

context balancer
begin

lemma rr_do_inv: "rr_inv n s \<Longrightarrow> rr_inv n (rr_do get n e s)"
  by (cases e) (auto simp: do_get_inv do_free_inv start_inv finish_inv split: option.split)

lemma shape_do:
  assumes "rr_inv n s"
  shows "shape (up (rr_do get n e s)) = shape (up s)"
proof -
  have "shape (up (do_free r now failed rq s)) = shape (up s)" for r now failed rq
    by (simp add: do_free_def ngx_http_upstream_free_round_robin_peer_def Let_def split: prod.split)
  then show ?thesis by (cases e) (auto simp: do_get_inv[OF assms] split: option.split)
qed

end

subsection \<open>The start\<close>

definition servers_ok :: "upstream_server list option \<Rightarrow> nat list option \<Rightarrow> bool" where
  "servers_ok servers resolved \<longleftrightarrow>
     (case servers of Some ss \<Rightarrow> \<forall>s\<in>set ss. 0 < sint (srv_weight s) | None \<Rightarrow> resolved \<noteq> Some [])"

definition fresh_peer :: "rr_peer \<Rightarrow> bool" where
  "fresh_peer p \<longleftrightarrow> current_weight p = 0 \<and> effective_weight p = weight p \<and> 0 < weight p \<and> conns p = 0 \<and> fails p = 0"

definition fresh :: "rr_upstream \<Rightarrow> bool" where
  "fresh u \<longleftrightarrow> groups_ok u \<and> (\<forall>b. has_group u b \<longrightarrow> (\<forall>p\<in>set (peers (group_of u b)). fresh_peer p))"

lemma length_server_peers: "length (concat (map server_peers ss)) = servers_number ss"
  by (induction ss) (simp_all add: servers_number_def server_peers_def)

lemma fresh_server_peers:
  assumes "\<forall>s\<in>set ss. 0 < sint (srv_weight s)" "p \<in> set (concat (map server_peers ss))"
  shows "fresh_peer p"
  using assms by (auto simp: server_peers_def fresh_peer_def)

lemma fresh_init:
  assumes "ngx_http_upstream_init_round_robin alloc servers port resolved = Some u" "servers_ok servers resolved"
  shows "fresh u"
proof (cases servers)
  case (Some ss)
  have w: "\<forall>s\<in>set (filter P ss). 0 < sint (srv_weight s)" for P using assms(2) Some by (simp add: servers_ok_def)
  have u: "init_servers alloc ss = Some u" using assms(1) Some by (simp add: ngx_http_upstream_init_round_robin_def)
  define mine spare where "mine = filter (\<lambda>s. \<not> srv_backup s) ss" and "spare = filter srv_backup ss"
  have "0 < servers_number mine \<and> (u = \<lparr> primary = server_group (servers_number mine = 1) mine, backup = None \<rparr>
      \<or> 0 < servers_number spare \<and> u = \<lparr> primary = server_group False mine, backup = Some (server_group False spare) \<rparr>)"
    using u by (auto simp: init_servers_def Let_def mine_def spare_def split: if_splits)
  moreover have "\<forall>p\<in>set (concat (map server_peers mine)). fresh_peer p" "\<forall>p\<in>set (concat (map server_peers spare)). fresh_peer p"
    using fresh_server_peers[OF w] by (auto simp: mine_def spare_def)
  ultimately show ?thesis
    by (auto simp: fresh_def groups_ok_def has_group_def group_of_def server_group_def length_server_peers simp del: length_concat)
next
  case None
  then obtain addrs where "resolved = Some addrs" "u = \<lparr> primary =
      \<lparr> number = length addrs, total_weight = of_nat (length addrs), single = (length addrs = 1),
        weighted = False, peers = map resolved_peer addrs \<rparr>, backup = None \<rparr>" "addrs \<noteq> []"
    using assms by (auto simp: ngx_http_upstream_init_round_robin_def servers_ok_def split: if_splits option.splits)
  then show ?thesis
    by (auto simp: fresh_def groups_ok_def has_group_def group_of_def resolved_peer_def fresh_peer_def)
qed

lemma fresh_at: "\<lbrakk> fresh u; valid_ref u p \<rbrakk> \<Longrightarrow> fresh_peer (peer_at u p)"
  using valid_ref_less[of u "fst p" "snd p"] by (auto simp: fresh_def peer_at_def)

lemma fresh_inv: 
  assumes "fresh u"
  shows "rr_inv n (rr_start u)"
proof -
  have "weight_sum u b = 0" if "has_group u b" for b
  proof -
    have "map current_weight (peers (group_of u b)) = map (\<lambda>p. 0) (peers (group_of u b))"
      by (rule map_cong) (use assms that in \<open>auto simp: fresh_def fresh_peer_def\<close>)
    then show ?thesis unfolding weight_sum_def by (simp only: sum_list_0)
  qed
  moreover have "weights_ok u"
    using fresh_at[OF assms] by (auto simp: weights_ok_def fresh_peer_def less_imp_le)
  ultimately have "rr_ok u" using assms by (simp add: rr_ok_def fresh_def)
  moreover have "conns_ok n u (\<lambda>r. None)"
    using fresh_at[OF assms] by (auto simp: conns_ok_def cnt_none fresh_peer_def)
  ultimately show ?thesis by (simp add: rr_inv_def rr_start_def)
qed

definition rr_run_inv :: "nat \<Rightarrow> rr_upstream \<Rightarrow> rr_sys \<Rightarrow> bool" where
  "rr_run_inv n u s \<longleftrightarrow> rr_inv n s \<and> shape (up s) = shape u"

text \<open>A fresh upstream and the events of its requests are a machine with this invariant.\<close>

context balancer
begin

lemma rr_machine: "fresh u \<Longrightarrow> machine (rr_start u) (rr_step get n) (rr_run_inv n u)"
  by unfold_locales (auto simp: rr_run_inv_def rr_step_def fresh_inv rr_do_inv shape_do, simp add: rr_start_def)

lemma rr_reach_inv: "\<lbrakk> fresh u; reach (rr_start u) (rr_step get n) s \<rbrakk> \<Longrightarrow> rr_run_inv n u s"
  by (rule machine.reach_inv[OF rr_machine])

lemma run_inv_do: "rr_run_inv n u s \<Longrightarrow> rr_run_inv n u (rr_do get n e s)"
  by (simp only: rr_run_inv_def rr_do_inv shape_do)

end

subsection \<open>Least connections keeps the contract\<close>

text \<open>What an update of a group keeps.\<close>

lemma update_group:
  assumes "groups_ok u" "has_group u b"
  defines "ps \<equiv> peers (group_of u b)"
  assumes len: "length ps' = length ps"
    and upd: "\<And>k. k < length ps \<Longrightarrow> fixed (ps' ! k) = fixed (ps ! k) \<and> conns (ps' ! k) = conns (ps ! k)"
    and wgt: "\<And>k. \<lbrakk> k < length ps; 0 \<le> effective_weight (ps ! k); effective_weight (ps ! k) \<le> weight (ps ! k) \<rbrakk>
          \<Longrightarrow> 0 \<le> effective_weight (ps' ! k) \<and> effective_weight (ps' ! k) \<le> weight (ps' ! k)"
    and sum: "sum_list (map current_weight ps') = sum_list (map current_weight ps)"
  shows "groups_ok (set_group b ps' u)" "same_peers u (set_group b ps' u)" "same_conns u (set_group b ps' u)"
    "weights_ok u \<Longrightarrow> weights_ok (set_group b ps' u)" "has_group u c \<Longrightarrow> weight_sum (set_group b ps' u) c = weight_sum u c"
proof -
  show "groups_ok (set_group b ps' u)" by (rule groups_ok_set_group[OF assms(1,2)]) (use len in \<open>simp add: ps_def\<close>)
  have at: "peer_at (set_group b ps' u) r = (if fst r = b then ps' ! snd r else peer_at u r)" for r
    by (rule peer_at_set_group[OF assms(2)])
  have old: "peer_at u r = ps ! snd r \<and> snd r < length ps" if "valid_ref u r" "fst r = b" for r
    using valid_ref_less[OF assms(1), of "fst r" "snd r"] that by (cases r) (auto simp: peer_at_def ps_def)
  show "same_peers u (set_group b ps' u)" "same_conns u (set_group b ps' u)"
    unfolding same_peers_def same_conns_def using upd old by (auto simp: at)
  show "weights_ok (set_group b ps' u)" if w: "weights_ok u"
    unfolding weights_ok_def
  proof (intro allI impI)
    fix r assume "valid_ref (set_group b ps' u) r"
    then have r: "valid_ref u r" by simp
    show "0 \<le> effective_weight (peer_at (set_group b ps' u) r)
        \<and> effective_weight (peer_at (set_group b ps' u) r) \<le> weight (peer_at (set_group b ps' u) r)"
      using weights_okD[OF w r] old[OF r] wgt[of "snd r"] by (cases "fst r = b") (simp_all add: at)
  qed
  show "weight_sum (set_group b ps' u) c = weight_sum u c" if "has_group u c"
    using sum by (simp add: weight_sum_def group_of_set_group[OF assms(2)] ps_def)
qed

lemma lc_best_cases:
  "lc_best now t i ps best many = (res, many') \<Longrightarrow>
     res = best \<and> (best = None \<longrightarrow> (\<forall>k<length ps. rr_skip now t (i + k) (ps ! k)))
     \<or> (\<exists>k<length ps. res = Some (i + k, ps ! k) \<and> \<not> rr_skip now t (i + k) (ps ! k))"
proof (induction ps arbitrary: i best many)
  case (Cons p ps)
  have sub: "(\<exists>k<length ps. res = Some (Suc i + k, ps ! k) \<and> \<not> rr_skip now t (Suc i + k) (ps ! k))
      \<Longrightarrow> (\<exists>k<length (p # ps). res = Some (i + k, (p # ps) ! k) \<and> \<not> rr_skip now t (i + k) ((p # ps) ! k))"
    by (metis Suc_less_eq add_Suc_shift length_Cons nth_Cons_Suc)
  have all: "(\<forall>k<length ps. rr_skip now t (Suc i + k) (ps ! k)) \<Longrightarrow> rr_skip now t i p \<Longrightarrow>
      \<forall>k<length (p # ps). rr_skip now t (i + k) ((p # ps) ! k)"
    by (simp add: all_less_Suc_nth)
  have here: "res = Some (i, p) \<Longrightarrow> \<not> rr_skip now t i p \<Longrightarrow>
      \<exists>k<length (p # ps). res = Some (i + k, (p # ps) ! k) \<and> \<not> rr_skip now t (i + k) ((p # ps) ! k)"
    by (intro exI[of _ 0]) simp
  show ?case
  proof (cases "rr_skip now t i p")
    case True
    then show ?thesis using Cons.IH[of "Suc i" best many] Cons.prems sub all by auto
  next
    case False
    obtain best' m where r: "lc_best now t (Suc i) ps best' m = (res, many')" "best' = Some (i, p) \<or> best' = best \<and> best \<noteq> None"
      using Cons.prems False by (cases best) (auto split: if_splits)
    then show ?thesis using Cons.IH[OF r(1)] sub here[OF _ False] by auto
  qed
qed simp

lemma lc_many_cases:
  "lc_many now t i ps (j, b) tot = (ps', (j', b'), tot') \<Longrightarrow>
     length ps' = length ps \<and> (\<forall>k<length ps. ps' ! k = ps ! k \<or> ps' ! k = rr_raise (ps ! k))
     \<and> sum_list (map current_weight ps') = sum_list (map current_weight ps) + (tot' - tot)
     \<and> (j' = j \<or> (\<exists>k<length ps. j' = i + k \<and> \<not> rr_skip now t (i + k) (ps ! k)))"
proof (induction ps arbitrary: i j b tot ps')
  case (Cons p ps)
  have sub: "(\<exists>k<length ps. j' = Suc i + k \<and> \<not> rr_skip now t (Suc i + k) (ps ! k))
      \<Longrightarrow> (\<exists>k<length (p # ps). j' = i + k \<and> \<not> rr_skip now t (i + k) ((p # ps) ! k))"
    by (metis Suc_less_eq add_Suc_shift length_Cons nth_Cons_Suc)
  show ?case
  proof (cases "rr_skip now t i p \<or> load_times p b \<noteq> load_times b p")
    case True
    obtain qs where r: "lc_many now t (Suc i) ps (j, b) tot = (qs, (j', b'), tot')" "ps' = p # qs"
      using Cons.prems True by (auto split: prod.splits)
    show ?thesis using Cons.IH[OF r(1)] sub by (auto simp: r(2) all_less_Suc_nth)
  next
    case False
    obtain jb bb qs where r: "lc_many now t (Suc i) ps (jb, bb) (tot + effective_weight p) = (qs, (j', b'), tot')"
        "ps' = rr_raise p # qs" "jb = i \<or> jb = j"
      using Cons.prems False by (auto simp: Let_def split: prod.splits if_splits)
    have "j' = i \<Longrightarrow> \<exists>k<length (p # ps). j' = i + k \<and> \<not> rr_skip now t (i + k) ((p # ps) ! k)"
      using False by (intro exI[of _ 0]) simp
    then show ?thesis using Cons.IH[OF r(1)] r(2,3) sub
      by (auto simp: all_less_Suc_nth)
  qed
qed simp

lemma lc_choose_cases:
  fixes now u rq
  defines "ps \<equiv> peers (group_of u (on_backup rq))"
  assumes "lc_choose now u rq = Some a"
  obtains p many qs j b' tot where
    "lc_best now (tried rq) 0 ps None False = (Some (p, ps ! p), many)" "p < length ps" "\<not> rr_skip now (tried rq) p (ps ! p)"
    "(if many then lc_many now (tried rq) p (drop p ps) (p, ps ! p) 0 else (drop p ps, (p, ps ! p), 0)) = (qs, (j, b'), tot)"
    "j < length ps" "\<not> rr_skip now (tried rq) j (ps ! j)"
    "a = (set_group (on_backup rq) ((take p ps @ qs)[j := picked now tot ((take p ps @ qs) ! j)]) u,
          rq\<lparr> rr_current := Some (on_backup rq, j), tried := set_tried (tried rq) j \<rparr>, j)"
proof -
  obtain p q many where b: "lc_best now (tried rq) 0 ps None False = (Some (p, q), many)"
    using assms(2) by (auto simp: lc_choose_def ps_def Let_def split: prod.splits option.splits)
  then have p: "p < length ps" "q = ps ! p" "\<not> rr_skip now (tried rq) p (ps ! p)"
    using lc_best_cases[OF b] by auto
  obtain qs j b' tot where m: "(if many then lc_many now (tried rq) p (drop p ps) (p, ps ! p) 0 else (drop p ps, (p, ps ! p), 0)) = (qs, (j, b'), tot)"
    by (metis prod_cases3 surj_pair)
  have j: "j < length ps" "\<not> rr_skip now (tried rq) j (ps ! j)"
    using m p lc_many_cases[of now "tried rq" p "drop p ps" p q 0 qs j b' tot] by (auto split: if_splits)
  have "a = (set_group (on_backup rq) ((take p ps @ qs)[j := picked now tot ((take p ps @ qs) ! j)]) u,
          rq\<lparr> rr_current := Some (on_backup rq, j), tried := set_tried (tried rq) j \<rparr>, j)"
    using assms(2) unfolding lc_choose_def ps_def[symmetric] Let_def b option.case prod.case p(2) m fst_conv
    by (simp add: picked_def Let_def)
  from that[OF b[unfolded p(2)] p(1,3) m j this] show ?thesis .
qed

lemma lc_chosen:
  assumes "groups_ok u" "has_group u (on_backup rq)" "\<not> single (group_of u (on_backup rq))"
    and "lc_choose now u rq = Some a"
  shows "chosen u rq a"
proof -
  define ps where "ps = peers (group_of u (on_backup rq))"
  obtain p many qs j b' tot where p: "p < length ps"
    and m: "(if many then lc_many now (tried rq) p (drop p ps) (p, ps ! p) 0 else (drop p ps, (p, ps ! p), 0)) = (qs, (j, b'), tot)"
    and j: "j < length ps" "\<not> rr_skip now (tried rq) j (ps ! j)"
    and a: "a = (set_group (on_backup rq) ((take p ps @ qs)[j := picked now tot ((take p ps @ qs) ! j)]) u,
          rq\<lparr> rr_current := Some (on_backup rq, j), tried := set_tried (tried rq) j \<rparr>, j)"
    using lc_choose_cases[OF assms(4)] unfolding ps_def by metis
  have qs: "length qs = length ps - p" "\<And>k. k < length ps - p \<Longrightarrow> qs ! k = ps ! (p + k) \<or> qs ! k = rr_raise (ps ! (p + k))"
      "sum_list (map current_weight qs) = sum_list (map current_weight (drop p ps)) + tot"
    using m p lc_many_cases[of now "tried rq" p "drop p ps" p "ps ! p" 0 qs j b' tot] by (auto split: if_splits)
  define ps1 where "ps1 = take p ps @ qs"
  have len1: "length ps1 = length ps" using p qs(1) by (simp add: ps1_def)
  have at1: "ps1 ! k = ps ! k \<or> ps1 ! k = rr_raise (ps ! k)" if "k < length ps" for k
    using that p qs(2)[of "k - p"] by (auto simp: ps1_def nth_append not_less)
  have sum1: "sum_list (map current_weight ps1) = sum_list (map current_weight ps) + tot"
  proof -
    have "sum_list (map current_weight ps) = sum_list (map current_weight (take p ps @ drop p ps))" by simp
    then show ?thesis using qs(3) by (simp only: ps1_def map_append sum_list_append)
  qed
  define ps2 where "ps2 = ps1[j := picked now tot (ps1 ! j)]"
  have a: "a = (set_group (on_backup rq) ps2 u, rq\<lparr> rr_current := Some (on_backup rq, j), tried := set_tried (tried rq) j \<rparr>, j)"
    unfolding ps2_def ps1_def by (rule a)
  have at2: "ps2 ! k = (if k = j then picked now tot (ps1 ! k) else ps1 ! k)" if "k < length ps" for k
    using that len1 by (simp add: ps2_def nth_list_update)
  have sum2: "sum_list (map current_weight ps2) = sum_list (map current_weight ps)"
    unfolding ps2_def map_update using j(1) len1 sum1 by (simp add: sum_list_update_int)
  note g = update_group[OF assms(1,2), folded ps_def, of ps2]
  have fx: "fixed (rr_raise x) = fixed x" "fixed (picked now tot x) = fixed x" for x by (simp_all add: fixed_def)
  have upd: "fixed (ps2 ! k) = fixed (ps ! k) \<and> conns (ps2 ! k) = conns (ps ! k)" if "k < length ps" for k
    using at1[OF that] by (auto simp: at2[OF that] fx)
  have wgt: "0 \<le> effective_weight (ps2 ! k) \<and> effective_weight (ps2 ! k) \<le> weight (ps2 ! k)"
    if "k < length ps" "0 \<le> effective_weight (ps ! k)" "effective_weight (ps ! k) \<le> weight (ps ! k)" for k
    using at1[OF that(1)] rr_raise_weight[OF that(2,3)] that(2,3) by (auto simp: at2[OF that(1)])
  have len2: "length ps2 = length ps" by (simp add: ps2_def len1)
  have "valid_ref u (on_backup rq, j)" by (rule valid_refI[OF assms(1,2)]) (use j(1) in \<open>simp add: ps_def\<close>)
  moreover have "\<not> tried_bit (tried rq) j" using j(2) by (simp add: rr_skip_def)
  ultimately show ?thesis
    unfolding chosen_def a using g(1-4)[OF len2 upd wgt sum2] g(5)[OF len2 upd wgt sum2] assms(3) by simp
qed

definition lc_pick :: "int \<Rightarrow> rr_upstream \<Rightarrow> rr_request \<Rightarrow> (rr_upstream \<times> rr_request \<times> nat) option" where
  "lc_pick now u rq = (if single (group_of u (on_backup rq)) then rr_choose now u rq else lc_choose now u rq)"

interpretation lc_choice: peer_choice lc_pick
proof
  fix u rq now a
  assume "groups_ok u" "has_group u (on_backup rq)" "lc_pick now u rq = Some a"
  then show "chosen u rq a"
    using rr_choice.choose_ok[of u rq now a] lc_chosen[of u rq now a] by (simp add: lc_pick_def split: if_splits)
qed

text \<open>A single peer has no backup servers behind it, so the call of round robin for it is the same frame.\<close>

lemma least_conn_get:
  "groups_ok u \<Longrightarrow> has_group u (on_backup rq) \<Longrightarrow>
   ngx_http_upstream_get_least_conn_peer now u rq = rr_get lc_pick now u rq"
proof (induction now u rq rule: ngx_http_upstream_get_least_conn_peer.induct)
  case (1 now u rq)
  show ?case
  proof (cases "single (group_of u (on_backup rq))")
    case True
    then have "backup u = None" "lc_pick now u rq = rr_choose now u rq"
      using groups_okD(3)[OF "1.prems"] by (simp_all add: lc_pick_def)
    then show ?thesis using True
      by (subst rr_get.simps, subst ngx_http_upstream_get_least_conn_peer.simps, subst ngx_http_upstream_get_round_robin_peer.simps)
        (auto simp: Let_def split: option.split)
  next
    case nonsingle: False
    then have pk: "lc_pick now u rq = lc_choose now u rq" by (simp add: lc_pick_def)
    show ?thesis
    proof (cases "lc_choose now u rq = None \<and> \<not> on_backup rq \<and> backup u \<noteq> None")
      case True
      define rq' where "rq' = rq\<lparr> on_backup := True, tried := clear_tried (bitmap_words (number (the (backup u)))) (tried rq) \<rparr>"
      have "has_group u (on_backup rq')" using True by (simp add: has_group_def)
      then have "ngx_http_upstream_get_least_conn_peer now u rq' = rr_get lc_pick now u rq'"
        using "1.IH" nonsingle True "1.prems"(1) unfolding rq'_def by blast
      then show ?thesis using True nonsingle pk
        by (subst rr_get.simps, subst ngx_http_upstream_get_least_conn_peer.simps) (simp add: Let_def rq'_def)
    next
      case False
      then show ?thesis using nonsingle pk
        by (subst rr_get.simps, subst ngx_http_upstream_get_least_conn_peer.simps) (auto simp: Let_def split: option.split)
    qed
  qed
qed

interpretation least_conn: balancer ngx_http_upstream_get_least_conn_peer
proof
  fix u rq ps now
  assume "rr_ok u" "request_ok u rq" "seen_ok u rq ps" "may_get rq"
  then show "got u ps (ngx_http_upstream_get_least_conn_peer now u rq)"
    using lc_choice.get_got[of u rq ps now] least_conn_get[of u rq now] by (simp add: rr_ok_def request_ok_def)
qed

end
