(* ===== verification/Ngx_Upstream_Balance.thy ===== *)
theory Ngx_Upstream_Balance
  imports Ngx_Upstream_Requests
begin

text \<open>
  What the balancing modules promise: well-formed states, exact counters, no peer twice for a request,
  and the peer that a call of round robin and of least_conn chooses.
\<close>

lemma balancing_get:
  "get \<in> {ngx_http_upstream_get_round_robin_peer, ngx_http_upstream_get_least_conn_peer} \<Longrightarrow> balancer get"
  using round_robin.balancer_axioms least_conn.balancer_axioms by auto

subsection \<open>What balancing promises\<close>

text \<open>
  Property C28 (type).  With round robin and with least_conn, the state of the balancer stays well-formed in
  every run, whatever requests do and in whatever order: the groups keep their sizes, the effective weight of a peer lies between zero and its
  configured weight, the peer a request points at exists, its group exists, and its bitmap has a bit for
  every peer of every group it may still walk.
\<close>

theorem round_robin_well_formed:
  assumes "ngx_http_upstream_init_round_robin alloc servers port resolved = Some u" "servers_ok servers resolved"
    and "get \<in> {ngx_http_upstream_get_round_robin_peer, ngx_http_upstream_get_least_conn_peer}"
    and "reach (rr_start u) (rr_step get n) s"
  shows "shape (up s) = shape u \<and> groups_ok (up s) \<and> weights_ok (up s)
    \<and> (\<forall>r rq. reqs s r = Some rq \<longrightarrow> request_ok (up s) rq)"
  using balancer.rr_reach_inv[OF balancing_get[OF assms(3)] fresh_init[OF assms(1,2)] assms(4)] by (simp add: rr_run_inv_def rr_inv_def rr_ok_def)

text \<open>
  Property C4 (invariant).  In every state that a run reaches, the counter \<open>conns\<close> of every peer is the
  number of requests that hold it, and the current weights of each group add up to zero: nothing is lost
  or gained by failures, retries, recovered weights, the switch to the backup servers, or the order in
  which requests end.
\<close>

theorem round_robin_counts:
  assumes "ngx_http_upstream_init_round_robin alloc servers port resolved = Some u" "servers_ok servers resolved"
    and "get \<in> {ngx_http_upstream_get_round_robin_peer, ngx_http_upstream_get_least_conn_peer}"
    and "reach (rr_start u) (rr_step get n) s"
  shows "(\<forall>p. valid_ref (up s) p \<longrightarrow> conns (peer_at (up s) p) = of_nat (card {r. r < n \<and> rr_holds p (reqs s r)}))
    \<and> (\<forall>b. has_group (up s) b \<longrightarrow> weight_sum (up s) b = 0)"
  using balancer.rr_reach_inv[OF balancing_get[OF assms(3)] fresh_init[OF assms(1,2)] assms(4)]
  unfolding rr_run_inv_def rr_inv_def conns_ok_def rr_ok_def cnt_def by blast

lemma card_valid_refs:
  "card {p. valid_ref u p} = number (primary u) + (case backup u of None \<Rightarrow> 0 | Some g \<Rightarrow> number g)
   \<and> finite {p. valid_ref u p}"
proof (cases "backup u")
  case None
  then have "{p. valid_ref u p} = Pair False ` {..<number (primary u)}"
    by (auto simp: valid_ref_def has_group_def group_of_def image_iff)
  then show ?thesis using None by (simp add: card_image inj_on_def)
next
  case (Some g)
  then have "{p. valid_ref u p} = Pair False ` {..<number (primary u)} \<union> Pair True ` {..<number g}"
    by (auto simp: valid_ref_def has_group_def group_of_def image_iff)
  moreover have "card (Pair False ` {..<number (primary u)} \<union> Pair True ` {..<number g}) = number (primary u) + number g"
    by (subst card_Un_disjoint) (auto simp: card_image inj_on_def)
  ultimately show ?thesis using Some by simp
qed

text \<open>
  Property C5 (safety).  No request is sent to the same peer twice, whatever the other requests do to the
  weights in between, also across the switch to the backup servers; so a request that fails everywhere
  ends after as many attempts as there are peers.
\<close>

theorem round_robin_no_repeat:
  assumes "ngx_http_upstream_init_round_robin alloc servers port resolved = Some u" "servers_ok servers resolved"
    and "get \<in> {ngx_http_upstream_get_round_robin_peer, ngx_http_upstream_get_least_conn_peer}"
    and "reach (rr_start u) (rr_step get n) s" "reqs s r = Some rq"
  shows "distinct (seen s r)
    \<and> length (seen s r) \<le> number (primary u) + (case backup u of None \<Rightarrow> 0 | Some g \<Rightarrow> number g)"
proof -
  have inv: "rr_inv n s" "shape (up s) = shape u"
    using balancer.rr_reach_inv[OF balancing_get[OF assms(3)] fresh_init[OF assms(1,2)] assms(4)] by (simp_all add: rr_run_inv_def)
  have sn: "distinct (seen s r)" "set (seen s r) \<subseteq> {p. valid_ref u p}"
    using rr_invD(4)[OF inv(1) assms(5)] shape_eqD(3)[OF inv(2)] by (auto simp: seen_ok_def)
  then have "card (set (seen s r)) \<le> card {p. valid_ref u p}" using card_valid_refs by (intro card_mono) simp_all
  then show ?thesis using sn(1) card_valid_refs by (simp add: distinct_card)
qed

subsection \<open>The least loaded peer\<close>

text \<open>Loads that the unsigned products can express: positive weights and no product beyond 64 bits.\<close>

definition loads_fit :: "rr_peer list \<Rightarrow> bool" where
  "loads_fit ps \<longleftrightarrow> (\<forall>p\<in>set ps. 0 < weight p \<and> (\<forall>q\<in>set ps. int (unat (conns p)) * weight q < 2 ^ 64))"

definition load_le :: "rr_peer \<Rightarrow> rr_peer \<Rightarrow> bool" where
  "load_le p q \<longleftrightarrow> int (unat (conns p)) * weight q \<le> int (unat (conns q)) * weight p"

definition same_load :: "rr_peer \<Rightarrow> rr_peer \<Rightarrow> bool" where
  "same_load p q \<longleftrightarrow> conns p = conns q \<and> weight p = weight q"

lemma load_times_int:
  assumes "0 < weight b" "int (unat (conns p)) * weight b < 2 ^ 64"
  shows "uint (load_times p b) = int (unat (conns p)) * weight b"
proof -
  have "uint (load_times p b) = (uint (conns p) * (weight b mod 2 ^ 64)) mod 2 ^ 64"
    by (simp add: load_times_def uint_word_ariths uint_word_of_int)
  also have "\<dots> = (uint (conns p) * weight b) mod 2 ^ 64" by (simp add: mod_mult_right_eq)
  also have "\<dots> = uint (conns p) * weight b" using assms by (simp add: mod_pos_pos_trivial)
  finally show ?thesis by simp
qed

lemma load_compare:
  assumes "loads_fit ps" "p \<in> set ps" "q \<in> set ps"
  shows "load_times p q < load_times q p \<longleftrightarrow> \<not> load_le q p"
    "load_times p q = load_times q p \<longleftrightarrow> load_le p q \<and> load_le q p"
proof -
  have "uint (load_times p q) = int (unat (conns p)) * weight q" "uint (load_times q p) = int (unat (conns q)) * weight p"
    using assms by (intro load_times_int; simp add: loads_fit_def)+
  then show "load_times p q < load_times q p \<longleftrightarrow> \<not> load_le q p"
    "load_times p q = load_times q p \<longleftrightarrow> load_le p q \<and> load_le q p"
    unfolding word_less_def word_uint_eq_iff load_le_def by auto
qed

lemma load_le_refl [simp]: "load_le p p"
  by (simp add: load_le_def)

lemma load_le_trans:
  assumes "0 < weight p" "0 < weight q" "0 < weight r" "load_le p q" "load_le q r"
  shows "load_le p r"
proof -
  define a b c where "a = int (unat (conns p))" and "b = int (unat (conns q))" and "c = int (unat (conns r))"
  have "(a * weight q) * weight r \<le> (b * weight p) * weight r"
    using assms(3,4) by (intro mult_right_mono) (simp_all add: load_le_def a_def b_def)
  moreover have "(b * weight r) * weight p \<le> (c * weight q) * weight p"
    using assms(1,5) by (intro mult_right_mono) (simp_all add: load_le_def b_def c_def)
  ultimately have "weight q * (a * weight r) \<le> weight q * (c * weight p)" by (simp add: algebra_simps)
  then show ?thesis using assms(2) by (simp add: load_le_def a_def c_def)
qed

text \<open>The first loop finds a peer with the least load.\<close>

lemma lc_best_least:
  assumes "loads_fit qs" "lc_best now t i ps best many = (res, many')" "set ps \<subseteq> set qs"
    "\<And>j b. best = Some (j, b) \<Longrightarrow> b \<in> set qs" "res = Some (k, q)"
  shows "q \<in> set qs \<and> (\<forall>m<length ps. \<not> rr_skip now t (i + m) (ps ! m) \<longrightarrow> load_le q (ps ! m))
    \<and> (\<forall>j b. best = Some (j, b) \<longrightarrow> load_le q b)"
  using assms(2-5)
proof (induction ps arbitrary: i best many)
  case Nil
  then show ?case by auto
next
  case (Cons p ps)
  have pos: "0 < weight x" if "x \<in> set qs" for x using assms(1) that by (simp add: loads_fit_def)
  have p: "p \<in> set qs" "set ps \<subseteq> set qs" using Cons.prems(2) by simp_all
  show ?case
  proof (cases "rr_skip now t i p")
    case True
    then show ?thesis using Cons.IH[of "Suc i" best many] Cons.prems p by (simp add: all_less_Suc_nth)
  next
    case False
    show ?thesis
    proof (cases best)
      case None
      then show ?thesis using Cons.IH[of "Suc i" "Some (i, p)" False] Cons.prems False p by (simp add: all_less_Suc_nth)
    next
      case (Some jb)
      then obtain j b where best: "best = Some (j, b)" by (cases jb) simp
      have b: "b \<in> set qs" using Cons.prems(3) best by blast
      note cmp = load_compare[OF assms(1) p(1) b]
      show ?thesis
      proof (cases "load_times p b < load_times b p")
        case True
        then have le: "load_le p b" using cmp by (auto simp: load_le_def)
        have ih: "q \<in> set qs \<and> (\<forall>m<length ps. \<not> rr_skip now t (Suc i + m) (ps ! m) \<longrightarrow> load_le q (ps ! m)) \<and> load_le q p"
          using Cons.IH[of "Suc i" "Some (i, p)" False] Cons.prems False True p best by simp
        moreover have "load_le q b" using load_le_trans[of q p b] ih le pos p b by blast
        ultimately show ?thesis by (simp add: all_less_Suc_nth best)
      next
        case nless: False
        then have le: "load_le b p" using cmp(1) by simp
        have ih: "q \<in> set qs \<and> (\<forall>m<length ps. \<not> rr_skip now t (Suc i + m) (ps ! m) \<longrightarrow> load_le q (ps ! m)) \<and> load_le q b"
          using Cons.IH[of "Suc i" best "if load_times p b = load_times b p then True else many"] Cons.prems False nless p best b by simp
        moreover have "load_le q p" using load_le_trans[of q b p] ih le pos p b by blast
        ultimately show ?thesis by (simp add: all_less_Suc_nth best)
      qed
    qed
  qed
qed

text \<open>The second loop stays among the peers with the load of the first one.\<close>

lemma lc_many_load:
  assumes "loads_fit qs" "lc_many now t i ps (j, b) tot = (ps', (j', b'), tot')" "set ps \<subseteq> set qs"
    "j' \<noteq> j" "c \<in> set qs" "load_le b c" "load_le c b" "\<exists>d\<in>set qs. same_load b d"
  shows "\<exists>k<length ps. j' = i + k \<and> load_le (ps ! k) c"
  using assms(2-8)
proof (induction ps arbitrary: i j b tot ps')
  case (Cons p ps)
  have pos: "0 < weight x" if "x \<in> set qs" for x using assms(1) that by (simp add: loads_fit_def)
  have p: "p \<in> set qs" "set ps \<subseteq> set qs" using Cons.prems(2) by simp_all
  obtain d where d: "d \<in> set qs" "same_load b d" using Cons.prems(7) by blast
  have bd: "load_times p b = load_times p d" "load_times b p = load_times d p" "load_le x b = load_le x d" "load_le b x = load_le d x" for x
    using d(2) by (simp_all add: same_load_def load_times_def load_le_def)
  have sub: "(\<exists>k<length ps. j' = Suc i + k \<and> load_le (ps ! k) c) \<Longrightarrow> (\<exists>k<length (p # ps). j' = i + k \<and> load_le ((p # ps) ! k) c)"
    by (metis Suc_less_eq add_Suc_shift length_Cons nth_Cons_Suc)
  show ?case
  proof (cases "rr_skip now t i p \<or> load_times p b \<noteq> load_times b p")
    case True
    obtain zs where "lc_many now t (Suc i) ps (j, b) tot = (zs, (j', b'), tot')"
      using Cons.prems(1) True by (auto split: prod.splits)
    from Cons.IH[OF this p(2) Cons.prems(3-7)] show ?thesis by (rule sub)
  next
    case False
    have pd: "load_le p d \<and> load_le d p" using False load_compare(2)[OF assms(1) p(1) d(1)] by (simp add: bd)
    have pc: "load_le p c" "load_le c p"
      using load_le_trans[of p d c] load_le_trans[of c d p] pd Cons.prems(5,6) pos[OF p(1)] pos[OF d(1)] pos[OF Cons.prems(4)]
      by (simp_all add: bd)
    have same: "same_load (rr_raise p) p" "load_le (rr_raise p) c = load_le p c" "load_le c (rr_raise p) = load_le c p"
      by (simp_all add: same_load_def load_le_def)
    obtain jb bb zs where r: "lc_many now t (Suc i) ps (jb, bb) (tot + effective_weight p) = (zs, (j', b'), tot')"
        "jb = i \<and> bb = rr_raise p \<or> jb = j \<and> (bb = b \<or> bb = rr_raise p)"
      using Cons.prems(1) False by (auto simp: Let_def split: prod.splits if_splits)
    have bb: "load_le bb c" "load_le c bb" "\<exists>d\<in>set qs. same_load bb d"
      using r(2) same pc Cons.prems(5-7) p(1) by auto
    show ?thesis
    proof (cases "j' = jb")
      case True
      then have "j' = i" using r(2) Cons.prems(3) by auto
      then show ?thesis using pc by (intro exI[of _ 0]) simp
    next
      case False
      from Cons.IH[OF r(1) p(2) False Cons.prems(4) bb] show ?thesis by (rule sub)
    qed
  qed
qed simp

subsection \<open>The choice of one call\<close>

definition candidate :: "int \<Rightarrow> rr_upstream \<Rightarrow> rr_request \<Rightarrow> nat \<Rightarrow> bool" where
  "candidate now u rq i \<longleftrightarrow> (let g = group_of u (on_backup rq) in
     i < number g \<and> (if single g then \<not> down (peers g ! i) else \<not> rr_skip now (tried rq) i (peers g ! i)))"

lemma choose_none:
  assumes "groups_ok u" "has_group u (on_backup rq)"
  shows "rr_choose now u rq = None \<longleftrightarrow> (\<forall>i. \<not> candidate now u rq i)"
proof -
  define g where "g = group_of u (on_backup rq)"
  note G = groups_okD[OF assms, folded g_def]
  show ?thesis
  proof (cases "single g")
    case True
    then have "number g = 1" using G(3) by simp
    then show ?thesis using True by (simp add: rr_choose_def candidate_def g_def Let_def) (metis gr0I)
  next
    case False
    then show ?thesis using G(1)
      by (cases rule: get_peer_cases[of now "peers g" "tried rq"])
        (auto simp: rr_choose_def candidate_def g_def Let_def first_best_def)
  qed
qed

text \<open>The peer that is chosen from the group of a request.\<close>

definition best_candidate :: "int \<Rightarrow> rr_upstream \<Rightarrow> rr_request \<Rightarrow> nat \<Rightarrow> bool" where
  "best_candidate now u rq i \<longleftrightarrow> candidate now u rq i
     \<and> (\<not> single (group_of u (on_backup rq)) \<longrightarrow> first_best now (tried rq) 0 (peers (group_of u (on_backup rq))) i)"

lemma choose_best:
  assumes "groups_ok u" "has_group u (on_backup rq)" "rr_choose now u rq = Some (u1, rq1, i)"
  shows "best_candidate now u rq i" "peer_addr (peer_at u1 (on_backup rq, i)) = peer_addr (peer_at u (on_backup rq, i))"
proof -
  note c = choose_peer[OF assms]
  show "best_candidate now u rq i"
  proof (cases "single (group_of u (on_backup rq))")
    case True
    then show ?thesis using c(1,12) by (simp add: best_candidate_def candidate_def Let_def valid_ref_def peer_at_def)
  next
    case False
    moreover note fb = c(13)[OF False]
    moreover have "ready now (tried rq) i (peers (group_of u (on_backup rq)) ! i)" using fb by (simp add: first_best_def)
    ultimately show ?thesis using c(1) by (simp add: best_candidate_def candidate_def Let_def valid_ref_def)
  qed
  have "fixed (peer_at u1 (on_backup rq, i)) = fixed (peer_at u (on_backup rq, i))"
    using c(1,3) unfolding same_peers_def by blast
  then show "peer_addr (peer_at u1 (on_backup rq, i)) = peer_addr (peer_at u (on_backup rq, i))" by (simp add: fixed_def)
qed

text \<open>
  Property C29 (functional).  A call gets a peer whenever there is one to get.  If a peer of the request's
  group is up, was not tried and is not failing, the answer is the first of those with the highest weight;
  else, if the backup group has one, it is that one; else the call is answered \<^verbatim>\<open>NGX_BUSY\<close> and the
  failures of all these peers are forgotten.
\<close>

theorem round_robin_choice:
  assumes "groups_ok u" "request_ok u rq"
    and "ngx_http_upstream_get_round_robin_peer now u rq = (u', rq', rc)"
  shows "if \<exists>i. candidate now u rq i then
      rc = NGX_OK \<and> (\<exists>i. best_candidate now u rq i \<and> rr_current rq' = Some (on_backup rq, i)
        \<and> sockaddr rq' = Some (peer_addr (peer_at u (on_backup rq, i))))
    else if \<not> on_backup rq \<and> backup u \<noteq> None \<and> (\<exists>i. candidate now u (switched u rq) i) then
      rc = NGX_OK \<and> (\<exists>i. best_candidate now u (switched u rq) i \<and> rr_current rq' = Some (True, i)
        \<and> sockaddr rq' = Some (peer_addr (peer_at u (True, i))))
    else rc = NGX_BUSY \<and> (\<forall>p. valid_ref u p \<and> (on_backup rq \<longrightarrow> fst p) \<longrightarrow> fails (peer_at u' p) = 0)"
proof -
  have hg: "has_group u (on_backup rq)" using assms(2) by (simp add: request_ok_def)
  note none = choose_none[OF assms(1) hg, of now]
  note get = assms(3)[unfolded round_robin_get]
  show ?thesis
  proof (cases rule: get_cases[of rr_choose now u rq])
    case (1 u1 rq1 i)
    then show ?thesis
      using none choose_best[OF assms(1) hg 1(1)] choose_peer(7)[OF assms(1) hg 1(1)] get by auto
  next
    case (2 u1 rq1 i)
    have hb: "has_group u (on_backup (switched u rq))" using 2(3) by (simp add: has_group_def)
    show ?thesis
      using none 2 choose_best[OF assms(1) hb 2(4)] choose_peer(7)[OF assms(1) hb 2(4)] get
        choose_none[OF assms(1) hb, of now] by auto
  next
    case 3
    have "fails (peer_at u' p) = 0" if "valid_ref u p" "on_backup rq \<longrightarrow> fst p" for p
    proof -
      have "fst p = on_backup rq" using that 3(2) by (cases "on_backup rq") (auto simp: valid_ref_def has_group_def)
      then show ?thesis using peer_at_clear[OF assms(1) hg that(1)] 3(3) get by simp
    qed
    then show ?thesis using none 3 get by auto
  next
    case 4
    have hb: "has_group u (on_backup (switched u rq))" "has_group u True" "has_group (clear_fails True u) False"
      using 4(3) by (simp_all add: has_group_def)
    have "fails (peer_at u' p) = 0" if "valid_ref u p" for p
    proof -
      have "valid_ref (clear_fails True u) p" using that shape_eqD(3)[OF shape_clear_fails] by simp
      from peer_at_clear[OF groups_ok_clear[OF assms(1) hb(2)] hb(3) this] peer_at_clear[OF assms(1) hb(2) that]
      show ?thesis using 4(5) get by (cases "fst p") simp_all
    qed
    then show ?thesis using none 4 get choose_none[OF assms(1) hb(1), of now] by auto
  qed
qed

lemma lc_choose_least:
  assumes "lc_choose now u rq = Some (u1, rq1, i)" "loads_fit (peers (group_of u (on_backup rq)))"
  defines "ps \<equiv> peers (group_of u (on_backup rq))"
  shows "i < length ps \<and> (\<forall>m<length ps. \<not> rr_skip now (tried rq) m (ps ! m) \<longrightarrow> load_le (ps ! i) (ps ! m))"
proof -
  have fit: "loads_fit ps" using assms(2) by (simp add: ps_def)
  obtain p many qs j b' tot where b: "lc_best now (tried rq) 0 ps None False = (Some (p, ps ! p), many)"
    and p: "p < length ps"
    and m: "(if many then lc_many now (tried rq) p (drop p ps) (p, ps ! p) 0 else (drop p ps, (p, ps ! p), 0)) = (qs, (j, b'), tot)"
    and j: "j < length ps" and i: "i = j"
    by (rule lc_choose_cases[OF assms(1), folded ps_def]) (rule that, assumption+, simp)
  define q where "q = ps ! p"
  have q: "q \<in> set ps" "\<And>m. m < length ps \<Longrightarrow> \<not> rr_skip now (tried rq) m (ps ! m) \<Longrightarrow> load_le q (ps ! m)"
    using lc_best_least[OF fit b subset_refl] p by (auto simp: q_def)
  have le: "load_le (ps ! j) q"
  proof (cases "j = p")
    case True
    then show ?thesis by (simp add: q_def)
  next
    case False
    then have "lc_many now (tried rq) p (drop p ps) (p, q) 0 = (qs, (j, b'), tot)" using m by (auto simp: q_def split: if_splits)
    moreover have "\<exists>d\<in>set ps. same_load q d" using q(1) by (auto simp: same_load_def)
    ultimately obtain k where "k < length (drop p ps)" "j = p + k" "load_le (drop p ps ! k) q"
      using lc_many_load[OF fit _ set_drop_subset False q(1) load_le_refl load_le_refl] by blast
    then show ?thesis by simp
  qed
  have pos: "0 < weight x" if "x \<in> set ps" for x using fit that by (simp add: loads_fit_def)
  show ?thesis
  proof (intro conjI allI impI)
    show "i < length ps" using j i by simp
    fix m assume m: "m < length ps" "\<not> rr_skip now (tried rq) m (ps ! m)"
    show "load_le (ps ! i) (ps ! m)"
      using load_le_trans[of "ps ! j" q "ps ! m"] le q(2)[OF m] pos q(1) m(1) i j by simp
  qed
qed

lemma lc_choose_ready:
  assumes "lc_choose now u rq = Some (u1, rq1, i)"
  shows "\<not> rr_skip now (tried rq) i (peers (group_of u (on_backup rq)) ! i)"
  using lc_choose_cases[OF assms] by (metis prod.inject)

lemma lc_none:
  assumes "lc_choose now u rq = None" "j < length (peers (group_of u (on_backup rq)))"
  shows "rr_skip now (tried rq) j (peers (group_of u (on_backup rq)) ! j)"
proof -
  define ps where "ps = peers (group_of u (on_backup rq))"
  obtain res many where b: "lc_best now (tried rq) 0 ps None False = (res, many)" by (cases "lc_best now (tried rq) 0 ps None False")
  then have "res = None" using assms(1) by (auto simp: lc_choose_def ps_def[symmetric] Let_def split: option.splits prod.splits)
  then show ?thesis using lc_best_cases[OF b] assms(2) by (auto simp: ps_def)
qed

text \<open>
  Property C30 (functional).  With least_conn, a request that can be served by its group gets one of the
  peers that are up, not tried and not failing, and no other such peer has fewer connections in
  proportion to its weight.  (The weights are positive and the products fit the 64 bits they are computed
  in.)
\<close>

theorem least_conn_choice:
  assumes "groups_ok u" "request_ok u rq" "\<not> single (group_of u (on_backup rq))"
    and "loads_fit (peers (group_of u (on_backup rq)))" "candidate now u rq j"
    and "ngx_http_upstream_get_least_conn_peer now u rq = (u', rq', rc)"
  shows "rc = NGX_OK \<and> (\<exists>i. candidate now u rq i \<and> rr_current rq' = Some (on_backup rq, i)
    \<and> (\<forall>k. candidate now u rq k \<longrightarrow> load_le (peer_at u (on_backup rq, i)) (peer_at u (on_backup rq, k))))"
proof -
  have hg: "has_group u (on_backup rq)" using assms(2) by (simp add: request_ok_def)
  define ps where "ps = peers (group_of u (on_backup rq))"
  have cand: "candidate now u rq k \<longleftrightarrow> k < length ps \<and> \<not> rr_skip now (tried rq) k (ps ! k)" for k
    using assms(3) groups_okD(1)[OF assms(1) hg] by (simp add: candidate_def Let_def ps_def)
  obtain u1 rq1 i where c: "lc_choose now u rq = Some (u1, rq1, i)"
    using lc_none[of now u rq j] assms(5) cand by (cases "lc_choose now u rq") (auto simp: ps_def)
  have pk: "lc_pick now u rq = Some (u1, rq1, i)" using c assms(3) by (simp add: lc_pick_def)
  note ch = lc_chosen[OF assms(1) hg assms(3) c]
  have i: "i < length ps" "\<And>m. m < length ps \<Longrightarrow> \<not> rr_skip now (tried rq) m (ps ! m) \<Longrightarrow> load_le (ps ! i) (ps ! m)"
    using lc_choose_least[OF c assms(4)] by (auto simp: ps_def)
  have "\<not> rr_skip now (tried rq) i (ps ! i)" using lc_choose_ready[OF c] by (simp add: ps_def)
  then show ?thesis
    using least_conn_get[OF assms(1) hg] get_here[of lc_pick, OF pk] assms(6) ch i cand
    by (auto simp: chosen_def peer_at_def ps_def)
qed

end
