(* ===== verification/Ngx_Upstream_Fair.thy ===== *)
theory Ngx_Upstream_Fair
  imports Ngx_Upstream_Balance
begin

text \<open>
  Smooth weighted round robin is fair: over any traffic without failures, the share of a peer stays within
  one turn of its weight.
\<close>

subsection \<open>Fairness\<close>

text \<open>
  Traffic without failures: a request arrives and gets a peer, or ends after its peer has answered.
\<close>

datatype rr_traffic = Arrive nat int | Leave nat int

fun traffic_events :: "rr_traffic \<Rightarrow> rr_event list" where
  "traffic_events (Arrive r now) = [Start r (\<lambda>k. True) 0, Get r now]"
| "traffic_events (Leave r now) = [Free r now False, Finish r]"

definition rr_serve :: "nat \<Rightarrow> rr_traffic list \<Rightarrow> rr_sys \<Rightarrow> rr_sys" where
  "rr_serve n ts s = fold (rr_do ngx_http_upstream_get_round_robin_peer n) (concat (map traffic_events ts)) s"

definition peer_weight :: "rr_upstream \<Rightarrow> nat \<Rightarrow> int" where
  "peer_weight u i = weight (peers (primary u) ! i)"

definition all_weights :: "rr_upstream \<Rightarrow> int" where
  "all_weights u = (\<Sum>i<number (primary u). peer_weight u i)"

definition share :: "rr_sys \<Rightarrow> nat \<Rightarrow> int" where
  "share s i = int (count_list (picks s) (False, i))"

text \<open>
  The invariant: every peer is at its configured weight, and its current weight is the part of the
  requests that it is owed, as a multiple of the sum of the weights.
\<close>

definition steady :: "rr_upstream \<Rightarrow> rr_peer list \<Rightarrow> bool" where
  "steady u ps \<longleftrightarrow> (\<forall>i<number (primary u). fails (ps ! i) = 0 \<and> \<not> down (ps ! i)
     \<and> weight (ps ! i) = peer_weight u i \<and> effective_weight (ps ! i) = peer_weight u i)"

definition owed :: "rr_upstream \<Rightarrow> rr_sys \<Rightarrow> bool" where
  "owed u s \<longleftrightarrow> (if single (primary u) then True else
     \<forall>i<number (primary u).
       current_weight (peers (primary (up s)) ! i) = int (length (picks s)) * peer_weight u i - all_weights u * share s i
       \<and> - all_weights u < current_weight (peers (primary (up s)) ! i))"

definition fair_inv :: "nat \<Rightarrow> rr_upstream \<Rightarrow> rr_sys \<Rightarrow> bool" where
  "fair_inv n u s \<longleftrightarrow> rr_run_inv n u s \<and> steady u (peers (primary (up s))) \<and> owed u s
     \<and> set (picks s) \<subseteq> Pair False ` {..<number (primary u)}
     \<and> (\<forall>r rq. reqs s r = Some rq \<longrightarrow> sockaddr rq \<noteq> None \<and> \<not> on_backup rq)"

lemma steady_ready:
  assumes "steady u ps" "i < number (primary u)" "\<not> tried_bit t i"
  shows "ready now t i (ps ! i)"
  using assms by (auto simp: steady_def rr_skip_def)

lemma steady_raise:
  assumes "steady u ps" "i < number (primary u)"
  shows "rr_raise (ps ! i) = (ps ! i)\<lparr> current_weight := current_weight (ps ! i) + peer_weight u i \<rparr>"
  using assms by (simp add: steady_def rr_raise_def)

lemma sum_list_nth: "sum_list (map f xs) = (\<Sum>i<length xs. f (xs ! i))" for f :: "'a \<Rightarrow> int"
  by (induction xs rule: rev_induct) (simp_all add: nth_append lessThan_Suc)

lemma steady_total:
  assumes "steady u ps" "length ps = number (primary u)" "\<And>i. i < number (primary u) \<Longrightarrow> \<not> tried_bit t i"
  shows "ready_weight now t 0 ps = all_weights u"
proof -
  have "ready_weight now t 0 ps = (\<Sum>i<number (primary u). if ready now t i (ps ! i) then effective_weight (ps ! i) else 0)"
    unfolding ready_weight_def sum_list_nth by (simp add: nth_enumerate_eq assms(2))
  also have "\<dots> = all_weights u"
    unfolding all_weights_def
    by (rule sum.cong) (use assms(1,3) steady_ready[OF assms(1)] in \<open>auto simp: steady_def\<close>)
  finally show ?thesis .
qed

text \<open>The choice among peers that all take part: the one that is owed most.\<close>

lemma owed_choice:
  fixes c w :: "nat \<Rightarrow> int"
  assumes "\<And>i. i < N \<Longrightarrow> 0 \<le> w i" "0 < W" "(\<Sum>i<N. c i) = 0" "(\<Sum>i<N. w i) = W"
    and "p < N" "\<And>i. i < N \<Longrightarrow> c i + w i \<le> c p + w p"
  shows "0 < c p + w p"
proof (rule ccontr)
  assume "\<not> 0 < c p + w p"
  then have "(\<Sum>i<N. c i + w i) \<le> 0" by (intro sum_nonpos) (use assms(6) in fastforce)
  then show False using assms(2-4) by (simp add: sum.distrib)
qed

text \<open>A fresh request gets a peer, and the shares stay owed.\<close>

lemma steady_group:
  assumes "fair_inv n u s"
  shows "groups_ok (up s)" "length (peers (primary (up s))) = number (primary u)" "0 < number (primary u)"
    "single (primary (up s)) = single (primary u)" "weight_sum (up s) False = 0" "has_group (up s) False"
proof -
  have inv: "rr_inv n s" "shape (up s) = shape u" using assms by (simp_all add: fair_inv_def rr_run_inv_def)
  show "groups_ok (up s)" "has_group (up s) False" using rr_invD(2)[OF inv(1)] by (simp_all add: has_group_def)
  then have "number (primary (up s)) = length (peers (primary (up s)))" "0 < number (primary (up s))"
    using groups_okD(1,2)[of "up s" False] by (simp_all add: group_of_def)
  then show "length (peers (primary (up s))) = number (primary u)" "0 < number (primary u)"
    using arg_cong[OF inv(2), of "fst \<circ> fst"] unfolding shape_def by (simp_all only: comp_def fst_conv)
  show "single (primary (up s)) = single (primary u)" using inv(2) by (simp add: shape_def)
  show "weight_sum (up s) False = 0" using rr_invD(1)[OF inv(1)] by (simp add: rr_ok_def has_group_def)
qed

lemma fair_choose:
  assumes "fair_inv n u s" "\<And>i. i < number (primary u) \<Longrightarrow> 0 < peer_weight u i"
    and "on_backup rq = False" "\<And>i. i < number (primary u) \<Longrightarrow> \<not> tried_bit (tried rq) i"
  obtains u1 rq1 i where "rr_choose now (up s) rq = Some (u1, rq1, i)" "i < number (primary u)"
    "steady u (peers (primary u1))"
    "\<And>s'. \<lbrakk> peers (primary (up s')) = (peers (primary u1))[i := use_peer (peers (primary u1) ! i)];
       picks s' = (False, i) # picks s \<rbrakk> \<Longrightarrow> owed u s'"
proof -
  note g = steady_group[OF assms(1)]
  define ps where "ps = peers (primary (up s))"
  have st: "steady u ps" and ow: "owed u s" using assms(1) by (simp_all add: fair_inv_def ps_def)
  have len: "length ps = number (primary u)" using g(2) by (simp add: ps_def)
  have grp: "group_of (up s) (on_backup rq) = primary (up s)" by (simp add: group_of_def assms(3))
  have num: "number (primary (up s)) = number (primary u)" using groups_okD(1)[OF g(1,6)] g(2) by (simp add: group_of_def)
  have W: "0 < all_weights u" unfolding all_weights_def by (rule sum_pos) (use assms(2) g(3) in auto)
  have rd: "ready now (tried rq) i (ps ! i)" if "i < number (primary u)" for i
    using steady_ready[OF st that assms(4)[OF that]] .
  have "candidate now (up s) rq 0"
    using g(3) rd[OF g(3)] st by (simp add: candidate_def grp num ps_def steady_def Let_def)
  then obtain u1 rq1 i where ch: "rr_choose now (up s) rq = Some (u1, rq1, i)"
    using choose_none[OF g(1), of rq now] g(6) assms(3) by (cases "rr_choose now (up s) rq") auto
  note c = choose_peer[OF g(1) _ ch, unfolded assms(3), OF g(6)]
  have i: "i < number (primary u)" using c(1) num by (simp add: valid_ref_def group_of_def)
  show thesis
  proof (cases "single (primary u)")
    case True
    then have "u1 = up s" using ch g(4) by (auto simp: rr_choose_def grp Let_def split: if_splits)
    then show ?thesis using that[OF ch i] st True by (simp add: ps_def owed_def)
  next
    case False
    then have fb: "first_best now (tried rq) 0 ps i" using c(13) g(4) by (simp add: group_of_def ps_def)
    have "u1 = set_group False ((raised now (tried rq) 0 ps)[i := picked now (ready_weight now (tried rq) 0 ps) (rr_raise (ps ! i))]) (up s)"
    proof (cases rule: get_peer_cases[of now ps "tried rq"])
      case 1
      then show ?thesis using ch False g(4) by (simp add: rr_choose_def grp Let_def ps_def)
    next
      case (2 p)
      then show ?thesis using ch False g(4) by (auto simp: rr_choose_def grp[unfolded assms(3)] Let_def ps_def[symmetric] assms(3))
    qed
    then have u1: "peers (primary u1) = (raised now (tried rq) 0 ps)[i := picked now (all_weights u) (rr_raise (ps ! i))]"
      using steady_total[OF st len assms(4)] by (simp add: set_group_def)
    have at: "peers (primary u1) ! j = (if j = i then picked now (all_weights u) (rr_raise (ps ! i)) else rr_raise (ps ! j))"
      if "j < number (primary u)" for j
      using that i rd[OF that] raised_nth[of j ps now "tried rq" 0] by (simp add: u1 len nth_list_update)
    have st1: "steady u (peers (primary u1))"
      using st by (auto simp: steady_def at steady_raise[OF st])
    have best: "current_weight (ps ! j) + peer_weight u j \<le> current_weight (ps ! i) + peer_weight u i"
      if "j < number (primary u)" for j
    proof -
      have "current_weight (rr_raise (ps ! j)) \<le> current_weight (rr_raise (ps ! i))"
        using fb that rd[OF that] len by (auto simp: first_best_def split: if_splits intro: less_imp_le)
      then show ?thesis using that i st by (simp add: steady_def)
    qed
    have "(\<Sum>j<number (primary u). current_weight (ps ! j)) = 0"
      using g(5) by (simp add: weight_sum_def group_of_def sum_list_nth flip: ps_def len)
    from owed_choice[OF less_imp_le[OF assms(2)] W this all_weights_def[symmetric] i best]
    have pos: "0 < current_weight (ps ! i) + peer_weight u i" by simp
    have "owed u s'" if s': "peers (primary (up s')) = (peers (primary u1))[i := use_peer (peers (primary u1) ! i)]"
        "picks s' = (False, i) # picks s" for s'
      unfolding owed_def if_not_P[OF False]
    proof (intro allI impI)
      fix j assume j: "j < number (primary u)"
      have l1: "length (peers (primary u1)) = number (primary u)" by (simp add: u1 len)
      have cw: "current_weight (peers (primary (up s')) ! j)
          = current_weight (ps ! j) + peer_weight u j - (if j = i then all_weights u else 0)"
        using j i st by (simp add: s'(1) nth_list_update l1 at use_peer_def steady_def)
      have sh: "share s' j = share s j + (if j = i then 1 else 0)" by (simp add: share_def s'(2))
      have old: "current_weight (ps ! j) = int (length (picks s)) * peer_weight u j - all_weights u * share s j"
          "- all_weights u < current_weight (ps ! j)"
        using ow j unfolding owed_def ps_def if_not_P[OF False] by blast+
      show "current_weight (peers (primary (up s')) ! j) = int (length (picks s')) * peer_weight u j - all_weights u * share s' j
          \<and> - all_weights u < current_weight (peers (primary (up s')) ! j)"
        unfolding cw sh s'(2) using old pos assms(2)[OF j] by (cases "j = i") (simp_all add: algebra_simps)
    qed
    then show ?thesis using that[OF ch i st1] by blast
  qed
qed

abbreviation rr_rr_do :: "nat \<Rightarrow> rr_event \<Rightarrow> rr_sys \<Rightarrow> rr_sys" where
  "rr_rr_do \<equiv> rr_do ngx_http_upstream_get_round_robin_peer"

lemma owedD:
  assumes "owed u s" "\<not> single (primary u)" "i < number (primary u)"
  shows "current_weight (peers (primary (up s)) ! i) = int (length (picks s)) * peer_weight u i - all_weights u * share s i"
    "- all_weights u < current_weight (peers (primary (up s)) ! i)"
  using assms(1,3) unfolding owed_def if_not_P[OF assms(2)] by blast+

lemma owed_same:
  assumes "owed u s" "picks s' = picks s"
    "\<And>i. current_weight (peers (primary (up s')) ! i) = current_weight (peers (primary (up s)) ! i)"
  shows "owed u s'"
  using assms(1) unfolding owed_def share_def assms(2,3) .

lemma steady_upd:
  assumes "steady u ps" "\<And>p. fails p = 0 \<Longrightarrow> fails (f p) = 0" "\<And>p. down (f p) = down p" "\<And>p. weight (f p) = weight p"
    "\<And>p. effective_weight (f p) = effective_weight p"
  shows "steady u (ps[i := f (ps ! i)])"
proof (cases "i < length ps")
  case True
  then show ?thesis using assms by (simp add: steady_def nth_list_update)
qed (use assms(1) in \<open>simp add: list_update_beyond not_less\<close>)

lemma new_round_robin_request:
  assumes "fair_inv n u s"
  obtains rq where "ngx_http_upstream_init_round_robin_peer (\<lambda>k. True) (up s) = Some rq" "limit_tries 0 rq = rq"
proof -
  have "new_request True m (up s) \<noteq> None" for m by (simp add: new_request_def Let_def)
  then obtain rq where "ngx_http_upstream_init_round_robin_peer (\<lambda>k. True) (up s) = Some rq"
    by (auto simp: ngx_http_upstream_init_round_robin_peer_def Let_def)
  then show ?thesis using that by (simp add: limit_tries_def)
qed

lemma fair_arrive:
  assumes "fair_inv n u s" "\<And>i. i < number (primary u) \<Longrightarrow> 0 < peer_weight u i"
  shows "fair_inv n u (rr_rr_do n (Get r now) (rr_rr_do n (Start r (\<lambda>k. True) 0) s))"
proof (cases "r < n \<and> reqs s r = None")
  case False
  then have "rr_rr_do n (Get r now) (rr_rr_do n (Start r (\<lambda>k. True) 0) s) = s"
  proof (cases "reqs s r")
    case None
    then show ?thesis using False by simp
  next
    case (Some rq)
    then have "\<not> may_get rq" using assms(1) by (auto simp: fair_inv_def may_get_def)
    then show ?thesis using Some by simp
  qed
  then show ?thesis using assms(1) by simp
next
  case True
  obtain rq where rq: "ngx_http_upstream_init_round_robin_peer (\<lambda>k. True) (up s) = Some rq" "limit_tries 0 rq = rq"
    using new_round_robin_request[OF assms(1)] .
  note t = new_tried[OF rq(1)] and g = steady_group[OF assms(1)]
  have num: "number (group_of (up s) False) = number (primary u)" using groups_okD(1)[OF g(1,6)] g(2) by (simp add: group_of_def)
  define s1 where "s1 = rr_rr_do n (Start r (\<lambda>k. True) 0) s"
  have s1: "s1 = s\<lparr> reqs := (reqs s)(r \<mapsto> rq), seen := (seen s)(r := []) \<rparr>" using True rq by (simp add: s1_def)
  have mg: "may_get rq" using t by (simp add: may_get_def)
  have nt: "\<not> tried_bit (tried rq) i" if "i < number (primary u)" for i using t(5)[OF g(6)] that num by simp
  obtain u1 rq1 i where ch: "rr_choose now (up s) rq = Some (u1, rq1, i)" "i < number (primary u)"
      "steady u (peers (primary u1))"
      "\<And>s'. \<lbrakk> peers (primary (up s')) = (peers (primary u1))[i := use_peer (peers (primary u1) ! i)];
         picks s' = (False, i) # picks s \<rbrakk> \<Longrightarrow> owed u s'"
    using fair_choose[OF assms t(1) nt] by blast
  note c = choose_peer[OF g(1) _ ch(1), unfolded t(1), OF g(6)]
  define s2 where "s2 = rr_rr_do n (Get r now) s1"
  have s2: "s2 = s1\<lparr> up := upd_peer (False, i) use_peer u1,
      reqs := (reqs s1)(r \<mapsto> rq1\<lparr> sockaddr := Some (peer_addr (peer_at u1 (False, i))) \<rparr>),
      seen := (seen s1)(r := (False, i) # seen s1 r), picks := (False, i) # picks s \<rparr>"
    using True mg get_here[of rr_choose, OF ch(1)] round_robin_get c(7) by (simp add: s2_def s1 do_get_def t(1))
  have p2: "peers (primary (up s2)) = (peers (primary u1))[i := use_peer (peers (primary u1) ! i)]"
    by (simp add: s2 upd_peer_def set_group_def group_of_def peer_at_def)
  have st2: "steady u (peers (primary (up s2)))"
    unfolding p2 by (rule steady_upd[OF ch(3)]) (simp_all add: use_peer_def)
  have "rr_run_inv n u s2"
    unfolding s2_def s1_def by (intro round_robin.run_inv_do) (use assms(1) in \<open>simp add: fair_inv_def\<close>)
  moreover have "owed u s2" by (rule ch(4)[OF p2]) (simp add: s2)
  ultimately have "fair_inv n u s2"
    using st2 assms(1) ch(2) c(8) by (auto simp: fair_inv_def s2 s1)
  then show ?thesis by (simp only: s2_def s1_def)
qed

lemma fair_leave:
  assumes "fair_inv n u s"
  shows "fair_inv n u (rr_rr_do n (Finish r) (rr_rr_do n (Free r now False) s))"
proof (cases "r < n \<and> reqs s r \<noteq> None")
  case False
  have "r < n" if "reqs s r = Some rq" for rq
    using assms rr_invD(4)[OF _ that] by (simp add: fair_inv_def rr_run_inv_def)
  then have "reqs s r = None" using False by (cases "reqs s r") auto
  then show ?thesis using assms by simp
next
  case True
  then obtain rq where rq: "reqs s r = Some rq" by auto
  have sa: "sockaddr rq \<noteq> None" "\<not> on_backup rq" using assms rq by (auto simp: fair_inv_def)
  have inv: "rr_inv n s" using assms by (simp add: fair_inv_def rr_run_inv_def)
  obtain p where p: "rr_current rq = Some p" using rr_invD(4)[OF inv rq] sa(1) by (auto simp: request_ok_def)
  define one where "one = single (group_of (up s) (on_backup rq))"
  define s1 where "s1 = rr_rr_do n (Free r now False) s"
  have s1: "s1 = s\<lparr> up := upd_peer p (release_peer now one False) (up s), reqs := (reqs s)(r \<mapsto>
      (if one then rq\<lparr> tries := 0 \<rparr> else if tries rq \<noteq> 0 then rq\<lparr> tries := tries rq - 1 \<rparr> else rq)\<lparr> sockaddr := None \<rparr>) \<rparr>"
    using True rq sa(1) by (simp add: s1_def do_free_def free_peer[OF p] one_def)
  define s2 where "s2 = rr_rr_do n (Finish r) s1"
  have s2: "s2 = s1\<lparr> reqs := (reqs s)(r := None) \<rparr>" by (simp add: s2_def s1)
  have "rr_run_inv n u s2"
    unfolding s2_def s1_def by (intro round_robin.run_inv_do) (use assms(1) in \<open>simp add: fair_inv_def\<close>)
  moreover have "steady u (peers (primary (up s2))) \<and> owed u s2"
  proof (cases "fst p")
    case True
    then have "primary (up s2) = primary (up s)" "picks s2 = picks s" by (simp_all add: s2 s1 upd_peer_def set_group_def)
    then show ?thesis using assms owed_same[of u s s2] by (simp add: fair_inv_def)
  next
    case False
    define ps where "ps = peers (primary (up s))"
    have ps2: "peers (primary (up s2)) = ps[snd p := release_peer now one False (ps ! snd p)]"
      using False by (simp add: s2 s1 upd_peer_def set_group_def group_of_def peer_at_def ps_def)
    have cw: "current_weight (release_peer now one False q) = current_weight q" for q
      by (simp add: release_peer_def Let_def)
    have "steady u ps" "owed u s" using assms by (simp_all add: fair_inv_def ps_def)
    moreover have "current_weight (peers (primary (up s2)) ! i) = current_weight (ps ! i)" for i
      by (cases "snd p < length ps") (simp_all add: ps2 nth_list_update list_update_beyond not_less cw)
    moreover have "picks s2 = picks s" by (simp add: s2 s1)
    moreover have "steady u (ps[snd p := release_peer now one False (ps ! snd p)])" if "steady u ps"
      by (rule steady_upd[OF that]) (auto simp: release_peer_def rr_passed_def Let_def)
    ultimately show ?thesis using owed_same[of u s s2] by (simp add: ps2 ps_def)
  qed
  ultimately have "fair_inv n u s2" using assms by (auto simp: fair_inv_def s2 s1)
  then show ?thesis by (simp only: s2_def s1_def)
qed

lemma fair_serve:
  assumes "fair_inv n u s" "\<And>i. i < number (primary u) \<Longrightarrow> 0 < peer_weight u i"
  shows "fair_inv n u (rr_serve n ts s)"
  using assms(1)
proof (induction ts arbitrary: s)
  case (Cons e ts)
  have "fair_inv n u (fold (rr_rr_do n) (traffic_events e) s)"
    by (cases e) (use fair_arrive[OF Cons.prems assms(2)] fair_leave[OF Cons.prems] in simp_all)
  from Cons.IH[OF this] show ?case by (simp add: rr_serve_def)
qed (simp add: rr_serve_def)

text \<open>
  Property C3 (functional).  Smooth weighted round robin is fair, however requests and their ends
  interleave.  While no peer is down or fails, every arriving request is served by a primary peer; after
  any number \<open>k\<close> of requests no peer is a whole request ahead of its share of \<open>k\<close>; and whenever \<open>k\<close> is
  a multiple of the sum of the weights, every peer has served exactly its share.
\<close>

theorem round_robin_fair:
  assumes "ngx_http_upstream_init_round_robin alloc servers port resolved = Some u" "servers_ok servers resolved"
    and "list_all (\<lambda>p. \<not> down p) (peers (primary u))"
  defines "W \<equiv> \<Sum>i<number (primary u). weight (peers (primary u) ! i)"
  shows "let s = rr_serve n ts (rr_start u); k = int (length (picks s)) in
    set (picks s) \<subseteq> Pair False ` {..<number (primary u)}
    \<and> (\<forall>r rq. reqs s r = Some rq \<longrightarrow> sockaddr rq \<noteq> None)
    \<and> (\<forall>i<number (primary u). let w = weight (peers (primary u) ! i); c = int (count_list (picks s) (False, i)) in
        W * c < k * w + W \<and> (W dvd k \<longrightarrow> W * c = k * w))"
proof -
  have fr: "fresh u" by (rule fresh_init[OF assms(1,2)])
  have num: "number (primary u) = length (peers (primary u))" "0 < number (primary u)"
    using fr groups_okD(1,2)[of u False] by (simp_all add: fresh_def has_group_def group_of_def)
  have fp: "fresh_peer (peers (primary u) ! i)" if "i < number (primary u)" for i
    using fresh_at[OF fr, of "(False, i)"] that by (simp add: valid_ref_def has_group_def group_of_def peer_at_def)
  have w: "0 < peer_weight u i" if "i < number (primary u)" for i using fp[OF that] by (simp add: fresh_peer_def peer_weight_def)
  have W: "W = all_weights u" by (simp add: W_def all_weights_def peer_weight_def)
  have pos: "0 < W" unfolding W all_weights_def by (rule sum_pos) (use w num(2) in auto)
  have "fair_inv n u (rr_start u)"
    using fresh_inv[OF fr] fp assms(3) pos num
    by (auto simp: fair_inv_def rr_run_inv_def rr_start_def steady_def owed_def share_def peer_weight_def
        fresh_peer_def W list_all_length)
  define s where "s = rr_serve n ts (rr_start u)"
  define k where "k = length (picks s)"
  have inv: "fair_inv n u s" unfolding s_def by (rule fair_serve[OF \<open>fair_inv n u (rr_start u)\<close> w])
  have sub: "set (picks s) \<subseteq> Pair False ` {..<number (primary u)}" using inv by (simp add: fair_inv_def)
  have tot: "(\<Sum>i<number (primary u). share s i) = int k"
  proof -
    have "length (picks s) = (\<Sum>p\<in>Pair False ` {..<number (primary u)}. count_list (picks s) p)"
      using sum_count_set[OF sub] by simp
    also have "\<dots> = (\<Sum>i<number (primary u). count_list (picks s) (False, i))"
      by (subst sum.reindex) (simp_all add: inj_on_def)
    finally show ?thesis by (simp add: share_def k_def)
  qed
  have ahead: "W * share s i < int k * peer_weight u i + W" if i: "i < number (primary u)" for i
  proof (cases "single (primary u)")
    case True
    then have "number (primary u) = 1" using fr groups_okD(3)[of u False] by (simp add: fresh_def has_group_def group_of_def)
    then have "share s i = int k" "W = peer_weight u i" using tot i by (simp_all add: W all_weights_def)
    then show ?thesis using pos by simp
  next
    case False
    then have o: "current_weight (peers (primary (up s)) ! i) = int k * peer_weight u i - W * share s i"
        "- W < current_weight (peers (primary (up s)) ! i)"
      using owedD[OF _ False i, of s] inv unfolding fair_inv_def W k_def by blast+
    from o(2) show ?thesis unfolding o(1) by simp
  qed
  have exact: "W * share s i = int k * peer_weight u i" if "W dvd int k" and i: "i < number (primary u)" for i
  proof -
    obtain m where m: "int k = W * m" using \<open>W dvd int k\<close> by (elim dvdE)
    have le: "share s j \<le> m * peer_weight u j" if "j < number (primary u)" for j
    proof -
      have "W * share s j < W * (m * peer_weight u j + 1)" using ahead[OF that] by (simp add: m algebra_simps)
      then show ?thesis using pos by simp
    qed
    have "(\<Sum>j<number (primary u). m * peer_weight u j - share s j) = 0"
      using tot m by (simp add: sum_subtractf sum_distrib_left[symmetric] W all_weights_def[symmetric])
    then have "m * peer_weight u i - share s i = 0"
      using sum_nonneg_eq_0_iff[of "{..<number (primary u)}" "\<lambda>j. m * peer_weight u j - share s j"] le i by simp
    then show ?thesis by (simp add: m)
  qed
  show ?thesis
    unfolding Let_def s_def[symmetric] k_def[symmetric] share_def[symmetric] peer_weight_def[symmetric]
    using sub ahead exact inv by (auto simp: fair_inv_def)
qed

end
