(* ===== verification/Ngx_Upstream_Ip_Hash.thy ===== *)
theory Ngx_Upstream_Ip_Hash
  imports Ngx_Upstream_Balance
begin

text \<open>
  The module ip_hash, which sends clients by a hash of their address, and its stickiness.
\<close>

subsection \<open>Hashing the address of the client\<close>

text \<open>
  \<^verbatim>\<open>http/modules/ngx_http_upstream_ip_hash_module.c\<close>.  The state of a request is that of round robin
  with the bytes of the client's address that count, the hash so far and the number of peers tried.
\<close>

record ip_hash_request =
  ip_rrp :: rr_request
  ip_hash :: ngx_uint
  ip_addr :: bytes
  ip_tries :: u_char

datatype client_addr = Inet bytes | Inet6 bytes | Other_family

definition ip_hash_addr :: "client_addr \<Rightarrow> bytes" where
  "ip_hash_addr a = (case a of Inet b \<Rightarrow> take 3 b | Inet6 b \<Rightarrow> take 16 b | Other_family \<Rightarrow> [0, 0, 0])"

text \<open>
  The state is allocated here (\<open>alloc_data\<close>), so round robin does not make the first of its own
  allocations.
\<close>

definition ngx_http_upstream_init_ip_hash_peer ::
    "(nat \<Rightarrow> bool) \<Rightarrow> bool \<Rightarrow> client_addr \<Rightarrow> rr_upstream \<Rightarrow> ip_hash_request option" where
  "ngx_http_upstream_init_ip_hash_peer alloc alloc_data client u =
     (if \<not> alloc_data then None
      else case ngx_http_upstream_init_round_robin_peer (alloc(0 := True)) u of
        None \<Rightarrow> None
      | Some rq \<Rightarrow> Some \<lparr> ip_rrp = rq, ip_hash = 89, ip_addr = ip_hash_addr client, ip_tries = 0 \<rparr>)"

definition ip_hash_step :: "bytes \<Rightarrow> ngx_uint \<Rightarrow> ngx_uint" where
  "ip_hash_step addr h = foldl (\<lambda>h a. (h * 113 + ucast a) mod 6271) h addr"

text \<open>
  The peer with the weight \<open>w\<close> in the sum of the weights; \<^term>\<open>None\<close> is a step past the last peer.
\<close>

fun ip_walk :: "int \<Rightarrow> nat \<Rightarrow> rr_peer list \<Rightarrow> (nat \<times> rr_peer) option" where
  "ip_walk w p [] = None"
| "ip_walk w p (q # ps) = (if w \<ge> weight q then ip_walk (w - weight q) (Suc p) ps else Some (p, q))"

text \<open>
  The loop: the next peer that the hash leads to and that can be taken, or \<^term>\<open>Inl\<close> when 20 have been
  passed over.
\<close>

function ip_loop ::
    "int \<Rightarrow> rr_peers \<Rightarrow> ngx_uint list \<Rightarrow> bytes \<Rightarrow> ngx_uint \<Rightarrow> u_char \<Rightarrow> (u_char + nat \<times> rr_peer \<times> ngx_uint \<times> u_char) option" where
  "ip_loop now g t addr h tr =
     (let h = ip_hash_step addr h in
      case ip_walk (uint (h mod total_weight g)) 0 (peers g) of
        None \<Rightarrow> None
      | Some (p, q) \<Rightarrow>
          if rr_skip now t p q then
            if tr + 1 > 20 then Some (Inl (tr + 1)) else ip_loop now g t addr h (tr + 1)
          else Some (Inr (p, q, h, tr)))"
  by pat_completeness auto

termination
proof (relation "measure (\<lambda>(now, g, t, addr, h, tr). if unat tr = 255 then 22 else 21 - unat tr)", goal_cases)
  case (2 now g t addr h tr x y a b)
  then have le: "unat (tr + 1) \<le> 20" by (simp add: not_less word_le_nat_alt)
  have "unat tr < 256" using unsigned_less[of tr] by simp
  then have "unat (tr + 1) = (if unat tr = 255 then 0 else unat tr + 1)" by (simp add: unat_word_ariths mod_Suc)
  then show ?case using le by (auto split: if_splits)
qed simp

definition ngx_http_upstream_get_ip_hash_peer ::
    "int \<Rightarrow> rr_upstream \<Rightarrow> ip_hash_request \<Rightarrow> (rr_upstream \<times> ip_hash_request \<times> int) option" where
  "ngx_http_upstream_get_ip_hash_peer now u d =
     (let rq = ip_rrp d; b = on_backup rq; g = group_of u b;
          fall_back = (\<lambda>d. let (u', rq', rc) = ngx_http_upstream_get_round_robin_peer now u rq in
                           (u', d\<lparr> ip_rrp := rq' \<rparr>, rc)) in
      if ip_tries d > 20 \<or> single g then Some (fall_back d)
      else case ip_loop now g (tried rq) (ip_addr d) (ip_hash d) (ip_tries d) of
        None \<Rightarrow> None
      | Some (Inl tr) \<Rightarrow> Some (fall_back (d\<lparr> ip_tries := tr \<rparr>))
      | Some (Inr (p, q, h, tr)) \<Rightarrow>
          let q' = q\<lparr> conns := conns q + 1 \<rparr>;
              q' = (if now - checked q' > fail_timeout q' then q'\<lparr> checked := now \<rparr> else q') in
          Some (set_group b ((peers g)[p := q']) u,
            d\<lparr> ip_rrp := rq\<lparr> rr_current := Some (b, p), sockaddr := Some (peer_addr q), tried := set_tried (tried rq) p \<rparr>,
               ip_hash := h, ip_tries := tr \<rparr>, NGX_OK))"

text \<open>The walk over the weights stays on the list, and only looks at the weights.\<close>

lemma ip_walk_found:
  assumes "0 \<le> w" "w < sum_list (map weight ps)"
  shows "\<exists>k<length ps. ip_walk w p ps = Some (p + k, ps ! k)"
  using assms
proof (induction ps arbitrary: w p)
  case (Cons q ps)
  show ?case
  proof (cases "weight q \<le> w")
    case True
    then obtain k where "k < length ps" "ip_walk (w - weight q) (Suc p) ps = Some (Suc p + k, ps ! k)"
      using Cons.IH[of "w - weight q" "Suc p"] Cons.prems by auto
    then show ?thesis using True by (intro exI[of _ "Suc k"]) simp
  next
    case False
    then show ?thesis by (intro exI[of _ 0]) simp
  qed
qed simp

lemma ip_walk_weights:
  "map weight ps = map weight qs \<Longrightarrow> map_option fst (ip_walk w p ps) = map_option fst (ip_walk w p qs)"
proof (induction ps arbitrary: qs w p)
  case (Cons x ps)
  then obtain y ys where "qs = y # ys" "weight y = weight x" "map weight ps = map weight ys" by (cases qs) auto
  then show ?case using Cons.IH by simp
qed simp

text \<open>The sum of the weights is what the walk is taken modulo.\<close>

definition weights_fit :: "rr_peers \<Rightarrow> bool" where
  "weights_fit g \<longleftrightarrow> 0 < uint (total_weight g) \<and> uint (total_weight g) = sum_list (map weight (peers g))"

lemma ip_walk_total:
  assumes "weights_fit g"
  shows "\<exists>k<length (peers g). ip_walk (uint (h mod total_weight g)) 0 (peers g) = Some (k, peers g ! k)"
proof -
  have "uint (h mod total_weight g) < uint (total_weight g)" using assms by (simp add: uint_mod weights_fit_def)
  from ip_walk_found[OF _ this[unfolded conjunct2[OF assms[unfolded weights_fit_def]]], of 0] show ?thesis by simp
qed

lemma ip_loop_found:
  assumes "weights_fit g"
  shows "(\<exists>tr'. ip_loop now g t addr h tr = Some (Inl tr') \<and> 20 < tr')
    \<or> (\<exists>p h' tr'. p < length (peers g) \<and> \<not> rr_skip now t p (peers g ! p) \<and> ip_loop now g t addr h tr = Some (Inr (p, peers g ! p, h', tr'))
         \<and> (tr \<le> 20 \<longrightarrow> tr' \<le> 20))"
  using assms
proof (induction now g t addr h tr rule: ip_loop.induct)
  case (1 now g t addr h tr)
  obtain k where k: "k < length (peers g)"
      "ip_walk (uint (ip_hash_step addr h mod total_weight g)) 0 (peers g) = Some (k, peers g ! k)"
    using ip_walk_total[OF "1.prems"] by blast
  show ?case
  proof (cases "rr_skip now t k (peers g ! k) \<and> \<not> tr + 1 > 20")
    case True
    then have "ip_loop now g t addr h tr = ip_loop now g t addr (ip_hash_step addr h) (tr + 1)"
      using k by (subst ip_loop.simps) (simp add: Let_def)
    moreover have "tr + 1 \<le> 20" using True by (simp add: not_less)
    ultimately show ?thesis using "1.IH"[OF refl k(2) refl _ _ "1.prems"] True by auto
  next
    case False
    then show ?thesis using k by (subst (1 2) ip_loop.simps) (auto simp: Let_def)
  qed
qed

lemma ip_loop_same:
  assumes "total_weight g' = total_weight g" "map weight (peers g') = map weight (peers g)" "weights_fit g"
    "\<And>i. i < length (peers g) \<Longrightarrow> rr_skip now' t' i (peers g' ! i) = rr_skip now t i (peers g ! i)"
  shows "map_option (map_sum id (\<lambda>(p, q, h, tr). p)) (ip_loop now' g' t' addr h tr)
       = map_option (map_sum id (\<lambda>(p, q, h, tr). p)) (ip_loop now g t addr h tr)"
  using assms
proof (induction now g t addr h tr rule: ip_loop.induct)
  case (1 now g t addr h tr)
  obtain k where k: "k < length (peers g)"
      "ip_walk (uint (ip_hash_step addr h mod total_weight g)) 0 (peers g) = Some (k, peers g ! k)"
    using ip_walk_total[OF "1.prems"(3)] by blast
  have fit': "weights_fit g'" using "1.prems"(1-3) by (simp add: weights_fit_def)
  obtain k' where "ip_walk (uint (ip_hash_step addr h mod total_weight g)) 0 (peers g') = Some (k', peers g' ! k')"
    using ip_walk_total[OF fit', of "ip_hash_step addr h"] "1.prems"(1) by auto
  then have k': "ip_walk (uint (ip_hash_step addr h mod total_weight g')) 0 (peers g') = Some (k, peers g' ! k)"
    using ip_walk_weights[OF "1.prems"(2), of "uint (ip_hash_step addr h mod total_weight g)" 0] k(2) "1.prems"(1) by simp
  have sk: "rr_skip now' t' k (peers g' ! k) = rr_skip now t k (peers g ! k)" by (rule "1.prems"(4)[OF k(1)])
  show ?case
  proof (cases "rr_skip now t k (peers g ! k) \<and> \<not> tr + 1 > 20")
    case True
    then have "ip_loop now g t addr h tr = ip_loop now g t addr (ip_hash_step addr h) (tr + 1)"
      using k by (subst ip_loop.simps) (simp add: Let_def)
    moreover have "ip_loop now' g' t' addr h tr = ip_loop now' g' t' addr (ip_hash_step addr h) (tr + 1)"
      using k' True sk by (subst ip_loop.simps) (simp add: Let_def)
    ultimately show ?thesis using "1.IH"[OF refl k(2) refl _ _ "1.prems"] True by auto
  next
    case False
    then show ?thesis using k k' sk by (subst (1 2) ip_loop.simps) (auto simp: Let_def)
  qed
qed

text \<open>
  Property C31 (functional).  Clients whose addresses agree in the bytes that are hashed (three of an IPv4
  address) go to the same peer: whatever other requests have done to the weights and counters in between,
  as long as the same peers are up, the hash leads both to the same one, that peer is one of those that can be
  taken, and the walk over the weights never leaves the list of peers.  (Else both are left to round
  robin.)
\<close>

theorem ip_hash_sticky:
  assumes "groups_ok u" "groups_ok v" "same_peers u v" "\<not> single (primary u)"
    and "weights_fit (primary u)" "total_weight (primary v) = total_weight (primary u)"
    and "ngx_http_upstream_init_ip_hash_peer alloc True client u = Some d" "ngx_http_upstream_init_ip_hash_peer alloc' True client' v = Some e"
    and "ip_hash_addr client' = ip_hash_addr client"
    and "\<And>i. i < number (primary u) \<Longrightarrow>
      rr_skip now' (tried (ip_rrp e)) i (peer_at v (False, i)) = rr_skip now (tried (ip_rrp d)) i (peer_at u (False, i))"
  shows "\<exists>u' d' rc v' e' rc'. ngx_http_upstream_get_ip_hash_peer now u d = Some (u', d', rc)
    \<and> ngx_http_upstream_get_ip_hash_peer now' v e = Some (v', e', rc')
    \<and> (ip_tries d' \<le> 20 \<longleftrightarrow> ip_tries e' \<le> 20)
    \<and> (ip_tries d' \<le> 20 \<longrightarrow> rc = NGX_OK \<and> rc' = NGX_OK
         \<and> (\<exists>i<number (primary u). rr_current (ip_rrp d') = Some (False, i) \<and> rr_current (ip_rrp e') = Some (False, i)
              \<and> \<not> rr_skip now (tried (ip_rrp d)) i (peer_at u (False, i))))"
proof -
  obtain rq where d: "d = \<lparr> ip_rrp = rq, ip_hash = 89, ip_addr = ip_hash_addr client, ip_tries = 0 \<rparr>"
      "ngx_http_upstream_init_round_robin_peer (alloc(0 := True)) u = Some rq"
    using assms(7) by (auto simp: ngx_http_upstream_init_ip_hash_peer_def split: option.splits)
  obtain rq' where e: "e = \<lparr> ip_rrp = rq', ip_hash = 89, ip_addr = ip_hash_addr client, ip_tries = 0 \<rparr>"
      "ngx_http_upstream_init_round_robin_peer (alloc'(0 := True)) v = Some rq'"
    using assms(8,9) by (auto simp: ngx_http_upstream_init_ip_hash_peer_def split: option.splits)
  note t = new_tried[OF d(2)] and t' = new_tried[OF e(2)]
  have sh: "shape v = shape u" using assms(3) by (simp add: same_peers_def)
  have ns: "\<not> single (primary v)" using shape_eqD(4)[OF sh] assms(4) by simp
  have num: "number (primary u) = length (peers (primary u))" "number (primary v) = length (peers (primary v))"
    using groups_okD(1)[OF assms(1), of False] groups_okD(1)[OF assms(2), of False] by (simp_all add: has_group_def group_of_def)
  have len: "length (peers (primary v)) = length (peers (primary u))" using sh num by (simp add: shape_def)
  have at: "peer_at u (False, i) = peers (primary u) ! i" "peer_at v (False, i) = peers (primary v) ! i" for i
    by (simp_all add: peer_at_def group_of_def)
  have wt: "map weight (peers (primary v)) = map weight (peers (primary u))"
  proof (rule nth_equalityI)
    fix i assume "i < length (map weight (peers (primary v)))"
    then have "valid_ref u (False, i)" by (simp add: valid_ref_def has_group_def group_of_def num len)
    then have "fixed (peer_at v (False, i)) = fixed (peer_at u (False, i))" using assms(3) unfolding same_peers_def by blast
    then show "map weight (peers (primary v)) ! i = map weight (peers (primary u)) ! i"
      using \<open>i < _\<close> by (simp add: fixed_def at len)
  qed (simp add: len)
  define l where "l = ip_loop now (primary u) (tried rq) (ip_hash_addr client) 89 0"
  define l' where "l' = ip_loop now' (primary v) (tried rq') (ip_hash_addr client) 89 0"
  have same: "map_option (map_sum id (\<lambda>(p, q, h, tr). p)) l' = map_option (map_sum id (\<lambda>(p, q, h, tr). p)) l"
    unfolding l_def l'_def by (rule ip_loop_same[OF assms(6) wt assms(5)]) (use assms(10) in \<open>simp add: d(1) e(1) at num\<close>)
  have fit': "weights_fit (primary v)" using assms(5,6) wt by (simp add: weights_fit_def)
  have get: "ngx_http_upstream_get_ip_hash_peer now u d = (case l of None \<Rightarrow> None
      | Some (Inl tr) \<Rightarrow> (let (u', rq', rc) = ngx_http_upstream_get_round_robin_peer now u rq in Some (u', d\<lparr> ip_tries := tr, ip_rrp := rq' \<rparr>, rc))
      | Some (Inr (p, q, h, tr)) \<Rightarrow> (let q' = q\<lparr> conns := conns q + 1 \<rparr>;
              q' = (if now - checked q' > fail_timeout q' then q'\<lparr> checked := now \<rparr> else q') in
          Some (set_group False ((peers (primary u))[p := q']) u,
            d\<lparr> ip_rrp := rq\<lparr> rr_current := Some (False, p), sockaddr := Some (peer_addr q), tried := set_tried (tried rq) p \<rparr>,
               ip_hash := h, ip_tries := tr \<rparr>, NGX_OK)))"
    using assms(4) t(1) by (simp add: ngx_http_upstream_get_ip_hash_peer_def d(1) l_def group_of_def Let_def split: option.split sum.split prod.split)
  have get': "ngx_http_upstream_get_ip_hash_peer now' v e = (case l' of None \<Rightarrow> None
      | Some (Inl tr) \<Rightarrow> (let (u', rq'', rc) = ngx_http_upstream_get_round_robin_peer now' v rq' in Some (u', e\<lparr> ip_tries := tr, ip_rrp := rq'' \<rparr>, rc))
      | Some (Inr (p, q, h, tr)) \<Rightarrow> (let q' = q\<lparr> conns := conns q + 1 \<rparr>;
              q' = (if now' - checked q' > fail_timeout q' then q'\<lparr> checked := now' \<rparr> else q') in
          Some (set_group False ((peers (primary v))[p := q']) v,
            e\<lparr> ip_rrp := rq'\<lparr> rr_current := Some (False, p), sockaddr := Some (peer_addr q), tried := set_tried (tried rq') p \<rparr>,
               ip_hash := h, ip_tries := tr \<rparr>, NGX_OK)))"
    using ns t'(1) by (simp add: ngx_http_upstream_get_ip_hash_peer_def e(1) l'_def group_of_def Let_def split: option.split sum.split prod.split)
  consider tr where "l = Some (Inl tr)" "20 < tr"
    | p h tr where "l = Some (Inr (p, peers (primary u) ! p, h, tr))" "p < length (peers (primary u))"
        "\<not> rr_skip now (tried rq) p (peers (primary u) ! p)" "tr \<le> 20"
    using ip_loop_found[OF assms(5), of now "tried rq" "ip_hash_addr client" 89 0] unfolding l_def by auto
  then show ?thesis
  proof cases
    case (1 tr)
    then have "l' = Some (Inl tr)" using same by (cases l') (auto simp: map_sum_def split: sum.splits)
    then show ?thesis using get get' 1 by (auto simp: not_le split: prod.split)
  next
    case (2 p h tr)
    obtain q' h' tr' where "l' = Some (Inr (p, q', h', tr'))" using same 2(1) by (cases l') (auto simp: map_sum_def split: sum.splits)
    moreover from this have "tr' \<le> 20"
      using ip_loop_found[OF fit', of now' "tried rq'" "ip_hash_addr client" 89 0] unfolding l'_def by auto
    ultimately show ?thesis using get get' 2 num at by (auto simp: Let_def d(1))
  qed
qed

end
