(* ===== verification/Ngx_Upstream_Examples.thy ===== *)
theory Ngx_Upstream_Examples
  imports Ngx_Upstream_Fair Ngx_Upstream_Ip_Hash
begin

text \<open>
  Runs of the balancing modules on a small upstream, as witnesses of their properties.
\<close>

subsection \<open>Examples\<close>

definition server_abc :: "upstream_server list" where
  "server_abc = map (\<lambda>(a, w, b). \<lparr> srv_addrs = [a], srv_weight = w, srv_max_fails = 1, srv_fail_timeout = 10,
     srv_down = False, srv_backup = b \<rparr>) [(1, 5, False), (2, 1, False), (3, 1, False), (9, 1, True)]"

definition up_abc :: rr_upstream where
  "up_abc = (case ngx_http_upstream_init_round_robin (\<lambda>k. True) (Some server_abc) 0 None of Some u \<Rightarrow> u)"

lemma up_abc: "ngx_http_upstream_init_round_robin (\<lambda>k. True) (Some server_abc) 0 None = Some up_abc"
  unfolding up_abc_def ngx_http_upstream_init_round_robin_def option.case
  by (simp add: init_servers_def server_abc_def servers_number_def)

lemma server_abc_ok: "servers_ok (Some server_abc) None"
  by (simp add: servers_ok_def server_abc_def)

lemma reach_events: "reach (rr_start u) (rr_step get n) (fold (rr_do get n) es (rr_start u))"
proof (induction es rule: rev_induct)
  case (snoc e es)
  then show ?case by (auto intro: reach_step simp: rr_step_def)
qed (simp add: reach_init)

text \<open>A first peer fails; its request goes to another one and waits there while a second request comes.\<close>

definition run_abc :: rr_sys where
  "run_abc = fold (rr_do ngx_http_upstream_get_round_robin_peer 4) [Start 0 (\<lambda>k. True) 0, Get 0 100, Free 0 101 True, Get 0 101, Start 1 (\<lambda>k. True) 0, Get 1 102]
     (rr_start up_abc)"

lemma run_abc: "reach (rr_start up_abc) (rr_step ngx_http_upstream_get_round_robin_peer 4) run_abc"
  unfolding run_abc_def by (rule reach_events)

lemma run_abc_state:
  "seen run_abc 0 = [(False, 1), (False, 0)] \<and> seen run_abc 1 = [(False, 2)]
   \<and> map effective_weight (peers (primary (up run_abc))) = [0, 1, 1]
   \<and> map current_weight (peers (primary (up run_abc))) = [-2, 1, 1]"
  by code_simp

lemma run_abc_req: "\<exists>rq. reqs run_abc 0 = Some rq"
proof -
  have "case reqs run_abc 0 of Some rq \<Rightarrow> True | None \<Rightarrow> False" by code_simp
  then show ?thesis by (auto split: option.splits)
qed

lemma round_robin_well_formed_witness:
  "shape (up run_abc) = shape up_abc \<and> groups_ok (up run_abc) \<and> weights_ok (up run_abc)
   \<and> (\<exists>rq. reqs run_abc 0 = Some rq \<and> request_ok (up run_abc) rq)"
  using round_robin_well_formed[OF up_abc server_abc_ok insertI1 run_abc] run_abc_req by blast

lemma round_robin_counts_witness:
  "conns (peer_at (up run_abc) (False, 1)) = of_nat (card {r. r < 4 \<and> rr_holds (False, 1) (reqs run_abc r)})
   \<and> weight_sum (up run_abc) False = 0"
proof -
  have "number (primary (up run_abc)) = 3" by code_simp
  then have "valid_ref (up run_abc) (False, 1)" by (simp add: valid_ref_def has_group_def group_of_def)
  then show ?thesis using round_robin_counts[OF up_abc server_abc_ok insertI1 run_abc] by (simp add: has_group_def)
qed

lemma round_robin_no_repeat_witness:
  "seen run_abc 0 = [(False, 1), (False, 0)] \<and> distinct (seen run_abc 0) \<and> length (seen run_abc 0) \<le> 4"
proof -
  obtain rq where "reqs run_abc 0 = Some rq" using run_abc_req by blast
  from round_robin_no_repeat[OF up_abc server_abc_ok insertI1 run_abc this]
  have "distinct (seen run_abc 0)
    \<and> length (seen run_abc 0) \<le> number (primary up_abc) + (case backup up_abc of None \<Rightarrow> 0 | Some g \<Rightarrow> number g)" .
  moreover have "number (primary up_abc) + (case backup up_abc of None \<Rightarrow> 0 | Some g \<Rightarrow> number g) = 4" by code_simp
  ultimately show ?thesis using run_abc_state by simp
qed

text \<open>When all primary peers are down, the backup one is chosen.\<close>

definition up_down :: rr_upstream where
  "up_down = up_abc\<lparr> primary := (primary up_abc)\<lparr> peers := map (\<lambda>p. p\<lparr> down := True \<rparr>) (peers (primary up_abc)) \<rparr> \<rparr>"

definition new_rq :: rr_request where
  "new_rq = (case ngx_http_upstream_init_round_robin_peer (\<lambda>k. True) up_down of Some rq \<Rightarrow> rq)"

lemma round_robin_choice_witness:
  "\<exists>u' rq'. ngx_http_upstream_get_round_robin_peer 7 up_down new_rq = (u', rq', NGX_OK)
     \<and> best_candidate 7 up_down (switched up_down new_rq) 0
     \<and> rr_current rq' = Some (True, 0) \<and> sockaddr rq' = Some 9"
proof -
  have "groups_ok up_abc" using fresh_init[OF up_abc server_abc_ok] by (simp add: fresh_def)
  moreover have "up_down = set_group False (map (\<lambda>p. p\<lparr> down := True \<rparr>) (peers (primary up_abc))) up_abc"
    by (simp add: up_down_def set_group_def)
  ultimately have g: "groups_ok up_down"
    using groups_ok_set_group[of up_abc False "map (\<lambda>p. p\<lparr> down := True \<rparr>) (peers (primary up_abc))"]
    by (simp add: has_group_def group_of_def)
  have n: "ngx_http_upstream_init_round_robin_peer (\<lambda>k. True) up_down = Some new_rq"
    unfolding new_rq_def by (simp add: ngx_http_upstream_init_round_robin_peer_def new_request_def Let_def)
  note t = new_tried[OF n]
  have r: "request_ok up_down new_rq" using t by (simp add: request_ok_def has_group_def)
  obtain u' rq' rc where e: "ngx_http_upstream_get_round_robin_peer 7 up_down new_rq = (u', rq', rc)"
    by (metis prod_cases3)
  have "\<not> candidate 7 up_down new_rq i" for i
  proof -
    have "\<not> candidate 7 up_down new_rq 0 \<and> \<not> candidate 7 up_down new_rq 1 \<and> \<not> candidate 7 up_down new_rq 2
        \<and> number (group_of up_down (on_backup new_rq)) = 3" by code_simp
    moreover have "i < 3 \<Longrightarrow> i = 0 \<or> i = 1 \<or> i = 2" by linarith
    ultimately show ?thesis unfolding candidate_def Let_def by fastforce
  qed
  moreover have c: "candidate 7 up_down (switched up_down new_rq) 0 \<and> \<not> on_backup new_rq
      \<and> (case backup up_down of None \<Rightarrow> False | Some g \<Rightarrow> True)
      \<and> number (group_of up_down True) = 1 \<and> peer_addr (peer_at up_down (True, 0)) = 9" by code_simp
  then have "\<exists>i. candidate 7 up_down (switched up_down new_rq) i" "backup up_down \<noteq> None" "\<not> on_backup new_rq"
    by (auto split: option.splits)
  ultimately have "rc = NGX_OK \<and> (\<exists>i. best_candidate 7 up_down (switched up_down new_rq) i \<and> rr_current rq' = Some (True, i)
      \<and> sockaddr rq' = Some (peer_addr (peer_at up_down (True, i))))"
    using round_robin_choice[OF g r e] by (simp only: simp_thms if_True if_False)
  then obtain i where i: "rc = NGX_OK" "best_candidate 7 up_down (switched up_down new_rq) i" "rr_current rq' = Some (True, i)"
      "sockaddr rq' = Some (peer_addr (peer_at up_down (True, i)))" "number (group_of up_down True) = 1"
      "peer_addr (peer_at up_down (True, 0)) = 9" using c by blast
  then have "i = 0" by (simp add: best_candidate_def candidate_def Let_def)
  then show ?thesis using e i by auto
qed

text \<open>Seven requests to peers of the weights 5, 1 and 1, two at a time.\<close>

lemma round_robin_fair_witness:
  "let s = rr_serve 3 (concat (replicate 4 [Arrive 0 5, Arrive 1 6, Leave 0 6, Leave 1 7]) @ [Arrive 2 7]) (rr_start up_abc)
   in picks (rr_serve 3 (take 13 (concat (replicate 4 [Arrive 0 5, Arrive 1 6, Leave 0 6, Leave 1 7]))) (rr_start up_abc))
        = map (Pair False) [0, 0, 2, 0, 1, 0, 0]
     \<and> 7 * int (count_list (picks s) (False, 0)) < int (length (picks s)) * 5 + 7"
proof -
  define s where "s = rr_serve 3 (concat (replicate 4 [Arrive 0 5, Arrive 1 6, Leave 0 6, Leave 1 7]) @ [Arrive 2 7]) (rr_start up_abc)"
  have up: "list_all (\<lambda>p. \<not> down p) (peers (primary up_abc))" by code_simp
  have ws: "number (primary up_abc) = 3 \<and> weight (peers (primary up_abc) ! 0) = 5
      \<and> weight (peers (primary up_abc) ! 1) = 1 \<and> weight (peers (primary up_abc) ! 2) = 1" by code_simp
  have sum: "(\<Sum>i<number (primary up_abc). weight (peers (primary up_abc) ! i)) = 7"
    using ws by (simp add: numeral_3_eq_3 lessThan_Suc numeral_2_eq_2)
  have "7 * int (count_list (picks s) (False, 0)) < int (length (picks s)) * 5 + 7"
    using round_robin_fair[OF up_abc server_abc_ok up, of 3
        "concat (replicate 4 [Arrive 0 5, Arrive 1 6, Leave 0 6, Leave 1 7]) @ [Arrive 2 7]",
        unfolded Let_def s_def[symmetric] sum, THEN conjunct2, THEN conjunct2, rule_format, of 0] ws by simp
  moreover have "picks (rr_serve 3 (take 13 (concat (replicate 4 [Arrive 0 5, Arrive 1 6, Leave 0 6, Leave 1 7]))) (rr_start up_abc))
        = map (Pair False) [0, 0, 2, 0, 1, 0, 0]" by code_simp
  ultimately show ?thesis by (simp add: Let_def s_def)
qed

subsection \<open>Examples of the other two methods\<close>

definition run_lc :: rr_sys where
  "run_lc = fold (rr_do ngx_http_upstream_get_least_conn_peer 4)
     [Start 0 (\<lambda>k. True) 0, Get 0 100, Start 1 (\<lambda>k. True) 0, Get 1 102, Start 2 (\<lambda>k. True) 0] (rr_start up_abc)"

lemma run_lc: "rr_run_inv 4 up_abc run_lc"
  unfolding run_lc_def
  using balancer.rr_reach_inv[OF balancing_get fresh_init[OF up_abc server_abc_ok] reach_events] by blast

lemma run_lc_request: "\<exists>rq. reqs run_lc 2 = Some rq"
proof -
  have "case reqs run_lc 2 of Some rq \<Rightarrow> True | None \<Rightarrow> False" by code_simp
  then show ?thesis by (auto split: option.splits)
qed

lemma least_conn_choice_witness:
  "\<exists>rq u' rq'. reqs run_lc 2 = Some rq \<and> map conns (peers (primary (up run_lc))) = [1, 1, 0]
     \<and> ngx_http_upstream_get_least_conn_peer 103 (up run_lc) rq = (u', rq', NGX_OK)
     \<and> rr_current rq' = Some (False, 2)"
proof -
  obtain rq where rq: "reqs run_lc 2 = Some rq" using run_lc_request by blast
  have ok: "groups_ok (up run_lc)" "request_ok (up run_lc) rq"
    using run_lc rq by (auto simp: rr_run_inv_def rr_inv_def rr_ok_def)
  have "(case reqs run_lc 2 of None \<Rightarrow> False | Some rq \<Rightarrow> \<not> on_backup rq \<and> candidate 103 (up run_lc) rq 2)" by code_simp
  then have c: "\<not> on_backup rq" "candidate 103 (up run_lc) rq 2" using rq by auto
  have e: "\<not> single (primary (up run_lc)) \<and> number (primary (up run_lc)) = 3 \<and> map conns (peers (primary (up run_lc))) = [1, 1, 0]" by code_simp
  have w: "map weight (peers (primary (up run_lc))) = [5, 1, 1]" by code_simp
  obtain p0 p1 p2 where ps: "peers (primary (up run_lc)) = [p0, p1, p2]"
    using e by (auto simp: map_eq_Cons_conv)
  have fit: "loads_fit (peers (group_of (up run_lc) (on_backup rq)))"
    using c(1) e w by (auto simp: ps loads_fit_def group_of_def)
  obtain u' rq' rc where g: "ngx_http_upstream_get_least_conn_peer 103 (up run_lc) rq = (u', rq', rc)"
    by (metis prod_cases3)
  from least_conn_choice[OF ok _ fit c(2) g] c(1) e obtain i where
    i: "rc = NGX_OK" "candidate 103 (up run_lc) rq i" "rr_current rq' = Some (False, i)"
       "load_le (peer_at (up run_lc) (False, i)) (peer_at (up run_lc) (False, 2))"
    using c(2) by (auto simp: group_of_def)
  have "i = 0 \<or> i = 1 \<or> i = 2" using i(2) c(1) e by (auto simp: candidate_def group_of_def Let_def)
  then have "i = 2" using i(4) e w by (auto simp: load_le_def peer_at_def group_of_def ps)
  with rq g i(1,3) e show ?thesis by auto
qed

definition init_abc :: "client_addr \<Rightarrow> rr_upstream \<Rightarrow> ip_hash_request" where
  "init_abc a u = (case ngx_http_upstream_init_ip_hash_peer (\<lambda>k. True) True a u of Some d \<Rightarrow> d)"

lemma init_abc:
  assumes "number (primary u) = 3" "backup u = Some g" "number g = 1"
  shows "ngx_http_upstream_init_ip_hash_peer (\<lambda>k. True) True a u = Some (init_abc a u)"
  using assms by (simp add: init_abc_def ngx_http_upstream_init_ip_hash_peer_def ngx_http_upstream_init_round_robin_peer_def
    new_request_def Let_def)

text \<open>Two clients of one /24 network, the second when two connections are open.\<close>

lemma ip_hash_sticky_witness:
  "let d = init_abc (Inet [192, 0, 2, 1]) up_abc; e = init_abc (Inet [192, 0, 2, 77]) (up run_lc) in
   \<exists>u' d' v' e' i. ngx_http_upstream_get_ip_hash_peer 7 up_abc d = Some (u', d', NGX_OK)
    \<and> ngx_http_upstream_get_ip_hash_peer 200 (up run_lc) e = Some (v', e', NGX_OK)
    \<and> rr_current (ip_rrp d') = Some (False, i) \<and> rr_current (ip_rrp e') = Some (False, i)"
proof -
  define d where "d = init_abc (Inet [192, 0, 2, 1]) up_abc"
  define e where "e = init_abc (Inet [192, 0, 2, 77]) (up run_lc)"
  have gu: "groups_ok up_abc" using fresh_init[OF up_abc server_abc_ok] by (simp add: fresh_def)
  have gv: "groups_ok (up run_lc)" and sh: "shape (up run_lc) = shape up_abc"
    using run_lc by (auto simp: rr_run_inv_def rr_inv_def rr_ok_def)
  have n: "\<not> single (primary up_abc) \<and> number (primary up_abc) = 3 \<and> number (primary (up run_lc)) = 3
      \<and> (case backup up_abc of None \<Rightarrow> False | Some g \<Rightarrow> number g = 1)
      \<and> (case backup (up run_lc) of None \<Rightarrow> False | Some g \<Rightarrow> number g = 1)" by code_simp
  then obtain g h where b: "backup up_abc = Some g" "number g = 1" "backup (up run_lc) = Some h" "number h = 1"
    by (auto split: option.splits)
  have "list_all (\<lambda>r. fixed (peer_at (up run_lc) r) = fixed (peer_at up_abc r)) [(False, 0), (False, 1), (False, 2), (True, 0)]"
    by code_simp
  moreover have "r \<in> set [(False, 0), (False, 1), (False, 2), (True, 0)]" if "valid_ref up_abc r" for r
    using that n b by (cases r; cases "fst r") (auto simp: valid_ref_def has_group_def group_of_def)
  ultimately have same: "same_peers up_abc (up run_lc)" unfolding same_peers_def list_all_iff using sh by blast
  have fit: "weights_fit (primary up_abc)" "total_weight (primary (up run_lc)) = total_weight (primary up_abc)"
    by code_simp+
  have di: "ngx_http_upstream_init_ip_hash_peer (\<lambda>k. True) True (Inet [192, 0, 2, 1]) up_abc = Some d"
    unfolding d_def using n by (intro init_abc[OF _ b(1,2)]) auto
  have ei: "ngx_http_upstream_init_ip_hash_peer (\<lambda>k. True) True (Inet [192, 0, 2, 77]) (up run_lc) = Some e"
    unfolding e_def using n by (intro init_abc[OF _ b(3,4)]) auto
  have a: "ip_hash_addr (Inet [192, 0, 2, 77]) = ip_hash_addr (Inet [192, 0, 2, 1])" by (simp add: ip_hash_addr_def)
  have skips: "list_all (\<lambda>i. rr_skip 200 (tried (ip_rrp e)) i (peer_at (up run_lc) (False, i))
      = rr_skip 7 (tried (ip_rrp d)) i (peer_at up_abc (False, i))) [0, 1, 2]"
    unfolding d_def e_def by code_simp
  have sk: "rr_skip 200 (tried (ip_rrp e)) i (peer_at (up run_lc) (False, i))
      = rr_skip 7 (tried (ip_rrp d)) i (peer_at up_abc (False, i))" if "i < number (primary up_abc)" for i
  proof -
    have "i = 0 \<or> i = 1 \<or> i = 2" using that n by linarith
    then show ?thesis using skips by (elim disjE) simp_all
  qed
  have "case ngx_http_upstream_get_ip_hash_peer 7 up_abc d of None \<Rightarrow> False | Some (u', d', rc) \<Rightarrow> ip_tries d' \<le> 20"
    unfolding d_def by code_simp
  with ip_hash_sticky[OF gu gv same _ fit di ei a sk] n show ?thesis
    unfolding Let_def d_def[symmetric] e_def[symmetric] by fastforce
qed

end
