(* ===== verification/Ngx_Http_Request.thy ===== *)
theory Ngx_Http_Request
  imports Ngx_Interfaces
begin

text \<open>
  The part of \<^verbatim>\<open>ngx_http_request_t\<close> that the parsers of \<^verbatim>\<open>src/http/ngx_http_parse.c\<close> read and
  write, their return codes, and the table and comparisons they share.

  A pointer into the header buffer is the index of the byte in the buffer's memory, which only
  grows while a request is parsed.  Pointers the code compares with \<^verbatim>\<open>NULL\<close> are options.  The field
  \<^verbatim>\<open>r->state\<close> is not in the record: every parser keeps its own enumeration in it, so it is a
  separate component of each parser's state.
\<close>

record http_request =
  request_method :: ngx_uint
  http_version :: ngx_uint
  http_protocol_data :: "nat option"
  complex_uri :: bool
  quoted_uri :: bool
  plus_in_uri :: bool
  space_in_uri :: bool
  invalid_header :: bool
  upstream :: bool
  header_hash :: ngx_uint
  lowcase_index :: nat
  lowcase_header :: bytes
  header_name_start :: nat
  header_name_end :: nat
  header_start :: nat
  header_end :: nat
  uri_start :: nat
  uri_end :: nat
  uri_ext :: "nat option"
  args_start :: "nat option"
  request_start :: nat
  request_end :: "nat option"
  method_end :: nat
  schema_start :: nat
  schema_end :: nat
  host_start :: nat
  host_end :: nat
  port_end :: nat
  http_minor :: uint16
  http_major :: uint16

definition NGX_HTTP_LC_HEADER_LEN :: nat where "NGX_HTTP_LC_HEADER_LEN = 32"

definition NGX_HTTP_UNKNOWN :: ngx_uint where "NGX_HTTP_UNKNOWN = 0x0001"
definition NGX_HTTP_GET :: ngx_uint where "NGX_HTTP_GET = 0x0002"
definition NGX_HTTP_HEAD :: ngx_uint where "NGX_HTTP_HEAD = 0x0004"
definition NGX_HTTP_POST :: ngx_uint where "NGX_HTTP_POST = 0x0008"
definition NGX_HTTP_PUT :: ngx_uint where "NGX_HTTP_PUT = 0x0010"
definition NGX_HTTP_DELETE :: ngx_uint where "NGX_HTTP_DELETE = 0x0020"
definition NGX_HTTP_MKCOL :: ngx_uint where "NGX_HTTP_MKCOL = 0x0040"
definition NGX_HTTP_COPY :: ngx_uint where "NGX_HTTP_COPY = 0x0080"
definition NGX_HTTP_MOVE :: ngx_uint where "NGX_HTTP_MOVE = 0x0100"
definition NGX_HTTP_OPTIONS :: ngx_uint where "NGX_HTTP_OPTIONS = 0x0200"
definition NGX_HTTP_PROPFIND :: ngx_uint where "NGX_HTTP_PROPFIND = 0x0400"
definition NGX_HTTP_PROPPATCH :: ngx_uint where "NGX_HTTP_PROPPATCH = 0x0800"
definition NGX_HTTP_LOCK :: ngx_uint where "NGX_HTTP_LOCK = 0x1000"
definition NGX_HTTP_UNLOCK :: ngx_uint where "NGX_HTTP_UNLOCK = 0x2000"
definition NGX_HTTP_PATCH :: ngx_uint where "NGX_HTTP_PATCH = 0x4000"
definition NGX_HTTP_TRACE :: ngx_uint where "NGX_HTTP_TRACE = 0x8000"

definition NGX_HTTP_PARSE_HEADER_DONE :: int where "NGX_HTTP_PARSE_HEADER_DONE = 1"
definition NGX_HTTP_PARSE_INVALID_METHOD :: int where "NGX_HTTP_PARSE_INVALID_METHOD = 10"
definition NGX_HTTP_PARSE_INVALID_REQUEST :: int where "NGX_HTTP_PARSE_INVALID_REQUEST = 11"
definition NGX_HTTP_PARSE_INVALID_09_METHOD :: int where "NGX_HTTP_PARSE_INVALID_09_METHOD = 12"
definition NGX_HTTP_PARSE_INVALID_HEADER :: int where "NGX_HTTP_PARSE_INVALID_HEADER = 13"

lemmas http_rc = NGX_OK_def NGX_ERROR_def NGX_AGAIN_def NGX_DONE_def NGX_DECLINED_def
  NGX_HTTP_PARSE_HEADER_DONE_def NGX_HTTP_PARSE_INVALID_METHOD_def NGX_HTTP_PARSE_INVALID_REQUEST_def
  NGX_HTTP_PARSE_INVALID_09_METHOD_def NGX_HTTP_PARSE_INVALID_HEADER_def

text \<open>The request as \<^verbatim>\<open>ngx_pcalloc\<close> and the start of a request leave it.\<close>

definition fresh_request :: http_request where
  "fresh_request = \<lparr>
     request_method = NGX_HTTP_UNKNOWN, http_version = 0, http_protocol_data = None,
     complex_uri = False, quoted_uri = False, plus_in_uri = False, space_in_uri = False,
     invalid_header = False, upstream = False,
     header_hash = 0, lowcase_index = 0, lowcase_header = replicate NGX_HTTP_LC_HEADER_LEN 0,
     header_name_start = 0, header_name_end = 0, header_start = 0, header_end = 0,
     uri_start = 0, uri_end = 0, uri_ext = None, args_start = None,
     request_start = 0, request_end = None, method_end = 0, schema_start = 0, schema_end = 0,
     host_start = 0, host_end = 0, port_end = 0, http_minor = 0, http_major = 0\<rparr>"

section \<open>The table of usual characters\<close>

definition usual :: "uint32 list" where
  "usual = [0xffffdbfe, 0x7fff37d6, 0xffffffff, 0xffffffff,
            0xffffffff, 0xffffffff, 0xffffffff, 0xffffffff]"

definition is_usual :: "u_char \<Rightarrow> bool" where
  "is_usual b = bitmap_bit usual b"

lemma is_usual_iff:
  "is_usual b \<longleftrightarrow> b \<notin> {0, LF, CR, ch CHR '' '', ch CHR ''#'', ch CHR ''%'', ch CHR ''+'', ch CHR ''.'',
                           ch CHR ''/'', ch CHR ''?''}"
  by (rule byte_exhaust)
    (simp add: byte_values_def is_usual_def bitmap_bit_def usual_def LF_def CR_def)

definition is_upper :: "u_char \<Rightarrow> bool" where
  "is_upper b \<longleftrightarrow> \<not> (b < ch CHR ''A'' \<or> b > ch CHR ''Z'')"

definition is_alpha :: "u_char \<Rightarrow> bool" where
  "is_alpha b \<longleftrightarrow> (let c = b OR 0x20 in ch CHR ''a'' \<le> c \<and> c \<le> ch CHR ''z'')"

definition is_dec :: "u_char \<Rightarrow> bool" where
  "is_dec b \<longleftrightarrow> ch CHR ''0'' \<le> b \<and> b \<le> ch CHR ''9''"

text \<open>The comparisons \<^verbatim>\<open>ngx_str3_cmp\<close> to \<^verbatim>\<open>ngx_str9cmp\<close>: the bytes from index \<open>m\<close> are \<open>cs\<close>.\<close>

definition str_cmp :: "bytes \<Rightarrow> nat \<Rightarrow> bytes \<Rightarrow> bool" where
  "str_cmp mem m cs \<longleftrightarrow> take (length cs) (drop m mem) = cs"

lemma str_cmp_local:
  assumes "take (Suc p) mem = take (Suc p) mem'" and "m + length cs \<le> Suc p"
  shows "str_cmp mem m cs = str_cmp mem' m cs"
proof -
  have "take (length cs) (drop m mem) = take (length cs) (drop m mem')"
    using take_eq_mono [OF assms] by (simp add: take_drop add.commute)
  then show ?thesis by (simp add: str_cmp_def)
qed

text \<open>The bytes from index \<open>a\<close> up to index \<open>b\<close>.\<close>

definition slice :: "bytes \<Rightarrow> nat \<Rightarrow> nat \<Rightarrow> bytes" where
  "slice mem a b = map ((!) mem) [a..<b]"

lemma slice_snoc: "a \<le> p \<Longrightarrow> slice mem a (Suc p) = slice mem a p @ [mem ! p]"
  by (simp add: slice_def)

lemma slice_self [simp]: "slice mem a a = []"
  by (simp add: slice_def)

lemma slice_one [simp]: "slice mem a (Suc a) = [mem ! a]"
  by (simp add: slice_def)

lemma length_slice [simp]: "length (slice mem a b) = b - a"
  by (simp add: slice_def)

lemma nth_slice [simp]: "k < b - a \<Longrightarrow> slice mem a b ! k = mem ! (a + k)"
  by (simp add: slice_def)

section \<open>Calls of a parser\<close>

text \<open>
  How an iteration leaves the loop: by a jump to the code after the loop, with what that code needs,
  or by returning an error code.
\<close>

datatype ('x, 'r) parse_exit = Done 'x | Fail int 'r

text \<open>What a call returns: the code, \<^verbatim>\<open>b->pos\<close>, \<^verbatim>\<open>r->state\<close> and the request.\<close>

record ('s, 'r) parse_result =
  rc :: int
  pos :: nat
  pstate :: 's
  preq :: 'r

text \<open>
  The frame of every parser: the loop, \<^verbatim>\<open>NGX_AGAIN\<close> with the state saved when the input runs out,
  the code at the labels after the loop, and an error return, which leaves \<^verbatim>\<open>b->pos\<close> and
  \<^verbatim>\<open>r->state\<close> as they were.
\<close>

definition run_parser ::
  "('s \<times> 'r \<Rightarrow> bytes \<Rightarrow> nat \<Rightarrow> ('s \<times> 'r, ('x, 'r) parse_exit) iteration)
   \<Rightarrow> ('x \<Rightarrow> nat \<Rightarrow> ('s, 'r) parse_result)
   \<Rightarrow> 's \<Rightarrow> 'r \<Rightarrow> bytes \<Rightarrow> nat \<Rightarrow> nat \<Rightarrow> ('s, 'r) parse_result"
where
  "run_parser step finish st r mem b_pos b_last =
     (case scan step (st, r) mem b_pos b_last of
        Inl ((st', r'), p) \<Rightarrow> \<lparr>rc = NGX_AGAIN, pos = p, pstate = st', preq = r'\<rparr>
      | Inr (Done x, p) \<Rightarrow> finish x p
      | Inr (Fail code r', p) \<Rightarrow> \<lparr>rc = code, pos = b_pos, pstate = st, preq = r'\<rparr>)"

text \<open>
  The calls made as input arrives in the pieces \<open>cs\<close>: after \<^verbatim>\<open>NGX_AGAIN\<close> the caller appends what it
  has read and calls again.
\<close>

fun feed ::
  "('s \<Rightarrow> 'r \<Rightarrow> bytes \<Rightarrow> nat \<Rightarrow> nat \<Rightarrow> ('s, 'r) parse_result)
   \<Rightarrow> 's \<Rightarrow> 'r \<Rightarrow> bytes \<Rightarrow> nat \<Rightarrow> bytes list \<Rightarrow> ('s, 'r) parse_result"
where
  "feed parse st r mem p [] = \<lparr>rc = NGX_AGAIN, pos = p, pstate = st, preq = r\<rparr>"
| "feed parse st r mem p (c # cs) =
     (let a = parse st r (mem @ c) p (length (mem @ c)) in
      if rc a = NGX_AGAIN then feed parse (pstate a) (preq a) (mem @ c) (pos a) cs else a)"

text \<open>The same answer: errors may differ in the position and state the failed call left alone.\<close>

definition same_answer :: "int set \<Rightarrow> ('s, 'r) parse_result \<Rightarrow> ('s, 'r) parse_result \<Rightarrow> bool" where
  "same_answer errors a b \<longleftrightarrow>
     rc a = rc b \<and> preq a = preq b \<and> (rc a \<notin> errors \<longrightarrow> pos a = pos b \<and> pstate a = pstate b)"

locale call_parser = resumable_parser step
  for step :: "'s \<times> 'r \<Rightarrow> bytes \<Rightarrow> nat \<Rightarrow> ('s \<times> 'r, ('x, 'r) parse_exit) iteration" +
  fixes finish :: "'x \<Rightarrow> nat \<Rightarrow> ('s, 'r) parse_result" and errors :: "int set"
  assumes finish_rc: "rc (finish x p) \<noteq> NGX_AGAIN"
    and fail_rc: "step s m p = Return (Fail code r) \<Longrightarrow> code \<in> errors"
    and errors_again: "NGX_AGAIN \<notin> errors"
begin

lemma scan_fail_rc: "scan step s m p lst = Inr (Fail code r, q) \<Longrightarrow> code \<in> errors"
proof (induction "lst - p" arbitrary: s p)
  case 0
  then show ?case by simp
next
  case (Suc n)
  then have "p < lst" by simp
  with Suc.prems consider "step s m p = Return (Fail code r)"
    | t where "step s m p = Next t" "scan step t m (Suc p) lst = Inr (Fail code r, q)"
    by (auto simp: scan.simps [of step s m p lst] split: iteration.splits)
  then show ?case
  proof cases
    case 1
    then show ?thesis by (rule fail_rc)
  next
    case 2
    with Suc \<open>p < lst\<close> show ?thesis by (metis Suc_diff_Suc diff_Suc_1)
  qed
qed

lemma run_parser_again_iff:
  "rc (run_parser step finish st r mem p lst) = NGX_AGAIN \<longleftrightarrow>
   (\<exists>s q. scan step (st, r) mem p lst = Inl (s, q))"
  using finish_rc errors_again scan_fail_rc
  by (fastforce simp: run_parser_def split: sum.splits parse_exit.splits)

lemma run_parser_split:
  assumes "p \<le> length mem"
  shows "same_answer errors
    (let a = run_parser step finish st r mem p (length mem) in
     if rc a = NGX_AGAIN
     then run_parser step finish (pstate a) (preq a) (mem @ c) (pos a) (length (mem @ c)) else a)
    (run_parser step finish st r (mem @ c) p (length (mem @ c)))"
proof (cases "scan step (st, r) mem p (length mem)")
  case (Inl x)
  obtain st' r' q where x: "x = ((st', r'), q)" by (metis prod.exhaust)
  have "scan step (st, r) (mem @ c) p (length (mem @ c)) = scan step (st', r') (mem @ c) q (length (mem @ c))"
    using scan_append [OF assms, of "(st, r)" c] Inl x by simp
  then show ?thesis
    using Inl x scan_fail_rc
    by (auto simp: run_parser_def same_answer_def split: sum.splits parse_exit.splits prod.splits)
next
  case (Inr x)
  obtain e q where x: "x = (e, q)" by (metis prod.exhaust)
  have *: "scan step (st, r) (mem @ c) p (length (mem @ c)) = Inr (e, q)"
    using scan_append [OF assms, of "(st, r)" c] Inr x by simp
  have "rc (run_parser step finish st r mem p (length mem)) \<noteq> NGX_AGAIN"
    using run_parser_again_iff [of st r mem p "length mem"] Inr by simp
  then show ?thesis
    using Inr x * by (simp add: run_parser_def same_answer_def)
qed

lemma same_answer_trans:
  "same_answer errors a b \<Longrightarrow> same_answer errors b c \<Longrightarrow> same_answer errors a c"
  by (auto simp: same_answer_def)

text \<open>However the input is cut into pieces, the calls together answer as one call on all of it.\<close>

lemma feed_eq_run:
  assumes "p \<le> length mem" and "cs \<noteq> []"
  shows "same_answer errors (feed (run_parser step finish) st r mem p cs)
    (run_parser step finish st r (mem @ concat cs) p (length (mem @ concat cs)))"
  using assms
proof (induction cs arbitrary: st r mem p)
  case (Cons c cs)
  let ?a = "run_parser step finish st r (mem @ c) p (length (mem @ c))"
  show ?case
  proof (cases "cs = []")
    case True
    then show ?thesis
      by (cases ?a) (auto simp: same_answer_def Let_def)
  next
    case False
    have p: "p \<le> length (mem @ c)" using Cons.prems by simp
    note split = run_parser_split [OF p, of st r "concat cs"]
    show ?thesis
    proof (cases "rc ?a = NGX_AGAIN")
      case True
      then obtain st' r' q where q: "scan step (st, r) (mem @ c) p (length (mem @ c)) = Inl ((st', r'), q)"
        using run_parser_again_iff [of st r "mem @ c" p "length (mem @ c)"] by fastforce
      then have "pos ?a \<le> length (mem @ c)"
        using scan_Inl_pos [OF q] p by (simp add: run_parser_def)
      from Cons.IH [OF this False, of "pstate ?a" "preq ?a"] split True show ?thesis
        by (auto simp: Let_def intro: same_answer_trans)
    next
      case again: False
      with split show ?thesis by (simp add: Let_def)
    qed
  qed
qed simp

end

end
