(* ===== verification/Ngx_Http_Uri.thy ===== *)
theory Ngx_Http_Uri
  imports Ngx_Http_Request
begin

text \<open>
  The URI parsers of \<^verbatim>\<open>src/http/ngx_http_parse.c\<close>: \<^verbatim>\<open>ngx_http_parse_uri\<close>, which finds out whether a URI
  needs more work, and \<^verbatim>\<open>ngx_http_parse_complex_uri\<close>, which decodes it, resolves its dot segments
  and merges its slashes.
\<close>

section \<open>The first look at a URI\<close>

datatype uri_state = ps_start | ps_after_slash_in_uri | ps_check_uri | ps_uri

type_synonym uri_iteration = "(uri_state \<times> http_request, http_request) iteration"

definition ps_step_after_slash :: "http_request \<Rightarrow> nat \<Rightarrow> u_char \<Rightarrow> uri_iteration" where
  "ps_step_after_slash r p b =
     (if is_usual b then Next (ps_check_uri, r)
      else if b = ch CHR '' '' then Next (ps_check_uri, r\<lparr>space_in_uri := True\<rparr>)
      else if b = ch CHR ''.'' then Next (ps_uri, r\<lparr>complex_uri := True\<rparr>)
      else if b = ch CHR ''%'' then Next (ps_uri, r\<lparr>quoted_uri := True\<rparr>)
      else if b = ch CHR ''/'' then Next (ps_uri, r\<lparr>complex_uri := True\<rparr>)
      else if b = ch CHR ''?'' then Next (ps_uri, r\<lparr>args_start := Some (p + 1)\<rparr>)
      else if b = ch CHR ''#'' then Next (ps_uri, r\<lparr>complex_uri := True\<rparr>)
      else if b = ch CHR ''+'' then Next (ps_after_slash_in_uri, r\<lparr>plus_in_uri := True\<rparr>)
      else Next (ps_check_uri, r))"

definition ps_step_check :: "http_request \<Rightarrow> nat \<Rightarrow> u_char \<Rightarrow> uri_iteration" where
  "ps_step_check r p b =
     (if is_usual b then Next (ps_check_uri, r)
      else if b = ch CHR ''/'' then Next (ps_after_slash_in_uri, r\<lparr>uri_ext := None\<rparr>)
      else if b = ch CHR ''.'' then Next (ps_check_uri, r\<lparr>uri_ext := Some (p + 1)\<rparr>)
      else if b = ch CHR '' '' then Next (ps_check_uri, r\<lparr>space_in_uri := True\<rparr>)
      else if b = ch CHR ''%'' then Next (ps_uri, r\<lparr>quoted_uri := True\<rparr>)
      else if b = ch CHR ''?'' then Next (ps_uri, r\<lparr>args_start := Some (p + 1)\<rparr>)
      else if b = ch CHR ''#'' then Next (ps_uri, r\<lparr>complex_uri := True\<rparr>)
      else if b = ch CHR ''+'' then Next (ps_check_uri, r\<lparr>plus_in_uri := True\<rparr>)
      else Next (ps_check_uri, r))"

definition ps_step_uri :: "http_request \<Rightarrow> u_char \<Rightarrow> uri_iteration" where
  "ps_step_uri r b =
     (if is_usual b then Next (ps_uri, r)
      else if b = ch CHR '' '' then Next (ps_uri, r\<lparr>space_in_uri := True\<rparr>)
      else if b = ch CHR ''#'' then Next (ps_uri, r\<lparr>complex_uri := True\<rparr>)
      else Next (ps_uri, r))"

definition ps_step :: "uri_state \<times> http_request \<Rightarrow> bytes \<Rightarrow> nat \<Rightarrow> uri_iteration" where
  "ps_step s mem p =
     (let r = snd s; b = mem ! p in
      case fst s of
        ps_start \<Rightarrow> (if b \<noteq> ch CHR ''/'' then Return r else Next (ps_after_slash_in_uri, r))
      | ps_after_slash_in_uri \<Rightarrow> ps_step_after_slash r p b
      | ps_check_uri \<Rightarrow> ps_step_check r p b
      | ps_uri \<Rightarrow> ps_step_uri r b)"

definition ngx_http_parse_uri :: "bytes \<Rightarrow> http_request \<Rightarrow> int \<times> http_request" where
  "ngx_http_parse_uri mem r =
     (case scan ps_step (ps_start, r) mem (uri_start r) (uri_end r) of
        Inl ((st, r'), p) \<Rightarrow> (NGX_OK, r')
      | Inr (r', p) \<Rightarrow> (NGX_ERROR, r'))"

section \<open>The normalisation of a URI\<close>

text \<open>The states in which a byte is taken as it is; one of them is kept while an escape is read.\<close>

datatype cx_plain = cx_usual | cx_slash | cx_dot | cx_dot_dot
datatype cx_state = Plain cx_plain | cx_quoted | cx_quoted_second

text \<open>
  The locals of the loop.  \<open>cx_out\<close> is the part of \<^verbatim>\<open>r->uri.data\<close> before \<^verbatim>\<open>u\<close>, and \<open>cx_uri_ext\<close> is
  \<^verbatim>\<open>r->uri_ext\<close>, which here points into that buffer.
\<close>

record cx =
  cx_state :: cx_state
  cx_quoted_state :: cx_plain
  cx_decoded :: u_char
  cx_ch :: u_char
  cx_p :: nat
  cx_out :: bytes
  cx_uri_ext :: "nat option"
  cx_req :: http_request

datatype cx_next = Cx_loop cx | Cx_args cx | Cx_done cx | Cx_invalid cx

text \<open>\<^verbatim>\<open>ch = *p++\<close>, \<^verbatim>\<open>*u++ = ch\<close> and the start of an escape.\<close>

definition cx_advance :: "bytes \<Rightarrow> cx \<Rightarrow> cx" where
  "cx_advance mem s = s\<lparr>cx_ch := mem ! cx_p s, cx_p := cx_p s + 1\<rparr>"

definition cx_put :: "u_char \<Rightarrow> cx \<Rightarrow> cx" where
  "cx_put b s = s\<lparr>cx_out := cx_out s @ [b]\<rparr>"

definition cx_quote :: "cx_plain \<Rightarrow> cx \<Rightarrow> cx" where
  "cx_quote st s = s\<lparr>cx_quoted_state := st, cx_state := cx_quoted\<rparr>"

definition cx_args :: "cx \<Rightarrow> cx_next" where
  "cx_args s = Cx_args (s\<lparr>cx_req := (cx_req s)\<lparr>args_start := Some (cx_p s)\<rparr>\<rparr>)"

definition cx_plus :: "u_char \<Rightarrow> cx \<Rightarrow> cx" where
  "cx_plus b s = (if b = ch CHR ''+'' then s\<lparr>cx_req := (cx_req s)\<lparr>plus_in_uri := True\<rparr>\<rparr> else s)"

definition cx_step_usual :: "bytes \<Rightarrow> cx \<Rightarrow> cx_next" where
  "cx_step_usual mem s =
     (let b = cx_ch s in
      if is_usual b then Cx_loop (cx_advance mem (cx_put b s))
      else if b = ch CHR ''/'' then
        Cx_loop (cx_advance mem (cx_put b (s\<lparr>cx_uri_ext := None, cx_state := Plain cx_slash\<rparr>)))
      else if b = ch CHR ''%'' then Cx_loop (cx_advance mem (cx_quote cx_usual s))
      else if b = ch CHR ''?'' then cx_args s
      else if b = ch CHR ''#'' then Cx_done s
      else if b = ch CHR ''.'' then
        Cx_loop (cx_advance mem (cx_put b (s\<lparr>cx_uri_ext := Some (length (cx_out s) + 1)\<rparr>)))
      else Cx_loop (cx_advance mem (cx_put b (cx_plus b s))))"

definition cx_step_slash :: "bool \<Rightarrow> bytes \<Rightarrow> cx \<Rightarrow> cx_next" where
  "cx_step_slash merge_slashes mem s =
     (let b = cx_ch s in
      if is_usual b then Cx_loop (cx_advance mem (cx_put b (s\<lparr>cx_state := Plain cx_usual\<rparr>)))
      else if b = ch CHR ''/'' then Cx_loop (cx_advance mem (if merge_slashes then s else cx_put b s))
      else if b = ch CHR ''.'' then Cx_loop (cx_advance mem (cx_put b (s\<lparr>cx_state := Plain cx_dot\<rparr>)))
      else if b = ch CHR ''%'' then Cx_loop (cx_advance mem (cx_quote cx_slash s))
      else if b = ch CHR ''?'' then cx_args s
      else if b = ch CHR ''#'' then Cx_done s
      else Cx_loop (cx_advance mem (cx_put b ((cx_plus b s)\<lparr>cx_state := Plain cx_usual\<rparr>))))"

definition cx_step_dot :: "bytes \<Rightarrow> cx \<Rightarrow> cx_next" where
  "cx_step_dot mem s =
     (let b = cx_ch s in
      if is_usual b then Cx_loop (cx_advance mem (cx_put b (s\<lparr>cx_state := Plain cx_usual\<rparr>)))
      else if b = ch CHR ''/'' then
        Cx_loop (cx_advance mem (s\<lparr>cx_state := Plain cx_slash, cx_out := butlast (cx_out s)\<rparr>))
      else if b = ch CHR ''.'' then Cx_loop (cx_advance mem (cx_put b (s\<lparr>cx_state := Plain cx_dot_dot\<rparr>)))
      else if b = ch CHR ''%'' then Cx_loop (cx_advance mem (cx_quote cx_dot s))
      else if b = ch CHR ''?'' then cx_args s
      else if b = ch CHR ''#'' then Cx_done s
      else Cx_loop (cx_advance mem (cx_put b ((cx_plus b s)\<lparr>cx_state := Plain cx_usual\<rparr>))))"

text \<open>The inner loop: back to the slash before the directory, from index \<open>k - 1\<close> down.\<close>

fun cx_up :: "bytes \<Rightarrow> nat \<Rightarrow> bytes option" where
  "cx_up out 0 = None"
| "cx_up out (Suc k) = (if out ! k = ch CHR ''/'' then Some (take (Suc k) out) else cx_up out k)"

definition cx_step_dot_dot :: "bytes \<Rightarrow> cx \<Rightarrow> cx_next" where
  "cx_step_dot_dot mem s =
     (let b = cx_ch s in
      if is_usual b then Cx_loop (cx_advance mem (cx_put b (s\<lparr>cx_state := Plain cx_usual\<rparr>)))
      else if b = ch CHR ''/'' then
        (case cx_up (cx_out s) (length (cx_out s) - 4) of
           None \<Rightarrow> Cx_invalid (s\<lparr>cx_state := Plain cx_slash\<rparr>)
         | Some out \<Rightarrow> Cx_loop (cx_advance mem (s\<lparr>cx_state := Plain cx_slash, cx_out := out\<rparr>)))
      else if b = ch CHR ''%'' then Cx_loop (cx_advance mem (cx_quote cx_dot_dot s))
      else if b = ch CHR ''?'' then cx_args s
      else if b = ch CHR ''#'' then Cx_done s
      else Cx_loop (cx_advance mem (cx_put b ((cx_plus b s)\<lparr>cx_state := Plain cx_usual\<rparr>))))"

definition cx_step_quoted :: "bytes \<Rightarrow> cx \<Rightarrow> cx_next" where
  "cx_step_quoted mem s =
     (let b = cx_ch s; c = b OR 0x20; s = s\<lparr>cx_req := (cx_req s)\<lparr>quoted_uri := True\<rparr>\<rparr> in
      if is_dec b then
        Cx_loop (cx_advance mem (s\<lparr>cx_decoded := b - 0x30, cx_state := cx_quoted_second\<rparr>))
      else if ch CHR ''a'' \<le> c \<and> c \<le> ch CHR ''f'' then
        Cx_loop (cx_advance mem (s\<lparr>cx_decoded := c - 0x61 + 10, cx_state := cx_quoted_second\<rparr>))
      else Cx_invalid s)"

definition cx_step_quoted_second :: "bytes \<Rightarrow> cx \<Rightarrow> cx_next" where
  "cx_step_quoted_second mem s =
     (let b = cx_ch s; c = b OR 0x20 in
      if is_dec b then
        (let v = push_bit 4 (cx_decoded s) + b - 0x30; s = s\<lparr>cx_ch := v\<rparr> in
         if v = ch CHR ''%'' \<or> v = ch CHR ''#'' then
           Cx_loop (cx_advance mem (cx_put v (s\<lparr>cx_state := Plain cx_usual\<rparr>)))
         else if v = 0 then Cx_invalid s
         else Cx_loop (s\<lparr>cx_state := Plain (cx_quoted_state s)\<rparr>))
      else if ch CHR ''a'' \<le> c \<and> c \<le> ch CHR ''f'' then
        (let v = push_bit 4 (cx_decoded s) + c - 0x61 + 10; s = s\<lparr>cx_ch := v\<rparr> in
         if v = ch CHR ''?'' then Cx_loop (cx_advance mem (cx_put v (s\<lparr>cx_state := Plain cx_usual\<rparr>)))
         else Cx_loop ((cx_plus v s)\<lparr>cx_state := Plain (cx_quoted_state s)\<rparr>))
      else Cx_invalid s)"

definition cx_step :: "bool \<Rightarrow> bytes \<Rightarrow> cx \<Rightarrow> cx_next" where
  "cx_step merge_slashes mem s =
     (case cx_state s of
        Plain cx_usual \<Rightarrow> cx_step_usual mem s
      | Plain cx_slash \<Rightarrow> cx_step_slash merge_slashes mem s
      | Plain cx_dot \<Rightarrow> cx_step_dot mem s
      | Plain cx_dot_dot \<Rightarrow> cx_step_dot_dot mem s
      | cx_quoted \<Rightarrow> cx_step_quoted mem s
      | cx_quoted_second \<Rightarrow> cx_step_quoted_second mem s)"

lemmas cx_moves = cx_advance_def cx_put_def cx_quote_def cx_args_def cx_plus_def
lemmas cx_step_defs = cx_step_usual_def cx_step_slash_def cx_step_dot_def cx_step_dot_dot_def
  cx_step_quoted_def cx_step_quoted_second_def

text \<open>Every turn of the loop reads a byte, except the one that completes an escape.\<close>

lemma cx_step_progress:
  assumes "cx_step merge_slashes mem s = Cx_loop s'"
  shows "cx_p s' = Suc (cx_p s) \<or> cx_p s' = cx_p s \<and> cx_state s = cx_quoted_second \<and> cx_state s' \<noteq> cx_quoted_second"
  using assms
  by (auto simp: cx_step_def cx_step_defs cx_moves Let_def
      split: cx_state.splits cx_plain.splits if_splits option.splits)

function cx_loop :: "bool \<Rightarrow> bytes \<Rightarrow> nat \<Rightarrow> cx \<Rightarrow> cx_next" where
  "cx_loop merge_slashes mem last_p s =
     (if cx_p s \<le> last_p then
        case cx_step merge_slashes mem s of
          Cx_loop s' \<Rightarrow> cx_loop merge_slashes mem last_p s'
        | x \<Rightarrow> x
      else Cx_done s)"
  by pat_completeness auto
termination
proof (relation "measure (\<lambda>(m, mem, e, s). 2 * (Suc e - cx_p s) + (if cx_state s = cx_quoted_second then 1 else 0))",
    goal_cases)
  case 1
  then show ?case by simp
next
  case (2 merge_slashes mem last_p s s')
  from cx_step_progress [OF 2(2)] 2(1) show ?case by auto
qed

declare cx_loop.simps [simp del]

text \<open>The loop after the label \<^verbatim>\<open>args\<close>: the arguments end at a \<open>#\<close>, if there is one.\<close>

function cx_args_loop :: "bytes \<Rightarrow> nat \<Rightarrow> nat \<Rightarrow> nat option" where
  "cx_args_loop mem p e =
     (if p < e then (if mem ! p = ch CHR ''#'' then Some p else cx_args_loop mem (p + 1) e) else None)"
  by pat_completeness auto
termination by (relation "measure (\<lambda>(mem, p, e). e - p)") auto

record complex_result =
  cu_rc :: int
  cu_uri :: bytes
  cu_exten :: "bytes option"
  cu_args :: "(nat \<times> nat) option"
  cu_req :: http_request

definition cx_finish :: "cx \<Rightarrow> (nat \<times> nat) option \<Rightarrow> complex_result" where
  "cx_finish s args =
     \<lparr>cu_rc = NGX_OK, cu_uri = cx_out s, cu_exten = map_option (\<lambda>e. drop e (cx_out s)) (cx_uri_ext s),
      cu_args = args, cu_req = (cx_req s)\<lparr>uri_ext := None\<rparr>\<rparr>"

definition ngx_http_parse_complex_uri :: "bool \<Rightarrow> bytes \<Rightarrow> http_request \<Rightarrow> complex_result" where
  "ngx_http_parse_complex_uri merge_slashes mem r =
     (let s = \<lparr>cx_state = Plain cx_usual, cx_quoted_state = cx_usual, cx_decoded = 0,
               cx_ch = mem ! uri_start r, cx_p = uri_start r + 1, cx_out = [], cx_uri_ext = None,
               cx_req = r\<lparr>uri_ext := None, args_start := None\<rparr>\<rparr>
      in case cx_loop merge_slashes mem (uri_end r) s of
        Cx_args s' \<Rightarrow>
          (case cx_args_loop mem (cx_p s') (uri_end r) of
             Some q \<Rightarrow> cx_finish (s'\<lparr>cx_req := (cx_req s')\<lparr>args_start := None\<rparr>\<rparr>) (Some (cx_p s', q - cx_p s'))
           | None \<Rightarrow> cx_finish s' None)
      | Cx_done s' \<Rightarrow> cx_finish s' None
      | Cx_invalid s' \<Rightarrow>
          \<lparr>cu_rc = NGX_HTTP_PARSE_INVALID_REQUEST, cu_uri = cx_out s', cu_exten = None, cu_args = None,
           cu_req = cx_req s'\<rparr>
      | Cx_loop s' \<Rightarrow> cx_finish s' None)"

section \<open>The reference\<close>

definition hex_val :: "u_char \<Rightarrow> u_char option" where
  "hex_val b =
     (if is_dec b then Some (b - 0x30)
      else let c = b OR 0x20 in
        if ch CHR ''a'' \<le> c \<and> c \<le> ch CHR ''f'' then Some (c - 0x61 + 10) else None)"

text \<open>
  The path of a URI with its escapes decoded, up to the arguments or the fragment.  An escape cut off by the
  end of the URI is dropped; any other wrong escape, and an escaped NUL, make the URI invalid.
\<close>

fun unquote :: "bytes \<Rightarrow> bytes option" where
  "unquote [] = Some []"
| "unquote (b # bs) =
     (if b = ch CHR ''%'' then
        (case bs of
           [] \<Rightarrow> Some []
         | x # ys \<Rightarrow>
             (case hex_val x of
                None \<Rightarrow> None
              | Some h \<Rightarrow>
                  (case ys of
                     [] \<Rightarrow> Some []
                   | y # zs \<Rightarrow>
                       (case hex_val y of
                          None \<Rightarrow> None
                        | Some l \<Rightarrow>
                            let v = push_bit 4 h + l in
                            if v = 0 then None else map_option ((#) v) (unquote zs)))))
      else if b = ch CHR ''?'' \<or> b = ch CHR ''#'' then Some []
      else map_option ((#) b) (unquote bs))"

text \<open>
  The path cut at its slashes, and its segments taken one by one onto a stack; the last one is kept as it
  is.  Without merging, empty segments are kept, and going up over an empty segment takes the one
  before it too.
\<close>

fun segments :: "bytes \<Rightarrow> bytes list" where
  "segments [] = [[]]"
| "segments (b # bs) =
     (if b = ch CHR ''/'' then [] # segments bs
      else case segments bs of s # ss \<Rightarrow> (b # s) # ss | [] \<Rightarrow> [])"

fun go_up :: "bytes list \<Rightarrow> bytes list option" where
  "go_up [] = None"
| "go_up (x # st) = (if x = [] then (case st of [] \<Rightarrow> None | _ # st' \<Rightarrow> Some st') else Some st)"

definition dot_seg :: bytes where "dot_seg = chars ''.''"
definition dot_dot_seg :: bytes where "dot_dot_seg = chars ''..''"

fun resolve :: "bool \<Rightarrow> bytes list \<Rightarrow> bytes list \<Rightarrow> bytes list option" where
  "resolve merge st [] = Some (rev st)"
| "resolve merge st [x] = Some (rev (x # st))"
| "resolve merge st (x # y # ys) =
     (if x = [] then resolve merge (if merge then st else [] # st) (y # ys)
      else if x = dot_seg then resolve merge st (y # ys)
      else if x = dot_dot_seg then Option.bind (go_up st) (\<lambda>st'. resolve merge st' (y # ys))
      else resolve merge (x # st) (y # ys))"

definition path_of :: "bytes list \<Rightarrow> bytes" where
  "path_of ss = concat (map ((#) (ch CHR ''/'')) ss)"

definition normal_path :: "bool \<Rightarrow> bytes \<Rightarrow> bytes option" where
  "normal_path merge path = map_option path_of (resolve merge [] (segments path))"

text \<open>The same a byte at a time: the stack and the segment being read.\<close>

definition walk_step :: "bool \<Rightarrow> bytes list \<times> bytes \<Rightarrow> u_char \<Rightarrow> (bytes list \<times> bytes) option" where
  "walk_step merge w b =
     (let (st, cur) = w in
      if b = ch CHR ''/'' then
        (if cur = [] then Some (if merge then st else [] # st, [])
         else if cur = dot_seg then Some (st, [])
         else if cur = dot_dot_seg then map_option (\<lambda>st'. (st', [])) (go_up st)
         else Some (cur # st, []))
      else Some (st, cur @ [b]))"

fun walk :: "bool \<Rightarrow> bytes list \<times> bytes \<Rightarrow> bytes \<Rightarrow> (bytes list \<times> bytes) option" where
  "walk merge w [] = Some w"
| "walk merge w (b # bs) = Option.bind (walk_step merge w b) (\<lambda>w'. walk merge w' bs)"

lemma segments_not_Nil [simp]: "segments bs \<noteq> []"
  by (induction bs) (auto split: list.split)

lemma walk_resolve:
  "walk merge (st, cur) bs = Some w' \<longleftrightarrow>
     (\<exists>st' cur'. w' = (st', cur') \<and> walk merge (st, cur) bs = Some (st', cur'))"
  by (cases w') auto

lemma resolve_walk:
  "resolve merge st (case segments bs of s # ss \<Rightarrow> (cur @ s) # ss | [] \<Rightarrow> []) =
     map_option (\<lambda>(st', cur'). rev (cur' # st')) (walk merge (st, cur) bs)"
proof (induction bs arbitrary: st cur)
  case Nil
  then show ?case by simp
next
  case (Cons b bs)
  obtain s ss where seg: "segments bs = s # ss" by (cases "segments bs") auto
  show ?case
  proof (cases "b = ch CHR ''/''")
    case True
    have "resolve merge st' (s # ss) = map_option (\<lambda>(st', cur'). rev (cur' # st')) (walk merge (st', []) bs)" for st'
      using Cons [of st' "[]"] seg by simp
    with True seg show ?thesis
      by (cases "go_up st") (auto simp: walk_step_def)
  next
    case False
    with Cons [of st "cur @ [b]"] seg show ?thesis by (simp add: walk_step_def)
  qed
qed

lemma normal_path_walk:
  "normal_path merge path =
     map_option (\<lambda>(st, cur). path_of (rev st) @ ch CHR ''/'' # cur) (walk merge ([], []) path)"
proof -
  obtain s ss where seg: "segments path = s # ss" by (cases "segments path") auto
  then have "resolve merge [] (segments path) =
      map_option (\<lambda>(st', cur'). rev (cur' # st')) (walk merge ([], []) path)"
    using resolve_walk [where st = "[]" and bs = path and cur = "[]"] by (simp only: list.case append_Nil)
  then show ?thesis
    by (cases "walk merge ([], []) path") (auto simp: normal_path_def path_of_def)
qed

section \<open>The normalisation does what the reference does\<close>

lemma cx_up_found:
  "ch CHR ''/'' \<notin> set x \<Longrightarrow>
   cx_up (pre @ ch CHR ''/'' # x @ suf) (length pre + 1 + length x) = Some (pre @ [ch CHR ''/''])"
proof (induction x arbitrary: suf rule: rev_induct)
  case Nil
  then show ?case by (simp add: nth_append)
next
  case (snoc b x)
  have "(pre @ ch CHR ''/'' # (x @ [b]) @ suf) ! (length pre + 1 + length x) = b"
    by (simp add: nth_append)
  moreover have "b \<noteq> ch CHR ''/''" using snoc.prems by auto
  moreover have "length pre + 1 + length (x @ [b]) = Suc (length pre + 1 + length x)" by simp
  ultimately have "cx_up (pre @ ch CHR ''/'' # (x @ [b]) @ suf) (length pre + 1 + length (x @ [b]))
      = cx_up (pre @ ch CHR ''/'' # x @ (b # suf)) (length pre + 1 + length x)" by simp
  also have "\<dots> = Some (pre @ [ch CHR ''/''])" using snoc.IH [of "b # suf"] snoc.prems by simp
  finally show ?case .
qed

text \<open>How the state of the machine tells the segment being read.\<close>

fun cur_ok :: "cx_plain \<Rightarrow> bytes \<Rightarrow> bool" where
  "cur_ok cx_slash cur = (cur = [])"
| "cur_ok cx_dot cur = (cur = dot_seg)"
| "cur_ok cx_dot_dot cur = (cur = dot_dot_seg)"
| "cur_ok cx_usual cur = (cur \<notin> {[], dot_seg, dot_dot_seg})"

definition no_slash :: "bytes \<Rightarrow> bool" where
  "no_slash x \<longleftrightarrow> ch CHR ''/'' \<notin> set x"

definition cx_matches :: "bool \<Rightarrow> cx \<Rightarrow> cx_plain \<Rightarrow> bytes list \<Rightarrow> bytes \<Rightarrow> bool" where
  "cx_matches merge s st stack cur \<longleftrightarrow>
     cx_state s = Plain st \<and> cx_out s = path_of (rev stack) @ ch CHR ''/'' # cur \<and> cur_ok st cur
     \<and> list_all no_slash (cur # stack)"

lemma path_of_simps [simp]: "path_of [] = []" "path_of (xs @ ys) = path_of xs @ path_of ys"
  "path_of (x # xs) = ch CHR ''/'' # x @ path_of xs"
  by (simp_all add: path_of_def)

lemma segs_neq [simp]: "dot_seg \<noteq> []" "dot_dot_seg \<noteq> []" "dot_seg \<noteq> dot_dot_seg" "dot_dot_seg \<noteq> dot_seg"
  by (simp_all add: dot_seg_def dot_dot_seg_def chars_def)

lemma segs_no_slash [simp]: "47 \<notin> set dot_seg" "47 \<notin> set dot_dot_seg"
  by (simp_all add: dot_seg_def dot_dot_seg_def chars_def)

lemma cur_ok_snoc:
  assumes "cur_ok st cur" and "b \<noteq> ch CHR ''.'' \<or> st = cx_usual \<or> st = cx_dot_dot"
  shows "cur_ok cx_usual (cur @ [b])"
  using assms by (cases st) (auto simp: dot_seg_def dot_dot_seg_def chars_def Cons_eq_append_conv append_eq_Cons_conv)

lemma cur_ok_dot: "dot_seg @ [ch CHR ''.''] = dot_dot_seg" "[ch CHR ''.''] = dot_seg"
  by (simp_all add: dot_seg_def dot_dot_seg_def chars_def)

lemma go_up_cx_up:
  assumes "list_all no_slash stack"
  shows "cx_up (path_of (rev stack) @ ch CHR ''/'' # dot_dot_seg)
      (length (path_of (rev stack) @ ch CHR ''/'' # dot_dot_seg) - 4) =
    map_option (\<lambda>st. path_of (rev st) @ [ch CHR ''/'']) (go_up stack)"
proof (cases stack)
  case Nil
  then show ?thesis by (simp add: dot_dot_seg_def chars_def)
next
  case (Cons x st)
  note stack = this
  show ?thesis
  proof (cases "x = []")
    case False
    then obtain y b where x: "x = y @ [b]" by (cases x rule: rev_cases) auto
    have "ch CHR ''/'' \<notin> set y" using assms stack x by (simp add: no_slash_def)
    from cx_up_found [OF this, of "path_of (rev st)" "b # ch CHR ''/'' # dot_dot_seg"]
    show ?thesis using stack x False by (simp add: dot_dot_seg_def chars_def)
  next
    case True
    show ?thesis
    proof (cases st)
      case Nil
      with stack True show ?thesis by (simp add: dot_dot_seg_def chars_def)
    next
      case (Cons z st')
      have "ch CHR ''/'' \<notin> set z" using assms stack Cons by (simp add: no_slash_def)
      from cx_up_found [OF this, of "path_of (rev st')" "ch CHR ''/'' # ch CHR ''/'' # dot_dot_seg"]
      show ?thesis using stack True Cons by (simp add: dot_dot_seg_def chars_def)
    qed
  qed
qed

lemma go_up_no_slash: "go_up stack = Some st \<Longrightarrow> list_all no_slash stack \<Longrightarrow> list_all no_slash st"
  by (cases stack) (auto split: if_splits list.splits)

text \<open>One byte that is not the start of an escape, of the arguments or of a fragment.\<close>

lemma is_usual_special [simp]: "\<not> is_usual 37" "\<not> is_usual 63" "\<not> is_usual 35" "\<not> is_usual 47" "\<not> is_usual 46"
  by (simp_all add: is_usual_iff)

definition plain_to :: "bool \<Rightarrow> bytes \<Rightarrow> cx \<Rightarrow> cx_next \<Rightarrow> bytes list \<Rightarrow> bytes \<Rightarrow> bool" where
  "plain_to merge mem s n stack cur \<longleftrightarrow>
     (\<exists>s' st. n = Cx_loop s' \<and> cx_matches merge s' st stack cur \<and> cx_p s' = Suc (cx_p s)
       \<and> cx_ch s' = mem ! cx_p s)"

lemma plain_step:
  assumes m: "cx_matches merge s st stack cur" and b: "cx_ch s \<notin> {ch CHR ''%'', ch CHR ''?'', ch CHR ''#''}"
  shows "case walk_step merge (stack, cur) (cx_ch s) of
      None \<Rightarrow> \<exists>s'. cx_step merge mem s = Cx_invalid s'
    | Some (stack', cur') \<Rightarrow> plain_to merge mem s (cx_step merge mem s) stack' cur'"
proof -
  note [simp] = cx_matches_def plain_to_def walk_step_def cx_step_def cx_moves Let_def no_slash_def
  consider (slash) "cx_ch s = ch CHR ''/''" | (dot) "cx_ch s = ch CHR ''.''"
    | (other) "cx_ch s \<noteq> ch CHR ''/''" "cx_ch s \<noteq> ch CHR ''.''" by blast
  then show ?thesis
  proof cases
    case slash
    show ?thesis
    proof (cases st)
      case cx_usual
      with m slash show ?thesis by (auto simp: cx_step_usual_def)
    next
      case cx_slash
      with m slash show ?thesis by (auto simp: cx_step_slash_def)
    next
      case cx_dot
      with m slash show ?thesis by (auto simp: cx_step_dot_def butlast_append dot_seg_def chars_def)
    next
      case cx_dot_dot
      with m have stack: "list_all no_slash stack" by simp
      have out: "cx_out s = path_of (rev stack) @ ch CHR ''/'' # dot_dot_seg" using m cx_dot_dot by simp
      note up = go_up_cx_up [OF stack, folded out]
      show ?thesis
      proof (cases "go_up stack")
        case None
        with m slash cx_dot_dot up show ?thesis by (simp add: cx_step_dot_dot_def)
      next
        case (Some st')
        with m slash cx_dot_dot up go_up_no_slash [OF Some stack] show ?thesis
          by (simp add: cx_step_dot_dot_def)
      qed
    qed
  next
    case dot
    show ?thesis
    proof (cases st)
      case cx_usual
      with m dot cur_ok_snoc [of st cur "ch CHR ''.''"] show ?thesis by (auto simp: cx_step_usual_def)
    next
      case cx_slash
      with m dot cur_ok_dot show ?thesis by (auto simp: cx_step_slash_def)
    next
      case cx_dot
      with m dot cur_ok_dot show ?thesis by (auto simp: cx_step_dot_def)
    next
      case cx_dot_dot
      with m dot cur_ok_snoc [of st cur "ch CHR ''.''"] show ?thesis by (auto simp: cx_step_dot_dot_def)
    qed
  next
    case other
    note snoc = cur_ok_snoc [of st cur "cx_ch s"]
    show ?thesis
      using m other b snoc
      by (cases st) (auto simp: cx_step_usual_def cx_step_slash_def cx_step_dot_def cx_step_dot_dot_def)
  qed
qed

text \<open>What the loop has still to read, and what it answers when that is decoded and resolved.\<close>

definition cx_todo :: "bytes \<Rightarrow> nat \<Rightarrow> cx \<Rightarrow> bytes" where
  "cx_todo mem e s = (if cx_p s \<le> e then cx_ch s # slice mem (cx_p s) e else [])"

definition cx_answers :: "cx_next \<Rightarrow> (bytes list \<times> bytes) option \<Rightarrow> bool" where
  "cx_answers n w \<longleftrightarrow>
     (case w of
        None \<Rightarrow> \<exists>s. n = Cx_invalid s
      | Some (stack, cur) \<Rightarrow> \<exists>s. (n = Cx_args s \<or> n = Cx_done s) \<and> cx_out s = path_of (rev stack) @ ch CHR ''/'' # cur)"

definition walk_from :: "bool \<Rightarrow> bytes list \<Rightarrow> bytes \<Rightarrow> bytes option \<Rightarrow> (bytes list \<times> bytes) option" where
  "walk_from merge stack cur eff = Option.bind eff (walk merge (stack, cur))"

lemma slice_unfold: "p < e \<Longrightarrow> slice mem p e = mem ! p # slice mem (Suc p) e"
  by (simp add: slice_def upt_conv_Cons)

lemma slice_empty [simp]: "e \<le> p \<Longrightarrow> slice mem p e = []"
  by (simp add: slice_def)

lemma todo_advance: "cx_p s = Suc p \<Longrightarrow> cx_ch s = mem ! p \<Longrightarrow> cx_todo mem e s = slice mem p e"
  by (auto simp: cx_todo_def slice_unfold)

lemma hex_val_cases:
  assumes "hex_val b = Some l"
  shows "(is_dec b \<and> l = b - 0x30 \<and> unat l < 10)
    \<or> (\<not> is_dec b \<and> ch CHR ''a'' \<le> b OR 0x20 \<and> b OR 0x20 \<le> ch CHR ''f'' \<and> l = (b OR 0x20) - 0x61 + 10
        \<and> 10 \<le> unat l \<and> unat l < 16)"
proof (cases "is_dec b")
  case True
  then have "0x30 \<le> b" "unat b \<le> 57" by (auto simp: is_dec_def word_le_nat_alt)
  then have "unat (b - 0x30) < 10" by (simp add: unat_sub)
  with True assms show ?thesis by (simp add: hex_val_def)
next
  case False
  let ?c = "b OR 0x20"
  from False assms have c: "0x61 \<le> ?c" "?c \<le> 0x66" and l: "l = ?c - 0x61 + 10"
    by (simp_all add: hex_val_def Let_def split: if_splits)
  have "unat ?c \<le> 102" "97 \<le> unat ?c" using c by (simp_all add: word_le_nat_alt)
  then have "unat (?c - 0x61 + 10) = unat ?c - 97 + 10" by (simp add: unat_sub word_le_nat_alt)
  with False c l \<open>unat ?c \<le> 102\<close> show ?thesis by simp
qed

lemma hex_byte:
  fixes h l :: u_char
  assumes "unat h < 16" and "unat l < 16"
  shows "unat (push_bit 4 h + l) = 16 * unat h + unat l"
proof -
  have "unat (push_bit 4 h) = 16 * unat h"
    using assms(1) by (simp add: push_bit_eq_mult unat_mult_lem [THEN iffD1] mult.commute)
  with assms show ?thesis by (simp add: unat_add_lem [THEN iffD1])
qed

text \<open>The two turns that read an escape.\<close>

lemma quoted_none: "cx_state s = cx_quoted \<Longrightarrow> hex_val (cx_ch s) = None \<Longrightarrow> \<exists>s'. cx_step merge mem s = Cx_invalid s'"
  by (auto simp: cx_step_def cx_step_quoted_def hex_val_def Let_def split: if_splits)

lemma quoted_some:
  assumes "cx_state s = cx_quoted" and "hex_val (cx_ch s) = Some h"
  shows "\<exists>s'. cx_step merge mem s = Cx_loop s' \<and> cx_state s' = cx_quoted_second \<and> cx_decoded s' = h
    \<and> cx_quoted_state s' = cx_quoted_state s \<and> cx_out s' = cx_out s \<and> cx_p s' = Suc (cx_p s) \<and> cx_ch s' = mem ! cx_p s"
  using assms
  by (auto simp: cx_step_def cx_step_quoted_def hex_val_def cx_moves Let_def split: if_splits)

lemma second_none:
  "cx_state s = cx_quoted_second \<Longrightarrow> hex_val (cx_ch s) = None \<Longrightarrow> \<exists>s'. cx_step merge mem s = Cx_invalid s'"
  by (auto simp: cx_step_def cx_step_quoted_second_def hex_val_def Let_def split: if_splits)

lemma second_some:
  assumes st: "cx_state s = cx_quoted_second" and l: "hex_val (cx_ch s) = Some l" and h: "unat (cx_decoded s) < 16"
    and v: "v = push_bit 4 (cx_decoded s) + l"
  shows "if v = 0 then \<exists>s'. cx_step merge mem s = Cx_invalid s'
    else if v \<in> {ch CHR ''%'', ch CHR ''#'', ch CHR ''?''} then
      \<exists>s'. cx_step merge mem s = Cx_loop s' \<and> cx_state s' = Plain cx_usual \<and> cx_out s' = cx_out s @ [v]
        \<and> cx_p s' = Suc (cx_p s) \<and> cx_ch s' = mem ! cx_p s
    else \<exists>s'. cx_step merge mem s = Cx_loop s' \<and> cx_state s' = Plain (cx_quoted_state s) \<and> cx_out s' = cx_out s
        \<and> cx_p s' = cx_p s \<and> cx_ch s' = v"
proof -
  have l16: "unat l < 16" using hex_val_cases [OF l] by auto
  have uv: "unat v = 16 * unat (cx_decoded s) + unat l" using hex_byte [OF h l16] v by simp
  then have mod: "unat v mod 16 = unat l" using l16 by simp
  from hex_val_cases [OF l] show ?thesis
  proof (elim disjE conjE)
    assume b: "is_dec (cx_ch s)" "l = cx_ch s - 0x30" "unat l < 10"
    then have "v \<noteq> ch CHR ''?''" using mod by auto
    moreover have "push_bit 4 (cx_decoded s) + cx_ch s - 0x30 = v" using v b by simp
    ultimately show ?thesis using st b(1)
      by (auto simp: cx_step_def cx_step_quoted_second_def cx_moves Let_def)
  next
    assume b: "\<not> is_dec (cx_ch s)" "ch CHR ''a'' \<le> cx_ch s OR 0x20" "cx_ch s OR 0x20 \<le> ch CHR ''f''"
      "l = (cx_ch s OR 0x20) - 0x61 + 10" "10 \<le> unat l"
    have "v \<noteq> 0" "v \<noteq> ch CHR ''%''" "v \<noteq> ch CHR ''#''" using mod b(5) by auto
    moreover have "push_bit 4 (cx_decoded s) + (cx_ch s OR 0x20) - 0x61 + 10 = v" using v b by simp
    ultimately show ?thesis using st b(1-3)
      by (auto simp: cx_step_def cx_step_quoted_second_def cx_moves Let_def)
  qed
qed

lemma cx_loop_end: "\<not> cx_p s \<le> e \<Longrightarrow> cx_loop merge mem e s = Cx_done s"
  by (simp add: cx_loop.simps)

lemma cx_loop_go: "cx_p s \<le> e \<Longrightarrow> cx_step merge mem s = Cx_loop s' \<Longrightarrow> cx_loop merge mem e s = cx_loop merge mem e s'"
  by (simp add: cx_loop.simps [of merge mem e s])

lemma cx_loop_invalid: "cx_p s \<le> e \<Longrightarrow> cx_step merge mem s = Cx_invalid s' \<Longrightarrow> cx_loop merge mem e s = Cx_invalid s'"
  by (simp add: cx_loop.simps [of merge mem e s])

lemma special_step:
  assumes "cx_matches merge s st stack cur" and "cx_ch s = ch CHR ''?'' \<or> cx_ch s = ch CHR ''#''"
  shows "\<exists>s'. (cx_step merge mem s = Cx_args s' \<or> cx_step merge mem s = Cx_done s') \<and> cx_out s' = cx_out s"
  using assms
  by (cases st) (auto simp: cx_matches_def cx_step_def cx_step_usual_def cx_step_slash_def cx_step_dot_def
      cx_step_dot_dot_def cx_args_def Let_def)

lemma percent_step:
  assumes "cx_matches merge s st stack cur" and "cx_ch s = ch CHR ''%''"
  shows "\<exists>s'. cx_step merge mem s = Cx_loop s' \<and> cx_state s' = cx_quoted \<and> cx_quoted_state s' = st
    \<and> cx_out s' = cx_out s \<and> cx_p s' = Suc (cx_p s) \<and> cx_ch s' = mem ! cx_p s"
  using assms
  by (cases st) (auto simp: cx_matches_def cx_step_def cx_step_usual_def cx_step_slash_def cx_step_dot_def
      cx_step_dot_dot_def cx_moves Let_def)

lemma cx_answers_out: "cx_matches merge s st stack cur \<Longrightarrow> cx_out s' = cx_out s \<Longrightarrow> n = Cx_args s' \<or> n = Cx_done s' \<Longrightarrow>
   cx_answers n (Some (stack, cur))"
  by (auto simp: cx_answers_def cx_matches_def)

lemma cx_loop_walks:
  assumes "cx_matches merge s st stack cur"
  shows "cx_answers (cx_loop merge mem e s) (walk_from merge stack cur (unquote (cx_todo mem e s)))"
  using assms
proof (induction "Suc e - cx_p s" arbitrary: s st stack cur rule: less_induct)
  case less
  note m = less.prems
  let ?b = "cx_ch s" and ?p = "cx_p s"
  show ?case
  proof (cases "?p \<le> e")
    case False
    with m show ?thesis
      by (simp add: cx_loop_end cx_todo_def walk_from_def cx_answers_out)
  next
    case p: True
    then have todo: "cx_todo mem e s = ?b # slice mem ?p e" by (simp add: cx_todo_def)
    consider (plain) "?b \<notin> {ch CHR ''%'', ch CHR ''?'', ch CHR ''#''}"
      | (stop) "?b = ch CHR ''?'' \<or> ?b = ch CHR ''#''" | (percent) "?b = ch CHR ''%''" by blast
    then show ?thesis
    proof cases
      case plain
      have unq: "walk_from merge stack cur (unquote (cx_todo mem e s)) =
          Option.bind (unquote (slice mem ?p e)) (\<lambda>eff. Option.bind (walk_step merge (stack, cur) ?b) (\<lambda>w. walk merge w eff))"
        using plain by (cases "unquote (slice mem ?p e)") (auto simp: todo walk_from_def)
      show ?thesis
      proof (cases "walk_step merge (stack, cur) ?b")
        case None
        with plain_step [OF m plain, of mem] obtain s' where "cx_step merge mem s = Cx_invalid s'" by auto
        then have "cx_loop merge mem e s = Cx_invalid s'" using p by (rule cx_loop_invalid [rotated])
        with unq None show ?thesis by (cases "unquote (slice mem ?p e)") (auto simp: cx_answers_def)
      next
        case (Some w)
        obtain stack' cur' where w: "w = (stack', cur')" by (cases w)
        with Some plain_step [OF m plain, of mem] obtain s' st' where s': "cx_step merge mem s = Cx_loop s'"
          "cx_matches merge s' st' stack' cur'" "cx_p s' = Suc ?p" "cx_ch s' = mem ! ?p"
          by (auto simp: plain_to_def)
        have "Suc e - cx_p s' < Suc e - cx_p s" using s' p by simp
        from less.hyps [OF this s'(2)] have "cx_answers (cx_loop merge mem e s')
            (walk_from merge stack' cur' (unquote (slice mem ?p e)))"
          using todo_advance [OF s'(3,4)] by simp
        moreover have "cx_loop merge mem e s = cx_loop merge mem e s'" using p s'(1) by (rule cx_loop_go)
        moreover have "walk_from merge stack cur (unquote (cx_todo mem e s)) = walk_from merge stack' cur' (unquote (slice mem ?p e))"
          using unq Some w by (simp add: walk_from_def)
        ultimately show ?thesis by simp
      qed
    next
      case stop
      with special_step [OF m, of mem] obtain s' where s': "cx_step merge mem s = Cx_args s' \<or> cx_step merge mem s = Cx_done s'"
        "cx_out s' = cx_out s" by auto
      then have "cx_loop merge mem e s = Cx_args s' \<or> cx_loop merge mem e s = Cx_done s'"
        using p by (auto simp: cx_loop.simps [of merge mem e s])
      moreover have "walk_from merge stack cur (unquote (cx_todo mem e s)) = Some (stack, cur)"
        using stop by (auto simp: todo walk_from_def)
      ultimately show ?thesis using cx_answers_out [OF m s'(2)] by simp
    next
      case percent
      with percent_step [OF m, of mem] obtain s1 where s1: "cx_step merge mem s = Cx_loop s1" "cx_state s1 = cx_quoted"
        "cx_quoted_state s1 = st" "cx_out s1 = cx_out s" "cx_p s1 = Suc ?p" "cx_ch s1 = mem ! ?p" by blast
      have go1: "cx_loop merge mem e s = cx_loop merge mem e s1" using p s1(1) by (rule cx_loop_go)
      show ?thesis
      proof (cases "?p < e")
        case False
        then have "cx_loop merge mem e s1 = Cx_done s1" using s1 by (simp add: cx_loop_end)
        moreover have "walk_from merge stack cur (unquote (cx_todo mem e s)) = Some (stack, cur)"
          using percent False by (simp add: todo walk_from_def)
        ultimately show ?thesis using go1 cx_answers_out [OF m s1(4)] by simp
      next
        case p1: True
        let ?x = "mem ! ?p"
        have todo1: "cx_todo mem e s = ch CHR ''%'' # ?x # slice mem (Suc ?p) e"
          using percent p1 by (simp add: todo slice_unfold)
        show ?thesis
        proof (cases "hex_val ?x")
          case None
          with quoted_none [OF s1(2), of merge mem] s1(6) obtain s2 where "cx_step merge mem s1 = Cx_invalid s2" by auto
          then have "cx_loop merge mem e s1 = Cx_invalid s2" using p1 s1(5) by (simp add: cx_loop_invalid)
          with go1 todo1 None show ?thesis by (simp add: walk_from_def cx_answers_def)
        next
          case (Some h)
          with quoted_some [OF s1(2), of h merge mem] s1 obtain s2 where s2: "cx_step merge mem s1 = Cx_loop s2"
            "cx_state s2 = cx_quoted_second" "cx_decoded s2 = h" "cx_quoted_state s2 = st" "cx_out s2 = cx_out s"
            "cx_p s2 = Suc (Suc ?p)" "cx_ch s2 = mem ! Suc ?p" by auto
          have go2: "cx_loop merge mem e s = cx_loop merge mem e s2"
            using go1 cx_loop_go [OF _ s2(1), of e] s1(5) p1 by simp
          have h16: "unat h < 16" using hex_val_cases [OF Some] by auto
          show ?thesis
          proof (cases "Suc ?p < e")
            case False
            then have "cx_loop merge mem e s2 = Cx_done s2" using s2 by (simp add: cx_loop_end)
            moreover have "walk_from merge stack cur (unquote (cx_todo mem e s)) = Some (stack, cur)"
              using False Some by (simp add: todo1 walk_from_def)
            ultimately show ?thesis using go2 cx_answers_out [OF m s2(5)] by simp
          next
            case p2: True
            let ?y = "mem ! Suc ?p" and ?zs = "slice mem (Suc (Suc ?p)) e"
            have todo2: "cx_todo mem e s = ch CHR ''%'' # ?x # ?y # ?zs"
              using todo1 p2 by (simp add: slice_unfold)
            have p2': "cx_p s2 \<le> e" using s2(6) p2 by simp
            show ?thesis
            proof (cases "hex_val ?y")
              case None
              with second_none [OF s2(2), of merge mem] s2(7) obtain s3 where "cx_step merge mem s2 = Cx_invalid s3" by auto
              then have "cx_loop merge mem e s2 = Cx_invalid s3" using p2' by (simp add: cx_loop_invalid)
              with go2 todo2 None Some show ?thesis by (simp add: walk_from_def cx_answers_def)
            next
              case l: (Some l)
              define v where "v = push_bit 4 h + l"
              have unq: "unquote (cx_todo mem e s) = (if v = 0 then None else map_option ((#) v) (unquote ?zs))"
                using Some l by (simp add: todo2 v_def Let_def)
              have step: "if v = 0 then \<exists>s'. cx_step merge mem s2 = Cx_invalid s'
                  else if v \<in> {ch CHR ''%'', ch CHR ''#'', ch CHR ''?''} then
                    \<exists>s'. cx_step merge mem s2 = Cx_loop s' \<and> cx_state s' = Plain cx_usual \<and> cx_out s' = cx_out s2 @ [v]
                      \<and> cx_p s' = Suc (cx_p s2) \<and> cx_ch s' = mem ! cx_p s2
                  else \<exists>s'. cx_step merge mem s2 = Cx_loop s' \<and> cx_state s' = Plain (cx_quoted_state s2)
                      \<and> cx_out s' = cx_out s2 \<and> cx_p s' = cx_p s2 \<and> cx_ch s' = v"
                by (rule second_some [OF s2(2)]) (use s2 l h16 v_def in simp_all)
              consider (zero) "v = 0" | (literal) "v \<noteq> 0" "v \<in> {ch CHR ''%'', ch CHR ''#'', ch CHR ''?''}"
                | (again) "v \<noteq> 0" "v \<notin> {ch CHR ''%'', ch CHR ''#'', ch CHR ''?''}" by blast
              then show ?thesis
              proof cases
                case zero
                with step obtain s3 where "cx_step merge mem s2 = Cx_invalid s3" by auto
                then have "cx_loop merge mem e s2 = Cx_invalid s3" using p2' by (simp add: cx_loop_invalid)
                with go2 unq zero show ?thesis by (simp add: walk_from_def cx_answers_def)
              next
                case literal
                from step literal obtain s3 where s3: "cx_step merge mem s2 = Cx_loop s3" "cx_state s3 = Plain cx_usual"
                  "cx_out s3 = cx_out s2 @ [v]" "cx_p s3 = Suc (cx_p s2)" "cx_ch s3 = mem ! cx_p s2"
                  by (auto split: if_splits)
                have v: "v \<noteq> ch CHR ''.''" "v \<noteq> ch CHR ''/''" using literal(2) by auto
                then have m3: "cx_matches merge s3 cx_usual stack (cur @ [v])"
                  using m s2(5) s3 cur_ok_snoc [of st cur v] by (auto simp: cx_matches_def no_slash_def)
                have "Suc e - cx_p s3 < Suc e - cx_p s" using s3 s2 p by simp
                from less.hyps [OF this m3] have "cx_answers (cx_loop merge mem e s3)
                    (walk_from merge stack (cur @ [v]) (unquote ?zs))"
                  using todo_advance [OF s3(4,5)] s2(6) by simp
                moreover have "cx_loop merge mem e s = cx_loop merge mem e s3"
                  using go2 cx_loop_go [OF p2' s3(1)] by simp
                moreover have "walk_from merge stack cur (unquote (cx_todo mem e s)) =
                    walk_from merge stack (cur @ [v]) (unquote ?zs)"
                  using unq literal v by (cases "unquote ?zs") (auto simp: walk_from_def walk_step_def)
                ultimately show ?thesis by simp
              next
                case again
                from step again obtain s3 where s3: "cx_step merge mem s2 = Cx_loop s3" "cx_state s3 = Plain st"
                  "cx_out s3 = cx_out s2" "cx_p s3 = cx_p s2" "cx_ch s3 = v"
                  using s2(4) by (auto split: if_splits)
                have m3: "cx_matches merge s3 st stack cur"
                  using m s2(5) s3 by (auto simp: cx_matches_def)
                have "Suc e - cx_p s3 < Suc e - cx_p s" using s3 s2 p by simp
                from less.hyps [OF this m3] have "cx_answers (cx_loop merge mem e s3)
                    (walk_from merge stack cur (unquote (v # ?zs)))"
                  using s3 p2' s2(6) by (simp add: cx_todo_def)
                moreover have "cx_loop merge mem e s = cx_loop merge mem e s3"
                  using go2 cx_loop_go [OF p2' s3(1)] by simp
                moreover have "unquote (cx_todo mem e s) = unquote (v # ?zs)" using unq again by simp
                ultimately show ?thesis by simp
              qed
            qed
          qed
        qed
      qed
    qed
  qed
qed

lemma cx_finish_simps [simp]:
  "cu_rc (cx_finish s a) = NGX_OK" "cu_uri (cx_finish s a) = cx_out s"
  by (simp_all add: cx_finish_def)

lemma complex_uri_loop:
  assumes "e = uri_end r" and "uri_start r < e" and "mem ! uri_start r = ch CHR ''/''"
  shows "\<exists>n. cx_answers n (walk_from merge [] [] (unquote (slice mem (Suc (uri_start r)) e)))
    \<and> (case n of
         Cx_invalid s \<Rightarrow> cu_rc (ngx_http_parse_complex_uri merge mem r) = NGX_HTTP_PARSE_INVALID_REQUEST
       | Cx_args s \<Rightarrow> cu_rc (ngx_http_parse_complex_uri merge mem r) = NGX_OK
            \<and> cu_uri (ngx_http_parse_complex_uri merge mem r) = cx_out s
       | Cx_done s \<Rightarrow> cu_rc (ngx_http_parse_complex_uri merge mem r) = NGX_OK
            \<and> cu_uri (ngx_http_parse_complex_uri merge mem r) = cx_out s
       | Cx_loop s \<Rightarrow> False)"
proof -
  let ?p = "uri_start r"
  define s0 where "s0 = \<lparr>cx_state = Plain cx_usual, cx_quoted_state = cx_usual, cx_decoded = 0,
    cx_ch = mem ! ?p, cx_p = ?p + 1, cx_out = [], cx_uri_ext = None, cx_req = r\<lparr>uri_ext := None, args_start := None\<rparr>\<rparr>"
  define s1 where "s1 = cx_advance mem (cx_put (ch CHR ''/'') (s0\<lparr>cx_uri_ext := None, cx_state := Plain cx_slash\<rparr>))"
  have "cx_step merge mem s0 = Cx_loop s1"
    using assms(3) by (simp add: cx_step_def cx_step_usual_def s0_def s1_def Let_def)
  then have loop: "cx_loop merge mem e s0 = cx_loop merge mem e s1"
    using assms(2) by (intro cx_loop_go) (simp add: s0_def)
  have "cx_matches merge s1 cx_slash [] []" by (simp add: cx_matches_def s1_def s0_def cx_moves no_slash_def)
  from cx_loop_walks [OF this, of mem e]
  have ans: "cx_answers (cx_loop merge mem e s1) (walk_from merge [] [] (unquote (slice mem (Suc ?p) e)))"
    using todo_advance [of s1 "Suc ?p" mem e] by (simp add: s1_def s0_def cx_moves)
  define n where "n = cx_loop merge mem e s1"
  have no: "n \<noteq> Cx_loop s" for s
    using ans by (auto simp: cx_answers_def n_def split: option.splits)
  have parse: "ngx_http_parse_complex_uri merge mem r =
    (case n of
        Cx_args s' \<Rightarrow>
          (case cx_args_loop mem (cx_p s') e of
             Some q \<Rightarrow> cx_finish (s'\<lparr>cx_req := (cx_req s')\<lparr>args_start := None\<rparr>\<rparr>) (Some (cx_p s', q - cx_p s'))
           | None \<Rightarrow> cx_finish s' None)
      | Cx_done s' \<Rightarrow> cx_finish s' None
      | Cx_invalid s' \<Rightarrow>
          \<lparr>cu_rc = NGX_HTTP_PARSE_INVALID_REQUEST, cu_uri = cx_out s', cu_exten = None, cu_args = None,
           cu_req = cx_req s'\<rparr>
      | Cx_loop s' \<Rightarrow> cx_finish s' None)"
    unfolding ngx_http_parse_complex_uri_def Let_def assms(1) [symmetric] s0_def [symmetric] loop n_def ..
  show ?thesis
  proof (intro exI conjI)
    show "cx_answers n (walk_from merge [] [] (unquote (slice mem (Suc ?p) e)))" using ans by (simp add: n_def)
    show "case n of
         Cx_invalid s \<Rightarrow> cu_rc (ngx_http_parse_complex_uri merge mem r) = NGX_HTTP_PARSE_INVALID_REQUEST
       | Cx_args s \<Rightarrow> cu_rc (ngx_http_parse_complex_uri merge mem r) = NGX_OK
            \<and> cu_uri (ngx_http_parse_complex_uri merge mem r) = cx_out s
       | Cx_done s \<Rightarrow> cu_rc (ngx_http_parse_complex_uri merge mem r) = NGX_OK
            \<and> cu_uri (ngx_http_parse_complex_uri merge mem r) = cx_out s
       | Cx_loop s \<Rightarrow> False"
    proof (cases n)
      case (Cx_args s')
      then show ?thesis by (cases "cx_args_loop mem (cx_p s') e") (simp_all add: parse del: cx_args_loop.simps)
    qed (simp_all add: parse no)
  qed
qed

lemma complex_uri_spec:
  assumes "uri_start r < uri_end r" and "mem ! uri_start r = ch CHR ''/''"
    and "a = ngx_http_parse_complex_uri merge mem r"
  shows "case Option.bind (unquote (slice mem (Suc (uri_start r)) (uri_end r))) (normal_path merge) of
      Some path \<Rightarrow> cu_rc a = NGX_OK \<and> cu_uri a = path
    | None \<Rightarrow> cu_rc a = NGX_HTTP_PARSE_INVALID_REQUEST"
proof -
  let ?eff = "unquote (slice mem (Suc (uri_start r)) (uri_end r))"
  obtain n where n: "cx_answers n (walk_from merge [] [] ?eff)"
    and a: "case n of
         Cx_invalid s \<Rightarrow> cu_rc a = NGX_HTTP_PARSE_INVALID_REQUEST
       | Cx_args s \<Rightarrow> cu_rc a = NGX_OK \<and> cu_uri a = cx_out s
       | Cx_done s \<Rightarrow> cu_rc a = NGX_OK \<and> cu_uri a = cx_out s
       | Cx_loop s \<Rightarrow> False"
    using complex_uri_loop [OF refl assms(1,2), of merge] assms(3) by blast
  have eq: "Option.bind ?eff (normal_path merge) =
      map_option (\<lambda>(st, cur). path_of (rev st) @ ch CHR ''/'' # cur) (walk_from merge [] [] ?eff)"
    by (cases ?eff) (auto simp: walk_from_def normal_path_walk)
  show ?thesis
  proof (cases "walk_from merge [] [] ?eff")
    case None
    with n a eq show ?thesis by (auto simp: cx_answers_def)
  next
    case (Some w)
    with n a eq show ?thesis by (cases w) (auto simp: cx_answers_def)
  qed
qed

text \<open>
  Property C6 (equivalence).  Normalising a URI that starts with a slash, with one pass over its bytes and
  an output buffer that is cut back in place, gives what the reference gives: decode the escapes up to
  the arguments or the fragment, cut the path at its slashes, and resolve the segments on a stack.  It
  fails exactly when the reference does: on a wrong escape, an escaped NUL, or a path above the root.
\<close>

theorem complex_uri_resolves:
  assumes "uri_start r < uri_end r" and "mem ! uri_start r = ch CHR ''/''"
    and "a = ngx_http_parse_complex_uri merge mem r"
  shows "case Option.bind (unquote (slice mem (Suc (uri_start r)) (uri_end r))) (normal_path merge) of
      Some path \<Rightarrow> cu_rc a = NGX_OK \<and> cu_uri a = path
    | None \<Rightarrow> cu_rc a = NGX_HTTP_PARSE_INVALID_REQUEST"
  using assms by (rule complex_uri_spec)

text \<open>No segment of a resolved path but the last one goes up, is the current directory, or is empty if merged.\<close>

definition clean_segment :: "bool \<Rightarrow> bytes \<Rightarrow> bool" where
  "clean_segment merge x \<longleftrightarrow> x \<noteq> dot_seg \<and> x \<noteq> dot_dot_seg \<and> (merge \<longrightarrow> x \<noteq> [])"

lemma go_up_clean: "go_up st = Some st' \<Longrightarrow> list_all P st \<Longrightarrow> list_all P st'"
  by (cases st) (auto split: if_splits list.splits)

lemma resolve_clean:
  "list_all (clean_segment merge) st \<Longrightarrow> segs \<noteq> [] \<Longrightarrow> resolve merge st segs = Some out \<Longrightarrow>
   out \<noteq> [] \<and> list_all (clean_segment merge) (butlast out)"
proof (induction merge st segs rule: resolve.induct)
  case (1 merge st)
  then show ?case by simp
next
  case (2 merge st x)
  then show ?case by (auto simp: butlast_append)
next
  case (3 merge st x y ys)
  show ?case
  proof (cases "x = [] \<or> x = dot_seg")
    case True
    show ?thesis
    proof (cases "x = []")
      case True
      have "list_all (clean_segment merge) (if merge then st else [] # st)"
        using 3(5) segs_neq(1,2) by (cases merge) (auto simp: clean_segment_def list_all_iff dest: sym)
      with 3(1) [OF True] 3(7) True show ?thesis by simp
    next
      case False
      with \<open>x = [] \<or> x = dot_seg\<close> 3 show ?thesis by simp
    qed
  next
    case ne: False
    show ?thesis
    proof (cases "x = dot_dot_seg")
      case True
      then obtain st' where st': "go_up st = Some st'" and rest: "resolve merge st' (y # ys) = Some out"
        using 3(7) ne by (cases "go_up st") auto
      have "list_all (clean_segment merge) st'" using go_up_clean [OF st' 3(5)] .
      then show ?thesis using 3(3) [of st'] ne True rest st' by simp
    next
      case False
      with ne 3 show ?thesis by (auto simp: clean_segment_def)
    qed
  qed
qed

lemma resolve_all:
  "resolve merge st segs = Some out \<Longrightarrow> list_all P st \<Longrightarrow> list_all P segs \<Longrightarrow> P [] \<Longrightarrow> list_all P out"
proof (induction merge st segs rule: resolve.induct)
  case (3 merge st x y ys)
  then show ?case
    by (auto split: if_splits simp: bind_eq_Some_conv go_up_clean)
qed auto

lemma segments_no_slash: "list_all no_slash (segments bs)"
  by (induction bs) (auto simp: no_slash_def split: list.splits)

lemma segments_append: "no_slash s \<Longrightarrow> segments (s @ bs) = (case segments bs of t # ts \<Rightarrow> (s @ t) # ts | [] \<Rightarrow> [])"
  by (induction s) (auto simp: no_slash_def split: list.splits)

lemma segments_path_of: "list_all no_slash (s # ss) \<Longrightarrow> segments (s @ path_of ss) = s # ss"
proof (induction ss arbitrary: s)
  case Nil
  then show ?case using segments_append [of s "[]"] by simp
next
  case (Cons t ts)
  then show ?case by (simp add: segments_append)
qed

text \<open>
  Property C7 (safety).  Of a URI that begins with a slash, as the parsers of the request line and of HTTP/2 paths make sure that it does, the
  normalisation accepts only such as still begin with a slash when they are normalised, and whose segments between their slashes, all but the last one, are
  neither \<^verbatim>\<open>.\<close> nor \<^verbatim>\<open>..\<close>, nor empty when slashes are merged.  So it never climbs out of a directory on the way to
  its last segment.
\<close>

theorem complex_uri_never_climbs:
  assumes "uri_start r < uri_end r" and "mem ! uri_start r = ch CHR ''/''"
    and "a = ngx_http_parse_complex_uri merge mem r" and "cu_rc a = NGX_OK"
  shows "\<exists>path. cu_uri a = ch CHR ''/'' # path \<and> list_all (clean_segment merge) (butlast (segments path))"
proof -
  from complex_uri_spec [OF assms(1-3)] assms(4) obtain eff where
    "normal_path merge eff = Some (cu_uri a)"
    by (cases "unquote (slice mem (Suc (uri_start r)) (uri_end r))") (auto simp: http_rc split: option.splits)
  then obtain segs where segs: "resolve merge [] (segments eff) = Some segs" and uri: "cu_uri a = path_of segs"
    by (auto simp: normal_path_def)
  from resolve_clean [OF _ _ segs] have "segs \<noteq> []" and clean: "list_all (clean_segment merge) (butlast segs)"
    by simp_all
  then obtain s ss where ss: "segs = s # ss" by (cases segs) auto
  have "list_all no_slash segs"
    using resolve_all [OF segs, of no_slash] segments_no_slash by (simp add: no_slash_def)
  with ss have "segments (s @ path_of ss) = segs" using segments_path_of by simp
  with clean uri ss show ?thesis by simp
qed

text \<open>The last segment, however, is kept as it is, and an escape cut off by the end of the URI is dropped.\<close>

lemmas complex_uri_eval = ngx_http_parse_complex_uri_def cx_loop.simps cx_step_def cx_step_defs cx_moves Let_def
  chars_def is_usual_iff is_dec_def CR_def LF_def fresh_request_def cx_finish_def http_rc

definition whole_uri :: "bytes \<Rightarrow> http_request" where
  "whole_uri mem = fresh_request\<lparr>uri_start := 0, uri_end := length mem\<rparr>"

text \<open>
  Fact (functional).  Dot segments are only resolved at the slash that ends them: the URI \<open>/a/..\<close> is
  accepted and stays \<open>/a/..\<close>, although \<open>/a/../\<close> becomes \<open>/\<close>.
\<close>

theorem complex_uri_keeps_last_dots:
  "(let uri = chars ''/a/..''; a = ngx_http_parse_complex_uri True (uri @ [LF]) (whole_uri uri)
    in cu_rc a = NGX_OK \<and> cu_uri a = uri)
   \<and> (let uri = chars ''/a/../''; a = ngx_http_parse_complex_uri True (uri @ [LF]) (whole_uri uri)
      in cu_rc a = NGX_OK \<and> cu_uri a = chars ''/'')"
  by (simp add: complex_uri_eval whole_uri_def)

text \<open>
  Fact (error).  An escape that the end of the URI cuts off is not an error: it is dropped, so
  \<open>/a%2\<close> is accepted as \<open>/a\<close>, where \<open>/a%2x\<close> is refused.
\<close>

theorem complex_uri_drops_cut_escape:
  "(let uri = chars ''/a%2''; a = ngx_http_parse_complex_uri True (uri @ [LF]) (whole_uri uri)
    in cu_rc a = NGX_OK \<and> cu_uri a = chars ''/a'')
   \<and> (let uri = chars ''/a%2x''; a = ngx_http_parse_complex_uri True (uri @ [LF]) (whole_uri uri)
      in cu_rc a = NGX_HTTP_PARSE_INVALID_REQUEST)"
  by (simp add: complex_uri_eval whole_uri_def)

theorem complex_uri_resolves_witness:
  "let uri = chars ''/a/./b'';
       r = whole_uri uri; a = ngx_http_parse_complex_uri True (uri @ [LF]) r
   in case Option.bind (unquote (slice (uri @ [LF]) (Suc (uri_start r)) (uri_end r))) (normal_path True) of
        Some path \<Rightarrow> cu_rc a = NGX_OK \<and> cu_uri a = path
      | None \<Rightarrow> cu_rc a = NGX_HTTP_PARSE_INVALID_REQUEST"
  unfolding Let_def by (rule complex_uri_resolves) (simp_all add: whole_uri_def chars_def)

theorem complex_uri_never_climbs_witness:
  "let uri = chars ''/a/../''; a = ngx_http_parse_complex_uri True (uri @ [LF]) (whole_uri uri)
   in \<exists>path. cu_uri a = ch CHR ''/'' # path \<and> list_all (clean_segment True) (butlast (segments path))"
  unfolding Let_def
  by (rule complex_uri_never_climbs [OF _ _ refl]) (simp_all add: whole_uri_def complex_uri_eval)

section \<open>A URI that needs no normalisation\<close>

text \<open>The bytes read so far are a path without escapes that the reference leaves alone.\<close>

definition settled :: "bool \<Rightarrow> bytes \<Rightarrow> bytes \<Rightarrow> bool" where
  "settled merge path cur \<longleftrightarrow>
     (\<exists>stack. walk merge ([], []) path = Some (stack, cur) \<and> path_of (rev stack) @ ch CHR ''/'' # cur = ch CHR ''/'' # path)
     \<and> (\<forall>b \<in> set path. b \<notin> {ch CHR ''%'', ch CHR ''?'', ch CHR ''#''})
     \<and> (cur = [] \<or> hd cur \<noteq> ch CHR ''.'')"

lemma walk_append: "walk merge w (xs @ ys) = Option.bind (walk merge w xs) (\<lambda>w'. walk merge w' ys)"
  by (induction xs arbitrary: w) (auto simp: bind_assoc)

lemma settled_char:
  assumes "settled merge path cur" and "b \<notin> {ch CHR ''%'', ch CHR ''?'', ch CHR ''#'', ch CHR ''/''}"
    and "b = ch CHR ''.'' \<longrightarrow> cur \<noteq> []"
  shows "settled merge (path @ [b]) (cur @ [b])"
proof -
  from assms(1) obtain stack where "walk merge ([], []) path = Some (stack, cur)"
    "path_of (rev stack) @ ch CHR ''/'' # cur = ch CHR ''/'' # path" by (auto simp: settled_def)
  then have "walk merge ([], []) (path @ [b]) = Some (stack, cur @ [b])"
    "path_of (rev stack) @ ch CHR ''/'' # cur @ [b] = ch CHR ''/'' # path @ [b]"
    using assms(2) by (simp_all add: walk_append walk_step_def)
  with assms show ?thesis by (cases cur) (auto simp: settled_def)
qed

lemma settled_slash:
  assumes "settled merge path cur" and "cur \<noteq> []"
  shows "settled merge (path @ [ch CHR ''/'']) []"
proof -
  from assms(1) obtain stack where *: "walk merge ([], []) path = Some (stack, cur)"
    "path_of (rev stack) @ ch CHR ''/'' # cur = ch CHR ''/'' # path" by (auto simp: settled_def)
  have "cur \<noteq> dot_seg" "cur \<noteq> dot_dot_seg"
    using assms by (auto simp: settled_def dot_seg_def dot_dot_seg_def chars_def)
  with * assms(2) have "walk merge ([], []) (path @ [ch CHR ''/'']) = Some (cur # stack, [])"
    by (simp add: walk_append walk_step_def)
  with * assms(1) show ?thesis by (auto simp: settled_def)
qed

definition ps_inv :: "bool \<Rightarrow> nat \<Rightarrow> bytes \<Rightarrow> uri_state \<times> http_request \<Rightarrow> nat \<Rightarrow> bool" where
  "ps_inv merge start mem s p =
     (let r = snd s in complex_uri r \<or> quoted_uri r \<or>
      (case fst s of
         ps_start \<Rightarrow> args_start r = None \<and> p = start
       | ps_after_slash_in_uri \<Rightarrow> args_start r = None \<and> start < p
            \<and> mem ! start = ch CHR ''/'' \<and> (\<exists>cur. settled merge (slice mem (Suc start) p) cur)
       | ps_check_uri \<Rightarrow> args_start r = None \<and> start < p
            \<and> mem ! start = ch CHR ''/'' \<and> (\<exists>cur. settled merge (slice mem (Suc start) p) cur \<and> cur \<noteq> [])
       | ps_uri \<Rightarrow> mem ! start = ch CHR ''/'' \<and> (\<exists>q cur. args_start r = Some (Suc q) \<and> start < q \<and> q < p \<and> mem ! q = ch CHR ''?''
            \<and> settled merge (slice mem (Suc start) q) cur)))"

lemma settled_Nil: "settled merge [] []"
  by (simp add: settled_def)

lemma ps_inv_step:
  assumes "ps_inv merge start mem (st, r) p" and "ps_step (st, r) mem p = Next s'"
  shows "ps_inv merge start mem s' (Suc p)"
proof -
  let ?b = "mem ! p"
  have usual: "is_usual ?b \<Longrightarrow> ?b \<notin> {ch CHR ''%'', ch CHR ''?'', ch CHR ''#'', ch CHR ''/'', ch CHR ''.''}"
    by (auto simp: is_usual_iff)
  have char: "settled merge (slice mem (Suc start) (Suc p)) (cur @ [?b])"
    if "settled merge (slice mem (Suc start) p) cur" "start < p"
      "?b \<notin> {ch CHR ''%'', ch CHR ''?'', ch CHR ''#'', ch CHR ''/''}" "?b = ch CHR ''.'' \<longrightarrow> cur \<noteq> []" for cur
    using settled_char [OF that(1,3,4)] that(2) by (simp add: slice_snoc)
  show ?thesis
  proof (cases "complex_uri r \<or> quoted_uri r")
    case True
    with assms(2) show ?thesis
      by (cases st) (auto simp: ps_inv_def ps_step_def ps_step_after_slash_def ps_step_check_def ps_step_uri_def Let_def
          split: if_splits)
  next
    case False
    show ?thesis
    proof (cases st)
      case ps_start
      moreover have "\<exists>cur. settled merge [] cur" using settled_Nil by blast
      ultimately show ?thesis using assms False
        by (auto simp: ps_inv_def ps_step_def Let_def split: if_splits)
    next
      case ps_after_slash_in_uri
      with assms(1) False obtain cur where inv: "args_start r = None" "start < p"
        "mem ! start = ch CHR ''/''" "settled merge (slice mem (Suc start) p) cur" by (auto simp: ps_inv_def)
      with char [OF inv(4,2)] usual ps_after_slash_in_uri assms(2) False show ?thesis
        by (auto simp: ps_inv_def ps_step_def ps_step_after_slash_def Let_def split: if_splits)
    next
      case ps_check_uri
      with assms(1) False obtain cur where inv: "args_start r = None" "start < p"
        "mem ! start = ch CHR ''/''" "settled merge (slice mem (Suc start) p) cur" "cur \<noteq> []" by (auto simp: ps_inv_def)
      have slash: "?b = ch CHR ''/'' \<Longrightarrow> settled merge (slice mem (Suc start) (Suc p)) []"
        using settled_slash [OF inv(4,5)] inv(2) by (simp add: slice_snoc)
      with char [OF inv(4,2)] usual inv ps_check_uri assms(2) False show ?thesis
        by (auto simp: ps_inv_def ps_step_def ps_step_check_def Let_def split: if_splits)
    next
      case ps_uri
      with assms False show ?thesis
        by (auto simp: ps_inv_def ps_step_def ps_step_uri_def Let_def split: if_splits)
    qed
  qed
qed

lemma unquote_plain: "\<forall>b \<in> set path. b \<notin> {ch CHR ''%'', ch CHR ''?'', ch CHR ''#''} \<Longrightarrow>
  unquote (path @ bs) = map_option ((@) path) (unquote bs)"
proof (induction path)
  case Nil
  then show ?case by (cases "unquote bs") auto
next
  case (Cons b path)
  then show ?case by (cases "unquote bs") auto
qed

lemma settled_normal: "settled merge path cur \<Longrightarrow> normal_path merge path = Some (ch CHR ''/'' # path)"
  by (auto simp: settled_def normal_path_walk)

text \<open>
  Fact (equivalence).  The short cut is right: when the first look at a URI raises neither of the
  flags that ask for more work, the path it found, up to the arguments, holds no escape and is its own
  normal form, with slashes merged or not; so normalising it would change nothing.
\<close>

theorem simple_uri_is_normal:
  assumes "ngx_http_parse_uri mem r = (NGX_OK, r')" and "\<not> complex_uri r'" and "\<not> quoted_uri r'"
    and "args_start r = None" and "uri_start r < uri_end r"
  shows "let e = (case args_start r' of Some a \<Rightarrow> a - 1 | None \<Rightarrow> uri_end r);
             path = slice mem (Suc (uri_start r)) e
         in mem ! uri_start r = ch CHR ''/'' \<and> e \<le> uri_end r
            \<and> unquote (slice mem (Suc (uri_start r)) (uri_end r)) = Some path
            \<and> normal_path merge path = Some (ch CHR ''/'' # path)"
proof -
  let ?start = "uri_start r" and ?e = "uri_end r"
  obtain st p where scan: "scan ps_step (ps_start, r) mem ?start ?e = Inl ((st, r'), p)"
    using assms(1) by (auto simp: ngx_http_parse_uri_def http_rc split: sum.splits)
  have p: "p = ?e" using scan_Inl_pos [OF scan] assms(5) by simp
  have "ps_inv merge ?start mem (st, r') p"
  proof (rule scan_Inl_invariant [where I = "ps_inv merge ?start mem", OF _ _ scan])
    show "ps_inv merge ?start mem (ps_start, r) ?start" using assms(4) by (simp add: ps_inv_def)
    show "ps_inv merge ?start mem s' (Suc p)"
      if "ps_inv merge ?start mem s p" "p < ?e" "ps_step s mem p = Next s'" for s p s'
      using that ps_inv_step by (cases s) blast
  qed
  then have inv: "st \<noteq> ps_start" "mem ! ?start = ch CHR ''/''"
    "st = ps_uri \<Longrightarrow> \<exists>q cur. args_start r' = Some (Suc q) \<and> ?start < q \<and> q < ?e \<and> mem ! q = ch CHR ''?''
        \<and> settled merge (slice mem (Suc ?start) q) cur"
    "st \<noteq> ps_uri \<Longrightarrow> args_start r' = None \<and> (\<exists>cur. settled merge (slice mem (Suc ?start) ?e) cur)"
    using assms(2,3,5) p by (cases st; auto simp: ps_inv_def)+
  have plain: "unquote (slice mem (Suc ?start) q @ bs) = map_option ((@) (slice mem (Suc ?start) q)) (unquote bs)"
    if "settled merge (slice mem (Suc ?start) q) cur" for q cur bs
    using that by (intro unquote_plain) (simp add: settled_def)
  show ?thesis
  proof (cases "st = ps_uri")
    case True
    from inv(3) [OF True] obtain q cur where q: "args_start r' = Some (Suc q)" "?start < q" "q < ?e"
      "mem ! q = ch CHR ''?''" "settled merge (slice mem (Suc ?start) q) cur" by blast
    have "slice mem (Suc ?start) ?e = slice mem (Suc ?start) q @ mem ! q # slice mem (Suc q) ?e"
      using q(2,3) upt_add_eq_append [of "Suc ?start" q "?e - q"] upt_conv_Cons [of q ?e] by (simp add: slice_def)
    with plain [OF q(5), of "mem ! q # slice mem (Suc q) ?e"] q settled_normal [OF q(5)] inv(2) show ?thesis
      by (simp add: Let_def)
  next
    case False
    from inv(4) [OF False] obtain cur where c: "args_start r' = None" "settled merge (slice mem (Suc ?start) ?e) cur"
      by blast
    with plain [OF c(2), of "[]"] settled_normal [OF c(2)] inv(2) show ?thesis by (simp add: Let_def)
  qed
qed

theorem simple_uri_is_normal_witness:
  "let uri = chars ''/a/b?x''; r = whole_uri uri; path = chars ''a/b''
   in unquote (slice uri (Suc 0) 6) = Some path \<and> normal_path True path = Some (ch CHR ''/'' # path)"
proof -
  let ?uri = "chars ''/a/b?x''"
  let ?r = "whole_uri ?uri"
  have "ngx_http_parse_uri ?uri ?r = (NGX_OK, ?r\<lparr>args_start := Some 5\<rparr>)"
    by (simp add: ngx_http_parse_uri_def scan.simps ps_step_def ps_step_after_slash_def ps_step_check_def ps_step_uri_def
        whole_uri_def fresh_request_def is_usual_iff chars_def CR_def LF_def Let_def)
  from simple_uri_is_normal [OF this, of True] have "normal_path True (slice ?uri 1 4) = Some (ch CHR ''/'' # slice ?uri 1 4)
      \<and> unquote (slice ?uri 1 6) = Some (slice ?uri 1 4)"
    by (simp add: whole_uri_def fresh_request_def chars_def Let_def eval_nat_numeral)
  moreover have "slice ?uri 1 4 = chars ''a/b''" by (simp add: slice_def chars_def upt_rec)
  ultimately show ?thesis by (simp add: Let_def)
qed

end
