(* ===== verification/Ngx_Http_Args.thy ===== *)
theory Ngx_Http_Args
  imports Ngx_Http_Uri Ngx_Escape Ngx_String
begin

text \<open>
  The parts of \<^verbatim>\<open>src/http/ngx_http_parse.c\<close> that look at a URI taken from a header or a script and at
  the arguments of a request: \<^verbatim>\<open>ngx_http_parse_unsafe_uri\<close>, \<^verbatim>\<open>ngx_http_split_args\<close> and
  \<^verbatim>\<open>ngx_http_arg\<close>.
\<close>

section \<open>URIs that are not to be trusted\<close>

text \<open>Two dots that end at a slash or at the end of the string.\<close>

fun dot_dot_at :: "bytes \<Rightarrow> bool" where
  "dot_dot_at (a # b # p) \<longleftrightarrow> a = ch CHR ''.'' \<and> b = ch CHR ''.'' \<and> (p = [] \<or> hd p = ch CHR ''/'')"
| "dot_dot_at _ \<longleftrightarrow> False"

text \<open>
  The first loop: the flag \<open>quoted\<close> and what is left when the loop ends or breaks at the question
  mark, or the jump to \<^verbatim>\<open>unsafe\<close>.
\<close>

fun unsafe_loop :: "bool \<Rightarrow> bytes \<Rightarrow> (bool \<times> bytes) option" where
  "unsafe_loop quoted [] = Some (quoted, [])"
| "unsafe_loop quoted (b # p) =
     (if b = ch CHR ''%'' then unsafe_loop True p
      else if is_usual b then unsafe_loop quoted p
      else if b = ch CHR ''?'' then Some (quoted, b # p)
      else if b = 0 then None
      else if b = ch CHR ''/'' \<and> dot_dot_at p then None
      else unsafe_loop quoted p)"

text \<open>The loop over the unescaped URI.\<close>

fun unsafe_unescaped :: "bytes \<Rightarrow> bool" where
  "unsafe_unescaped [] \<longleftrightarrow> False"
| "unsafe_unescaped (b # p) \<longleftrightarrow>
     (if b = 0 then True
      else if b = ch CHR ''/'' \<and> dot_dot_at p then True
      else unsafe_unescaped p)"

text \<open>
  The URI and, if there are any, the arguments; \<^term>\<open>None\<close> is \<^verbatim>\<open>NGX_ERROR\<close>.  The flags only decide
  whether the error is logged.
\<close>

definition ngx_http_parse_unsafe_uri :: "bool \<Rightarrow> bytes \<Rightarrow> (bytes \<times> bytes option) option" where
  "ngx_http_parse_unsafe_uri mem_ok uri =
     (if uri = [] \<or> hd uri = ch CHR ''?'' then None
      else if dot_dot_at uri then None
      else
        case unsafe_loop False uri of
          None \<Rightarrow> None
        | Some (quoted, rest) \<Rightarrow>
            let path = take (length uri - length rest) uri;
                args = (if rest = [] then None else Some (tl rest))
            in
            if quoted then
              (if \<not> mem_ok then None
               else
                 let dst = fst (ngx_unescape_uri path 0) in
                 if dot_dot_at dst then None
                 else if unsafe_unescaped dst then None
                 else Some (dst, args))
            else Some (path, args))"

section \<open>The reference\<close>

text \<open>
  The path is what comes before the first question mark.  Its segments are looked at as they stand;
  the last one only if no question mark follows it.
\<close>

definition uri_path :: "bytes \<Rightarrow> bytes" where
  "uri_path uri = takeWhile (\<lambda>b. b \<noteq> ch CHR ''?'') uri"

definition uri_args :: "bytes \<Rightarrow> bytes option" where
  "uri_args uri = (case dropWhile (\<lambda>b. b \<noteq> ch CHR ''?'') uri of [] \<Rightarrow> None | _ # args \<Rightarrow> Some args)"

definition seen_segments :: "bytes \<Rightarrow> bytes list" where
  "seen_segments uri =
     (if uri_args uri = None then segments (uri_path uri) else butlast (segments (uri_path uri)))"

lemma segments_Cons:
  "b \<noteq> ch CHR ''/'' \<Longrightarrow> segments (b # p) = (b # hd (segments p)) # tl (segments p)"
  using segments_not_Nil [of p] by (cases "segments p") auto

lemma seen_segments_simps:
  "seen_segments [] = [[]]"
  "seen_segments (ch CHR ''?'' # p) = []"
  "seen_segments (ch CHR ''/'' # p) = [] # seen_segments p"
  "b \<noteq> ch CHR ''/'' \<Longrightarrow> b \<noteq> ch CHR ''?'' \<Longrightarrow>
     seen_segments (b # p) = (case seen_segments p of [] \<Rightarrow> [] | s # ss \<Rightarrow> (b # s) # ss)"
  using segments_not_Nil [of "uri_path p"]
  by (auto simp: seen_segments_def uri_path_def uri_args_def split: list.splits)

lemma dot_dot_at_seen: "dot_dot_at p \<longleftrightarrow> (case seen_segments p of [] \<Rightarrow> False | s # _ \<Rightarrow> s = dot_dot_seg)"
proof -
  have hd: "(case seen_segments (b # q) of [] \<Rightarrow> False | s # _ \<Rightarrow> s = c # t) \<longleftrightarrow>
      b = c \<and> b \<noteq> ch CHR ''/'' \<and> b \<noteq> ch CHR ''?'' \<and> (case seen_segments q of [] \<Rightarrow> False | s # _ \<Rightarrow> s = t)" for b q c t
    by (cases "b = ch CHR ''/''"; cases "b = ch CHR ''?''")
      (auto simp: seen_segments_simps [simplified] seen_segments_simps split: list.splits)
  have nil: "(case seen_segments q of [] \<Rightarrow> False | s # _ \<Rightarrow> s = []) \<longleftrightarrow> q = [] \<or> hd q = ch CHR ''/''" for q
    by (cases q; cases "hd q = ch CHR ''/''"; cases "hd q = ch CHR ''?''")
      (auto simp: seen_segments_simps [simplified] seen_segments_simps split: list.splits)
  have dd: "dot_dot_seg = [ch CHR ''.'', ch CHR ''.'']" by (simp add: dot_dot_seg_def chars_def)
  show ?thesis
    unfolding dd
  proof (cases p)
    case Nil
    then show "dot_dot_at p \<longleftrightarrow> (case seen_segments p of [] \<Rightarrow> False | s # _ \<Rightarrow> s = [ch CHR ''.'', ch CHR ''.''])"
      by (simp add: seen_segments_simps)
  next
    case (Cons a q)
    then show "dot_dot_at p \<longleftrightarrow> (case seen_segments p of [] \<Rightarrow> False | s # _ \<Rightarrow> s = [ch CHR ''.'', ch CHR ''.''])"
      by (cases q) (simp_all only: hd nil dot_dot_at.simps list.case seen_segments_simps, auto)
  qed
qed

lemma unsafe_loop_exact:
  "unsafe_loop quoted p =
     (if 0 \<in> set (uri_path p) \<or> dot_dot_seg \<in> set (tl (seen_segments p)) then None
      else Some (quoted \<or> ch CHR ''%'' \<in> set (uri_path p), dropWhile (\<lambda>b. b \<noteq> ch CHR ''?'') p))"
proof (induction quoted p rule: unsafe_loop.induct)
  case (1 quoted)
  then show ?case by (simp add: uri_path_def seen_segments_simps)
next
  case (2 quoted b p)
  have tl: "b \<noteq> ch CHR ''/'' \<Longrightarrow> b \<noteq> ch CHR ''?'' \<Longrightarrow> tl (seen_segments (b # p)) = tl (seen_segments p)"
    by (simp add: seen_segments_simps split: list.splits)
  have path: "b \<noteq> ch CHR ''?'' \<Longrightarrow> uri_path (b # p) = b # uri_path p"
    by (simp add: uri_path_def)
  consider (arg) "b = ch CHR ''?''" | (slash) "b = ch CHR ''/''" | (nul) "b = 0" | (percent) "b = ch CHR ''%''"
    | (plain) "b \<noteq> ch CHR ''?''" "b \<noteq> ch CHR ''/''" "b \<noteq> 0" "b \<noteq> ch CHR ''%''" by blast
  then show ?case
  proof cases
    case arg
    then show ?thesis
      by (simp add: is_usual_iff uri_path_def seen_segments_simps [simplified])
  next
    case slash
    have "set (seen_segments p) = (case seen_segments p of [] \<Rightarrow> {} | s # _ \<Rightarrow> insert s (set (tl (seen_segments p))))"
      by (cases "seen_segments p") auto
    then have "dot_dot_seg \<in> set (seen_segments p) \<longleftrightarrow> dot_dot_at p \<or> dot_dot_seg \<in> set (tl (seen_segments p))"
      by (auto simp: dot_dot_at_seen split: list.splits)
    with slash 2 show ?thesis
      by (auto simp: is_usual_iff uri_path_def seen_segments_simps [simplified])
  next
    case nul
    then show ?thesis by (simp add: is_usual_iff uri_path_def)
  next
    case percent
    with 2 tl path show ?thesis by (simp add: seen_segments_simps)
  next
    case plain
    with 2 tl path show ?thesis by auto
  qed
qed


lemma dot_dot_at_segments: "dot_dot_at p \<longleftrightarrow> hd (segments p) = dot_dot_seg"
proof -
  have hd: "hd (segments (b # q)) = c # t \<longleftrightarrow> b = c \<and> b \<noteq> ch CHR ''/'' \<and> hd (segments q) = t" for b q c t
    using segments_not_Nil [of q] by (cases "segments q") auto
  have nil: "hd (segments q) = [] \<longleftrightarrow> q = [] \<or> hd q = ch CHR ''/''" for q
    using segments_not_Nil [of "tl q"] by (cases q; cases "segments (tl q)") auto
  have dd: "dot_dot_seg = [ch CHR ''.'', ch CHR ''.'']" by (simp add: dot_dot_seg_def chars_def)
  show ?thesis
    unfolding dd by (cases p rule: dot_dot_at.cases) (auto simp: hd nil simp del: segments.simps(2))
qed

lemma dot_dot_segments:
  "dot_dot_seg \<in> set (segments p) \<longleftrightarrow> dot_dot_at p \<or> dot_dot_seg \<in> set (tl (segments p))"
proof -
  have "xs \<noteq> [] \<Longrightarrow> x \<in> set xs \<longleftrightarrow> hd xs = x \<or> x \<in> set (tl xs)" for x :: bytes and xs
    by (cases xs) auto
  from this [OF segments_not_Nil] show ?thesis by (simp add: dot_dot_at_segments)
qed

lemma unsafe_unescaped_exact:
  "unsafe_unescaped p \<longleftrightarrow> 0 \<in> set p \<or> dot_dot_seg \<in> set (tl (segments p))"
proof (induction p)
  case Nil
  then show ?case by simp
next
  case (Cons b p)
  have "tl (segments (b # p)) = (if b = ch CHR ''/'' then segments p else tl (segments p))"
    using segments_not_Nil [of p] by (cases "segments p") auto
  then show ?case
    unfolding unsafe_unescaped.simps Cons.IH by (cases "b = ch CHR ''/''") (auto simp: dot_dot_segments)
qed

lemma unescape_no_percent:
  "ch CHR ''%'' \<notin> set p \<Longrightarrow> unescape_loop us_usual d q p 0 = (p, [])"
  by (induction p arbitrary: d q) (auto simp: emit_def)

lemma unsafe_uri_spec:
  "ngx_http_parse_unsafe_uri True uri =
     (let path = uri_path uri; final = fst (ngx_unescape_uri path 0) in
      if path = [] \<or> 0 \<in> set path \<or> dot_dot_seg \<in> set (seen_segments uri)
         \<or> ch CHR ''%'' \<in> set path \<and> (0 \<in> set final \<or> dot_dot_seg \<in> set (segments final))
      then None else Some (final, uri_args uri))"
proof -
  define rest where "rest = dropWhile (\<lambda>b. b \<noteq> ch CHR ''?'') uri"
  have take: "take (length uri - length rest) uri = uri_path uri"
    unfolding rest_def uri_path_def
    by (metis takeWhile_dropWhile_id append_eq_conv_conj length_append add_diff_cancel_right')
  have args: "(if rest = [] then None else Some (tl rest)) = uri_args uri"
    unfolding uri_args_def rest_def [symmetric] by (cases rest) simp_all
  have seen: "dot_dot_seg \<in> set (seen_segments uri) \<longleftrightarrow> dot_dot_at uri \<or> dot_dot_seg \<in> set (tl (seen_segments uri))"
    by (cases "seen_segments uri") (auto simp: dot_dot_at_seen)
  have nil: "uri = [] \<or> hd uri = ch CHR ''?'' \<longleftrightarrow> uri_path uri = []"
    by (cases uri) (auto simp: uri_path_def)
  have same: "ch CHR ''%'' \<notin> set (uri_path uri) \<Longrightarrow> fst (ngx_unescape_uri (uri_path uri) 0) = uri_path uri"
    by (simp add: ngx_unescape_uri_def unescape_no_percent)
  show ?thesis
    unfolding ngx_http_parse_unsafe_uri_def nil unsafe_loop_exact rest_def [symmetric]
    using same by (auto simp: Let_def take args seen dot_dot_segments unsafe_unescaped_exact)
qed

text \<open>
  Fact (functional).  A URI taken from a header is accepted exactly when its path is not empty and
  neither the path as it stands nor the unescaped path holds a NUL or a segment of two dots, with one
  exception: the last segment before a question mark is not looked at as it stands.  The answer is the
  unescaped path and what follows the first question mark.
\<close>

theorem unsafe_uri_exact:
  "ngx_http_parse_unsafe_uri True uri =
     (let path = uri_path uri; final = fst (ngx_unescape_uri path 0) in
      if path = [] \<or> 0 \<in> set path \<or> dot_dot_seg \<in> set (seen_segments uri)
         \<or> ch CHR ''%'' \<in> set path \<and> (0 \<in> set final \<or> dot_dot_seg \<in> set (segments final))
      then None else Some (final, uri_args uri))"
  by (rule unsafe_uri_spec)

text \<open>
  Property C33 (safety).  An accepted URI without arguments holds no NUL and no segment of two dots, so it
  names nothing above the directory it is appended to.
\<close>

theorem unsafe_uri_safe:
  assumes "ngx_http_parse_unsafe_uri mem_ok uri = Some (path, None)"
  shows "0 \<notin> set path \<and> dot_dot_seg \<notin> set (segments path)"
proof -
  have "ngx_http_parse_unsafe_uri True uri = Some (path, None)"
    using assms by (auto simp: ngx_http_parse_unsafe_uri_def Let_def split: if_splits option.splits)
  note ok = this [unfolded unsafe_uri_spec Let_def]
  show ?thesis
  proof (cases "ch CHR ''%'' \<in> set (uri_path uri)")
    case True
    with ok show ?thesis by (simp split: if_splits)
  next
    case False
    then have "fst (ngx_unescape_uri (uri_path uri) 0) = uri_path uri"
      by (simp add: ngx_unescape_uri_def unescape_no_percent [simplified])
    with ok False show ?thesis by (simp add: seen_segments_def split: if_splits)
  qed
qed

theorem unsafe_uri_safe_witness:
  "ngx_http_parse_unsafe_uri True (chars ''/a%2Eb'') = Some (chars ''/a.b'', None)
   \<and> 0 \<notin> set (chars ''/a.b'') \<and> dot_dot_seg \<notin> set (segments (chars ''/a.b''))"
proof -
  have "ngx_http_parse_unsafe_uri True (chars ''/a%2Eb'') = Some (chars ''/a.b'', None)"
    by code_simp
  from unsafe_uri_safe [OF this] this show ?thesis by (simp add: chars_def)
qed

text \<open>
  Fact (error).  The exception lets a climbing URI through: two dots right before a question mark
  are taken for neither the end of the URI nor a segment that a slash ends.
\<close>

theorem unsafe_uri_misses_dots:
  "ngx_http_parse_unsafe_uri True (chars ''/..?x'') = Some (chars ''/..'', Some (chars ''x''))
   \<and> ngx_http_parse_unsafe_uri True (chars ''/..'') = None
   \<and> ngx_http_parse_unsafe_uri True (chars ''/../?x'') = None"
  by (simp add: ngx_http_parse_unsafe_uri_def chars_def is_usual_iff)

section \<open>Arguments\<close>

text \<open>\<^verbatim>\<open>ngx_strlchr\<close>: the offset of the first byte \<open>c\<close> in what is left of a string.\<close>

fun ngx_strlchr :: "bytes \<Rightarrow> u_char \<Rightarrow> nat option" where
  "ngx_strlchr [] c = None"
| "ngx_strlchr (b # p) c = (if b = c then Some 0 else map_option Suc (ngx_strlchr p c))"

text \<open>The new URI and the arguments, empty when there is no question mark.\<close>

definition ngx_http_split_args :: "bytes \<Rightarrow> bytes \<times> bytes" where
  "ngx_http_split_args uri =
     (case ngx_strlchr uri (ch CHR ''?'') of
        Some p \<Rightarrow> (take p uri, drop (p + 1) uri)
      | None \<Rightarrow> (uri, []))"

text \<open>
  The loop of \<^verbatim>\<open>ngx_http_arg\<close> from the position \<open>p\<close>: the inner \<^term>\<open>None\<close> is \<^verbatim>\<open>NGX_DECLINED\<close>, the
  outer one a read past the end of an object.
\<close>

function arg_loop :: "bytes \<Rightarrow> bytes \<Rightarrow> nat \<Rightarrow> bytes option option" where
  "arg_loop args name p =
     (if p < length args then
        case ngx_strlcasestrn (drop p args) (int (length args) - int p - 1) name (length name - 1) of
          None \<Rightarrow> None
        | Some None \<Rightarrow> Some None
        | Some (Some i) \<Rightarrow>
            let q = p + i in
            if q + length name \<ge> length args then None
            else if (q = 0 \<or> args ! (q - 1) = ch CHR ''&'') \<and> args ! (q + length name) = ch CHR ''='' then
              (let v = q + length name + 1;
                   e = (case ngx_strlchr (drop q args) (ch CHR ''&'') of Some k \<Rightarrow> q + k | None \<Rightarrow> length args)
               in if e < v then None else Some (Some (take (e - v) (drop v args))))
            else arg_loop args name (q + 1)
      else Some None)"
  by pat_completeness auto
termination by (relation "measure (\<lambda>(args, name, p). length args - p)") auto

declare arg_loop.simps [simp del]

definition ngx_http_arg :: "bytes \<Rightarrow> bytes \<Rightarrow> bytes option option" where
  "ngx_http_arg args name = (if args = [] then Some None else arg_loop args name 0)"

lemma ngx_strlchr_split:
  "ngx_strlchr p c = (if c \<in> set p then Some (length (takeWhile (\<lambda>b. b \<noteq> c) p)) else None)"
  by (induction p) auto

text \<open>
  Fact (functional).  Splitting the arguments off a URI cuts it at its first question mark, which
  belongs to neither part.
\<close>

theorem split_args_exact:
  "ngx_http_split_args uri = (uri_path uri, case uri_args uri of None \<Rightarrow> [] | Some args \<Rightarrow> args)"
  by (induction uri) (auto simp: ngx_http_split_args_def uri_path_def uri_args_def split: option.splits)

text \<open>
  The reference: the items between ampersands in their order; the first that is the name, up to case,
  and an equals sign gives the value.
\<close>

definition ci_prefix :: "bytes \<Rightarrow> bytes \<Rightarrow> bool" where
  "ci_prefix name s \<longleftrightarrow> length name \<le> length s \<and> ngx_strlow (take (length name) s) = ngx_strlow name"

function find_arg :: "bytes \<Rightarrow> bytes \<Rightarrow> bytes option" where
  "find_arg name s =
     (if ci_prefix name s \<and> length name < length s \<and> s ! length name = ch CHR ''=''
      then Some (takeWhile (\<lambda>b. b \<noteq> ch CHR ''&'') (drop (length name + 1) s))
      else case dropWhile (\<lambda>b. b \<noteq> ch CHR ''&'') s of
             [] \<Rightarrow> None
           | _ # t \<Rightarrow> find_arg name t)"
  by pat_completeness auto
termination
proof (relation "measure (\<lambda>(name, s). length s)", goal_cases)
  case 1
  then show ?case by simp
next
  case (2 name s a t)
  have "length (dropWhile (\<lambda>b. b \<noteq> ch CHR ''&'') s) \<le> length s" by (rule length_dropWhile_le)
  with 2 show ?case by simp
qed

declare find_arg.simps [simp del]

text \<open>The search finds the first position at which the name stands, up to case.\<close>

lemma ci_prefix_Cons:
  "ci_prefix (c # t) (b # s) \<longleftrightarrow> ngx_tolower b = ngx_tolower c \<and> ci_prefix t s"
  by (auto simp: ci_prefix_def ngx_strlow_def)

lemma strlcasestrn_loop_first:
  assumes "0 \<notin> set t" and "lst + int (length t) \<le> int i + int (length s)"
  shows "\<exists>r. strlcasestrn_loop s lst (ngx_tolower c) t (length t) i = Some r
    \<and> (case r of
         None \<Rightarrow> \<forall>k. int (i + k) < lst \<longrightarrow> \<not> ci_prefix (c # t) (drop k s)
       | Some j \<Rightarrow> i \<le> j \<and> int j < lst \<and> ci_prefix (c # t) (drop (j - i) s)
           \<and> (\<forall>k. i + k < j \<longrightarrow> \<not> ci_prefix (c # t) (drop k s)))"
  using assms(2)
proof (induction s arbitrary: i)
  case Nil
  then show ?case by (simp add: strlcasestrn_loop.simps)
next
  case (Cons b s)
  show ?case
  proof (cases "int i < lst")
    case False
    then show ?thesis by (simp add: strlcasestrn_loop.simps)
  next
    case True
    with Cons.prems have len: "length t \<le> length s" by simp
    from ngx_strncasecmp_eq [OF len, of t] assms(1) obtain r where r: "ngx_strncasecmp s t (length t) = Some r"
      "r = 0 \<longleftrightarrow> ci_prefix t s"
      using len by (auto simp: ci_prefix_def)
    have IH: "\<exists>r. strlcasestrn_loop s lst (ngx_tolower c) t (length t) (Suc i) = Some r
      \<and> (case r of
           None \<Rightarrow> \<forall>k. int (Suc i + k) < lst \<longrightarrow> \<not> ci_prefix (c # t) (drop k s)
         | Some j \<Rightarrow> Suc i \<le> j \<and> int j < lst \<and> ci_prefix (c # t) (drop (j - Suc i) s)
             \<and> (\<forall>k. Suc i + k < j \<longrightarrow> \<not> ci_prefix (c # t) (drop k s)))"
      using Cons.prems by (intro Cons.IH) simp
    show ?thesis
    proof (cases "ci_prefix (c # t) (b # s)")
      case True
      with \<open>int i < lst\<close> r show ?thesis
        by (simp add: strlcasestrn_loop.simps [of "b # s"] ci_prefix_Cons)
    next
      case no: False
      with \<open>int i < lst\<close> r have eq: "strlcasestrn_loop (b # s) lst (ngx_tolower c) t (length t) i =
          strlcasestrn_loop s lst (ngx_tolower c) t (length t) (Suc i)"
        by (auto simp: strlcasestrn_loop.simps [of "b # s"] ci_prefix_Cons)
      from IH obtain x where "strlcasestrn_loop s lst (ngx_tolower c) t (length t) (Suc i) = Some x"
        and x: "case x of
           None \<Rightarrow> \<forall>k. int (Suc i + k) < lst \<longrightarrow> \<not> ci_prefix (c # t) (drop k s)
         | Some j \<Rightarrow> Suc i \<le> j \<and> int j < lst \<and> ci_prefix (c # t) (drop (j - Suc i) s)
             \<and> (\<forall>k. Suc i + k < j \<longrightarrow> \<not> ci_prefix (c # t) (drop k s))" by blast
      with eq have res: "strlcasestrn_loop (b # s) lst (ngx_tolower c) t (length t) i = Some x" by simp
      show ?thesis
      proof (cases x)
        case None
        then have "\<forall>k. int (Suc i + k) < lst \<longrightarrow> \<not> ci_prefix (c # t) (drop k s)" using x by simp
        then have "int (i + k) < lst \<Longrightarrow> \<not> ci_prefix (c # t) (drop k (b # s))" for k
          using no by (cases k) auto
        then show ?thesis using res None by auto
      next
        case (Some j)
        with x have "Suc i \<le> j" by simp
        then have "j - i = Suc (j - Suc i)" by simp
        then have "drop (j - i) (b # s) = drop (j - Suc i) s" by simp
        moreover have "i + k < j \<Longrightarrow> \<not> ci_prefix (c # t) (drop k (b # s))" for k
          using x Some no by (cases k) auto
        ultimately show ?thesis using x Some res by simp
      qed
    qed
  qed
qed

section \<open>The item that is found\<close>

text \<open>What the reference finds from the first item that starts at \<open>p\<close> or later.\<close>

definition item_start :: "bytes \<Rightarrow> nat \<Rightarrow> bool" where
  "item_start args p \<longleftrightarrow> p = 0 \<or> args ! (p - 1) = ch CHR ''&''"

definition find_from :: "bytes \<Rightarrow> bytes \<Rightarrow> nat \<Rightarrow> bytes option" where
  "find_from args name p =
     (if item_start args p then find_arg name (drop p args)
      else case dropWhile (\<lambda>b. b \<noteq> ch CHR ''&'') (drop p args) of
             [] \<Rightarrow> None
           | _ # t \<Rightarrow> find_arg name t)"

definition is_arg :: "bytes \<Rightarrow> bytes \<Rightarrow> nat \<Rightarrow> bool" where
  "is_arg args name q \<longleftrightarrow> item_start args q \<and> ci_prefix name (drop q args)
     \<and> q + length name < length args \<and> args ! (q + length name) = ch CHR ''=''"

lemma find_from_step:
  assumes "p < length args" and "\<not> is_arg args name p"
  shows "find_from args name p = find_from args name (Suc p)"
proof -
  have drop: "drop p args = args ! p # drop (Suc p) args" using assms(1) by (rule Cons_nth_drop_Suc [symmetric])
  have no: "item_start args p \<Longrightarrow> find_arg name (drop p args) =
      (case dropWhile (\<lambda>b. b \<noteq> ch CHR ''&'') (drop p args) of [] \<Rightarrow> None | _ # t \<Rightarrow> find_arg name t)"
    using assms by (subst find_arg.simps) (auto simp: is_arg_def)
  have "find_from args name p =
      (case dropWhile (\<lambda>b. b \<noteq> ch CHR ''&'') (drop p args) of [] \<Rightarrow> None | _ # t \<Rightarrow> find_arg name t)"
    using no by (simp add: find_from_def)
  then show ?thesis by (simp add: drop find_from_def item_start_def)
qed

lemma find_from_skip:
  assumes "p \<le> q" and "q \<le> length args" and "\<forall>x. p \<le> x \<and> x < q \<longrightarrow> \<not> is_arg args name x"
  shows "find_from args name p = find_from args name q"
  using assms
proof (induction "q - p" arbitrary: p)
  case 0
  then show ?case by simp
next
  case (Suc n)
  then have "find_from args name (Suc p) = find_from args name q" by simp
  with Suc find_from_step [of p args name] show ?case by simp
qed

lemma find_from_end:
  assumes "name \<noteq> []"
  shows "find_from args name (length args) = None"
  using assms by (simp add: find_from_def find_arg.simps [of name "[]"] ci_prefix_def)

lemma tolower_amp: "ngx_tolower b = ch CHR ''&'' \<longleftrightarrow> b = ch CHR ''&''"
  by (rule byte_exhaust) (simp add: byte_values_def ngx_tolower_def)

lemma arg_value:
  assumes "is_arg args name q" and "ch CHR ''&'' \<notin> set name" and "v = q + length name + 1"
    and "e = (case ngx_strlchr (drop q args) (ch CHR ''&'') of Some k \<Rightarrow> q + k | None \<Rightarrow> length args)"
  shows "v \<le> e \<and> find_from args name q = Some (take (e - v) (drop v args))"
proof -
  define w where "w = take (length name + 1) (drop q args)"
  have in_range: "q + length name < length args" and eq: "args ! (q + length name) = ch CHR ''=''"
    and low: "ngx_strlow (take (length name) (drop q args)) = ngx_strlow name" and start: "item_start args q"
    using assms(1) by (auto simp: is_arg_def ci_prefix_def)
  have split: "drop q args = w @ drop v args"
    using append_take_drop_id [of "length name + 1" "drop q args"] by (simp add: w_def assms(3) ac_simps)
  have "w = take (length name) (drop q args) @ [ch CHR ''='']"
    using in_range eq by (simp add: w_def take_Suc_conv_app_nth)
  moreover have "ch CHR ''&'' \<notin> set (take (length name) (drop q args))"
  proof
    assume "ch CHR ''&'' \<in> set (take (length name) (drop q args))"
    then have "ngx_tolower (ch CHR ''&'') \<in> set (ngx_strlow (take (length name) (drop q args)))"
      unfolding ngx_strlow_def set_map by (rule imageI)
    then have "ch CHR ''&'' \<in> set (ngx_strlow name)"
      by (simp add: low ngx_tolower_def)
    then obtain b where "b \<in> set name" "ngx_tolower b = ch CHR ''&''" by (auto simp: ngx_strlow_def)
    with assms(2) show False by (metis tolower_amp)
  qed
  ultimately have no_amp: "ch CHR ''&'' \<notin> set w" by simp
  have len: "length w = length name + 1" using in_range by (simp add: w_def)
  have tw: "takeWhile (\<lambda>b. b \<noteq> ch CHR ''&'') (w @ z) = w @ takeWhile (\<lambda>b. b \<noteq> ch CHR ''&'') z" for z
    using no_amp by (intro takeWhile_append2) auto
  define val where "val = takeWhile (\<lambda>b. b \<noteq> ch CHR ''&'') (drop v args)"
  have "e = v + length val"
  proof (cases "ch CHR ''&'' \<in> set (drop v args)")
    case True
    then show ?thesis
      unfolding assms(4) ngx_strlchr_split split tw by (simp add: val_def len assms(3))
  next
    case False
    then have "val = drop v args" unfolding val_def takeWhile_eq_all_conv by auto
    with False no_amp in_range show ?thesis
      unfolding assms(4) ngx_strlchr_split split by (simp add: assms(3))
  qed
  moreover have "take (length val) (drop v args) = val"
    unfolding val_def by (metis append_eq_conv_conj takeWhile_dropWhile_id)
  moreover have "find_from args name q = Some val"
  proof -
    have "length name < length args - q" using in_range by linarith
    with assms(1) start show ?thesis
      by (simp add: find_from_def find_arg.simps [of name "drop q args"] is_arg_def val_def assms(3) ac_simps)
  qed
  ultimately show ?thesis by simp
qed

lemma arg_loop_finds:
  assumes "name \<noteq> []" and "0 \<notin> set name" and "ch CHR ''&'' \<notin> set name" and "p \<le> length args"
  shows "arg_loop args name p = Some (find_from args name p)"
  using assms
proof (induction args name p rule: arg_loop.induct)
  case (1 args name p)
  show ?case
  proof (cases "p < length args")
    case False
    with 1 have "p = length args" by simp
    with 1 find_from_end show ?thesis by (simp add: arg_loop.simps)
  next
    case True
    obtain c t where name: "name = c # t" using 1 by (cases name) auto
    define lst where "lst = int (length args) - int p - 1 - int (length t)"
    have search: "ngx_strlcasestrn (drop p args) (int (length args) - int p - 1) name (length name - 1) =
        strlcasestrn_loop (drop p args) lst (ngx_tolower c) t (length t) 0"
      by (simp add: ngx_strlcasestrn_def name lst_def)
    have "0 \<notin> set t" "lst + int (length t) \<le> int 0 + int (length (drop p args))"
      using 1 by (auto simp: name lst_def)
    from strlcasestrn_loop_first [OF this, of c] obtain x where
      x: "ngx_strlcasestrn (drop p args) (int (length args) - int p - 1) name (length name - 1) = Some x"
      and first: "case x of
           None \<Rightarrow> \<forall>k. int (0 + k) < lst \<longrightarrow> \<not> ci_prefix (c # t) (drop k (drop p args))
         | Some j \<Rightarrow> 0 \<le> j \<and> int j < lst \<and> ci_prefix (c # t) (drop (j - 0) (drop p args))
             \<and> (\<forall>k. 0 + k < j \<longrightarrow> \<not> ci_prefix (c # t) (drop k (drop p args)))"
      unfolding search by blast
    have skip: "\<not> is_arg args name y" if "p \<le> y" "\<And>k. y = p + k \<Longrightarrow> int k < lst \<Longrightarrow> \<not> ci_prefix name (drop k (drop p args))" for y
    proof
      assume is_arg: "is_arg args name y"
      obtain k where k: "y = p + k" using le_Suc_ex [OF \<open>p \<le> y\<close>] by blast
      have "y + length name < length args" using is_arg by (simp add: is_arg_def)
      then have "int k < lst" unfolding k lst_def name by simp
      moreover have "ci_prefix name (drop k (drop p args))"
        using is_arg unfolding k is_arg_def by (simp add: add.commute)
      ultimately show False using that(2) [OF k] by blast
    qed
    show ?thesis
    proof (cases x)
      case None
      with first skip have "\<forall>y. p \<le> y \<and> y < length args \<longrightarrow> \<not> is_arg args name y"
        by (auto simp: name)
      with find_from_skip [of p "length args" args name] find_from_end [of name args] 1 True x None
      show ?thesis by (simp add: arg_loop.simps)
    next
      case (Some i)
      define q where "q = p + i"
      have q: "q + length name < length args" "ci_prefix name (drop q args)"
        using first Some by (auto simp: q_def lst_def name add.commute)
      have "\<not> is_arg args name y" if "p \<le> y" "y < q" for y
        using that first Some by (intro skip) (auto simp: q_def name)
      with find_from_skip [of p q args name] q have skipped: "find_from args name p = find_from args name q"
        by (simp add: q_def)
      show ?thesis
      proof (cases "is_arg args name q")
        case arg: True
        then have "(q = 0 \<or> args ! (q - 1) = ch CHR ''&'') \<and> args ! (q + length name) = ch CHR ''=''"
          by (auto simp: is_arg_def item_start_def)
        with True q x Some arg_value [OF arg _ refl refl] 1 skipped show ?thesis
          by (simp add: arg_loop.simps [of args name p] Let_def q_def [symmetric] not_less)
      next
        case no: False
        then have neg: "((q = 0 \<or> args ! (q - 1) = ch CHR ''&'') \<and> args ! (q + length name) = ch CHR ''='') = False"
          using q by (auto simp: is_arg_def item_start_def)
        have "\<not> q + length name \<ge> length args" using q by simp
        then have "arg_loop args name p = arg_loop args name (q + 1)"
          by (subst arg_loop.simps)
            (simp only: x Some option.case Let_def q_def [symmetric] neg True if_True if_False)
        moreover have "arg_loop args name (q + 1) = Some (find_from args name (q + 1))"
          using 1 True x Some q neg by (intro "1.IH" [OF True x Some q_def]) auto
        ultimately show ?thesis
          using skipped find_from_step [of q args name] no q by simp
      qed
    qed
  qed
qed

text \<open>
  Fact (error).  A search for the empty name in arguments that are not empty reads the byte after the name.
\<close>

lemma arg_empty_name: "args \<noteq> [] \<Longrightarrow> ngx_http_arg args [] = None"
  by (simp add: ngx_http_arg_def arg_loop.simps [of args "[]" 0] ngx_strlcasestrn_def)

text \<open>
  Property C39 (equivalence).  Looking up an argument, a search for the name anywhere in the text that
  is then checked for an ampersand before it and an equals sign after it, finds, for a name without NUL and ampersand (as the names of
  variables are), what the reference finds that looks at the items between the ampersands in turn: the value of the first item with that
  name, up to case, without a read outside of the arguments.  The exception is the empty name, which the variable
  \<^verbatim>\<open>$arg_\<close> gives: then \<^verbatim>\<open>len - 1\<close> wraps and the search reads outside of the name, unless there are no arguments.
\<close>

theorem arg_lookup:
  assumes "0 \<notin> set name" and "ch CHR ''&'' \<notin> set name"
  shows "ngx_http_arg args name =
    (if name = [] then (if args = [] then Some None else None) else Some (find_arg name args))"
proof (cases "args = [] \<or> name = []")
  case True
  then show ?thesis
    using arg_empty_name [of args] by (auto simp: ngx_http_arg_def find_arg.simps [of name "[]"] ci_prefix_def)
next
  case False
  with arg_loop_finds [OF _ assms, of 0 args] show ?thesis
    by (simp add: ngx_http_arg_def find_from_def item_start_def)
qed

theorem arg_lookup_witness:
  "ngx_http_arg (chars ''best=1&ST=xyz&st=2'') (chars ''st'') = Some (Some (chars ''xyz''))"
proof -
  have "0 \<notin> set (chars ''st'')" "ch CHR ''&'' \<notin> set (chars ''st'')"
    by (simp_all add: chars_def)
  from arg_lookup [OF this] show ?thesis
    by (simp add: chars_def find_arg.simps ci_prefix_def ngx_strlow_def ngx_tolower_def)
qed

end
