(* ===== verification/Ngx_Http_Cookies.thy ===== *)
theory Ngx_Http_Cookies
  imports Ngx_Http_Args
begin

text \<open>
  The look-ups of \<^verbatim>\<open>src/http/ngx_http_parse.c\<close> in header values: \<^verbatim>\<open>ngx_http_parse_multi_header_lines\<close>
  and \<^verbatim>\<open>ngx_http_parse_set_cookie_lines\<close>.  A header value is the list of its bytes; the code that
  stores it puts a NUL after it, which stops the comparison with a name.
\<close>

section \<open>Model\<close>

datatype lookup = Overread | Declined | Found nat bytes

definition skip_spaces :: "bytes \<Rightarrow> bytes" where
  "skip_spaces s = dropWhile (\<lambda>b. b = ch CHR '' '') s"

text \<open>The code at the label \<^verbatim>\<open>skip\<close>: past the next separator and the spaces after it.\<close>

definition skip_item :: "bytes \<Rightarrow> bytes" where
  "skip_item s =
     (case dropWhile (\<lambda>b. b \<noteq> ch CHR '';'' \<and> b \<noteq> ch CHR '','') s of
        [] \<Rightarrow> []
      | _ # t \<Rightarrow> skip_spaces t)"

lemma length_skip_spaces: "length (skip_spaces s) \<le> length s"
  by (simp add: skip_spaces_def length_dropWhile_le)

lemma length_skip_item:
  assumes "s \<noteq> []"
  shows "length (skip_item s) < length s"
proof (cases "dropWhile (\<lambda>b. b \<noteq> ch CHR '';'' \<and> b \<noteq> ch CHR '','') s")
  case (Cons b t)
  with length_dropWhile_le [of "\<lambda>b. b \<noteq> ch CHR '';'' \<and> b \<noteq> ch CHR '',''" s] length_skip_spaces [of t]
  show ?thesis by (simp add: skip_item_def)
next
  case Nil
  from assms show ?thesis unfolding skip_item_def Nil by simp
qed

lemma length_skip_item_le: "length (skip_item s) \<le> length s"
  using length_skip_item [of s] by (cases "s = []") (simp_all add: skip_item_def)

text \<open>
  The loop over the value of the header \<open>i\<close>; \<open>s\<close> is what is left of it.  \<open>want\<close> says that the caller
  asks for the value, which is the text after an equals sign.
\<close>

function multi_line :: "nat \<Rightarrow> bool \<Rightarrow> bytes \<Rightarrow> bytes \<Rightarrow> lookup" where
  "multi_line i want name s =
     (if s = [] then Declined
      else case ngx_strncasecmp (s @ [0]) name (length name) of
        None \<Rightarrow> Overread
      | Some r \<Rightarrow>
          if r \<noteq> 0 then multi_line i want name (skip_item s)
          else
            let s1 = skip_spaces (drop (length name) s) in
            if \<not> want then
              (if s1 = [] \<or> hd s1 = ch CHR '','' then Found i [] else multi_line i want name (skip_item s1))
            else if s1 = [] then multi_line i want name (skip_item s1)
            else if hd s1 \<noteq> ch CHR ''='' then multi_line i want name (skip_item (tl s1))
            else Found i (takeWhile (\<lambda>b. b \<noteq> ch CHR '';'') (skip_spaces (tl s1))))"
  by pat_completeness auto
termination
proof (relation "measure (\<lambda>(i, want, name, s). length s)", goal_cases)
  case 1
  then show ?case by simp
next
  case (2 i want name s r)
  then show ?case by (simp add: length_skip_item)
next
  case (3 i want name s r s1)
  then have "length s1 \<le> length s" using length_skip_spaces [of "drop (length name) s"] by simp
  with 3 length_skip_item [of s1] show ?case by simp
next
  case (4 i want name s r s1)
  then show ?case by (simp add: skip_item_def)
next
  case (5 i want name s r s1)
  then have "length s1 \<le> length s" using length_skip_spaces [of "drop (length name) s"] by simp
  moreover have "s1 \<noteq> []" using 5 by simp
  ultimately have "length (tl s1) < length s" by (cases s1) simp_all
  with length_skip_item_le [of "tl s1"] show ?case by simp
qed

declare multi_line.simps [simp del]

fun multi_lines :: "nat \<Rightarrow> bool \<Rightarrow> bytes \<Rightarrow> bytes list \<Rightarrow> lookup" where
  "multi_lines i want name [] = Declined"
| "multi_lines i want name (v # vs) =
     (if length name > length v then multi_lines (i + 1) want name vs
      else case multi_line i want name v of
        Declined \<Rightarrow> multi_lines (i + 1) want name vs
      | x \<Rightarrow> x)"

definition ngx_http_parse_multi_header_lines :: "bytes list \<Rightarrow> bytes \<Rightarrow> bool \<Rightarrow> lookup" where
  "ngx_http_parse_multi_header_lines headers name want = multi_lines 0 want name headers"

fun set_cookie_lines :: "nat \<Rightarrow> bytes \<Rightarrow> bytes list \<Rightarrow> lookup" where
  "set_cookie_lines i name [] = Declined"
| "set_cookie_lines i name (v # vs) =
     (if length name \<ge> length v then set_cookie_lines (i + 1) name vs
      else case ngx_strncasecmp (v @ [0]) name (length name) of
        None \<Rightarrow> Overread
      | Some r \<Rightarrow>
          if r \<noteq> 0 then set_cookie_lines (i + 1) name vs
          else
            let s1 = skip_spaces (drop (length name) v) in
            if s1 = [] \<or> hd s1 \<noteq> ch CHR ''='' then set_cookie_lines (i + 1) name vs
            else Found i (takeWhile (\<lambda>b. b \<noteq> ch CHR '';'') (skip_spaces (tl s1))))"

definition ngx_http_parse_set_cookie_lines :: "bytes list \<Rightarrow> bytes \<Rightarrow> lookup" where
  "ngx_http_parse_set_cookie_lines headers name = set_cookie_lines 0 name headers"

section \<open>Cookies\<close>

definition token :: "bytes \<Rightarrow> bool" where
  "token k \<longleftrightarrow> k \<noteq> [] \<and> set k \<inter> {0, ch CHR '' '', ch CHR '';'', ch CHR '','', ch CHR ''=''} = {}"

definition cookie_value :: "bytes \<Rightarrow> bool" where
  "cookie_value v \<longleftrightarrow> set v \<inter> {ch CHR '';'', ch CHR '',''} = {} \<and> (v \<noteq> [] \<longrightarrow> hd v \<noteq> ch CHR '' '')"

definition pair_text :: "bytes \<times> bytes \<Rightarrow> bytes" where
  "pair_text p = fst p @ ch CHR ''='' # snd p"

fun cookie_text :: "(bytes \<times> bytes) list \<Rightarrow> bytes" where
  "cookie_text [] = []"
| "cookie_text [p] = pair_text p"
| "cookie_text (p # q # ps) = pair_text p @ ch CHR '';'' # ch CHR '' '' # cookie_text (q # ps)"

fun find_cookie :: "bytes \<Rightarrow> (bytes \<times> bytes) list \<Rightarrow> bytes option" where
  "find_cookie name [] = None"
| "find_cookie name ((k, v) # ps) =
     (if ngx_strlow k = ngx_strlow name then Some v else find_cookie name ps)"

fun find_cookies :: "nat \<Rightarrow> bytes \<Rightarrow> (bytes \<times> bytes) list list \<Rightarrow> lookup" where
  "find_cookies i name [] = Declined"
| "find_cookies i name (ps # pss) =
     (case find_cookie name ps of Some v \<Rightarrow> Found i v | None \<Rightarrow> find_cookies (i + 1) name pss)"

text \<open>Comparing the name with the start of an item \<open>k=rest\<close>.\<close>

lemma tolower_eq: "ngx_tolower b = ch CHR ''='' \<longleftrightarrow> b = ch CHR ''=''"
  by (rule byte_exhaust) (simp add: byte_values_def ngx_tolower_def)

lemma compare_terminated:
  assumes "0 \<notin> set name"
  shows "\<exists>r. ngx_strncasecmp (s @ [0]) name (length name) = Some r \<and> (r = 0 \<longleftrightarrow> ci_prefix name s)"
  using assms
proof (induction name arbitrary: s)
  case Nil
  then show ?case by (simp add: ci_prefix_def ngx_strlow_def)
next
  case (Cons c name)
  then have c: "c \<noteq> 0" "0 \<notin> set name" by auto
  show ?case
  proof (cases s)
    case Nil
    with c show ?thesis by (simp add: ci_prefix_def Let_def)
  next
    case (Cons b t)
    with c Cons.IH [OF c(2), of t] show ?thesis
      by (cases "b = 0") (auto simp: ci_prefix_Cons Let_def)
  qed
qed

lemma ci_prefix_pair:
  assumes "token k" and "token name"
  shows "ci_prefix name (k @ ch CHR ''='' # rest) \<longleftrightarrow> (\<exists>k1 k2. k = k1 @ k2 \<and> length k1 = length name \<and> ngx_strlow k1 = ngx_strlow name)"
proof
  assume pre: "ci_prefix name (k @ ch CHR ''='' # rest)"
  have "length name \<le> length k"
  proof (rule ccontr)
    assume short: "\<not> ?thesis"
    then have "ch CHR ''='' = take (length name) (k @ ch CHR ''='' # rest) ! length k"
      by (simp add: nth_append)
    moreover have "length k < length (take (length name) (k @ ch CHR ''='' # rest))"
      using short pre by (simp add: ci_prefix_def)
    ultimately have "ch CHR ''='' = ngx_strlow (take (length name) (k @ ch CHR ''='' # rest)) ! length k"
      using short by (cases "length name - length k") (simp_all add: ngx_strlow_def ngx_tolower_def nth_append)
    also have "\<dots> = ngx_tolower (name ! length k)"
      using pre short by (simp add: ci_prefix_def) (simp add: ngx_strlow_def)
    finally have "name ! length k = ch CHR ''=''" using tolower_eq by metis
    with short have "ch CHR ''='' \<in> set name" by (metis not_le nth_mem)
    with assms show False by (simp add: token_def)
  qed
  then have "take (length name) (k @ ch CHR ''='' # rest) = take (length name) k" by simp
  with pre \<open>length name \<le> length k\<close> show "\<exists>k1 k2. k = k1 @ k2 \<and> length k1 = length name \<and> ngx_strlow k1 = ngx_strlow name"
    by (intro exI [of _ "take (length name) k"] exI [of _ "drop (length name) k"]) (simp add: ci_prefix_def)
qed (auto simp: ci_prefix_def)

text \<open>One item, with what follows it.\<close>

lemma skip_item_text:
  assumes "set w \<inter> {ch CHR '';'', ch CHR '',''} = {}"
  shows "skip_item w = []" "skip_item (w @ ch CHR '';'' # t) = skip_spaces t"
proof -
  have plain: "b \<noteq> ch CHR '';'' \<and> b \<noteq> ch CHR '',''" if "b \<in> set w" for b using that assms by auto
  then have "dropWhile (\<lambda>b. b \<noteq> ch CHR '';'' \<and> b \<noteq> ch CHR '','') w = []" by simp
  then show "skip_item w = []" unfolding skip_item_def by (simp only: list.case)
  show "skip_item (w @ ch CHR '';'' # t) = skip_spaces t"
    using plain by (induction w) (simp_all add: skip_item_def)
qed

lemma pair_item:
  assumes k: "token k" and v: "cookie_value v" and name: "token name" and rest: "rest = [] \<or> hd rest = ch CHR '';''"
    and s: "s = k @ ch CHR ''='' # v @ rest" and s1: "s1 = skip_spaces (drop (length name) s)"
  shows "ngx_strlow k = ngx_strlow name \<Longrightarrow>
      ci_prefix name s \<and> s1 \<noteq> [] \<and> hd s1 = ch CHR ''=''
      \<and> takeWhile (\<lambda>b. b \<noteq> ch CHR '';'') (skip_spaces (tl s1)) = v"
    and "ngx_strlow k \<noteq> ngx_strlow name \<Longrightarrow> ci_prefix name s \<Longrightarrow>
      s1 \<noteq> [] \<and> hd s1 \<noteq> ch CHR ''=''
      \<and> (\<exists>w. tl s1 = w @ rest \<and> set w \<inter> {ch CHR '';'', ch CHR '',''} = {})"
proof -
  have len: "ngx_strlow a = ngx_strlow b \<Longrightarrow> length a = length b" for a b
    by (metis length_map ngx_strlow_def)
  {
    assume eq: "ngx_strlow k = ngx_strlow name"
    have "takeWhile (\<lambda>b. b \<noteq> ch CHR '';'') (skip_spaces (v @ rest)) = v"
      using v rest by (cases v; cases rest) (auto simp: skip_spaces_def cookie_value_def takeWhile_append)
    then show "ci_prefix name s \<and> s1 \<noteq> [] \<and> hd s1 = ch CHR ''=''
      \<and> takeWhile (\<lambda>b. b \<noteq> ch CHR '';'') (skip_spaces (tl s1)) = v"
      using eq len [OF eq] by (simp add: s1 s ci_prefix_def skip_spaces_def)
  next
    assume ne: "ngx_strlow k \<noteq> ngx_strlow name" and "ci_prefix name s"
    then obtain k1 k2 where split: "k = k1 @ k2" "length k1 = length name" "ngx_strlow k1 = ngx_strlow name"
      unfolding s using ci_prefix_pair [OF k name] by blast
    with ne obtain b k3 where k2: "k2 = b # k3" by (cases k2) auto
    have "b \<noteq> ch CHR '' ''" "b \<noteq> ch CHR ''=''" "set k3 \<inter> {ch CHR '';'', ch CHR '',''} = {}"
      using k by (auto simp: token_def split(1) k2)
    moreover have "set (k3 @ ch CHR ''='' # v) \<inter> {ch CHR '';'', ch CHR '',''} = {}"
      using calculation v by (auto simp: cookie_value_def)
    moreover have "s1 = skip_spaces (b # (k3 @ ch CHR ''='' # v) @ rest)"
      by (simp add: s1 s split(1) k2 flip: split(2))
    ultimately show "s1 \<noteq> [] \<and> hd s1 \<noteq> ch CHR ''=''
      \<and> (\<exists>w. tl s1 = w @ rest \<and> set w \<inter> {ch CHR '';'', ch CHR '',''} = {})"
      by (intro conjI exI [of _ "k3 @ ch CHR ''='' # v"]) (simp_all add: skip_spaces_def)
  }
qed

lemma multi_line_item:
  assumes k: "token k" and v: "cookie_value v" and name: "token name"
    and rest: "rest = [] \<and> later = [] \<or> rest = ch CHR '';'' # ch CHR '' '' # later"
    and later: "skip_spaces later = later"
  shows "multi_line i True name (k @ ch CHR ''='' # v @ rest) =
     (if ngx_strlow k = ngx_strlow name then Found i v else multi_line i True name later)"
proof -
  define s where "s = k @ ch CHR ''='' # v @ rest"
  define s1 where "s1 = skip_spaces (drop (length name) s)"
  have "rest = [] \<or> hd rest = ch CHR '';''" using rest by auto
  note item = pair_item [OF k v name this s_def s1_def]
  have skip: "skip_item (w @ rest) = later" if "set w \<inter> {ch CHR '';'', ch CHR '',''} = {}" for w
    using rest later skip_item_text [OF that] by (auto simp: skip_spaces_def)
  obtain r where cmp: "ngx_strncasecmp (s @ [0]) name (length name) = Some r" "r = 0 \<longleftrightarrow> ci_prefix name s"
    using compare_terminated [of name s] name by (auto simp: token_def)
  have "s \<noteq> []" by (simp add: s_def)
  with cmp have step: "multi_line i True name s =
      (if \<not> ci_prefix name s then multi_line i True name (skip_item s)
       else if s1 = [] then multi_line i True name (skip_item s1)
       else if hd s1 \<noteq> ch CHR ''='' then multi_line i True name (skip_item (tl s1))
       else Found i (takeWhile (\<lambda>b. b \<noteq> ch CHR '';'') (skip_spaces (tl s1))))"
    by (subst multi_line.simps) (simp add: s1_def Let_def)
  have "set (k @ ch CHR ''='' # v) \<inter> {ch CHR '';'', ch CHR '',''} = {}"
    using k v by (auto simp: token_def cookie_value_def)
  from skip [OF this] have whole: "skip_item s = later" by (simp add: s_def)
  show ?thesis
  proof (cases "ngx_strlow k = ngx_strlow name")
    case True
    with item(1) step show ?thesis by (simp add: s_def)
  next
    case False
    with item(2) step whole skip show ?thesis unfolding s_def [symmetric] by (cases "ci_prefix name s") auto
  qed
qed

definition cookies_ok :: "(bytes \<times> bytes) list \<Rightarrow> bool" where
  "cookies_ok ps \<longleftrightarrow> (\<forall>p \<in> set ps. token (fst p) \<and> cookie_value (snd p))"

lemma cookie_text_start:
  assumes "cookies_ok ps"
  shows "skip_spaces (cookie_text ps) = cookie_text ps"
proof (cases ps rule: cookie_text.cases)
  case 1
  then show ?thesis by (simp add: skip_spaces_def)
next
  case (2 p)
  with assms show ?thesis
    by (cases p; cases "fst p") (auto simp: cookies_ok_def token_def pair_text_def skip_spaces_def)
next
  case (3 p q qs)
  with assms show ?thesis
    by (cases p; cases "fst p") (auto simp: cookies_ok_def token_def pair_text_def skip_spaces_def)
qed

lemma multi_line_cookies:
  assumes "cookies_ok ps" and "token name"
  shows "multi_line i True name (cookie_text ps) =
     (case find_cookie name ps of Some v \<Rightarrow> Found i v | None \<Rightarrow> Declined)"
  using assms(1)
proof (induction ps rule: cookie_text.induct)
  case 1
  then show ?case by (simp add: multi_line.simps)
next
  case (2 p)
  then obtain k v where p: "p = (k, v)" "token k" "cookie_value v" by (cases p) (auto simp: cookies_ok_def)
  with multi_line_item [OF p(2,3) assms(2), of "[]" "[]" i] show ?case
    by (simp add: pair_text_def skip_spaces_def multi_line.simps [of i True name "[]"])
next
  case (3 p q ps)
  then obtain k v where p: "p = (k, v)" "token k" "cookie_value v" by (cases p) (auto simp: cookies_ok_def)
  have ok: "cookies_ok (q # ps)" using 3 by (auto simp: cookies_ok_def)
  with multi_line_item [OF p(2,3) assms(2), of "ch CHR '';'' # ch CHR '' '' # cookie_text (q # ps)" "cookie_text (q # ps)" i]
    3 p(1) cookie_text_start [OF ok] show ?case
    by (simp add: pair_text_def del: cookie_text.simps(2,3) find_cookie.simps add: cookie_text.simps(3) find_cookie.simps(2) [of name k v])
qed

lemma find_cookie_length:
  assumes "find_cookie name ps = Some v"
  shows "length name \<le> length (cookie_text ps)"
  using assms
proof (induction ps rule: cookie_text.induct)
  case (2 p)
  then show ?case by (cases p) (auto simp: pair_text_def ngx_strlow_def split: if_splits dest: map_eq_imp_length_eq)
next
  case (3 p q ps)
  have "find_cookie name (p # q # ps) = (if ngx_strlow (fst p) = ngx_strlow name then Some (snd p) else find_cookie name (q # ps))"
    by (cases p) simp
  moreover have "ngx_strlow (fst p) = ngx_strlow name \<Longrightarrow> length (fst p) = length name"
    by (metis length_map ngx_strlow_def)
  ultimately show ?case using 3 by (auto simp: pair_text_def simp del: find_cookie.simps(2) split: if_splits)
qed simp

text \<open>
  Fact (functional).  Looking up a cookie in the values of the \<^verbatim>\<open>Cookie\<close> headers, each a list of
  pairs \<open>name=value\<close> separated by a semicolon and a space, gives the value of the first pair of that
  name, up to case, and the number of its header, and nothing when there is no such pair; no comparison
  reads past the NUL after a value.
\<close>

theorem cookie_lookup:
  assumes "\<forall>ps \<in> set pss. cookies_ok ps" and "token name"
  shows "ngx_http_parse_multi_header_lines (map cookie_text pss) name True = find_cookies 0 name pss"
proof -
  have "multi_lines i True name (map cookie_text pss) = find_cookies i name pss" for i
    using assms(1)
  proof (induction pss arbitrary: i)
    case (Cons ps pss)
    then have "cookies_ok ps" by simp
    note line = multi_line_cookies [OF this assms(2), of i]
    show ?case
    proof (cases "find_cookie name ps")
      case None
      with Cons line show ?thesis by simp
    next
      case (Some v)
      with find_cookie_length [OF Some] Cons line show ?thesis by simp
    qed
  qed simp
  then show ?thesis by (simp add: ngx_http_parse_multi_header_lines_def)
qed

theorem cookie_lookup_witness:
  "ngx_http_parse_multi_header_lines [chars ''a=1'', chars ''lang=en; SID=31d4'', chars ''sid=0''] (chars ''sid'') True
   = Found 1 (chars ''31d4'')"
proof -
  have "\<forall>ps \<in> set [[(chars ''a'', chars ''1'')], [(chars ''lang'', chars ''en''), (chars ''SID'', chars ''31d4'')],
      [(chars ''sid'', chars ''0'')]]. cookies_ok ps"
    by (simp add: cookies_ok_def token_def cookie_value_def chars_def)
  moreover have "token (chars ''sid'')" by (simp add: token_def chars_def)
  ultimately show ?thesis
    using cookie_lookup [of "[[(chars ''a'', chars ''1'')], [(chars ''lang'', chars ''en''), (chars ''SID'', chars ''31d4'')],
      [(chars ''sid'', chars ''0'')]]" "chars ''sid''"]
    by (simp add: pair_text_def chars_def ngx_strlow_def ngx_tolower_def)
qed

text \<open>
  Fact (error).  An item with no value hides the item after it: the byte that is found not to be an
  equals sign is skipped, and when it is the separator, the rest of the loop skips the next item.
\<close>

theorem cookie_without_value_hides_next:
  "ngx_http_parse_multi_header_lines [chars ''a; a=1''] (chars ''a'') True = Declined
   \<and> ngx_http_parse_multi_header_lines [chars ''b; a=1''] (chars ''a'') True = Found 0 (chars ''1'')"
  by (simp add: ngx_http_parse_multi_header_lines_def multi_line.simps skip_item_def skip_spaces_def chars_def
      ngx_tolower_def Let_def)

text \<open>
  Fact (functional).  In \<^verbatim>\<open>Set-Cookie\<close> headers only the pair at the start of each value counts, and
  its value ends where the attributes start.
\<close>

theorem set_cookie_lookup:
  assumes "\<forall>(p, attrs) \<in> set hs. token (fst p) \<and> cookie_value (snd p) \<and> (attrs = [] \<or> hd attrs = ch CHR '';'')"
    and "token name"
  shows "ngx_http_parse_set_cookie_lines (map (\<lambda>(p, attrs). pair_text p @ attrs) hs) name =
     find_cookies 0 name (map (\<lambda>(p, attrs). [p]) hs)"
proof -
  have "set_cookie_lines i name (map (\<lambda>(p, attrs). pair_text p @ attrs) hs) =
      find_cookies i name (map (\<lambda>(p, attrs). [p]) hs)" for i
    using assms(1)
  proof (induction hs arbitrary: i)
    case (Cons h hs)
    obtain k v attrs where h: "h = ((k, v), attrs)" by (metis surj_pair)
    define s where "s = k @ ch CHR ''='' # v @ attrs"
    define s1 where "s1 = skip_spaces (drop (length name) s)"
    have ok: "token k" "cookie_value v" "attrs = [] \<or> hd attrs = ch CHR '';''" using Cons.prems h by auto
    note item = pair_item [OF ok(1,2) assms(2) ok(3) s_def s1_def]
    obtain r where cmp: "ngx_strncasecmp (s @ [0]) name (length name) = Some r" "r = 0 \<longleftrightarrow> ci_prefix name s"
      using compare_terminated [of name s] assms(2) by (auto simp: token_def)
    have IH: "set_cookie_lines (i + 1) name (map (\<lambda>(p, attrs). pair_text p @ attrs) hs) =
        find_cookies (i + 1) name (map (\<lambda>(p, attrs). [p]) hs)"
      using Cons by simp
    have short: "ngx_strlow k = ngx_strlow name \<Longrightarrow> length name < length s"
    proof -
      assume "ngx_strlow k = ngx_strlow name"
      then have "length k = length name" by (metis length_map ngx_strlow_def)
      then show "length name < length s" by (simp add: s_def)
    qed
    have whole: "pair_text (k, v) @ attrs = s" by (simp add: pair_text_def s_def)
    show ?case
    proof (cases "ngx_strlow k = ngx_strlow name")
      case True
      with item(1) short cmp show ?thesis by (simp add: h whole Let_def flip: s1_def)
    next
      case False
      with item(2) cmp IH show ?thesis by (cases "ci_prefix name s") (simp_all add: h whole Let_def flip: s1_def)
    qed
  qed simp
  then show ?thesis by (simp add: ngx_http_parse_set_cookie_lines_def)
qed

theorem set_cookie_lookup_witness:
  "ngx_http_parse_set_cookie_lines [chars ''a=1; id=9'', chars ''ID=7; path=/''] (chars ''id'') = Found 1 (chars ''7'')"
proof -
  have "\<forall>(p, attrs) \<in> set [((chars ''a'', chars ''1''), chars ''; id=9''), ((chars ''ID'', chars ''7''), chars ''; path=/'')].
      token (fst p) \<and> cookie_value (snd p) \<and> (attrs = [] \<or> hd attrs = ch CHR '';'')"
    and "token (chars ''id'')"
    by (simp_all add: token_def cookie_value_def chars_def)
  from set_cookie_lookup [OF this] show ?thesis
    by (simp add: pair_text_def chars_def ngx_strlow_def ngx_tolower_def)
qed

end
