(* ===== verification/Ngx_Http_Request_Line.thy ===== *)
theory Ngx_Http_Request_Line
  imports Ngx_Http_Request
begin

text \<open>
  \<^verbatim>\<open>ngx_http_parse_request_line\<close> of \<^verbatim>\<open>src/http/ngx_http_parse.c\<close>: the state machine, one
  definition per state or group of states, the loop and its three exits.  The machine may be left
  with \<^verbatim>\<open>NGX_AGAIN\<close> and entered again when more input has arrived.
\<close>

section \<open>Model\<close>

datatype rl_state = rl_start | rl_method | rl_spaces_before_uri | rl_schema | rl_schema_slash
  | rl_schema_slash_slash | rl_host_start | rl_host | rl_host_end | rl_host_ip_literal | rl_port
  | rl_host_http_09 | rl_after_slash_in_uri | rl_check_uri | rl_check_uri_http_09 | rl_uri | rl_http_09
  | rl_http_H | rl_http_HT | rl_http_HTT | rl_http_HTTP | rl_first_major_digit | rl_major_digit
  | rl_first_minor_digit | rl_minor_digit | rl_spaces_after_digit | rl_almost_done

type_synonym rl_iteration = "(rl_state \<times> http_request, (http_request, http_request) parse_exit) iteration"

definition goto :: "rl_state \<Rightarrow> http_request \<Rightarrow> rl_iteration" where
  "goto st r = Next (st, r)"

definition invalid :: "http_request \<Rightarrow> rl_iteration" where
  "invalid r = Return (Fail NGX_HTTP_PARSE_INVALID_REQUEST r)"

lemmas rl_moves = goto_def invalid_def

definition step_start :: "http_request \<Rightarrow> nat \<Rightarrow> u_char \<Rightarrow> rl_iteration" where
  "step_start r p b =
     (let r = r\<lparr>request_start := p\<rparr> in
      if b = CR \<or> b = LF then goto rl_start r
      else if \<not> is_upper b \<and> b \<noteq> ch CHR ''_'' then Return (Fail NGX_HTTP_PARSE_INVALID_METHOD r)
      else goto rl_method r)"

text \<open>The nested switch on the length of the method; \<open>old\<close> is what \<^verbatim>\<open>r->method\<close> was.\<close>

definition find_method :: "bytes \<Rightarrow> nat \<Rightarrow> nat \<Rightarrow> ngx_uint \<Rightarrow> ngx_uint" where
  "find_method mem m len old =
     (if len = 3 then
        (if str_cmp mem m (chars ''GET '') then NGX_HTTP_GET
         else if str_cmp mem m (chars ''PUT '') then NGX_HTTP_PUT else old)
      else if len = 4 then
        (if str_cmp mem (m + 1) (chars ''O'') then
           (if str_cmp mem m (chars ''POST'') then NGX_HTTP_POST
            else if str_cmp mem m (chars ''COPY'') then NGX_HTTP_COPY
            else if str_cmp mem m (chars ''MOVE'') then NGX_HTTP_MOVE
            else if str_cmp mem m (chars ''LOCK'') then NGX_HTTP_LOCK else old)
         else if str_cmp mem m (chars ''HEAD'') then NGX_HTTP_HEAD else old)
      else if len = 5 then
        (if str_cmp mem m (chars ''MKCOL'') then NGX_HTTP_MKCOL
         else if str_cmp mem m (chars ''PATCH'') then NGX_HTTP_PATCH
         else if str_cmp mem m (chars ''TRACE'') then NGX_HTTP_TRACE else old)
      else if len = 6 then
        (if str_cmp mem m (chars ''DELETE'') then NGX_HTTP_DELETE
         else if str_cmp mem m (chars ''UNLOCK'') then NGX_HTTP_UNLOCK else old)
      else if len = 7 then
        (if str_cmp mem m (chars ''OPTIONS '') then NGX_HTTP_OPTIONS else old)
      else if len = 8 then
        (if str_cmp mem m (chars ''PROPFIND'') then NGX_HTTP_PROPFIND else old)
      else if len = 9 then
        (if str_cmp mem m (chars ''PROPPATCH'') then NGX_HTTP_PROPPATCH else old)
      else old)"

definition step_method :: "http_request \<Rightarrow> bytes \<Rightarrow> nat \<Rightarrow> u_char \<Rightarrow> rl_iteration" where
  "step_method r mem p b =
     (if b = ch CHR '' '' then
        goto rl_spaces_before_uri
          (r\<lparr>method_end := p - 1,
             request_method := find_method mem (request_start r) (p - request_start r) (request_method r)\<rparr>)
      else if \<not> is_upper b \<and> b \<noteq> ch CHR ''_'' then Return (Fail NGX_HTTP_PARSE_INVALID_METHOD r)
      else goto rl_method r)"

definition step_spaces_before_uri :: "http_request \<Rightarrow> nat \<Rightarrow> u_char \<Rightarrow> rl_iteration" where
  "step_spaces_before_uri r p b =
     (if b = ch CHR ''/'' then goto rl_after_slash_in_uri (r\<lparr>uri_start := p\<rparr>)
      else if is_alpha b then goto rl_schema (r\<lparr>schema_start := p\<rparr>)
      else if b = ch CHR '' '' then goto rl_spaces_before_uri r
      else invalid r)"

definition step_schema :: "http_request \<Rightarrow> nat \<Rightarrow> u_char \<Rightarrow> rl_iteration" where
  "step_schema r p b =
     (if is_alpha b then goto rl_schema r
      else if b = ch CHR '':'' then goto rl_schema_slash (r\<lparr>schema_end := p\<rparr>)
      else invalid r)"

definition step_expect :: "u_char \<Rightarrow> rl_state \<Rightarrow> http_request \<Rightarrow> u_char \<Rightarrow> rl_iteration" where
  "step_expect c st r b = (if b = c then goto st r else invalid r)"

definition step_schema_slash :: "http_request \<Rightarrow> u_char \<Rightarrow> rl_iteration" where
  "step_schema_slash r b = step_expect (ch CHR ''/'') rl_schema_slash_slash r b"

definition step_schema_slash_slash :: "http_request \<Rightarrow> u_char \<Rightarrow> rl_iteration" where
  "step_schema_slash_slash r b = step_expect (ch CHR ''/'') rl_host_start r b"

definition step_host_end :: "http_request \<Rightarrow> nat \<Rightarrow> u_char \<Rightarrow> rl_iteration" where
  "step_host_end r p b =
     (let r = r\<lparr>host_end := p\<rparr> in
      if b = ch CHR '':'' then goto rl_port r
      else if b = ch CHR ''/'' then goto rl_after_slash_in_uri (r\<lparr>uri_start := p\<rparr>)
      else if b = ch CHR '' '' then
        goto rl_host_http_09 (r\<lparr>uri_start := schema_end r + 1, uri_end := schema_end r + 2\<rparr>)
      else invalid r)"

text \<open>\<^verbatim>\<open>sw_host\<close> falls through to \<^verbatim>\<open>sw_host_end\<close>, and \<^verbatim>\<open>sw_host_start\<close> to \<^verbatim>\<open>sw_host\<close>.\<close>

definition step_host :: "http_request \<Rightarrow> nat \<Rightarrow> u_char \<Rightarrow> rl_iteration" where
  "step_host r p b =
     (if is_alpha b then goto rl_host r
      else if is_dec b \<or> b = ch CHR ''.'' \<or> b = ch CHR ''-'' then goto rl_host r
      else step_host_end r p b)"

definition step_host_start :: "http_request \<Rightarrow> nat \<Rightarrow> u_char \<Rightarrow> rl_iteration" where
  "step_host_start r p b =
     (let r = r\<lparr>host_start := p\<rparr> in
      if b = ch CHR ''['' then goto rl_host_ip_literal r else step_host r p b)"

definition step_host_ip_literal :: "http_request \<Rightarrow> u_char \<Rightarrow> rl_iteration" where
  "step_host_ip_literal r b =
     (if is_dec b then goto rl_host_ip_literal r
      else if is_alpha b then goto rl_host_ip_literal r
      else if b = ch CHR '':'' then goto rl_host_ip_literal r
      else if b = ch CHR '']'' then goto rl_host_end r
      else if b \<in> set (chars ''-._~'') then goto rl_host_ip_literal r
      else if b \<in> set (0x27 # chars ''!$&()*+,;='') then goto rl_host_ip_literal r
      else invalid r)"

definition step_port :: "http_request \<Rightarrow> nat \<Rightarrow> u_char \<Rightarrow> rl_iteration" where
  "step_port r p b =
     (if is_dec b then goto rl_port r
      else if b = ch CHR ''/'' then goto rl_after_slash_in_uri (r\<lparr>port_end := p, uri_start := p\<rparr>)
      else if b = ch CHR '' '' then
        goto rl_host_http_09
          (r\<lparr>port_end := p, uri_start := schema_end r + 1, uri_end := schema_end r + 2\<rparr>)
      else invalid r)"

definition step_host_http_09 :: "http_request \<Rightarrow> nat \<Rightarrow> u_char \<Rightarrow> rl_iteration" where
  "step_host_http_09 r p b =
     (if b = ch CHR '' '' then goto rl_host_http_09 r
      else if b = CR then goto rl_almost_done (r\<lparr>http_minor := 9\<rparr>)
      else if b = LF then Return (Done (r\<lparr>http_minor := 9\<rparr>))
      else if b = ch CHR ''H'' then goto rl_http_H (r\<lparr>http_protocol_data := Some p\<rparr>)
      else invalid r)"

definition step_after_slash_in_uri :: "http_request \<Rightarrow> nat \<Rightarrow> u_char \<Rightarrow> rl_iteration" where
  "step_after_slash_in_uri r p b =
     (if is_usual b then goto rl_check_uri r
      else if b = ch CHR '' '' then goto rl_check_uri_http_09 (r\<lparr>uri_end := p\<rparr>)
      else if b = CR then goto rl_almost_done (r\<lparr>uri_end := p, http_minor := 9\<rparr>)
      else if b = LF then Return (Done (r\<lparr>uri_end := p, http_minor := 9\<rparr>))
      else if b = ch CHR ''.'' then goto rl_uri (r\<lparr>complex_uri := True\<rparr>)
      else if b = ch CHR ''%'' then goto rl_uri (r\<lparr>quoted_uri := True\<rparr>)
      else if b = ch CHR ''/'' then goto rl_uri (r\<lparr>complex_uri := True\<rparr>)
      else if b = ch CHR ''?'' then goto rl_uri (r\<lparr>args_start := Some (p + 1)\<rparr>)
      else if b = ch CHR ''#'' then goto rl_uri (r\<lparr>complex_uri := True\<rparr>)
      else if b = ch CHR ''+'' then goto rl_after_slash_in_uri (r\<lparr>plus_in_uri := True\<rparr>)
      else if b = 0 then invalid r
      else goto rl_check_uri r)"

definition step_check_uri :: "http_request \<Rightarrow> nat \<Rightarrow> u_char \<Rightarrow> rl_iteration" where
  "step_check_uri r p b =
     (if is_usual b then goto rl_check_uri r
      else if b = ch CHR ''/'' then goto rl_after_slash_in_uri (r\<lparr>uri_ext := None\<rparr>)
      else if b = ch CHR ''.'' then goto rl_check_uri (r\<lparr>uri_ext := Some (p + 1)\<rparr>)
      else if b = ch CHR '' '' then goto rl_check_uri_http_09 (r\<lparr>uri_end := p\<rparr>)
      else if b = CR then goto rl_almost_done (r\<lparr>uri_end := p, http_minor := 9\<rparr>)
      else if b = LF then Return (Done (r\<lparr>uri_end := p, http_minor := 9\<rparr>))
      else if b = ch CHR ''%'' then goto rl_uri (r\<lparr>quoted_uri := True\<rparr>)
      else if b = ch CHR ''?'' then goto rl_uri (r\<lparr>args_start := Some (p + 1)\<rparr>)
      else if b = ch CHR ''#'' then goto rl_uri (r\<lparr>complex_uri := True\<rparr>)
      else if b = ch CHR ''+'' then goto rl_check_uri (r\<lparr>plus_in_uri := True\<rparr>)
      else if b = 0 then invalid r
      else goto rl_check_uri r)"

definition step_uri :: "http_request \<Rightarrow> nat \<Rightarrow> u_char \<Rightarrow> rl_iteration" where
  "step_uri r p b =
     (if is_usual b then goto rl_uri r
      else if b = ch CHR '' '' then goto rl_http_09 (r\<lparr>uri_end := p\<rparr>)
      else if b = CR then goto rl_almost_done (r\<lparr>uri_end := p, http_minor := 9\<rparr>)
      else if b = LF then Return (Done (r\<lparr>uri_end := p, http_minor := 9\<rparr>))
      else if b = ch CHR ''#'' then goto rl_uri (r\<lparr>complex_uri := True\<rparr>)
      else if b = 0 then invalid r
      else goto rl_uri r)"

text \<open>
  After the space that ends a URI.  Where the code does \<^verbatim>\<open>p--\<close>, the next iteration looks at the same
  byte again in the new state.
\<close>

definition step_check_uri_http_09 :: "http_request \<Rightarrow> nat \<Rightarrow> u_char \<Rightarrow> rl_iteration" where
  "step_check_uri_http_09 r p b =
     (if b = ch CHR '' '' then goto rl_check_uri_http_09 r
      else if b = CR then goto rl_almost_done (r\<lparr>http_minor := 9\<rparr>)
      else if b = LF then Return (Done (r\<lparr>http_minor := 9\<rparr>))
      else if b = ch CHR ''H'' then goto rl_http_H (r\<lparr>http_protocol_data := Some p\<rparr>)
      else step_check_uri (r\<lparr>space_in_uri := True\<rparr>) p b)"

definition step_http_09 :: "http_request \<Rightarrow> nat \<Rightarrow> u_char \<Rightarrow> rl_iteration" where
  "step_http_09 r p b =
     (if b = ch CHR '' '' then goto rl_http_09 r
      else if b = CR then goto rl_almost_done (r\<lparr>http_minor := 9\<rparr>)
      else if b = LF then Return (Done (r\<lparr>http_minor := 9\<rparr>))
      else if b = ch CHR ''H'' then goto rl_http_H (r\<lparr>http_protocol_data := Some p\<rparr>)
      else step_uri (r\<lparr>space_in_uri := True\<rparr>) p b)"

definition step_http_H :: "http_request \<Rightarrow> u_char \<Rightarrow> rl_iteration" where
  "step_http_H r b = step_expect (ch CHR ''T'') rl_http_HT r b"

definition step_http_HT :: "http_request \<Rightarrow> u_char \<Rightarrow> rl_iteration" where
  "step_http_HT r b = step_expect (ch CHR ''T'') rl_http_HTT r b"

definition step_http_HTT :: "http_request \<Rightarrow> u_char \<Rightarrow> rl_iteration" where
  "step_http_HTT r b = step_expect (ch CHR ''P'') rl_http_HTTP r b"

definition step_http_HTTP :: "http_request \<Rightarrow> u_char \<Rightarrow> rl_iteration" where
  "step_http_HTTP r b = step_expect (ch CHR ''/'') rl_first_major_digit r b"

definition step_first_major_digit :: "http_request \<Rightarrow> u_char \<Rightarrow> rl_iteration" where
  "step_first_major_digit r b =
     (if b < ch CHR ''1'' \<or> b > ch CHR ''9'' then invalid r
      else goto rl_major_digit (r\<lparr>http_major := ucast b - 0x30\<rparr>))"

definition step_major_digit :: "http_request \<Rightarrow> u_char \<Rightarrow> rl_iteration" where
  "step_major_digit r b =
     (if b = ch CHR ''.'' then goto rl_first_minor_digit r
      else if \<not> is_dec b then invalid r
      else goto rl_major_digit (r\<lparr>http_major := http_major r * 10 + ucast b - 0x30\<rparr>))"

definition step_first_minor_digit :: "http_request \<Rightarrow> u_char \<Rightarrow> rl_iteration" where
  "step_first_minor_digit r b =
     (if \<not> is_dec b then invalid r
      else goto rl_minor_digit (r\<lparr>http_minor := ucast b - 0x30\<rparr>))"

definition step_minor_digit :: "http_request \<Rightarrow> u_char \<Rightarrow> rl_iteration" where
  "step_minor_digit r b =
     (if b = CR then goto rl_almost_done r
      else if b = LF then Return (Done r)
      else if b = ch CHR '' '' then goto rl_spaces_after_digit r
      else if \<not> is_dec b then invalid r
      else goto rl_minor_digit (r\<lparr>http_minor := http_minor r * 10 + ucast b - 0x30\<rparr>))"

definition step_spaces_after_digit :: "http_request \<Rightarrow> u_char \<Rightarrow> rl_iteration" where
  "step_spaces_after_digit r b =
     (if b = ch CHR '' '' then goto rl_spaces_after_digit r
      else if b = CR then goto rl_almost_done r
      else if b = LF then Return (Done r)
      else invalid r)"

definition step_almost_done :: "http_request \<Rightarrow> nat \<Rightarrow> u_char \<Rightarrow> rl_iteration" where
  "step_almost_done r p b =
     (let r = r\<lparr>request_end := Some (p - 1)\<rparr> in
      if b = LF then Return (Done r) else invalid r)"

definition rl_step :: "rl_state \<times> http_request \<Rightarrow> bytes \<Rightarrow> nat \<Rightarrow> rl_iteration" where
  "rl_step s mem p =
     (let r = snd s; b = mem ! p in
      case fst s of
        rl_start \<Rightarrow> step_start r p b
      | rl_method \<Rightarrow> step_method r mem p b
      | rl_spaces_before_uri \<Rightarrow> step_spaces_before_uri r p b
      | rl_schema \<Rightarrow> step_schema r p b
      | rl_schema_slash \<Rightarrow> step_schema_slash r b
      | rl_schema_slash_slash \<Rightarrow> step_schema_slash_slash r b
      | rl_host_start \<Rightarrow> step_host_start r p b
      | rl_host \<Rightarrow> step_host r p b
      | rl_host_end \<Rightarrow> step_host_end r p b
      | rl_host_ip_literal \<Rightarrow> step_host_ip_literal r b
      | rl_port \<Rightarrow> step_port r p b
      | rl_host_http_09 \<Rightarrow> step_host_http_09 r p b
      | rl_after_slash_in_uri \<Rightarrow> step_after_slash_in_uri r p b
      | rl_check_uri \<Rightarrow> step_check_uri r p b
      | rl_check_uri_http_09 \<Rightarrow> step_check_uri_http_09 r p b
      | rl_uri \<Rightarrow> step_uri r p b
      | rl_http_09 \<Rightarrow> step_http_09 r p b
      | rl_http_H \<Rightarrow> step_http_H r b
      | rl_http_HT \<Rightarrow> step_http_HT r b
      | rl_http_HTT \<Rightarrow> step_http_HTT r b
      | rl_http_HTTP \<Rightarrow> step_http_HTTP r b
      | rl_first_major_digit \<Rightarrow> step_first_major_digit r b
      | rl_major_digit \<Rightarrow> step_major_digit r b
      | rl_first_minor_digit \<Rightarrow> step_first_minor_digit r b
      | rl_minor_digit \<Rightarrow> step_minor_digit r b
      | rl_spaces_after_digit \<Rightarrow> step_spaces_after_digit r b
      | rl_almost_done \<Rightarrow> step_almost_done r p b)"

text \<open>The label \<^verbatim>\<open>done\<close>, reached at position \<open>p\<close>.\<close>

definition rl_done :: "http_request \<Rightarrow> nat \<Rightarrow> (rl_state, http_request) parse_result" where
  "rl_done r p =
     (let r = (if request_end r = None then r\<lparr>request_end := Some p\<rparr> else r);
          r = r\<lparr>http_version := ucast (http_major r) * 1000 + ucast (http_minor r)\<rparr>
      in \<lparr>rc = (if http_version r = 9 \<and> request_method r \<noteq> NGX_HTTP_GET
                then NGX_HTTP_PARSE_INVALID_09_METHOD else NGX_OK),
          pos = p + 1, pstate = rl_start, preq = r\<rparr>)"

text \<open>A call with \<^verbatim>\<open>r->state\<close>, \<^verbatim>\<open>b->pos\<close> and \<^verbatim>\<open>b->last\<close> as given.\<close>

definition ngx_http_parse_request_line ::
  "rl_state \<Rightarrow> http_request \<Rightarrow> bytes \<Rightarrow> nat \<Rightarrow> nat \<Rightarrow> (rl_state, http_request) parse_result"
where
  "ngx_http_parse_request_line = run_parser rl_step rl_done"

lemmas step_defs = step_start_def step_method_def step_spaces_before_uri_def step_schema_def
  step_expect_def step_schema_slash_def step_schema_slash_slash_def step_host_start_def step_host_def
  step_host_end_def step_host_ip_literal_def step_port_def step_host_http_09_def
  step_after_slash_in_uri_def step_check_uri_http_09_def step_check_uri_def step_http_09_def step_uri_def
  step_http_H_def step_http_HT_def step_http_HTT_def step_http_HTTP_def step_first_major_digit_def
  step_major_digit_def step_first_minor_digit_def step_minor_digit_def step_spaces_after_digit_def
  step_almost_done_def

section \<open>The input may arrive in any pieces\<close>

lemma find_method_local:
  assumes "take (Suc p) mem = take (Suc p) mem'"
  shows "find_method mem m (p - m) old = find_method mem' m (p - m) old"
proof -
  have c: "str_cmp mem k cs = str_cmp mem' k cs" if "k + length cs \<le> Suc p" for k cs
    using str_cmp_local [OF assms that] .
  show ?thesis
    unfolding find_method_def
    by (intro if_cong refl; rule c; simp add: chars_def)
qed

lemma rl_step_local:
  assumes "take (Suc p) mem = take (Suc p) mem'"
  shows "rl_step s mem p = rl_step s mem' p"
proof -
  have "mem ! p = mem' ! p" using take_Suc_eq_imp_nth [OF assms] by simp
  moreover have "step_method r mem p b = step_method r mem' p b" for r b
    by (simp add: step_method_def find_method_local [OF assms])
  ultimately show ?thesis by (simp add: rl_step_def Let_def split: rl_state.split)
qed

lemma rl_step_fail:
  assumes "rl_step s mem p = Return (Fail code r)"
  shows "code \<in> {NGX_HTTP_PARSE_INVALID_METHOD, NGX_HTTP_PARSE_INVALID_REQUEST}"
  using assms
  by (cases "fst s") (auto simp: rl_step_def Let_def step_defs rl_moves split: if_splits)

interpretation rl: call_parser rl_step rl_done
  "{NGX_HTTP_PARSE_INVALID_METHOD, NGX_HTTP_PARSE_INVALID_REQUEST}"
proof unfold_locales
  show "rl_step s m p = rl_step s m' p"
    if "p < length m" "p < length m'" "take (Suc p) m = take (Suc p) m'" for s m m' p
    using that(3) by (rule rl_step_local)
  show "rc (rl_done x p) \<noteq> NGX_AGAIN" for x p
    by (simp add: rl_done_def http_rc Let_def)
  show "code \<in> {NGX_HTTP_PARSE_INVALID_METHOD, NGX_HTTP_PARSE_INVALID_REQUEST}"
    if "rl_step s m p = Return (Fail code r)" for s m p code r
    using that by (rule rl_step_fail)
  show "NGX_AGAIN \<notin> {NGX_HTTP_PARSE_INVALID_METHOD, NGX_HTTP_PARSE_INVALID_REQUEST}"
    by (simp add: http_rc)
qed

text \<open>
  Property C1 (equivalence).  However the request line is cut into network reads, the successive calls
  of the parser together give the code, the request and, unless they fail, the position and state
  that one call on the whole input gives.
\<close>

theorem request_line_any_chunks:
  assumes "b_pos \<le> length mem" and "cs \<noteq> []"
  shows "same_answer {NGX_HTTP_PARSE_INVALID_METHOD, NGX_HTTP_PARSE_INVALID_REQUEST}
    (feed ngx_http_parse_request_line st r mem b_pos cs)
    (ngx_http_parse_request_line st r (mem @ concat cs) b_pos (length (mem @ concat cs)))"
  unfolding ngx_http_parse_request_line_def using assms by (rule rl.feed_eq_run)

theorem request_line_any_chunks_witness:
  "same_answer {NGX_HTTP_PARSE_INVALID_METHOD, NGX_HTTP_PARSE_INVALID_REQUEST}
    (feed ngx_http_parse_request_line rl_start fresh_request [] 0 [chars ''GE'', chars ''T /'', [LF]])
    (ngx_http_parse_request_line rl_start fresh_request ([] @ concat [chars ''GE'', chars ''T /'', [LF]]) 0
       (length ([] @ concat [chars ''GE'', chars ''T /'', [LF]])))"
  by (rule request_line_any_chunks) simp_all

section \<open>What an accepted request line looks like\<close>

definition method_char :: "u_char \<Rightarrow> bool" where
  "method_char b \<longleftrightarrow> is_upper b \<or> b = ch CHR ''_''"

definition uri_char :: "u_char \<Rightarrow> bool" where
  "uri_char b \<longleftrightarrow> b \<notin> {0, CR, LF}"

definition all_between :: "(u_char \<Rightarrow> bool) \<Rightarrow> bytes \<Rightarrow> nat \<Rightarrow> nat \<Rightarrow> bool" where
  "all_between P mem a b \<longleftrightarrow> (\<forall>i. a \<le> i \<and> i < b \<longrightarrow> P (mem ! i))"

lemma all_between_Suc [simp]:
  "all_between P mem a (Suc p) \<longleftrightarrow> all_between P mem a p \<and> (a \<le> p \<longrightarrow> P (mem ! p))"
  by (auto simp: all_between_def less_Suc_eq)

lemma all_between_self [simp]: "all_between P mem a a"
  by (auto simp: all_between_def)

lemma is_usual_uri_char: "is_usual b \<Longrightarrow> uri_char b"
  by (simp add: is_usual_iff uri_char_def)

text \<open>The method is a token that ends before the URI, which starts with a slash and holds no line end.\<close>

definition method_ok :: "bytes \<Rightarrow> http_request \<Rightarrow> nat \<Rightarrow> bool" where
  "method_ok mem r p \<longleftrightarrow> request_start r \<le> method_end r \<and> method_end r < p
     \<and> all_between method_char mem (request_start r) (Suc (method_end r))"

definition slash_ok :: "bytes \<Rightarrow> http_request \<Rightarrow> nat \<Rightarrow> bool" where
  "slash_ok mem r p \<longleftrightarrow> method_end r < schema_end r \<and> schema_end r + 2 \<le> p
     \<and> mem ! (schema_end r + 1) = ch CHR ''/''"

definition in_uri :: "bytes \<Rightarrow> http_request \<Rightarrow> nat \<Rightarrow> bool" where
  "in_uri mem r p \<longleftrightarrow> method_end r < uri_start r \<and> uri_start r < p
     \<and> mem ! uri_start r = ch CHR ''/'' \<and> all_between uri_char mem (uri_start r) p"

definition after_uri :: "bytes \<Rightarrow> http_request \<Rightarrow> nat \<Rightarrow> bool" where
  "after_uri mem r p \<longleftrightarrow> method_end r < uri_start r \<and> uri_start r < uri_end r \<and> uri_end r \<le> p
     \<and> mem ! uri_start r = ch CHR ''/'' \<and> all_between uri_char mem (uri_start r) (uri_end r)"

definition rl_inv :: "bytes \<Rightarrow> rl_state \<times> http_request \<Rightarrow> nat \<Rightarrow> bool" where
  "rl_inv mem s p =
     (let r = snd s in
      case fst s of
        rl_start \<Rightarrow> True
      | rl_method \<Rightarrow> request_start r < p \<and> all_between method_char mem (request_start r) p
      | rl_spaces_before_uri \<Rightarrow> method_ok mem r p
      | rl_schema \<Rightarrow> method_ok mem r p
      | rl_schema_slash \<Rightarrow> method_ok mem r p \<and> method_end r < schema_end r \<and> p = schema_end r + 1
      | rl_schema_slash_slash \<Rightarrow> method_ok mem r p \<and> slash_ok mem r p
      | rl_host_start \<Rightarrow> method_ok mem r p \<and> slash_ok mem r p
      | rl_host \<Rightarrow> method_ok mem r p \<and> slash_ok mem r p
      | rl_host_end \<Rightarrow> method_ok mem r p \<and> slash_ok mem r p
      | rl_host_ip_literal \<Rightarrow> method_ok mem r p \<and> slash_ok mem r p
      | rl_port \<Rightarrow> method_ok mem r p \<and> slash_ok mem r p
      | rl_after_slash_in_uri \<Rightarrow> method_ok mem r p \<and> in_uri mem r p
      | rl_check_uri \<Rightarrow> method_ok mem r p \<and> in_uri mem r p
      | rl_uri \<Rightarrow> method_ok mem r p \<and> in_uri mem r p
      | rl_check_uri_http_09 \<Rightarrow> method_ok mem r p \<and> in_uri mem r p \<and> after_uri mem r p
      | rl_http_09 \<Rightarrow> method_ok mem r p \<and> in_uri mem r p \<and> after_uri mem r p
      | _ \<Rightarrow> method_ok mem r p \<and> after_uri mem r p)"

lemmas rl_inv_defs = method_ok_def slash_ok_def in_uri_def after_uri_def

lemma uri_charI [intro]: "b \<noteq> 0 \<Longrightarrow> b \<noteq> CR \<Longrightarrow> b \<noteq> LF \<Longrightarrow> uri_char b"
  by (simp add: uri_char_def)

lemma uri_char_consts [simp]:
  "uri_char 32" "uri_char 35" "uri_char 37" "uri_char 43" "uri_char 46" "uri_char 47" "uri_char 63"
  by (simp_all add: uri_char_def CR_def LF_def)

declare is_usual_uri_char [intro]

lemma all_between_butlast:
  "all_between P mem a p \<Longrightarrow> a < p \<Longrightarrow> all_between P mem a (p - Suc 0) \<and> P (mem ! (p - Suc 0))"
  by (auto simp: all_between_def)

lemma rl_inv_step:
  assumes "rl_inv mem (st, r) p" and "rl_step (st, r) mem p = Next (st', r')"
  shows "rl_inv mem (st', r') (Suc p)"
proof -
  note [simp] = rl_inv_def Let_def rl_moves rl_inv_defs
  show ?thesis
  proof (cases st)
    case rl_start
    with assms show ?thesis
      by (auto simp: rl_step_def step_start_def method_char_def split: if_splits)
  next
    case rl_method
    with assms show ?thesis
      by (auto simp: rl_step_def step_method_def method_char_def dest: all_between_butlast split: if_splits)
  qed (use assms in \<open>auto simp: rl_step_def step_defs split: if_splits\<close>)
qed

definition accepted_line :: "bytes \<Rightarrow> http_request \<Rightarrow> nat \<Rightarrow> bool" where
  "accepted_line mem r p \<longleftrightarrow> method_ok mem r p \<and> after_uri mem r p"

lemma rl_inv_exit:
  assumes "rl_inv mem (st, r) p" and "rl_step (st, r) mem p = Return (Done r')"
  shows "accepted_line mem r' p"
  using assms
  by (cases st)
    (auto simp: rl_step_def accepted_line_def rl_inv_def Let_def rl_moves rl_inv_defs step_defs split: if_splits)

text \<open>
  Property C25 (safety).  When the parser accepts a request line that starts in its initial state, the
  method is a token of capital letters and underscores that ends before the URI; the URI lies inside
  the bytes consumed, is not empty, starts with a slash and holds no NUL, CR or LF.
\<close>

theorem request_line_accepted:
  assumes "rc a = NGX_OK" and "a = ngx_http_parse_request_line rl_start r mem b_pos b_last"
  shows "request_start (preq a) \<le> method_end (preq a)
    \<and> (\<forall>i. request_start (preq a) \<le> i \<and> i \<le> method_end (preq a) \<longrightarrow> method_char (mem ! i))
    \<and> method_end (preq a) < uri_start (preq a) \<and> uri_start (preq a) < uri_end (preq a)
    \<and> uri_end (preq a) < pos a \<and> pos a \<le> b_last
    \<and> mem ! uri_start (preq a) = ch CHR ''/''
    \<and> (\<forall>i. uri_start (preq a) \<le> i \<and> i < uri_end (preq a) \<longrightarrow> mem ! i \<notin> {0, CR, LF})"
proof -
  obtain r' q where scan: "scan rl_step (rl_start, r) mem b_pos b_last = Inr (Done r', q)"
    and a: "a = rl_done r' q"
  proof (cases "scan rl_step (rl_start, r) mem b_pos b_last")
    case (Inl x)
    then show ?thesis using assms
      by (auto simp: ngx_http_parse_request_line_def run_parser_def http_rc split: prod.splits)
  next
    case (Inr x)
    then show ?thesis using assms that rl.scan_fail_rc
      by (fastforce simp: ngx_http_parse_request_line_def run_parser_def http_rc
          split: prod.splits parse_exit.splits)
  qed
  have keep: "rl_inv mem t (Suc p)" if "rl_inv mem s p" "p < b_last" "rl_step s mem p = Next t" for s p t
    using that rl_inv_step by (metis prod.exhaust)
  have leave: "\<forall>r. e = Done r \<longrightarrow> accepted_line mem r p"
    if "rl_inv mem s p" "p < b_last" "rl_step s mem p = Return e" for s p e
    using that rl_inv_exit by (cases s) blast
  have "rl_inv mem (rl_start, r) b_pos" by (simp add: rl_inv_def)
  from scan_Inr_invariant [where I = "rl_inv mem" and Q = "\<lambda>e p. \<forall>r. e = Done r \<longrightarrow> accepted_line mem r p",
      OF keep leave this scan]
  have "accepted_line mem r' q" by simp
  moreover have "q < b_last" using scan_Inr_bounds [OF scan] by simp
  ultimately show ?thesis
    by (auto simp: a rl_done_def Let_def accepted_line_def rl_inv_defs all_between_def uri_char_def less_Suc_eq_le)
qed

lemmas request_line_eval = ngx_http_parse_request_line_def run_parser_def scan.simps rl_step_def step_defs
  rl_moves Let_def chars_def fresh_request_def is_upper_def is_alpha_def is_dec_def is_usual_iff CR_def LF_def
  rl_done_def http_rc find_method_def str_cmp_def

lemma request_line_example:
  "let a = ngx_http_parse_request_line rl_start fresh_request (chars ''GET /i HTTP/1.1'' @ [CR, LF]) 0 17
   in rc a = NGX_OK \<and> uri_start (preq a) = 4 \<and> uri_end (preq a) = 6"
  by (simp add: request_line_eval)

theorem request_line_accepted_witness:
  "let a = ngx_http_parse_request_line rl_start fresh_request (chars ''GET /i HTTP/1.1'' @ [CR, LF]) 0 17
   in rc a = NGX_OK \<and> uri_end (preq a) = 6 \<and> uri_end (preq a) < pos a \<and> pos a \<le> 17"
proof -
  let ?a = "ngx_http_parse_request_line rl_start fresh_request (chars ''GET /i HTTP/1.1'' @ [CR, LF]) 0 17"
  have ok: "rc ?a = NGX_OK" and u: "uri_end (preq ?a) = 6"
    using request_line_example by (simp_all add: Let_def)
  from request_line_accepted [OF ok refl] ok u show ?thesis by (simp add: Let_def)
qed

section \<open>The method\<close>

text \<open>The reference: look the token up in a table.\<close>

definition method_table :: "(bytes \<times> ngx_uint) list" where
  "method_table =
     [(chars ''GET'', NGX_HTTP_GET), (chars ''PUT'', NGX_HTTP_PUT), (chars ''POST'', NGX_HTTP_POST),
      (chars ''COPY'', NGX_HTTP_COPY), (chars ''MOVE'', NGX_HTTP_MOVE), (chars ''LOCK'', NGX_HTTP_LOCK),
      (chars ''HEAD'', NGX_HTTP_HEAD), (chars ''MKCOL'', NGX_HTTP_MKCOL), (chars ''PATCH'', NGX_HTTP_PATCH),
      (chars ''TRACE'', NGX_HTTP_TRACE), (chars ''DELETE'', NGX_HTTP_DELETE),
      (chars ''UNLOCK'', NGX_HTTP_UNLOCK), (chars ''OPTIONS'', NGX_HTTP_OPTIONS),
      (chars ''PROPFIND'', NGX_HTTP_PROPFIND), (chars ''PROPPATCH'', NGX_HTTP_PROPPATCH)]"

lemma str_cmp_token:
  assumes "mem = pre @ tok @ sp # rest"
  shows "length cs = length tok \<Longrightarrow> str_cmp mem (length pre) cs \<longleftrightarrow> tok = cs"
    and "length cs = length tok \<Longrightarrow> str_cmp mem (length pre) (cs @ [c]) \<longleftrightarrow> tok = cs \<and> sp = c"
    and "k < length tok \<Longrightarrow> str_cmp mem (length pre + k) [c] \<longleftrightarrow> tok ! k = c"
proof -
  show "str_cmp mem (length pre) cs \<longleftrightarrow> tok = cs" if "length cs = length tok"
    using that assms by (auto simp: str_cmp_def)
  show "str_cmp mem (length pre) (cs @ [c]) \<longleftrightarrow> tok = cs \<and> sp = c" if "length cs = length tok"
    using that assms by (auto simp: str_cmp_def)
  show "str_cmp mem (length pre + k) [c] \<longleftrightarrow> tok ! k = c" if "k < length tok"
    using that assms by (simp add: str_cmp_def take_Suc hd_drop_conv_nth nth_append)
qed

lemma lookup_Cons:
  "(case map_of ((k, v) # xs) tok of Some m \<Rightarrow> m | None \<Rightarrow> old) =
   (if tok = k then v else case map_of xs tok of Some m \<Rightarrow> m | None \<Rightarrow> old)"
  by simp

lemma lookup_Nil: "(case map_of [] tok of Some m \<Rightarrow> m | None \<Rightarrow> old) = old"
  by simp

lemma chars_ne: "length tok \<noteq> length s \<Longrightarrow> tok = chars s \<longleftrightarrow> False"
  by (auto simp: chars_def)

lemma chars_nth: "tok = chars s \<Longrightarrow> k < length s \<Longrightarrow> tok ! k = ch (s ! k)"
  by (simp add: chars_def)

text \<open>
  Fact (equivalence).  The nested switch with its word-wide comparisons finds the same method
  as a lookup of the token in the table of the known methods, and leaves \<^verbatim>\<open>r->method\<close> alone on any
  other token.
\<close>

theorem find_method_lookup:
  "find_method (pre @ tok @ ch CHR '' '' # rest) (length pre) (length tok) old =
    (case map_of method_table tok of Some m \<Rightarrow> m | None \<Rightarrow> old)"
proof -
  let ?mem = "pre @ tok @ ch CHR '' '' # rest"
  note tok = str_cmp_token [of ?mem pre tok "ch CHR '' ''" rest, OF refl]
  have full: "str_cmp ?mem (length pre) (chars s) \<longleftrightarrow> tok = chars s" if "length s = length tok" for s
    using tok(1) [of "chars s"] that by (simp add: chars_def)
  have sp: "str_cmp ?mem (length pre) (chars (s @ '' '')) \<longleftrightarrow> tok = chars s" if "length s = length tok" for s
    using tok(2) [of "chars s" "ch CHR '' ''"] that by (simp add: chars_def)
  note sp = sp [of "''GET''", simplified] sp [of "''PUT''", simplified] sp [of "''OPTIONS''", simplified]
  have O: "str_cmp ?mem (length pre + 1) (chars ''O'') \<longleftrightarrow> tok ! 1 = ch CHR ''O''" if "length tok = 4"
    using tok(3) [of 1] that by (simp add: chars_def)
  note full = full [simplified]
  note look = find_method_def method_table_def lookup_Cons lookup_Nil
  consider "length tok = 3" | "length tok = 4" | "length tok = 5" | "length tok = 6" | "length tok = 7"
    | "length tok = 8" | "length tok = 9" | "length tok \<notin> {3, 4, 5, 6, 7, 8, 9}" by blast
  then show ?thesis
  proof cases
    case 1
    then show ?thesis by (simp add: look full sp chars_ne del: map_of.simps cong: if_cong split del: if_split)
  next
    case 2
    show ?thesis
    proof (cases "tok ! 1 = ch CHR ''O''")
      case True
      then have "tok \<noteq> chars ''HEAD''" using chars_nth [of tok "''HEAD''" 1] by auto
      with 2 True show ?thesis by (simp add: look full O [simplified] chars_ne del: map_of.simps cong: if_cong split del: if_split)
    next
      case False
      then have "tok \<noteq> chars ''POST''" "tok \<noteq> chars ''COPY''" "tok \<noteq> chars ''MOVE''" "tok \<noteq> chars ''LOCK''"
        using chars_nth [of tok _ 1] by fastforce+
      with 2 False show ?thesis by (simp add: look full O [simplified] chars_ne del: map_of.simps cong: if_cong split del: if_split)
    qed
  next
    case 5
    then show ?thesis by (simp add: look full sp chars_ne del: map_of.simps cong: if_cong split del: if_split)
  qed (simp_all add: look full chars_ne del: map_of.simps cong: if_cong split del: if_split)
qed

section \<open>The version wraps\<close>

text \<open>
  Fact (bounds).  The version numbers live in 16-bit fields with no limit on their digits, so
  they wrap: a request of version 65537.65537 is accepted as one of version 1.1.
\<close>

theorem request_line_version_wraps:
  "let a = ngx_http_parse_request_line rl_start fresh_request
       (chars ''GET / HTTP/65537.65537'' @ [CR, LF]) 0 24
   in rc a = NGX_OK \<and> http_version (preq a) = 1001"
  by (simp add: request_line_eval)

end
