(* ===== verification/Ngx_Http_Header_Line.thy ===== *)
theory Ngx_Http_Header_Line
  imports Ngx_Http_Request Ngx_Hash_Key
begin

text \<open>
  \<^verbatim>\<open>ngx_http_parse_header_line\<close> of \<^verbatim>\<open>src/http/ngx_http_parse.c\<close>.

  The locals \<^verbatim>\<open>hash\<close> and \<^verbatim>\<open>i\<close> are loaded from the request when a call starts and stored back at its
  end, but not when it fails or reaches the end of the header.  While a call runs they live in the
  fields \<open>header_hash\<close> and \<open>lowcase_index\<close> of the model's request; the exits that do not store them
  put the values of the call's start back.
\<close>

section \<open>Model\<close>

datatype hl_state = hl_start | hl_name | hl_space_before_value | hl_value | hl_space_after_value
  | hl_ignore_line | hl_almost_done | hl_header_almost_done

text \<open>The labels \<^verbatim>\<open>done\<close> and \<^verbatim>\<open>header_done\<close>.\<close>

datatype hl_exit = hl_done http_request | hl_header_done http_request

type_synonym hl_iteration = "(hl_state \<times> http_request, (hl_exit, http_request) parse_exit) iteration"

definition lowcase :: bytes where
  "lowcase = replicate 32 0
     @ replicate 13 0 @ chars ''-'' @ replicate 2 0 @ chars ''0123456789'' @ replicate 6 0
     @ replicate 1 0 @ chars ''abcdefghijklmnopqrstuvwxyz'' @ replicate 5 0
     @ replicate 1 0 @ chars ''abcdefghijklmnopqrstuvwxyz'' @ replicate 5 0
     @ replicate 128 0"

definition hl_goto :: "hl_state \<Rightarrow> http_request \<Rightarrow> hl_iteration" where
  "hl_goto st r = Next (st, r)"

definition hl_invalid :: "http_request \<Rightarrow> hl_iteration" where
  "hl_invalid r = Return (Fail NGX_HTTP_PARSE_INVALID_HEADER r)"

definition hl_step_start :: "bool \<Rightarrow> http_request \<Rightarrow> nat \<Rightarrow> u_char \<Rightarrow> hl_iteration" where
  "hl_step_start allow_underscores r p b =
     (let r = r\<lparr>header_name_start := p, invalid_header := False\<rparr>; c = lowcase ! unat b in
      if b = CR then hl_goto hl_header_almost_done (r\<lparr>header_end := p\<rparr>)
      else if b = LF then Return (Done (hl_header_done (r\<lparr>header_end := p\<rparr>)))
      else if c \<noteq> 0 then
        hl_goto hl_name
          (r\<lparr>header_hash := ngx_hash 0 c, lowcase_header := (lowcase_header r)[0 := c], lowcase_index := 1\<rparr>)
      else if b = ch CHR ''_'' then
        (if allow_underscores then
           hl_goto hl_name
             (r\<lparr>header_hash := ngx_hash 0 b, lowcase_header := (lowcase_header r)[0 := b], lowcase_index := 1\<rparr>)
         else hl_goto hl_name (r\<lparr>invalid_header := True\<rparr>))
      else if b = 0 then hl_invalid r
      else hl_goto hl_name (r\<lparr>invalid_header := True\<rparr>))"

text \<open>\<^verbatim>\<open>r->lowcase_header[i++] = c; i &= (NGX_HTTP_LC_HEADER_LEN - 1)\<close>.\<close>

definition hl_name_char :: "http_request \<Rightarrow> u_char \<Rightarrow> http_request" where
  "hl_name_char r c =
     r\<lparr>header_hash := ngx_hash (header_hash r) c,
       lowcase_header := (lowcase_header r)[lowcase_index r := c],
       lowcase_index := (lowcase_index r + 1) AND (NGX_HTTP_LC_HEADER_LEN - 1)\<rparr>"

definition hl_step_name :: "bool \<Rightarrow> http_request \<Rightarrow> bytes \<Rightarrow> nat \<Rightarrow> u_char \<Rightarrow> hl_iteration" where
  "hl_step_name allow_underscores r mem p b =
     (let c = lowcase ! unat b in
      if c \<noteq> 0 then hl_goto hl_name (hl_name_char r c)
      else if b = ch CHR ''_'' then
        (if allow_underscores then hl_goto hl_name (hl_name_char r b)
         else hl_goto hl_name (r\<lparr>invalid_header := True\<rparr>))
      else if b = ch CHR '':'' then hl_goto hl_space_before_value (r\<lparr>header_name_end := p\<rparr>)
      else if b = CR then
        hl_goto hl_almost_done (r\<lparr>header_name_end := p, header_start := p, header_end := p\<rparr>)
      else if b = LF then
        Return (Done (hl_done (r\<lparr>header_name_end := p, header_start := p, header_end := p\<rparr>)))
      else if b = ch CHR ''/'' \<and> upstream r \<and> p = header_name_start r + 4
              \<and> str_cmp mem (header_name_start r) (chars ''HTTP'') then
        hl_goto hl_ignore_line r
      else if b = 0 then hl_invalid r
      else hl_goto hl_name (r\<lparr>invalid_header := True\<rparr>))"

definition hl_step_space_before_value :: "http_request \<Rightarrow> nat \<Rightarrow> u_char \<Rightarrow> hl_iteration" where
  "hl_step_space_before_value r p b =
     (if b = ch CHR '' '' then hl_goto hl_space_before_value r
      else if b = CR then hl_goto hl_almost_done (r\<lparr>header_start := p, header_end := p\<rparr>)
      else if b = LF then Return (Done (hl_done (r\<lparr>header_start := p, header_end := p\<rparr>)))
      else if b = 0 then hl_invalid r
      else hl_goto hl_value (r\<lparr>header_start := p\<rparr>))"

definition hl_step_value :: "http_request \<Rightarrow> nat \<Rightarrow> u_char \<Rightarrow> hl_iteration" where
  "hl_step_value r p b =
     (if b = ch CHR '' '' then hl_goto hl_space_after_value (r\<lparr>header_end := p\<rparr>)
      else if b = CR then hl_goto hl_almost_done (r\<lparr>header_end := p\<rparr>)
      else if b = LF then Return (Done (hl_done (r\<lparr>header_end := p\<rparr>)))
      else if b = 0 then hl_invalid r
      else hl_goto hl_value r)"

definition hl_step_space_after_value :: "http_request \<Rightarrow> u_char \<Rightarrow> hl_iteration" where
  "hl_step_space_after_value r b =
     (if b = ch CHR '' '' then hl_goto hl_space_after_value r
      else if b = CR then hl_goto hl_almost_done r
      else if b = LF then Return (Done (hl_done r))
      else if b = 0 then hl_invalid r
      else hl_goto hl_value r)"

definition hl_step_ignore_line :: "http_request \<Rightarrow> u_char \<Rightarrow> hl_iteration" where
  "hl_step_ignore_line r b = (if b = LF then hl_goto hl_start r else hl_goto hl_ignore_line r)"

definition hl_step_almost_done :: "http_request \<Rightarrow> u_char \<Rightarrow> hl_iteration" where
  "hl_step_almost_done r b =
     (if b = LF then Return (Done (hl_done r))
      else if b = CR then hl_goto hl_almost_done r
      else hl_invalid r)"

definition hl_step_header_almost_done :: "http_request \<Rightarrow> u_char \<Rightarrow> hl_iteration" where
  "hl_step_header_almost_done r b =
     (if b = LF then Return (Done (hl_header_done r)) else hl_invalid r)"

definition hl_step :: "bool \<Rightarrow> hl_state \<times> http_request \<Rightarrow> bytes \<Rightarrow> nat \<Rightarrow> hl_iteration" where
  "hl_step allow_underscores s mem p =
     (let r = snd s; b = mem ! p in
      case fst s of
        hl_start \<Rightarrow> hl_step_start allow_underscores r p b
      | hl_name \<Rightarrow> hl_step_name allow_underscores r mem p b
      | hl_space_before_value \<Rightarrow> hl_step_space_before_value r p b
      | hl_value \<Rightarrow> hl_step_value r p b
      | hl_space_after_value \<Rightarrow> hl_step_space_after_value r b
      | hl_ignore_line \<Rightarrow> hl_step_ignore_line r b
      | hl_almost_done \<Rightarrow> hl_step_almost_done r b
      | hl_header_almost_done \<Rightarrow> hl_step_header_almost_done r b)"

fun hl_finish :: "hl_exit \<Rightarrow> nat \<Rightarrow> (hl_state, http_request) parse_result" where
  "hl_finish (hl_done r) p = \<lparr>rc = NGX_OK, pos = p + 1, pstate = hl_start, preq = r\<rparr>"
| "hl_finish (hl_header_done r) p =
     \<lparr>rc = NGX_HTTP_PARSE_HEADER_DONE, pos = p + 1, pstate = hl_start, preq = r\<rparr>"

definition ngx_http_parse_header_line ::
  "bool \<Rightarrow> hl_state \<Rightarrow> http_request \<Rightarrow> bytes \<Rightarrow> nat \<Rightarrow> nat \<Rightarrow> (hl_state, http_request) parse_result"
where
  "ngx_http_parse_header_line allow_underscores st r mem b_pos b_last =
     (let a = run_parser (hl_step allow_underscores) hl_finish st r mem b_pos b_last in
      if rc a = NGX_OK \<or> rc a = NGX_AGAIN then a
      else a\<lparr>preq := (preq a)\<lparr>header_hash := header_hash r, lowcase_index := lowcase_index r\<rparr>\<rparr>)"

lemmas hl_step_defs = hl_step_start_def hl_step_name_def hl_step_space_before_value_def hl_step_value_def
  hl_step_space_after_value_def hl_step_ignore_line_def hl_step_almost_done_def
  hl_step_header_almost_done_def hl_goto_def hl_invalid_def

section \<open>The table\<close>

lemma digits_nth:
  assumes "k < 10"
  shows "chars ''0123456789'' ! k = word_of_nat (48 + k)"
proof -
  from assms have "k \<in> set [0..<10]" by simp
  then show ?thesis by (auto simp: upt_rec chars_def)
qed

lemma alphabet_nth:
  assumes "k < 26"
  shows "chars ''abcdefghijklmnopqrstuvwxyz'' ! k = word_of_nat (97 + k)"
proof -
  from assms have "k \<in> set [0..<26]" by simp
  then show ?thesis by (auto simp: upt_rec chars_def)
qed

lemma length_chars: "length (chars s) = length s"
  by (simp add: chars_def)

lemma lowcase_nth:
  assumes "i < 256"
  shows "lowcase ! i =
    (if i = 45 then 45 else if 48 \<le> i \<and> i < 58 then word_of_nat i
     else if 65 \<le> i \<and> i < 91 then word_of_nat (i + 32)
     else if 97 \<le> i \<and> i < 123 then word_of_nat i else 0)"
proof -
  have len: "length (chars ''-'') = 1" "length (chars ''0123456789'') = 10"
    "length (chars ''abcdefghijklmnopqrstuvwxyz'') = 26" "chars ''-'' ! 0 = 45"
    by (simp_all add: chars_def)
  note nth = lowcase_def nth_append len digits_nth alphabet_nth
  consider "i < 45" | "i = 45" | "46 \<le> i" "i < 48" | "48 \<le> i" "i < 58" | "58 \<le> i" "i < 65"
    | "65 \<le> i" "i < 91" | "91 \<le> i" "i < 97" | "97 \<le> i" "i < 123" | "123 \<le> i" "i < 256"
    using assms by linarith
  then show ?thesis
    by cases (auto simp: nth)
qed

lemma upper_or_32: "is_upper b \<longrightarrow> b OR 0x20 = b + 32"
  by (rule byte_exhaust) (simp add: byte_values_def is_upper_def)

lemma lowcase_iff:
  "lowcase ! unat b =
     (if is_upper b then b OR 0x20
      else if ch CHR ''a'' \<le> b \<and> b \<le> ch CHR ''z'' \<or> is_dec b \<or> b = ch CHR ''-'' then b else 0)"
proof -
  have "b = 45 \<longleftrightarrow> unat b = 45" by (simp add: word_unat_eq_iff)
  moreover have "is_upper b \<longleftrightarrow> 65 \<le> unat b \<and> unat b < 91"
    by (auto simp: is_upper_def word_less_nat_alt)
  moreover have "is_dec b \<longleftrightarrow> 48 \<le> unat b \<and> unat b < 58"
    by (auto simp: is_dec_def word_le_nat_alt)
  moreover have "97 \<le> b \<and> b \<le> 122 \<longleftrightarrow> 97 \<le> unat b \<and> unat b < 123"
    by (auto simp: word_le_nat_alt)
  moreover have "(word_of_nat (unat b + 32) :: u_char) = b + 32" by simp
  moreover have "unat b < 256" using unat_byte .
  ultimately show ?thesis
    using upper_or_32 [of b] by (simp add: lowcase_nth)
qed

lemma lowcase_tolower: "lowcase ! unat b \<noteq> 0 \<Longrightarrow> lowcase ! unat b = ngx_tolower b"
  by (auto simp: lowcase_iff ngx_tolower_def is_upper_def is_dec_def split: if_splits)

section \<open>The input may arrive in any pieces\<close>

lemma hl_step_local:
  assumes "take (Suc p) mem = take (Suc p) mem'"
  shows "hl_step u s mem p = hl_step u s mem' p"
proof -
  have "mem ! p = mem' ! p" using take_Suc_eq_imp_nth [OF assms] by simp
  moreover have same: "p = header_name_start r + 4 \<and> str_cmp mem (header_name_start r) (chars ''HTTP'')
      \<longleftrightarrow> p = header_name_start r + 4 \<and> str_cmp mem' (header_name_start r) (chars ''HTTP'')" for r
    using str_cmp_local [OF assms, of "header_name_start r" "chars ''HTTP''"] by (auto simp: chars_def)
  have "hl_step_name u r mem p b = hl_step_name u r mem' p b" for r b
    unfolding hl_step_name_def Let_def by (simp only: same)
  ultimately show ?thesis by (simp add: hl_step_def Let_def split: hl_state.split)
qed

interpretation hl: call_parser "hl_step allow_underscores" hl_finish "{NGX_HTTP_PARSE_INVALID_HEADER}"
  for allow_underscores
proof unfold_locales
  show "hl_step u s m p = hl_step u s m' p"
    if "p < length m" "p < length m'" "take (Suc p) m = take (Suc p) m'" for u s m m' p
    using that(3) by (rule hl_step_local)
  show "rc (hl_finish x p) \<noteq> NGX_AGAIN" for x p
    by (cases x) (simp_all add: http_rc)
  show "code \<in> {NGX_HTTP_PARSE_INVALID_HEADER}"
    if "hl_step u s m p = Return (Fail code r)" for u s m p code r
    using that by (cases "fst s") (auto simp: hl_step_def Let_def hl_step_defs split: if_splits)
  show "NGX_AGAIN \<notin> {NGX_HTTP_PARSE_INVALID_HEADER}" by (simp add: http_rc)
qed

text \<open>The fields that a call leaves as they were before it unless it returns \<^verbatim>\<open>NGX_OK\<close> or \<^verbatim>\<open>NGX_AGAIN\<close>.\<close>

definition forget_hash :: "http_request \<Rightarrow> http_request" where
  "forget_hash r = r\<lparr>header_hash := 0, lowcase_index := 0\<rparr>"

definition same_header_line :: "('s, http_request) parse_result \<Rightarrow> ('s, http_request) parse_result \<Rightarrow> bool" where
  "same_header_line a b \<longleftrightarrow> rc a = rc b
     \<and> (if rc a = NGX_OK \<or> rc a = NGX_AGAIN then preq a = preq b else forget_hash (preq a) = forget_hash (preq b))
     \<and> (rc a \<noteq> NGX_HTTP_PARSE_INVALID_HEADER \<longrightarrow> pos a = pos b \<and> pstate a = pstate b)"

lemma header_line_run:
  "same_header_line (ngx_http_parse_header_line u st r mem p lst) (run_parser (hl_step u) hl_finish st r mem p lst)"
  by (simp add: same_header_line_def ngx_http_parse_header_line_def Let_def forget_hash_def)

lemma header_line_run_eq:
  "rc (run_parser (hl_step u) hl_finish st r mem p lst) \<in> {NGX_OK, NGX_AGAIN} \<Longrightarrow>
   ngx_http_parse_header_line u st r mem p lst = run_parser (hl_step u) hl_finish st r mem p lst"
  by (auto simp: ngx_http_parse_header_line_def Let_def)

lemma header_line_feed:
  "same_header_line (feed (ngx_http_parse_header_line u) st r mem p cs)
     (feed (run_parser (hl_step u) hl_finish) st r mem p cs)"
proof (induction cs arbitrary: st r mem p)
  case Nil
  then show ?case by (simp add: same_header_line_def)
next
  case (Cons c cs)
  let ?a = "run_parser (hl_step u) hl_finish st r (mem @ c) p (length (mem @ c))"
  show ?case
  proof (cases "rc ?a = NGX_AGAIN")
    case True
    with header_line_run_eq [of u st r "mem @ c" p "length (mem @ c)"] Cons.IH show ?thesis
      by (simp add: Let_def)
  next
    case False
    with header_line_run [of u st r "mem @ c" p "length (mem @ c)"] show ?thesis
      by (simp add: Let_def same_header_line_def)
  qed
qed

lemma same_header_line_answer:
  "same_answer {NGX_HTTP_PARSE_INVALID_HEADER} a b \<Longrightarrow> same_header_line a b"
  by (auto simp: same_answer_def same_header_line_def)

lemma same_header_line_trans:
  "same_header_line a b \<Longrightarrow> same_header_line b c \<Longrightarrow> same_header_line a c"
  by (auto simp: same_header_line_def split: if_splits)

lemma same_header_line_sym: "same_header_line a b \<Longrightarrow> same_header_line b a"
  by (auto simp: same_header_line_def split: if_splits)

text \<open>
  Fact (equivalence).  However a header line is cut into network reads, the successive calls of
  the parser together give the code, the request (its name hash and name index only where the line
  is complete) and, unless they fail, the position and state that one call on the whole input gives.
\<close>

theorem header_line_any_chunks:
  assumes "b_pos \<le> length mem" and "cs \<noteq> []"
  shows "same_header_line (feed (ngx_http_parse_header_line u) st r mem b_pos cs)
    (ngx_http_parse_header_line u st r (mem @ concat cs) b_pos (length (mem @ concat cs)))"
  by (rule same_header_line_trans [OF header_line_feed]
        same_header_line_trans [OF same_header_line_answer [OF hl.feed_eq_run [OF assms]]]
        same_header_line_sym [OF header_line_run])+

theorem header_line_any_chunks_witness:
  "same_header_line
    (feed (ngx_http_parse_header_line True) hl_start fresh_request [] 0 [chars ''Ho'', chars ''st: a'', [CR, LF]])
    (ngx_http_parse_header_line True hl_start fresh_request
       ([] @ concat [chars ''Ho'', chars ''st: a'', [CR, LF]]) 0
       (length ([] @ concat [chars ''Ho'', chars ''st: a'', [CR, LF]])))"
  by (rule header_line_any_chunks) simp_all

section \<open>What an accepted header line looks like\<close>

text \<open>A byte that a valid header name may hold.\<close>

definition header_char :: "bool \<Rightarrow> u_char \<Rightarrow> bool" where
  "header_char u b \<longleftrightarrow> lowcase ! unat b \<noteq> 0 \<or> (u \<and> b = ch CHR ''_'')"

definition name_byte :: "u_char \<Rightarrow> u_char" where
  "name_byte b = (if lowcase ! unat b \<noteq> 0 then lowcase ! unat b else b)"

lemma name_byte_lower: "header_char u b \<Longrightarrow> name_byte b = ngx_tolower b"
  using lowcase_tolower [of b] by (auto simp: name_byte_def header_char_def ngx_tolower_def)

definition key_ok :: "bool \<Rightarrow> bytes \<Rightarrow> http_request \<Rightarrow> nat \<Rightarrow> bool" where
  "key_ok u mem r e \<longleftrightarrow>
     (let name = slice mem (header_name_start r) e in
      (\<forall>b \<in> set name. header_char u b)
      \<and> header_hash r = ngx_hash_key_lc name
      \<and> lowcase_index r = length name mod NGX_HTTP_LC_HEADER_LEN
      \<and> (length name \<le> NGX_HTTP_LC_HEADER_LEN
          \<longrightarrow> take (length name) (lowcase_header r) = map ngx_tolower name))"

definition ring_ok :: "http_request \<Rightarrow> bool" where
  "ring_ok r \<longleftrightarrow> lowcase_index r < NGX_HTTP_LC_HEADER_LEN \<and> length (lowcase_header r) = NGX_HTTP_LC_HEADER_LEN"

lemma lc_index: "(i + 1) AND (NGX_HTTP_LC_HEADER_LEN - 1) = Suc i mod NGX_HTTP_LC_HEADER_LEN"
  using take_bit_eq_mask [of 5 "Suc i"] by (simp add: NGX_HTTP_LC_HEADER_LEN_def mask_eq_exp_minus_1 take_bit_eq_mod)

lemma ring_ok_name_char: "ring_ok r \<Longrightarrow> ring_ok (hl_name_char r c)"
  by (simp add: ring_ok_def hl_name_char_def lc_index [simplified])

lemma ngx_hash_key_lc_snoc: "ngx_hash_key_lc (xs @ [c]) = ngx_hash (ngx_hash_key_lc xs) (ngx_tolower c)"
  by (simp add: ngx_hash_key_lc_map ngx_hash_key_snoc)

lemma key_ok_first:
  assumes "ring_ok r" "header_char u (mem ! p)" "header_name_start r = p"
    "header_hash r = ngx_hash 0 (ngx_tolower (mem ! p))" "lowcase_index r = 1"
    "lowcase_header r ! 0 = ngx_tolower (mem ! p)"
  shows "key_ok u mem r (Suc p)"
proof -
  have "take 1 (lowcase_header r) = [ngx_tolower (mem ! p)]"
    using assms by (cases "lowcase_header r") (auto simp: ring_ok_def NGX_HTTP_LC_HEADER_LEN_def)
  with assms show ?thesis
    by (simp add: key_ok_def slice_snoc ngx_hash_key_lc_def NGX_HTTP_LC_HEADER_LEN_def)
qed

lemma key_ok_next:
  assumes "key_ok u mem r p" "ring_ok r" "header_char u (mem ! p)" "header_name_start r \<le> p"
  shows "key_ok u mem (hl_name_char r (ngx_tolower (mem ! p))) (Suc p)"
proof -
  let ?s = "header_name_start r" and ?t = "ngx_tolower (mem ! p)"
  have i: "lowcase_index r = (p - ?s) mod 32" and len: "length (lowcase_header r) = 32"
    and pre: "p - ?s \<le> 32 \<Longrightarrow> take (p - ?s) (lowcase_header r) = map ngx_tolower (slice mem ?s p)"
    using assms by (auto simp: key_ok_def ring_ok_def Let_def NGX_HTTP_LC_HEADER_LEN_def)
  have "take (Suc (p - ?s)) ((lowcase_header r)[lowcase_index r := ?t]) = map ngx_tolower (slice mem ?s p) @ [?t]"
    if "Suc (p - ?s) \<le> 32"
  proof -
    have "lowcase_index r = p - ?s" using i that by simp
    then show ?thesis using that len pre by (simp add: take_Suc_conv_app_nth)
  qed
  moreover have "Suc (lowcase_index r) mod 32 = Suc (p - ?s) mod 32"
    using i by (simp add: mod_Suc_eq)
  ultimately show ?thesis
    using assms
    by (simp add: key_ok_def hl_name_char_def slice_snoc ngx_hash_key_lc_snoc lc_index [simplified] Suc_diff_le
        Let_def)
      (simp add: NGX_HTTP_LC_HEADER_LEN_def)
qed

lemma key_ok_cong:
  "header_name_start r' = header_name_start r \<Longrightarrow> header_hash r' = header_hash r \<Longrightarrow>
   lowcase_index r' = lowcase_index r \<Longrightarrow> lowcase_header r' = lowcase_header r \<Longrightarrow>
   key_ok u mem r' e = key_ok u mem r e"
  by (simp add: key_ok_def)

text \<open>The value lies on the line, holds no NUL, CR or LF and neither starts nor ends with a space.\<close>

definition value_ok :: "bytes \<Rightarrow> nat \<Rightarrow> nat \<Rightarrow> bool" where
  "value_ok mem a e \<longleftrightarrow> a \<le> e \<and> (\<forall>b \<in> set (slice mem a e). b \<notin> {0, CR, LF})
     \<and> (a < e \<longrightarrow> mem ! a \<noteq> ch CHR '' '' \<and> mem ! (e - 1) \<noteq> ch CHR '' '')"

definition named :: "bool \<Rightarrow> bytes \<Rightarrow> http_request \<Rightarrow> nat \<Rightarrow> bool" where
  "named u mem r e \<longleftrightarrow> header_name_start r < e
     \<and> (\<forall>b \<in> set (slice mem (header_name_start r) e). b \<notin> {0, CR, LF})
     \<and> (\<not> invalid_header r \<longrightarrow> key_ok u mem r e)"

definition hl_inv :: "bool \<Rightarrow> bytes \<Rightarrow> hl_state \<times> http_request \<Rightarrow> nat \<Rightarrow> bool" where
  "hl_inv u mem s p =
     (let r = snd s; line = named u mem r (header_name_end r); a = header_start r; e = header_end r in
      ring_ok r \<and>
      (case fst s of
         hl_name \<Rightarrow> named u mem r p
       | hl_space_before_value \<Rightarrow> line \<and> header_name_end r < p
       | hl_value \<Rightarrow> line \<and> header_name_end r < a \<and> a < p \<and> value_ok mem a p
       | hl_space_after_value \<Rightarrow> line \<and> header_name_end r < a \<and> a < e \<and> e < p \<and> value_ok mem a e
            \<and> (\<forall>b \<in> set (slice mem e p). b = ch CHR '' '')
       | hl_almost_done \<Rightarrow> line \<and> header_name_end r \<le> a \<and> a \<le> e \<and> e < p \<and> value_ok mem a e
       | _ \<Rightarrow> True))"

definition accepted_header :: "bool \<Rightarrow> bytes \<Rightarrow> http_request \<Rightarrow> nat \<Rightarrow> bool" where
  "accepted_header u mem r p \<longleftrightarrow> named u mem r (header_name_end r)
     \<and> header_name_end r \<le> header_start r \<and> header_start r \<le> header_end r \<and> header_end r \<le> p
     \<and> value_ok mem (header_start r) (header_end r)"

lemma set_slice_Suc [simp]: "a \<le> p \<Longrightarrow> set (slice mem a (Suc p)) = insert (mem ! p) (set (slice mem a p))"
  by (simp add: slice_snoc)

lemma value_ok_empty [simp]: "value_ok mem a a"
  by (simp add: value_ok_def)

lemma value_ok_snoc:
  "value_ok mem a p \<Longrightarrow> mem ! p \<notin> {0, CR, LF, ch CHR '' ''} \<Longrightarrow> (a = p \<or> mem ! a \<noteq> ch CHR '' '') \<Longrightarrow>
   value_ok mem a (Suc p)"
  by (auto simp: value_ok_def)

lemma value_ok_more:
  "value_ok mem a p \<Longrightarrow> a < p \<Longrightarrow> mem ! p \<notin> {0, CR, LF, ch CHR '' ''} \<Longrightarrow> value_ok mem a (Suc p)"
  by (rule value_ok_snoc) (auto simp: value_ok_def)

text \<open>A value that goes on after a run of spaces.\<close>

lemma value_ok_spaces:
  assumes "value_ok mem a e" "a < e" "e < p" "\<forall>b \<in> set (slice mem e p). b = ch CHR '' ''"
    and "mem ! p \<notin> {0, CR, LF, ch CHR '' ''}"
  shows "value_ok mem a (Suc p)"
proof -
  have "slice mem a p = slice mem a e @ slice mem e p"
    using assms upt_add_eq_append [of a e "p - e"] by (simp add: slice_def)
  then have "set (slice mem a (Suc p)) = set (slice mem a e) \<union> set (slice mem e p) \<union> {mem ! p}"
    using assms by (simp add: slice_snoc)
  moreover have "b \<notin> {0, CR, LF}" if "b \<in> set (slice mem e p)" for b
    using assms(4) that by (auto simp: CR_def LF_def)
  ultimately show ?thesis
    using assms by (auto simp: value_ok_def)
qed

lemma header_char_plain: "header_char u b \<Longrightarrow> b \<notin> {0, CR, LF}"
  by (auto simp: header_char_def lowcase_iff is_upper_def is_dec_def CR_def LF_def split: if_splits)

lemma named_name_char:
  assumes "named u mem r p" "ring_ok r" "header_char u (mem ! p)"
  shows "named u mem (hl_name_char r (ngx_tolower (mem ! p))) (Suc p)"
  using assms key_ok_next [of u mem r p] header_char_plain [OF assms(3)]
  by (auto simp: named_def hl_name_char_def less_imp_le)

lemma named_invalid:
  assumes "named u mem r p" "mem ! p \<notin> {0, CR, LF}"
  shows "named u mem (r\<lparr>invalid_header := True\<rparr>) (Suc p)"
  using assms by (auto simp: named_def less_imp_le)

lemma named_cong:
  "header_name_start r' = header_name_start r \<Longrightarrow> header_hash r' = header_hash r \<Longrightarrow>
   lowcase_index r' = lowcase_index r \<Longrightarrow> lowcase_header r' = lowcase_header r \<Longrightarrow>
   invalid_header r' = invalid_header r \<Longrightarrow> named u mem r' e = named u mem r e"
  by (simp add: named_def key_ok_def)

lemma named_start:
  assumes "header_char u (mem ! p)" "ring_ok r"
  shows "named u mem (r\<lparr>header_name_start := p, invalid_header := False,
    header_hash := ngx_hash 0 (ngx_tolower (mem ! p)),
    lowcase_header := (lowcase_header r)[0 := ngx_tolower (mem ! p)], lowcase_index := 1\<rparr>) (Suc p)"
  (is "named u mem ?r _")
proof -
  have "ring_ok ?r" using assms by (simp add: ring_ok_def NGX_HTTP_LC_HEADER_LEN_def)
  then have "key_ok u mem ?r (Suc p)"
    using assms by (intro key_ok_first) (auto simp: ring_ok_def NGX_HTTP_LC_HEADER_LEN_def)
  then show ?thesis
    using header_char_plain [OF assms(1)] by (simp add: named_def)
qed

lemma ring_ok_upd [simp]:
  "ring_ok (r\<lparr>header_name_start := x\<rparr>) = ring_ok r" "ring_ok (r\<lparr>header_name_end := x\<rparr>) = ring_ok r"
  "ring_ok (r\<lparr>header_start := x\<rparr>) = ring_ok r" "ring_ok (r\<lparr>header_end := x\<rparr>) = ring_ok r"
  "ring_ok (r\<lparr>invalid_header := y\<rparr>) = ring_ok r" "ring_ok (r\<lparr>header_hash := h\<rparr>) = ring_ok r"
  "ring_ok r \<Longrightarrow> ring_ok (r\<lparr>header_name_start := x, invalid_header := y, header_hash := h,
     lowcase_header := (lowcase_header r)[k := c], lowcase_index := Suc 0\<rparr>)"
  by (simp_all add: ring_ok_def NGX_HTTP_LC_HEADER_LEN_def)

lemma named_upd [simp]:
  "named u mem (r\<lparr>header_name_end := x\<rparr>) e = named u mem r e"
  "named u mem (r\<lparr>header_start := x\<rparr>) e = named u mem r e"
  "named u mem (r\<lparr>header_end := x\<rparr>) e = named u mem r e"
  by (simp_all add: named_def key_ok_def)

lemma named_invalid_start:
  "mem ! p \<notin> {0, CR, LF} \<Longrightarrow>
   named u mem (r\<lparr>header_name_start := p, invalid_header := True\<rparr>) (Suc p)"
  by (simp add: named_def)

lemma lowcase_char: "lowcase ! unat b \<noteq> 0 \<Longrightarrow> header_char u b"
  by (simp add: header_char_def)

lemma lowcase_underscore: "lowcase ! 95 = 0" "ngx_tolower (ch CHR ''_'') = ch CHR ''_''"
  "header_char True (ch CHR ''_'')" "lowcase ! 58 = 0"
  by (simp_all add: lowcase_nth ngx_tolower_def header_char_def)

lemma hl_inv_start:
  assumes "ring_ok r" and "hl_step_start u r p (mem ! p) = Next (st', r')"
  shows "hl_inv u mem (st', r') (Suc p)"
proof -
  let ?b = "mem ! p"
  consider (cr) "?b = CR" | (lf) "?b = LF" | (low) "?b \<notin> {CR, LF}" "lowcase ! unat ?b \<noteq> 0"
    | (under) "?b = ch CHR ''_''" "u" | (bad) "?b \<notin> {CR, LF}" "lowcase ! unat ?b = 0" "?b = ch CHR ''_'' \<longrightarrow> \<not> u"
    by blast
  then show ?thesis
  proof cases
    case low
    then have eq: "lowcase ! unat ?b = ngx_tolower ?b" "?b \<noteq> 0"
      using lowcase_tolower [of ?b] by auto
    with low assms named_start [of u mem p r] show ?thesis
      by (auto simp: hl_step_start_def hl_goto_def Let_def hl_inv_def lowcase_char)
  next
    case under
    with assms named_start [of u mem p r] show ?thesis
      by (auto simp: hl_step_start_def hl_goto_def Let_def hl_inv_def lowcase_underscore [simplified] CR_def LF_def)
  next
    case bad
    with assms show ?thesis
      by (auto simp: hl_step_start_def hl_goto_def hl_invalid_def Let_def hl_inv_def intro!: named_invalid_start
          split: if_splits)
  qed (use assms in \<open>auto simp: hl_step_start_def hl_goto_def Let_def hl_inv_def split: if_splits\<close>)
qed

lemma hl_inv_name:
  assumes "ring_ok r" "named u mem r p" and "hl_step_name u r mem p (mem ! p) = Next (st', r')"
  shows "hl_inv u mem (st', r') (Suc p)"
proof -
  let ?b = "mem ! p"
  consider (low) "lowcase ! unat ?b \<noteq> 0" | (under) "?b = ch CHR ''_''" "u"
    | (rest) "lowcase ! unat ?b = 0" "?b = ch CHR ''_'' \<longrightarrow> \<not> u"
    by blast
  then show ?thesis
  proof cases
    case low
    then have "r' = hl_name_char r (ngx_tolower ?b)" "st' = hl_name"
      using assms(3) lowcase_tolower [of ?b] by (auto simp: hl_step_name_def hl_goto_def Let_def)
    with assms low show ?thesis
      by (simp add: hl_inv_def ring_ok_name_char named_name_char lowcase_char)
  next
    case under
    then have r': "r' = hl_name_char r (ngx_tolower ?b)" "st' = hl_name"
      using assms(3) lowcase_underscore by (auto simp: hl_step_name_def hl_goto_def Let_def)
    have "header_char u ?b" using under lowcase_underscore(3) by simp
    from r' named_name_char [OF assms(2,1) this] assms(1) show ?thesis
      by (simp add: hl_inv_def ring_ok_name_char)
  next
    case rest
    with assms named_invalid [of u mem r p] show ?thesis
      by (auto simp: hl_step_name_def hl_goto_def hl_invalid_def Let_def hl_inv_def CR_def LF_def split: if_splits)
  qed
qed

lemma hl_inv_step:
  assumes "hl_inv u mem (st, r) p" and "hl_step u (st, r) mem p = Next (st', r')"
  shows "hl_inv u mem (st', r') (Suc p)"
proof (cases st)
  case hl_start
  show ?thesis
    by (rule hl_inv_start) (use assms hl_start in \<open>simp_all add: hl_inv_def hl_step_def Let_def\<close>)
next
  case hl_name
  show ?thesis
    by (rule hl_inv_name) (use assms hl_name in \<open>simp_all add: hl_inv_def hl_step_def Let_def\<close>)
next
  case hl_space_before_value
  with assms show ?thesis
    by (auto simp: hl_inv_def hl_step_def hl_step_space_before_value_def hl_goto_def hl_invalid_def Let_def
        value_ok_snoc split: if_splits)
next
  case hl_value
  with assms show ?thesis
    by (auto simp: hl_inv_def hl_step_def hl_step_value_def hl_goto_def hl_invalid_def Let_def
        value_ok_more split: if_splits)
next
  case hl_space_after_value
  with assms show ?thesis
    by (auto simp: hl_inv_def hl_step_def hl_step_space_after_value_def hl_goto_def hl_invalid_def Let_def
        value_ok_spaces split: if_splits)
qed (use assms in \<open>auto simp: hl_inv_def hl_step_def hl_step_defs Let_def split: if_splits\<close>)

lemma hl_inv_exit:
  assumes "hl_inv u mem (st, r) p" and "hl_step u (st, r) mem p = Return (Done (hl_done r'))"
  shows "accepted_header u mem r' p"
proof (cases st)
  case hl_start
  with assms show ?thesis
    by (simp add: hl_step_def hl_step_start_def hl_goto_def hl_invalid_def Let_def split: if_splits)
next
  case hl_name
  with assms show ?thesis
    by (auto simp: hl_inv_def hl_step_def hl_step_name_def hl_goto_def hl_invalid_def accepted_header_def Let_def
        split: if_splits)
next
  case hl_value
  with assms show ?thesis
    by (auto simp: hl_inv_def hl_step_def hl_step_value_def hl_goto_def hl_invalid_def accepted_header_def Let_def
        split: if_splits)
qed (use assms in \<open>auto simp: hl_inv_def hl_step_def hl_step_space_before_value_def
    hl_step_space_after_value_def hl_step_ignore_line_def hl_step_almost_done_def
    hl_step_header_almost_done_def hl_goto_def hl_invalid_def accepted_header_def Let_def split: if_splits\<close>)

text \<open>
  Property C24 (functional).  When the parser accepts a header line, the name is not empty and ends
  before the value; the value lies inside the bytes consumed, holds no NUL, CR or LF and neither
  starts nor ends with a space.  Unless the header is flagged invalid, every byte of the name may
  stand in a header name, the hash computed byte by byte is \<^verbatim>\<open>ngx_hash_key_lc\<close> of the name, by
  which the header is looked up, and where the request code takes the lowercase copy from
  \<^verbatim>\<open>r->lowcase_header\<close> (when the index equals the length of the name) it is the name in lowercase.
\<close>

theorem header_line_accepted:
  assumes "rc a = NGX_OK" and "a = ngx_http_parse_header_line u hl_start r mem b_pos b_last"
    and "length (lowcase_header r) = 32" and "lowcase_index r < 32"
  shows "let r' = preq a; name = slice mem (header_name_start r') (header_name_end r');
             val = slice mem (header_start r') (header_end r')
         in name \<noteq> [] \<and> header_name_end r' \<le> header_start r' \<and> header_start r' \<le> header_end r'
            \<and> header_end r' < pos a \<and> pos a \<le> b_last
            \<and> (\<forall>b \<in> set val. b \<notin> {0, CR, LF})
            \<and> (val \<noteq> [] \<longrightarrow> hd val \<noteq> ch CHR '' '' \<and> last val \<noteq> ch CHR '' '')
            \<and> (\<not> invalid_header r' \<longrightarrow> (\<forall>b \<in> set name. header_char u b)
                 \<and> header_hash r' = ngx_hash_key_lc name
                 \<and> (lowcase_index r' = length name
                      \<longrightarrow> take (length name) (lowcase_header r') = map ngx_tolower name))"
proof -
  let ?run = "run_parser (hl_step u) hl_finish hl_start r mem b_pos b_last"
  have run: "rc ?run = NGX_OK" and a: "a = ?run"
    using assms(1,2) header_line_run_eq [of u hl_start r mem b_pos b_last]
    by (auto simp: ngx_http_parse_header_line_def Let_def split: if_splits)
  obtain r' q where scan: "scan (hl_step u) (hl_start, r) mem b_pos b_last = Inr (Done (hl_done r'), q)"
    and fin: "?run = hl_finish (hl_done r') q"
  proof (cases "scan (hl_step u) (hl_start, r) mem b_pos b_last")
    case (Inl x)
    with run show ?thesis by (auto simp: run_parser_def http_rc split: prod.splits)
  next
    case (Inr y)
    obtain e p where y: "y = (e, p)" by (cases y)
    show ?thesis
    proof (cases e)
      case (Done x)
      with Inr y run that show ?thesis
        by (cases x) (auto simp: run_parser_def http_rc)
    next
      case (Fail code r'')
      with hl.scan_fail_rc Inr y have "code = NGX_HTTP_PARSE_INVALID_HEADER" by blast
      with Fail Inr y run show ?thesis by (auto simp: run_parser_def http_rc)
    qed
  qed
  have keep: "hl_inv u mem t (Suc p)" if "hl_inv u mem s p" "p < b_last" "hl_step u s mem p = Next t" for s p t
    using that hl_inv_step by (metis prod.exhaust)
  have leave: "\<forall>r. e = Done (hl_done r) \<longrightarrow> accepted_header u mem r p"
    if "hl_inv u mem s p" "p < b_last" "hl_step u s mem p = Return e" for s p e
    using that hl_inv_exit by (cases s) blast
  have "hl_inv u mem (hl_start, r) b_pos"
    using assms(3,4) by (simp add: hl_inv_def ring_ok_def NGX_HTTP_LC_HEADER_LEN_def)
  from scan_Inr_invariant [where I = "hl_inv u mem"
      and Q = "\<lambda>e p. \<forall>r. e = Done (hl_done r) \<longrightarrow> accepted_header u mem r p", OF keep leave this scan]
  have acc: "accepted_header u mem r' q" by simp
  have "q < b_last" using scan_Inr_bounds [OF scan] by simp
  moreover have "header_name_start r' < header_name_end r'"
    using acc by (simp add: accepted_header_def named_def)
  moreover have "hd (slice mem x y) = mem ! x \<and> last (slice mem x y) = mem ! (y - 1)" if "slice mem x y \<noteq> []" for x y
    using that by (auto simp: slice_def hd_map last_map)
  moreover have "slice mem x y \<noteq> [] \<longleftrightarrow> x < y" for x y by (auto simp: slice_def)
  ultimately show ?thesis
    using acc
    by (auto simp: a fin accepted_header_def named_def value_ok_def key_ok_def Let_def NGX_HTTP_LC_HEADER_LEN_def)
qed

lemmas header_line_eval = ngx_http_parse_header_line_def run_parser_def scan.simps hl_step_def hl_step_defs
  Let_def chars_def fresh_request_def CR_def LF_def lowcase_nth hl_name_char_def http_rc
  NGX_HTTP_LC_HEADER_LEN_def ngx_hash_def

lemma header_line_example:
  "let a = ngx_http_parse_header_line False hl_start fresh_request (chars ''Ho: x'' @ [CR, LF]) 0 7
   in rc a = NGX_OK \<and> header_name_start (preq a) = 0 \<and> header_name_end (preq a) = 2
      \<and> \<not> invalid_header (preq a)"
  by (simp add: header_line_eval)

theorem header_line_accepted_witness:
  "let a = ngx_http_parse_header_line False hl_start fresh_request (chars ''Ho: x'' @ [CR, LF]) 0 7
   in rc a = NGX_OK \<and> header_hash (preq a) = ngx_hash_key_lc (chars ''Ho'') \<and> pos a \<le> 7"
proof -
  let ?mem = "chars ''Ho: x'' @ [CR, LF]"
  let ?a = "ngx_http_parse_header_line False hl_start fresh_request ?mem 0 7"
  have ok: "rc ?a = NGX_OK" and n: "header_name_start (preq ?a) = 0" "header_name_end (preq ?a) = 2"
    "\<not> invalid_header (preq ?a)"
    using header_line_example by (simp_all add: Let_def)
  have "slice ?mem 0 2 = chars ''Ho''" by (simp add: slice_def chars_def upt_rec)
  with header_line_accepted [OF ok refl] ok n show ?thesis
    by (simp add: Let_def fresh_request_def NGX_HTTP_LC_HEADER_LEN_def)
qed

end
