(* ===== verification/Ngx_Http_Status_Line.thy ===== *)
theory Ngx_Http_Status_Line
  imports Ngx_Http_Request
begin

text \<open>
  \<^verbatim>\<open>ngx_http_parse_status_line\<close> of \<^verbatim>\<open>src/http/ngx_http_parse.c\<close>, which reads the first line of the
  response of an upstream server into an \<^verbatim>\<open>ngx_http_status_t\<close>.
\<close>

section \<open>Model\<close>

record http_status =
  st_http_version :: ngx_uint
  st_code :: ngx_uint
  st_count :: ngx_uint
  st_start :: "nat option"
  st_end :: "nat option"

definition fresh_status :: http_status where
  "fresh_status = \<lparr>st_http_version = 0, st_code = 0, st_count = 0, st_start = None, st_end = None\<rparr>"

datatype sl_state = sl_start | sl_H | sl_HT | sl_HTT | sl_HTTP | sl_first_major_digit | sl_major_digit
  | sl_first_minor_digit | sl_minor_digit | sl_status | sl_space_after_status | sl_status_text
  | sl_almost_done

type_synonym sl_req = "http_request \<times> http_status"
type_synonym sl_iteration = "(sl_state \<times> sl_req, (sl_req, sl_req) parse_exit) iteration"

definition sl_goto :: "sl_state \<Rightarrow> sl_req \<Rightarrow> sl_iteration" where
  "sl_goto st x = Next (st, x)"

definition sl_error :: "sl_req \<Rightarrow> sl_iteration" where
  "sl_error x = Return (Fail NGX_ERROR x)"

definition sl_expect :: "u_char \<Rightarrow> sl_state \<Rightarrow> sl_req \<Rightarrow> u_char \<Rightarrow> sl_iteration" where
  "sl_expect c st x b = (if b = c then sl_goto st x else sl_error x)"

definition sl_step_first_major_digit :: "sl_req \<Rightarrow> u_char \<Rightarrow> sl_iteration" where
  "sl_step_first_major_digit x b =
     (if b < ch CHR ''1'' \<or> b > ch CHR ''9'' then sl_error x
      else sl_goto sl_major_digit (apfst (\<lambda>r. r\<lparr>http_major := ucast b - 0x30\<rparr>) x))"

definition sl_step_major_digit :: "sl_req \<Rightarrow> u_char \<Rightarrow> sl_iteration" where
  "sl_step_major_digit x b =
     (if b = ch CHR ''.'' then sl_goto sl_first_minor_digit x
      else if b < ch CHR ''0'' \<or> b > ch CHR ''9'' then sl_error x
      else sl_goto sl_major_digit (apfst (\<lambda>r. r\<lparr>http_major := http_major r * 10 + ucast b - 0x30\<rparr>) x))"

definition sl_step_first_minor_digit :: "sl_req \<Rightarrow> u_char \<Rightarrow> sl_iteration" where
  "sl_step_first_minor_digit x b =
     (if b < ch CHR ''0'' \<or> b > ch CHR ''9'' then sl_error x
      else sl_goto sl_minor_digit (apfst (\<lambda>r. r\<lparr>http_minor := ucast b - 0x30\<rparr>) x))"

definition sl_step_minor_digit :: "sl_req \<Rightarrow> u_char \<Rightarrow> sl_iteration" where
  "sl_step_minor_digit x b =
     (if b = ch CHR '' '' then sl_goto sl_status x
      else if b < ch CHR ''0'' \<or> b > ch CHR ''9'' then sl_error x
      else sl_goto sl_minor_digit (apfst (\<lambda>r. r\<lparr>http_minor := http_minor r * 10 + ucast b - 0x30\<rparr>) x))"

definition sl_step_status :: "sl_req \<Rightarrow> nat \<Rightarrow> u_char \<Rightarrow> sl_iteration" where
  "sl_step_status x p b =
     (let (r, s) = x in
      if b = ch CHR '' '' then sl_goto sl_status x
      else if b < ch CHR ''0'' \<or> b > ch CHR ''9'' then sl_error x
      else
        let s = s\<lparr>st_code := st_code s * 10 + ucast b - 0x30, st_count := st_count s + 1\<rparr> in
        if st_count s = 3 then sl_goto sl_space_after_status (r, s\<lparr>st_start := Some (p - 2)\<rparr>)
        else sl_goto sl_status (r, s))"

definition sl_step_space_after_status :: "sl_req \<Rightarrow> u_char \<Rightarrow> sl_iteration" where
  "sl_step_space_after_status x b =
     (if b = ch CHR '' '' then sl_goto sl_status_text x
      else if b = ch CHR ''.'' then sl_goto sl_status_text x
      else if b = CR then sl_goto sl_almost_done x
      else if b = LF then Return (Done x)
      else sl_error x)"

definition sl_step_status_text :: "sl_req \<Rightarrow> u_char \<Rightarrow> sl_iteration" where
  "sl_step_status_text x b =
     (if b = CR then sl_goto sl_almost_done x
      else if b = LF then Return (Done x)
      else sl_goto sl_status_text x)"

definition sl_step_almost_done :: "sl_req \<Rightarrow> nat \<Rightarrow> u_char \<Rightarrow> sl_iteration" where
  "sl_step_almost_done x p b =
     (let x = apsnd (\<lambda>s. s\<lparr>st_end := Some (p - 1)\<rparr>) x in
      if b = LF then Return (Done x) else sl_error x)"

definition sl_step :: "sl_state \<times> sl_req \<Rightarrow> bytes \<Rightarrow> nat \<Rightarrow> sl_iteration" where
  "sl_step s mem p =
     (let x = snd s; b = mem ! p in
      case fst s of
        sl_start \<Rightarrow> sl_expect (ch CHR ''H'') sl_H x b
      | sl_H \<Rightarrow> sl_expect (ch CHR ''T'') sl_HT x b
      | sl_HT \<Rightarrow> sl_expect (ch CHR ''T'') sl_HTT x b
      | sl_HTT \<Rightarrow> sl_expect (ch CHR ''P'') sl_HTTP x b
      | sl_HTTP \<Rightarrow> sl_expect (ch CHR ''/'') sl_first_major_digit x b
      | sl_first_major_digit \<Rightarrow> sl_step_first_major_digit x b
      | sl_major_digit \<Rightarrow> sl_step_major_digit x b
      | sl_first_minor_digit \<Rightarrow> sl_step_first_minor_digit x b
      | sl_minor_digit \<Rightarrow> sl_step_minor_digit x b
      | sl_status \<Rightarrow> sl_step_status x p b
      | sl_space_after_status \<Rightarrow> sl_step_space_after_status x b
      | sl_status_text \<Rightarrow> sl_step_status_text x b
      | sl_almost_done \<Rightarrow> sl_step_almost_done x p b)"

definition sl_done :: "sl_req \<Rightarrow> nat \<Rightarrow> (sl_state, sl_req) parse_result" where
  "sl_done x p =
     (let (r, s) = x;
          s = (if st_end s = None then s\<lparr>st_end := Some p\<rparr> else s);
          s = s\<lparr>st_http_version := ucast (http_major r) * 1000 + ucast (http_minor r)\<rparr>
      in \<lparr>rc = NGX_OK, pos = p + 1, pstate = sl_start, preq = (r, s)\<rparr>)"

definition ngx_http_parse_status_line ::
  "sl_state \<Rightarrow> sl_req \<Rightarrow> bytes \<Rightarrow> nat \<Rightarrow> nat \<Rightarrow> (sl_state, sl_req) parse_result"
where
  "ngx_http_parse_status_line = run_parser sl_step sl_done"

lemmas sl_step_defs = sl_expect_def sl_step_first_major_digit_def sl_step_major_digit_def
  sl_step_first_minor_digit_def sl_step_minor_digit_def sl_step_status_def
  sl_step_space_after_status_def sl_step_status_text_def sl_step_almost_done_def
  sl_goto_def sl_error_def

section \<open>The input may arrive in any pieces\<close>

interpretation sl: call_parser sl_step sl_done "{NGX_ERROR}"
proof unfold_locales
  show "sl_step s m p = sl_step s m' p"
    if "p < length m" "p < length m'" "take (Suc p) m = take (Suc p) m'" for s m m' p
    using take_Suc_eq_imp_nth [OF that(3), of p] by (simp add: sl_step_def)
  show "rc (sl_done x p) \<noteq> NGX_AGAIN" for x p
    by (simp add: sl_done_def http_rc Let_def split: prod.splits)
  show "code \<in> {NGX_ERROR}" if "sl_step s m p = Return (Fail code r)" for s m p code r
    using that by (cases "fst s") (auto simp: sl_step_def Let_def sl_step_defs split: if_splits prod.splits)
  show "NGX_AGAIN \<notin> {NGX_ERROR}" by (simp add: http_rc)
qed

section \<open>What an accepted status line holds\<close>

definition sl_inv :: "sl_state \<times> sl_req \<Rightarrow> bool" where
  "sl_inv z = (let (st, r, s) = z in
     case st of
       sl_space_after_status \<Rightarrow> unat (st_code s) < 1000 \<and> st_count s = 3
     | sl_status_text \<Rightarrow> unat (st_code s) < 1000 \<and> st_count s = 3
     | sl_almost_done \<Rightarrow> unat (st_code s) < 1000 \<and> st_count s = 3
     | _ \<Rightarrow> unat (st_count s) < 3 \<and> unat (st_code s) < 10 ^ unat (st_count s))"

lemma status_digit:
  fixes code :: ngx_uint
  assumes "unat code < 100" "\<not> (b < ch CHR ''0'' \<or> b > ch CHR ''9'')"
  shows "unat (code * 10 + ucast b - 0x30) = unat code * 10 + (unat b - 48)"
proof -
  have b: "48 \<le> unat b" "unat b \<le> 57" using assms(2) by (auto simp: word_less_nat_alt)
  have 1: "unat (code * 10) = unat code * 10"
    using assms(1) by (simp add: unat_mult_lem [THEN iffD1])
  have 2: "unat (ucast b :: ngx_uint) = unat b"
    using take_bit_nat_eq_self [of "unat b" 64] unat_byte [of b] by (simp add: unsigned_ucast_eq)
  have 3: "unat (code * 10 + ucast b) = unat code * 10 + unat b"
    using assms(1) b 1 2 by (simp add: unat_add_lem [THEN iffD1])
  have "(0x30 :: ngx_uint) \<le> code * 10 + ucast b"
    using 3 b by (simp add: word_le_nat_alt)
  then show ?thesis using 3 b by (simp add: unat_sub)
qed

lemma sl_inv_step:
  assumes "sl_inv (st, x)" and "sl_step (st, x) mem p = Next s'"
  shows "sl_inv s'"
proof (cases "st = sl_status")
  case False
  with assms show ?thesis
    by (cases x; cases st) (auto simp: sl_inv_def sl_step_def sl_step_defs Let_def split: if_splits)
next
  case True
  obtain r s where x: "x = (r, s)" by (cases x)
  from assms True x have n: "unat (st_count s) < 3" and code: "unat (st_code s) < 10 ^ unat (st_count s)"
    by (simp_all add: sl_inv_def)
  consider "unat (st_count s) = 0" | "unat (st_count s) = 1" | "unat (st_count s) = 2" using n by linarith
  then have small: "unat (st_code s) < 100" using code by cases auto
  show ?thesis
  proof (cases "mem ! p < ch CHR ''0'' \<or> mem ! p > ch CHR ''9''")
    case True
    with assms \<open>st = sl_status\<close> x show ?thesis
      by (auto simp: sl_step_def sl_step_status_def sl_goto_def sl_error_def sl_inv_def Let_def split: if_splits)
  next
    case digit: False
    let ?code = "st_code s * 10 + ucast (mem ! p) - 0x30"
    have c: "unat ?code = unat (st_code s) * 10 + (unat (mem ! p) - 48)" using status_digit [OF small digit] .
    have d: "unat (mem ! p) - 48 \<le> 9" using digit by (auto simp: word_less_nat_alt)
    have m: "unat (st_count s + 1) = unat (st_count s) + 1" using n by (simp add: unat_add_lem [THEN iffD1])
    have less: "unat ?code < 10 ^ (unat (st_count s) + 1)" using c d code by simp
    show ?thesis
    proof (cases "st_count s + 1 = 3")
      case True
      then have "unat (st_count s) + 1 = 3" using m by simp
      with less True digit assms \<open>st = sl_status\<close> x show ?thesis
        by (auto simp: sl_step_def sl_step_status_def sl_goto_def sl_error_def sl_inv_def Let_def split: if_splits)
    next
      case False
      then have "unat (st_count s) + 1 \<noteq> 3" using m word_unat_eq_iff [of "st_count s + 1" 3] by simp
      with less m n False digit assms \<open>st = sl_status\<close> x show ?thesis
        by (auto simp: sl_step_def sl_step_status_def sl_goto_def sl_error_def sl_inv_def Let_def split: if_splits)
    qed
  qed
qed


lemma sl_inv_exit:
  assumes "sl_inv (st, x)" and "sl_step (st, x) mem p = Return (Done y)"
  shows "unat (st_code (snd y)) < 1000 \<and> st_count (snd y) = 3"
  using assms
  by (cases x; cases st) (auto simp: sl_inv_def sl_step_def sl_step_defs Let_def split: if_splits)

text \<open>
  Fact (safety).  Whatever the upstream server sends, a status line that is accepted has a status
  code of exactly three digits, so below 1000, and is reported only after its line feed was read.
\<close>

theorem status_line_accepted:
  assumes "rc a = NGX_OK" and "a = ngx_http_parse_status_line sl_start (r, s) mem b_pos b_last"
    and "st_code s = 0" and "st_count s = 0"
  shows "unat (st_code (snd (preq a))) < 1000 \<and> st_count (snd (preq a)) = 3
    \<and> b_pos < pos a \<and> pos a \<le> b_last \<and> mem ! (pos a - 1) = LF"
proof -
  obtain y q where scan: "scan sl_step (sl_start, r, s) mem b_pos b_last = Inr (Done y, q)"
    and a: "a = sl_done y q"
  proof (cases "scan sl_step (sl_start, r, s) mem b_pos b_last")
    case (Inl x)
    then show ?thesis using assms
      by (auto simp: ngx_http_parse_status_line_def run_parser_def http_rc split: prod.splits)
  next
    case (Inr x)
    then show ?thesis using assms that sl.scan_fail_rc
      by (fastforce simp: ngx_http_parse_status_line_def run_parser_def http_rc
          split: prod.splits parse_exit.splits)
  qed
  have keep: "sl_inv t" if "sl_inv z" "p < b_last" "sl_step z mem p = Next t" for z p t
    using that sl_inv_step by (cases z) blast
  have leave: "\<forall>y. e = Done y \<longrightarrow> unat (st_code (snd y)) < 1000 \<and> st_count (snd y) = 3 \<and> mem ! p = LF"
    if "sl_inv z" "p < b_last" "sl_step z mem p = Return e" for z p e
  proof -
    obtain st x where z: "z = (st, x)" by (cases z)
    have "mem ! p = LF" if "e = Done y" for y
      using \<open>sl_step z mem p = Return e\<close> that z
      by (cases st) (auto simp: sl_step_def sl_step_defs Let_def split: if_splits prod.splits)
    with that sl_inv_exit z show ?thesis by blast
  qed
  have "sl_inv (sl_start, r, s)" using assms(3,4) by (simp add: sl_inv_def)
  from scan_Inr_invariant [where I = "\<lambda>z p. sl_inv z"
      and Q = "\<lambda>e p. \<forall>y. e = Done y \<longrightarrow> unat (st_code (snd y)) < 1000 \<and> st_count (snd y) = 3 \<and> mem ! p = LF",
      OF keep leave this scan]
  have "unat (st_code (snd y)) < 1000 \<and> st_count (snd y) = 3 \<and> mem ! q = LF" by simp
  moreover have "b_pos \<le> q \<and> q < b_last" using scan_Inr_bounds [OF scan] by simp
  ultimately show ?thesis
    by (cases y) (simp add: a sl_done_def Let_def)
qed

text \<open>
  Fact (equivalence).  However the status line is cut into network reads, the successive calls of
  the parser together answer as one call on the whole input.
\<close>

theorem status_line_any_chunks:
  assumes "b_pos \<le> length mem" and "cs \<noteq> []"
  shows "same_answer {NGX_ERROR} (feed ngx_http_parse_status_line st x mem b_pos cs)
    (ngx_http_parse_status_line st x (mem @ concat cs) b_pos (length (mem @ concat cs)))"
  unfolding ngx_http_parse_status_line_def using assms by (rule sl.feed_eq_run)

lemmas status_line_eval = ngx_http_parse_status_line_def run_parser_def scan.simps sl_step_def sl_step_defs
  Let_def chars_def fresh_request_def fresh_status_def CR_def LF_def sl_done_def http_rc

theorem status_line_any_chunks_witness:
  "same_answer {NGX_ERROR}
    (feed ngx_http_parse_status_line sl_start (fresh_request, fresh_status) [] 0 [chars ''HTTP'', chars ''/1.1''])
    (ngx_http_parse_status_line sl_start (fresh_request, fresh_status)
       ([] @ concat [chars ''HTTP'', chars ''/1.1'']) 0 (length ([] @ concat [chars ''HTTP'', chars ''/1.1''])))"
  by (rule status_line_any_chunks) simp_all

lemma status_line_example:
  "rc (ngx_http_parse_status_line sl_start (fresh_request, fresh_status)
         (chars ''HTTP/1.1 404 No'' @ [CR, LF]) 0 17) = NGX_OK"
  by (simp add: status_line_eval)

theorem status_line_accepted_witness:
  "let a = ngx_http_parse_status_line sl_start (fresh_request, fresh_status)
         (chars ''HTTP/1.1 404 No'' @ [CR, LF]) 0 17
   in rc a = NGX_OK \<and> unat (st_code (snd (preq a))) < 1000 \<and> pos a \<le> 17"
  using status_line_accepted [OF status_line_example refl] status_line_example
  by (simp add: Let_def fresh_status_def)

text \<open>
  Fact (functional).  The state that reads the status code skips spaces between its digits too, but
  takes the text of the line to start two bytes before the third digit: the line
  \<open>HTTP/1.1 2 0 0 OK\<close> is accepted with code 200 and the text \<open>0 0 OK\<close>, which is what the client is sent.
\<close>

theorem status_line_split_code:
  "let line = chars ''HTTP/1.1 2 0 0 OK'' @ [CR, LF];
       a = ngx_http_parse_status_line sl_start (fresh_request, fresh_status) line 0 19;
       s = snd (preq a)
   in rc a = NGX_OK \<and> st_code s = 200
      \<and> slice line (the (st_start s)) (the (st_end s)) = chars ''0 0 OK''"
  by (simp add: status_line_eval slice_def upt_rec)

end
