(* ===== verification/Ngx_Http_Chunked.thy ===== *)
theory Ngx_Http_Chunked
  imports Ngx_Interfaces Ngx_Numbers
begin

text \<open>
  The chunked transfer encoding: \<^verbatim>\<open>ngx_http_parse_chunked\<close> of \<^verbatim>\<open>src/http/ngx_http_parse.c\<close>, the body
  filter of \<^verbatim>\<open>src/http/ngx_http_request_body.c\<close> that decodes a request body with it, and the filter of
  \<^verbatim>\<open>src/http/modules/ngx_http_chunked_filter_module.c\<close> that encodes a response.

  The sizes are \<^verbatim>\<open>off_t\<close>, signed, so an overflow would be undefined; they are integers here, and
  \<open>chunked_bounds\<close> shows that none of them leaves the range of \<^verbatim>\<open>off_t\<close>.
\<close>

section \<open>The parser\<close>

datatype chunk_state = ck_chunk_start | ck_chunk_size | ck_chunk_extension
  | ck_chunk_extension_almost_done | ck_chunk_data | ck_after_data | ck_after_data_almost_done
  | ck_last_chunk_extension | ck_last_chunk_extension_almost_done | ck_trailer
  | ck_trailer_almost_done | ck_trailer_header | ck_trailer_header_almost_done

record chunked =
  ck_state :: chunk_state
  ck_size :: int
  ck_length :: int

text \<open>The labels \<^verbatim>\<open>data\<close>, \<^verbatim>\<open>done\<close> and \<^verbatim>\<open>invalid\<close>, with the state and size they are reached with.\<close>

datatype chunk_exit = Chunk_data chunk_state int | Chunk_done int | Chunk_invalid int

type_synonym chunk_iteration = "(chunk_state \<times> int, chunk_exit) iteration"

definition chunk_digit :: "u_char \<Rightarrow> int option" where
  "chunk_digit b =
     (if ch CHR ''0'' \<le> b \<and> b \<le> ch CHR ''9'' then Some (uint b - 0x30)
      else let c = b OR 0x20 in
        if ch CHR ''a'' \<le> c \<and> c \<le> ch CHR ''f'' then Some (uint c - 0x61 + 10) else None)"

definition chunk_start :: "int \<Rightarrow> u_char \<Rightarrow> chunk_iteration" where
  "chunk_start sz b =
     (case chunk_digit b of
        Some d \<Rightarrow> Next (ck_chunk_size, d)
      | None \<Rightarrow> Return (Chunk_invalid sz))"

definition chunk_size :: "int \<Rightarrow> u_char \<Rightarrow> chunk_iteration" where
  "chunk_size sz b =
     (if sz > NGX_MAX_OFF_T_VALUE div 16 then Return (Chunk_invalid sz)
      else case chunk_digit b of
        Some d \<Rightarrow> Next (ck_chunk_size, sz * 16 + d)
      | None \<Rightarrow>
          if sz = 0 then
            if b = CR then Next (ck_last_chunk_extension_almost_done, sz)
            else if b = LF then Next (ck_trailer, sz)
            else if b = ch CHR '';'' \<or> b = ch CHR '' '' \<or> b = 0x09 then Next (ck_last_chunk_extension, sz)
            else Return (Chunk_invalid sz)
          else
            if b = CR then Next (ck_chunk_extension_almost_done, sz)
            else if b = LF then Next (ck_chunk_data, sz)
            else if b = ch CHR '';'' \<or> b = ch CHR '' '' \<or> b = 0x09 then Next (ck_chunk_extension, sz)
            else Return (Chunk_invalid sz))"

text \<open>A state that waits for the end of a line, and one that has seen its carriage return.\<close>

definition chunk_to_eol :: "chunk_state \<Rightarrow> chunk_state \<Rightarrow> chunk_state \<Rightarrow> int \<Rightarrow> u_char \<Rightarrow> chunk_iteration" where
  "chunk_to_eol st cr lf sz b = Next (if b = CR then cr else if b = LF then lf else st, sz)"

definition chunk_lf :: "chunk_state \<Rightarrow> int \<Rightarrow> u_char \<Rightarrow> chunk_iteration" where
  "chunk_lf lf sz b = (if b = LF then Next (lf, sz) else Return (Chunk_invalid sz))"

definition chunk_trailer :: "int \<Rightarrow> u_char \<Rightarrow> chunk_iteration" where
  "chunk_trailer sz b =
     (if b = CR then Next (ck_trailer_almost_done, sz)
      else if b = LF then Return (Chunk_done sz)
      else Next (ck_trailer_header, sz))"

definition chunk_byte :: "chunk_state \<times> int \<Rightarrow> u_char \<Rightarrow> chunk_iteration" where
  "chunk_byte s b =
     (let sz = snd s in
      case fst s of
        ck_chunk_start \<Rightarrow> chunk_start sz b
      | ck_chunk_size \<Rightarrow> chunk_size sz b
      | ck_chunk_extension \<Rightarrow> chunk_to_eol ck_chunk_extension ck_chunk_extension_almost_done ck_chunk_data sz b
      | ck_chunk_extension_almost_done \<Rightarrow> chunk_lf ck_chunk_data sz b
      | ck_chunk_data \<Rightarrow> Return (Chunk_data ck_chunk_data sz)
      | ck_after_data \<Rightarrow> chunk_to_eol ck_after_data ck_after_data_almost_done ck_chunk_start sz b
      | ck_after_data_almost_done \<Rightarrow> chunk_lf ck_chunk_start sz b
      | ck_last_chunk_extension \<Rightarrow>
          chunk_to_eol ck_last_chunk_extension ck_last_chunk_extension_almost_done ck_trailer sz b
      | ck_last_chunk_extension_almost_done \<Rightarrow> chunk_lf ck_trailer sz b
      | ck_trailer \<Rightarrow> chunk_trailer sz b
      | ck_trailer_almost_done \<Rightarrow> (if b = LF then Return (Chunk_done sz) else Return (Chunk_invalid sz))
      | ck_trailer_header \<Rightarrow> chunk_to_eol ck_trailer_header ck_trailer_header_almost_done ck_trailer sz b
      | ck_trailer_header_almost_done \<Rightarrow> chunk_lf ck_trailer sz b)"

definition chunk_step :: "chunk_state \<times> int \<Rightarrow> bytes \<Rightarrow> nat \<Rightarrow> chunk_iteration" where
  "chunk_step s mem p = chunk_byte s (mem ! p)"

text \<open>The least number of bytes still to come, a lower bound that the callers read no further than.\<close>

fun chunk_length :: "chunk_state \<Rightarrow> int \<Rightarrow> int" where
  "chunk_length ck_chunk_start sz = 3"
| "chunk_length ck_chunk_size sz = 1 + (if sz \<noteq> 0 then sz + 4 else 1)"
| "chunk_length ck_chunk_extension sz = 1 + sz + 4"
| "chunk_length ck_chunk_extension_almost_done sz = 1 + sz + 4"
| "chunk_length ck_chunk_data sz = sz + 4"
| "chunk_length ck_after_data sz = 4"
| "chunk_length ck_after_data_almost_done sz = 4"
| "chunk_length ck_last_chunk_extension sz = 2"
| "chunk_length ck_last_chunk_extension_almost_done sz = 2"
| "chunk_length ck_trailer sz = 1"
| "chunk_length ck_trailer_almost_done sz = 1"
| "chunk_length ck_trailer_header sz = 2"
| "chunk_length ck_trailer_header_almost_done sz = 2"

record chunk_result =
  cr_rc :: int
  cr_pos :: nat
  cr_ctx :: chunked

text \<open>The label \<^verbatim>\<open>data\<close>, where the loop also ends when the input does.\<close>

definition chunk_label_data :: "int \<Rightarrow> chunk_state \<Rightarrow> int \<Rightarrow> nat \<Rightarrow> chunked \<Rightarrow> chunk_result" where
  "chunk_label_data code st sz p ctx =
     (let ctx = ctx\<lparr>ck_state := st, ck_size := sz\<rparr> in
      if sz > NGX_MAX_OFF_T_VALUE - 5 then \<lparr>cr_rc = NGX_ERROR, cr_pos = p, cr_ctx = ctx\<rparr>
      else \<lparr>cr_rc = code, cr_pos = p, cr_ctx = ctx\<lparr>ck_length := chunk_length st sz\<rparr>\<rparr>)"

definition ngx_http_parse_chunked :: "bytes \<Rightarrow> nat \<Rightarrow> nat \<Rightarrow> chunked \<Rightarrow> chunk_result" where
  "ngx_http_parse_chunked mem b_pos b_last ctx =
     (let st = (if ck_state ctx = ck_chunk_data \<and> ck_size ctx = 0 then ck_after_data else ck_state ctx) in
      case scan chunk_step (st, ck_size ctx) mem b_pos b_last of
        Inl ((st, sz), p) \<Rightarrow> chunk_label_data NGX_AGAIN st sz p ctx
      | Inr (Chunk_data st sz, p) \<Rightarrow> chunk_label_data NGX_OK st sz p ctx
      | Inr (Chunk_done sz, p) \<Rightarrow>
          \<lparr>cr_rc = NGX_DONE, cr_pos = p + 1, cr_ctx = ctx\<lparr>ck_state := ck_chunk_start, ck_size := sz\<rparr>\<rparr>
      | Inr (Chunk_invalid sz, p) \<Rightarrow>
          \<lparr>cr_rc = NGX_ERROR, cr_pos = b_pos, cr_ctx = ctx\<lparr>ck_size := sz\<rparr>\<rparr>)"

definition fresh_chunked :: chunked where
  "fresh_chunked = \<lparr>ck_state = ck_chunk_start, ck_size = 0, ck_length = 0\<rparr>"

lemmas chunk_defs = chunk_start_def chunk_size_def chunk_to_eol_def chunk_lf_def chunk_trailer_def

lemma chunk_rc: "NGX_OK = 0" "NGX_ERROR = -1" "NGX_AGAIN = -2" "NGX_DONE = -4"
  by (simp_all add: NGX_OK_def NGX_ERROR_def NGX_AGAIN_def NGX_DONE_def)

interpretation chunk: resumable_parser chunk_step
  by unfold_locales (auto simp: chunk_step_def dest: take_Suc_eq_imp_nth)

section \<open>The sizes stay in range\<close>

lemma word_le_1: "\<not> (48 :: u_char) \<le> 1"
  by (simp add: word_le_nat_alt)

lemma chunk_digit_range:
  assumes "chunk_digit b = Some d"
  shows "0 \<le> d \<and> d \<le> 15"
proof -
  have "(case chunk_digit b of Some d \<Rightarrow> 0 \<le> d \<and> d \<le> 15 | None \<Rightarrow> True)"
    by (rule byte_exhaust) (simp add: byte_values_def chunk_digit_def word_le_1)
  with assms show ?thesis by simp
qed

definition off_t :: "int \<Rightarrow> bool" where
  "off_t n \<longleftrightarrow> 0 \<le> n \<and> n \<le> NGX_MAX_OFF_T_VALUE"

text \<open>
  Only a size that is still being read may exceed a sixteenth of the range.  A context may besides
  wait for the end of a chunk whose data has all been taken.
\<close>

definition chunk_inv :: "chunk_state \<times> int \<Rightarrow> bool" where
  "chunk_inv s \<longleftrightarrow> off_t (snd s)
     \<and> (fst s \<noteq> ck_chunk_size \<longrightarrow> snd s \<le> NGX_MAX_OFF_T_VALUE div 16)
     \<and> (fst s \<in> {ck_chunk_extension, ck_chunk_extension_almost_done, ck_chunk_data} \<longrightarrow> 0 < snd s)"

definition chunked_ok :: "chunked \<Rightarrow> bool" where
  "chunked_ok ctx \<longleftrightarrow> chunk_inv (ck_state ctx, ck_size ctx) \<or> ck_state ctx = ck_chunk_data \<and> ck_size ctx = 0"

lemma chunk_byte_inv:
  assumes "chunk_inv (st, sz)" and "chunk_byte (st, sz) b = Next s'"
  shows "chunk_inv s'"
  using assms chunk_digit_range [of b]
  by (cases st)
    (auto simp: chunk_inv_def off_t_def chunk_byte_def chunk_defs NGX_MAX_OFF_T_VALUE_def
      split: if_splits option.splits)

lemma chunk_byte_exit:
  assumes "chunk_inv (st, sz)" and "chunk_byte (st, sz) b = Return e"
  shows "e = Chunk_data ck_chunk_data sz \<and> 0 < sz \<and> sz \<le> NGX_MAX_OFF_T_VALUE div 16
    \<or> e = Chunk_done sz \<and> sz \<le> NGX_MAX_OFF_T_VALUE div 16 \<or> e = Chunk_invalid sz"
  using assms
  by (cases st) (auto simp: chunk_inv_def chunk_byte_def chunk_defs split: if_splits option.splits)

lemma chunk_length_range:
  "off_t sz \<Longrightarrow> sz \<le> NGX_MAX_OFF_T_VALUE - 5 \<Longrightarrow> 0 < chunk_length st sz \<and> chunk_length st sz \<le> NGX_MAX_OFF_T_VALUE"
  by (cases st) (auto simp: off_t_def NGX_MAX_OFF_T_VALUE_def)

lemma chunk_label_range:
  assumes "off_t sz"
  shows "off_t (ck_size (cr_ctx (chunk_label_data code st sz p ctx)))
    \<and> (cr_rc (chunk_label_data code st sz p ctx) \<noteq> NGX_ERROR \<longrightarrow>
         ck_size (cr_ctx (chunk_label_data code st sz p ctx)) \<le> NGX_MAX_OFF_T_VALUE - 5
         \<and> 0 < ck_length (cr_ctx (chunk_label_data code st sz p ctx))
         \<and> ck_length (cr_ctx (chunk_label_data code st sz p ctx)) \<le> NGX_MAX_OFF_T_VALUE)"
  using assms chunk_length_range [of sz st] by (simp add: chunk_label_data_def Let_def)

lemma chunked_call_bounds:
  assumes "chunked_ok ctx" and "a = ngx_http_parse_chunked mem b_pos b_last ctx"
  shows "off_t (ck_size (cr_ctx a)) \<and> (cr_rc a \<noteq> NGX_ERROR \<longrightarrow> chunked_ok (cr_ctx a))
    \<and> (cr_rc a \<in> {NGX_OK, NGX_AGAIN} \<longrightarrow> off_t (ck_length (cr_ctx a)) \<and> 0 < ck_length (cr_ctx a))
    \<and> (cr_rc a = NGX_OK \<longrightarrow> ck_state (cr_ctx a) = ck_chunk_data \<and> 0 < ck_size (cr_ctx a)
         \<and> ck_size (cr_ctx a) \<le> NGX_MAX_OFF_T_VALUE div 16)"
proof -
  define st where "st = (if ck_state ctx = ck_chunk_data \<and> ck_size ctx = 0 then ck_after_data else ck_state ctx)"
  have inv: "chunk_inv (st, ck_size ctx)"
    using assms(1) by (auto simp: chunked_ok_def chunk_inv_def st_def off_t_def NGX_MAX_OFF_T_VALUE_def)
  have keep: "chunk_inv t" if "chunk_inv z" "p < b_last" "chunk_step z mem p = Next t" for z p t
    using that chunk_byte_inv by (cases z) (auto simp: chunk_step_def)
  show ?thesis
  proof (cases "scan chunk_step (st, ck_size ctx) mem b_pos b_last")
    case (Inl x)
    obtain st' sz p where x: "x = ((st', sz), p)" by (metis prod.exhaust)
    have scan: "scan chunk_step (st, ck_size ctx) mem b_pos b_last = Inl ((st', sz), p)"
      using Inl x by simp
    have "chunk_inv (st', sz)"
      by (rule scan_Inl_invariant [where I = "\<lambda>z p. chunk_inv z", OF _ inv scan]) (rule keep)
    then have "off_t sz" and ok: "chunked_ok (ctx\<lparr>ck_state := st', ck_size := sz, ck_length := n\<rparr>)" for n
      by (simp_all add: chunk_inv_def chunked_ok_def)
    with chunk_label_range [of sz NGX_AGAIN st' p ctx] Inl x assms(2) show ?thesis
      by (auto simp: ngx_http_parse_chunked_def st_def [symmetric] off_t_def chunk_rc chunk_label_data_def Let_def
          split: if_splits)
  next
    case (Inr x)
    obtain e p where x: "x = (e, p)" by (cases x)
    define good where "good e \<longleftrightarrow> (\<exists>sz. off_t sz \<and> (e = Chunk_data ck_chunk_data sz \<and> 0 < sz
        \<and> sz \<le> NGX_MAX_OFF_T_VALUE div 16
        \<or> e = Chunk_done sz \<and> sz \<le> NGX_MAX_OFF_T_VALUE div 16 \<or> e = Chunk_invalid sz))" for e
    have leave: "good e" if "chunk_inv z" "p < b_last" "chunk_step z mem p = Return e" for z p e
    proof -
      obtain st sz where z: "z = (st, sz)" by (cases z)
      have "off_t sz" using that z by (simp add: chunk_inv_def)
      moreover have "chunk_byte (st, sz) (mem ! p) = Return e" using that z by (simp add: chunk_step_def)
      ultimately show ?thesis using chunk_byte_exit [of st sz "mem ! p" e] that z unfolding good_def by blast
    qed
    have scan: "scan chunk_step (st, ck_size ctx) mem b_pos b_last = Inr (e, p)"
      using Inr x by simp
    have "good e"
      by (rule scan_Inr_invariant [where I = "\<lambda>z p. chunk_inv z" and Q = "\<lambda>e p. good e", OF _ _ inv scan])
        (fact keep, fact leave)
    then obtain sz where sz: "off_t sz" and cases: "e = Chunk_data ck_chunk_data sz \<and> 0 < sz
        \<and> sz \<le> NGX_MAX_OFF_T_VALUE div 16
        \<or> e = Chunk_done sz \<and> sz \<le> NGX_MAX_OFF_T_VALUE div 16 \<or> e = Chunk_invalid sz"
      by (auto simp: good_def)
    from cases show ?thesis
    proof (elim disjE conjE)
      assume "e = Chunk_data ck_chunk_data sz" "0 < sz" "sz \<le> NGX_MAX_OFF_T_VALUE div 16"
      then show ?thesis
        using Inr x assms(2) sz chunk_label_range [of sz NGX_OK ck_chunk_data p ctx]
        by (auto simp: ngx_http_parse_chunked_def st_def [symmetric] chunk_label_data_def Let_def chunk_rc off_t_def
            chunked_ok_def chunk_inv_def)
    qed (use Inr x assms(2) sz in \<open>auto simp: ngx_http_parse_chunked_def st_def [symmetric] Let_def chunk_rc
        chunked_ok_def chunk_inv_def\<close>)
  qed
qed

text \<open>
  Property C32 (bounds).  From any context a call may find, no input makes the chunk size or the length
  leave the range of \<^verbatim>\<open>off_t\<close>; a chunk that is reported has between 1 and a sixteenth of the
  range of bytes, and the state says that data follows.
\<close>

theorem chunked_bounds:
  assumes "chunked_ok ctx" and "a = ngx_http_parse_chunked mem b_pos b_last ctx"
  shows "off_t (ck_size (cr_ctx a)) \<and> (cr_rc a \<noteq> NGX_ERROR \<longrightarrow> chunked_ok (cr_ctx a))
    \<and> (cr_rc a \<in> {NGX_OK, NGX_AGAIN} \<longrightarrow> off_t (ck_length (cr_ctx a)) \<and> 0 < ck_length (cr_ctx a))
    \<and> (cr_rc a = NGX_OK \<longrightarrow> ck_state (cr_ctx a) = ck_chunk_data \<and> 0 < ck_size (cr_ctx a)
         \<and> ck_size (cr_ctx a) \<le> NGX_MAX_OFF_T_VALUE div 16)"
  using assms by (rule chunked_call_bounds)

lemma chunked_example:
  "cr_rc (ngx_http_parse_chunked (chars ''5'' @ [CR, LF] @ chars ''hello'') 0 8 fresh_chunked) = NGX_OK"
  by (simp add: ngx_http_parse_chunked_def scan.simps chunk_step_def chunk_byte_def chunk_defs chunk_digit_def
      fresh_chunked_def Let_def chars_def CR_def LF_def chunk_label_data_def chunk_rc NGX_MAX_OFF_T_VALUE_def)

theorem chunked_bounds_witness:
  "let a = ngx_http_parse_chunked (chars ''5'' @ [CR, LF] @ chars ''hello'') 0 8 fresh_chunked
   in cr_rc a = NGX_OK \<and> ck_state (cr_ctx a) = ck_chunk_data \<and> 0 < ck_size (cr_ctx a)"
  using chunked_bounds [of fresh_chunked _ _ 0 8, OF _ refl] chunked_example
  by (simp add: Let_def fresh_chunked_def chunked_ok_def chunk_inv_def off_t_def NGX_MAX_OFF_T_VALUE_def)

end
