(* ===== verification/Ngx_Http_Body.thy ===== *)
theory Ngx_Http_Body
  imports Ngx_Http_Chunked
begin

text \<open>
  The body filters: \<^verbatim>\<open>ngx_http_request_body_length_filter\<close> and
  \<^verbatim>\<open>ngx_http_request_body_chunked_filter\<close> of \<^verbatim>\<open>src/http/ngx_http_request_body.c\<close>, which cut a request
  body out of the bytes read, and \<^verbatim>\<open>ngx_http_chunked_body_filter\<close> of
  \<^verbatim>\<open>src/http/modules/ngx_http_chunked_filter_module.c\<close>, which encodes a response.

  A buffer the code makes out of a part of another one is the list of its bytes.  The argument
  \<open>mem_ok\<close> tells which allocations succeed, numbered in the order the code makes them.
\<close>

section \<open>Decoding a request body\<close>

definition NGX_HTTP_BAD_REQUEST :: int where "NGX_HTTP_BAD_REQUEST = 400"
definition NGX_HTTP_REQUEST_ENTITY_TOO_LARGE :: int where "NGX_HTTP_REQUEST_ENTITY_TOO_LARGE = 413"
definition NGX_HTTP_INTERNAL_SERVER_ERROR :: int where "NGX_HTTP_INTERNAL_SERVER_ERROR = 500"

record in_buf =
  ib_mem :: bytes
  ib_pos :: nat
  ib_last :: nat

record out_buf =
  ob_data :: bytes
  ob_last_buf :: bool

record body_filter =
  bf_rest :: int
  bf_content_length_n :: int
  bf_chunked :: chunked
  bf_allocs :: nat

datatype body_result = Body_error int | Body_done body_filter nat "out_buf list"

definition bytes_between :: "bytes \<Rightarrow> nat \<Rightarrow> nat \<Rightarrow> bytes" where
  "bytes_between mem a b = take (b - a) (drop a mem)"

text \<open>The loop for one input buffer.\<close>

lemma chunk_data_only:
  assumes "scan chunk_step (st, sz) mem p lst = Inr (Chunk_data st' sz', q)"
  shows "st' = ck_chunk_data"
proof -
  have leave: "\<forall>st sz. e = Chunk_data st sz \<longrightarrow> st = ck_chunk_data"
    if "chunk_step z mem p = Return e" for z p e
  proof -
    obtain st sz where "z = (st, sz)" by (cases z)
    with that show ?thesis
      by (cases st) (auto simp: chunk_step_def chunk_byte_def chunk_defs split: if_splits option.splits)
  qed
  from scan_Inr_invariant [where I = "\<lambda>z p. True" and Q = "\<lambda>e p. \<forall>st sz. e = Chunk_data st sz \<longrightarrow> st = ck_chunk_data",
      OF _ leave _ assms]
  show ?thesis by simp
qed

lemma parse_ok_progress:
  assumes "cr_rc (ngx_http_parse_chunked mem p lst ctx) = NGX_OK"
  shows "p \<le> cr_pos (ngx_http_parse_chunked mem p lst ctx)"
    and "cr_pos (ngx_http_parse_chunked mem p lst ctx) < lst"
    and "ck_state (cr_ctx (ngx_http_parse_chunked mem p lst ctx)) = ck_chunk_data"
    and "ck_state ctx = ck_chunk_data \<Longrightarrow> ck_size ctx = 0 \<Longrightarrow> p < cr_pos (ngx_http_parse_chunked mem p lst ctx)"
proof -
  define st where "st = (if ck_state ctx = ck_chunk_data \<and> ck_size ctx = 0 then ck_after_data else ck_state ctx)"
  obtain sz st' q where scan: "scan chunk_step (st, ck_size ctx) mem p lst = Inr (Chunk_data st' sz, q)"
    and a: "ngx_http_parse_chunked mem p lst ctx = chunk_label_data NGX_OK st' sz q ctx"
    using assms unfolding ngx_http_parse_chunked_def st_def [symmetric]
    by (auto simp: Let_def chunk_rc chunk_label_data_def split: sum.splits prod.splits chunk_exit.splits if_splits)
  have st': "st' = ck_chunk_data" using chunk_data_only [OF scan] .
  show "p \<le> cr_pos (ngx_http_parse_chunked mem p lst ctx)" "cr_pos (ngx_http_parse_chunked mem p lst ctx) < lst"
    "ck_state (cr_ctx (ngx_http_parse_chunked mem p lst ctx)) = ck_chunk_data"
    using scan_Inr_bounds [OF scan] st' by (simp_all add: a chunk_label_data_def Let_def)
  assume "ck_state ctx = ck_chunk_data" "ck_size ctx = 0"
  then have "st = ck_after_data" by (simp add: st_def)
  with scan have "q \<noteq> p"
    using scan_Inr_bounds [OF scan]
    by (auto simp: scan.simps [of _ _ _ p] chunk_step_def chunk_byte_def chunk_to_eol_def
        dest: scan_Inr_bounds split: if_splits)
  then show "p < cr_pos (ngx_http_parse_chunked mem p lst ctx)"
    using scan_Inr_bounds [OF scan] by (simp add: a chunk_label_data_def Let_def)
qed

function chunked_filter_buf ::
  "(nat \<Rightarrow> bool) \<Rightarrow> int \<Rightarrow> body_filter \<Rightarrow> bytes \<Rightarrow> nat \<Rightarrow> nat \<Rightarrow> out_buf list \<Rightarrow> body_result"
where
  "chunked_filter_buf mem_ok max_body_size f mem p lst out =
     (let a = ngx_http_parse_chunked mem p lst (bf_chunked f);
          ctx = cr_ctx a; pos = cr_pos a; n = bf_allocs f in
      if cr_rc a = NGX_OK then
        (if max_body_size \<noteq> 0 \<and> max_body_size - bf_content_length_n f < ck_size ctx then
           Body_error NGX_HTTP_REQUEST_ENTITY_TOO_LARGE
         else if \<not> mem_ok n then Body_error NGX_HTTP_INTERNAL_SERVER_ERROR
         else
           let size = lst - pos in
           if int size > ck_size ctx then
             (let pos' = pos + nat (ck_size ctx) in
              chunked_filter_buf mem_ok max_body_size
                (f\<lparr>bf_content_length_n := bf_content_length_n f + ck_size ctx,
                   bf_chunked := ctx\<lparr>ck_size := 0\<rparr>, bf_allocs := n + 1\<rparr>)
                mem pos' lst (out @ [\<lparr>ob_data = bytes_between mem pos pos', ob_last_buf = False\<rparr>]))
           else
             chunked_filter_buf mem_ok max_body_size
               (f\<lparr>bf_content_length_n := bf_content_length_n f + int size,
                  bf_chunked := ctx\<lparr>ck_size := ck_size ctx - int size\<rparr>, bf_allocs := n + 1\<rparr>)
               mem lst lst (out @ [\<lparr>ob_data = bytes_between mem pos lst, ob_last_buf = False\<rparr>]))
      else if cr_rc a = NGX_DONE then
        (if \<not> mem_ok n then Body_error NGX_HTTP_INTERNAL_SERVER_ERROR
         else Body_done (f\<lparr>bf_rest := 0, bf_chunked := ctx, bf_allocs := n + 1\<rparr>) pos
                (out @ [\<lparr>ob_data = [], ob_last_buf = True\<rparr>]))
      else if cr_rc a = NGX_AGAIN then
        Body_done (f\<lparr>bf_rest := ck_length ctx, bf_chunked := ctx\<rparr>) pos out
      else Body_error NGX_HTTP_BAD_REQUEST)"
  by pat_completeness auto
termination
proof (relation "measure (\<lambda>(mem_ok, m, f, mem, p, lst, out). 2 * (lst - p)
    + (if ck_state (bf_chunked f) = ck_chunk_data \<and> ck_size (bf_chunked f) = 0 then 0 else 1))", goal_cases)
  case 1
  then show ?case by simp
next
  case (2 mem_ok max_body_size f mem p lst out a ctx pos n size pos')
  note parse = parse_ok_progress [of mem p lst "bf_chunked f"]
  show ?case
  proof (cases "p < pos")
    case True
    with 2 parse show ?thesis by (auto simp: Let_def)
  next
    case False
    with 2 parse show ?thesis by (auto simp: Let_def)
  qed
next
  case (3 mem_ok max_body_size f mem p lst out a ctx pos n size)
  with parse_ok_progress [of mem p lst "bf_chunked f"] show ?case by auto
qed

declare chunked_filter_buf.simps [simp del]

text \<open>The call: the buffers of the chain, one after the other.\<close>

fun chunked_filter_loop :: "(nat \<Rightarrow> bool) \<Rightarrow> int \<Rightarrow> body_filter \<Rightarrow> in_buf list \<Rightarrow> in_buf list \<Rightarrow> out_buf list
    \<Rightarrow> int + (body_filter \<times> in_buf list \<times> out_buf list)" where
  "chunked_filter_loop mem_ok max_body_size f seen [] out = Inr (f, seen, out)"
| "chunked_filter_loop mem_ok max_body_size f seen (b # bs) out =
     (case chunked_filter_buf mem_ok max_body_size f (ib_mem b) (ib_pos b) (ib_last b) out of
        Body_error code \<Rightarrow> Inl code
      | Body_done f' pos out' \<Rightarrow>
          chunked_filter_loop mem_ok max_body_size f' (seen @ [b\<lparr>ib_pos := pos\<rparr>]) bs out')"

definition ngx_http_request_body_chunked_filter :: "(nat \<Rightarrow> bool) \<Rightarrow> int \<Rightarrow> body_filter \<Rightarrow> in_buf list
    \<Rightarrow> int + (body_filter \<times> in_buf list \<times> out_buf list)" where
  "ngx_http_request_body_chunked_filter mem_ok max_body_size f bufs =
     (if bf_rest f = -1 then
        (if \<not> mem_ok (bf_allocs f) then Inl NGX_HTTP_INTERNAL_SERVER_ERROR
         else chunked_filter_loop mem_ok max_body_size
                \<lparr>bf_rest = 3, bf_content_length_n = 0, bf_chunked = fresh_chunked, bf_allocs = bf_allocs f + 1\<rparr>
                [] bufs [])
      else chunked_filter_loop mem_ok max_body_size f [] bufs [])"

text \<open>The filter for a body with a content length.\<close>

fun length_filter_loop :: "(nat \<Rightarrow> bool) \<Rightarrow> body_filter \<Rightarrow> in_buf list \<Rightarrow> in_buf list \<Rightarrow> out_buf list
    \<Rightarrow> int + (body_filter \<times> in_buf list \<times> out_buf list)" where
  "length_filter_loop mem_ok f seen [] out = Inr (f, seen, out)"
| "length_filter_loop mem_ok f seen (b # bs) out =
     (if bf_rest f = 0 then Inr (f, seen @ b # bs, out)
      else if \<not> mem_ok (bf_allocs f) then Inl NGX_HTTP_INTERNAL_SERVER_ERROR
      else
        let size = ib_last b - ib_pos b; f1 = f\<lparr>bf_allocs := bf_allocs f + 1\<rparr> in
        if int size < bf_rest f then
          length_filter_loop mem_ok (f1\<lparr>bf_rest := bf_rest f - int size\<rparr>) (seen @ [b\<lparr>ib_pos := ib_last b\<rparr>]) bs
            (out @ [\<lparr>ob_data = bytes_between (ib_mem b) (ib_pos b) (ib_last b), ob_last_buf = False\<rparr>])
        else
          let pos = ib_pos b + nat (bf_rest f) in
          length_filter_loop mem_ok (f1\<lparr>bf_rest := 0\<rparr>) (seen @ [b\<lparr>ib_pos := pos\<rparr>]) bs
            (out @ [\<lparr>ob_data = bytes_between (ib_mem b) (ib_pos b) pos, ob_last_buf = True\<rparr>]))"

definition ngx_http_request_body_length_filter :: "(nat \<Rightarrow> bool) \<Rightarrow> int \<Rightarrow> body_filter \<Rightarrow> in_buf list
    \<Rightarrow> int + (body_filter \<times> in_buf list \<times> out_buf list)" where
  "ngx_http_request_body_length_filter mem_ok content_length_n f bufs =
     length_filter_loop mem_ok (if bf_rest f = -1 then f\<lparr>bf_rest := content_length_n\<rparr> else f) [] bufs []"

section \<open>Encoding a response body\<close>

text \<open>
  A buffer of a response: its bytes, from memory or a file, and its flags.  A buffer that is neither in
  memory nor in a file only carries flags.
\<close>

record res_buf =
  rb_data :: bytes
  rb_in_memory :: bool
  rb_in_file :: bool
  rb_flush :: bool
  rb_sync :: bool
  rb_last_buf :: bool

definition plain_buf :: "bytes \<Rightarrow> res_buf" where
  "plain_buf data = \<lparr>rb_data = data, rb_in_memory = True, rb_in_file = False, rb_flush = False, rb_sync = False,
     rb_last_buf = False\<rparr>"

definition chunk_kept :: "res_buf \<Rightarrow> bool" where
  "chunk_kept b \<longleftrightarrow> rb_flush b \<or> rb_sync b \<or> rb_in_memory b \<or> rb_in_file b"

text \<open>The size written as \<^verbatim>\<open>"%xO" CRLF\<close>; the code clears the flag of the last buffer it links.\<close>

definition ngx_http_chunked_body_filter :: "(nat \<Rightarrow> bool) \<Rightarrow> bool \<Rightarrow> bool \<Rightarrow> res_buf list \<Rightarrow> res_buf list option" where
  "ngx_http_chunked_body_filter mem_ok chunked header_only bufs =
     (if bufs = [] \<or> \<not> chunked \<or> header_only then Some bufs
      else
        let size = (\<Sum>b \<leftarrow> bufs. length (rb_data b));
            cl = last bufs;
            cleared = (if rb_last_buf cl then butlast bufs @ [cl\<lparr>rb_last_buf := False\<rparr>] else bufs);
            out = filter chunk_kept cleared;
            n = length out;
            m = (if size \<noteq> 0 then n + 2 else n);
            front = (if size \<noteq> 0
                     then [plain_buf (num_hex hex_lower (word_of_nat size) [] @ [CR, LF])] else [])
        in
        if \<not> list_all mem_ok [0..<m] then None
        else if rb_last_buf cl then
          (if \<not> mem_ok m then None
           else
             let tail = [CR, LF] @ chars ''0'' @ [CR, LF, CR, LF] in
             Some (front @ out @
               [(plain_buf (if size = 0 then drop 2 tail else tail))\<lparr>rb_last_buf := True\<rparr>]))
        else if size > 0 then
          (if \<not> mem_ok m then None else Some (front @ out @ [plain_buf [CR, LF]]))
        else Some (front @ out))"

section \<open>The reference: one byte at a time\<close>

text \<open>
  The decoder that has no buffers: it takes the bytes of the stream one at a time and ends with the
  data of the message and the bytes after it, or with nothing if the message is invalid or not complete.
\<close>

fun dechunk :: "chunk_state \<times> int \<Rightarrow> bytes \<Rightarrow> (bytes \<times> bytes) option" where
  "dechunk s [] = None"
| "dechunk (st, sz) (b # bs) =
     (if st = ck_chunk_data \<and> 0 < sz then map_option (apfst ((#) b)) (dechunk (st, sz - 1) bs)
      else case chunk_byte (if st = ck_chunk_data then ck_after_data else st, sz) b of
        Next s' \<Rightarrow> dechunk s' bs
      | Return (Chunk_done _) \<Rightarrow> Some ([], bs)
      | Return _ \<Rightarrow> None)"

lemma dechunk_data_0: "dechunk (ck_chunk_data, 0) bs = dechunk (ck_after_data, 0) bs"
  by (cases bs) simp_all

lemma dechunk_data:
  assumes "int (length d) \<le> sz"
  shows "dechunk (ck_chunk_data, sz) (d @ bs) =
    map_option (apfst ((@) d)) (dechunk (ck_chunk_data, sz - int (length d)) bs)"
  using assms
proof (induction d arbitrary: sz)
  case Nil
  then show ?case by (cases "dechunk (ck_chunk_data, sz) bs") (auto simp: apfst_def)
next
  case (Cons b d)
  then have "dechunk (ck_chunk_data, sz - 1) (d @ bs) =
      map_option (apfst ((@) d)) (dechunk (ck_chunk_data, sz - 1 - int (length d)) bs)" by simp
  with Cons.prems show ?case
    by (cases "dechunk (ck_chunk_data, sz - 1 - int (length d)) bs") (auto simp: apfst_def algebra_simps)
qed

lemma chunk_byte_data: "st \<noteq> ck_chunk_data \<Longrightarrow> chunk_byte (st, sz) b \<noteq> Return (Chunk_data st' sz')"
  by (cases st) (auto simp: chunk_byte_def chunk_defs split: if_splits option.splits)

lemma bytes_between_Cons:
  "p < q \<Longrightarrow> q \<le> length mem \<Longrightarrow> bytes_between mem p q = mem ! p # bytes_between mem (Suc p) q"
  by (simp add: bytes_between_def Cons_nth_drop_Suc [symmetric] take_Cons' Suc_diff_Suc [symmetric])

lemma bytes_between_self [simp]: "bytes_between mem p p = []"
  by (simp add: bytes_between_def)

lemma bytes_between_append:
  "p \<le> q \<Longrightarrow> q \<le> r \<Longrightarrow> bytes_between mem p r = bytes_between mem p q @ bytes_between mem q r"
proof -
  assume "p \<le> q" "q \<le> r"
  then have "r - p = (q - p) + (r - q)" "(q - p) + p = q" by simp_all
  then show ?thesis by (simp only: bytes_between_def take_add drop_drop)
qed

lemma length_bytes_between [simp]: "q \<le> length mem \<Longrightarrow> length (bytes_between mem p q) = q - p"
  by (simp add: bytes_between_def)

text \<open>The loop of the parser does what the reference does with the same bytes.\<close>

lemma scan_dechunk:
  assumes "chunk_inv (st, sz)" and "p \<le> lst" and "lst \<le> length mem"
  shows "dechunk (st, sz) (bytes_between mem p lst @ bs) =
    (case scan chunk_step (st, sz) mem p lst of
       Inl (s', q) \<Rightarrow> dechunk s' bs
     | Inr (Chunk_data st' sz', q) \<Rightarrow> dechunk (st', sz') (bytes_between mem q lst @ bs)
     | Inr (Chunk_done _, q) \<Rightarrow> Some ([], bytes_between mem (Suc q) lst @ bs)
     | Inr (Chunk_invalid _, q) \<Rightarrow> None)"
  using assms
proof (induction "lst - p" arbitrary: st sz p)
  case 0
  then show ?case by simp
next
  case (Suc n)
  then have p: "p < lst" by simp
  note bb = bytes_between_Cons [OF p Suc.prems(3)]
  show ?case
  proof (cases "st = ck_chunk_data")
    case True
    have "chunk_step (st, sz) mem p = Return (Chunk_data ck_chunk_data sz)"
      by (simp add: True chunk_step_def chunk_byte_def)
    with p True show ?thesis by (simp add: scan_return)
  next
    case st: False
    show ?thesis
    proof (cases "chunk_byte (st, sz) (mem ! p)")
      case (Next s')
      obtain st' sz' where s': "s' = (st', sz')" by (cases s')
      have inv: "chunk_inv (st', sz')" using chunk_byte_inv [OF Suc.prems(1) Next] s' by simp
      have "dechunk (st, sz) (bytes_between mem p lst @ bs) = dechunk (st', sz') (bytes_between mem (Suc p) lst @ bs)"
        using bb st Next s' by simp
      also have "scan chunk_step (st, sz) mem p lst = scan chunk_step (st', sz') mem (Suc p) lst"
        using Next s' p by (simp add: scan_next chunk_step_def)
      ultimately show ?thesis using Suc inv p by simp
    next
      case (Return e)
      then have "scan chunk_step (st, sz) mem p lst = Inr (e, p)"
        using p by (simp add: scan_return chunk_step_def)
      with Return st bb chunk_byte_data show ?thesis
        by (cases e) auto
    qed
  qed
qed

lemma dechunk_big:
  assumes "chunk_inv (st, sz)" "sz > NGX_MAX_OFF_T_VALUE - 5"
  shows "dechunk (st, sz) bs = None"
proof (cases bs)
  case (Cons b bs')
  have "st = ck_chunk_size" using assms by (auto simp: chunk_inv_def NGX_MAX_OFF_T_VALUE_def)
  with assms Cons show ?thesis
    by (simp add: chunk_byte_def chunk_size_def NGX_MAX_OFF_T_VALUE_def)
qed simp

text \<open>A call of the parser in terms of the reference.\<close>

definition ctx_state :: "chunked \<Rightarrow> chunk_state \<times> int" where
  "ctx_state ctx = (ck_state ctx, ck_size ctx)"

lemma parse_dechunk:
  assumes ok: "chunked_ok ctx" and p: "p \<le> lst" "lst \<le> length mem"
    and a: "a = ngx_http_parse_chunked mem p lst ctx"
  shows "dechunk (ctx_state ctx) (bytes_between mem p lst @ bs) =
      (if cr_rc a = NGX_OK then dechunk (ctx_state (cr_ctx a)) (bytes_between mem (cr_pos a) lst @ bs)
       else if cr_rc a = NGX_DONE then Some ([], bytes_between mem (cr_pos a) lst @ bs)
       else if cr_rc a = NGX_AGAIN then dechunk (ctx_state (cr_ctx a)) bs
       else None)"
    and "cr_rc a = NGX_AGAIN \<Longrightarrow> cr_pos a = lst
      \<and> ck_length (cr_ctx a) = chunk_length (ck_state (cr_ctx a)) (ck_size (cr_ctx a))"
    and "cr_rc a = NGX_DONE \<Longrightarrow> cr_pos a \<le> lst"
proof -
  define st where "st = (if ck_state ctx = ck_chunk_data \<and> ck_size ctx = 0 then ck_after_data else ck_state ctx)"
  have inv: "chunk_inv (st, ck_size ctx)"
    using ok by (auto simp: chunked_ok_def chunk_inv_def st_def off_t_def NGX_MAX_OFF_T_VALUE_def)
  have eq: "dechunk (ctx_state ctx) bs = dechunk (st, ck_size ctx) bs" for bs
    by (auto simp: ctx_state_def st_def dechunk_data_0)
  note scan = scan_dechunk [OF inv p, of bs]
  note a = a [unfolded ngx_http_parse_chunked_def st_def [symmetric] Let_def]
  have keep: "chunk_inv t" if "chunk_inv z" "chunk_step z mem p = Next t" for z p t
    using that chunk_byte_inv by (cases z) (auto simp: chunk_step_def)
  have "(dechunk (ctx_state ctx) (bytes_between mem p lst @ bs) =
      (if cr_rc a = NGX_OK then dechunk (ctx_state (cr_ctx a)) (bytes_between mem (cr_pos a) lst @ bs)
       else if cr_rc a = NGX_DONE then Some ([], bytes_between mem (cr_pos a) lst @ bs)
       else if cr_rc a = NGX_AGAIN then dechunk (ctx_state (cr_ctx a)) bs
       else None))
    \<and> (cr_rc a = NGX_AGAIN \<longrightarrow> cr_pos a = lst
      \<and> ck_length (cr_ctx a) = chunk_length (ck_state (cr_ctx a)) (ck_size (cr_ctx a)))
    \<and> (cr_rc a = NGX_DONE \<longrightarrow> cr_pos a \<le> lst)"
  proof (cases "scan chunk_step (st, ck_size ctx) mem p lst")
    case (Inl x)
    obtain st' sz q where x: "x = ((st', sz), q)" by (metis prod.exhaust)
    have run: "scan chunk_step (st, ck_size ctx) mem p lst = Inl ((st', sz), q)" using Inl x by simp
    have "chunk_inv (st', sz)"
      by (rule scan_Inl_invariant [where I = "\<lambda>z p. chunk_inv z", OF _ inv run]) (rule keep)
    then show ?thesis
      using eq scan run a dechunk_big [of st' sz bs] scan_Inl_pos [OF run] p
      by (auto simp: chunk_label_data_def Let_def chunk_rc ctx_state_def)
  next
    case (Inr x)
    obtain e q where x: "x = (e, q)" by (cases x)
    have run: "scan chunk_step (st, ck_size ctx) mem p lst = Inr (e, q)" using Inr x by simp
    have leave: "\<forall>st sz. e = Chunk_data st sz \<longrightarrow> sz \<le> NGX_MAX_OFF_T_VALUE div 16"
      if "chunk_inv z" "chunk_step z mem p = Return e" for z p e
      using that chunk_byte_exit by (cases z) (fastforce simp: chunk_step_def)
    have "\<forall>st sz. e = Chunk_data st sz \<longrightarrow> sz \<le> NGX_MAX_OFF_T_VALUE div 16"
      by (rule scan_Inr_invariant [where I = "\<lambda>z p. chunk_inv z"
          and Q = "\<lambda>e p. \<forall>st sz. e = Chunk_data st sz \<longrightarrow> sz \<le> NGX_MAX_OFF_T_VALUE div 16", OF _ _ inv run])
        (rule keep, assumption, assumption, rule leave, assumption)
    then show ?thesis
      using eq scan run a scan_Inr_bounds [OF run]
      by (cases e) (auto simp: chunk_label_data_def Let_def chunk_rc ctx_state_def NGX_MAX_OFF_T_VALUE_def)
  qed
  then show "dechunk (ctx_state ctx) (bytes_between mem p lst @ bs) =
      (if cr_rc a = NGX_OK then dechunk (ctx_state (cr_ctx a)) (bytes_between mem (cr_pos a) lst @ bs)
       else if cr_rc a = NGX_DONE then Some ([], bytes_between mem (cr_pos a) lst @ bs)
       else if cr_rc a = NGX_AGAIN then dechunk (ctx_state (cr_ctx a)) bs
       else None)"
    and "cr_rc a = NGX_AGAIN \<Longrightarrow> cr_pos a = lst
      \<and> ck_length (cr_ctx a) = chunk_length (ck_state (cr_ctx a)) (ck_size (cr_ctx a))"
    and "cr_rc a = NGX_DONE \<Longrightarrow> cr_pos a \<le> lst"
    by blast+
qed

section \<open>The filter is the reference\<close>

definition out_data :: "out_buf list \<Rightarrow> bytes" where
  "out_data out = concat (map ob_data out)"

lemma out_data_append [simp]: "out_data (xs @ ys) = out_data xs @ out_data ys"
  by (simp add: out_data_def)

lemma out_data_one [simp]: "out_data [\<lparr>ob_data = d, ob_last_buf = l\<rparr>] = d"
  by (simp add: out_data_def)

lemma out_data_Nil [simp]: "out_data [] = []"
  by (simp add: out_data_def)

text \<open>
  What the filter may answer, given that \<open>ref\<close> is what the reference makes of the bytes that it got and those that
  follow: a failure stands for a body that is too large, or refused, whatever follows.
\<close>

definition filter_error :: "(nat \<Rightarrow> bool) \<Rightarrow> int \<Rightarrow> int \<Rightarrow> int \<Rightarrow> (bytes \<Rightarrow> (bytes \<times> bytes) option) \<Rightarrow> bool" where
  "filter_error mem_ok max_body_size got code ref \<longleftrightarrow>
     code = NGX_HTTP_REQUEST_ENTITY_TOO_LARGE \<and> max_body_size \<noteq> 0
       \<and> (\<forall>bs d left. ref bs = Some (d, left) \<longrightarrow> max_body_size < got + int (length d))
     \<or> code = NGX_HTTP_INTERNAL_SERVER_ERROR \<and> (\<exists>n. \<not> mem_ok n)
     \<or> code = NGX_HTTP_BAD_REQUEST \<and> (\<forall>bs. ref bs = None)"

lemma filter_error_data:
  assumes "filter_error mem_ok m (got + int (length d1)) code ref1" "\<And>bs. ref bs = map_option (apfst ((@) d1)) (ref1 (xs @ bs))"
  shows "filter_error mem_ok m got code ref"
proof -
  have big: "m < got + int (length d)" if h: "\<forall>bs d left. ref1 bs = Some (d, left) \<longrightarrow> m < got + int (length d1) + int (length d)"
      "ref bs = Some (d, left)" for bs d left
  proof -
    obtain d2 where "ref1 (xs @ bs) = Some (d2, left)" "d = d1 @ d2" using h(2) assms(2)[of bs] by auto
    then show ?thesis using h(1) by fastforce
  qed
  show ?thesis using assms(1) big assms(2) unfolding filter_error_def by auto
qed

lemma dechunk_size:
  "0 \<le> sz \<Longrightarrow> dechunk (ck_chunk_data, sz) bs = Some (d, left) \<Longrightarrow> sz \<le> int (length d)"
proof (induction bs arbitrary: sz d)
  case (Cons b bs)
  show ?case
  proof (cases "0 < sz")
    case True
    then obtain d' where "dechunk (ck_chunk_data, sz - 1) bs = Some (d', left)" "d = b # d'" using Cons.prems by auto
    with Cons.IH[of "sz - 1" d'] True show ?thesis by simp
  qed (use Cons.prems in simp)
qed simp

definition filter_ok :: "(bytes \<Rightarrow> (bytes \<times> bytes) option) \<Rightarrow> int \<Rightarrow> body_filter \<Rightarrow> body_filter \<Rightarrow> bytes \<Rightarrow> bytes
    \<Rightarrow> bool \<Rightarrow> bool" where
  "filter_ok ref max_body_size f f' d left fin \<longleftrightarrow>
     bf_content_length_n f' = bf_content_length_n f + int (length d)
     \<and> (max_body_size \<noteq> 0 \<longrightarrow> bf_content_length_n f \<le> max_body_size \<longrightarrow> bf_content_length_n f' \<le> max_body_size)
     \<and> (if bf_rest f' = 0 then (\<forall>bs. ref bs = Some (d, left @ bs)) \<and> fin
        else left = [] \<and> chunked_ok (bf_chunked f')
          \<and> bf_rest f' = chunk_length (ck_state (bf_chunked f')) (ck_size (bf_chunked f'))
          \<and> (\<forall>bs. ref bs = map_option (apfst ((@) d)) (dechunk (ctx_state (bf_chunked f')) bs)))"

lemma filter_ok_data:
  assumes "filter_ok (\<lambda>bs. dechunk (ctx_state (bf_chunked f1)) (mid @ bs)) m f1 f' d left fin"
    and "\<And>bs. ref bs = map_option (apfst ((@) d1)) (dechunk (ctx_state (bf_chunked f1)) (mid @ bs))"
    and "bf_content_length_n f1 = bf_content_length_n f + int (length d1)"
    and "m \<noteq> 0 \<Longrightarrow> bf_content_length_n f1 \<le> m"
  shows "filter_ok ref m f f' (d1 @ d) left fin"
proof -
  have "apfst ((@) d1) \<circ> apfst ((@) d) = (apfst ((@) (d1 @ d)) :: bytes \<times> bytes \<Rightarrow> _)" by (auto simp: fun_eq_iff)
  with assms show ?thesis
    by (auto simp: filter_ok_def option.map_comp)
qed

lemma map_option_append_Nil [simp]: "map_option (apfst ((@) [])) (x :: (bytes \<times> bytes) option) = x"
  by (cases x) (auto simp: apfst_def)

lemma filter_buf_dechunk:
  assumes "chunked_ok (bf_chunked f)" and "p \<le> lst" and "lst \<le> length mem"
  shows "case chunked_filter_buf mem_ok m f mem p lst out of
      Body_error code \<Rightarrow> filter_error mem_ok m (bf_content_length_n f) code
        (\<lambda>bs. dechunk (ctx_state (bf_chunked f)) (bytes_between mem p lst @ bs))
    | Body_done f' q out' \<Rightarrow> q \<le> lst \<and> (\<exists>d. out_data out' = out_data out @ d
        \<and> filter_ok (\<lambda>bs. dechunk (ctx_state (bf_chunked f)) (bytes_between mem p lst @ bs)) m f f' d
            (bytes_between mem q lst) (out' \<noteq> [] \<and> ob_last_buf (last out')))"
  using assms
proof (induction mem_ok m f mem p lst out rule: chunked_filter_buf.induct)
  case (1 mem_ok m f mem p lst out)
  let ?a = "ngx_http_parse_chunked mem p lst (bf_chunked f)"
  let ?ctx = "cr_ctx ?a" and ?pos = "cr_pos ?a" and ?n = "bf_allocs f"
  let ?ref = "\<lambda>bs. dechunk (ctx_state (bf_chunked f)) (bytes_between mem p lst @ bs)"
  note parse = parse_dechunk [OF 1(3-5) refl]
  note bounds = chunked_call_bounds [OF 1(3) refl, of mem p lst]
  have rcs: "cr_rc ?a \<in> {NGX_OK, NGX_DONE, NGX_AGAIN, NGX_ERROR}"
    by (auto simp: ngx_http_parse_chunked_def chunk_label_data_def Let_def
        split: sum.splits prod.splits chunk_exit.splits)
  consider (ok) "cr_rc ?a = NGX_OK" | (fin) "cr_rc ?a = NGX_DONE" | (again) "cr_rc ?a = NGX_AGAIN"
    | (err) "cr_rc ?a = NGX_ERROR" using rcs by blast
  then show ?case
  proof cases
    case ok
    note progress = parse_ok_progress [OF ok]
    have state: "ck_state ?ctx = ck_chunk_data" "0 < ck_size ?ctx" "ck_size ?ctx \<le> NGX_MAX_OFF_T_VALUE div 16"
      using bounds ok by auto
    show ?thesis
    proof (cases "m \<noteq> 0 \<and> m - bf_content_length_n f < ck_size ?ctx \<or> \<not> mem_ok ?n")
      case True
      have size: "ck_size ?ctx \<le> int (length d)" if "?ref bs = Some (d, left)" for bs d left
        using that parse(1) ok state by (intro dechunk_size) (auto simp: ctx_state_def)
      have e: "chunked_filter_buf mem_ok m f mem p lst out = Body_error
          (if m \<noteq> 0 \<and> m - bf_content_length_n f < ck_size ?ctx then NGX_HTTP_REQUEST_ENTITY_TOO_LARGE else NGX_HTTP_INTERNAL_SERVER_ERROR)"
        using ok True by (subst chunked_filter_buf.simps) (auto simp: Let_def)
      have "m < bf_content_length_n f + int (length d)" if "m - bf_content_length_n f < ck_size ?ctx" "?ref bs = Some (d, left)" for bs d left
        using size [OF that(2)] that(1) by linarith
      then show ?thesis unfolding e filter_error_def using True by auto
    next
      case room: False
      then have roomA: "\<not> (m \<noteq> 0 \<and> m - bf_content_length_n f < ck_size ?ctx)" and roomB: "\<not> \<not> mem_ok ?n"
        by blast+
      define k where "k = (if int (lst - ?pos) > ck_size ?ctx then nat (ck_size ?ctx) else lst - ?pos)"
      define f1 where "f1 = f\<lparr>bf_content_length_n := bf_content_length_n f + int k,
        bf_chunked := ?ctx\<lparr>ck_size := ck_size ?ctx - int k\<rparr>, bf_allocs := ?n + 1\<rparr>"
      define o1 where "o1 = out @ [\<lparr>ob_data = bytes_between mem ?pos (?pos + k), ob_last_buf = False\<rparr>]"
      have k: "int k \<le> ck_size ?ctx" "?pos + k \<le> lst" using state progress by (auto simp: k_def)
      have rec: "chunked_filter_buf mem_ok m f mem p lst out = chunked_filter_buf mem_ok m f1 mem (?pos + k) lst o1"
        using ok room progress state
        by (subst chunked_filter_buf.simps) (auto simp: Let_def k_def f1_def o1_def)
      have "chunked_ok (bf_chunked f1)"
        using state k by (auto simp: f1_def chunked_ok_def chunk_inv_def off_t_def NGX_MAX_OFF_T_VALUE_def)
      then have IH: "case chunked_filter_buf mem_ok m f1 mem (?pos + k) lst o1 of
          Body_error code \<Rightarrow> filter_error mem_ok m (bf_content_length_n f1) code
            (\<lambda>bs. dechunk (ctx_state (bf_chunked f1)) (bytes_between mem (?pos + k) lst @ bs))
        | Body_done f' q out' \<Rightarrow> q \<le> lst \<and> (\<exists>d. out_data out' = out_data o1 @ d
            \<and> filter_ok (\<lambda>bs. dechunk (ctx_state (bf_chunked f1)) (bytes_between mem (?pos + k) lst @ bs)) m f1 f' d
                (bytes_between mem q lst) (out' \<noteq> [] \<and> ob_last_buf (last out')))"
      proof (cases "int (lst - ?pos) > ck_size ?ctx")
        case True
        then have "k = nat (ck_size ?ctx)" "int k = ck_size ?ctx" using state by (simp_all add: k_def)
        then have "f\<lparr>bf_content_length_n := bf_content_length_n f + ck_size ?ctx, bf_chunked := ?ctx\<lparr>ck_size := 0\<rparr>,
            bf_allocs := ?n + 1\<rparr> = f1" "?pos + nat (ck_size ?ctx) = ?pos + k"
          by (simp_all add: f1_def)
        note IH = 1(1) [OF refl refl refl refl ok roomA roomB refl True refl, unfolded this, folded o1_def]
        assume "chunked_ok (bf_chunked f1)"
        from IH [OF this k(2) 1(5)] show ?thesis .
      next
        case False
        then have k': "k = lst - ?pos" "?pos + k = lst" using progress by (simp_all add: k_def)
        then have "f\<lparr>bf_content_length_n := bf_content_length_n f + int (lst - ?pos),
            bf_chunked := ?ctx\<lparr>ck_size := ck_size ?ctx - int (lst - ?pos)\<rparr>, bf_allocs := ?n + 1\<rparr> = f1"
          "out @ [\<lparr>ob_data = bytes_between mem ?pos lst, ob_last_buf = False\<rparr>] = o1"
          by (simp_all add: f1_def o1_def)
        note IH = 1(2) [OF refl refl refl refl ok roomA roomB refl False, unfolded this]
        assume "chunked_ok (bf_chunked f1)"
        from IH [OF this order_refl 1(5)] show ?thesis unfolding k'(2) .
      qed
      have ref: "?ref bs = map_option (apfst ((@) (bytes_between mem ?pos (?pos + k))))
          (dechunk (ctx_state (bf_chunked f1)) (bytes_between mem (?pos + k) lst @ bs))" for bs
      proof -
        have len: "length (bytes_between mem ?pos (?pos + k)) = k" using k(2) 1(5) by simp
        have "?ref bs = dechunk (ctx_state ?ctx) (bytes_between mem ?pos (?pos + k) @ bytes_between mem (?pos + k) lst @ bs)"
          using parse(1) ok k bytes_between_append [of ?pos "?pos + k" lst mem] by simp
        then show ?thesis
          using dechunk_data [of "bytes_between mem ?pos (?pos + k)" "ck_size ?ctx"] k len state
          by (simp add: ctx_state_def f1_def)
      qed
      show ?thesis
      proof (cases "chunked_filter_buf mem_ok m f1 mem (?pos + k) lst o1")
        case (Body_error code)
        have "filter_error mem_ok m (bf_content_length_n f + int (length (bytes_between mem ?pos (?pos + k)))) code
            (\<lambda>bs. dechunk (ctx_state (bf_chunked f1)) (bytes_between mem (?pos + k) lst @ bs))"
          using IH Body_error k 1(5) by (simp add: f1_def)
        from filter_error_data [OF this, of ?ref "[]"] ref rec Body_error show ?thesis by simp
      next
        case (Body_done f' q out')
        with IH obtain d where q: "q \<le> lst" and d: "out_data out' = out_data o1 @ d"
          and fok: "filter_ok (\<lambda>bs. dechunk (ctx_state (bf_chunked f1)) (bytes_between mem (?pos + k) lst @ bs)) m f1 f' d
                (bytes_between mem q lst) (out' \<noteq> [] \<and> ob_last_buf (last out'))" by auto
        have "filter_ok ?ref m f f' (bytes_between mem ?pos (?pos + k) @ d)
            (bytes_between mem q lst) (out' \<noteq> [] \<and> ob_last_buf (last out'))"
          by (rule filter_ok_data [OF fok ref]) (use k room 1(5) in \<open>auto simp: f1_def\<close>)
        with Body_done rec q d show ?thesis by (auto simp: o1_def)
      qed
    qed
  next
    case fin
    with parse show ?thesis
      by (subst chunked_filter_buf.simps) (auto simp: Let_def filter_error_def filter_ok_def chunk_rc)
  next
    case again
    with parse bounds show ?thesis
      by (subst chunked_filter_buf.simps)
        (auto simp: Let_def filter_ok_def chunk_rc intro!: exI [of _ "[]"])
  next
    case err
    with parse show ?thesis
      by (subst chunked_filter_buf.simps) (auto simp: Let_def filter_error_def chunk_rc)
  qed
qed

section \<open>Reading a body in pieces\<close>

text \<open>
  The calls made as the body arrives: each read is a buffer, and reading ends with the first buffer after
  which nothing is left to wait for.  The bytes after the body stay for the next request.
\<close>

fun read_chunked_body :: "(nat \<Rightarrow> bool) \<Rightarrow> int \<Rightarrow> body_filter \<Rightarrow> bytes list \<Rightarrow> out_buf list
    \<Rightarrow> int + (body_filter \<times> bytes \<times> out_buf list)" where
  "read_chunked_body mem_ok m f [] out = Inr (f, [], out)"
| "read_chunked_body mem_ok m f (c # cs) out =
     (case ngx_http_request_body_chunked_filter mem_ok m f [\<lparr>ib_mem = c, ib_pos = 0, ib_last = length c\<rparr>] of
        Inl code \<Rightarrow> Inl code
      | Inr (f', bufs, out') \<Rightarrow>
          if bf_rest f' = 0 then Inr (f', drop (ib_pos (hd bufs)) c @ concat cs, out @ out')
          else read_chunked_body mem_ok m f' cs (out @ out'))"

definition filter_inv :: "body_filter \<Rightarrow> bool" where
  "filter_inv f \<longleftrightarrow> bf_rest f = -1 \<or> 0 < bf_rest f \<and> chunked_ok (bf_chunked f)"

text \<open>The context a call works on.\<close>

definition filter_start :: "body_filter \<Rightarrow> body_filter" where
  "filter_start f = (if bf_rest f = -1
     then \<lparr>bf_rest = 3, bf_content_length_n = 0, bf_chunked = fresh_chunked, bf_allocs = bf_allocs f + 1\<rparr> else f)"

lemma chunked_ok_fresh [simp]: "chunked_ok fresh_chunked"
  by (simp add: chunked_ok_def chunk_inv_def fresh_chunked_def off_t_def NGX_MAX_OFF_T_VALUE_def)

lemma chunk_length_pos: "chunked_ok ctx \<Longrightarrow> 0 < chunk_length (ck_state ctx) (ck_size ctx)"
  by (cases "ck_state ctx") (auto simp: chunked_ok_def chunk_inv_def off_t_def)

lemma bytes_between_all [simp]: "bytes_between c 0 (length c) = c" "bytes_between c q (length c) = drop q c"
  by (simp_all add: bytes_between_def)

lemma call_dechunk:
  assumes "filter_inv f"
  shows "case ngx_http_request_body_chunked_filter mem_ok m f [\<lparr>ib_mem = c, ib_pos = 0, ib_last = length c\<rparr>] of
      Inl code \<Rightarrow> filter_error mem_ok m (bf_content_length_n (filter_start f)) code
        (\<lambda>bs. dechunk (ctx_state (bf_chunked (filter_start f))) (c @ bs))
    | Inr (f', bufs, out') \<Rightarrow> ib_pos (hd bufs) \<le> length c
        \<and> filter_ok (\<lambda>bs. dechunk (ctx_state (bf_chunked (filter_start f))) (c @ bs)) m (filter_start f) f'
            (out_data out') (drop (ib_pos (hd bufs)) c) (out' \<noteq> [] \<and> ob_last_buf (last out'))
        \<and> (bf_rest f' \<noteq> 0 \<longrightarrow> filter_inv f')"
proof (cases "bf_rest f = -1 \<and> \<not> mem_ok (bf_allocs f)")
  case True
  then show ?thesis by (auto simp: ngx_http_request_body_chunked_filter_def filter_error_def)
next
  case False
  have ok: "chunked_ok (bf_chunked (filter_start f))" using assms by (auto simp: filter_start_def filter_inv_def)
  have call: "ngx_http_request_body_chunked_filter mem_ok m f bufs =
      chunked_filter_loop mem_ok m (filter_start f) [] bufs []" for bufs
    using False by (auto simp: ngx_http_request_body_chunked_filter_def filter_start_def)
  have pos: "bf_rest f' \<noteq> 0 \<Longrightarrow> filter_ok ref m' f1 f' d left fin \<Longrightarrow> filter_inv f'" for f' ref m' f1 d left fin
    using chunk_length_pos by (auto simp: filter_ok_def filter_inv_def)
  show ?thesis
  proof (cases "chunked_filter_buf mem_ok m (filter_start f) c 0 (length c) []")
    case (Body_error code)
    with filter_buf_dechunk [OF ok, of 0 "length c" c mem_ok m "[]"] show ?thesis
      by (simp add: call)
  next
    case (Body_done f' q out')
    with filter_buf_dechunk [OF ok, of 0 "length c" c mem_ok m "[]"] pos show ?thesis
      by (auto simp: call)
  qed
qed

lemma read_chunked_dechunk:
  assumes "filter_inv f" and "bf_rest f \<noteq> 0"
  shows "case read_chunked_body mem_ok m f cs out of
      Inl code \<Rightarrow> filter_error mem_ok m (bf_content_length_n (filter_start f)) code
        (\<lambda>bs. dechunk (ctx_state (bf_chunked (filter_start f))) (concat cs @ bs))
    | Inr (f', left, out') \<Rightarrow> \<exists>d. out_data out' = out_data out @ d
        \<and> (m \<noteq> 0 \<longrightarrow> bf_content_length_n (filter_start f) \<le> m \<longrightarrow> cs \<noteq> [] \<longrightarrow> bf_content_length_n f' \<le> m)
        \<and> (cs \<noteq> [] \<longrightarrow> bf_content_length_n f' = bf_content_length_n (filter_start f) + int (length d))
        \<and> (if bf_rest f' = 0
            then dechunk (ctx_state (bf_chunked (filter_start f))) (concat cs) = Some (d, left)
              \<and> out' \<noteq> [] \<and> ob_last_buf (last out')
            else dechunk (ctx_state (bf_chunked (filter_start f))) (concat cs) = None)"
  using assms
proof (induction cs arbitrary: f out)
  case Nil
  then show ?case by (simp add: out_data_def)
next
  case (Cons c cs)
  let ?call = "ngx_http_request_body_chunked_filter mem_ok m f [\<lparr>ib_mem = c, ib_pos = 0, ib_last = length c\<rparr>]"
  let ?s = "ctx_state (bf_chunked (filter_start f))"
  note call = call_dechunk [OF Cons.prems(1), of mem_ok m c]
  show ?case
  proof (cases ?call)
    case (Inl code)
    then have e: "filter_error mem_ok m (bf_content_length_n (filter_start f) + int (length ([] :: bytes))) code (\<lambda>bs. dechunk ?s (c @ bs))"
      using call by simp
    from filter_error_data [OF e, of "\<lambda>bs. dechunk ?s (concat (c # cs) @ bs)" "concat cs"] Inl show ?thesis by simp
  next
    case (Inr x)
    obtain f' bufs out' where x: "x = (f', bufs, out')" by (cases x)
    from call Inr x have fok: "filter_ok (\<lambda>bs. dechunk ?s (c @ bs)) m (filter_start f) f' (out_data out')
        (drop (ib_pos (hd bufs)) c) (out' \<noteq> [] \<and> ob_last_buf (last out'))"
      and inv: "bf_rest f' \<noteq> 0 \<longrightarrow> filter_inv f'" by auto
    show ?thesis
    proof (cases "bf_rest f' = 0")
      case True
      with Inr x fok show ?thesis by (auto simp: filter_ok_def)
    next
      case rest: False
      then have f': "filter_start f' = f'" using fok chunk_length_pos [of "bf_chunked f'"]
        by (auto simp: filter_start_def filter_ok_def)
      have step: "dechunk ?s (c @ bs) = map_option (apfst ((@) (out_data out'))) (dechunk (ctx_state (bf_chunked f')) bs)" for bs
        using fok rest by (simp add: filter_ok_def)
      have rec: "read_chunked_body mem_ok m f (c # cs) out = read_chunked_body mem_ok m f' cs (out @ out')"
        using Inr x rest by simp
      have IH: "case read_chunked_body mem_ok m f' cs (out @ out') of
          Inl code \<Rightarrow> filter_error mem_ok m (bf_content_length_n f') code (\<lambda>bs. dechunk (ctx_state (bf_chunked f')) (concat cs @ bs))
        | Inr (f'', left, out'') \<Rightarrow> \<exists>d. out_data out'' = out_data (out @ out') @ d
            \<and> (m \<noteq> 0 \<longrightarrow> bf_content_length_n f' \<le> m \<longrightarrow> cs \<noteq> [] \<longrightarrow> bf_content_length_n f'' \<le> m)
            \<and> (cs \<noteq> [] \<longrightarrow> bf_content_length_n f'' = bf_content_length_n f' + int (length d))
            \<and> (if bf_rest f'' = 0
                then dechunk (ctx_state (bf_chunked f')) (concat cs) = Some (d, left)
                  \<and> out'' \<noteq> [] \<and> ob_last_buf (last out'')
                else dechunk (ctx_state (bf_chunked f')) (concat cs) = None)"
        using Cons.IH [of f' "out @ out'"] rest inv unfolding f' by blast
      show ?thesis
      proof (cases "read_chunked_body mem_ok m f' cs (out @ out')")
        case (Inl code)
        have "filter_error mem_ok m (bf_content_length_n (filter_start f) + int (length (out_data out'))) code
            (\<lambda>bs. dechunk (ctx_state (bf_chunked f')) (concat cs @ bs))"
          using IH Inl fok by (simp add: filter_ok_def)
        from filter_error_data [OF this, of "\<lambda>bs. dechunk ?s (concat (c # cs) @ bs)" "[]"] step Inl rec show ?thesis by simp
      next
        case (Inr y)
        obtain f'' left out'' where y: "y = (f'', left, out'')" by (cases y)
        from IH Inr y obtain d where d: "out_data out'' = out_data (out @ out') @ d"
          and more: "m \<noteq> 0 \<longrightarrow> bf_content_length_n f' \<le> m \<longrightarrow> cs \<noteq> [] \<longrightarrow> bf_content_length_n f'' \<le> m"
          "cs \<noteq> [] \<longrightarrow> bf_content_length_n f'' = bf_content_length_n f' + int (length d)"
          and fin: "if bf_rest f'' = 0
                then dechunk (ctx_state (bf_chunked f')) (concat cs) = Some (d, left)
                  \<and> out'' \<noteq> [] \<and> ob_last_buf (last out'')
                else dechunk (ctx_state (bf_chunked f')) (concat cs) = None" by auto
        have nil: "f'' = f' \<and> d = []" if "cs = []" using that Inr y d by simp
        show ?thesis
          using rec Inr y d more fin step [of "concat cs"] fok nil
          by (cases "cs = []") (auto simp: filter_ok_def intro!: exI [of _ "out_data out' @ d"])
      qed
    qed
  qed
qed

lemma chunked_reads:
  assumes "bf_rest f = -1" and "0 \<le> m"
  shows "case read_chunked_body mem_ok m f cs [] of
      Inl code \<Rightarrow>
        code = NGX_HTTP_REQUEST_ENTITY_TOO_LARGE \<and> m \<noteq> 0
          \<and> (\<forall>bs d left. dechunk (ck_chunk_start, 0) (concat cs @ bs) = Some (d, left) \<longrightarrow> m < int (length d))
        \<or> code = NGX_HTTP_INTERNAL_SERVER_ERROR \<and> (\<exists>n. \<not> mem_ok n)
        \<or> code = NGX_HTTP_BAD_REQUEST \<and> (\<forall>bs. dechunk (ck_chunk_start, 0) (concat cs @ bs) = None)
    | Inr (f', left, out) \<Rightarrow>
        (m \<noteq> 0 \<longrightarrow> int (length (out_data out)) \<le> m) \<and>
        (if bf_rest f' = 0
         then dechunk (ck_chunk_start, 0) (concat cs) = Some (out_data out, left) \<and> ob_last_buf (last out)
         else dechunk (ck_chunk_start, 0) (concat cs) = None)"
proof -
  have inv: "filter_inv f" using assms(1) by (simp add: filter_inv_def)
  have start: "ctx_state (bf_chunked (filter_start f)) = (ck_chunk_start, 0)" "bf_content_length_n (filter_start f) = 0"
    using assms(1) by (simp_all add: filter_start_def ctx_state_def fresh_chunked_def)
  note reads = read_chunked_dechunk [OF inv, of mem_ok m cs "[]", unfolded start]
  show ?thesis
  proof (cases "read_chunked_body mem_ok m f cs []")
    case (Inl code)
    then show ?thesis using reads assms by (simp add: filter_error_def)
  next
    case (Inr x)
    obtain f' left out where x: "x = (f', left, out)" by (cases x)
    show ?thesis using reads assms Inr x by (cases "cs = []") (auto simp: out_data_def split: if_splits)
  qed
qed

text \<open>
  Property C13 (refinement).  However a chunked body is cut into reads, the filter answers as the
  reference that takes the stream byte by byte, with a limit of \<open>m\<close> bytes or none (zero): it finishes exactly where the reference does, with
  the same data, of the last buffer marked as last, and with the bytes after the body left for the
  next request, and the data it delivers never exceeds the limit.  It fails with 400 only on a stream that the reference refuses whatever follows, with 413 only
  when each body that the stream can still become is larger than the limit, and with 500 only when an allocation fails; so
  with memory a body within the limit is always delivered.
\<close>

theorem chunked_body_any_reads:
  assumes "bf_rest f = -1" and "0 \<le> m"
  shows "case read_chunked_body mem_ok m f cs [] of
      Inl code \<Rightarrow>
        code = NGX_HTTP_REQUEST_ENTITY_TOO_LARGE \<and> m \<noteq> 0
          \<and> (\<forall>bs d left. dechunk (ck_chunk_start, 0) (concat cs @ bs) = Some (d, left) \<longrightarrow> m < int (length d))
        \<or> code = NGX_HTTP_INTERNAL_SERVER_ERROR \<and> (\<exists>n. \<not> mem_ok n)
        \<or> code = NGX_HTTP_BAD_REQUEST \<and> (\<forall>bs. dechunk (ck_chunk_start, 0) (concat cs @ bs) = None)
    | Inr (f', left, out) \<Rightarrow>
        (m \<noteq> 0 \<longrightarrow> int (length (out_data out)) \<le> m) \<and>
        (if bf_rest f' = 0
         then dechunk (ck_chunk_start, 0) (concat cs) = Some (out_data out, left) \<and> ob_last_buf (last out)
         else dechunk (ck_chunk_start, 0) (concat cs) = None)"
  using assms by (rule chunked_reads)

text \<open>A lower bound on the bytes still to come.\<close>

lemma dechunk_length:
  assumes "chunk_inv s \<or> s = (ck_chunk_data, 0)" and "dechunk s bs = Some (d, left)"
  shows "chunk_length (fst s) (snd s) + int (length left) \<le> int (length bs)"
  using assms
proof (induction s bs arbitrary: d rule: dechunk.induct)
  case (1 s)
  then show ?case by simp
next
  case (2 st sz b bs)
  show ?case
  proof (cases "st = ck_chunk_data \<and> 0 < sz")
    case True
    then obtain d' where "dechunk (st, sz - 1) bs = Some (d', left)" using 2(4) by auto
    moreover have "chunk_inv (st, sz - 1) \<or> (st, sz - 1) = (ck_chunk_data, 0)"
      using 2(3) True by (auto simp: chunk_inv_def off_t_def)
    ultimately have "chunk_length st (sz - 1) + int (length left) \<le> int (length bs)"
      using 2(1) [OF True] by auto
    with True show ?thesis by simp
  next
    case False
    define st' where "st' = (if st = ck_chunk_data then ck_after_data else st)"
    have inv: "chunk_inv (st', sz)" and len: "chunk_length st sz = chunk_length st' sz" and "st' \<noteq> ck_chunk_data"
      using 2(3) False by (auto simp: st'_def chunk_inv_def off_t_def NGX_MAX_OFF_T_VALUE_def)
    show ?thesis
    proof (cases "chunk_byte (st', sz) b")
      case (Next s')
      obtain st1 sz1 where s': "s' = (st1, sz1)" by (cases s')
      have inv1: "chunk_inv s'" using chunk_byte_inv [OF inv Next] .
      have "chunk_length st' sz \<le> 1 + chunk_length st1 sz1"
        using Next inv \<open>st' \<noteq> ck_chunk_data\<close> s' chunk_digit_range [of b]
        by (cases st')
          (auto simp: chunk_byte_def chunk_defs chunk_inv_def off_t_def NGX_MAX_OFF_T_VALUE_def split: if_splits option.splits)
      moreover have "dechunk s' bs = Some (d, left)" using 2(4) False Next by (simp add: st'_def)
      ultimately show ?thesis
        using 2(2) [OF False, folded st'_def, OF Next] inv1 len s' by fastforce
    next
      case (Return e)
      then obtain sz' where "e = Chunk_done sz'" and left: "left = bs"
        using 2(4) False by (cases e) (auto simp: st'_def)
      with Return have "chunk_length st' sz \<le> 1"
        by (cases st') (auto simp: chunk_byte_def chunk_defs split: if_splits option.splits)
      with left len show ?thesis by simp
    qed
  qed
qed

lemma read_again:
  assumes "read_chunked_body mem_ok m f cs out = Inr (f1, left, out1)" and "cs \<noteq> []"
    and "bf_rest f1 \<noteq> 0" and "filter_inv f"
  shows "chunked_ok (bf_chunked f1) \<and> filter_inv f1
    \<and> bf_rest f1 = chunk_length (ck_state (bf_chunked f1)) (ck_size (bf_chunked f1))"
  using assms
proof (induction cs arbitrary: f out)
  case Nil
  then show ?case by simp
next
  case (Cons c cs)
  obtain g bufs o1 where call: "ngx_http_request_body_chunked_filter mem_ok m f
      [\<lparr>ib_mem = c, ib_pos = 0, ib_last = length c\<rparr>] = Inr (g, bufs, o1)"
    using Cons.prems(1) by (auto split: sum.splits prod.splits)
  then have g: "bf_rest g \<noteq> 0" using Cons.prems by auto
  have inv: "chunked_ok (bf_chunked g) \<and> filter_inv g \<and> bf_rest g = chunk_length (ck_state (bf_chunked g)) (ck_size (bf_chunked g))"
    using call_dechunk [OF Cons.prems(4), of mem_ok m c] call g by (auto simp: filter_ok_def)
  have rec: "read_chunked_body mem_ok m g cs (out @ o1) = Inr (f1, left, out1)"
    using Cons.prems(1) call g by simp
  show ?case
  proof (cases "cs = []")
    case True
    with rec inv show ?thesis by simp
  next
    case False
    from Cons.IH [OF rec False Cons.prems(3)] inv show ?thesis by blast
  qed
qed

text \<open>
  Property C27 (safety).  The number of bytes the filter asks for after a read is never more than the body
  still has: if later reads complete the body, they bring at least that many bytes of it.  So a
  reader that waits for no more does not wait for bytes of the next request.
\<close>

theorem chunked_rest_is_needed:
  assumes "bf_rest f = -1" and "read_chunked_body mem_ok m f (c # cs) [] = Inr (f1, left1, out1)"
    and "bf_rest f1 \<noteq> 0"
    and "read_chunked_body mem_ok m f1 cs' [] = Inr (f2, left2, out2)" and "bf_rest f2 = 0"
  shows "bf_rest f1 \<le> int (length (concat cs')) - int (length left2)"
proof -
  have "filter_inv f" using assms(1) by (simp add: filter_inv_def)
  from read_again [OF assms(2) _ assms(3) this]
  have inv: "filter_inv f1" and ok: "chunked_ok (bf_chunked f1)"
    and len: "bf_rest f1 = chunk_length (ck_state (bf_chunked f1)) (ck_size (bf_chunked f1))"
    by simp_all
  have "filter_start f1 = f1" using chunk_length_pos [OF ok] len by (simp add: filter_start_def)
  note ok = ok this
  have "dechunk (ctx_state (bf_chunked f1)) (concat cs') = Some (out_data out2, left2)"
    using read_chunked_dechunk [OF inv assms(3), of mem_ok m cs' "[]"] assms(4,5) ok
    by (auto simp: out_data_def)
  from dechunk_length [OF _ this] ok len show ?thesis
    by (auto simp: chunked_ok_def ctx_state_def)
qed


section \<open>Round trip\<close>

lemma unat_drop_4: "unat (drop_bit 4 (n :: uint64)) = unat n div 16"
  by (simp add: drop_bit_eq_div unat_div_distrib)

lemma num_hex_less: "drop_bit 4 (n :: uint64) \<noteq> 0 \<Longrightarrow> unat (drop_bit 4 n) < unat n"
  using unat_drop_4 [of n] unat_gt_0 [of "drop_bit 4 n"] by auto

lemma num_hex_step:
  "num_hex h n temp = (let d = h ! unat (n AND 0xf) in
     if drop_bit 4 n \<noteq> 0 then num_hex h (drop_bit 4 n) (d # temp) else d # temp)"
  by (simp add: num_hex.simps [of h n] Let_def)

lemma num_hex_append: "num_hex h n temp = num_hex h n [] @ temp"
proof (induction "unat n" arbitrary: n temp rule: less_induct)
  case less
  show ?case
  proof (cases "drop_bit 4 n = 0")
    case True
    then show ?thesis by (simp add: num_hex_step [of h n])
  next
    case False
    let ?d = "h ! unat (n AND 0xf)"
    have "num_hex h n temp = num_hex h (drop_bit 4 n) (?d # temp)"
      and "num_hex h n [] = num_hex h (drop_bit 4 n) [?d]"
      using False by (simp_all add: num_hex_step [of h n])
    moreover have "num_hex h (drop_bit 4 n) (?d # t) = num_hex h (drop_bit 4 n) [] @ ?d # t" for t
      using num_hex_less [OF False] by (rule less)
    ultimately show ?thesis by (metis append_Cons append_Nil append_assoc)
  qed
qed

lemma chunk_digit_hex: "k < 16 \<Longrightarrow> chunk_digit (hex_lower ! k) = Some (int k)"
proof -
  assume "k < 16"
  then have "k \<in> set [0..<16]" by simp
  then show ?thesis by (auto simp: upt_rec hex_lower_def chars_def chunk_digit_def)
qed

lemma dechunk_start: "dechunk (ck_chunk_start, s) bs = dechunk (ck_chunk_start, 0) bs"
  by (cases bs) (auto simp: chunk_byte_def chunk_start_def split: option.splits)


lemma unat_low_nibble: "unat (n AND 0xf) = unat (n :: uint64) mod 16"
proof -
  have "n AND 0xf = take_bit 4 n" using take_bit_eq_mask [of 4 n] by (simp add: mask_eq_exp_minus_1)
  then show ?thesis by (simp add: take_bit_eq_mod unat_mod_distrib)
qed

text \<open>The size that the encoder writes is the size the decoder reads.\<close>

lemma dechunk_hex:
  assumes "int (unat n) \<le> NGX_MAX_OFF_T_VALUE div 16"
  shows "dechunk (ck_chunk_start, s) (num_hex hex_lower n [] @ bs) = dechunk (ck_chunk_size, int (unat n)) bs"
  using assms
proof (induction "unat n" arbitrary: n bs rule: less_induct)
  case less
  let ?d = "hex_lower ! unat (n AND 0xf)"
  have d: "chunk_digit ?d = Some (int (unat n mod 16))"
    using chunk_digit_hex [of "unat n mod 16"] by (simp add: unat_low_nibble)
  show ?case
  proof (cases "drop_bit 4 n = 0")
    case True
    then have "unat n mod 16 = unat n" using unat_drop_4 [of n] by auto
    with True d show ?thesis by (simp add: num_hex_step [of hex_lower n] chunk_byte_def chunk_start_def)
  next
    case False
    have q: "int (unat (drop_bit 4 n)) \<le> NGX_MAX_OFF_T_VALUE div 16"
      using less.prems num_hex_less [OF False] by linarith
    have "num_hex hex_lower n [] @ bs = num_hex hex_lower (drop_bit 4 n) [] @ ?d # bs"
      using False num_hex_append [of hex_lower "drop_bit 4 n" "[?d]"] by (simp add: num_hex_step [of hex_lower n])
    then have "dechunk (ck_chunk_start, s) (num_hex hex_lower n [] @ bs) =
        dechunk (ck_chunk_size, int (unat (drop_bit 4 n))) (?d # bs)"
      using less.hyps [OF num_hex_less [OF False] q] by simp
    also have "\<dots> = dechunk (ck_chunk_size, int (unat (drop_bit 4 n)) * 16 + int (unat n mod 16)) bs"
      using q d by (simp add: chunk_byte_def chunk_size_def)
    also have "int (unat (drop_bit 4 n)) * 16 + int (unat n mod 16) = int (unat n)"
      unfolding unat_drop_4 by (metis add.commute div_mult_mod_eq of_nat_add of_nat_mult of_nat_numeral)
    finally show ?thesis .
  qed
qed

text \<open>One chunk: its size, its data and the line end before the next one.\<close>

lemma dechunk_chunk:
  assumes "d \<noteq> []" and "int (length d) \<le> NGX_MAX_OFF_T_VALUE div 16"
  shows "dechunk (ck_chunk_start, s) (num_hex hex_lower (word_of_nat (length d)) [] @ [CR, LF] @ d @ [CR, LF] @ bs)
    = map_option (apfst ((@) d)) (dechunk (ck_chunk_start, 0) bs)"
proof -
  have n: "unat (word_of_nat (length d) :: uint64) = length d"
    using assms(2) by (simp add: unat_of_nat NGX_MAX_OFF_T_VALUE_def)
  have no: "chunk_digit CR = None" by (simp add: chunk_digit_def CR_def word_le_1)
  have "dechunk (ck_chunk_start, s) (num_hex hex_lower (word_of_nat (length d)) [] @ [CR, LF] @ d @ [CR, LF] @ bs)
      = dechunk (ck_chunk_size, int (length d)) ([CR, LF] @ d @ [CR, LF] @ bs)"
    using dechunk_hex [of "word_of_nat (length d)"] assms(2) n by simp
  also have "\<dots> = dechunk (ck_chunk_data, int (length d)) (d @ [CR, LF] @ bs)"
    using assms no by (simp add: chunk_byte_def chunk_size_def chunk_lf_def)
  also have "\<dots> = map_option (apfst ((@) d)) (dechunk (ck_chunk_data, 0) ([CR, LF] @ bs))"
    using dechunk_data [of d "int (length d)" "[CR, LF] @ bs"] by simp
  also have "dechunk (ck_chunk_data, 0) ([CR, LF] @ bs) = dechunk (ck_chunk_start, 0) bs"
    by (simp add: chunk_byte_def chunk_to_eol_def chunk_lf_def)
  finally show ?thesis .
qed

lemma dechunk_end:
  "dechunk (ck_chunk_start, s) (chars ''0'' @ [CR, LF, CR, LF] @ bs) = Some ([], bs)"
proof -
  have "chunk_digit 48 = Some 0" by (simp add: chunk_digit_def)
  moreover have "chunk_digit CR = None" by (simp add: chunk_digit_def CR_def word_le_1)
  ultimately show ?thesis
    by (simp add: chars_def chunk_byte_def chunk_start_def chunk_size_def chunk_lf_def chunk_trailer_def
        NGX_MAX_OFF_T_VALUE_def CR_def LF_def)
qed

definition res_data :: "res_buf list \<Rightarrow> bytes" where
  "res_data bufs = concat (map rb_data bufs)"

text \<open>A buffer that is neither in memory nor in a file has no data.\<close>

definition res_wf :: "res_buf \<Rightarrow> bool" where
  "res_wf b \<longleftrightarrow> rb_in_memory b \<or> rb_in_file b \<or> rb_data b = []"

lemma res_data_simps [simp]:
  "res_data [] = []" "res_data (b # bs) = rb_data b @ res_data bs" "res_data (bs @ cs) = res_data bs @ res_data cs"
  by (simp_all add: res_data_def)

lemma rb_data_plain [simp]: "rb_data (plain_buf d) = d"
  by (simp add: plain_buf_def)

lemma res_data_kept: "\<forall>b \<in> set bufs. res_wf b \<Longrightarrow> res_data (filter chunk_kept bufs) = res_data bufs"
  by (induction bufs) (auto simp: chunk_kept_def res_wf_def)

lemma length_res_data: "length (res_data bufs) = (\<Sum>b \<leftarrow> bufs. length (rb_data b))"
  by (induction bufs) simp_all

lemma res_data_cleared:
  assumes "bufs \<noteq> []" and "\<forall>b \<in> set bufs. res_wf b"
  shows "res_data (filter chunk_kept (butlast bufs @ [(last bufs)\<lparr>rb_last_buf := False\<rparr>])) = res_data bufs"
proof -
  have split: "bufs = butlast bufs @ [last bufs]" using assms(1) by simp
  have "\<forall>b \<in> set (butlast bufs @ [(last bufs)\<lparr>rb_last_buf := False\<rparr>]). res_wf b"
    using assms by (auto simp: res_wf_def dest: in_set_butlastD)
  then have "res_data (filter chunk_kept (butlast bufs @ [(last bufs)\<lparr>rb_last_buf := False\<rparr>]))
      = res_data (butlast bufs @ [(last bufs)\<lparr>rb_last_buf := False\<rparr>])" by (rule res_data_kept)
  also have "\<dots> = res_data (butlast bufs @ [last bufs])" by simp
  finally show ?thesis using split by simp
qed

text \<open>The bytes one call of the encoder sends.\<close>

lemma encode_bytes:
  assumes "ngx_http_chunked_body_filter mem_ok True False bufs = Some out" and "bufs \<noteq> []"
    and "\<forall>b \<in> set bufs. res_wf b"
  shows "res_data out = (let d = res_data bufs in
      (if d \<noteq> [] then num_hex hex_lower (word_of_nat (length d)) [] @ [CR, LF] @ d else [])
      @ (if rb_last_buf (last bufs) then (if d \<noteq> [] then [CR, LF] else []) @ chars ''0'' @ [CR, LF, CR, LF]
         else if d \<noteq> [] then [CR, LF] else []))"
  using assms res_data_cleared [OF assms(2,3)] res_data_kept [OF assms(3)] length_res_data [of bufs, symmetric]
  by (auto simp: ngx_http_chunked_body_filter_def Let_def split: if_splits)

lemma dechunk_encode:
  assumes "ngx_http_chunked_body_filter mem_ok True False bufs = Some out" and "bufs \<noteq> []"
    and "\<forall>b \<in> set bufs. res_wf b" and "int (length (res_data bufs)) \<le> NGX_MAX_OFF_T_VALUE div 16"
  shows "dechunk (ck_chunk_start, s) (res_data out @ bs) =
    (if rb_last_buf (last bufs) then Some (res_data bufs, bs)
     else map_option (apfst ((@) (res_data bufs))) (dechunk (ck_chunk_start, 0) bs))"
proof (cases "res_data bufs = []")
  case True
  with encode_bytes [OF assms(1-3)] show ?thesis
    using dechunk_start [of s bs] dechunk_end [of s bs] by (simp add: Let_def)
next
  case False
  show ?thesis
  proof (cases "rb_last_buf (last bufs)")
    case True
    with encode_bytes [OF assms(1-3)] False
      dechunk_chunk [OF False assms(4), of s "chars ''0'' @ [CR, LF, CR, LF] @ bs"]
    show ?thesis by (simp add: Let_def dechunk_end [simplified] apfst_def)
  next
    case more: False
    with encode_bytes [OF assms(1-3)] False dechunk_chunk [OF False assms(4), of s bs]
    show ?thesis by (simp add: Let_def)
  qed
qed

text \<open>A response sent by calls of the encoder, of which the last one has the last buffer.\<close>

definition res_calls_ok :: "res_buf list list \<Rightarrow> bool" where
  "res_calls_ok calls \<longleftrightarrow>
     calls \<noteq> [] \<and> (\<forall>bufs \<in> set calls. bufs \<noteq> [] \<and> list_all res_wf bufs
       \<and> int (length (res_data bufs)) \<le> NGX_MAX_OFF_T_VALUE div 16)
     \<and> list_all (\<lambda>bufs. \<not> rb_last_buf (last bufs)) (butlast calls) \<and> rb_last_buf (last (last calls))"

lemma dechunk_calls:
  assumes "res_calls_ok calls" and "map (ngx_http_chunked_body_filter mem_ok True False) calls = map Some outs"
  shows "dechunk (ck_chunk_start, s) (concat (map res_data outs) @ bs) = Some (concat (map res_data calls), bs)"
  using assms
proof (induction calls arbitrary: outs s)
  case Nil
  then show ?case by (simp add: res_calls_ok_def)
next
  case (Cons bufs calls)
  then obtain out outs' where outs: "outs = out # outs'"
    and call: "ngx_http_chunked_body_filter mem_ok True False bufs = Some out"
    and calls: "map (ngx_http_chunked_body_filter mem_ok True False) calls = map Some outs'"
    by (cases outs) auto
  from Cons.prems(1) have ok: "bufs \<noteq> []" "\<forall>b \<in> set bufs. res_wf b"
    "int (length (res_data bufs)) \<le> NGX_MAX_OFF_T_VALUE div 16"
    by (simp_all add: res_calls_ok_def list_all_iff)
  note enc = dechunk_encode [OF call ok, of s "concat (map res_data outs') @ bs"]
  show ?case
  proof (cases "calls = []")
    case True
    with Cons.prems(1) enc outs calls show ?thesis by (simp add: res_calls_ok_def)
  next
    case False
    have "res_calls_ok calls" using Cons.prems(1) False by (auto simp: res_calls_ok_def)
    moreover have "\<not> rb_last_buf (last bufs)" using Cons.prems(1) False by (simp add: res_calls_ok_def)
    ultimately show ?thesis using enc outs Cons.IH [OF _ calls] by (simp add: apfst_def)
  qed
qed

text \<open>
  Property C26 (roundtrip).  A response that the chunked filter encodes, in calls of which only the last ends in the last
  buffer and none has more than \<open>(2 ^ 63 - 1) / 16\<close> bytes, sent as a request body and read in any pieces by a request body filter that
  gets its memory, is decoded to the same data, and the bytes that follow it on the connection are left alone, when the limit of the
  body's size is zero (no limit) or not less than the data; else the answer is 413.
\<close>

theorem chunked_round_trip:
  assumes "res_calls_ok calls"
    and "map (ngx_http_chunked_body_filter mem_ok True False) calls = map Some outs"
    and "concat cs = concat (map res_data outs) @ next"
    and "\<forall>n. mem_ok' n" and "bf_rest f = -1" and "0 \<le> m"
  shows "if m = 0 \<or> int (length (concat (map res_data calls))) \<le> m
    then \<exists>f' left out. read_chunked_body mem_ok' m f cs [] = Inr (f', left, out)
      \<and> bf_rest f' = 0 \<and> out_data out = concat (map res_data calls) \<and> ob_last_buf (last out) \<and> left = next
    else read_chunked_body mem_ok' m f cs [] = Inl NGX_HTTP_REQUEST_ENTITY_TOO_LARGE"
proof -
  have d: "dechunk (ck_chunk_start, 0) (concat cs @ bs) = Some (concat (map res_data calls), next @ bs)" for bs
    using dechunk_calls [OF assms(1,2)] assms(3) by simp
  note reads = chunked_reads [OF assms(5,6), where mem_ok = mem_ok' and cs = cs]
  show ?thesis
  proof (cases "read_chunked_body mem_ok' m f cs []")
    case (Inl code)
    with reads assms(4) have "code = NGX_HTTP_REQUEST_ENTITY_TOO_LARGE" "m \<noteq> 0" "m < int (length (concat (map res_data calls)))"
      unfolding d by auto
    with Inl show ?thesis by auto
  next
    case (Inr x)
    obtain f' left out where x: "x = (f', left, out)" by (cases x)
    show ?thesis using reads d [of "[]"] unfolding Inr x by (auto split: if_splits)
  qed
qed

definition fresh_filter :: body_filter where
  "fresh_filter = \<lparr>bf_rest = -1, bf_content_length_n = -1, bf_chunked = fresh_chunked, bf_allocs = 0\<rparr>"

theorem chunked_round_trip_witness:
  "\<exists>f' left out. read_chunked_body (\<lambda>_. True) 0 fresh_filter
      [chars ''2'' @ [CR], [LF] @ chars ''hi'' @ [CR, LF] @ chars ''0'', [CR, LF, CR, LF] @ chars ''G''] []
      = Inr (f', left, out) \<and> out_data out = chars ''hi'' \<and> left = chars ''G''"
proof -
  let ?b = "(plain_buf (chars ''hi''))\<lparr>rb_last_buf := True\<rparr>"
  let ?o = "chars ''2'' @ [CR, LF] @ chars ''hi'' @ [CR, LF] @ chars ''0'' @ [CR, LF, CR, LF]"
  have ok: "res_calls_ok [[?b]]"
    by (simp add: res_calls_ok_def res_wf_def plain_buf_def NGX_MAX_OFF_T_VALUE_def chars_def)
  obtain out where out: "ngx_http_chunked_body_filter (\<lambda>_. True) True False [?b] = Some out"
    by (simp add: ngx_http_chunked_body_filter_def Let_def list_all_iff)
  have "num_hex hex_lower 2 [] = chars ''2''" by (simp add: num_hex.simps hex_lower_def chars_def)
  then have data: "res_data out = ?o"
    using encode_bytes [OF out] by (simp add: plain_buf_def res_wf_def Let_def chars_def)
  show ?thesis
    using chunked_round_trip [OF ok, of "\<lambda>_. True" "[out]"
        "[chars ''2'' @ [CR], [LF] @ chars ''hi'' @ [CR, LF] @ chars ''0'', [CR, LF, CR, LF] @ chars ''G'']"
        "chars ''G''" "\<lambda>_. True" fresh_filter 0] out data
    by (simp add: fresh_filter_def plain_buf_def) blast
qed

theorem chunked_body_any_reads_witness:
  "case read_chunked_body (\<lambda>_. True) 10 fresh_filter [chars ''0'', [CR, LF, CR], [LF]] [] of
      Inl code \<Rightarrow>
        code = NGX_HTTP_REQUEST_ENTITY_TOO_LARGE \<and> (10 :: int) \<noteq> 0
          \<and> (\<forall>bs d left. dechunk (ck_chunk_start, 0) (concat [chars ''0'', [CR, LF, CR], [LF]] @ bs) = Some (d, left) \<longrightarrow> 10 < int (length d))
        \<or> code = NGX_HTTP_INTERNAL_SERVER_ERROR \<and> (\<exists>n. \<not> (\<lambda>_. True) (n :: nat))
        \<or> code = NGX_HTTP_BAD_REQUEST \<and> (\<forall>bs. dechunk (ck_chunk_start, 0) (concat [chars ''0'', [CR, LF, CR], [LF]] @ bs) = None)
    | Inr (f', left, out) \<Rightarrow>
        ((10 :: int) \<noteq> 0 \<longrightarrow> int (length (out_data out)) \<le> 10) \<and>
        (if bf_rest f' = 0
         then dechunk (ck_chunk_start, 0) (concat [chars ''0'', [CR, LF, CR], [LF]]) = Some (out_data out, left) \<and> ob_last_buf (last out)
         else dechunk (ck_chunk_start, 0) (concat [chars ''0'', [CR, LF, CR], [LF]]) = None)"
  by (rule chunked_body_any_reads) (simp_all add: fresh_filter_def)

lemmas chunked_eval = chunked_filter_buf.simps ngx_http_parse_chunked_def scan.simps chunk_step_def
  chunk_byte_def chunk_defs chunk_digit_def fresh_chunked_def Let_def chars_def CR_def LF_def
  chunk_label_data_def chunk_rc NGX_MAX_OFF_T_VALUE_def ngx_http_request_body_chunked_filter_def
  fresh_filter_def bytes_between_def word_le_1

definition half_read :: body_filter where
  "half_read = \<lparr>bf_rest = 7, bf_content_length_n = 0,
     bf_chunked = \<lparr>ck_state = ck_chunk_size, ck_size = 2, ck_length = 7\<rparr>, bf_allocs = 1\<rparr>"

lemma half_read_first: "read_chunked_body (\<lambda>_. True) 0 fresh_filter [chars ''2''] [] = Inr (half_read, [], [])"
  by (simp add: chunked_eval half_read_def)

lemma half_read_rest:
  "\<exists>f2 out2. read_chunked_body (\<lambda>_. True) 0 half_read
     [[CR, LF] @ chars ''hi'' @ [CR, LF] @ chars ''0'' @ [CR, LF, CR, LF]] [] = Inr (f2, [], out2) \<and> bf_rest f2 = 0"
  by (simp add: chunked_eval half_read_def)

theorem chunked_rest_is_needed_witness:
  "bf_rest half_read = 7 \<and>
   bf_rest half_read \<le> int (length (concat [[CR, LF] @ chars ''hi'' @ [CR, LF] @ chars ''0'' @ [CR, LF, CR, LF]]))
     - int (length ([] :: bytes))"
proof -
  obtain f2 out2 where "read_chunked_body (\<lambda>_. True) 0 half_read
     [[CR, LF] @ chars ''hi'' @ [CR, LF] @ chars ''0'' @ [CR, LF, CR, LF]] [] = Inr (f2, [], out2)" "bf_rest f2 = 0"
    using half_read_rest by blast
  from chunked_rest_is_needed [OF _ half_read_first _ this] show ?thesis
    by (simp add: fresh_filter_def half_read_def)
qed

section \<open>A body with a content length\<close>

definition unread :: "in_buf list \<Rightarrow> bytes" where
  "unread bufs = concat (map (\<lambda>b. bytes_between (ib_mem b) (ib_pos b) (ib_last b)) bufs)"

definition buf_ok :: "in_buf \<Rightarrow> bool" where
  "buf_ok b \<longleftrightarrow> ib_pos b \<le> ib_last b \<and> ib_last b \<le> length (ib_mem b)"

lemma unread_simps [simp]:
  "unread [] = []" "unread (b # bs) = bytes_between (ib_mem b) (ib_pos b) (ib_last b) @ unread bs"
  "unread (xs @ ys) = unread xs @ unread ys"
  by (simp_all add: unread_def)

lemma length_filter_loop_cuts:
  assumes "0 \<le> bf_rest f" and "\<forall>b \<in> set bufs. buf_ok b" and "\<forall>n. mem_ok n"
  shows "\<exists>f' left out'. length_filter_loop mem_ok f seen bufs out = Inr (f', seen @ left, out @ out')
    \<and> out_data out' @ unread left = unread bufs
    \<and> bf_rest f' = bf_rest f - int (length (out_data out')) \<and> (bf_rest f' = 0 \<or> unread left = [])
    \<and> 0 \<le> bf_rest f' \<and> (bf_rest f \<noteq> 0 \<and> bf_rest f' = 0 \<longrightarrow> out' \<noteq> [] \<and> ob_last_buf (last out'))"
  using assms
proof (induction bufs arbitrary: f seen out)
  case Nil
  then show ?case by (auto intro!: exI [of _ "[]"])
next
  case (Cons b bs)
  let ?n = "ib_last b - ib_pos b" and ?r = "bf_rest f"
  have b: "ib_pos b \<le> ib_last b" "ib_last b \<le> length (ib_mem b)" using Cons.prems(2) by (auto simp: buf_ok_def)
  show ?case
  proof (cases "?r = 0")
    case True
    then show ?thesis by (auto intro!: exI [of _ "b # bs"] exI [of _ "[]"])
  next
    case r: False
    define k where "k = (if int ?n < ?r then ?n else nat ?r)"
    define b' where "b' = b\<lparr>ib_pos := ib_pos b + k\<rparr>"
    define o1 where "o1 = \<lparr>ob_data = bytes_between (ib_mem b) (ib_pos b) (ib_pos b + k), ob_last_buf = \<not> int ?n < ?r\<rparr>"
    define f1 where "f1 = f\<lparr>bf_allocs := bf_allocs f + 1, bf_rest := ?r - int k\<rparr>"
    have k: "k \<le> ?n" "int k \<le> ?r" "int ?n < ?r \<or> int k = ?r" using r Cons.prems(1) by (auto simp: k_def)
    have step: "length_filter_loop mem_ok f seen (b # bs) out = length_filter_loop mem_ok f1 (seen @ [b']) bs (out @ [o1])"
    proof (cases "int ?n < ?r")
      case True
      then have "k = ?n" "ib_pos b + k = ib_last b" using b by (simp_all add: k_def)
      with True r Cons.prems(3) show ?thesis by (simp add: Let_def b'_def o1_def f1_def)
    next
      case False
      then have "k = nat ?r" "int k = ?r" using Cons.prems(1) by (simp_all add: k_def)
      with False r Cons.prems(3) show ?thesis by (simp add: Let_def b'_def o1_def f1_def)
    qed
    have "\<exists>f' left out'. length_filter_loop mem_ok f1 (seen @ [b']) bs (out @ [o1])
          = Inr (f', (seen @ [b']) @ left, (out @ [o1]) @ out')
        \<and> out_data out' @ unread left = unread bs
        \<and> bf_rest f' = bf_rest f1 - int (length (out_data out')) \<and> (bf_rest f' = 0 \<or> unread left = [])
        \<and> 0 \<le> bf_rest f' \<and> (bf_rest f1 \<noteq> 0 \<and> bf_rest f' = 0 \<longrightarrow> out' \<noteq> [] \<and> ob_last_buf (last out'))"
      by (rule Cons.IH) (use Cons.prems k in \<open>simp_all add: f1_def\<close>)
    then obtain f' left out' where IH: "length_filter_loop mem_ok f1 (seen @ [b']) bs (out @ [o1])
          = Inr (f', (seen @ [b']) @ left, (out @ [o1]) @ out')"
      "out_data out' @ unread left = unread bs"
      "bf_rest f' = bf_rest f1 - int (length (out_data out'))" "bf_rest f' = 0 \<or> unread left = []"
      "0 \<le> bf_rest f'" "bf_rest f1 \<noteq> 0 \<and> bf_rest f' = 0 \<longrightarrow> out' \<noteq> [] \<and> ob_last_buf (last out')"
      by blast
    have len: "length (bytes_between (ib_mem b) (ib_pos b) (ib_pos b + k)) = k"
      using k(1) b by simp
    have cut: "bytes_between (ib_mem b) (ib_pos b) (ib_last b)
        = ob_data o1 @ bytes_between (ib_mem b) (ib_pos b + k) (ib_last b)"
      using k(1) b bytes_between_append [of "ib_pos b" "ib_pos b + k" "ib_last b" "ib_mem b"] by (simp add: o1_def)
    have o1: "out_data (o1 # xs) = ob_data o1 @ out_data xs" for xs by (simp add: out_data_def)
    have u: "unread (b' # left) = bytes_between (ib_mem b) (ib_pos b + k) (ib_last b) @ unread left"
      by (simp add: b'_def)
    have k1: "int (length (ob_data o1)) = int k" using len by (simp add: o1_def)
    have f1: "bf_rest f1 = ?r - int k" by (simp add: f1_def)
    show ?thesis
    proof (cases "int ?n < ?r")
      case True
      then have full: "ib_pos b + k = ib_last b" using b by (simp add: k_def)
      have "bf_rest f1 \<noteq> 0" using True k(1) f1 by linarith
      with IH full show ?thesis
        by (intro exI [of _ f'] exI [of _ "b' # left"] exI [of _ "o1 # out'"]) (simp add: step o1 u cut k1 f1 unread_simps(2) [of b] del: length_filter_loop.simps unread_simps)
    next
      case False
      then have 0: "bf_rest f1 = 0" using k f1 by simp
      then have "out' = []" using IH(1) by (cases bs) auto
      moreover have "ob_last_buf o1" using False by (simp add: o1_def)
      ultimately show ?thesis using IH 0 f1
        by (intro exI [of _ f'] exI [of _ "b' # left"] exI [of _ "[o1]"]) (simp add: step o1 u cut k1 unread_simps(2) [of b] del: length_filter_loop.simps unread_simps)
    qed
  qed
qed

text \<open>
  Fact (functional).  The filter for a body with a content length never takes a byte of the next
  request: what it delivers and what it leaves unread are together the bytes it got, the length still to
  come goes down by what it delivered, and bytes stay unread only when the body is complete, in
  which case the last buffer is marked.
\<close>

theorem length_filter_exact:
  assumes "rest = (if bf_rest f = -1 then content_length_n else bf_rest f)" and "0 \<le> rest"
    and "\<forall>b \<in> set bufs. buf_ok b" and "\<forall>n. mem_ok n"
  shows "\<exists>f' bufs' out. ngx_http_request_body_length_filter mem_ok content_length_n f bufs = Inr (f', bufs', out)
    \<and> out_data out @ unread bufs' = unread bufs
    \<and> bf_rest f' = rest - int (length (out_data out)) \<and> 0 \<le> bf_rest f'
    \<and> (bf_rest f' = 0 \<or> unread bufs' = [])
    \<and> (rest \<noteq> 0 \<and> bf_rest f' = 0 \<longrightarrow> ob_last_buf (last out))"
proof -
  let ?f = "if bf_rest f = -1 then f\<lparr>bf_rest := content_length_n\<rparr> else f"
  have r: "bf_rest ?f = rest" using assms(1) by simp
  with length_filter_loop_cuts [of ?f bufs mem_ok "[]" "[]"] assms
  show ?thesis by (auto simp: ngx_http_request_body_length_filter_def)
qed

theorem length_filter_exact_witness:
  "\<exists>f' bufs' out. ngx_http_request_body_length_filter (\<lambda>_. True) 2 fresh_filter
      [\<lparr>ib_mem = chars ''okGET'', ib_pos = 0, ib_last = 5\<rparr>] = Inr (f', bufs', out)
    \<and> out_data out @ unread bufs' = chars ''okGET''"
  using length_filter_exact [of 2 fresh_filter 2 "[\<lparr>ib_mem = chars ''okGET'', ib_pos = 0, ib_last = 5\<rparr>]" "\<lambda>_. True"]
  by (auto simp: fresh_filter_def buf_ok_def chars_def bytes_between_def)

end
