(* ===== verification/Ngx_Parse.thy ===== *)
theory Ngx_Parse
  imports Ngx_Numbers
begin

text \<open>
  Sizes, offsets and times of the configuration, \<^verbatim>\<open>core/ngx_parse.c\<close>.  The computations are on signed
  integers and checked: \<^term>\<open>None\<close> is a signed overflow or a read outside of the string.
\<close>

section \<open>Model\<close>

text \<open>The last byte is read first; of an empty string that is the byte before it.\<close>

definition ngx_parse_size :: "bytes \<Rightarrow> int option" where
  "ngx_parse_size line =
     (if line = [] then None
      else
        let unit = last line;
            (digits, mx, scale) =
              (if unit = ch CHR ''K'' \<or> unit = ch CHR ''k'' then (butlast line, NGX_MAX_SIZE_T_VALUE div 1024, 1024)
               else if unit = ch CHR ''M'' \<or> unit = ch CHR ''m'' then
                 (butlast line, NGX_MAX_SIZE_T_VALUE div (1024 * 1024), 1024 * 1024)
               else (line, NGX_MAX_SIZE_T_VALUE, 1))
        in case ngx_atosz digits of
             None \<Rightarrow> None
           | Some sz \<Rightarrow> if sz = NGX_ERROR \<or> sz > mx then Some NGX_ERROR else assign NGX_MAX_SIZE_T_VALUE (sz * scale))"

definition ngx_parse_offset :: "bytes \<Rightarrow> int option" where
  "ngx_parse_offset line =
     (if line = [] then None
      else
        let unit = last line;
            (digits, mx, scale) =
              (if unit = ch CHR ''K'' \<or> unit = ch CHR ''k'' then (butlast line, NGX_MAX_OFF_T_VALUE div 1024, 1024)
               else if unit = ch CHR ''M'' \<or> unit = ch CHR ''m'' then
                 (butlast line, NGX_MAX_OFF_T_VALUE div (1024 * 1024), 1024 * 1024)
               else if unit = ch CHR ''G'' \<or> unit = ch CHR ''g'' then
                 (butlast line, NGX_MAX_OFF_T_VALUE div (1024 * 1024 * 1024), 1024 * 1024 * 1024)
               else (line, NGX_MAX_OFF_T_VALUE, 1))
        in case ngx_atoof digits of
             None \<Rightarrow> None
           | Some offset \<Rightarrow> if offset = NGX_ERROR \<or> offset > mx then Some NGX_ERROR else assign NGX_MAX_OFF_T_VALUE (offset * scale))"

text \<open>The steps of \<^verbatim>\<open>ngx_parse_time\<close> are compared, so they are numbers.\<close>

definition st_start :: nat where "st_start = 0"
definition st_year :: nat where "st_year = 1"
definition st_month :: nat where "st_month = 2"
definition st_week :: nat where "st_week = 3"
definition st_day :: nat where "st_day = 4"
definition st_hour :: nat where "st_hour = 5"
definition st_min :: nat where "st_min = 6"
definition st_sec :: nat where "st_sec = 7"
definition st_msec :: nat where "st_msec = 8"
definition st_last :: nat where "st_last = 9"

lemmas st_defs = st_start_def st_year_def st_month_def st_week_def st_day_def st_hour_def st_min_def st_sec_def
  st_msec_def st_last_def

text \<open>
  The switch, on the byte \<open>c\<close> and what follows it: the new step, \<^verbatim>\<open>max\<close>, \<^verbatim>\<open>scale\<close> and the rest of the
  text, or an error.
\<close>

definition time_unit :: "bool \<Rightarrow> nat \<Rightarrow> u_char \<Rightarrow> bytes \<Rightarrow> (nat \<times> int \<times> int \<times> bytes) option" where
  "time_unit is_sec step c p =
     (let unit = (\<lambda>st s. Some (st, NGX_MAX_INT_T_VALUE div s, s, p)) in
      if c = ch CHR ''y'' then (if step > st_start then None else unit st_year (60 * 60 * 24 * 365))
      else if c = ch CHR ''M'' then (if step \<ge> st_month then None else unit st_month (60 * 60 * 24 * 30))
      else if c = ch CHR ''w'' then (if step \<ge> st_week then None else unit st_week (60 * 60 * 24 * 7))
      else if c = ch CHR ''d'' then (if step \<ge> st_day then None else unit st_day (60 * 60 * 24))
      else if c = ch CHR ''h'' then (if step \<ge> st_hour then None else unit st_hour (60 * 60))
      else if c = ch CHR ''m'' then
        (if p \<noteq> [] \<and> hd p = ch CHR ''s'' then
           (if is_sec \<or> step \<ge> st_msec then None else Some (st_msec, NGX_MAX_INT_T_VALUE, 1, tl p))
         else if step \<ge> st_min then None else unit st_min 60)
      else if c = ch CHR ''s'' then (if step \<ge> st_sec then None else Some (st_sec, NGX_MAX_INT_T_VALUE, 1, p))
      else if c = ch CHR '' '' then (if step \<ge> st_sec then None else Some (st_last, NGX_MAX_INT_T_VALUE, 1, p))
      else None)"

lemma time_unit_shorter: "time_unit is_sec step c p = Some (st, mx, sc, q) \<Longrightarrow> length q \<le> length p"
  by (auto simp: time_unit_def Let_def split: if_splits)

definition time_end :: "bool \<Rightarrow> bool \<Rightarrow> int \<Rightarrow> int \<Rightarrow> int option" where
  "time_end is_sec valid value tot =
     (if \<not> valid then Some NGX_ERROR
      else if \<not> is_sec \<and> value > NGX_MAX_INT_T_VALUE div 1000 then Some NGX_ERROR
      else case assign NGX_MAX_INT_T_VALUE (if is_sec then value else value * 1000) of
             None \<Rightarrow> None
           | Some value \<Rightarrow> if tot > NGX_MAX_INT_T_VALUE - value then Some NGX_ERROR else assign NGX_MAX_INT_T_VALUE (tot + value))"

definition space :: "u_char \<Rightarrow> bool" where
  "space c \<longleftrightarrow> c = ch CHR '' ''"

function parse_time_loop :: "bool \<Rightarrow> bytes \<Rightarrow> nat \<Rightarrow> bool \<Rightarrow> int \<Rightarrow> int \<Rightarrow> int option" where
  "parse_time_loop is_sec [] step valid value tot = time_end is_sec valid value tot"
| "parse_time_loop is_sec (c # p) step valid value tot =
     (let cutoff = NGX_MAX_INT_T_VALUE div 10; cutlim = NGX_MAX_INT_T_VALUE mod 10 in
      if is_digit c then
        (if value \<ge> cutoff \<and> (value > cutoff \<or> digit c > cutlim) then Some NGX_ERROR
         else case assign NGX_MAX_INT_T_VALUE (value * 10 + digit c) of
                None \<Rightarrow> None
              | Some value \<Rightarrow> parse_time_loop is_sec p step True value tot)
      else
        case time_unit is_sec step c p of
          None \<Rightarrow> Some NGX_ERROR
        | Some (step, mx, scale, p') \<Rightarrow>
            let (scale, mx) = (if step \<noteq> st_msec \<and> \<not> is_sec then (scale * 1000, mx div 1000) else (scale, mx)) in
            if value > mx then Some NGX_ERROR
            else case assign NGX_MAX_INT_T_VALUE (value * scale) of
                   None \<Rightarrow> None
                 | Some value \<Rightarrow>
                     if tot > NGX_MAX_INT_T_VALUE - value then Some NGX_ERROR
                     else case assign NGX_MAX_INT_T_VALUE (tot + value) of
                            None \<Rightarrow> None
                          | Some tot \<Rightarrow> parse_time_loop is_sec (dropWhile space p') step valid 0 tot)"
  by pat_completeness auto
termination
proof (relation "measure (\<lambda>(is_sec, p, step, valid, value, tot). length p)", goal_cases)
  case (3 is_sec c p step valid v tot cutoff cutlim a st b mx d scale p' x y xa xb)
  then have "length p' \<le> length p" using time_unit_shorter by metis
  then show ?case using length_dropWhile_le[of space p'] by simp
qed simp_all

declare parse_time_loop.simps [simp del]

definition ngx_parse_time :: "bytes \<Rightarrow> bool \<Rightarrow> int option" where
  "ngx_parse_time line is_sec = parse_time_loop is_sec line (if is_sec then st_start else st_month) False 0 0"

section \<open>Sizes\<close>

lemma scale_fits:
  assumes "0 < (s :: int)"
  shows "M div s < v \<longleftrightarrow> M < v * s"
proof -
  have M: "M = (M div s) * s + M mod s" "0 \<le> M mod s" "M mod s < s" using assms by simp_all
  show ?thesis
  proof
    assume "M div s < v"
    then have "(M div s + 1) * s \<le> v * s" using assms by (intro mult_right_mono) auto
    moreover have "(M div s + 1) * s = (M div s) * s + s" by (simp add: distrib_right)
    ultimately show "M < v * s" using M by linarith
  next
    assume "M < v * s"
    moreover have "v \<le> M div s \<Longrightarrow> v * s \<le> (M div s) * s" using assms by (intro mult_right_mono) auto
    ultimately show "M div s < v" using M by linarith
  qed
qed

text \<open>The end of both functions.\<close>

lemma scaled_exact:
  assumes "0 < (s :: int)" "0 \<le> M"
  shows "(case (if ds = [] then Some NGX_ERROR else ato_loop M ds 0) of None \<Rightarrow> None
     | Some v \<Rightarrow> if v = NGX_ERROR \<or> v > M div s then Some NGX_ERROR else assign M (v * s))
   = Some (if ds \<noteq> [] \<and> list_all is_digit ds \<and> dec_from 0 ds * s \<le> M then dec_from 0 ds * s else NGX_ERROR)"
proof (cases "ds \<noteq> [] \<and> list_all is_digit ds \<and> dec_from 0 ds \<le> M")
  case True
  then have "0 \<le> dec_from 0 ds" using dec_from_ge[of ds 0] by simp
  then have "0 \<le> dec_from 0 ds * s" "dec_from 0 ds \<noteq> NGX_ERROR" using assms by (auto simp: NGX_ERROR_def)
  then show ?thesis using True assms scale_fits[OF assms(1), of M "dec_from 0 ds"]
    by (auto simp: ato_loop_exact assign_def)
next
  case False
  have "dec_from 0 ds \<le> dec_from 0 ds * s" if "list_all is_digit ds"
    using dec_from_ge[OF that, of 0] assms mult_left_mono[of 1 s "dec_from 0 ds"] by simp
  then have "\<not> (ds \<noteq> [] \<and> list_all is_digit ds \<and> dec_from 0 ds * s \<le> M)" using False by auto
  moreover have "(if ds = [] then Some NGX_ERROR else ato_loop M ds 0) = Some NGX_ERROR"
    using False assms(2) by (auto simp: ato_loop_exact)
  ultimately show ?thesis by auto
qed

text \<open>
  A number with a suffix is accepted exactly when it fits, and no computation overflows; but of an empty
  string the byte before it is read.
\<close>

lemma parse_size_exact:
  assumes "line \<noteq> []"
  shows "ngx_parse_size line =
    (let (ds, s) = (if last line = ch CHR ''K'' \<or> last line = ch CHR ''k'' then (butlast line, 1024)
                    else if last line = ch CHR ''M'' \<or> last line = ch CHR ''m'' then (butlast line, 1024 * 1024) else (line, 1)) in
     Some (if ds \<noteq> [] \<and> list_all is_digit ds \<and> dec_from 0 ds * s \<le> NGX_MAX_SIZE_T_VALUE then dec_from 0 ds * s else NGX_ERROR))"
proof -
  have M: "0 \<le> NGX_MAX_SIZE_T_VALUE" by (simp add: NGX_MAX_SIZE_T_VALUE_def)
  consider (k)  "last line = ch CHR ''K'' \<or> last line = ch CHR ''k''"
    | (m) "\<not> (last line = ch CHR ''K'' \<or> last line = ch CHR ''k'')" "last line = ch CHR ''M'' \<or> last line = ch CHR ''m''"
    | (o) "\<not> (last line = ch CHR ''K'' \<or> last line = ch CHR ''k'')" "\<not> (last line = ch CHR ''M'' \<or> last line = ch CHR ''m'')"
    by blast
  then show ?thesis
  proof cases
    case k
    show ?thesis
      unfolding ngx_parse_size_def ngx_atosz_def Let_def if_not_P[OF assms]  if_P[OF k] prod.case
      by (rule scaled_exact[OF _ M]) simp
  next
    case m
    show ?thesis
      unfolding ngx_parse_size_def ngx_atosz_def Let_def if_not_P[OF assms] if_not_P[OF m(1)] if_P[OF m(2)] prod.case
      by (rule scaled_exact[OF _ M]) simp
  next
    case o
    show ?thesis
      using scaled_exact[OF zero_less_one M, of line, unfolded div_by_1 mult_1_right] assms
      unfolding ngx_parse_size_def ngx_atosz_def Let_def if_not_P[OF assms] if_not_P[OF o(1)] if_not_P[OF o(2)]  prod.case mult_1_right
      by simp
  qed
qed

lemma parse_size_empty: "ngx_parse_size [] = None"
  by (simp add: ngx_parse_size_def)

lemma parse_offset_exact:
  assumes "line \<noteq> []"
  shows "ngx_parse_offset line =
    (let (ds, s) = (if last line = ch CHR ''K'' \<or> last line = ch CHR ''k'' then (butlast line, 1024)
                    else if last line = ch CHR ''M'' \<or> last line = ch CHR ''m'' then (butlast line, 1024 * 1024)
                    else if last line = ch CHR ''G'' \<or> last line = ch CHR ''g'' then (butlast line, 1024 * 1024 * 1024)
                    else (line, 1)) in
     Some (if ds \<noteq> [] \<and> list_all is_digit ds \<and> dec_from 0 ds * s \<le> NGX_MAX_OFF_T_VALUE then dec_from 0 ds * s else NGX_ERROR))"
proof -
  have M: "0 \<le> NGX_MAX_OFF_T_VALUE" by (simp add: NGX_MAX_OFF_T_VALUE_def)
  consider (k)  "last line = ch CHR ''K'' \<or> last line = ch CHR ''k''"
    | (m) "\<not> (last line = ch CHR ''K'' \<or> last line = ch CHR ''k'')" "last line = ch CHR ''M'' \<or> last line = ch CHR ''m''"
    | (g) "\<not> (last line = ch CHR ''K'' \<or> last line = ch CHR ''k'')" "\<not> (last line = ch CHR ''M'' \<or> last line = ch CHR ''m'')" "last line = ch CHR ''G'' \<or> last line = ch CHR ''g''"
    | (o) "\<not> (last line = ch CHR ''K'' \<or> last line = ch CHR ''k'')" "\<not> (last line = ch CHR ''M'' \<or> last line = ch CHR ''m'')" "\<not> (last line = ch CHR ''G'' \<or> last line = ch CHR ''g'')"
    by blast
  then show ?thesis
  proof cases
    case k
    show ?thesis
      unfolding ngx_parse_offset_def ngx_atoof_def Let_def if_not_P[OF assms]  if_P[OF k] prod.case
      by (rule scaled_exact[OF _ M]) simp
  next
    case m
    show ?thesis
      unfolding ngx_parse_offset_def ngx_atoof_def Let_def if_not_P[OF assms] if_not_P[OF m(1)] if_P[OF m(2)] prod.case
      by (rule scaled_exact[OF _ M]) simp
  next
    case g
    show ?thesis
      unfolding ngx_parse_offset_def ngx_atoof_def Let_def if_not_P[OF assms] if_not_P[OF g(1)] if_not_P[OF g(2)] if_P[OF g(3)] prod.case
      by (rule scaled_exact[OF _ M]) simp
  next
    case o
    show ?thesis
      using scaled_exact[OF zero_less_one M, of line, unfolded div_by_1 mult_1_right] assms
      unfolding ngx_parse_offset_def ngx_atoof_def Let_def if_not_P[OF assms] if_not_P[OF o(1)] if_not_P[OF o(2)] if_not_P[OF o(3)]  prod.case mult_1_right
      by simp
  qed
qed

section \<open>Times\<close>

text \<open>The units, the texts and values of times.\<close>

datatype tunit = Year | Month | Week | Day | Hour | Minute | Second | Millisecond | Blank

fun unit_text :: "tunit \<Rightarrow> string" where
  "unit_text Year = ''y''" | "unit_text Month = ''M''" | "unit_text Week = ''w''" | "unit_text Day = ''d''"
| "unit_text Hour = ''h''" | "unit_text Minute = ''m''" | "unit_text Second = ''s''" | "unit_text Millisecond = ''ms''"
| "unit_text Blank = '' ''"

fun unit_step :: "tunit \<Rightarrow> nat" where
  "unit_step Year = 1" | "unit_step Month = 2" | "unit_step Week = 3" | "unit_step Day = 4"
| "unit_step Hour = 5" | "unit_step Minute = 6" | "unit_step Second = 7" | "unit_step Millisecond = 8"
| "unit_step Blank = 9"

fun unit_seconds :: "tunit \<Rightarrow> int" where
  "unit_seconds Year = 31536000" | "unit_seconds Month = 2592000" | "unit_seconds Week = 604800"
| "unit_seconds Day = 86400" | "unit_seconds Hour = 3600" | "unit_seconds Minute = 60" | "unit_seconds Second = 1"
| "unit_seconds Millisecond = 1" | "unit_seconds Blank = 1"

definition unit_scale :: "bool \<Rightarrow> tunit \<Rightarrow> int" where
  "unit_scale is_sec u = (if is_sec \<or> u = Millisecond then unit_seconds u else 1000 * unit_seconds u)"

text \<open>
  A unit comes after the larger ones; years only where seconds are wanted, milliseconds only where they
  are; a blank is a unit of a second that comes before no other unit, and not after seconds.
\<close>

definition unit_after :: "bool \<Rightarrow> nat \<Rightarrow> tunit \<Rightarrow> bool" where
  "unit_after is_sec step u \<longleftrightarrow>
     (case u of Millisecond \<Rightarrow> \<not> is_sec \<and> step < 8 | Blank \<Rightarrow> step < 7 | _ \<Rightarrow> step < unit_step u)"

fun units_ok :: "bool \<Rightarrow> nat \<Rightarrow> (bytes \<times> tunit \<times> nat) list \<Rightarrow> bool" where
  "units_ok is_sec step [] \<longleftrightarrow> True"
| "units_ok is_sec step ((ds, u, k) # ts) \<longleftrightarrow>
     ds \<noteq> [] \<and> list_all is_digit ds \<and> unit_after is_sec step u \<and> units_ok is_sec (unit_step u) ts"

definition time_text :: "(bytes \<times> tunit \<times> nat) list \<Rightarrow> bytes \<Rightarrow> bytes" where
  "time_text ts fin = concat (map (\<lambda>(ds, u, k). ds @ chars (unit_text u) @ replicate k (ch CHR '' '')) ts) @ fin"

definition time_total :: "bool \<Rightarrow> (bytes \<times> tunit \<times> nat) list \<Rightarrow> bytes \<Rightarrow> int" where
  "time_total is_sec ts fin =
     sum_list (map (\<lambda>(ds, u, k). dec_from 0 ds * unit_scale is_sec u) ts) + dec_from 0 fin * (if is_sec then 1 else 1000)"

lemma parse_digits:
  assumes "list_all is_digit ds" "0 \<le> v" "v \<le> NGX_MAX_INT_T_VALUE"
  shows "parse_time_loop is_sec (ds @ p) step valid v tot =
    (if dec_from v ds \<le> NGX_MAX_INT_T_VALUE then parse_time_loop is_sec p step (valid \<or> ds \<noteq> []) (dec_from v ds) tot
     else Some NGX_ERROR)"
  using assms
proof (induction ds arbitrary: v valid)
  case (Cons c ds)
  then have c: "is_digit c" by simp
  note d = digit_range[OF c]
  have big: "NGX_MAX_INT_T_VALUE < v * 10 + digit c \<Longrightarrow> NGX_MAX_INT_T_VALUE < dec_from (v * 10 + digit c) ds"
    using dec_from_ge[of ds "v * 10 + digit c"] Cons.prems d by simp
  show ?case
    using Cons.prems d c big Cons.IH[of "v * 10 + digit c" True]
      cutoff_exact[where d = "digit c" and v = v and limit = NGX_MAX_INT_T_VALUE]
    by (auto simp: Let_def assign_def parse_time_loop.simps(2))
qed simp

lemma unit_not_digit: "\<not> is_digit (hd (chars (unit_text u)))"
  by (cases u) (simp_all add: chars_def is_digit_def)

lemma time_unit_text:
  assumes "unit_after is_sec step u" "u = Minute \<longrightarrow> p = [] \<or> hd p \<noteq> ch CHR ''s''"
  shows "time_unit is_sec step (hd (chars (unit_text u))) (tl (chars (unit_text u)) @ p)
     = Some (unit_step u, NGX_MAX_INT_T_VALUE div unit_seconds u, unit_seconds u, p)"
  using assms by (cases u) (auto simp: time_unit_def unit_after_def chars_def st_defs Let_def)

lemma parse_unit:
  assumes "unit_after is_sec step u" "u = Minute \<longrightarrow> p = [] \<or> hd p \<noteq> ch CHR ''s''" "0 \<le> v" "0 \<le> tot" "tot \<le> NGX_MAX_INT_T_VALUE"
  shows "parse_time_loop is_sec (chars (unit_text u) @ p) step valid v tot =
    (if tot + v * unit_scale is_sec u \<le> NGX_MAX_INT_T_VALUE
     then parse_time_loop is_sec (dropWhile space p) (unit_step u) valid 0 (tot + v * unit_scale is_sec u) else Some NGX_ERROR)"
proof -
  have pos: "0 < unit_scale is_sec u" by (cases u) (simp_all add: unit_scale_def)
  have le: "v > NGX_MAX_INT_T_VALUE div unit_scale is_sec u \<longleftrightarrow> NGX_MAX_INT_T_VALUE < v * unit_scale is_sec u"
    by (rule scale_fits[OF pos])
  have v: "0 \<le> v * unit_scale is_sec u" using assms pos by simp
  define c where "c = hd (chars (unit_text u))"
  define q where "q = tl (chars (unit_text u)) @ p"
  have split: "chars (unit_text u) @ p = c # q" unfolding c_def q_def by (cases u) (simp_all add: chars_def)
  have nd: "\<not> is_digit c" unfolding c_def by (rule unit_not_digit)
  have tu: "time_unit is_sec step c q = Some (unit_step u, NGX_MAX_INT_T_VALUE div unit_seconds u, unit_seconds u, p)"
    unfolding c_def q_def using time_unit_text[OF assms(1,2)] .
  have sc: "(if unit_step u \<noteq> st_msec \<and> \<not> is_sec
      then (unit_seconds u * 1000, NGX_MAX_INT_T_VALUE div unit_seconds u div 1000)
      else (unit_seconds u, NGX_MAX_INT_T_VALUE div unit_seconds u))
    = (unit_scale is_sec u, NGX_MAX_INT_T_VALUE div unit_scale is_sec u)"
    by (cases u) (simp_all add: unit_scale_def st_defs NGX_MAX_INT_T_VALUE_def)
  show ?thesis unfolding split parse_time_loop.simps(2) Let_def
    using le v assms(3-5) by (simp only: nd tu sc if_False option.case prod.case) (auto simp: assign_def)
qed

lemma parse_spaces: "dropWhile space (replicate k (ch CHR '' '') @ p) = dropWhile space p"
  by (induction k) (simp_all add: space_def)

lemma digits_not_space: "ds \<noteq> [] \<Longrightarrow> list_all is_digit ds \<Longrightarrow> dropWhile space (ds @ p) = ds @ p"
  by (cases ds) (auto simp: space_def is_digit_def)

lemma time_text_starts:
  assumes "units_ok is_sec step ts" "list_all is_digit fin" "time_text ts fin \<noteq> []"
  shows "is_digit (hd (time_text ts fin))"
  using assms by (cases ts) (auto simp: time_text_def neq_Nil_conv)

lemma time_text_no_space:
  assumes "units_ok is_sec step ts" "list_all is_digit fin"
  shows "dropWhile space (time_text ts fin) = time_text ts fin"
proof (cases "time_text ts fin")
  case (Cons c p)
  then have "is_digit c" using time_text_starts[OF assms] by simp
  then have "\<not> space c" by (auto simp: space_def is_digit_def)
  then show ?thesis using Cons by simp
qed simp

lemma time_total_ge:
  assumes "units_ok is_sec step ts" "list_all is_digit fin"
  shows "0 \<le> time_total is_sec ts fin"
  using assms
proof (induction ts arbitrary: step)
  case Nil
  then show ?case using dec_from_ge[of fin 0] by (simp add: time_total_def)
next
  case (Cons t ts)
  obtain ds u k where t: "t = (ds, u, k)" by (cases t) auto
  have "0 \<le> unit_scale is_sec u" by (cases u) (simp_all add: unit_scale_def)
  then have "0 \<le> dec_from 0 ds * unit_scale is_sec u" using Cons.prems dec_from_ge[of ds 0] by (simp add: t)
  moreover have "0 \<le> time_total is_sec ts fin" using Cons.prems by (intro Cons.IH) (auto simp: t)
  ultimately show ?case by (simp add: t time_total_def)
qed

lemma parse_time_text:
  assumes "units_ok is_sec step ts" "list_all is_digit fin" "0 \<le> tot" "tot \<le> NGX_MAX_INT_T_VALUE" "valid \<or> ts \<noteq> [] \<or> fin \<noteq> []"
  shows "parse_time_loop is_sec (time_text ts fin) step valid 0 tot
    = Some (if tot + time_total is_sec ts fin \<le> NGX_MAX_INT_T_VALUE then tot + time_total is_sec ts fin else NGX_ERROR)"
  using assms
proof (induction ts arbitrary: step valid tot)
  case Nil
  define v where "v = dec_from 0 fin"
  have v: "0 \<le> v" using dec_from_ge[of fin 0] Nil.prems by (simp add: v_def)
  have M: "NGX_MAX_INT_T_VALUE = 9223372036854775807" by (simp add: NGX_MAX_INT_T_VALUE_def)
  have "parse_time_loop is_sec (fin @ []) step valid 0 tot
    = (if v \<le> NGX_MAX_INT_T_VALUE then time_end is_sec (valid \<or> fin \<noteq> []) v tot else Some NGX_ERROR)"
    unfolding v_def using Nil.prems by (subst parse_digits) (simp_all add: M parse_time_loop.simps(1))
  moreover have "valid \<or> fin \<noteq> []" using Nil.prems by simp
  moreover have "v > NGX_MAX_INT_T_VALUE div 1000 \<longleftrightarrow> NGX_MAX_INT_T_VALUE < v * 1000" by (rule scale_fits) simp
  ultimately show ?case using Nil.prems v
    by (auto simp: time_text_def time_total_def v_def[symmetric] time_end_def assign_def)
next
  case (Cons t ts)
  obtain ds u k where t: "t = (ds, u, k)" by (cases t) auto
  define v where "v = dec_from 0 ds"
  define w where "w = v * unit_scale is_sec u"
  have ds: "ds \<noteq> []" "list_all is_digit ds" "unit_after is_sec step u" "units_ok is_sec (unit_step u) ts"
    using Cons.prems by (auto simp: t)
  have v: "0 \<le> v" using dec_from_ge[of ds 0] ds by (simp add: v_def)
  have "1 \<le> unit_scale is_sec u" by (cases u) (simp_all add: unit_scale_def)
  then have w: "v \<le> w" using v mult_left_mono[of 1 "unit_scale is_sec u" v] by (simp add: w_def)
  have M: "0 \<le> NGX_MAX_INT_T_VALUE" by (simp add: NGX_MAX_INT_T_VALUE_def)
  have ge: "0 \<le> time_total is_sec ts fin" by (rule time_total_ge[OF ds(4) Cons.prems(2)])
  have tot: "time_total is_sec (t # ts) fin = w + time_total is_sec ts fin" by (simp add: t time_total_def w_def v_def)
  define p where "p = replicate k (ch CHR '' '') @ time_text ts fin"
  have txeq: "time_text (t # ts) fin = ds @ chars (unit_text u) @ p" by (simp add: t time_text_def p_def)
  have "p = [] \<or> hd p \<noteq> ch CHR ''s''"
  proof (cases "k = 0")
    case True
    then show ?thesis using time_text_starts[OF ds(4) Cons.prems(2)] by (auto simp: p_def is_digit_def)
  next
    case False
    then show ?thesis by (cases k) (simp_all add: p_def)
  qed
  moreover have "dropWhile space p = time_text ts fin"
    using parse_spaces[of k "time_text ts fin"] time_text_no_space[OF ds(4) Cons.prems(2)] by (simp only: p_def)
  ultimately have un: "parse_time_loop is_sec (chars (unit_text u) @ p) step True v tot =
    (if tot + w \<le> NGX_MAX_INT_T_VALUE
     then parse_time_loop is_sec (time_text ts fin) (unit_step u) True 0 (tot + w) else Some NGX_ERROR)"
    using parse_unit[OF ds(3), of p v tot True] v Cons.prems(3,4)
    by (simp add: w_def)
  show ?case
  proof (cases "tot + w \<le> NGX_MAX_INT_T_VALUE")
    case True
    then have "parse_time_loop is_sec (time_text (t # ts) fin) step valid 0 tot
      = parse_time_loop is_sec (time_text ts fin) (unit_step u) True 0 (tot + w)"
      unfolding txeq using un ds M w v Cons.prems(3) by (simp add: parse_digits v_def[symmetric])
    then show ?thesis using Cons.IH[OF ds(4) Cons.prems(2), of "tot + w" True] True w v Cons.prems(3)
      by (simp add: tot add.assoc)
  next
    case False
    then have "parse_time_loop is_sec (time_text (t # ts) fin) step valid 0 tot = Some NGX_ERROR"
      unfolding txeq using un ds M by (simp add: parse_digits v_def[symmetric])
    then show ?thesis using False ge by (simp add: tot)
  qed
qed



end
