(* ===== verification/Ngx_Times.thy ===== *)
theory Ngx_Times
  imports Ngx_Numbers
begin

text \<open>
  Calendar times: \<^verbatim>\<open>ngx_gmtime\<close>, \<^verbatim>\<open>ngx_http_time\<close> and \<^verbatim>\<open>ngx_http_cookie_time\<close> of
  \<^verbatim>\<open>core/ngx_times.c\<close>, and \<^verbatim>\<open>ngx_parse_http_time\<close> of \<^verbatim>\<open>core/ngx_parse_time.c\<close>, on 64-bit words.
\<close>

section \<open>The calendar of a time\<close>

record ngx_tm =
  tm_sec :: int
  tm_min :: int
  tm_hour :: int
  tm_mday :: int
  tm_mon :: int
  tm_year :: int
  tm_wday :: int

text \<open>
  \<open>n\<close>, \<open>days\<close> and what is computed from them are unsigned in the code.  None of these values comes near
  \<open>2 ^ 64\<close> or below zero, except for the day of the year, which is signed in the code too, so they are
  integers here.  (Where the code takes 59 from the days first, the sum with 719527 is not negative.)
\<close>

definition days_before_year :: "int \<Rightarrow> int" where
  "days_before_year year = 365 * year + year div 4 - year div 100 + year div 400"

definition leap_year :: "int \<Rightarrow> bool" where
  "leap_year year \<longleftrightarrow> year mod 4 = 0 \<and> (year mod 100 \<noteq> 0 \<or> year mod 400 = 0)"

text \<open>The year, which begins in March here, and the day in it.\<close>

definition gm_year :: "int \<Rightarrow> int \<times> int" where
  "gm_year days =
     (let year = (days + 2) * 400 div (365 * 400 + 100 - 4 + 1);
          yday = days - days_before_year year in
      if yday < 0 then (year - 1, 365 + (if leap_year year then 1 else 0) + yday) else (year, yday))"

definition gm_date :: "int \<Rightarrow> int \<times> int \<times> int" where
  "gm_date days =
     (let (year, yday) = gm_year (days - (31 + 28) + 719527);
          mon = (yday + 31) * 10 div 306;
          mday = yday - (367 * mon div 12 - 30) + 1 in
      if yday \<ge> 306 then (year + 1, mon - 10, mday) else (year, mon + 2, mday))"

definition ngx_gmtime :: "int \<Rightarrow> ngx_tm" where
  "ngx_gmtime t =
     (let n = uint (word_of_int t :: ngx_uint); days = n div 86400; s = n mod 86400;
          (year, mon, mday) = gm_date days in
      \<lparr> tm_sec = s mod 3600 mod 60, tm_min = s mod 3600 div 60, tm_hour = s div 3600,
        tm_mday = mday, tm_mon = mon, tm_year = year, tm_wday = (4 + days) mod 7 \<rparr>)"

section \<open>Printing\<close>

definition week :: "bytes list" where
  "week = map chars [''Sun'', ''Mon'', ''Tue'', ''Wed'', ''Thu'', ''Fri'', ''Sat'']"

definition months :: "bytes list" where
  "months = map chars [''Jan'', ''Feb'', ''Mar'', ''Apr'', ''May'', ''Jun'', ''Jul'', ''Aug'', ''Sep'', ''Oct'', ''Nov'', ''Dec'']"

text \<open>
  The format \<^verbatim>\<open>%d\<close> with a width; \<^verbatim>\<open>ngx_sprintf\<close> has no limit on the room, for which 64 bytes stand.
\<close>

definition fmt_d :: "u_char \<Rightarrow> nat \<Rightarrow> int \<Rightarrow> bytes" where
  "fmt_d zero width i =
     (if i < 0 then ch CHR ''-'' # ngx_sprintf_num 64 (word_of_int (- i)) zero 0 width
      else ngx_sprintf_num 64 (word_of_int i) zero 0 width)"

definition d02 :: "int \<Rightarrow> bytes" where
  "d02 = fmt_d (ch CHR ''0'') 2"

definition ngx_http_time :: "int \<Rightarrow> bytes" where
  "ngx_http_time t =
     (let tm = ngx_gmtime t in
      week ! nat (tm_wday tm) @ chars '', '' @ d02 (tm_mday tm) @ chars '' '' @ months ! nat (tm_mon tm - 1) @ chars '' ''
      @ fmt_d (ch CHR '' '') 4 (tm_year tm) @ chars '' '' @ d02 (tm_hour tm) @ chars '':'' @ d02 (tm_min tm) @ chars '':''
      @ d02 (tm_sec tm) @ chars '' GMT'')"

definition ngx_http_cookie_time :: "int \<Rightarrow> bytes" where
  "ngx_http_cookie_time t =
     (let tm = ngx_gmtime t in
      week ! nat (tm_wday tm) @ chars '', '' @ d02 (tm_mday tm) @ chars ''-'' @ months ! nat (tm_mon tm - 1) @ chars ''-''
      @ (if tm_year tm > 2037 then fmt_d (ch CHR '' '') 0 (tm_year tm) else d02 (tm_year tm mod 100))
      @ chars '' '' @ d02 (tm_hour tm) @ chars '':'' @ d02 (tm_min tm) @ chars '':'' @ d02 (tm_sec tm) @ chars '' GMT'')"

section \<open>Parsing\<close>

text \<open>
  A read is past the end of the text, refused with \<^verbatim>\<open>NGX_ERROR\<close>, or gives a value.
\<close>

datatype 'a read = Past_end | Refused | Got 'a

fun and_then :: "'a read \<Rightarrow> ('a \<Rightarrow> 'b read) \<Rightarrow> 'b read" where
  "and_then Past_end f = Past_end"
| "and_then Refused f = Refused"
| "and_then (Got x) f = f x"

fun rd_char :: "u_char \<Rightarrow> bytes \<Rightarrow> bytes read" where
  "rd_char c [] = Past_end"
| "rd_char c (a # p) = (if a = c then Got p else Refused)"

definition digit_word :: "u_char \<Rightarrow> ngx_uint" where
  "digit_word c = word_of_int (digit c)"

fun rd_digits :: "nat \<Rightarrow> ngx_uint \<Rightarrow> bytes \<Rightarrow> (ngx_uint \<times> bytes) read" where
  "rd_digits 0 v p = Got (v, p)"
| "rd_digits (Suc n) v [] = Past_end"
| "rd_digits (Suc n) v (c # p) = (if is_digit c then rd_digits n (v * 10 + digit_word c) p else Refused)"

datatype time_fmt = rfc822 | rfc850 | isoc

text \<open>The first loop: whether a space came before a comma, and the text from there on.\<close>

fun weekday_end :: "bytes \<Rightarrow> bool \<times> bytes" where
  "weekday_end [] = (False, [])"
| "weekday_end (c # p) =
     (if c = ch CHR '','' then (False, c # p) else if c = ch CHR '' '' then (True, c # p) else weekday_end p)"

definition rd_month :: "bytes \<Rightarrow> (int \<times> bytes) read" where
  "rd_month p =
     (case p of
        a # b # c # p \<Rightarrow>
          let m = (\<lambda>m. Got (m, p)) in
          if a = ch CHR ''J'' then m (if b = ch CHR ''a'' then 0 else if c = ch CHR ''n'' then 5 else 6)
          else if a = ch CHR ''F'' then m 1
          else if a = ch CHR ''M'' then m (if c = ch CHR ''r'' then 2 else 4)
          else if a = ch CHR ''A'' then m (if b = ch CHR ''p'' then 3 else 7)
          else if a = ch CHR ''S'' then m 8
          else if a = ch CHR ''O'' then m 9
          else if a = ch CHR ''N'' then m 10
          else if a = ch CHR ''D'' then m 11
          else Refused
      | _ \<Rightarrow> Past_end)"

text \<open>The day and the format, where a comma came first.\<close>

definition rd_day :: "bytes \<Rightarrow> (time_fmt \<times> ngx_uint \<times> bytes) read" where
  "rd_day p =
     and_then (rd_digits 2 0 p) (\<lambda>(day, p).
       case p of
         [] \<Rightarrow> Past_end
       | c # q \<Rightarrow>
           if c = ch CHR '' '' then (if length p < 18 then Refused else Got (rfc822, day, q))
           else if c = ch CHR ''-'' then Got (rfc850, day, q)
           else Refused)"

text \<open>The byte after the month, and the year where it comes next.\<close>

definition rd_separator :: "time_fmt \<Rightarrow> bytes \<Rightarrow> bytes read" where
  "rd_separator fmt p =
     (case fmt of
        rfc822 \<Rightarrow> rd_char (ch CHR '' '') p
      | rfc850 \<Rightarrow> rd_char (ch CHR ''-'') p
      | isoc \<Rightarrow> if p = [] then Past_end else Got (tl p))"

definition rd_year :: "time_fmt \<Rightarrow> bytes \<Rightarrow> (ngx_uint \<times> bytes) read" where
  "rd_year fmt p =
     (case fmt of
        rfc822 \<Rightarrow> rd_digits 4 0 p
      | rfc850 \<Rightarrow> and_then (rd_digits 2 0 p) (\<lambda>(y, p). Got (y + (if y < 70 then 2000 else 1900), p))
      | isoc \<Rightarrow> Got (2038, p))"

definition rd_isoc_day :: "bytes \<Rightarrow> (ngx_uint \<times> bytes) read" where
  "rd_isoc_day p =
     and_then (case p of [] \<Rightarrow> Past_end | c # q \<Rightarrow> Got (if c = ch CHR '' '' then q else p)) (\<lambda>p.
     and_then (rd_digits 1 0 p) (\<lambda>(day, p).
     and_then (case p of [] \<Rightarrow> Past_end | c # q \<Rightarrow> if c = ch CHR '' '' then Got (day, p) else rd_digits 1 day p) (\<lambda>(day, p).
     if length p < 14 then Refused else Got (day, p))))"

definition rd_clock :: "bytes \<Rightarrow> (ngx_uint \<times> ngx_uint \<times> ngx_uint \<times> bytes) read" where
  "rd_clock p =
     and_then (rd_char (ch CHR '' '') p) (\<lambda>p.
     and_then (rd_digits 2 0 p) (\<lambda>(hour, p).
     and_then (rd_char (ch CHR '':'') p) (\<lambda>p.
     and_then (rd_digits 2 0 p) (\<lambda>(mn, p).
     and_then (rd_char (ch CHR '':'') p) (\<lambda>p.
     and_then (rd_digits 2 0 p) (\<lambda>(sec, p). Got (hour, mn, sec, p)))))))"

definition mday :: "ngx_uint list" where
  "mday = [31, 28, 31, 30, 31, 30, 31, 31, 30, 31, 30, 31]"

definition date_valid :: "ngx_uint \<Rightarrow> int \<Rightarrow> ngx_uint \<Rightarrow> bool" where
  "date_valid day month year =
     (if day = 29 \<and> month = 1 then \<not> (year AND 3 \<noteq> 0 \<or> year mod 100 = 0 \<and> year mod 400 \<noteq> 0)
      else \<not> day > mday ! nat month)"

text \<open>Gauss' formula; \<open>month\<close> counts from zero.\<close>

definition gauss_time :: "ngx_uint \<Rightarrow> int \<Rightarrow> ngx_uint \<Rightarrow> ngx_uint \<Rightarrow> ngx_uint \<Rightarrow> ngx_uint \<Rightarrow> uint64" where
  "gauss_time day month year hour mn sec =
     (let month = month - 1; (month, year) = (if month \<le> 0 then (month + 12, year - 1) else (month, year)) in
      (365 * year + year div 4 - year div 100 + year div 400 + word_of_int (367 * month div 12 - 30) + day - 1 - 719527 + 31 + 28)
        * 86400 + hour * 3600 + mn * 60 + sec)"

definition ngx_parse_http_time :: "bytes \<Rightarrow> int read" where
  "ngx_parse_http_time value =
     (let (iso, p) = weekday_end value; p = dropWhile (\<lambda>c. c = ch CHR '' '') (drop 1 p) in
      if length p < 18 then Refused
      else
        and_then (if iso then Got (isoc, 32, p) else rd_day p) (\<lambda>(fmt, day, p).
        and_then (rd_month p) (\<lambda>(month, p).
        and_then (rd_separator fmt p) (\<lambda>p.
        and_then (rd_year fmt p) (\<lambda>(year, p).
        and_then (if fmt = isoc then rd_isoc_day p else Got (day, p)) (\<lambda>(day, p).
        and_then (rd_clock p) (\<lambda>(hour, mn, sec, p).
        and_then (if fmt = isoc then and_then (rd_char (ch CHR '' '') p) (rd_digits 4 0) else Got (year, p)) (\<lambda>(year, p).
        if hour > 23 \<or> mn > 59 \<or> sec > 59 then Refused
        else if \<not> date_valid day month year then Refused
        else Got (sint (gauss_time day month year hour mn sec))))))))))"

section \<open>The calendar\<close>

text \<open>The reference: the calendar, one day after the other.\<close>

definition days_in_month :: "int \<Rightarrow> int \<Rightarrow> int" where
  "days_in_month y m =
     (if m = 2 then (if leap_year y then 29 else 28) else if m \<in> {4, 6, 9, 11} then 30 else 31)"

fun next_day :: "int \<times> int \<times> int \<Rightarrow> int \<times> int \<times> int" where
  "next_day (y, m, d) =
     (if d < days_in_month y m then (y, m, d + 1) else if m < 12 then (y, m + 1, 1) else (y + 1, 1, 1))"

abbreviation leap_days :: "int \<Rightarrow> int" where
  "leap_days y \<equiv> (if leap_year y then 1 else 0)"

lemma div_bounds: "0 < n \<Longrightarrow> n * (x div n) \<le> x" "0 < n \<Longrightarrow> x < n * (x div n) + (n :: int)"
  using pos_mod_sign[of n x] pos_mod_bound[of n x] by (simp_all add: minus_mult_div_eq_mod[symmetric])

lemma div_step:
  assumes "0 < (n :: int)"
  shows "(y + 1) div n = y div n + (if (y + 1) mod n = 0 then 1 else 0)"
proof (cases "y mod n + 1 = n")
  case True
  have "y + 1 = n * (y div n) + (y mod n + 1)" by simp
  then have e: "y + 1 = n * (y div n + 1) + 0" unfolding True by (simp add: distrib_left)
  have "(y + 1) div n = y div n + 1" "(y + 1) mod n = 0"
    using int_div_pos_eq[OF e] int_mod_pos_eq[OF e] assms by simp_all
  then show ?thesis by simp
next
  case False
  have r: "0 \<le> y mod n" "y mod n < n" using assms by simp_all
  have e: "y + 1 = n * (y div n) + (y mod n + 1)" by simp
  have "(y + 1) div n = y div n" "(y + 1) mod n = y mod n + 1"
    using int_div_pos_eq[OF e] int_mod_pos_eq[OF e] r False by simp_all
  then show ?thesis using r by simp
qed

lemma days_before_year_step: "days_before_year (y + 1) = days_before_year y + 365 + leap_days (y + 1)"
proof -
  have dv: "(y + 1) mod 400 = 0 \<Longrightarrow> (y + 1) mod 100 = 0" "(y + 1) mod 100 = 0 \<Longrightarrow> (y + 1) mod 4 = 0"
    using dvd_trans[of 100 400 "y + 1"] dvd_trans[of 4 100 "y + 1"] by (simp_all add: dvd_eq_mod_eq_0)
  note e = div_step[of 4 y] div_step[of 100 y] div_step[of 400 y]
  consider "(y + 1) mod 400 = 0" | "(y + 1) mod 400 \<noteq> 0" "(y + 1) mod 100 = 0"
    | "(y + 1) mod 100 \<noteq> 0" "(y + 1) mod 400 \<noteq> 0" "(y + 1) mod 4 = 0"
    | "(y + 1) mod 100 \<noteq> 0" "(y + 1) mod 400 \<noteq> 0" "(y + 1) mod 4 \<noteq> 0"
    using dv by blast
  then show ?thesis
    by cases (simp_all only: days_before_year_def leap_year_def e dv if_True if_False simp_thms zero_less_numeral, simp_all add: algebra_simps)
qed

lemma days_before_year_mono: "y < z \<Longrightarrow> days_before_year y + 365 \<le> days_before_year z"
proof (induction "nat (z - y)" arbitrary: z)
  case (Suc n)
  show ?case
  proof (cases "y + 1 = z")
    case True
    then show ?thesis using days_before_year_step[of y] by auto
  next
    case False
    then have "days_before_year y + 365 \<le> days_before_year (z - 1)" using Suc by (intro Suc.hyps(1)) auto
    then show ?thesis using days_before_year_step[of "z - 1"] by (auto split: if_splits)
  qed
qed simp

lemma year_parts:
  fixes z :: int
  obtains a c e f where "z = 400 * a + 100 * c + 4 * e + f" "0 \<le> c" "c \<le> 3" "0 \<le> e" "e \<le> 24" "0 \<le> f" "f \<le> 3"
    "days_before_year z = 365 * z + 97 * a + 24 * c + e"
proof -
  define a r where "a = z div 400" and "r = z mod 400"
  define c s where "c = r div 100" and "s = r mod 100"
  define e f where "e = s div 4" and "f = s mod 4"
  have r: "z = 400 * a + r" "r = 100 * c + s" "s = 4 * e + f" "0 \<le> r" "r < 400" "0 \<le> s" "s < 100" "0 \<le> f" "f \<le> 3"
    unfolding a_def r_def c_def s_def e_def f_def by simp_all
  have b: "0 \<le> c" "c \<le> 3" "0 \<le> e" "e \<le> 24" using r by simp_all
  have e4: "z = 4 * (100 * a + 25 * c + e) + f" and e100: "z = 100 * (4 * a + c) + s" using r by simp_all
  have "z div 4 = 100 * a + 25 * c + e" "z div 100 = 4 * a + c"
    using r b int_div_pos_eq[OF e4] int_div_pos_eq[OF e100] by simp_all
  then have "days_before_year z = 365 * z + 97 * a + 24 * c + e"
    unfolding days_before_year_def by (simp add: a_def)
  then show ?thesis using that[of a c e f] r b by simp
qed

lemma year_estimate:
  fixes days :: int
  defines "z \<equiv> (days + 2) * 400 div 146097"
  shows "- 2 \<le> days - days_before_year z" "days - days_before_year z \<le> 364"
proof -
  have "146097 * z \<le> (days + 2) * 400" "(days + 2) * 400 < 146097 * z + 146097"
    unfolding z_def by (rule div_bounds; simp)+
  then have z: "146097 * z \<le> days * 400 + 800" "days * 400 + 800 < 146097 * z + 146097" by simp_all
  obtain a c e f where d: "z = 400 * a + 100 * c + 4 * e + f" "0 \<le> c" "c \<le> 3" "0 \<le> e" "e \<le> 24" "0 \<le> f" "f \<le> 3"
    "days_before_year z = 365 * z + 97 * a + 24 * c + e" by (rule year_parts)
  show "- 2 \<le> days - days_before_year z" using z d by linarith
  show "days - days_before_year z \<le> 364" using z d by linarith
qed

lemma gm_year_bounds:
  assumes "gm_year days = (y, k)"
  shows "days = days_before_year y + k \<and> 0 \<le> k \<and> k < 365 + leap_days (y + 1)"
proof -
  define z where "z = (days + 2) * 400 div 146097"
  note lo = year_estimate(1)[of days, folded z_def] and hi = year_estimate(2)[of days, folded z_def]
  have gy: "gm_year days = (if days - days_before_year z < 0 then (z - 1, 365 + leap_days z + (days - days_before_year z))
      else (z, days - days_before_year z))"
    by (simp add: gm_year_def z_def Let_def)
  have L: "0 \<le> leap_days x" for x by simp
  show ?thesis
  proof (cases "days - days_before_year z < 0")
    case True
    have y: "y = z - 1" and k: "k = 365 + leap_days z + (days - days_before_year z)"
      using assms[unfolded gy if_P[OF True]] by (blast, blast)
    have st: "days_before_year z = days_before_year y + 365 + leap_days z" and y1: "y + 1 = z"
      using days_before_year_step[of "z - 1"] unfolding y by simp_all
    show ?thesis unfolding y1 using True lo k st L[of z] by (intro conjI) linarith+
  next
    case False
    have y: "y = z" and k: "k = days - days_before_year z"
      using assms[unfolded gy if_not_P[OF False]] by (blast, blast)
    show ?thesis using False hi L[of "z + 1"] unfolding y k by (intro conjI) linarith+
  qed
qed

lemma gm_year_unique:
  assumes "days = days_before_year y + k" "0 \<le> k" "k < 365 + leap_days (y + 1)"
  shows "gm_year days = (y, k)"
proof -
  obtain z j where zj: "gm_year days = (z, j)" by fastforce
  note b = gm_year_bounds[OF zj]
  have "y = z"
  proof (rule ccontr)
    assume "y \<noteq> z"
    then consider "y + 1 \<le> z" | "z + 1 \<le> y" by linarith
    then show False
    proof cases
      case 1
      then have "days_before_year (y + 1) \<le> days_before_year z"
        using days_before_year_mono[of "y + 1" z] by (cases "y + 1 = z") auto
      then show False using days_before_year_step[of y] assms b by linarith
    next
      case 2
      then have "days_before_year (z + 1) \<le> days_before_year y"
        using days_before_year_mono[of "z + 1" y] by (cases "z + 1 = y") auto
      then show False using days_before_year_step[of z] assms b by linarith
    qed
  qed
  then show ?thesis using zj b assms by simp
qed

lemma gm_year_next:
  assumes "gm_year days = (y, k)"
  shows "gm_year (days + 1) = (if k + 1 < 365 + leap_days (y + 1) then (y, k + 1) else (y + 1, 0))"
proof (cases "k + 1 < 365 + leap_days (y + 1)")
  case True
  then have "gm_year (days + 1) = (y, k + 1)"
    using gm_year_bounds[OF assms] by (intro gm_year_unique) (auto split: if_splits)
  then show ?thesis using True by simp
next
  case False
  then have "gm_year (days + 1) = (y + 1, 0)"
    using gm_year_bounds[OF assms] days_before_year_step[of y] by (intro gm_year_unique) (auto split: if_splits)
  then show ?thesis using False by simp
qed

text \<open>The months: what the two formulas give for the days of a year that begins in March.\<close>

definition gm_month :: "int \<Rightarrow> int \<times> int" where
  "gm_month k = (let mon = (k + 31) * 10 div 306 in
     (if k \<ge> 306 then mon - 10 else mon + 2, k - (367 * mon div 12 - 30) + 1))"

lemma gm_date_eq:
  "gm_date d = (let (y, k) = gm_year (d + 719468); (m, md) = gm_month k in (if k \<ge> 306 then y + 1 else y, m, md))"
proof -
  have "d - (31 + 28) + 719527 = d + 719468" by simp
  then show ?thesis unfolding gm_date_def gm_month_def Let_def by (simp only:) (auto split: prod.split)
qed

definition month_ok :: "int \<Rightarrow> bool" where
  "month_ok k \<longleftrightarrow> (let (m, d) = gm_month k in
     1 \<le> m \<and> m \<le> 12 \<and> 1 \<le> d
     \<and> (if m = 2 then d \<le> 29 \<and> k = 336 + d \<and> gm_month (k + 1) = (2, d + 1)
        else d \<le> days_in_month 1 m \<and> gm_month (k + 1) = (if d < days_in_month 1 m then (m, d + 1) else if m < 12 then (m + 1, 1) else (1, 1)))
     \<and> (306 \<le> k \<longleftrightarrow> m \<le> 2))"

lemma gm_month_table:
  assumes "0 \<le> k" "k < 367"
  shows "gm_month k =
    (if k < 31 then (3, k + 1) else if k < 61 then (4, k - 30) else if k < 92 then (5, k - 60) else if k < 122 then (6, k - 91)
     else if k < 153 then (7, k - 121) else if k < 184 then (8, k - 152) else if k < 214 then (9, k - 183)
     else if k < 245 then (10, k - 213) else if k < 275 then (11, k - 244) else if k < 306 then (12, k - 274)
     else if k < 337 then (1, k - 305) else (2, k - 336))"
proof -
  define m where "m = (k + 31) * 10 div 306"
  have "306 * m \<le> (k + 31) * 10" "(k + 31) * 10 < 306 * m + 306"
    unfolding m_def by (rule div_bounds; simp)+
  then have b: "306 * m \<le> 10 * k + 310" "10 * k + 310 < 306 * m + 306"
    by (simp_all add: algebra_simps)
  have gm: "gm_month k = (if k \<ge> 306 then m - 10 else m + 2, k - (367 * m div 12 - 30) + 1)"
    by (simp add: gm_month_def m_def Let_def)
  have c1: ?thesis if "m = 1"
  proof -
    have "0 \<le> k" "k < 31" using b assms that by linarith+
    then show ?thesis by (simp add: gm that)
  qed
  have c2: ?thesis if "m = 2"
  proof -
    have "31 \<le> k" "k < 61" using b assms that by linarith+
    then show ?thesis by (simp add: gm that)
  qed
  have c3: ?thesis if "m = 3"
  proof -
    have "61 \<le> k" "k < 92" using b assms that by linarith+
    then show ?thesis by (simp add: gm that)
  qed
  have c4: ?thesis if "m = 4"
  proof -
    have "92 \<le> k" "k < 122" using b assms that by linarith+
    then show ?thesis by (simp add: gm that)
  qed
  have c5: ?thesis if "m = 5"
  proof -
    have "122 \<le> k" "k < 153" using b assms that by linarith+
    then show ?thesis by (simp add: gm that)
  qed
  have c6: ?thesis if "m = 6"
  proof -
    have "153 \<le> k" "k < 184" using b assms that by linarith+
    then show ?thesis by (simp add: gm that)
  qed
  have c7: ?thesis if "m = 7"
  proof -
    have "184 \<le> k" "k < 214" using b assms that by linarith+
    then show ?thesis by (simp add: gm that)
  qed
  have c8: ?thesis if "m = 8"
  proof -
    have "214 \<le> k" "k < 245" using b assms that by linarith+
    then show ?thesis by (simp add: gm that)
  qed
  have c9: ?thesis if "m = 9"
  proof -
    have "245 \<le> k" "k < 275" using b assms that by linarith+
    then show ?thesis by (simp add: gm that)
  qed
  have c10: ?thesis if "m = 10"
  proof -
    have "275 \<le> k" "k < 306" using b assms that by linarith+
    then show ?thesis by (simp add: gm that)
  qed
  have c11: ?thesis if "m = 11"
  proof -
    have "306 \<le> k" "k < 337" using b assms that by linarith+
    then show ?thesis by (simp add: gm that)
  qed
  have c12: ?thesis if "m = 12"
  proof -
    have "337 \<le> k" "k < 367" using b assms that by linarith+
    then show ?thesis by (simp add: gm that)
  qed
  have m: "1 \<le> m" "m \<le> 12" using b assms by linarith+
  have "m = 1 \<or> m = 2 \<or> m = 3 \<or> m = 4 \<or> m = 5 \<or> m = 6 \<or> m = 7 \<or> m = 8 \<or> m = 9 \<or> m = 10 \<or> m = 11 \<or> m = 12" using m by presburger
  then show ?thesis using c1 c2 c3 c4 c5 c6 c7 c8 c9 c10 c11 c12 by (elim disjE) blast+
qed

lemma months_ok:
  assumes "0 \<le> k" "k < 366"
  shows "month_ok k"
proof -
  have "k < 30 \<or> k = 30 \<or> 30 < k \<and> k < 60 \<or> k = 60 \<or> 60 < k \<and> k < 91 \<or> k = 91
    \<or> 91 < k \<and> k < 121 \<or> k = 121 \<or> 121 < k \<and> k < 152 \<or> k = 152 \<or> 152 < k \<and> k < 183 \<or> k = 183
    \<or> 183 < k \<and> k < 213 \<or> k = 213 \<or> 213 < k \<and> k < 244 \<or> k = 244 \<or> 244 < k \<and> k < 274 \<or> k = 274
    \<or> 274 < k \<and> k < 305 \<or> k = 305 \<or> 305 < k \<and> k < 336 \<or> k = 336 \<or> 336 < k"
    by presburger
  then show ?thesis using assms by (elim disjE) (simp_all add: month_ok_def gm_month_table days_in_month_def)
qed

lemma month_okD:
  assumes "month_ok k" "gm_month k = (m, d)"
  shows "1 \<le> m" "m \<le> 12" "1 \<le> d" "306 \<le> k \<longleftrightarrow> m \<le> 2" "m = 2 \<Longrightarrow> d \<le> 29 \<and> k = 336 + d"
    "m \<noteq> 2 \<Longrightarrow> d \<le> days_in_month 1 m" "m = 2 \<Longrightarrow> gm_month (k + 1) = (2, d + 1)"
    "m \<noteq> 2 \<Longrightarrow> gm_month (k + 1) = (if d < days_in_month 1 m then (m, d + 1) else if m < 12 then (m + 1, 1) else (1, 1))"
proof -
  note c = assms(1)[unfolded month_ok_def Let_def assms(2) prod.case]
  show "1 \<le> m" "m \<le> 12" "1 \<le> d" "306 \<le> k \<longleftrightarrow> m \<le> 2" using c by blast+
  show "d \<le> 29 \<and> k = 336 + d" "gm_month (k + 1) = (2, d + 1)" if h: "m = 2" using c unfolding if_P[OF h] by blast+
  show "d \<le> days_in_month 1 m"
    "gm_month (k + 1) = (if d < days_in_month 1 m then (m, d + 1) else if m < 12 then (m + 1, 1) else (1, 1))" if h: "m \<noteq> 2"
    using c unfolding if_not_P[OF h] by blast+
qed

lemma days_in_month_other: "m \<noteq> 2 \<Longrightarrow> days_in_month y m = days_in_month 1 m"
  by (simp add: days_in_month_def)

lemma days_in_february: "days_in_month y 2 = 28 + leap_days y"
  by (simp add: days_in_month_def)

text \<open>Within a year that begins in March, and at its end.\<close>

lemma next_day_within:
  assumes "month_ok k" "month_ok (k + 1)" "gm_month k = (m, d)" "gm_month (k + 1) = (m', d')" "k + 1 < 365 + leap_days (y + 1)"
  shows "next_day (if k \<ge> 306 then y + 1 else y, m, d) = (if k + 1 \<ge> 306 then y + 1 else y, m', d')"
proof (cases "m = 2")
  case True
  note ok = month_okD[OF assms(1,3)]
  have "m' = 2" "d' = d + 1" using ok(7)[OF True] unfolding assms(4) by blast+
  moreover have "306 \<le> k" "k = 336 + d" using ok(4,5) True by simp_all
  moreover from this have "d < days_in_month (y + 1) 2" using assms(5) unfolding days_in_february by linarith
  ultimately show ?thesis using True by simp
next
  case False
  note ok = month_okD[OF assms(1,3)] and ok' = month_okD(4)[OF assms(2,4)]
  define D where "D = days_in_month 1 m"
  have n: "(m', d') = (if d < D then (m, d + 1) else if m < 12 then (m + 1, 1) else (1, 1))"
    using ok(8)[OF False] unfolding assms(4) D_def .
  have D: "days_in_month z m = D" for z unfolding D_def by (rule days_in_month_other[OF False])
  consider (day) "d < D" "m' = m" "d' = d + 1" | (mon) "\<not> d < D" "m < 12" "m' = m + 1" "d' = 1"
    | (new) "\<not> d < D" "\<not> m < 12" "m' = 1" "d' = 1"
    using n by (cases "d < D"; cases "m < 12") simp_all
  then show ?thesis
  proof cases
    case day
    then have "306 \<le> k + 1 \<longleftrightarrow> 306 \<le> k" using ok(4) ok' by simp
    then show ?thesis using day D by simp
  next
    case mon
    then have "306 \<le> k + 1 \<longleftrightarrow> 306 \<le> k" using ok(1,4) ok' False by linarith
    then show ?thesis using mon D by simp
  next
    case new
    then have "m = 12" "\<not> 306 \<le> k" "306 \<le> k + 1" using ok(2,4) ok' by linarith+
    then show ?thesis using new D by simp
  qed
qed

lemma next_day_end:
  assumes "month_ok k" "gm_month k = (m, d)" "k + 1 = 365 + leap_days (y + 1)"
  shows "next_day (if k \<ge> 306 then y + 1 else y, m, d) = (y + 1, 3, 1)"
proof -
  have L: "0 \<le> leap_days (y + 1)" "leap_days (y + 1) \<le> 1" by simp_all
  have k: "364 \<le> k" "k < 367" using assms(3) L by linarith+
  then have "gm_month k = (2, k - 336)" using gm_month_table[of k] by simp
  then have "m = 2" "k = 336 + d" using assms(2) by auto
  moreover from this have "\<not> d < days_in_month (y + 1) 2" using assms(3) unfolding days_in_february by linarith
  ultimately show ?thesis using assms(3) L by simp
qed

lemma gm_date_next: "gm_date (d + 1) = next_day (gm_date d)"
proof -
  obtain y k where yk: "gm_year (d + 719468) = (y, k)" by fastforce
  obtain m md where m: "gm_month k = (m, md)" by fastforce
  obtain m' md' where m': "gm_month (k + 1) = (m', md')" by fastforce
  have L: "leap_days (y + 1) \<le> 1" by simp
  have k: "0 \<le> k" "k < 365 + leap_days (y + 1)" using gm_year_bounds[OF yk] by blast+
  have ok: "month_ok k" using k L by (intro months_ok) linarith+
  have d: "gm_date d = (if k \<ge> 306 then y + 1 else y, m, md)" unfolding gm_date_eq yk m Let_def prod.case ..
  have s: "d + 1 + 719468 = d + 719468 + 1" by simp
  show ?thesis
  proof (cases "k + 1 < 365 + leap_days (y + 1)")
    case True
    have ok': "month_ok (k + 1)" using k True L by (intro months_ok) linarith+
    show ?thesis unfolding d next_day_within[OF ok ok' m m' True]
      unfolding gm_date_eq s gm_year_next[OF yk] if_P[OF True] m' Let_def prod.case ..
  next
    case False
    have e: "k + 1 = 365 + leap_days (y + 1)" using k False by linarith
    have z: "gm_month 0 = (3, 1)" by (simp add: gm_month_table)
    show ?thesis unfolding d next_day_end[OF ok m e]
      unfolding gm_date_eq s gm_year_next[OF yk] if_not_P[OF False] z Let_def prod.case by simp
  qed
qed

lemma gm_date_calendar: "gm_date (int n) = (next_day ^^ n) (1970, 1, 1)"
proof (induction n)
  case 0
  have "gm_date 0 = (1970, 1, 1)" by code_simp
  then show ?case by simp
next
  case (Suc n)
  then show ?case using gm_date_next[of "int n"] by (simp add: add.commute)
qed

text \<open>The whole of \<^term>\<open>ngx_gmtime\<close>, and Gauss' formula as its inverse.\<close>

definition date_days :: "int \<Rightarrow> int \<Rightarrow> int \<Rightarrow> int" where
  "date_days y m d = (let mon = m - 2; (mon, y) = (if mon \<le> 0 then (mon + 12, y - 1) else (mon, y)) in
     days_before_year y + (367 * mon div 12 - 30) + d - 1 - 719527 + 31 + 28)"

lemma gm_date_parts:
  assumes "gm_date d = (y, m, md)"
  obtains z k where "gm_year (d + 719468) = (z, k)" "gm_month k = (m, md)" "y = (if k \<ge> 306 then z + 1 else z)"
    "month_ok k" "0 \<le> k" "k < 365 + leap_days (z + 1)"
proof -
  obtain z k where zk: "gm_year (d + 719468) = (z, k)" by fastforce
  obtain i j where ij: "gm_month k = (i, j)" by fastforce
  have k: "0 \<le> k" "k < 365 + leap_days (z + 1)" using gm_year_bounds[OF zk] by blast+
  have "month_ok k" using k by (intro months_ok) (auto split: if_splits)
  moreover have "i = m" "j = md" "y = (if k \<ge> 306 then z + 1 else z)"
    using assms unfolding gm_date_eq zk ij Let_def prod.case by auto
  ultimately show ?thesis using that[OF zk, of] ij k by blast
qed

lemma gm_date_valid:
  assumes "gm_date d = (y, m, md)"
  shows "1 \<le> m" "m \<le> 12" "1 \<le> md" "md \<le> days_in_month y m"
proof -
  from assms obtain z k where zk: "gm_month k = (m, md)" "y = (if k \<ge> 306 then z + 1 else z)" "month_ok k"
      "k < 365 + leap_days (z + 1)" by (rule gm_date_parts)
  note ok = month_okD[OF zk(3,1)]
  show "1 \<le> m" "m \<le> 12" "1 \<le> md" by (rule ok)+
  show "md \<le> days_in_month y m"
  proof (cases "m = 2")
    case True
    then have "y = z + 1" "k = 336 + md" "md \<le> 29" using ok(4,5) zk(2) by simp_all
    then show ?thesis using True zk(4) by (simp add: days_in_month_def split: if_splits)
  next
    case False
    then show ?thesis using ok(6) by (simp add: days_in_month_def)
  qed
qed

lemma date_days_gm_date:
  assumes "gm_date d = (y, m, md)"
  shows "date_days y m md = d"
proof -
  from assms obtain z k where zk: "gm_year (d + 719468) = (z, k)" "gm_month k = (m, md)"
    "y = (if k \<ge> 306 then z + 1 else z)" "month_ok k" by (rule gm_date_parts)
  note ok = month_okD[OF zk(4,2)]
  define mon X where "mon = (k + 31) * 10 div 306" and "X = 367 * mon div 12"
  have "(if k \<ge> 306 then mon - 10 else mon + 2, k - (X - 30) + 1) = (m, md)"
    using zk(2) by (simp only: gm_month_def mon_def X_def Let_def)
  then have gm: "m = (if k \<ge> 306 then mon - 10 else mon + 2)" "md = k - (X - 30) + 1" by (blast, blast)
  have dd: "date_days y m md = (if m - 2 \<le> 0 then days_before_year (y - 1) + (367 * (m - 2 + 12) div 12 - 30)
      else days_before_year y + (367 * (m - 2) div 12 - 30)) + md - 1 - 719527 + 31 + 28"
    unfolding date_days_def Let_def by (cases "m - 2 \<le> 0") (simp_all only: if_True if_False prod.case)
  have bk: "d + 719468 = days_before_year z + k" using gm_year_bounds[OF zk(1)] by blast
  show ?thesis
  proof (cases "306 \<le> k")
    case True
    have "m = mon - 10" "y = z + 1" "m \<le> 2"
      using gm(1) zk(3) ok(4) True unfolding if_P[OF True] by blast+
    then have le: "m - 2 \<le> 0" and m: "m - 2 + 12 = mon" and y: "y - 1 = z" by simp_all
    have "date_days y m md = days_before_year z + (X - 30) + md - 1 - 719527 + 31 + 28"
      unfolding dd if_P[OF le] m X_def[symmetric] y ..
    then show ?thesis using gm(2) bk by linarith
  next
    case False
    have "m = mon + 2" "y = z" "\<not> m \<le> 2"
      using gm(1) zk(3) ok(4) False unfolding if_not_P[OF False] by blast+
    then have le: "\<not> m - 2 \<le> 0" and m: "m - 2 = mon" and y: "y = z" by simp_all
    have "date_days y m md = days_before_year z + (X - 30) + md - 1 - 719527 + 31 + 28"
      unfolding dd if_not_P[OF le] unfolding m X_def[symmetric] y ..
    then show ?thesis using gm(2) bk by linarith
  qed
qed

lemmas gm_date_ok = date_days_gm_date gm_date_valid

lemma gmtime_parts:
  assumes "0 \<le> t" "t < 2 ^ 64"
  defines "s \<equiv> t mod 86400"
  shows "gm_date (t div 86400) = (tm_year (ngx_gmtime t), tm_mon (ngx_gmtime t), tm_mday (ngx_gmtime t))"
    "s = 3600 * tm_hour (ngx_gmtime t) + 60 * tm_min (ngx_gmtime t) + tm_sec (ngx_gmtime t)"
    "0 \<le> tm_hour (ngx_gmtime t)" "tm_hour (ngx_gmtime t) \<le> 23" "0 \<le> tm_min (ngx_gmtime t)" "tm_min (ngx_gmtime t) \<le> 59"
    "0 \<le> tm_sec (ngx_gmtime t)" "tm_sec (ngx_gmtime t) \<le> 59" "tm_wday (ngx_gmtime t) = (4 + t div 86400) mod 7"
proof -
  have n: "uint (word_of_int t :: ngx_uint) = t" using assms(1,2) by (simp add: unsigned_of_int take_bit_int_eq_self)
  obtain y m d where g: "gm_date (t div 86400) = (y, m, d)" using prod_cases3 by blast
  have tm: "ngx_gmtime t = \<lparr> tm_sec = s mod 3600 mod 60, tm_min = s mod 3600 div 60, tm_hour = s div 3600,
        tm_mday = d, tm_mon = m, tm_year = y, tm_wday = (4 + t div 86400) mod 7 \<rparr>"
    by (simp add: ngx_gmtime_def n g s_def Let_def)
  have s: "0 \<le> s" "s < 86400" unfolding s_def by simp_all
  have h: "s = 3600 * (s div 3600) + s mod 3600" "0 \<le> s mod 3600" "s mod 3600 < 3600" by simp_all
  have m: "s mod 3600 = 60 * (s mod 3600 div 60) + s mod 3600 mod 60" "0 \<le> s mod 3600 mod 60" "s mod 3600 mod 60 < 60" by simp_all
  show "gm_date (t div 86400) = (tm_year (ngx_gmtime t), tm_mon (ngx_gmtime t), tm_mday (ngx_gmtime t))"
    by (simp add: g tm)
  show "s = 3600 * tm_hour (ngx_gmtime t) + 60 * tm_min (ngx_gmtime t) + tm_sec (ngx_gmtime t)"
    unfolding tm using h(1) m(1) by simp
  show "0 \<le> tm_hour (ngx_gmtime t)" "0 \<le> tm_min (ngx_gmtime t)" "0 \<le> tm_sec (ngx_gmtime t)" unfolding tm using s by (simp_all add: pos_imp_zdiv_nonneg_iff)
  show "tm_hour (ngx_gmtime t) \<le> 23" unfolding tm using s by simp
  show "tm_min (ngx_gmtime t) \<le> 59" unfolding tm using h by simp
  show "tm_sec (ngx_gmtime t) \<le> 59" unfolding tm using m by simp
  show "tm_wday (ngx_gmtime t) = (4 + t div 86400) mod 7" unfolding tm by simp
qed



end
