(* ===== verification/Ngx_Times_Parse.thy ===== *)
theory Ngx_Times_Parse
  imports Ngx_Times
begin

text \<open>
  \<^verbatim>\<open>ngx_http_time\<close> and \<^verbatim>\<open>ngx_http_cookie_time\<close> against \<^verbatim>\<open>ngx_parse_http_time\<close>: a date that is printed is
  read back as the time it was printed for.
\<close>

section \<open>Reading back what is printed\<close>

lemma rd_digits_print:
  assumes "list_all is_digit ds"
  shows "rd_digits (length ds) (word_of_int v) (ds @ p) = Got (word_of_int (dec_from v ds), p)"
  using assms
proof (induction ds arbitrary: v)
  case (Cons c ds)
  have "word_of_int v * 10 + digit_word c = (word_of_int (v * 10 + digit c) :: ngx_uint)"
    by (simp add: digit_word_def)
  then have "rd_digits (length (c # ds)) (word_of_int v) ((c # ds) @ p)
      = rd_digits (length ds) (word_of_int (v * 10 + digit c)) (ds @ p)"
    using Cons.prems by simp
  then show ?case using Cons.IH[of "v * 10 + digit c"] Cons.prems by (simp del: of_int_add of_int_mult)
qed simp

lemma num_digits_length:
  assumes "10 ^ k \<le> uint n" "uint n < 10 ^ Suc k"
  shows "length (num_digits n []) = Suc k"
  using assms
proof (induction k arbitrary: n)
  case 0
  then have "uint (n div 10) = 0" by (simp add: uint_div_distrib)
  then have "n div 10 = 0" by (simp only: uint_0_iff)
  then show ?case by (simp add: num_digits.simps[of n] Let_def)
next
  case (Suc k)
  have u: "uint (n div 10) = uint n div 10" by (simp add: uint_div_distrib)
  have b: "10 * (uint n div 10) \<le> uint n" "uint n < 10 * (uint n div 10) + 10" by (rule div_bounds; simp)+
  have lo: "10 ^ k \<le> uint (n div 10)" using Suc.prems b unfolding u power_Suc by linarith
  have hi: "uint (n div 10) < 10 ^ Suc k" using Suc.prems b unfolding u power_Suc by linarith
  have "(0 :: int) < 10 ^ k" by simp
  then have "n div 10 \<noteq> 0" using lo by (metis not_le unsigned_0)
  then have "num_digits n [] = num_digits (n div 10) [ucast (n mod 10 + ucast (ch CHR ''0''))]"
    by (simp add: num_digits.simps[of n] Let_def)
  then show ?case using Suc.IH[OF lo hi] num_digits_append[of "n div 10" "[ucast (n mod 10 + ucast (ch CHR ''0''))]"] by simp
qed

lemma uint_small: "0 \<le> x \<Longrightarrow> x < 10000 \<Longrightarrow> uint (word_of_int x :: uint64) = x"
  by (simp add: unsigned_of_int take_bit_int_eq_self)

lemma d02_digits:
  assumes "0 \<le> x" "x < 100"
  shows "length (d02 x) = 2 \<and> list_all is_digit (d02 x) \<and> dec_from 0 (d02 x) = x"
proof -
  define n where "n = (word_of_int x :: uint64)"
  have u: "uint n = x" using uint_small[of x] assms by (simp add: n_def)
  have d: "d02 x = replicate (2 - length (num_digits n [])) (ch CHR ''0'') @ num_digits n []"
    if "length (num_digits n []) \<le> 2"
    using that assms by (simp add: d02_def fmt_d_def ngx_sprintf_num_def Let_def n_def)
  note v = num_digits_value[of n]
  show ?thesis
  proof (cases "x < 10")
    case True
    have "length (num_digits n []) = Suc 0"
    proof (cases "x = 0")
      case True
      then have "n = 0" by (simp add: n_def)
      then show ?thesis by (simp add: num_digits.simps Let_def)
    next
      case False
      then show ?thesis using u True assms by (intro num_digits_length) simp_all
    qed
    then show ?thesis using d v u by (simp add: is_digit_def digit_def)
  next
    case False
    then have "length (num_digits n []) = Suc (Suc 0)" using u assms by (intro num_digits_length) simp_all
    then show ?thesis using d v u by simp
  qed
qed

lemma rd_d02:
  assumes "0 \<le> x" "x < 100"
  shows "rd_digits 2 0 (d02 x @ p) = Got (word_of_int x, p)"
  using rd_digits_print[of "d02 x" 0 p] d02_digits[OF assms] by simp

lemma fmt_year_digits:
  assumes "1000 \<le> y" "y < 10000"
  shows "length (fmt_d z 4 y) = 4 \<and> list_all is_digit (fmt_d z 4 y) \<and> dec_from 0 (fmt_d z 4 y) = y"
proof -
  define n where "n = (word_of_int y :: uint64)"
  have u: "uint n = y" using uint_small[of y] assms by (simp add: n_def)
  have "length (num_digits n []) = Suc 3" using u assms by (intro num_digits_length) simp_all
  moreover from this have "fmt_d z 4 y = num_digits n []"
    using assms by (simp add: fmt_d_def ngx_sprintf_num_def Let_def n_def)
  ultimately show ?thesis using num_digits_value[of n] u by simp
qed

lemma rd_year4:
  assumes "1000 \<le> y" "y < 10000"
  shows "rd_digits 4 0 (fmt_d z 4 y @ p) = Got (word_of_int y, p)"
  using rd_digits_print[of "fmt_d z 4 y" 0 p] fmt_year_digits[OF assms] by simp

lemma months_cases:
  assumes "1 \<le> m" "m \<le> (12 :: int)"
  shows "m = 1 \<or> m = 2 \<or> m = 3 \<or> m = 4 \<or> m = 5 \<or> m = 6 \<or> m = 7 \<or> m = 8 \<or> m = 9 \<or> m = 10 \<or> m = 11 \<or> m = 12"
  using assms by presburger

lemma rd_months:
  assumes "1 \<le> m" "m \<le> 12"
  shows "length (months ! nat (m - 1)) = 3 \<and> rd_month (months ! nat (m - 1) @ p) = Got (m - 1, p)"
  using months_cases[OF assms] by (elim disjE) (simp_all add: months_def chars_def rd_month_def)

lemma week_comma:
  assumes "0 \<le> w" "w < 7"
  shows "weekday_end (week ! nat w @ ch CHR '','' # p) = (False, ch CHR '','' # p)"
proof -
  have "w = 0 \<or> w = 1 \<or> w = 2 \<or> w = 3 \<or> w = 4 \<or> w = 5 \<or> w = 6" using assms by presburger
  then show ?thesis by (elim disjE) (simp_all add: week_def chars_def)
qed

lemma date_valid_print:
  assumes "gm_date d = (y, m, md)" "0 \<le> y" "y < 10000"
  shows "date_valid (word_of_int md) (m - 1) (word_of_int y)"
proof -
  note v = gm_date_valid[OF assms(1)]
  have md: "md \<le> 31" using v(4) by (simp add: days_in_month_def split: if_splits)
  have um: "uint (word_of_int md :: ngx_uint) = md" using uint_small[of md] v(3) md by simp
  have uy: "uint (word_of_int y :: ngx_uint) = y" using uint_small[of y] assms(2,3) by simp
  have m4: "(word_of_int y :: ngx_uint) AND 3 = 0 \<longleftrightarrow> y mod 4 = 0"
  proof -
    have "(word_of_int y :: ngx_uint) AND 3 = word_of_int y mod 4"
      using take_bit_eq_mask[of 2 "word_of_int y :: ngx_uint"] by (simp add: take_bit_eq_mod mask_eq_exp_minus_1)
    then show ?thesis using uy by (simp add: word_uint_eq_iff uint_mod_distrib)
  qed
  have m100: "(word_of_int y :: ngx_uint) mod 100 = 0 \<longleftrightarrow> y mod 100 = 0"
    and m400: "(word_of_int y :: ngx_uint) mod 400 = 0 \<longleftrightarrow> y mod 400 = 0"
    using uy by (simp_all add: word_uint_eq_iff uint_mod_distrib)
  have le: "\<not> word_of_int md > (k :: ngx_uint) \<longleftrightarrow> md \<le> uint k" for k
    using um by (simp add: word_less_def not_less)
  show ?thesis
  proof (cases "m = 2")
    case True
    then show ?thesis using v(4) m4 m100 m400 um
      by (auto simp: date_valid_def days_in_february leap_year_def mday_def le word_uint_eq_iff[of "word_of_int md"] split: if_splits)
  next
    case False
    have "date_valid (word_of_int md) (m - 1) (word_of_int y) \<longleftrightarrow> md \<le> uint (mday ! nat (m - 1))"
      using False unfolding date_valid_def by (simp add: le)
    moreover have "uint (mday ! nat (m - 1)) = days_in_month y m"
      using months_cases[OF v(1,2)] False by (elim disjE) (simp_all add: mday_def days_in_month_def)
    ultimately show ?thesis using v(4) by simp
  qed
qed

lemma gauss_time_print:
  assumes "gm_date d = (y, m, md)" "1 \<le> y" "y < 10000" "0 \<le> h" "h < 24" "0 \<le> mi" "mi < 60" "0 \<le> s" "s < 60"
  shows "gauss_time (word_of_int md) (m - 1) (word_of_int y) (word_of_int h) (word_of_int mi) (word_of_int s)
    = word_of_int (86400 * d + 3600 * h + 60 * mi + s)"
proof -
  define mon yy where "mon = (if m - 2 \<le> 0 then m + 10 else m - 2)" and "yy = (if m - 2 \<le> 0 then y - 1 else y)"
  have yy: "0 \<le> yy" "yy < 10000" using assms(2,3) by (auto simp: yy_def)
  have uy: "uint (word_of_int yy :: ngx_uint) = yy" using uint_small yy by simp
  have dv: "word_of_int yy div (k :: ngx_uint) = word_of_int (yy div uint k)" for k
    using uy by (simp add: word_div_def)
  have "date_days y m md = d" by (rule date_days_gm_date[OF assms(1)])
  then have dd: "days_before_year yy + (367 * mon div 12 - 30) + md - 1 - 719527 + 31 + 28 = d"
    by (simp add: date_days_def Let_def mon_def yy_def split: if_splits)
  have "gauss_time (word_of_int md) (m - 1) (word_of_int y) (word_of_int h) (word_of_int mi) (word_of_int s)
    = (365 * word_of_int yy + word_of_int yy div 4 - word_of_int yy div 100 + word_of_int yy div 400
        + word_of_int (367 * mon div 12 - 30) + word_of_int md - 1 - 719527 + 31 + 28) * 86400
        + word_of_int h * 3600 + word_of_int mi * 60 + word_of_int s"
    by (simp add: gauss_time_def Let_def mon_def yy_def) (simp add: add.commute)
  also have "\<dots> = word_of_int ((days_before_year yy + (367 * mon div 12 - 30) + md - 1 - 719527 + 31 + 28) * 86400
        + h * 3600 + mi * 60 + s)"
    by (simp add: dv days_before_year_def)
  finally show ?thesis unfolding dd by (simp add: mult.commute)
qed


text \<open>The text of a time whose date is known: what the parser finds in it.\<close>

lemma rd_clock_print:
  assumes "0 \<le> h" "h < 100" "0 \<le> mi" "mi < 100" "0 \<le> s" "s < 100"
  shows "rd_clock (ch CHR '' '' # d02 h @ ch CHR '':'' # d02 mi @ ch CHR '':'' # d02 s @ p)
    = Got (word_of_int h, word_of_int mi, word_of_int s, p)"
  using rd_d02[OF assms(1,2)] rd_d02[OF assms(3,4)] rd_d02[OF assms(5,6)] by (simp add: rd_clock_def)

lemma d02_first: "0 \<le> x \<Longrightarrow> x < 100 \<Longrightarrow> dropWhile (\<lambda>c. c = ch CHR '' '') (d02 x @ p) = d02 x @ p"
  using d02_digits[of x] by (cases "d02 x") (auto simp: is_digit_def)

definition day_seconds_ok :: "int \<Rightarrow> int \<Rightarrow> int \<Rightarrow> bool" where
  "day_seconds_ok h mi s \<longleftrightarrow> 0 \<le> h \<and> h \<le> 23 \<and> 0 \<le> mi \<and> mi \<le> 59 \<and> 0 \<le> s \<and> s \<le> 59"

lemma clock_words:
  assumes "day_seconds_ok h mi s"
  shows "\<not> ((word_of_int h :: ngx_uint) > 23 \<or> (word_of_int mi :: ngx_uint) > 59 \<or> (word_of_int s :: ngx_uint) > 59)"
  using assms uint_small[of h] uint_small[of mi] uint_small[of s] by (simp add: day_seconds_ok_def word_less_def)

lemma parse_rfc822:
  assumes "gm_date d = (y, m, md)" "1000 \<le> y" "y < 10000" "0 \<le> w" "w < 7" "day_seconds_ok h mi s"
  shows "ngx_parse_http_time (week ! nat w @ chars '', '' @ d02 md @ chars '' '' @ months ! nat (m - 1) @ chars '' ''
      @ fmt_d (ch CHR '' '') 4 y @ chars '' '' @ d02 h @ chars '':'' @ d02 mi @ chars '':'' @ d02 s @ p)
    = Got (sint (word_of_int (86400 * d + 3600 * h + 60 * mi + s) :: uint64))"
proof -
  note v = gm_date_valid[OF assms(1)]
  have md: "0 \<le> md" "md < 100" using v(3,4) by (auto simp: days_in_month_def split: if_splits)
  have c: "0 \<le> h" "h < 24" "0 \<le> mi" "mi < 60" "0 \<le> s" "s < 60" using assms(6) by (simp_all add: day_seconds_ok_def)
  define clock where "clock = ch CHR '' '' # d02 h @ ch CHR '':'' # d02 mi @ ch CHR '':'' # d02 s @ p"
  define yr where "yr = fmt_d (ch CHR '' '') 4 y @ clock"
  define mn where "mn = months ! nat (m - 1) @ ch CHR '' '' # yr"
  define rest where "rest = d02 md @ ch CHR '' '' # mn"
  have ln: "length (d02 md) = 2" "length (d02 h) = 2" "length (d02 mi) = 2" "length (d02 s) = 2"
      "length (fmt_d (ch CHR '' '') 4 y) = 4" "length (months ! nat (m - 1)) = 3"
    using d02_digits md c fmt_year_digits[OF assms(2,3)] rd_months[OF v(1,2)] by simp_all
  have len: "18 \<le> length rest" "18 \<le> length (ch CHR '' '' # mn)" using ln by (simp_all add: rest_def mn_def yr_def clock_def)
  have day: "rd_day rest = Got (rfc822, word_of_int md, mn)"
    using len rd_d02[OF md, of "ch CHR '' '' # mn"] by (simp add: rd_day_def rest_def)
  have mon: "rd_month mn = Got (m - 1, ch CHR '' '' # yr)" unfolding mn_def using rd_months[OF v(1,2)] by blast
  have yr: "rd_digits 4 0 yr = Got (word_of_int y, clock)" unfolding yr_def by (rule rd_year4[OF assms(2,3)])
  have clk: "rd_clock clock = Got (word_of_int h, word_of_int mi, word_of_int s, p)"
    unfolding clock_def using c by (intro rd_clock_print) simp_all
  have tx: "week ! nat w @ chars '', '' @ d02 md @ chars '' '' @ months ! nat (m - 1) @ chars '' ''
      @ fmt_d (ch CHR '' '') 4 y @ chars '' '' @ d02 h @ chars '':'' @ d02 mi @ chars '':'' @ d02 s @ p
      = week ! nat w @ ch CHR '','' # ch CHR '' '' # rest"
    by (simp add: rest_def mn_def yr_def clock_def chars_def)
  have skip: "dropWhile (\<lambda>c. c = ch CHR '' '') (drop 1 (ch CHR '','' # ch CHR '' '' # rest)) = rest"
    using d02_first[OF md] by (simp add: rest_def)
  have ok: "date_valid (word_of_int md) (m - 1) (word_of_int y)" using assms by (intro date_valid_print[OF assms(1)]) simp_all
  have g: "gauss_time (word_of_int md) (m - 1) (word_of_int y) (word_of_int h) (word_of_int mi) (word_of_int s)
    = word_of_int (86400 * d + 3600 * h + 60 * mi + s)"
    using assms(2,3) c by (intro gauss_time_print[OF assms(1)]) simp_all
  show ?thesis
    unfolding tx ngx_parse_http_time_def week_comma[OF assms(4,5)] Let_def prod.case skip
    using len day mon yr clk ok clock_words[OF assms(6)] g
    by (simp add: rd_separator_def rd_year_def not_less[symmetric] del: of_int_add of_int_mult)
qed

lemma days_before_year_le: "y \<le> z \<Longrightarrow> days_before_year y \<le> days_before_year z"
  using days_before_year_mono[of y z] by (cases "y = z") auto

lemma year_less_iff:
  assumes "gm_date d = (y, m, md)"
  shows "y < Y \<longleftrightarrow> d < days_before_year (Y - 1) + 306 - 719468"
proof -
  from assms obtain z k where zk: "gm_year (d + 719468) = (z, k)" "y = (if k \<ge> 306 then z + 1 else z)" by (rule gm_date_parts)
  note b = gm_year_bounds[OF zk(1)]
  have n: "days_before_year (z + 1) = days_before_year z + 365 + leap_days (z + 1)" by (rule days_before_year_step)
  show ?thesis
  proof (cases "z \<le> Y - 2")
    case True
    then have "days_before_year (z + 1) \<le> days_before_year (Y - 1)" by (intro days_before_year_le) simp
    moreover have "y < Y" using True zk(2) by (simp split: if_splits)
    ultimately show ?thesis using b n by linarith
  next
    case False
    show ?thesis
    proof (cases "z = Y - 1")
      case True
      have F: "days_before_year z = days_before_year (Y - 1)" unfolding True ..
      have y: "y < Y \<longleftrightarrow> k < 306" using True zk(2) by (simp split: if_splits)
      show ?thesis unfolding y using b F by linarith
    next
      case False
      then have "days_before_year (Y - 1) + 365 \<le> days_before_year z" using \<open>\<not> z \<le> Y - 2\<close> by (intro days_before_year_mono) simp
      moreover have "\<not> y < Y" using False \<open>\<not> z \<le> Y - 2\<close> zk(2) by (simp split: if_splits)
      ultimately show ?thesis using b by linarith
    qed
  qed
qed

lemma parse_rfc850:
  assumes "gm_date d = (y, m, md)" "1970 \<le> y" "y < 2038" "0 \<le> w" "w < 7" "day_seconds_ok h mi s"
  shows "ngx_parse_http_time (week ! nat w @ chars '', '' @ d02 md @ chars ''-'' @ months ! nat (m - 1) @ chars ''-''
      @ d02 (y mod 100) @ chars '' '' @ d02 h @ chars '':'' @ d02 mi @ chars '':'' @ d02 s @ p)
    = Got (sint (word_of_int (86400 * d + 3600 * h + 60 * mi + s) :: uint64))"
proof -
  note v = gm_date_valid[OF assms(1)]
  have md: "0 \<le> md" "md < 100" using v(3,4) by (auto simp: days_in_month_def split: if_splits)
  have c: "0 \<le> h" "h < 24" "0 \<le> mi" "mi < 60" "0 \<le> s" "s < 60" using assms(6) by (simp_all add: day_seconds_ok_def)
  have y2: "0 \<le> y mod 100" "y mod 100 < 100" by simp_all
  define clock where "clock = ch CHR '' '' # d02 h @ ch CHR '':'' # d02 mi @ ch CHR '':'' # d02 s @ p"
  define yr where "yr = d02 (y mod 100) @ clock"
  define mn where "mn = months ! nat (m - 1) @ ch CHR ''-'' # yr"
  define rest where "rest = d02 md @ ch CHR ''-'' # mn"
  have ln: "length (d02 md) = 2" "length (d02 h) = 2" "length (d02 mi) = 2" "length (d02 s) = 2"
      "length (d02 (y mod 100)) = 2" "length (months ! nat (m - 1)) = 3"
    using d02_digits md c y2 rd_months[OF v(1,2)] by simp_all
  have len: "18 \<le> length rest" using ln by (simp add: rest_def mn_def yr_def clock_def)
  have day: "rd_day rest = Got (rfc850, word_of_int md, mn)"
    using rd_d02[OF md, of "ch CHR ''-'' # mn"] by (simp add: rd_day_def rest_def)
  have mon: "rd_month mn = Got (m - 1, ch CHR ''-'' # yr)" unfolding mn_def using rd_months[OF v(1,2)] by blast
  have "(word_of_int (y mod 100) :: ngx_uint) + (if word_of_int (y mod 100) < (70 :: ngx_uint) then 2000 else 1900) = word_of_int y"
  proof (cases "y < 2000")
    case True
    then have "y mod 100 = y - 1900" using assms(2) int_mod_pos_eq[of y 100 19 "y - 1900"] by simp
    then show ?thesis using True assms(2) uint_small[of "y - 1900"] by (simp add: word_less_def)
  next
    case False
    then have "y mod 100 = y - 2000" using assms(3) int_mod_pos_eq[of y 100 20 "y - 2000"] by simp
    then show ?thesis using False assms(3) uint_small[of "y - 2000"] by (simp add: word_less_def)
  qed
  then have yr: "rd_year rfc850 yr = Got (word_of_int y, clock)"
    using rd_d02[OF y2, of clock] by (simp add: rd_year_def yr_def)
  have clk: "rd_clock clock = Got (word_of_int h, word_of_int mi, word_of_int s, p)"
    unfolding clock_def using c by (intro rd_clock_print) simp_all
  have tx: "week ! nat w @ chars '', '' @ d02 md @ chars ''-'' @ months ! nat (m - 1) @ chars ''-''
      @ d02 (y mod 100) @ chars '' '' @ d02 h @ chars '':'' @ d02 mi @ chars '':'' @ d02 s @ p
      = week ! nat w @ ch CHR '','' # ch CHR '' '' # rest"
    by (simp add: rest_def mn_def yr_def clock_def chars_def)
  have skip: "dropWhile (\<lambda>c. c = ch CHR '' '') (drop 1 (ch CHR '','' # ch CHR '' '' # rest)) = rest"
    using d02_first[OF md] by (simp add: rest_def)
  have ok: "date_valid (word_of_int md) (m - 1) (word_of_int y)" using assms(2,3) by (intro date_valid_print[OF assms(1)]) simp_all
  have g: "gauss_time (word_of_int md) (m - 1) (word_of_int y) (word_of_int h) (word_of_int mi) (word_of_int s)
    = word_of_int (86400 * d + 3600 * h + 60 * mi + s)"
    using assms(2,3) c by (intro gauss_time_print[OF assms(1)]) simp_all
  show ?thesis
    unfolding tx ngx_parse_http_time_def week_comma[OF assms(4,5)] Let_def prod.case skip
    using len day mon yr clk ok clock_words[OF assms(6)] g
    by (simp add: rd_separator_def not_less[symmetric] del: of_int_add of_int_mult)
qed

text \<open>
  Property C35 (roundtrip).  A time printed for an HTTP header, up to the end of the year 9999, is read back as the
  same time; so is a time printed for a cookie, before the year 2038 from which on its year has four digits.
\<close>

theorem http_time_round_trip:
  assumes "0 \<le> t" "t < 253402300800"
  shows "ngx_parse_http_time (ngx_http_time t) = Got t
    \<and> (t < 2145916800 \<longrightarrow> ngx_parse_http_time (ngx_http_cookie_time t) = Got t)"
proof -
  have t: "0 \<le> t" "t < 2 ^ 64" using assms by simp_all
  define tm where "tm = ngx_gmtime t"
  note g = gmtime_parts[OF t, folded tm_def]
  have ds: "86400 * (t div 86400) + 3600 * tm_hour tm + 60 * tm_min tm + tm_sec tm = t"
    using g(2) div_mult_mod_eq[of t 86400] by linarith
  have st: "sint (word_of_int t :: uint64) = t" using assms by (simp add: signed_of_int signed_take_bit_int_eq_self)
  have w: "0 \<le> tm_wday tm" "tm_wday tm < 7" unfolding g(9) by simp_all
  have c: "day_seconds_ok (tm_hour tm) (tm_min tm) (tm_sec tm)" using g by (simp add: day_seconds_ok_def)
  have d: "0 \<le> t div 86400" "t div 86400 < 2932897" using assms by (simp_all add: pos_imp_zdiv_nonneg_iff) 
  have y: "tm_year tm < 1970 \<longleftrightarrow> t div 86400 < 0" "tm_year tm < 10000 \<longleftrightarrow> t div 86400 < 2932897"
      "tm_year tm < 2038 \<longleftrightarrow> t div 86400 < 24837"
    using year_less_iff[OF g(1), of 1970] year_less_iff[OF g(1), of 10000] year_less_iff[OF g(1), of 2038]
    by (simp_all add: days_before_year_def)
  have y4: "1000 \<le> tm_year tm" "tm_year tm < 10000" using y d by simp_all
  have "ngx_parse_http_time (ngx_http_time t) = Got t"
    using parse_rfc822[OF g(1) y4 w c, of "chars '' GMT''"] unfolding ds st ngx_http_time_def Let_def tm_def[symmetric] .
  moreover have "ngx_parse_http_time (ngx_http_cookie_time t) = Got t" if "t < 2145916800"
  proof -
    have "t div 86400 < 24837" using that by simp
    then have y2: "1970 \<le> tm_year tm" "tm_year tm < 2038" using y d by simp_all
    then have n: "\<not> tm_year tm > 2037" by simp
    show ?thesis
      using parse_rfc850[OF g(1) y2 w c, of "chars '' GMT''"] n
      unfolding ds st ngx_http_cookie_time_def Let_def tm_def[symmetric] by simp
  qed
  ultimately show ?thesis by blast
qed

lemma http_time_round_trip_witness:
  "ngx_http_time 784111777 = chars ''Sun, 06 Nov 1994 08:49:37 GMT'' \<and> ngx_parse_http_time (chars ''Sun, 06 Nov 1994 08:49:37 GMT'') = Got 784111777"
proof -
  have e: "ngx_http_time 784111777 = chars ''Sun, 06 Nov 1994 08:49:37 GMT''" by code_simp
  have "(0 :: int) \<le> 784111777" "(784111777 :: int) < 253402300800" by simp_all
  then have "ngx_parse_http_time (ngx_http_time 784111777) = Got 784111777" using http_time_round_trip by blast
  then show ?thesis using e by simp
qed

text \<open>
  Fact (error).  The day of the month is compared with the largest one only: a day zero is accepted and means
  the last day of the month before.  In January and February of the year zero the year wraps: the last of
  January is 60 days before the last of March less almost three hours.
\<close>

lemma parse_http_time_day_zero:
  "ngx_parse_http_time (chars ''Sun, 00 Nov 1994 08:49:37 GMT'') = ngx_parse_http_time (chars ''Mon, 31 Oct 1994 08:49:37 GMT'')
   \<and> ngx_parse_http_time (chars ''Sun, 00 Nov 1994 08:49:37 GMT'') = Got 783593377"
  by code_simp

lemma parse_http_time_year_zero:
  "ngx_parse_http_time (chars ''Fri, 31 Mar 0000 08:49:37 GMT'') = Got (- 62159411423)
   \<and> ngx_parse_http_time (chars ''Mon, 31 Jan 0000 08:49:37 GMT'') = Got (- 62159411423 - 60 * 86400 + 10368)"
  by code_simp

end
