(* ===== verification/Ngx_Http_Range.thy ===== *)
theory Ngx_Http_Range
  imports Ngx_Times_Parse Ngx_String
begin

text \<open>
  The parser of the header \<^verbatim>\<open>Range\<close>, \<^verbatim>\<open>ngx_http_range_parse\<close> of
  \<^verbatim>\<open>http/modules/ngx_http_range_filter_module.c\<close>: what it accepts, that it ends, and what it guarantees
  to the filters of \<open>Ngx_Http_Range_Filter\<close>.  An \<^verbatim>\<open>off_t\<close> is an integer; where a sum can leave its range, the model
  wraps as the compiled code does (in C it is undefined).
\<close>

section \<open>Parsing the ranges\<close>

definition NGX_HTTP_OK :: int where "NGX_HTTP_OK = 200"
definition NGX_HTTP_PARTIAL_CONTENT :: int where "NGX_HTTP_PARTIAL_CONTENT = 206"
definition NGX_HTTP_RANGE_NOT_SATISFIABLE :: int where "NGX_HTTP_RANGE_NOT_SATISFIABLE = 416"

definition off_wrap :: "int \<Rightarrow> int" where
  "off_wrap x = sint (word_of_int x :: 64 word)"

record http_range =
  r_start :: int
  r_end :: int

fun rd_spaces :: "bytes \<Rightarrow> bytes read" where
  "rd_spaces [] = Past_end"
| "rd_spaces (c # p) = (if c = ch CHR '' '' then rd_spaces p else Got (c # p))"

text \<open>The loop over the digits of a number; \<^verbatim>\<open>start * 10 + *p++ - '0'\<close> adds before it subtracts.\<close>

fun rd_off :: "int \<Rightarrow> bytes \<Rightarrow> (int \<times> bytes) read" where
  "rd_off v [] = Past_end"
| "rd_off v (c # p) =
     (let cutoff = NGX_MAX_OFF_T_VALUE div 10; cutlim = NGX_MAX_OFF_T_VALUE mod 10 in
      if \<not> is_digit c then Got (v, c # p)
      else if v \<ge> cutoff \<and> (v > cutoff \<or> digit c > cutlim) then Refused
      else rd_off (off_wrap (off_wrap (v * 10 + uint c) - uint (ch CHR ''0''))) p)"

text \<open>The second number of a range, and what comes after it.\<close>

definition range_last :: "int \<Rightarrow> bool \<Rightarrow> int \<Rightarrow> bytes \<Rightarrow> (int \<times> int \<times> bytes) read" where
  "range_last content_length suffix start p =
     (case p of
        [] \<Rightarrow> Past_end
      | c # _ \<Rightarrow>
          if \<not> is_digit c then Refused
          else
            and_then (rd_off 0 p) (\<lambda>(e, p).
            and_then (rd_spaces p) (\<lambda>p.
            if hd p \<noteq> ch CHR '','' \<and> hd p \<noteq> 0 then Refused
            else
              let (start, e) = (if suffix then (content_length - e, content_length - 1) else (start, e));
                  e = (if e \<ge> content_length then content_length else e + 1)
              in Got (start, e, p))))"

text \<open>One range: its start, its end and the text from the byte after it, a comma or NUL.\<close>

definition range_item :: "int \<Rightarrow> bytes \<Rightarrow> (int \<times> int \<times> bytes) read" where
  "range_item content_length p =
     and_then (rd_spaces p) (\<lambda>p.
       if hd p \<noteq> ch CHR ''-'' then
         (if \<not> is_digit (hd p) then Refused
          else
            and_then (rd_off 0 p) (\<lambda>(start, p).
            and_then (rd_spaces p) (\<lambda>p.
            and_then (rd_char (ch CHR ''-'') p) (\<lambda>p.
            and_then (rd_spaces p) (\<lambda>p.
            if hd p = ch CHR '','' \<or> hd p = 0 then Got (start, content_length, p)
            else range_last content_length False start p)))))
       else range_last content_length True 0 (tl p))"

lemma skip_spaces_shorter: "rd_spaces p = Got q \<Longrightarrow> q \<noteq> [] \<and> length q \<le> length p"
  by (induction p) (auto split: if_splits)

lemma rd_off_shorter: "rd_off v p = Got (e, q) \<Longrightarrow> q \<noteq> [] \<and> length q \<le> length p"
proof (induction p arbitrary: v)
  case (Cons c p)
  then show ?case by (force simp: Let_def split: if_splits)
qed simp

lemma rd_char_shorter: "rd_char c p = Got q \<Longrightarrow> length q < length p"
  by (cases p) (auto split: if_splits)

lemma and_then_Got: "and_then m f = Got y \<longleftrightarrow> (\<exists>x. m = Got x \<and> f x = Got y)"
  by (cases m) auto

lemma range_last_shorter: "range_last cl sf st p = Got (s, e, q) \<Longrightarrow> q \<noteq> [] \<and> length q \<le> length p"
  by (fastforce simp: range_last_def and_then_Got Let_def dest: rd_off_shorter skip_spaces_shorter
      split: list.splits prod.splits if_splits)

lemma range_item_shorter: "range_item cl p = Got (s, e, q) \<Longrightarrow> q \<noteq> [] \<and> length q \<le> length p"
  by (fastforce simp: range_item_def and_then_Got dest: rd_off_shorter skip_spaces_shorter rd_char_shorter range_last_shorter
      split: prod.splits if_splits)

text \<open>
  A range is kept if it is not empty.  The result is the return code of the loop, or the number of
  ranges that are still allowed, the sum of the sizes and the ranges.
\<close>

definition range_push ::
    "(nat \<Rightarrow> bool) \<Rightarrow> int \<Rightarrow> int \<Rightarrow> ngx_uint \<Rightarrow> int \<Rightarrow> http_range list \<Rightarrow> int + ngx_uint \<times> int \<times> http_range list" where
  "range_push alloc start e ranges sz rs =
     (if start < e then
        (if \<not> alloc (length rs) then Inl NGX_ERROR
         else if ranges = 0 then Inl NGX_DECLINED
         else Inr (ranges - 1, off_wrap (sz + (e - start)), rs @ [\<lparr> r_start = start, r_end = e \<rparr>]))
      else Inr (ranges, sz, rs))"

function range_loop ::
    "(nat \<Rightarrow> bool) \<Rightarrow> int \<Rightarrow> bytes \<Rightarrow> ngx_uint \<Rightarrow> int \<Rightarrow> http_range list \<Rightarrow> (int \<times> http_range list) option" where
  "range_loop alloc content_length p ranges sz rs =
     (case range_item content_length p of
        Past_end \<Rightarrow> None
      | Refused \<Rightarrow> Some (NGX_HTTP_RANGE_NOT_SATISFIABLE, [])
      | Got (start, e, q) \<Rightarrow>
          case range_push alloc start e ranges sz rs of
            Inl rc \<Rightarrow> Some (rc, [])
          | Inr (ranges', sz', rs') \<Rightarrow>
              if hd q = ch CHR '','' then range_loop alloc content_length (tl q) ranges' sz' rs'
              else if rs' = [] then Some (NGX_HTTP_RANGE_NOT_SATISFIABLE, [])
              else if sz' > content_length then Some (NGX_DECLINED, [])
              else Some (NGX_OK, rs'))"
  by pat_completeness auto
termination
  by (relation "measure (\<lambda>(alloc, cl, p, ranges, sz, rs). length p)") (auto dest!: range_item_shorter simp: neq_Nil_conv)

declare range_loop.simps [simp del]

text \<open>
  A subrequest takes the ranges of the main request, where that has some (\<open>main\<close>).  The value of the
  header is followed by the NUL that \<^verbatim>\<open>ngx_http_process_request_headers\<close> writes.
\<close>

definition ngx_http_range_parse ::
    "(nat \<Rightarrow> bool) \<Rightarrow> http_range list option \<Rightarrow> bytes \<Rightarrow> int \<Rightarrow> ngx_uint \<Rightarrow> (int \<times> http_range list) option" where
  "ngx_http_range_parse alloc main val content_length ranges =
     (case main of
        Some rs \<Rightarrow> Some (NGX_OK, rs)
      | None \<Rightarrow> range_loop alloc content_length (drop 6 val @ [0]) ranges 0 [])"

section \<open>What the parser accepts\<close>

datatype range_spec = From bytes | Between bytes bytes | Suffix bytes

text \<open>A range with blanks wherever they may stand.\<close>

type_synonym range_text = "nat \<times> range_spec \<times> nat \<times> nat \<times> nat"

definition blanks :: "nat \<Rightarrow> bytes" where
  "blanks k = replicate k (ch CHR '' '')"

fun range_chars :: "range_text \<Rightarrow> bytes" where
  "range_chars (i, From a, j, k, l) = blanks i @ a @ blanks j @ ch CHR ''-'' # blanks k"
| "range_chars (i, Between a b, j, k, l) = blanks i @ a @ blanks j @ ch CHR ''-'' # blanks k @ b @ blanks l"
| "range_chars (i, Suffix a, j, k, l) = blanks i @ ch CHR ''-'' # a @ blanks l"

definition number_ok :: "bytes \<Rightarrow> bool" where
  "number_ok a \<longleftrightarrow> a \<noteq> [] \<and> list_all is_digit a \<and> dec_from 0 a \<le> NGX_MAX_OFF_T_VALUE"

text \<open>The form of a range, whatever its numbers are, and one whose numbers an \<^verbatim>\<open>off_t\<close> can hold.\<close>

definition digits_ok :: "bytes \<Rightarrow> bool" where
  "digits_ok a \<longleftrightarrow> a \<noteq> [] \<and> list_all is_digit a"

fun form_ok :: "range_spec \<Rightarrow> bool" where
  "form_ok (From a) \<longleftrightarrow> digits_ok a"
| "form_ok (Between a b) \<longleftrightarrow> digits_ok a \<and> digits_ok b"
| "form_ok (Suffix a) \<longleftrightarrow> digits_ok a"

fun spec_ok :: "range_spec \<Rightarrow> bool" where
  "spec_ok (From a) \<longleftrightarrow> number_ok a"
| "spec_ok (Between a b) \<longleftrightarrow> number_ok a \<and> number_ok b"
| "spec_ok (Suffix a) \<longleftrightarrow> number_ok a"

fun ranges_chars :: "range_text list \<Rightarrow> bytes" where
  "ranges_chars [] = []"
| "ranges_chars [x] = range_chars x"
| "ranges_chars (x # y # xs) = range_chars x @ ch CHR '','' # ranges_chars (y # xs)"

text \<open>The bytes that a range stands for, in a text of the given length.\<close>

fun spec_range :: "int \<Rightarrow> range_spec \<Rightarrow> http_range" where
  "spec_range cl (From a) = \<lparr> r_start = dec_from 0 a, r_end = cl \<rparr>"
| "spec_range cl (Between a b) = \<lparr> r_start = dec_from 0 a, r_end = (if dec_from 0 b \<ge> cl then cl else dec_from 0 b + 1) \<rparr>"
| "spec_range cl (Suffix a) = \<lparr> r_start = cl - dec_from 0 a, r_end = cl \<rparr>"

definition kept_ranges :: "int \<Rightarrow> range_text list \<Rightarrow> http_range list" where
  "kept_ranges cl xs = filter (\<lambda>r. r_start r < r_end r) (map (\<lambda>x. spec_range cl (fst (snd x))) xs)"

definition ranges_size :: "http_range list \<Rightarrow> int" where
  "ranges_size rs = sum_list (map (\<lambda>r. r_end r - r_start r) rs)"

lemma off_wrap_id: "- NGX_MAX_OFF_T_VALUE - 1 \<le> x \<Longrightarrow> x \<le> NGX_MAX_OFF_T_VALUE \<Longrightarrow> off_wrap x = x"
  by (simp add: off_wrap_def NGX_MAX_OFF_T_VALUE_def signed_of_int signed_take_bit_int_eq_self)

lemma off_wrap_add: "off_wrap (off_wrap x + y) = off_wrap (x + y)"
  by (simp add: off_wrap_def)

lemma off_wrap_wrap [simp]: "off_wrap (off_wrap x) = off_wrap x"
  by (simp add: off_wrap_def)

lemma skip_blanks: "c \<noteq> ch CHR '' '' \<Longrightarrow> rd_spaces (blanks k @ c # p) = Got (c # p)"
  by (induction k) (simp_all add: blanks_def)

lemma rd_off_digit:
  assumes d: "is_digit d" and v: "0 \<le> v" and le: "v * 10 + digit d \<le> NGX_MAX_OFF_T_VALUE"
  shows "rd_off v ((d # a) @ p) = rd_off (v * 10 + digit d) (a @ p)"
proof -
  note r = digit_range[OF d]
  have M: "0 \<le> NGX_MAX_OFF_T_VALUE" by (simp add: NGX_MAX_OFF_T_VALUE_def)
  have "off_wrap (off_wrap (v * 10 + uint d) + - uint (ch CHR ''0'')) = off_wrap (v * 10 + digit d)"
    unfolding off_wrap_add by (simp add: digit_def add_diff_eq)
  also have "\<dots> = v * 10 + digit d" using v le r M by (intro off_wrap_id) auto
  finally have w: "off_wrap (off_wrap (v * 10 + uint d) - uint (ch CHR ''0'')) = v * 10 + digit d" by simp
  have nocut: "\<not> (v \<ge> NGX_MAX_OFF_T_VALUE div 10 \<and> (v > NGX_MAX_OFF_T_VALUE div 10 \<or> digit d > NGX_MAX_OFF_T_VALUE mod 10))"
    using le cutoff_exact[of "digit d" NGX_MAX_OFF_T_VALUE v] r by linarith
  show ?thesis unfolding append_Cons rd_off.simps(2) Let_def w if_not_P[OF nocut] using d by simp
qed

lemma rd_off_number:
  assumes "list_all is_digit a" "0 \<le> v" "v \<le> NGX_MAX_OFF_T_VALUE" "dec_from v a \<le> NGX_MAX_OFF_T_VALUE" "\<not> is_digit c"
  shows "rd_off v (a @ c # p) = Got (dec_from v a, c # p)"
  using assms(1-4)
proof (induction a arbitrary: v)
  case Nil
  then show ?case using assms(5) by simp
next
  case (Cons d a)
  have d: "is_digit d" using Cons.prems by simp
  note r = digit_range[OF d]
  have le: "v * 10 + digit d \<le> dec_from (v * 10 + digit d) a" using Cons.prems r by (intro dec_from_ge) auto
  have "v * 10 + digit d \<le> NGX_MAX_OFF_T_VALUE" using le Cons.prems by simp
  note step = rd_off_digit[OF d Cons.prems(2) this]
  have "rd_off v ((d # a) @ c # p) = rd_off (v * 10 + digit d) (a @ c # p)" using step by simp
  then show ?case using Cons.IH[of "v * 10 + digit d"] Cons.prems le r by simp
qed

lemma rd_off_ok: "number_ok a \<Longrightarrow> \<not> is_digit c \<Longrightarrow> rd_off 0 (a @ c # p) = Got (dec_from 0 a, c # p)"
  by (rule rd_off_number) (simp_all add: number_ok_def NGX_MAX_OFF_T_VALUE_def)

lemma not_digit [simp]: "\<not> is_digit (ch CHR '' '')" "\<not> is_digit (ch CHR ''-'')" "\<not> is_digit (ch CHR '','')" "\<not> is_digit 0"
  by (simp_all add: is_digit_def)

lemma after_number:
  assumes "number_ok a" "c \<noteq> ch CHR '' ''" "\<not> is_digit c"
  shows "and_then (rd_off 0 (a @ blanks k @ c # p)) (\<lambda>(v, p). and_then (rd_spaces p) (f v)) = f (dec_from 0 a) (c # p)"
proof (cases k)
  case 0
  then show ?thesis using rd_off_ok[OF assms(1,3), of p] assms(2) by (simp add: blanks_def)
next
  case (Suc n)
  have "rd_off 0 (a @ ch CHR '' '' # blanks n @ c # p) = Got (dec_from 0 a, ch CHR '' '' # blanks n @ c # p)"
    by (rule rd_off_ok[OF assms(1) not_digit(1)])
  then show ?thesis using skip_blanks[OF assms(2), of n p] Suc by (simp add: blanks_def)
qed

lemma number_first:
  assumes "number_ok a"
  obtains d ds where "a = d # ds" "is_digit d" "d \<noteq> ch CHR '' ''" "d \<noteq> ch CHR ''-''"
proof (cases a)
  case (Cons d ds)
  have d: "is_digit d" using assms Cons by (simp add: number_ok_def)
  then have "d \<noteq> ch CHR '' ''" "d \<noteq> ch CHR ''-''" using not_digit(1,2) by metis+
  then show thesis using that[OF Cons d] by blast
qed (use assms in \<open>simp add: number_ok_def\<close>)

lemma range_last_text:
  assumes "number_ok a" "c = ch CHR '','' \<or> c = 0"
  shows "range_last cl suffix st (a @ blanks k @ c # p) =
    (let (st, e) = (if suffix then (cl - dec_from 0 a, cl - 1) else (st, dec_from 0 a)) in
     Got (st, if e \<ge> cl then cl else e + 1, c # p))"
proof -
  obtain d ds where d: "a = d # ds" "is_digit d" by (rule number_first[OF assms(1)])
  have c: "c \<noteq> ch CHR '' ''" "\<not> is_digit c" using assms(2) by (auto simp: is_digit_def)
  have "range_last cl suffix st (a @ blanks k @ c # p) =
    and_then (rd_off 0 (a @ blanks k @ c # p)) (\<lambda>(e, p). and_then (rd_spaces p) (\<lambda>p.
      if hd p \<noteq> ch CHR '','' \<and> hd p \<noteq> 0 then Refused
      else let (start, e) = (if suffix then (cl - e, cl - 1) else (st, e));
                  e = (if e \<ge> cl then cl else e + 1)
              in Got (start, e, p)))"
    using d by (simp add: range_last_def)
  also have "\<dots> = (let (start, e) = (if suffix then (cl - dec_from 0 a, cl - 1) else (st, dec_from 0 a));
                  e = (if e \<ge> cl then cl else e + 1)
              in Got (start, e, c # p))"
    unfolding after_number[OF assms(1) c] using assms(2) by auto
  finally show ?thesis by (simp add: Let_def split: prod.split)
qed

lemma item_from:
  assumes "number_ok a" "c = ch CHR '','' \<or> c = 0"
  shows "range_item cl (range_chars (i, From a, j, k, l) @ c # p) = Got (dec_from 0 a, cl, c # p)"
proof -
  obtain d ds where d: "a = d # ds" "is_digit d" "d \<noteq> ch CHR '' ''" "d \<noteq> ch CHR ''-''" by (rule number_first[OF assms(1)])
  have c: "c \<noteq> ch CHR '' ''" using assms(2) by auto
  define q where "q = ch CHR ''-'' # blanks k @ c # p"
  have sk: "rd_spaces (blanks i @ a @ blanks j @ q) = Got (a @ blanks j @ q)"
    using skip_blanks[OF d(3)] d(1) by simp
  have hd: "hd (a @ blanks j @ q) = d" using d by simp
  have num: "and_then (rd_off 0 (a @ blanks j @ q)) (\<lambda>(v, p). and_then (rd_spaces p) (f v)) = f (dec_from 0 a) q" for f :: "int \<Rightarrow> bytes \<Rightarrow> (int \<times> int \<times> bytes) read"
    unfolding q_def by (rule after_number[OF assms(1) _ not_digit(2)]) simp
  have "range_item cl (blanks i @ a @ blanks j @ q) =
     and_then (rd_char (ch CHR ''-'') q) (\<lambda>p. and_then (rd_spaces p) (\<lambda>p.
        if hd p = ch CHR '','' \<or> hd p = 0 then Got (dec_from 0 a, cl, p) else range_last cl False (dec_from 0 a) p))"
    unfolding range_item_def sk and_then.simps hd if_P[OF d(4)] num using d(2) by simp
  then show ?thesis using skip_blanks[OF c, of k p] assms(2) by (auto simp: q_def)
qed

lemma item_between:
  assumes "number_ok a" "number_ok b" "c = ch CHR '','' \<or> c = 0"
  shows "range_item cl (range_chars (i, Between a b, j, k, l) @ c # p) =
    Got (dec_from 0 a, if dec_from 0 b \<ge> cl then cl else dec_from 0 b + 1, c # p)"
proof -
  obtain d ds where d: "a = d # ds" "is_digit d" "d \<noteq> ch CHR '' ''" "d \<noteq> ch CHR ''-''" by (rule number_first[OF assms(1)])
  obtain e es where e: "b = e # es" "is_digit e" "e \<noteq> ch CHR '' ''" by (rule number_first[OF assms(2)])
  have nd: "e \<noteq> ch CHR '',''" "e \<noteq> 0" using e(2) not_digit(3,4) by metis+
  define r where "r = b @ blanks l @ c # p"
  define q where "q = ch CHR ''-'' # blanks k @ r"
  have sk: "rd_spaces (blanks i @ a @ blanks j @ q) = Got (a @ blanks j @ q)"
    using skip_blanks[OF d(3)] d(1) by simp
  have hd: "hd (a @ blanks j @ q) = d" using d by simp
  have num: "and_then (rd_off 0 (a @ blanks j @ q)) (\<lambda>(v, p). and_then (rd_spaces p) (f v)) = f (dec_from 0 a) q" for f :: "int \<Rightarrow> bytes \<Rightarrow> (int \<times> int \<times> bytes) read"
    unfolding q_def by (rule after_number[OF assms(1) _ not_digit(2)]) simp
  have "range_item cl (blanks i @ a @ blanks j @ q) =
     and_then (rd_char (ch CHR ''-'') q) (\<lambda>p. and_then (rd_spaces p) (\<lambda>p.
        if hd p = ch CHR '','' \<or> hd p = 0 then Got (dec_from 0 a, cl, p) else range_last cl False (dec_from 0 a) p))"
    unfolding range_item_def sk and_then.simps hd if_P[OF d(4)] num using d(2) by simp
  moreover have "rd_spaces (blanks k @ r) = Got r" using skip_blanks[OF e(3)] e(1) by (simp add: r_def)
  moreover have "hd r = e" by (simp add: r_def e(1))
  moreover have "range_last cl False (dec_from 0 a) r = Got (dec_from 0 a, if dec_from 0 b \<ge> cl then cl else dec_from 0 b + 1, c # p)"
    unfolding r_def range_last_text[OF assms(2,3)] by simp
  ultimately show ?thesis using nd by (simp add: q_def r_def)
qed

lemma item_suffix:
  assumes "number_ok a" "c = ch CHR '','' \<or> c = 0"
  shows "range_item cl (range_chars (i, Suffix a, j, k, l) @ c # p) = Got (cl - dec_from 0 a, cl, c # p)"
proof -
  have sk: "rd_spaces (blanks i @ ch CHR ''-'' # a @ blanks l @ c # p) = Got (ch CHR ''-'' # a @ blanks l @ c # p)"
    by (rule skip_blanks) simp
  have "range_last cl True 0 (a @ blanks l @ c # p) = Got (cl - dec_from 0 a, cl, c # p)"
    unfolding range_last_text[OF assms] by simp
  then show ?thesis using sk by (simp add: range_item_def)
qed

lemma range_item_text:
  assumes "spec_ok (fst (snd x))" "c = ch CHR '','' \<or> c = 0"
  shows "range_item cl (range_chars x @ c # p) =
    Got (r_start (spec_range cl (fst (snd x))), r_end (spec_range cl (fst (snd x))), c # p)"
proof -
  obtain i s j k l where x: "x = (i, s, j, k, l)" by (cases x)
  show ?thesis using assms(1) item_from[OF _ assms(2)] item_between[OF _ _ assms(2)] item_suffix[OF _ assms(2)]
    unfolding x by (cases s) auto
qed

section \<open>The list of ranges\<close>

lemma ranges_size_simps [simp]:
  "ranges_size [] = 0" "ranges_size (r # rs) = (r_end r - r_start r) + ranges_size rs"
  "ranges_size (rs @ rs') = ranges_size rs + ranges_size rs'"
  by (simp_all add: ranges_size_def)

definition ranges_verdict :: "int \<Rightarrow> ngx_uint \<Rightarrow> int \<Rightarrow> http_range list \<Rightarrow> http_range list \<Rightarrow> int \<times> http_range list" where
  "ranges_verdict cl n sz seen new =
     (if unat n < length new then (NGX_DECLINED, [])
      else if seen @ new = [] then (NGX_HTTP_RANGE_NOT_SATISFIABLE, [])
      else if off_wrap (sz + ranges_size new) > cl then (NGX_DECLINED, [])
      else (NGX_OK, seen @ new))"

lemma kept_ranges_Cons: "kept_ranges cl (x # xs) =
    (let r = spec_range cl (fst (snd x)) in if r_start r < r_end r then r # kept_ranges cl xs else kept_ranges cl xs)"
  by (simp add: kept_ranges_def Let_def)

lemma kept_ranges_Nil [simp]: "kept_ranges cl [] = []"
  by (simp add: kept_ranges_def)

lemma push_text:
  assumes "\<And>k. alloc k"
  shows "range_push alloc (r_start r) (r_end r) n sz rs =
    (if r_start r < r_end r then
       (if n = 0 then Inl NGX_DECLINED else Inr (n - 1, off_wrap (sz + (r_end r - r_start r)), rs @ [r]))
     else Inr (n, sz, rs))"
  using assms by (simp add: range_push_def)

lemma verdict_push:
  assumes "n \<noteq> 0"
  shows "ranges_verdict cl (n - 1) (off_wrap (sz + (r_end r - r_start r))) (rs @ [r]) new = ranges_verdict cl n sz rs (r # new)"
proof -
  have "0 < unat n" using assms by (simp add: unat_gt_0)
  then have "unat (n - 1) < length new \<longleftrightarrow> unat n < length (r # new)"
    using unat_minus_one[OF assms] by (simp add: less_diff_conv2)
  then show ?thesis by (simp add: ranges_verdict_def off_wrap_add add.assoc)
qed

definition loop_end :: "int \<Rightarrow> int \<Rightarrow> http_range list \<Rightarrow> int \<times> http_range list" where
  "loop_end cl sz rs =
     (if rs = [] then (NGX_HTTP_RANGE_NOT_SATISFIABLE, []) else if sz > cl then (NGX_DECLINED, []) else (NGX_OK, rs))"

lemma loop_step:
  assumes "range_item cl p = Got (r_start r, r_end r, q)" "\<And>k. alloc k"
  shows "range_loop alloc cl p n sz rs =
    (if r_start r < r_end r then
       (if n = 0 then Some (NGX_DECLINED, [])
        else if hd q = ch CHR '','' then range_loop alloc cl (tl q) (n - 1) (off_wrap (sz + (r_end r - r_start r))) (rs @ [r])
        else Some (loop_end cl (off_wrap (sz + (r_end r - r_start r))) (rs @ [r])))
     else if hd q = ch CHR '','' then range_loop alloc cl (tl q) n sz rs
     else Some (loop_end cl sz rs))"
  unfolding range_loop.simps[of _ _ p] assms(1) read.case prod.case push_text[of alloc, OF assms(2)] by (simp add: loop_end_def)

lemma verdict_end: "sz = off_wrap sz \<Longrightarrow> loop_end cl sz rs = ranges_verdict cl n sz rs []"
  by (simp add: loop_end_def ranges_verdict_def)

lemma range_loop_text:
  assumes "\<And>k. alloc k"
  shows "xs \<noteq> [] \<Longrightarrow> \<forall>x \<in> set xs. spec_ok (fst (snd x)) \<Longrightarrow> sz = off_wrap sz \<Longrightarrow>
    range_loop alloc cl (ranges_chars xs @ [0]) n sz rs = Some (ranges_verdict cl n sz rs (kept_ranges cl xs))"
proof (induction xs arbitrary: n sz rs rule: ranges_chars.induct)
  case (2 x)
  define r where "r = spec_range cl (fst (snd x))"
  have item: "range_item cl (range_chars x @ [0]) = Got (r_start r, r_end r, [0])"
    unfolding r_def using 2 by (intro range_item_text) auto
  have kept: "kept_ranges cl [x] = (if r_start r < r_end r then [r] else [])"
    by (simp add: kept_ranges_Cons Let_def r_def)
  have full: "n = 0 \<Longrightarrow> ranges_verdict cl n sz rs [r] = (NGX_DECLINED, [])" by (simp add: ranges_verdict_def)
  have one: "loop_end cl (off_wrap (sz + (r_end r - r_start r))) (rs @ [r]) = ranges_verdict cl n sz rs [r]" if "n \<noteq> 0"
    using verdict_end[of "off_wrap (sz + (r_end r - r_start r))" cl "rs @ [r]" "n - 1"] verdict_push[OF that, of cl sz r rs "[]"] by simp
  show ?case unfolding ranges_chars.simps loop_step[OF item assms] kept
    using full one verdict_end[OF 2(3), of cl rs n] by simp
next
  case (3 x y xs)
  define r where "r = spec_range cl (fst (snd x))"
  define p where "p = ranges_chars (y # xs) @ [0]"
  have item: "range_item cl (range_chars x @ ch CHR '','' # p) = Got (r_start r, r_end r, ch CHR '','' # p)"
    unfolding r_def using 3 by (intro range_item_text) auto
  have chars: "ranges_chars (x # y # xs) @ [0] = range_chars x @ ch CHR '','' # p" by (simp add: p_def)
  have ok: "\<forall>x \<in> set (y # xs). spec_ok (fst (snd x))" using 3 by simp
  note IH = 3(1)[OF _ ok, folded p_def]
  have kept: "kept_ranges cl (x # y # xs) = (if r_start r < r_end r then r # kept_ranges cl (y # xs) else kept_ranges cl (y # xs))"
    by (simp add: kept_ranges_Cons[of cl x] Let_def r_def)
  have full: "n = 0 \<Longrightarrow> ranges_verdict cl n sz rs (r # new) = (NGX_DECLINED, [])" for new by (simp add: ranges_verdict_def)
  have go: "range_loop alloc cl p (n - 1) (off_wrap (sz + (r_end r - r_start r))) (rs @ [r]) =
      Some (ranges_verdict cl n sz rs (r # kept_ranges cl (y # xs)))" if "n \<noteq> 0"
    using IH[of "off_wrap (sz + (r_end r - r_start r))" "n - 1" "rs @ [r]"] verdict_push[OF that, of cl sz r rs "kept_ranges cl (y # xs)"] by simp
  have stay: "range_loop alloc cl p n sz rs = Some (ranges_verdict cl n sz rs (kept_ranges cl (y # xs)))"
    using 3(4) by (intro IH) simp_all
  show ?case unfolding chars loop_step[OF item assms] list.sel kept using full go stay by simp
qed simp

text \<open>A number that does not fit is refused, and with it the header, unless too many ranges came before.\<close>

lemma rd_off_big:
  "list_all is_digit a \<Longrightarrow> 0 \<le> v \<Longrightarrow> v \<le> NGX_MAX_OFF_T_VALUE \<Longrightarrow> \<not> dec_from v a \<le> NGX_MAX_OFF_T_VALUE \<Longrightarrow> rd_off v (a @ p) = Refused"
proof (induction a arbitrary: v)
  case (Cons d a)
  have d: "is_digit d" using Cons.prems by simp
  note r = digit_range[OF d]
  show ?case
  proof (cases "v * 10 + digit d \<le> NGX_MAX_OFF_T_VALUE")
    case True
    have "rd_off v ((d # a) @ p) = rd_off (v * 10 + digit d) (a @ p)" by (rule rd_off_digit[OF d Cons.prems(2) True])
    then show ?thesis using Cons.IH[OF _ _ True] Cons.prems r by simp
  next
    case False
    then have "v \<ge> NGX_MAX_OFF_T_VALUE div 10 \<and> (v > NGX_MAX_OFF_T_VALUE div 10 \<or> digit d > NGX_MAX_OFF_T_VALUE mod 10)"
      using cutoff_exact[of "digit d" NGX_MAX_OFF_T_VALUE v] r by linarith
    then show ?thesis using d by (simp add: Let_def)
  qed
qed simp

lemma digits_big: "digits_ok a \<Longrightarrow> \<not> number_ok a \<Longrightarrow> rd_off 0 (a @ p) = Refused"
  by (rule rd_off_big) (simp_all add: digits_ok_def number_ok_def NGX_MAX_OFF_T_VALUE_def)

lemma digits_first:
  assumes "digits_ok a"
  obtains d ds where "a = d # ds" "is_digit d" "d \<noteq> ch CHR '' ''" "d \<noteq> ch CHR ''-''" "d \<noteq> ch CHR '',''" "d \<noteq> 0"
proof (cases a)
  case (Cons d ds)
  have d: "is_digit d" using assms Cons by (simp add: digits_ok_def)
  then have "d \<noteq> ch CHR '' ''" "d \<noteq> ch CHR ''-''" "d \<noteq> ch CHR '',''" "d \<noteq> 0" using not_digit by metis+
  then show thesis using that[OF Cons d] by blast
qed (use assms in \<open>simp add: digits_ok_def\<close>)

lemma range_last_big: "digits_ok a \<Longrightarrow> \<not> number_ok a \<Longrightarrow> range_last cl suffix st (a @ p) = Refused"
proof -
  assume a: "digits_ok a" "\<not> number_ok a"
  obtain d ds where d: "a = d # ds" "is_digit d" by (rule digits_first[OF a(1)])
  show ?thesis using d digits_big[OF a, of p] by (simp add: range_last_def del: rd_off.simps)
qed

lemma item_big:
  assumes "form_ok (fst (snd x))" "\<not> spec_ok (fst (snd x))"
  shows "range_item cl (range_chars x @ p) = Refused"
proof -
  have start: "range_item cl (blanks i @ a @ q) = Refused" if a: "digits_ok a" "\<not> number_ok a" for i a q
  proof -
    obtain d ds where d: "a = d # ds" "is_digit d" "d \<noteq> ch CHR '' ''" "d \<noteq> ch CHR ''-''" by (rule digits_first[OF a(1)])
    show ?thesis using d skip_blanks[OF d(3), of i "ds @ q"] digits_big[OF a, of q] by (simp add: range_item_def del: rd_off.simps)
  qed
  have second: "range_item cl (blanks i @ a @ blanks j @ ch CHR ''-'' # blanks k @ b @ q) = Refused"
    if a: "number_ok a" and b: "digits_ok b" "\<not> number_ok b" for i a j k b q
  proof -
    obtain d ds where d: "a = d # ds" "is_digit d" "d \<noteq> ch CHR '' ''" "d \<noteq> ch CHR ''-''" by (rule number_first[OF a])
    obtain e es where e: "b = e # es" "e \<noteq> ch CHR '' ''" "e \<noteq> ch CHR '',''" "e \<noteq> 0" by (rule digits_first[OF b(1)])
    define r where "r = ch CHR ''-'' # blanks k @ b @ q"
    have sk: "rd_spaces (blanks i @ a @ blanks j @ r) = Got (a @ blanks j @ r)" using skip_blanks[OF d(3)] d(1) by simp
    have hd: "hd (a @ blanks j @ r) = d" using d by simp
    have num: "and_then (rd_off 0 (a @ blanks j @ r)) (\<lambda>(v, p). and_then (rd_spaces p) (f v)) = f (dec_from 0 a) r" for f :: "int \<Rightarrow> bytes \<Rightarrow> (int \<times> int \<times> bytes) read"
      unfolding r_def by (rule after_number[OF a _ not_digit(2)]) simp
    have sk': "rd_spaces (blanks k @ b @ q) = Got (b @ q)" using skip_blanks[OF e(2)] e(1) by simp
    have "range_item cl (blanks i @ a @ blanks j @ r) = range_last cl False (dec_from 0 a) (b @ q)"
      unfolding range_item_def sk and_then.simps hd if_P[OF d(4)] num using d(2) e sk' by (simp add: r_def)
    then show ?thesis using range_last_big[OF b] by (simp add: r_def)
  qed
  have suffix: "range_item cl (blanks i @ ch CHR ''-'' # a @ q) = Refused" if "digits_ok a" "\<not> number_ok a" for i a q
    using skip_blanks[of "ch CHR ''-''" i] range_last_big[OF that] by (simp add: range_item_def)
  obtain i s j k l where x: "x = (i, s, j, k, l)" by (cases x)
  show ?thesis
  proof (cases s)
    case (From a)
    then show ?thesis using assms x start[of a i "blanks j @ ch CHR ''-'' # blanks k @ p"] by simp
  next
    case (Between a b)
    then show ?thesis using assms x start[of a i "blanks j @ ch CHR ''-'' # blanks k @ b @ blanks l @ p"] second[of a b i j k "blanks l @ p"]
      by (cases "number_ok a") simp_all
  next
    case (Suffix a)
    then show ?thesis using assms x suffix[of a i "blanks l @ p"] by simp
  qed
qed

lemma range_loop_big:
  assumes "\<And>k. alloc k" "form_ok (fst (snd b))" "\<not> spec_ok (fst (snd b))"
  shows "\<forall>x \<in> set ys. spec_ok (fst (snd x)) \<Longrightarrow>
    range_loop alloc cl (ranges_chars (ys @ b # zs) @ [0]) n sz rs =
      Some (if unat n < length (kept_ranges cl ys) then NGX_DECLINED else NGX_HTTP_RANGE_NOT_SATISFIABLE, [])"
proof (induction ys arbitrary: n sz rs)
  case Nil
  have "\<exists>q. ranges_chars (b # zs) @ [0] = range_chars b @ q" by (cases zs) auto
  then show ?case using item_big[OF assms(2,3)] by (auto simp: range_loop.simps)
next
  case (Cons x ys)
  define r where "r = spec_range cl (fst (snd x))"
  define p where "p = ranges_chars (ys @ b # zs) @ [0]"
  have chars: "ranges_chars ((x # ys) @ b # zs) @ [0] = range_chars x @ ch CHR '','' # p" unfolding p_def by (cases ys) auto
  have item: "range_item cl (range_chars x @ ch CHR '','' # p) = Got (r_start r, r_end r, ch CHR '','' # p)"
    unfolding r_def using Cons.prems by (intro range_item_text) auto
  have kept: "kept_ranges cl (x # ys) = (if r_start r < r_end r then r # kept_ranges cl ys else kept_ranges cl ys)"
    by (simp add: kept_ranges_Cons Let_def r_def)
  have pred: "n \<noteq> 0 \<Longrightarrow> unat (n - 1) < m \<longleftrightarrow> unat n < Suc m" for m
    using unat_minus_one[of n] unat_gt_0[of n] by (simp add: less_diff_conv2)
  note IH = Cons.IH[folded p_def]
  show ?case unfolding chars loop_step[OF item assms(1)] list.sel kept using IH Cons.prems pred by simp
qed

text \<open>
  Property C10 (functional).  The header \<^verbatim>\<open>Range\<close> means what it says.  Of every list of ranges \<^verbatim>\<open>a-b\<close>,
  \<^verbatim>\<open>a-\<close> and \<^verbatim>\<open>-a\<close> behind the six bytes of the unit, with any blanks the parser allows and numbers of any size, when memory is
  there: the ranges before the first one with a number that 63 bits do not hold, and that hold a byte, are kept in the order of the header,
  cut at the end of the text: the last byte is included and a number past the end stands for the end.  If more than
  the allowed number is kept the header is ignored; else if a number is too large, or if none is kept, the answer is 416; else, if the sum of the
  sizes (in 64 bits, as compiled) is more than the text, the header is ignored; else those are the ranges.
\<close>
theorem range_parse_exact:
  assumes "length unit = 6" and "xs \<noteq> []" and "\<forall>x \<in> set xs. form_ok (fst (snd x))" and "\<And>k. alloc k"
  shows "ngx_http_range_parse alloc None (unit @ ranges_chars xs) cl n =
    (let good = takeWhile (\<lambda>x. spec_ok (fst (snd x))) xs; rs = kept_ranges cl good in
     Some (if unat n < length rs then (NGX_DECLINED, [])
           else if good \<noteq> xs \<or> rs = [] then (NGX_HTTP_RANGE_NOT_SATISFIABLE, [])
           else if off_wrap (ranges_size rs) > cl then (NGX_DECLINED, [])
           else (NGX_OK, rs)))"
proof -
  have start: "ngx_http_range_parse alloc None (unit @ ranges_chars xs) cl n = range_loop alloc cl (ranges_chars xs @ [0]) n 0 []"
    using assms(1) by (simp add: ngx_http_range_parse_def)
  define good where "good = takeWhile (\<lambda>x. spec_ok (fst (snd x))) xs"
  have ok: "\<forall>x \<in> set good. spec_ok (fst (snd x))" unfolding good_def by (meson set_takeWhileD)
  have sz: "0 = off_wrap 0" by (simp add: off_wrap_def)
  show ?thesis
  proof (cases "good = xs")
    case True
    then show ?thesis using range_loop_text[of alloc xs 0 cl n "[]", OF assms(4,2) _ sz] ok start
      by (simp add: ranges_verdict_def Let_def flip: good_def)
  next
    case False
    then obtain b zs where xs: "xs = good @ b # zs" and b: "\<not> spec_ok (fst (snd b))"
      unfolding good_def by (metis (no_types, lifting) takeWhile_dropWhile_id append_Nil2 list.exhaust hd_dropWhile list.sel(1) list.distinct(1))
    have "form_ok (fst (snd b))" using assms(3) xs by (metis in_set_conv_decomp)
    from range_loop_big[of alloc b good cl zs n 0 "[]", OF assms(4) this b ok] show ?thesis
      using False start by (simp add: Let_def flip: good_def xs)
  qed
qed

lemma range_parse_exact_witness:
  "ngx_http_range_parse (\<lambda>k. True) None
     (chars ''bytes='' @ ranges_chars [(1, Between (chars ''0'') (chars ''9''), 0, 2, 0), (0, Suffix (chars ''5''), 0, 0, 1)]) 100 8 =
   Some (NGX_OK, [\<lparr> r_start = 0, r_end = 10 \<rparr>, \<lparr> r_start = 95, r_end = 100 \<rparr>])"
proof -
  have ok: "\<forall>x \<in> set [(1, Between (chars ''0'') (chars ''9''), 0, 2, 0), (0, Suffix (chars ''5''), 0, 0, 1)]. form_ok (fst (snd x))"
    by code_simp
  have good: "takeWhile (\<lambda>x. spec_ok (fst (snd x))) ([(1, Between (chars ''0'') (chars ''9''), 0, 2, 0), (0, Suffix (chars ''5''), 0, 0, 1)] :: range_text list) =
    [(1, Between (chars ''0'') (chars ''9''), 0, 2, 0), (0, Suffix (chars ''5''), 0, 0, 1)]" by code_simp
  have kept: "kept_ranges 100 [(1, Between (chars ''0'') (chars ''9''), 0, 2, 0), (0, Suffix (chars ''5''), 0, 0, 1)] =
    [\<lparr> r_start = 0, r_end = 10 \<rparr>, \<lparr> r_start = 95, r_end = 100 \<rparr>]" by code_simp
  have "length (chars ''bytes='') = 6" by code_simp
  then show ?thesis using range_parse_exact[OF _ _ ok, of "chars ''bytes=''" "\<lambda>k. True" 100 8] unfolding good Let_def kept
    by (simp add: off_wrap_def)
qed

section \<open>Any value of the header\<close>

definition ends_nul :: "bytes \<Rightarrow> bool" where
  "ends_nul p \<longleftrightarrow> p \<noteq> [] \<and> last p = 0"

lemma ends_nul_Cons: "ends_nul (c # p) \<longleftrightarrow> c = 0 \<and> p = [] \<or> ends_nul p"
  by (auto simp: ends_nul_def)

lemma skip_spaces_nul: "ends_nul p \<Longrightarrow> \<exists>q. rd_spaces p = Got q \<and> ends_nul q"
  by (induction p) (auto simp: ends_nul_Cons ends_nul_def split: if_splits)

lemma rd_off_nul: "ends_nul p \<Longrightarrow> rd_off v p = Refused \<or> (\<exists>e q. rd_off v p = Got (e, q) \<and> ends_nul q)"
proof (induction p arbitrary: v)
  case (Cons c p)
  show ?case
  proof (cases "is_digit c")
    case True
    then have "c \<noteq> 0" by (auto simp: is_digit_def)
    then have "ends_nul p" using Cons.prems by (simp add: ends_nul_Cons)
    from Cons.IH[OF this] show ?thesis using True by (simp add: Let_def)
  next
    case False
    then show ?thesis using Cons.prems by (simp add: Let_def)
  qed
qed (simp add: ends_nul_def)

definition stays :: "(int \<times> int \<times> bytes) read \<Rightarrow> bool" where
  "stays m \<longleftrightarrow> m = Refused \<or> (\<exists>s e q. m = Got (s, e, q) \<and> ends_nul q)"

lemma stays_skip: "ends_nul p \<Longrightarrow> (\<And>q. ends_nul q \<Longrightarrow> stays (f q)) \<Longrightarrow> stays (and_then (rd_spaces p) f)"
  using skip_spaces_nul by (metis and_then.simps(3))

lemma stays_off: "ends_nul p \<Longrightarrow> (\<And>e q. ends_nul q \<Longrightarrow> stays (f e q)) \<Longrightarrow> stays (and_then (rd_off v p) (\<lambda>(e, q). f e q))"
  using rd_off_nul[of p v] by (metis and_then.simps(2,3) case_prod_conv stays_def)

lemma stays_char: "ends_nul p \<Longrightarrow> c \<noteq> 0 \<Longrightarrow> (\<And>q. ends_nul q \<Longrightarrow> stays (f q)) \<Longrightarrow> stays (and_then (rd_char c p) f)"
  by (cases p) (auto simp: stays_def ends_nul_Cons, auto simp: ends_nul_def)

lemma stays_Refused [simp]: "stays Refused" and stays_Got [simp]: "stays (Got (s, e, q)) \<longleftrightarrow> ends_nul q"
  by (auto simp: stays_def)

lemma range_last_stays:
  assumes "ends_nul p"
  shows "stays (range_last cl sf st p)"
proof -
  obtain c q where p: "p = c # q" using assms by (cases p) (auto simp: ends_nul_def)
  have "stays (and_then (rd_off 0 p) (\<lambda>(e, p). and_then (rd_spaces p) (\<lambda>p.
      if hd p \<noteq> ch CHR '','' \<and> hd p \<noteq> 0 then Refused
      else let (start, e) = (if sf then (cl - e, cl - 1) else (st, e));
               e = (if e \<ge> cl then cl else e + 1)
           in Got (start, e, p))))"
    by (intro stays_off[OF assms] stays_skip) (simp_all add: Let_def split: prod.split)
  then show ?thesis by (simp add: range_last_def p del: rd_off.simps)
qed

lemma ends_nul_tl: "ends_nul p \<Longrightarrow> hd p \<noteq> 0 \<Longrightarrow> ends_nul (tl p)"
  by (cases p) (auto simp: ends_nul_def split: if_splits)

lemma range_item_stays: "ends_nul p \<Longrightarrow> stays (range_item cl p)"
  unfolding range_item_def
  by (rule stays_skip, assumption)
     (auto intro!: stays_off stays_skip stays_char range_last_stays ends_nul_tl)

definition verdict_ok :: "int \<times> http_range list \<Rightarrow> bool" where
  "verdict_ok x = (case x of (rc, rs) \<Rightarrow>
     rc = NGX_OK \<and> rs \<noteq> [] \<or> rc \<in> {NGX_HTTP_RANGE_NOT_SATISFIABLE, NGX_DECLINED, NGX_ERROR} \<and> rs = [])"

lemma push_codes: "range_push alloc s e n sz rs = Inl rc \<Longrightarrow> rc \<in> {NGX_DECLINED, NGX_ERROR}"
  by (auto simp: range_push_def split: if_splits)

lemma loop_returns: "ends_nul p \<Longrightarrow> \<exists>x. range_loop alloc cl p n sz rs = Some x \<and> verdict_ok x"
proof (induction alloc cl p n sz rs rule: range_loop.induct)
  case (1 alloc cl p n sz rs)
  consider "range_item cl p = Refused" | s e q where "range_item cl p = Got (s, e, q)" "ends_nul q"
    using range_item_stays[OF 1(2), of cl] by (auto simp: stays_def)
  then show ?case
  proof cases
    case 1
    then show ?thesis by (simp add: range_loop.simps[of _ _ p] verdict_ok_def)
  next
    case 2
    note item = 2
    show ?thesis
    proof (cases "range_push alloc s e n sz rs")
      case (Inl rc)
      then show ?thesis using push_codes[OF Inl] item by (auto simp: range_loop.simps[of _ _ p] verdict_ok_def)
    next
      case (Inr b)
      obtain n' sz' rs' where b: "b = (n', sz', rs')" by (cases b)
      show ?thesis
      proof (cases "hd q = ch CHR '','' ")
        case True
        have "ends_nul (tl q)" using item(2) True by (intro ends_nul_tl) auto
        from 1(1)[OF item(1) refl refl Inr[unfolded b] refl refl True this]
        show ?thesis using True item Inr b by (simp add: range_loop.simps[of _ _ p])
      next
        case False
        then show ?thesis using item Inr b by (simp add: range_loop.simps[of _ _ p] verdict_ok_def)
      qed
    qed
  qed
qed

text \<open>
  Property C11 (termination).  Whatever the value of the header \<^verbatim>\<open>Range\<close> is, the loop over its ranges ends, reads
  no byte past the NUL that follows the value, and returns one of its four codes; the ranges it returns
  are not empty in number when the code is NGX_OK.
\<close>
theorem range_parse_returns:
  "\<exists>rc rs. ngx_http_range_parse alloc None val cl n = Some (rc, rs) \<and>
     (rc = NGX_OK \<and> rs \<noteq> [] \<or> rc \<in> {NGX_HTTP_RANGE_NOT_SATISFIABLE, NGX_DECLINED, NGX_ERROR} \<and> rs = [])"
proof -
  have "ends_nul (drop 6 val @ [0])" by (simp add: ends_nul_def)
  then obtain x where "range_loop alloc cl (drop 6 val @ [0]) n 0 [] = Some x" "verdict_ok x"
    using loop_returns by blast
  then show ?thesis by (auto simp: ngx_http_range_parse_def verdict_ok_def split: prod.splits)
qed


lemma rd_off_step:
  assumes "is_digit d" "0 \<le> v"
    "\<not> (v \<ge> NGX_MAX_OFF_T_VALUE div 10 \<and> (v > NGX_MAX_OFF_T_VALUE div 10 \<or> digit d > NGX_MAX_OFF_T_VALUE mod 10))"
  shows "off_wrap (off_wrap (v * 10 + uint d) - uint (ch CHR ''0'')) = v * 10 + digit d"
    "0 \<le> v * 10 + digit d \<and> v * 10 + digit d \<le> NGX_MAX_OFF_T_VALUE"
proof -
  note r = digit_range[OF assms(1)]
  have "\<not> NGX_MAX_OFF_T_VALUE < v * 10 + digit d"
    using cutoff_exact[of "digit d" NGX_MAX_OFF_T_VALUE v] r assms(3) by blast
  then have le: "v * 10 + digit d \<le> NGX_MAX_OFF_T_VALUE" by simp
  have M: "0 \<le> NGX_MAX_OFF_T_VALUE" by (simp add: NGX_MAX_OFF_T_VALUE_def)
  have ge: "0 \<le> v * 10 + digit d" using r assms(2) by simp
  show "0 \<le> v * 10 + digit d \<and> v * 10 + digit d \<le> NGX_MAX_OFF_T_VALUE" using ge le by blast
  have "off_wrap (off_wrap (v * 10 + uint d) + - uint (ch CHR ''0'')) = off_wrap (v * 10 + digit d)"
    unfolding off_wrap_add by (simp add: digit_def add_diff_eq)
  also have "\<dots> = v * 10 + digit d" using le ge M by (intro off_wrap_id) auto
  finally show "off_wrap (off_wrap (v * 10 + uint d) - uint (ch CHR ''0'')) = v * 10 + digit d" by simp
qed

lemma rd_off_range:
  "rd_off v p = Got (e, q) \<Longrightarrow> 0 \<le> v \<and> v \<le> NGX_MAX_OFF_T_VALUE \<Longrightarrow> 0 \<le> e \<and> e \<le> NGX_MAX_OFF_T_VALUE"
proof (induction p arbitrary: v)
  case (Cons c p)
  show ?case
  proof (cases "is_digit c")
    case False
    then show ?thesis using Cons.prems by simp
  next
    case True
    have nocut: "\<not> (v \<ge> NGX_MAX_OFF_T_VALUE div 10 \<and> (v > NGX_MAX_OFF_T_VALUE div 10 \<or> digit c > NGX_MAX_OFF_T_VALUE mod 10))"
      using Cons.prems(1) True by (auto simp: Let_def simp del: not_le not_less split: if_splits)
    note st = rd_off_step[OF True conjunct1[OF Cons.prems(2)] nocut]
    have "rd_off (v * 10 + digit c) p = Got (e, q)"
      using Cons.prems(1) unfolding rd_off.simps(2) Let_def st(1) if_not_P[OF nocut] using True by simp
    then show ?thesis by (rule Cons.IH) (rule st(2))
  qed
qed simp

definition in_text :: "int \<Rightarrow> int \<Rightarrow> int \<Rightarrow> bool" where
  "in_text cl s e \<longleftrightarrow> e \<le> cl \<and> (0 \<le> s \<or> e = cl \<and> cl - s \<le> NGX_MAX_OFF_T_VALUE)"

lemma range_last_in_text:
  assumes "range_last cl sf st p = Got (s, e, q)" "0 \<le> st"
  shows "in_text cl s e"
proof -
  obtain e0 p1 p2 where r: "rd_off 0 p = Got (e0, p1)" "rd_spaces p1 = Got p2" and
    se: "(s, e) = (if sf then (cl - e0, cl) else (st, if e0 \<ge> cl then cl else e0 + 1))"
    using assms(1) by (auto simp: range_last_def and_then_Got Let_def split: list.splits if_splits)
  have "0 \<le> e0 \<and> e0 \<le> NGX_MAX_OFF_T_VALUE" by (rule rd_off_range[OF r(1)]) (simp add: NGX_MAX_OFF_T_VALUE_def)
  then show ?thesis using se assms(2) by (auto simp: in_text_def split: if_splits)
qed

lemma range_item_in_text:
  assumes "range_item cl p = Got (s, e, q)"
  shows "in_text cl s e"
proof -
  have off: "0 \<le> v" if "rd_off 0 p' = Got (v, p'')" for v p' p''
    using rd_off_range[OF that] by (simp add: NGX_MAX_OFF_T_VALUE_def)
  show ?thesis using assms off range_last_in_text[of cl]
    by (fastforce simp: range_item_def and_then_Got in_text_def split: if_splits)
qed

lemma push_Inr:
  assumes "range_push alloc s e n sz rs = Inr (n', sz', rs')"
  shows "s < e \<and> rs' = rs @ [\<lparr> r_start = s, r_end = e \<rparr>] \<and> sz' = off_wrap (sz + (e - s)) \<or> \<not> s < e \<and> rs' = rs \<and> sz' = sz"
  using assms by (auto simp: range_push_def split: if_splits)

definition ranges_inv :: "int \<Rightarrow> int \<Rightarrow> http_range list \<Rightarrow> bool" where
  "ranges_inv cl sz rs \<longleftrightarrow> sz = off_wrap (ranges_size rs) \<and> (\<forall>r \<in> set rs. r_start r < r_end r \<and> in_text cl (r_start r) (r_end r))"

lemma ranges_inv_push:
  assumes "range_push alloc s e n sz rs = Inr (n', sz', rs')" "in_text cl s e" "ranges_inv cl sz rs"
  shows "ranges_inv cl sz' rs'"
  using push_Inr[OF assms(1)] assms(2,3) by (elim disjE conjE) (auto simp: ranges_inv_def off_wrap_add)

lemma loop_inv:
  "range_loop alloc cl p n sz rs = Some (NGX_OK, out) \<Longrightarrow> ranges_inv cl sz rs \<Longrightarrow>
   \<exists>sz'. ranges_inv cl sz' out \<and> sz' \<le> cl"
proof (induction alloc cl p n sz rs rule: range_loop.induct)
  case (1 alloc cl p n sz rs)
  obtain s e q where item: "range_item cl p = Got (s, e, q)"
    using 1(2) unfolding range_loop.simps[of _ _ p] by (auto simp: NGX_OK_def NGX_HTTP_RANGE_NOT_SATISFIABLE_def split: read.splits)
  have "range_push alloc s e n sz rs \<noteq> Inl rc" for rc
    using 1(2) push_codes unfolding range_loop.simps[of _ _ p] item by (force simp: NGX_OK_def NGX_DECLINED_def NGX_ERROR_def)
  then obtain n' sz' rs' where push: "range_push alloc s e n sz rs = Inr (n', sz', rs')"
    by (metis sumE prod_cases3)
  note inv = ranges_inv_push[OF push range_item_in_text[OF item] 1(3)]
  have loop: "(if hd q = ch CHR '','' then range_loop alloc cl (tl q) n' sz' rs'
              else if rs' = [] then Some (NGX_HTTP_RANGE_NOT_SATISFIABLE, [])
              else if sz' > cl then Some (NGX_DECLINED, [])
              else Some (NGX_OK, rs')) = Some (NGX_OK, out)"
    using 1(2) unfolding range_loop.simps[of _ _ p] item read.case prod.case push sum.case .
  show ?case
  proof (cases "hd q = ch CHR '','' ")
    case True
    show ?thesis using 1(1)[OF item refl refl push refl refl True _ inv] loop unfolding if_P[OF True] by blast
  next
    case False
    have "rs' = out \<and> \<not> sz' > cl"
      using loop unfolding if_not_P[OF False] by (auto simp: NGX_OK_def NGX_DECLINED_def NGX_HTTP_RANGE_NOT_SATISFIABLE_def split: if_splits)
    then show ?thesis using inv by auto
  qed
qed

lemma ranges_size_nonneg: "\<forall>r \<in> set rs. r_start r < r_end r \<Longrightarrow> 0 \<le> ranges_size rs"
  by (induction rs) auto

lemma ranges_size_member:
  "\<forall>r \<in> set rs. r_start r < r_end r \<Longrightarrow> r \<in> set rs \<Longrightarrow> r_end r - r_start r \<le> ranges_size rs"
proof (induction rs)
  case (Cons x rs)
  have "0 \<le> ranges_size rs" using Cons.prems(1) by (intro ranges_size_nonneg) simp
  then show ?case using Cons by (cases "r = x") auto
qed simp

lemma parse_inv:
  "ngx_http_range_parse alloc None val cl n = Some (NGX_OK, rs) \<Longrightarrow> \<exists>sz. ranges_inv cl sz rs \<and> sz \<le> cl"
  using loop_inv[of alloc cl "drop 6 val @ [0]" n 0 "[]" rs]
  by (auto simp: ngx_http_range_parse_def ranges_inv_def off_wrap_def)

lemma ranges_within:
  assumes "ngx_http_range_parse alloc None val cl n = Some (NGX_OK, rs)"
    and "ranges_size rs \<le> NGX_MAX_OFF_T_VALUE"
  shows "(\<forall>r \<in> set rs. 0 \<le> r_start r \<and> r_start r < r_end r \<and> r_end r \<le> cl) \<and> ranges_size rs \<le> cl"
proof -
  obtain sz where inv: "ranges_inv cl sz rs" and sz: "sz \<le> cl" using parse_inv[OF assms(1)] by blast
  have r: "\<forall>r \<in> set rs. r_start r < r_end r" using inv by (simp add: ranges_inv_def)
  have "0 \<le> ranges_size rs" using r by (rule ranges_size_nonneg)
  then have "off_wrap (ranges_size rs) = ranges_size rs" using assms(2) by (intro off_wrap_id) (auto simp: NGX_MAX_OFF_T_VALUE_def)
  then have size: "ranges_size rs \<le> cl" using inv sz by (simp add: ranges_inv_def)
  have "0 \<le> r_start r \<and> r_start r < r_end r \<and> r_end r \<le> cl" if m: "r \<in> set rs" for r
  proof -
    have "in_text cl (r_start r) (r_end r)" "r_start r < r_end r" using inv m by (auto simp: ranges_inv_def)
    then show ?thesis using ranges_size_member[OF r m] size by (auto simp: in_text_def)
  qed
  then show ?thesis using size by blast
qed

text \<open>
  Property C12 (safety).  Whatever the value of the header is, the ranges that are accepted lie within the text
  and hold at least one byte each, and together they are no longer than the text, provided that
  the sum of their sizes can be represented in 64 bits (see \<open>range_sum_wraps\<close>).
\<close>
theorem range_parse_within:
  assumes "ngx_http_range_parse alloc None val cl n = Some (NGX_OK, rs)"
    and "ranges_size rs \<le> NGX_MAX_OFF_T_VALUE"
  shows "(\<forall>r \<in> set rs. 0 \<le> r_start r \<and> r_start r < r_end r \<and> r_end r \<le> cl) \<and> ranges_size rs \<le> cl"
  using assms by (rule ranges_within)

lemma range_parse_within_witness:
  "ngx_http_range_parse (\<lambda>k. True) None (chars ''bytes=5-,-3'') 10 4 = Some (NGX_OK, [\<lparr> r_start = 5, r_end = 10 \<rparr>, \<lparr> r_start = 7, r_end = 10 \<rparr>]) \<and>
   ranges_size [\<lparr> r_start = 5, r_end = 10 \<rparr>, \<lparr> r_start = 7, r_end = 10 \<rparr>] \<le> 10"
proof -
  have p: "ngx_http_range_parse (\<lambda>k. True) None (chars ''bytes=5-,-3'') 10 4 =
    Some (NGX_OK, [\<lparr> r_start = 5, r_end = 10 \<rparr>, \<lparr> r_start = 7, r_end = 10 \<rparr>])" by code_simp
  show ?thesis using p range_parse_within[OF p] by (simp add: NGX_MAX_OFF_T_VALUE_def)
qed

text \<open>
  Fact (bounds).  Without that proviso the check of the sum is void: the sizes of two suffixes, of 500 and of
  \<open>2 ^ 63 - 1\<close> minus a few bytes, add up to a negative number, and a range is accepted that starts 400 bytes before the text.
\<close>
lemma range_sum_wraps:
  "ngx_http_range_parse (\<lambda>k. True) None (chars ''bytes=-500,-9223372036854775807'') 100 2 =
   Some (NGX_OK, [\<lparr> r_start = -400, r_end = 100 \<rparr>, \<lparr> r_start = -9223372036854775707, r_end = 100 \<rparr>])"
  by code_simp

end
