(* ===== verification/Ngx_Http_Range_Filter.thy ===== *)
theory Ngx_Http_Range_Filter
  imports Ngx_Http_Range
begin

text \<open>
  The range filter of \<^verbatim>\<open>http/modules/ngx_http_range_filter_module.c\<close>: the header filter, which decides whether a
  request gets ranges and announces them, and the body filters, which cut them out of the chain of buffers; and the two
  together as the answer to a request.
\<close>

section \<open>The response header\<close>

definition NGX_HTTP_VERSION_10 :: int where "NGX_HTTP_VERSION_10 = 1000"
definition NGX_OFF_T_LEN :: nat where "NGX_OFF_T_LEN = 20"
definition NGX_ATOMIC_T_LEN :: nat where "NGX_ATOMIC_T_LEN = 20"

abbreviation CRLF :: bytes where "CRLF \<equiv> [CR, LF]"

text \<open>The formats \<^verbatim>\<open>%O\<close> and \<^verbatim>\<open>%0muA\<close>.\<close>

definition fmt_O :: "int \<Rightarrow> bytes" where
  "fmt_O i = fmt_d (ch CHR '' '') 0 i"

definition fmt_0muA :: "uint64 \<Rightarrow> bytes" where
  "fmt_0muA n = ngx_sprintf_num 64 n (ch CHR ''0'') 0 NGX_ATOMIC_T_LEN"

text \<open>
  The part of \<^verbatim>\<open>r->headers_out\<close> the filter uses: \<open>o_has_length\<close> says whether a line
  \<^verbatim>\<open>Content-Length\<close> is in the list of headers.
\<close>

record headers_out =
  o_status :: int
  o_status_line :: bytes
  o_length_n :: int
  o_offset :: int
  o_has_length :: bool
  o_content_range :: "bytes option"
  o_accept_ranges :: "bytes option"
  o_type :: bytes
  o_type_len :: nat
  o_charset :: bytes
  o_etag :: "bytes option"
  o_modified :: int

record range_request =
  q_version :: int
  q_main :: bool
  q_subrequest_ranges :: bool
  q_allow_ranges :: bool
  q_single_range :: bool
  q_range :: "bytes option"
  q_if_range :: "bytes option"

record range_ctx =
  c_offset :: int
  c_boundary_header :: bytes
  c_ranges :: "http_range list"
  c_content_range :: "bytes list"

text \<open>The allocations that may fail.\<close>

datatype site = At_ctx | At_array | At_range nat | At_line | At_value | At_boundary | At_type | At_content_range nat | At_accept

text \<open>The filter returns a code, or it calls the next header filter; either way it has changed the headers.\<close>

datatype filtered = Returned int headers_out | Next headers_out "range_ctx option"

definition clear_length :: "headers_out \<Rightarrow> headers_out" where
  "clear_length h = h\<lparr> o_has_length := False \<rparr>"

definition ngx_http_range_singlepart_header ::
    "(site \<Rightarrow> bool) \<Rightarrow> range_request \<Rightarrow> range_ctx \<Rightarrow> headers_out \<Rightarrow> filtered" where
  "ngx_http_range_singlepart_header alloc q ctx h =
     (if \<not> q_main q then Next h (Some ctx)
      else if \<not> alloc At_line \<or> \<not> alloc At_value then Returned NGX_ERROR h
      else
        let rg = hd (c_ranges ctx);
            val = chars ''bytes '' @ fmt_O (r_start rg) @ chars ''-'' @ fmt_O (r_end rg - 1) @ chars ''/'' @ fmt_O (o_length_n h)
        in Next (clear_length (h\<lparr> o_content_range := Some val, o_length_n := r_end rg - r_start rg, o_offset := r_start rg \<rparr>))
             (Some ctx))"

definition has_charset :: "headers_out \<Rightarrow> bool" where
  "has_charset h \<longleftrightarrow> o_type_len h = length (o_type h) \<and> o_charset h \<noteq> []"

definition boundary_header :: "uint64 \<Rightarrow> headers_out \<Rightarrow> bytes" where
  "boundary_header boundary h =
     CRLF @ chars ''--'' @ fmt_0muA boundary @ CRLF
     @ (if has_charset h then chars ''Content-Type: '' @ o_type h @ chars ''; charset='' @ o_charset h @ CRLF
        else if o_type h \<noteq> [] then chars ''Content-Type: '' @ o_type h @ CRLF
        else [])
     @ chars ''Content-Range: bytes ''"

text \<open>The sizes that are allocated for the texts.\<close>

definition boundary_header_size :: "headers_out \<Rightarrow> nat" where
  "boundary_header_size h =
     4 + NGX_ATOMIC_T_LEN + 16 + length (o_type h) + 23 + (if has_charset h then 10 + length (o_charset h) else 0)"

definition content_range_size :: nat where
  "content_range_size = 3 * NGX_OFF_T_LEN + 2 + 4"

definition content_range_text :: "int \<Rightarrow> http_range \<Rightarrow> bytes" where
  "content_range_text full rg =
     fmt_O (r_start rg) @ chars ''-'' @ fmt_O (r_end rg - 1) @ chars ''/'' @ fmt_O full @ CRLF @ CRLF"

definition multipart_len :: "bytes \<Rightarrow> int \<Rightarrow> http_range list \<Rightarrow> int" where
  "multipart_len bh full rs =
     foldl (\<lambda>len rg. len + (int (length bh) + int (length (content_range_text full rg)) + (r_end rg - r_start rg)))
       (4 + int NGX_ATOMIC_T_LEN + 4) rs"

definition ngx_http_range_multipart_header ::
    "(site \<Rightarrow> bool) \<Rightarrow> uint64 \<Rightarrow> range_ctx \<Rightarrow> headers_out \<Rightarrow> filtered" where
  "ngx_http_range_multipart_header alloc boundary ctx h =
     (if \<not> alloc At_boundary then Returned NGX_ERROR h
      else if \<not> alloc At_type then Returned NGX_ERROR h
      else
        let bh = boundary_header boundary h;
            typ = chars ''multipart/byteranges; boundary='' @ fmt_0muA boundary;
            h' = h\<lparr> o_type := typ, o_type_len := length typ, o_charset := [] \<rparr>
        in if \<exists>i < length (c_ranges ctx). \<not> alloc (At_content_range i) then Returned NGX_ERROR h'
           else
             Next (clear_length (h'\<lparr> o_length_n := off_wrap (multipart_len bh (o_length_n h) (c_ranges ctx)) \<rparr>))
               (Some (ctx\<lparr> c_boundary_header := bh, c_content_range := map (content_range_text (o_length_n h)) (c_ranges ctx) \<rparr>)))"

definition ngx_http_range_not_satisfiable :: "(site \<Rightarrow> bool) \<Rightarrow> headers_out \<Rightarrow> filtered" where
  "ngx_http_range_not_satisfiable alloc h =
     (let h = h\<lparr> o_status := NGX_HTTP_RANGE_NOT_SATISFIABLE \<rparr> in
      if \<not> alloc At_line \<or> \<not> alloc At_value then Returned NGX_ERROR h
      else Returned NGX_HTTP_RANGE_NOT_SATISFIABLE
             (clear_length (h\<lparr> o_content_range := Some (chars ''bytes */'' @ fmt_O (o_length_n h)), o_length_n := -1 \<rparr>)))"

text \<open>The test of \<^verbatim>\<open>If-Range\<close>: an entity tag, or else a date.\<close>

definition if_range_holds :: "headers_out \<Rightarrow> bytes \<Rightarrow> bool" where
  "if_range_holds h v =
     (if length v \<ge> 2 \<and> last v = ch CHR ''\"'' then
        (case o_etag h of
           None \<Rightarrow> False
         | Some etag \<Rightarrow> length v = length etag \<and> c_strncmp v etag (length etag) = Some 0)
      else o_modified h \<noteq> -1 \<and> ngx_parse_http_time v = Got (o_modified h))"

definition accept_ranges :: "(site \<Rightarrow> bool) \<Rightarrow> headers_out \<Rightarrow> filtered" where
  "accept_ranges alloc h =
     (if \<not> alloc At_accept then Returned NGX_ERROR h
      else Next (h\<lparr> o_accept_ranges := Some (chars ''bytes'') \<rparr>) None)"

definition ngx_http_range_header_filter ::
    "(site \<Rightarrow> bool) \<Rightarrow> uint64 \<Rightarrow> ngx_uint \<Rightarrow> http_range list option \<Rightarrow> range_request \<Rightarrow> headers_out \<Rightarrow> filtered option" where
  "ngx_http_range_header_filter alloc boundary max_ranges main q h =
     (if q_version q < NGX_HTTP_VERSION_10 \<or> o_status h \<noteq> NGX_HTTP_OK \<or> \<not> q_main q \<and> \<not> q_subrequest_ranges q
         \<or> o_length_n h = -1 \<or> \<not> q_allow_ranges q then Some (Next h None)
      else if max_ranges = 0 then Some (Next h None)
      else
        case q_range q of
          None \<Rightarrow> Some (accept_ranges alloc h)
        | Some rg \<Rightarrow>
            if length rg < 7 \<or> ngx_strncasecmp rg (chars ''bytes='') 6 \<noteq> Some 0 then Some (accept_ranges alloc h)
            else if (case q_if_range q of None \<Rightarrow> False | Some v \<Rightarrow> \<not> if_range_holds h v) then Some (accept_ranges alloc h)
            else if \<not> alloc At_ctx \<or> \<not> alloc At_array then Some (Returned NGX_ERROR h)
            else
              case ngx_http_range_parse (\<lambda>i. alloc (At_range i)) (if q_main q then None else main) rg (o_length_n h)
                     (if q_single_range q then 1 else max_ranges) of
                None \<Rightarrow> None
              | Some (rc, rs) \<Rightarrow>
                  if rc = NGX_OK then
                    let ctx = \<lparr> c_offset = o_offset h, c_boundary_header = [], c_ranges = rs, c_content_range = [] \<rparr>;
                        h = h\<lparr> o_status := NGX_HTTP_PARTIAL_CONTENT, o_status_line := [] \<rparr>
                    in Some (if length rs = 1 then ngx_http_range_singlepart_header alloc q ctx h
                             else ngx_http_range_multipart_header alloc boundary ctx h)
                  else if rc = NGX_HTTP_RANGE_NOT_SATISFIABLE then Some (ngx_http_range_not_satisfiable alloc h)
                  else if rc = NGX_ERROR then Some (Returned NGX_ERROR h)
                  else Some (accept_ranges alloc h))"

section \<open>The response body\<close>

text \<open>
  A buffer: the addresses of its bytes in memory and in its file, and its flags.  The bits \<^verbatim>\<open>temporary\<close>,
  \<^verbatim>\<open>memory\<close> and \<^verbatim>\<open>mmap\<close> are one, \<open>b_memory\<close>, as in \<^verbatim>\<open>ngx_buf_in_memory\<close>.
\<close>

record out_range_buf =
  b_memory :: bool
  b_pos :: int
  b_last :: int
  b_in_file :: bool
  b_file_pos :: int
  b_file_last :: int
  b_flush :: bool
  b_sync :: bool
  b_last_buf :: bool

definition buf_special :: "out_range_buf \<Rightarrow> bool" where
  "buf_special b \<longleftrightarrow> (b_flush b \<or> b_last_buf b \<or> b_sync b) \<and> \<not> b_memory b \<and> \<not> b_in_file b"

definition buf_size :: "out_range_buf \<Rightarrow> int" where
  "buf_size b = (if b_memory b then b_last b - b_pos b else b_file_last b - b_file_pos b)"

text \<open>A buffer outside the range: it is marked as sent.\<close>

definition skip_buf :: "out_range_buf \<Rightarrow> out_range_buf" where
  "skip_buf b = b\<lparr> b_file_pos := (if b_in_file b then b_file_last b else b_file_pos b), b_pos := b_last b, b_sync := True \<rparr>"

definition cut_front :: "int \<Rightarrow> out_range_buf \<Rightarrow> out_range_buf" where
  "cut_front k b = b\<lparr> b_file_pos := (if b_in_file b then b_file_pos b + k else b_file_pos b),
                      b_pos := (if b_memory b then b_pos b + k else b_pos b) \<rparr>"

definition cut_back :: "int \<Rightarrow> out_range_buf \<Rightarrow> out_range_buf" where
  "cut_back k b = b\<lparr> b_file_last := (if b_in_file b then b_file_last b - k else b_file_last b),
                     b_last := (if b_memory b then b_last b - k else b_last b), b_last_buf := True \<rparr>"

text \<open>
  The loop: whether a buffer is passed on, the chain that \<^verbatim>\<open>*ll\<close> leads to at the end, and the new offset.  A buffer that
  is skipped stays in the chain behind the last one that is passed on, for its link is only overwritten by a later one.
\<close>

fun singlepart_loop :: "http_range \<Rightarrow> int \<Rightarrow> out_range_buf list \<Rightarrow> bool \<times> out_range_buf list \<times> int" where
  "singlepart_loop rg offset [] = (False, [], offset)"
| "singlepart_loop rg offset (b # bs) =
     (let start = offset; last = offset + buf_size b in
      if buf_special b then
        (let (passed, out, offset) = singlepart_loop rg last bs in (True, b # out, offset))
      else if r_end rg \<le> start \<or> r_start rg \<ge> last then
        (let (passed, out, offset) = singlepart_loop rg last bs in (passed, if passed then out else skip_buf b # out, offset))
      else
        let b = (if r_start rg > start then cut_front (r_start rg - start) b else b) in
        if r_end rg \<le> last then (True, [cut_back (last - r_end rg) b], last)
        else (let (passed, out, offset) = singlepart_loop rg last bs in (True, b # out, offset)))"

text \<open>A body filter returns a code, or it calls the next one with a chain.\<close>

definition ngx_http_range_singlepart_body ::
    "range_ctx \<Rightarrow> out_range_buf list \<Rightarrow> (int + out_range_buf list) \<times> range_ctx" where
  "ngx_http_range_singlepart_body ctx bs =
     (let (passed, out, offset) = singlepart_loop (hd (c_ranges ctx)) (c_offset ctx) bs in
      (if passed then Inr out else Inl NGX_OK, ctx\<lparr> c_offset := offset \<rparr>))"

definition ngx_http_range_test_overlapped :: "range_ctx \<Rightarrow> out_range_buf \<Rightarrow> int \<times> range_ctx" where
  "ngx_http_range_test_overlapped ctx b =
     (if c_offset ctx \<noteq> 0 then (NGX_ERROR, ctx)
      else if \<not> b_last_buf b \<and>
        (\<exists>rg \<in> set (c_ranges ctx). c_offset ctx > r_start rg \<or> c_offset ctx + buf_size b < r_end rg)
      then (NGX_ERROR, ctx)
      else (NGX_OK, ctx\<lparr> c_offset := buf_size b \<rparr>))"

text \<open>
  Several ranges are answered only from a body that is in one buffer.  The pieces of the answer are texts of the filter
  and parts of that buffer.
\<close>

datatype piece = Text bytes bool | Buf out_range_buf

definition range_part :: "out_range_buf \<Rightarrow> http_range \<Rightarrow> out_range_buf" where
  "range_part b rg =
     \<lparr> b_memory = b_memory b,
       b_pos = (if b_memory b then b_pos b + r_start rg else 0), b_last = (if b_memory b then b_pos b + r_end rg else 0),
       b_in_file = b_in_file b,
       b_file_pos = (if b_in_file b then b_file_pos b + r_start rg else 0),
       b_file_last = (if b_in_file b then b_file_pos b + r_end rg else 0),
       b_flush = False, b_sync = False, b_last_buf = False \<rparr>"

definition ngx_http_range_multipart_body :: "(nat \<Rightarrow> bool) \<Rightarrow> range_ctx \<Rightarrow> out_range_buf \<Rightarrow> int + piece list" where
  "ngx_http_range_multipart_body alloc ctx b =
     (if \<exists>k < 6 * length (c_ranges ctx) + 3. \<not> alloc k then Inl NGX_ERROR
      else Inr
        (concat (map2 (\<lambda>rg t. [Text (c_boundary_header ctx) False, Text t False, Buf (range_part b rg)]) (c_ranges ctx) (c_content_range ctx))
         @ [Text (take (4 + NGX_ATOMIC_T_LEN) (c_boundary_header ctx) @ chars ''--'' @ CRLF) True]))"

definition ngx_http_range_body_filter ::
    "(nat \<Rightarrow> bool) \<Rightarrow> range_ctx option \<Rightarrow> out_range_buf list \<Rightarrow> (int + piece list) \<times> range_ctx option" where
  "ngx_http_range_body_filter alloc ctx bs =
     (case (bs, ctx) of
        ([], _) \<Rightarrow> (Inr [], ctx)
      | (_, None) \<Rightarrow> (Inr (map Buf bs), ctx)
      | (b # _, Some c) \<Rightarrow>
          if length (c_ranges c) = 1 then
            (let (res, c') = ngx_http_range_singlepart_body c bs in (map_sum id (map Buf) res, Some c'))
          else if buf_special b then (Inr (map Buf bs), ctx)
          else
            let (rc, c') = ngx_http_range_test_overlapped c b in
            if rc \<noteq> NGX_OK then (Inl NGX_ERROR, Some c')
            else (ngx_http_range_multipart_body alloc c' b, Some c'))"

text \<open>The calls of the filter while a response is sent; a call that fails is the last.\<close>

fun range_calls :: "(nat \<Rightarrow> bool) \<Rightarrow> range_ctx option \<Rightarrow> out_range_buf list list \<Rightarrow> piece list" where
  "range_calls alloc ctx [] = []"
| "range_calls alloc ctx (bs # calls) =
     (case ngx_http_range_body_filter alloc ctx bs of
        (Inl rc, ctx') \<Rightarrow> if rc = NGX_OK then range_calls alloc ctx' calls else []
      | (Inr out, ctx') \<Rightarrow> out @ range_calls alloc ctx' calls)"

section \<open>The bytes of a chain of buffers\<close>

definition stretch :: "(int \<Rightarrow> u_char) \<Rightarrow> int \<Rightarrow> int \<Rightarrow> bytes" where
  "stretch f a b = map f [a..b - 1]"

definition buf_bytes :: "(int \<Rightarrow> u_char) \<Rightarrow> (int \<Rightarrow> u_char) \<Rightarrow> out_range_buf \<Rightarrow> bytes" where
  "buf_bytes mem file b =
     (if b_memory b then stretch mem (b_pos b) (b_last b) else if b_in_file b then stretch file (b_file_pos b) (b_file_last b) else [])"

text \<open>A buffer both in memory and in a file has the same bytes in both; one in neither has no size.\<close>

definition range_buf_ok :: "(int \<Rightarrow> u_char) \<Rightarrow> (int \<Rightarrow> u_char) \<Rightarrow> out_range_buf \<Rightarrow> bool" where
  "range_buf_ok mem file b \<longleftrightarrow>
     (b_memory b \<longrightarrow> b_pos b \<le> b_last b) \<and> (b_in_file b \<longrightarrow> b_file_pos b \<le> b_file_last b) \<and>
     (b_memory b \<and> b_in_file b \<longrightarrow> stretch mem (b_pos b) (b_last b) = stretch file (b_file_pos b) (b_file_last b)) \<and>
     (\<not> b_memory b \<and> \<not> b_in_file b \<longrightarrow> b_file_pos b = b_file_last b)"

lemma length_cut [simp]: "length (stretch f a b) = nat (b - a)"
  by (simp add: stretch_def)

lemma cut_split: "a \<le> c \<Longrightarrow> c \<le> b \<Longrightarrow> stretch f a b = stretch f a c @ stretch f c b"
  unfolding stretch_def map_append[symmetric] by (rule arg_cong[of _ _ "map f"]) (metis upto_split1 upto_split2 upto_Nil append_self_conv append_self_conv2 diff_ge_0_iff_ge linorder_not_less zle_diff1_eq upto_split3 order_le_less)

lemma drop_cut: "0 \<le> k \<Longrightarrow> a + k \<le> b \<Longrightarrow> drop (nat k) (stretch f a b) = stretch f (a + k) b"
  using cut_split[of a "a + k" b f] by simp

lemma take_cut: "0 \<le> k \<Longrightarrow> a + k \<le> b \<Longrightarrow> take (nat k) (stretch f a b) = stretch f a (a + k)"
  using cut_split[of a "a + k" b f] by simp

lemma buf_bytes_length: "range_buf_ok mem file b \<Longrightarrow> int (length (buf_bytes mem file b)) = buf_size b"
  by (auto simp: range_buf_ok_def buf_bytes_def buf_size_def)

lemma buf_size_nonneg: "range_buf_ok mem file b \<Longrightarrow> 0 \<le> buf_size b"
  by (auto simp: range_buf_ok_def buf_size_def)

lemma both_sizes: "range_buf_ok mem file b \<Longrightarrow> b_memory b \<Longrightarrow> b_in_file b \<Longrightarrow> b_last b - b_pos b = b_file_last b - b_file_pos b"
  unfolding range_buf_ok_def by (metis length_cut diff_ge_0_iff_ge nat_eq_iff2 eq_nat_nat_iff)

lemma cut_front_bytes:
  assumes "range_buf_ok mem file b" "0 \<le> k" "k \<le> buf_size b"
  shows "buf_bytes mem file (cut_front k b) = drop (nat k) (buf_bytes mem file b)" "range_buf_ok mem file (cut_front k b)"
    "buf_size (cut_front k b) = (if b_memory b \<or> b_in_file b then buf_size b - k else 0)"
proof -
  note s = both_sizes[OF assms(1)]
  have m: "b_memory b \<Longrightarrow> b_pos b + k \<le> b_last b" and f: "b_in_file b \<Longrightarrow> b_file_pos b + k \<le> b_file_last b"
    using assms(3) s by (auto simp: buf_size_def split: if_splits)
  note cuts = drop_cut[OF assms(2) m] drop_cut[OF assms(2) f]
  show "buf_bytes mem file (cut_front k b) = drop (nat k) (buf_bytes mem file b)"
    by (simp add: buf_bytes_def cut_front_def cuts)
  show "range_buf_ok mem file (cut_front k b)"
    using assms(1) m f cuts[of mem] cuts[of "file"] by (auto simp: range_buf_ok_def cut_front_def)
  show "buf_size (cut_front k b) = (if b_memory b \<or> b_in_file b then buf_size b - k else 0)"
    using assms(1) by (simp add: buf_size_def cut_front_def range_buf_ok_def)
qed

lemma cut_back_bytes:
  assumes "range_buf_ok mem file b" "0 \<le> k" "k \<le> buf_size b"
  shows "buf_bytes mem file (cut_back k b) = take (nat (buf_size b - k)) (buf_bytes mem file b)"
proof -
  note s = both_sizes[OF assms(1)]
  have m: "b_memory b \<Longrightarrow> take (nat (b_last b - b_pos b - k)) (stretch mem (b_pos b) (b_last b)) = stretch mem (b_pos b) (b_last b - k)"
    using take_cut[of "b_last b - b_pos b - k" "b_pos b" "b_last b" "mem"] assms(2,3) by (simp add: buf_size_def)
  have f: "b_in_file b \<Longrightarrow> \<not> b_memory b \<Longrightarrow>
      take (nat (b_file_last b - b_file_pos b - k)) (stretch file (b_file_pos b) (b_file_last b)) = stretch file (b_file_pos b) (b_file_last b - k)"
    using take_cut[of "b_file_last b - b_file_pos b - k" "b_file_pos b" "b_file_last b" "file"] assms(2,3) by (simp add: buf_size_def)
  show ?thesis using m f by (simp add: buf_bytes_def cut_back_def buf_size_def)
qed

section \<open>One range\<close>

text \<open>The bytes at the positions from \<open>s\<close> to \<open>e\<close> of a text that begins at \<open>off\<close>.\<close>

definition window :: "int \<Rightarrow> int \<Rightarrow> int \<Rightarrow> bytes \<Rightarrow> bytes" where
  "window s e off xs = drop (nat (s - off)) (take (nat (e - off)) xs)"

lemma window_append: "window s e off (xs @ ys) = window s e off xs @ window s e (off + int (length xs)) ys"
proof (cases "length xs \<le> nat (e - off)")
  case True
  have "nat (s - off) - length xs = nat (s - (off + int (length xs)))" "nat (e - off) - length xs = nat (e - (off + int (length xs)))"
    by simp_all
  then show ?thesis using True by (simp add: window_def)
next
  case False
  then have "nat (e - (off + int (length xs))) = 0" by simp
  then show ?thesis using False by (simp add: window_def)
qed

lemma window_Nil [simp]: "window s e off [] = []"
  by (simp add: window_def)

lemma window_before: "e \<le> off \<Longrightarrow> window s e off xs = []"
  by (simp add: window_def)

lemma window_after: "off + int (length xs) \<le> s \<Longrightarrow> window s e off xs = []"
  by (simp add: window_def)

abbreviation chain_bytes :: "(int \<Rightarrow> u_char) \<Rightarrow> (int \<Rightarrow> u_char) \<Rightarrow> out_range_buf list \<Rightarrow> bytes" where
  "chain_bytes mem file bs \<equiv> concat (map (buf_bytes mem file) bs)"

text \<open>What the filter knows of its place in the text: exactly, or that the range is behind it.\<close>

definition range_placed :: "http_range \<Rightarrow> int \<Rightarrow> int \<Rightarrow> bool" where
  "range_placed rg off t \<longleftrightarrow> off = t \<or> r_end rg \<le> off \<and> r_end rg \<le> t"

lemma kept_window:
  assumes "range_buf_ok mem file b" "off < r_end rg" "r_start rg < off + buf_size b" "r_start rg < r_end rg"
  defines "b' \<equiv> (if r_start rg > off then cut_front (r_start rg - off) b else b)"
  shows "off + buf_size b < r_end rg \<Longrightarrow> buf_bytes mem file b' = window (r_start rg) (r_end rg) off (buf_bytes mem file b)"
    and "r_end rg \<le> off + buf_size b \<Longrightarrow>
      buf_bytes mem file (cut_back (off + buf_size b - r_end rg) b') = window (r_start rg) (r_end rg) off (buf_bytes mem file b)"
proof -
  note l = buf_bytes_length[OF assms(1)]
  have pos: "0 < buf_size b" if "r_start rg > off" using that assms(3) by linarith
  have b': "buf_bytes mem file b' = drop (nat (r_start rg - off)) (buf_bytes mem file b)" "range_buf_ok mem file b'"
    using assms(1,3) cut_front_bytes(1,2)[OF assms(1), of "r_start rg - off"] by (auto simp: b'_def)
  show "buf_bytes mem file b' = window (r_start rg) (r_end rg) off (buf_bytes mem file b)" if "off + buf_size b < r_end rg"
    using that l unfolding b' window_def by simp
  assume e: "r_end rg \<le> off + buf_size b"
  have nz: "b_memory b \<or> b_in_file b" using assms(1,2) e by (rule_tac ccontr) (simp add: buf_size_def range_buf_ok_def)
  have size: "buf_size b' = buf_size b - int (nat (r_start rg - off))"
    using nz assms(3) cut_front_bytes(3)[OF assms(1), of "r_start rg - off"] by (simp add: b'_def)
  have "buf_bytes mem file (cut_back (off + buf_size b - r_end rg) b') =
      take (nat (buf_size b' - (off + buf_size b - r_end rg))) (buf_bytes mem file b')"
    using e size assms(2,4) by (intro cut_back_bytes[OF b'(2)]) auto
  also have "\<dots> = take (nat (r_end rg - off) - nat (r_start rg - off)) (drop (nat (r_start rg - off)) (buf_bytes mem file b))"
    unfolding b'(1) size using assms(2,4) by (intro arg_cong2[of _ _ _ _ take]) auto
  also have "\<dots> = window (r_start rg) (r_end rg) off (buf_bytes mem file b)"
    by (simp add: window_def drop_take)
  finally show "buf_bytes mem file (cut_back (off + buf_size b - r_end rg) b') = window (r_start rg) (r_end rg) off (buf_bytes mem file b)" .
qed

lemma skip_buf_bytes [simp]: "buf_bytes mem file (skip_buf b) = []"
  by (simp add: buf_bytes_def skip_buf_def stretch_def)

lemma singlepart_loop_window:
  assumes "r_start rg < r_end rg"
  shows "\<forall>b \<in> set bs. range_buf_ok mem file b \<Longrightarrow> range_placed rg off t \<Longrightarrow> singlepart_loop rg off bs = (passed, out, off') \<Longrightarrow>
    chain_bytes mem file out = window (r_start rg) (r_end rg) t (chain_bytes mem file bs) \<and>
    range_placed rg off' (t + int (length (chain_bytes mem file bs))) \<and> (passed \<or> chain_bytes mem file out = [])"
proof (induction bs arbitrary: off t out passed off')
  case Nil
  then show ?case by simp
next
  case (Cons b bs)
  have ok: "range_buf_ok mem file b" and oks: "\<forall>b \<in> set bs. range_buf_ok mem file b" using Cons.prems(1) by simp_all
  note l = buf_bytes_length[OF ok]
  note nn = buf_size_nonneg[OF ok]
  obtain p1 out1 off1 where r: "singlepart_loop rg (off + buf_size b) bs = (p1, out1, off1)" by (cases "singlepart_loop rg (off + buf_size b) bs")
  have range_placed: "range_placed rg (off + buf_size b) (t + int (length (buf_bytes mem file b)))"
    using Cons.prems(2) l nn by (auto simp: range_placed_def)
  note IH = Cons.IH[OF oks range_placed r]
  have w: "window (r_start rg) (r_end rg) t (chain_bytes mem file (b # bs)) =
      window (r_start rg) (r_end rg) t (buf_bytes mem file b) @
      window (r_start rg) (r_end rg) (t + int (length (buf_bytes mem file b))) (chain_bytes mem file bs)"
    by (simp add: window_append)
  consider "buf_special b" | "\<not> buf_special b" "r_end rg \<le> off \<or> r_start rg \<ge> off + buf_size b"
    | "\<not> buf_special b" "off < r_end rg" "r_start rg < off + buf_size b" "r_end rg \<le> off + buf_size b"
    | "\<not> buf_special b" "off < r_end rg" "r_start rg < off + buf_size b" "\<not> r_end rg \<le> off + buf_size b"
    by linarith
  then show ?case
  proof cases
    case 1
    then have "buf_bytes mem file b = []" by (simp add: buf_special_def buf_bytes_def)
    moreover have "out = b # out1" "off' = off1" "passed" using Cons.prems(3) 1 r by simp_all
    ultimately show ?thesis using IH by simp
  next
    case 2
    have "window (r_start rg) (r_end rg) t (buf_bytes mem file b) = []"
      using 2(2) Cons.prems(2) l nn by (auto simp: range_placed_def intro: window_before window_after)
    moreover have "out = (if p1 then out1 else skip_buf b # out1)" "off' = off1" "passed = p1" using Cons.prems(3) 2 r by auto
    ultimately show ?thesis using IH w by (cases p1) (auto simp: add.assoc simp del: concat_eq_Nil_conv)
  next
    case 3
    have t: "off = t" using Cons.prems(2) 3(2) by (auto simp: range_placed_def)
    have "window (r_start rg) (r_end rg) (t + int (length (buf_bytes mem file b))) (chain_bytes mem file bs) = []"
      using 3(4) l t by (intro window_before) simp
    moreover have "singlepart_loop rg off (b # bs) =
        (True, [cut_back (off + buf_size b - r_end rg) (if r_start rg > off then cut_front (r_start rg - off) b else b)], off + buf_size b)"
      using 3 by (simp add: Let_def)
    ultimately show ?thesis using kept_window(2)[OF ok 3(2,3) assms 3(4)] w t l 3(4) Cons.prems(3) by (auto simp: range_placed_def)
  next
    case 4
    have t: "off = t" using Cons.prems(2) 4(2) by (auto simp: range_placed_def)
    have "out = (if r_start rg > off then cut_front (r_start rg - off) b else b) # out1" "off' = off1" "passed"
      using Cons.prems(3) 4 r by (simp_all add: Let_def)
    then show ?thesis using kept_window(1)[OF ok 4(2,3) assms] 4(4) IH w t by (simp add: add.assoc)
  qed
qed

section \<open>The answer to a request for ranges\<close>

fun piece_bytes :: "(int \<Rightarrow> u_char) \<Rightarrow> (int \<Rightarrow> u_char) \<Rightarrow> piece \<Rightarrow> bytes" where
  "piece_bytes mem file (Text t l) = t"
| "piece_bytes mem file (Buf b) = buf_bytes mem file b"

definition pieces_bytes :: "(int \<Rightarrow> u_char) \<Rightarrow> (int \<Rightarrow> u_char) \<Rightarrow> piece list \<Rightarrow> bytes" where
  "pieces_bytes mem file ps = concat (map (piece_bytes mem file) ps)"

lemma pieces_bytes_simps [simp]:
  "pieces_bytes mem file [] = []" "pieces_bytes mem file (p # ps) = piece_bytes mem file p @ pieces_bytes mem file ps"
  "pieces_bytes mem file (ps @ qs) = pieces_bytes mem file ps @ pieces_bytes mem file qs"
  "pieces_bytes mem file (map Buf bs) = chain_bytes mem file bs"
  by (simp_all add: pieces_bytes_def comp_def)

definition slice_of :: "bytes \<Rightarrow> http_range \<Rightarrow> bytes" where
  "slice_of content rg = take (nat (r_end rg - r_start rg)) (drop (nat (r_start rg)) content)"

lemma slice_window: "0 \<le> r_start rg \<Longrightarrow> r_start rg \<le> r_end rg \<Longrightarrow> slice_of content rg = window (r_start rg) (r_end rg) 0 content"
  by (simp add: slice_of_def window_def take_drop nat_diff_distrib)

lemma slice_length: "0 \<le> r_start rg \<Longrightarrow> r_start rg \<le> r_end rg \<Longrightarrow> r_end rg \<le> int (length content) \<Longrightarrow>
    int (length (slice_of content rg)) = r_end rg - r_start rg"
  by (simp add: slice_of_def)

lemma single_calls_window:
  assumes "r_start rg < r_end rg"
  shows "c_ranges ctx = [rg] \<Longrightarrow> \<forall>bs \<in> set calls. \<forall>b \<in> set bs. range_buf_ok mem file b \<Longrightarrow> range_placed rg (c_offset ctx) t \<Longrightarrow>
    pieces_bytes mem file (range_calls alloc (Some ctx) calls) = window (r_start rg) (r_end rg) t (chain_bytes mem file (concat calls))"
proof (induction calls arbitrary: ctx t)
  case (Cons bs calls)
  obtain p out off where r: "singlepart_loop rg (c_offset ctx) bs = (p, out, off)" by (cases "singlepart_loop rg (c_offset ctx) bs")
  have ok: "\<forall>b \<in> set bs. range_buf_ok mem file b" and oks: "\<forall>bs \<in> set calls. \<forall>b \<in> set bs. range_buf_ok mem file b" using Cons.prems(2) by simp_all
  note W = singlepart_loop_window[OF assms ok Cons.prems(3) r]
  have none: "chain_bytes mem file out = []" if "\<not> p" using W that by blast
  have step: "pieces_bytes mem file (range_calls alloc (Some ctx) (bs # calls)) =
      chain_bytes mem file out @ pieces_bytes mem file (range_calls alloc (Some (ctx\<lparr> c_offset := off \<rparr>)) calls)"
    using r Cons.prems(1) none
    by (cases bs; cases p) (auto simp: ngx_http_range_body_filter_def ngx_http_range_singlepart_body_def NGX_OK_def
      simp del: singlepart_loop.simps(2) concat_eq_Nil_conv)
  have "pieces_bytes mem file (range_calls alloc (Some (ctx\<lparr> c_offset := off \<rparr>)) calls) =
      window (r_start rg) (r_end rg) (t + int (length (chain_bytes mem file bs))) (chain_bytes mem file (concat calls))"
    using Cons.prems(1) oks W by (intro Cons.IH) simp_all
  then show ?case using step W by (simp add: window_append)
qed simp

lemma multipart_header_next:
  assumes "ngx_http_range_multipart_header alloc boundary ctx0 h0 = Next h' (Some ctx)"
  shows "c_ranges ctx = c_ranges ctx0 \<and> c_offset ctx = c_offset ctx0 \<and> o_status h' = o_status h0 \<and> \<not> o_has_length h' \<and>
    o_length_n h' = off_wrap (multipart_len (boundary_header boundary h0) (o_length_n h0) (c_ranges ctx0)) \<and>
    c_boundary_header ctx = boundary_header boundary h0 \<and>
    c_content_range ctx = map (content_range_text (o_length_n h0)) (c_ranges ctx0)"
  using assms unfolding ngx_http_range_multipart_header_def Let_def by (auto simp: clear_length_def split: if_splits)

lemma singlepart_header_next:
  assumes "ngx_http_range_singlepart_header alloc q ctx0 h0 = Next h' (Some ctx)" "q_main q"
  shows "ctx = ctx0 \<and> o_status h' = o_status h0 \<and> \<not> o_has_length h' \<and>
    o_length_n h' = r_end (hd (c_ranges ctx0)) - r_start (hd (c_ranges ctx0)) \<and>
    o_content_range h' = Some (chars ''bytes '' @ fmt_O (r_start (hd (c_ranges ctx0))) @ chars ''-''
      @ fmt_O (r_end (hd (c_ranges ctx0)) - 1) @ chars ''/'' @ fmt_O (o_length_n h0))"
  using assms unfolding ngx_http_range_singlepart_header_def Let_def by (auto simp: clear_length_def split: if_splits)

lemma accept_ranges_no_ctx: "accept_ranges alloc h \<noteq> Next h' (Some ctx)" and not_satisfiable_no_ctx: "ngx_http_range_not_satisfiable alloc h \<noteq> Next h' (Some ctx)"
  by (simp_all add: accept_ranges_def ngx_http_range_not_satisfiable_def Let_def)

definition range_start_ctx :: "headers_out \<Rightarrow> http_range list \<Rightarrow> range_ctx" where
  "range_start_ctx h rs = \<lparr> c_offset = o_offset h, c_boundary_header = [], c_ranges = rs, c_content_range = [] \<rparr>"

lemma header_filter_ctx:
  assumes "ngx_http_range_header_filter alloc boundary max_ranges main q h = Some (Next h' (Some ctx))" "q_main q"
  shows "\<exists>alloc' val n rs. ngx_http_range_parse alloc' None val (o_length_n h) n = Some (NGX_OK, rs) \<and>
    (if length rs = 1
     then ngx_http_range_singlepart_header alloc q (range_start_ctx h rs) (h\<lparr> o_status := NGX_HTTP_PARTIAL_CONTENT, o_status_line := [] \<rparr>)
     else ngx_http_range_multipart_header alloc boundary (range_start_ctx h rs) (h\<lparr> o_status := NGX_HTTP_PARTIAL_CONTENT, o_status_line := [] \<rparr>))
    = Next h' (Some ctx)"
  using assms unfolding ngx_http_range_header_filter_def Let_def
  by (auto simp: accept_ranges_no_ctx not_satisfiable_no_ctx range_start_ctx_def split: if_splits option.splits) blast+

lemma boundary_header_status [simp]: "boundary_header boundary (h\<lparr> o_status := s, o_status_line := l \<rparr>) = boundary_header boundary h"
  by (simp add: boundary_header_def has_charset_def)

lemma header_filter_range:
  assumes "ngx_http_range_header_filter alloc boundary max_ranges main q h = Some (Next h' (Some ctx))" "q_main q"
  shows "\<exists>alloc' val n. ngx_http_range_parse alloc' None val (o_length_n h) n = Some (NGX_OK, c_ranges ctx)"
    and "c_offset ctx = o_offset h" "o_status h' = NGX_HTTP_PARTIAL_CONTENT" "\<not> o_has_length h'"
    and "length (c_ranges ctx) = 1 \<Longrightarrow> o_length_n h' = r_end (hd (c_ranges ctx)) - r_start (hd (c_ranges ctx)) \<and>
      o_content_range h' = Some (chars ''bytes '' @ fmt_O (r_start (hd (c_ranges ctx))) @ chars ''-'' @ fmt_O (r_end (hd (c_ranges ctx)) - 1)
          @ chars ''/'' @ fmt_O (o_length_n h))"
    and "length (c_ranges ctx) \<noteq> 1 \<Longrightarrow>
      o_length_n h' = off_wrap (multipart_len (boundary_header boundary h) (o_length_n h) (c_ranges ctx)) \<and>
      c_boundary_header ctx = boundary_header boundary h \<and>
      c_content_range ctx = map (content_range_text (o_length_n h)) (c_ranges ctx)"
proof -
  obtain alloc' val n rs where p: "ngx_http_range_parse alloc' None val (o_length_n h) n = Some (NGX_OK, rs)"
    and f: "(if length rs = 1
     then ngx_http_range_singlepart_header alloc q (range_start_ctx h rs) (h\<lparr> o_status := NGX_HTTP_PARTIAL_CONTENT, o_status_line := [] \<rparr>)
     else ngx_http_range_multipart_header alloc boundary (range_start_ctx h rs) (h\<lparr> o_status := NGX_HTTP_PARTIAL_CONTENT, o_status_line := [] \<rparr>))
    = Next h' (Some ctx)"
    using header_filter_ctx[OF assms] by blast
  have one: "length rs = 1 \<Longrightarrow> ctx = range_start_ctx h rs \<and> o_status h' = NGX_HTTP_PARTIAL_CONTENT \<and> \<not> o_has_length h' \<and>
    o_length_n h' = r_end (hd rs) - r_start (hd rs) \<and>
    o_content_range h' = Some (chars ''bytes '' @ fmt_O (r_start (hd rs)) @ chars ''-''
      @ fmt_O (r_end (hd rs) - 1) @ chars ''/'' @ fmt_O (o_length_n h))"
    using singlepart_header_next[OF _ assms(2), of alloc "range_start_ctx h rs" "h\<lparr> o_status := NGX_HTTP_PARTIAL_CONTENT, o_status_line := [] \<rparr>" h' ctx] f
    by (simp add: range_start_ctx_def)
  have many: "length rs \<noteq> 1 \<Longrightarrow> c_ranges ctx = rs \<and> c_offset ctx = o_offset h \<and> o_status h' = NGX_HTTP_PARTIAL_CONTENT \<and> \<not> o_has_length h' \<and>
    o_length_n h' = off_wrap (multipart_len (boundary_header boundary h) (o_length_n h) rs) \<and>
    c_boundary_header ctx = boundary_header boundary h \<and> c_content_range ctx = map (content_range_text (o_length_n h)) rs"
    using multipart_header_next[of alloc boundary "range_start_ctx h rs" "h\<lparr> o_status := NGX_HTTP_PARTIAL_CONTENT, o_status_line := [] \<rparr>" h' ctx] f
    by (simp add: range_start_ctx_def)
  have rs: "c_ranges ctx = rs" using one many by (cases "length rs = 1") (simp_all add: range_start_ctx_def)
  show "\<exists>alloc' val n. ngx_http_range_parse alloc' None val (o_length_n h) n = Some (NGX_OK, c_ranges ctx)"
    unfolding rs using p by blast
  show "c_offset ctx = o_offset h" "o_status h' = NGX_HTTP_PARTIAL_CONTENT" "\<not> o_has_length h'"
    using one many by (cases "length rs = 1"; simp add: range_start_ctx_def)+
  show "length (c_ranges ctx) = 1 \<Longrightarrow> o_length_n h' = r_end (hd (c_ranges ctx)) - r_start (hd (c_ranges ctx)) \<and>
      o_content_range h' = Some (chars ''bytes '' @ fmt_O (r_start (hd (c_ranges ctx))) @ chars ''-'' @ fmt_O (r_end (hd (c_ranges ctx)) - 1)
          @ chars ''/'' @ fmt_O (o_length_n h))"
    unfolding rs using one by blast
  show "length (c_ranges ctx) \<noteq> 1 \<Longrightarrow>
      o_length_n h' = off_wrap (multipart_len (boundary_header boundary h) (o_length_n h) (c_ranges ctx)) \<and>
      c_boundary_header ctx = boundary_header boundary h \<and>
      c_content_range ctx = map (content_range_text (o_length_n h)) (c_ranges ctx)"
    unfolding rs using many by blast
qed

lemma ranges_one_within:
  assumes "ngx_http_range_parse alloc None val cl n = Some (NGX_OK, [rg])" "cl \<le> NGX_MAX_OFF_T_VALUE"
  shows "0 \<le> r_start rg \<and> r_start rg < r_end rg \<and> r_end rg \<le> cl"
proof -
  obtain sz where inv: "ranges_inv cl sz [rg]" and sz: "sz \<le> cl" using parse_inv[OF assms(1)] by blast
  have r: "r_start rg < r_end rg" "in_text cl (r_start rg) (r_end rg)" using inv by (simp_all add: ranges_inv_def)
  have "off_wrap (r_end rg - r_start rg) = r_end rg - r_start rg"
    using r assms(2) by (intro off_wrap_id) (auto simp: in_text_def NGX_MAX_OFF_T_VALUE_def)
  then have "r_end rg - r_start rg \<le> cl" using inv sz by (simp add: ranges_inv_def)
  then show ?thesis using r by (auto simp: in_text_def)
qed

text \<open>
  Property C8 (refinement).  A request for one range gets that range.  When the header filter answers 206 with one range,
  the range lies within the text, the line \<^verbatim>\<open>Content-Range\<close> names it, and the bytes that the body filter passes on are those
  of the range, as many as the header announces, however the text is split into buffers, in memory or in files, and
  into calls of the filter.
\<close>
theorem range_single_response:
  assumes "ngx_http_range_header_filter alloc boundary max_ranges main q h = Some (Next h' (Some ctx))" "q_main q"
    and "c_ranges ctx = [rg]" and "o_offset h = 0" and "o_length_n h \<le> NGX_MAX_OFF_T_VALUE"
    and "\<forall>bs \<in> set calls. \<forall>b \<in> set bs. range_buf_ok mem file b"
    and "chain_bytes mem file (concat calls) = content" and "int (length content) = o_length_n h"
  shows "pieces_bytes mem file (range_calls alloc' (Some ctx) calls) = slice_of content rg \<and>
    0 \<le> r_start rg \<and> r_start rg < r_end rg \<and> r_end rg \<le> int (length content) \<and>
    o_status h' = NGX_HTTP_PARTIAL_CONTENT \<and> o_length_n h' = int (length (slice_of content rg)) \<and>
    o_content_range h' = Some (chars ''bytes '' @ fmt_O (r_start rg) @ chars ''-'' @ fmt_O (r_end rg - 1) @ chars ''/'' @ fmt_O (o_length_n h))"
proof -
  note H = header_filter_range[OF assms(1,2)]
  have w: "0 \<le> r_start rg \<and> r_start rg < r_end rg \<and> r_end rg \<le> o_length_n h"
    using H(1) ranges_one_within[OF _ assms(5)] unfolding assms(3) by blast
  have "pieces_bytes mem file (range_calls alloc' (Some ctx) calls) = window (r_start rg) (r_end rg) 0 content"
    using single_calls_window[OF _ assms(3,6), of 0] w H(2) assms(4,7) by (simp add: range_placed_def)
  then show ?thesis using w H(3,5) assms(3,8) slice_window[of rg content] slice_length[of rg content] by simp
qed

lemma fmt_0muA_length [simp]: "length (fmt_0muA n) = NGX_ATOMIC_T_LEN"
proof -
  have "length (num_digits n []) \<le> 20"
  proof (cases "uint n < 10")
    case True
    then have "uint (n div 10) = 0" by (simp add: uint_div_distrib)
    then have "n div 10 = 0" by (simp only: uint_0_iff)
    then show ?thesis by (simp add: num_digits.simps[of n] Let_def)
  next
    case False
    have "\<exists>k < 20. 10 ^ k \<le> uint n \<and> uint n < 10 ^ Suc k"
    proof -
      have top: "uint n < 10 ^ 20" using uint_lt2p[of n] by (simp add: order_less_le_trans)
      define k where "k = (LEAST k. uint n < 10 ^ Suc k)"
      have ex: "uint n < 10 ^ Suc 19" using top by simp
      have "uint n < 10 ^ Suc k" unfolding k_def by (rule LeastI) (rule ex)
      moreover have "k \<le> 19" unfolding k_def by (rule Least_le) (rule ex)
      moreover have "10 ^ k \<le> uint n"
      proof (cases k)
        case 0
        then show ?thesis using False by simp
      next
        case (Suc j)
        then have "\<not> uint n < 10 ^ Suc j" using not_less_Least[of j "\<lambda>k. uint n < 10 ^ Suc k"] k_def by auto
        then show ?thesis using Suc by simp
      qed
      ultimately show ?thesis by (intro exI[of _ k]) simp
    qed
    then show ?thesis using num_digits_length[of _ n] by fastforce
  qed
  then show ?thesis by (simp add: fmt_0muA_def ngx_sprintf_num_def Let_def NGX_ATOMIC_T_LEN_def)
qed

lemma boundary_line: "take (4 + NGX_ATOMIC_T_LEN) (boundary_header boundary h) = CRLF @ chars ''--'' @ fmt_0muA boundary"
proof -
  define pre where "pre = CRLF @ chars ''--'' @ fmt_0muA boundary"
  have "length pre = 4 + NGX_ATOMIC_T_LEN" by (simp add: pre_def chars_def)
  moreover have "\<exists>r. boundary_header boundary h = pre @ r" unfolding boundary_header_def pre_def append_assoc by blast
  ultimately show ?thesis unfolding pre_def[symmetric] by (metis append_eq_conv_conj)
qed

text \<open>The body of a multipart answer.\<close>

definition multipart_body_text :: "uint64 \<Rightarrow> headers_out \<Rightarrow> bytes \<Rightarrow> http_range list \<Rightarrow> bytes" where
  "multipart_body_text boundary h content rs =
     concat (map (\<lambda>rg. boundary_header boundary h @ content_range_text (int (length content)) rg @ slice_of content rg) rs)
     @ CRLF @ chars ''--'' @ fmt_0muA boundary @ chars ''--'' @ CRLF"

lemma stretch_part:
  assumes "0 \<le> s" "s \<le> e" "a + e \<le> b"
  shows "stretch f (a + s) (a + e) = take (nat (e - s)) (drop (nat s) (stretch f a b))"
proof -
  have "drop (nat s) (stretch f a b) = stretch f (a + s) b" using assms by (intro drop_cut) auto
  moreover have "take (nat (e - s)) (stretch f (a + s) b) = stretch f (a + s) (a + s + (e - s))" using assms by (intro take_cut) auto
  ultimately show ?thesis by (simp add: add.assoc)
qed

lemma range_part_bytes:
  assumes "range_buf_ok mem file b" "0 \<le> r_start rg" "r_start rg < r_end rg" "r_end rg \<le> int (length (buf_bytes mem file b))"
  shows "buf_bytes mem file (range_part b rg) = slice_of (buf_bytes mem file b) rg"
  using assms stretch_part[of "r_start rg" "r_end rg" "b_pos b" "b_last b" "mem"]
    stretch_part[of "r_start rg" "r_end rg" "b_file_pos b" "b_file_last b" "file"]
  by (simp add: buf_bytes_def range_part_def slice_of_def split: if_splits)

lemma multipart_pieces:
  assumes "range_buf_ok mem file b" "\<forall>rg \<in> set rs. 0 \<le> r_start rg \<and> r_start rg < r_end rg \<and> r_end rg \<le> int (length (buf_bytes mem file b))"
  shows "pieces_bytes mem file (concat (map2 (\<lambda>rg t. [Text bh False, Text t False, Buf (range_part b rg)]) rs (map f rs))) =
    concat (map (\<lambda>rg. bh @ f rg @ slice_of (buf_bytes mem file b) rg) rs)"
  using assms(2) by (induction rs) (simp_all add: range_part_bytes[OF assms(1)])

lemma multipart_len_acc:
  "foldl (\<lambda>len rg. len + (int (length bh) + int (length (content_range_text full rg)) + (r_end rg - r_start rg))) a rs =
   a + (\<Sum>rg\<leftarrow>rs. int (length bh) + int (length (content_range_text full rg)) + (r_end rg - r_start rg))"
  by (induction rs arbitrary: a) simp_all

lemma multipart_text_length:
  assumes "\<forall>rg \<in> set rs. 0 \<le> r_start rg \<and> r_start rg < r_end rg \<and> r_end rg \<le> int (length content)"
  shows "int (length (multipart_body_text boundary h content rs)) = multipart_len (boundary_header boundary h) (int (length content)) rs"
proof -
  have "int (length (concat (map (\<lambda>rg. boundary_header boundary h @ content_range_text (int (length content)) rg @ slice_of content rg) rs))) =
    (\<Sum>rg\<leftarrow>rs. int (length (boundary_header boundary h)) + int (length (content_range_text (int (length content)) rg)) + (r_end rg - r_start rg))"
    using assms by (induction rs) (simp_all add: slice_length)
  then show ?thesis by (simp add: multipart_body_text_def multipart_len_def multipart_len_acc chars_def)
qed

text \<open>
  Property C9 (refinement).  A main request for several ranges gets a multipart body.  When the header filter answers 206 with
  more or fewer than one range, none of the text is sent yet, the sizes of the ranges sum up to no more than an off_t holds (without which they need
  not lie in the text, see \<open>range_sum_wraps\<close>), the text is in one buffer and no allocation of the body filter fails, then the body filter
  passes on, for each range in order, the boundary, the line with the range and its bytes, and then the last boundary,
  and the length the header announces is the length of that body (wrapped to 64 bits, as compiled).
\<close>
theorem range_multipart_response:
  assumes "ngx_http_range_header_filter alloc boundary max_ranges main q h = Some (Next h' (Some ctx))" "q_main q"
    and "length (c_ranges ctx) \<noteq> 1" and "ranges_size (c_ranges ctx) \<le> NGX_MAX_OFF_T_VALUE" and "o_offset h = 0"
    and "range_buf_ok mem file b" and "\<not> buf_special b"
    and "buf_bytes mem file b = content" and "int (length content) = o_length_n h"
    and "\<forall>k < 6 * length (c_ranges ctx) + 3. alloc' k"
  shows "pieces_bytes mem file (range_calls alloc' (Some ctx) [b # bs]) = multipart_body_text boundary h content (c_ranges ctx) \<and>
    o_length_n h' = off_wrap (int (length (multipart_body_text boundary h content (c_ranges ctx)))) \<and>
    o_status h' = NGX_HTTP_PARTIAL_CONTENT"
proof -
  note H = header_filter_range[OF assms(1,2)]
  obtain al val n where p: "ngx_http_range_parse al None val (o_length_n h) n = Some (NGX_OK, c_ranges ctx)" using H(1) by blast
  have w: "\<forall>rg \<in> set (c_ranges ctx). 0 \<le> r_start rg \<and> r_start rg < r_end rg \<and> r_end rg \<le> int (length content)"
    using ranges_within[OF p assms(4)] assms(9) by simp
  have bh: "c_boundary_header ctx = boundary_header boundary h" "c_content_range ctx = map (content_range_text (int (length content))) (c_ranges ctx)"
    using H(6)[OF assms(3)] assms(9) by simp_all
  have size: "buf_size b = int (length content)" using buf_bytes_length[OF assms(6)] assms(8) by simp
  have test: "ngx_http_range_test_overlapped ctx b = (NGX_OK, ctx\<lparr> c_offset := buf_size b \<rparr>)"
    using w H(2) assms(5) size by (auto simp: ngx_http_range_test_overlapped_def)
  have nofail: "\<not> (\<exists>k < 6 * length (c_ranges ctx) + 3. \<not> alloc' k)" using assms(10) by blast
  have "range_calls alloc' (Some ctx) [b # bs] =
      concat (map2 (\<lambda>rg t. [Text (c_boundary_header ctx) False, Text t False, Buf (range_part b rg)]) (c_ranges ctx) (c_content_range ctx))
         @ [Text (take (4 + NGX_ATOMIC_T_LEN) (c_boundary_header ctx) @ chars ''--'' @ CRLF) True]"
    using assms(3,7) test nofail by (simp add: ngx_http_range_body_filter_def ngx_http_range_multipart_body_def)
  then have "pieces_bytes mem file (range_calls alloc' (Some ctx) [b # bs]) = multipart_body_text boundary h content (c_ranges ctx)"
    using multipart_pieces[OF assms(6), of "c_ranges ctx" "boundary_header boundary h" "content_range_text (int (length content))"] w assms(8)
    by (simp add: bh boundary_line multipart_body_text_def)
  then show ?thesis using multipart_text_length[OF w, of boundary h] H(3) H(6)[OF assms(3)] assms(9) by simp
qed

text \<open>
  Fact (bounds).  The texts of a multipart header fit into what is allocated for them.
\<close>
lemma multipart_texts_fit: "length (boundary_header boundary h) \<le> boundary_header_size h"
  by (simp add: boundary_header_def boundary_header_size_def chars_def)

section \<open>Two requests\<close>

definition example_headers :: headers_out where
  "example_headers = \<lparr> o_status = 200, o_status_line = [], o_length_n = 8, o_offset = 0, o_has_length = True, o_content_range = None,
     o_accept_ranges = None, o_type = chars ''text/plain'', o_type_len = 10, o_charset = [], o_etag = Some (chars ''\"1\"''), o_modified = 0 \<rparr>"

definition example_request :: "string \<Rightarrow> range_request" where
  "example_request rg = \<lparr> q_version = 1001, q_main = True, q_subrequest_ranges = False, q_allow_ranges = True, q_single_range = False,
     q_range = Some (chars rg), q_if_range = Some (chars ''\"1\"'') \<rparr>"

definition example_mem :: "int \<Rightarrow> u_char" where
  "example_mem i = word_of_int (97 + i)"

definition example_buf :: "bool \<Rightarrow> int \<Rightarrow> int \<Rightarrow> out_range_buf" where
  "example_buf m p l = \<lparr> b_memory = m, b_pos = p, b_last = l, b_in_file = \<not> m, b_file_pos = p, b_file_last = l, b_flush = False, b_sync = False, b_last_buf = False \<rparr>"

lemma range_single_response_witness:
  "pieces_bytes example_mem example_mem
     (range_calls (\<lambda>k. True) (Some \<lparr> c_offset = 0, c_boundary_header = [], c_ranges = [\<lparr> r_start = 2, r_end = 6 \<rparr>], c_content_range = [] \<rparr>)
       [[example_buf True 0 4], [example_buf False 4 8]]) = chars ''cdef''"
proof -

  have h: "ngx_http_range_header_filter (\<lambda>s. True) 7 100 None (example_request ''bytes=2-5'') example_headers =
    Some (Next (example_headers\<lparr> o_status := 206, o_length_n := 4, o_offset := 2, o_has_length := False,
       o_content_range := Some (chars ''bytes 2-5/8'') \<rparr>) (Some \<lparr> c_offset = 0, c_boundary_header = [], c_ranges = [\<lparr> r_start = 2, r_end = 6 \<rparr>], c_content_range = [] \<rparr>))"
    by code_simp
  have q: "q_main (example_request ''bytes=2-5'')" by (simp add: example_request_def)
  have ok: "\<forall>bs \<in> set [[example_buf True 0 4], [example_buf False 4 8]]. \<forall>b \<in> set bs. range_buf_ok example_mem example_mem b"
    by (simp add: range_buf_ok_def example_buf_def)
  have content: "chain_bytes example_mem example_mem (concat [[example_buf True 0 4], [example_buf False 4 8]]) = chars ''abcdefgh''" by code_simp
  have o: "o_offset example_headers = 0" "o_length_n example_headers \<le> NGX_MAX_OFF_T_VALUE" "int (length (chars ''abcdefgh'')) = o_length_n example_headers"
    by (simp_all add: example_headers_def NGX_MAX_OFF_T_VALUE_def chars_def)
  have s: "slice_of (chars ''abcdefgh'') \<lparr> r_start = 2, r_end = 6 \<rparr> = chars ''cdef''" by code_simp
  show ?thesis
    using range_single_response[OF h q _ o(1,2) ok content o(3), of _ "\<lambda>k. True"] by (simp add: s)
qed

lemma range_multipart_response_witness:
  "\<exists>h' ctx. ngx_http_range_header_filter (\<lambda>s. True) 7 100 None (example_request ''bytes=0-1,-3'') example_headers = Some (Next h' (Some ctx)) \<and>
     pieces_bytes example_mem example_mem (range_calls (\<lambda>k. True) (Some ctx) [[example_buf True 0 8]]) =
       multipart_body_text 7 example_headers (chars ''abcdefgh'') [\<lparr> r_start = 0, r_end = 2 \<rparr>, \<lparr> r_start = 5, r_end = 8 \<rparr>]"
proof -
  have p: "ngx_http_range_parse (\<lambda>i. True) None (chars ''bytes=0-1,-3'') 8 100 =
    Some (NGX_OK, [\<lparr> r_start = 0, r_end = 2 \<rparr>, \<lparr> r_start = 5, r_end = 8 \<rparr>])" by code_simp
  have pre: "ngx_strncasecmp (chars ''bytes=0-1,-3'') (chars ''bytes='') 6 = Some 0" "if_range_holds example_headers (chars ''\"1\"'')"
    "length (chars ''bytes=0-1,-3'') = 12" by code_simp+
  have "\<exists>h' ctx. ngx_http_range_header_filter (\<lambda>s. True) 7 100 None (example_request ''bytes=0-1,-3'') example_headers = Some (Next h' (Some ctx)) \<and>
      c_ranges ctx = [\<lparr> r_start = 0, r_end = 2 \<rparr>, \<lparr> r_start = 5, r_end = 8 \<rparr>]"
    using p pre by (simp add: ngx_http_range_header_filter_def example_request_def example_headers_def NGX_HTTP_VERSION_10_def
        NGX_HTTP_OK_def ngx_http_range_multipart_header_def Let_def)
  then obtain h' ctx where h: "ngx_http_range_header_filter (\<lambda>s. True) 7 100 None (example_request ''bytes=0-1,-3'') example_headers = Some (Next h' (Some ctx))"
    and c: "c_ranges ctx = [\<lparr> r_start = 0, r_end = 2 \<rparr>, \<lparr> r_start = 5, r_end = 8 \<rparr>]"
    by blast
  have q: "q_main (example_request ''bytes=0-1,-3'')" by (simp add: example_request_def)
  have ok: "range_buf_ok example_mem example_mem (example_buf True 0 8)" "\<not> buf_special (example_buf True 0 8)"
    by (simp_all add: range_buf_ok_def buf_special_def example_buf_def)
  have content: "buf_bytes example_mem example_mem (example_buf True 0 8) = chars ''abcdefgh''" by code_simp
  have o: "o_offset example_headers = 0" "int (length (chars ''abcdefgh'')) = o_length_n example_headers"
    by (simp_all add: example_headers_def chars_def)
  have "pieces_bytes example_mem example_mem (range_calls (\<lambda>k. True) (Some ctx) [[example_buf True 0 8]]) =
       multipart_body_text 7 example_headers (chars ''abcdefgh'') (c_ranges ctx)"
    using range_multipart_response[OF h q _ _ o(1) ok content o(2), of "\<lambda>k. True" "[]"] by (simp add: c NGX_MAX_OFF_T_VALUE_def)
  then show ?thesis using h unfolding c by blast
qed

end
