(* ===== verification/Ngx_Crc.thy ===== *)
theory Ngx_Crc
  imports Ngx_Prelude
begin

text \<open>
  The checksums: the CRC-32 of \<^verbatim>\<open>core/ngx_crc32.c\<close> and \<^verbatim>\<open>core/ngx_crc32.h\<close> in its two forms and as an incremental
  computation, the sum of \<^verbatim>\<open>core/ngx_crc.h\<close> and the MurmurHash2 of \<^verbatim>\<open>core/ngx_murmurhash.c\<close>.
\<close>

section \<open>Model\<close>

definition ngx_crc32_table16 :: "uint32 list" where
  "ngx_crc32_table16 =
    [0x00000000, 0x1db71064, 0x3b6e20c8, 0x26d930ac, 0x76dc4190, 0x6b6b51f4, 0x4db26158, 0x5005713c,
     0xedb88320, 0xf00f9344, 0xd6d6a3e8, 0xcb61b38c, 0x9b64c2b0, 0x86d3d2d4, 0xa00ae278, 0xbdbdf21c]"

definition ngx_crc32_table256 :: "uint32 list" where
  "ngx_crc32_table256 =
    [0x00000000, 0x77073096, 0xee0e612c, 0x990951ba, 0x076dc419, 0x706af48f, 0xe963a535, 0x9e6495a3,
     0x0edb8832, 0x79dcb8a4, 0xe0d5e91e, 0x97d2d988, 0x09b64c2b, 0x7eb17cbd, 0xe7b82d07, 0x90bf1d91,
     0x1db71064, 0x6ab020f2, 0xf3b97148, 0x84be41de, 0x1adad47d, 0x6ddde4eb, 0xf4d4b551, 0x83d385c7,
     0x136c9856, 0x646ba8c0, 0xfd62f97a, 0x8a65c9ec, 0x14015c4f, 0x63066cd9, 0xfa0f3d63, 0x8d080df5,
     0x3b6e20c8, 0x4c69105e, 0xd56041e4, 0xa2677172, 0x3c03e4d1, 0x4b04d447, 0xd20d85fd, 0xa50ab56b,
     0x35b5a8fa, 0x42b2986c, 0xdbbbc9d6, 0xacbcf940, 0x32d86ce3, 0x45df5c75, 0xdcd60dcf, 0xabd13d59,
     0x26d930ac, 0x51de003a, 0xc8d75180, 0xbfd06116, 0x21b4f4b5, 0x56b3c423, 0xcfba9599, 0xb8bda50f,
     0x2802b89e, 0x5f058808, 0xc60cd9b2, 0xb10be924, 0x2f6f7c87, 0x58684c11, 0xc1611dab, 0xb6662d3d,
     0x76dc4190, 0x01db7106, 0x98d220bc, 0xefd5102a, 0x71b18589, 0x06b6b51f, 0x9fbfe4a5, 0xe8b8d433,
     0x7807c9a2, 0x0f00f934, 0x9609a88e, 0xe10e9818, 0x7f6a0dbb, 0x086d3d2d, 0x91646c97, 0xe6635c01,
     0x6b6b51f4, 0x1c6c6162, 0x856530d8, 0xf262004e, 0x6c0695ed, 0x1b01a57b, 0x8208f4c1, 0xf50fc457,
     0x65b0d9c6, 0x12b7e950, 0x8bbeb8ea, 0xfcb9887c, 0x62dd1ddf, 0x15da2d49, 0x8cd37cf3, 0xfbd44c65,
     0x4db26158, 0x3ab551ce, 0xa3bc0074, 0xd4bb30e2, 0x4adfa541, 0x3dd895d7, 0xa4d1c46d, 0xd3d6f4fb,
     0x4369e96a, 0x346ed9fc, 0xad678846, 0xda60b8d0, 0x44042d73, 0x33031de5, 0xaa0a4c5f, 0xdd0d7cc9,
     0x5005713c, 0x270241aa, 0xbe0b1010, 0xc90c2086, 0x5768b525, 0x206f85b3, 0xb966d409, 0xce61e49f,
     0x5edef90e, 0x29d9c998, 0xb0d09822, 0xc7d7a8b4, 0x59b33d17, 0x2eb40d81, 0xb7bd5c3b, 0xc0ba6cad,
     0xedb88320, 0x9abfb3b6, 0x03b6e20c, 0x74b1d29a, 0xead54739, 0x9dd277af, 0x04db2615, 0x73dc1683,
     0xe3630b12, 0x94643b84, 0x0d6d6a3e, 0x7a6a5aa8, 0xe40ecf0b, 0x9309ff9d, 0x0a00ae27, 0x7d079eb1,
     0xf00f9344, 0x8708a3d2, 0x1e01f268, 0x6906c2fe, 0xf762575d, 0x806567cb, 0x196c3671, 0x6e6b06e7,
     0xfed41b76, 0x89d32be0, 0x10da7a5a, 0x67dd4acc, 0xf9b9df6f, 0x8ebeeff9, 0x17b7be43, 0x60b08ed5,
     0xd6d6a3e8, 0xa1d1937e, 0x38d8c2c4, 0x4fdff252, 0xd1bb67f1, 0xa6bc5767, 0x3fb506dd, 0x48b2364b,
     0xd80d2bda, 0xaf0a1b4c, 0x36034af6, 0x41047a60, 0xdf60efc3, 0xa867df55, 0x316e8eef, 0x4669be79,
     0xcb61b38c, 0xbc66831a, 0x256fd2a0, 0x5268e236, 0xcc0c7795, 0xbb0b4703, 0x220216b9, 0x5505262f,
     0xc5ba3bbe, 0xb2bd0b28, 0x2bb45a92, 0x5cb36a04, 0xc2d7ffa7, 0xb5d0cf31, 0x2cd99e8b, 0x5bdeae1d,
     0x9b64c2b0, 0xec63f226, 0x756aa39c, 0x026d930a, 0x9c0906a9, 0xeb0e363f, 0x72076785, 0x05005713,
     0x95bf4a82, 0xe2b87a14, 0x7bb12bae, 0x0cb61b38, 0x92d28e9b, 0xe5d5be0d, 0x7cdcefb7, 0x0bdbdf21,
     0x86d3d2d4, 0xf1d4e242, 0x68ddb3f8, 0x1fda836e, 0x81be16cd, 0xf6b9265b, 0x6fb077e1, 0x18b74777,
     0x88085ae6, 0xff0f6a70, 0x66063bca, 0x11010b5c, 0x8f659eff, 0xf862ae69, 0x616bffd3, 0x166ccf45,
     0xa00ae278, 0xd70dd2ee, 0x4e048354, 0x3903b3c2, 0xa7672661, 0xd06016f7, 0x4969474d, 0x3e6e77db,
     0xaed16a4a, 0xd9d65adc, 0x40df0b66, 0x37d83bf0, 0xa9bcae53, 0xdebb9ec5, 0x47b2cf7f, 0x30b5ffe9,
     0xbdbdf21c, 0xcabac28a, 0x53b39330, 0x24b4a3a6, 0xbad03605, 0xcdd70693, 0x54de5729, 0x23d967bf,
     0xb3667a2e, 0xc4614ab8, 0x5d681b02, 0x2a6f2b94, 0xb40bbe37, 0xc30c8ea1, 0x5a05df1b, 0x2d02ef8d]"

text \<open>\<^verbatim>\<open>ngx_crc32_table_short\<close> is the table of 16 words or an aligned copy of it.\<close>

definition short_step :: "uint32 \<Rightarrow> u_char \<Rightarrow> uint32" where
  "short_step crc c =
     (let crc = ngx_crc32_table16 ! unat ((crc XOR ucast (c AND 0xf)) AND 0xf) XOR drop_bit 4 crc
      in ngx_crc32_table16 ! unat ((crc XOR ucast (drop_bit 4 c)) AND 0xf) XOR drop_bit 4 crc)"

definition ngx_crc32_short :: "bytes \<Rightarrow> uint32" where
  "ngx_crc32_short p = foldl short_step 0xffffffff p XOR 0xffffffff"

definition long_step :: "uint32 \<Rightarrow> u_char \<Rightarrow> uint32" where
  "long_step crc c = ngx_crc32_table256 ! unat ((crc XOR ucast c) AND 0xff) XOR drop_bit 8 crc"

definition ngx_crc32_long :: "bytes \<Rightarrow> uint32" where
  "ngx_crc32_long p = foldl long_step 0xffffffff p XOR 0xffffffff"

definition ngx_crc32_init :: uint32 where
  "ngx_crc32_init = 0xffffffff"

definition ngx_crc32_update :: "uint32 \<Rightarrow> bytes \<Rightarrow> uint32" where
  "ngx_crc32_update crc p = foldl long_step crc p"

definition ngx_crc32_final :: "uint32 \<Rightarrow> uint32" where
  "ngx_crc32_final crc = crc XOR 0xffffffff"

definition ngx_crc :: "bytes \<Rightarrow> uint32" where
  "ngx_crc data = foldl (\<lambda>s c. (drop_bit 1 s OR push_bit 31 s) + ucast c) 0 data"

definition murmur_mix :: "uint32 \<Rightarrow> uint32" where
  "murmur_mix k = (let k = k * 0x5bd1e995; k = k XOR drop_bit 24 k in k * 0x5bd1e995)"

definition murmur_word :: "u_char \<Rightarrow> u_char \<Rightarrow> u_char \<Rightarrow> u_char \<Rightarrow> uint32" where
  "murmur_word a b c d = ucast a OR push_bit 8 (ucast b) OR push_bit 16 (ucast c) OR push_bit 24 (ucast d)"

fun murmur_loop :: "uint32 \<Rightarrow> bytes \<Rightarrow> uint32" where
  "murmur_loop h (a # b # c # d # data) = murmur_loop ((h * 0x5bd1e995) XOR murmur_mix (murmur_word a b c d)) data"
| "murmur_loop h [a, b, c] = (((h XOR push_bit 16 (ucast c)) XOR push_bit 8 (ucast b)) XOR ucast a) * 0x5bd1e995"
| "murmur_loop h [a, b] = ((h XOR push_bit 8 (ucast b)) XOR ucast a) * 0x5bd1e995"
| "murmur_loop h [a] = (h XOR ucast a) * 0x5bd1e995"
| "murmur_loop h [] = h"

definition ngx_murmur_hash2 :: "bytes \<Rightarrow> uint32" where
  "ngx_murmur_hash2 data =
     (let h = murmur_loop (0 XOR of_nat (length data)) data;
          h = h XOR drop_bit 13 h; h = h * 0x5bd1e995
      in h XOR drop_bit 15 h)"

section \<open>The polynomial\<close>

text \<open>The reference divides by the polynomial of the PNG specification, bit by bit, low bit first.\<close>

definition crc_bit :: "uint32 \<Rightarrow> uint32" where
  "crc_bit c = (if bit c 0 then 0xedb88320 XOR drop_bit 1 c else drop_bit 1 c)"

definition crc_byte :: "uint32 \<Rightarrow> u_char \<Rightarrow> uint32" where
  "crc_byte crc c = (crc_bit ^^ 8) (crc XOR ucast c)"

definition crc32_reference :: "bytes \<Rightarrow> uint32" where
  "crc32_reference p = foldl crc_byte 0xffffffff p XOR 0xffffffff"

lemma crc_bit_xor: "crc_bit (x XOR y) = crc_bit x XOR crc_bit y"
  by (cases "bit x 0"; cases "bit y 0") (simp_all add: crc_bit_def bit_xor_iff drop_bit_xor xor.assoc xor.left_commute)

lemma crc_bits_xor: "(crc_bit ^^ n) (x XOR y) = (crc_bit ^^ n) x XOR (crc_bit ^^ n) y"
  by (induction n) (simp_all add: crc_bit_xor)

lemma crc_bits_high: "take_bit n x = 0 \<Longrightarrow> (crc_bit ^^ n) x = drop_bit n x"
proof (induction n arbitrary: x)
  case (Suc n)
  have "\<not> bit (take_bit (Suc n) x) 0" by (simp only: Suc.prems) simp
  then have "\<not> bit x 0" by (simp add: bit_take_bit_iff)
  then have c: "crc_bit x = drop_bit 1 x" by (simp add: crc_bit_def)
  have "take_bit n (drop_bit 1 x) = 0" using Suc.prems by (simp add: take_bit_drop_bit)
  then have "(crc_bit ^^ n) (drop_bit 1 x) = drop_bit n (drop_bit 1 x)" by (rule Suc.IH)
  then show ?case by (simp add: funpow_swap1 c)
qed simp

lemma crc_bits_table:
  "(crc_bit ^^ n) x = (crc_bit ^^ n) (take_bit n x) XOR drop_bit n x"
proof -
  have x: "x = take_bit n x XOR push_bit n (drop_bit n x)"
    by (rule bit_eqI) (auto simp: bit_xor_iff bit_take_bit_iff bit_push_bit_iff bit_drop_bit_eq)
  have "(crc_bit ^^ n) (push_bit n (drop_bit n x)) = drop_bit n (push_bit n (drop_bit n x))"
    by (rule crc_bits_high) (simp add: take_bit_push_bit)
  also have "\<dots> = drop_bit n x"
    by (rule bit_eqI) (auto simp: bit_drop_bit_eq bit_push_bit_iff dest: bit_imp_le_length)
  finally show ?thesis using crc_bits_xor[of n "take_bit n x" "push_bit n (drop_bit n x)"] x by simp
qed

lemma table16: "i < 16 \<Longrightarrow> ngx_crc32_table16 ! i = (crc_bit ^^ 4) (of_nat i)"
proof -
  have "\<forall>i \<in> set [0..<16]. ngx_crc32_table16 ! i = (crc_bit ^^ 4) (of_nat i)" by code_simp
  then show "i < 16 \<Longrightarrow> ?thesis" by simp
qed

lemma nth_grid:
  assumes "length ls = 16"
  shows "i < 16 * length hs \<Longrightarrow> concat (map (\<lambda>h. map (f h) ls) hs) ! i = f (hs ! (i div 16)) (ls ! (i mod 16))"
proof (induction hs arbitrary: i)
  case (Cons h hs)
  show ?case
  proof (cases "i < 16")
    case True
    then show ?thesis using assms by (simp add: nth_append)
  next
    case False
    then obtain j where j: "i = 16 + j" by (metis le_iff_add linorder_not_less)
    have "(16 + j) div 16 = Suc (j div 16)" by simp
    then show ?thesis using Cons.IH[of j] Cons.prems assms j by (simp add: nth_append)
  qed
qed simp

definition crc_lows :: "uint32 list" where
  "crc_lows = [0x00000000, 0x77073096, 0xee0e612c, 0x990951ba, 0x076dc419, 0x706af48f, 0xe963a535, 0x9e6495a3, 0x0edb8832, 0x79dcb8a4, 0xe0d5e91e, 0x97d2d988, 0x09b64c2b, 0x7eb17cbd, 0xe7b82d07, 0x90bf1d91]"

lemma table256_grid: "ngx_crc32_table256 = concat (map (\<lambda>h. map (\<lambda>l. h XOR l) crc_lows) ngx_crc32_table16)"
  by code_simp

lemma crc_nibble: "(crc_bit ^^ 4) x = ngx_crc32_table16 ! unat (x AND 0xf) XOR drop_bit 4 x"
proof -
  have m: "take_bit 4 x = x AND 0xf" by (simp add: take_bit_eq_mask mask_eq_exp_minus_1)
  have "unat (x AND 0xf) < 16" unfolding m[symmetric] by (simp add: unsigned_take_bit_eq take_bit_nat_less_exp[of 4, simplified])
  then have "(crc_bit ^^ 4) (take_bit 4 x) = ngx_crc32_table16 ! unat (x AND 0xf)"
    by (simp add: table16 m)
  then show ?thesis using crc_bits_table[of 4 x] by simp
qed

lemma crc_twice: "(crc_bit ^^ 8) x = (crc_bit ^^ 4) ((crc_bit ^^ 4) x)"
  using funpow_add[of 4 4 crc_bit] by simp

lemma crc_lows: "i < 16 \<Longrightarrow> crc_lows ! i = (crc_bit ^^ 8) (of_nat i)"
proof -
  have "map (\<lambda>y. ngx_crc32_table16 ! unat (y AND 0xf) XOR drop_bit 4 y) ngx_crc32_table16 = crc_lows" by code_simp
  moreover assume "i < 16"
  moreover have "length ngx_crc32_table16 = 16" by (simp add: ngx_crc32_table16_def)
  ultimately have "crc_lows ! i = ngx_crc32_table16 ! unat (ngx_crc32_table16 ! i AND 0xf) XOR drop_bit 4 (ngx_crc32_table16 ! i)"
    using nth_map[of i ngx_crc32_table16 "\<lambda>y. ngx_crc32_table16 ! unat (y AND 0xf) XOR drop_bit 4 y"] by (simp only:)
  then show ?thesis unfolding crc_twice table16[OF \<open>i < 16\<close>, symmetric] by (simp only: crc_nibble)
qed

lemma crc_highs: "i < 16 \<Longrightarrow> ngx_crc32_table16 ! i = (crc_bit ^^ 8) (of_nat (16 * i))"
proof -
  assume i: "i < 16"
  have p: "(of_nat (16 * i) :: uint32) = push_bit 4 (of_nat i)" by (simp add: push_bit_eq_mult mult.commute)
  have "(crc_bit ^^ 4) (push_bit 4 (of_nat i :: uint32)) = drop_bit 4 (push_bit 4 (of_nat i))"
    by (rule crc_bits_high) (simp add: take_bit_push_bit)
  also have "\<dots> = of_nat i"
  proof -
    have "\<forall>i \<in> set [0..<16]. drop_bit 4 (push_bit 4 (of_nat i :: uint32)) = of_nat i" by code_simp
    then show ?thesis using i by simp
  qed
  finally show ?thesis unfolding crc_twice p by (simp add: table16[OF i])
qed

lemma of_nat_nibbles: "(of_nat i :: uint32) = of_nat (16 * (i div 16)) XOR of_nat (i mod 16)"
proof -
  have "i = push_bit 4 (drop_bit 4 i) XOR take_bit 4 i"
    by (rule bit_eqI) (auto simp: bit_xor_iff bit_push_bit_iff bit_drop_bit_eq bit_take_bit_iff)
  then have "i = (16 * (i div 16)) XOR (i mod 16)"
    by (simp add: push_bit_eq_mult drop_bit_eq_div take_bit_eq_mod mult.commute)
  then show ?thesis by (metis of_nat_xor_eq)
qed

lemma table256: "i < 256 \<Longrightarrow> ngx_crc32_table256 ! i = (crc_bit ^^ 8) (of_nat i)"
proof -
  assume i: "i < 256"
  have "ngx_crc32_table256 ! i = ngx_crc32_table16 ! (i div 16) XOR crc_lows ! (i mod 16)"
    unfolding table256_grid by (rule nth_grid) (use i in \<open>simp_all add: crc_lows_def ngx_crc32_table16_def\<close>)
  also have "\<dots> = (crc_bit ^^ 8) (of_nat (16 * (i div 16)) XOR of_nat (i mod 16))"
    using crc_highs[of "i div 16"] crc_lows[of "i mod 16"] i by (simp add: crc_bits_xor)
  finally show ?thesis unfolding of_nat_nibbles[of i] .
qed

section \<open>The tables compute the reference\<close>

lemma xor_cancel: "a XOR x = a XOR y \<longleftrightarrow> x = y" "x XOR a = y XOR a \<longleftrightarrow> x = (y :: 'a::len word)"
proof -
  have "a XOR (a XOR z) = z" for z by (simp flip: xor.assoc)
  then show l: "a XOR x = a XOR y \<longleftrightarrow> x = y" by metis
  then show "x XOR a = y XOR a \<longleftrightarrow> x = y" by (simp add: xor.commute)
qed

lemma crc_octet: "(crc_bit ^^ 8) x = ngx_crc32_table256 ! unat (x AND 0xff) XOR drop_bit 8 x"
proof -
  have m: "take_bit 8 x = x AND 0xff" by (simp add: take_bit_eq_mask mask_eq_exp_minus_1)
  have "unat (x AND 0xff) < 256" unfolding m[symmetric] by (simp add: unsigned_take_bit_eq take_bit_nat_less_exp[of 8, simplified])
  then have "(crc_bit ^^ 8) (take_bit 8 x) = ngx_crc32_table256 ! unat (x AND 0xff)"
    by (simp add: table256 m)
  then show ?thesis using crc_bits_table[of 8 x] by simp
qed

lemma drop_ucast_byte: "drop_bit 8 (ucast (c :: u_char) :: uint32) = 0" "drop_bit 4 (ucast (c AND 0xf) :: uint32) = 0"
proof -
  show "drop_bit 8 (ucast (c :: u_char) :: uint32) = 0"
    by (rule bit_eqI) (auto simp: bit_drop_bit_eq bit_ucast_iff dest: bit_imp_le_length)
  have "c AND 0xf = take_bit 4 c" by (simp add: take_bit_eq_mask mask_eq_exp_minus_1)
  then show "drop_bit 4 (ucast (c AND 0xf) :: uint32) = 0"
    by (intro bit_eqI) (auto simp: bit_drop_bit_eq bit_ucast_iff bit_take_bit_iff)
qed

lemma long_step_eq: "long_step = crc_byte"
  by (intro ext) (simp add: long_step_def crc_byte_def crc_octet drop_bit_xor drop_ucast_byte)

lemma byte_nibbles: "(ucast (c :: u_char) :: uint32) = ucast (c AND 0xf) XOR push_bit 4 (ucast (drop_bit 4 c))"
proof -
  have "c AND 0xf = take_bit 4 c" by (simp add: take_bit_eq_mask mask_eq_exp_minus_1)
  then show ?thesis
    by (intro bit_eqI) (auto simp: bit_xor_iff bit_ucast_iff bit_push_bit_iff bit_drop_bit_eq bit_take_bit_iff dest: bit_imp_le_length)
qed

lemma short_step_eq: "short_step = crc_byte"
proof (intro ext)
  fix crc and c :: u_char
  define lo hi where "lo = (ucast (c AND 0xf) :: uint32)" and "hi = (ucast (drop_bit 4 c) :: uint32)"
  have hi4: "drop_bit 4 hi = 0" unfolding hi_def
    by (intro bit_eqI) (auto simp: bit_drop_bit_eq bit_ucast_iff dest!: bit_imp_le_length)
  have "(crc_bit ^^ 4) (push_bit 4 hi) = drop_bit 4 (push_bit 4 hi)"
    by (rule crc_bits_high) (simp add: take_bit_push_bit)
  also have "\<dots> = hi"
    unfolding hi_def by (intro bit_eqI) (auto simp: bit_drop_bit_eq bit_push_bit_iff bit_ucast_iff dest: bit_imp_le_length)
  finally have h: "(crc_bit ^^ 4) (push_bit 4 hi) = hi" .
  have "crc_byte crc c = (crc_bit ^^ 4) ((crc_bit ^^ 4) (crc XOR lo XOR push_bit 4 hi))"
    unfolding crc_byte_def crc_twice byte_nibbles[of c] lo_def hi_def xor.assoc ..
  also have "\<dots> = (crc_bit ^^ 4) ((crc_bit ^^ 4) (crc XOR lo) XOR hi)" by (simp only: crc_bits_xor h xor.assoc)
  also have "\<dots> = short_step crc c"
    unfolding short_step_def Let_def crc_nibble
    by (simp add: lo_def hi_def drop_bit_xor drop_ucast_byte hi4[unfolded hi_def])
  finally show "short_step crc c = crc_byte crc c" ..
qed

lemma crc_chunks: "foldl ngx_crc32_update crc chunks = foldl long_step crc (concat chunks)"
  by (induction chunks arbitrary: crc) (simp_all add: ngx_crc32_update_def)

text \<open>
  Property C38 (equivalence).  The two table-driven computations of the CRC-32, with 16 words a half-byte at a time and with 256 words a
  byte at a time, compute the same value, which is the remainder by the polynomial of the PNG specification, bit by
  bit; and the incremental computation gives that of the whole text, in whatever pieces it comes.
\<close>
theorem crc32_agrees:
  "ngx_crc32_short p = crc32_reference p \<and> ngx_crc32_long p = crc32_reference p \<and>
   ngx_crc32_final (foldl ngx_crc32_update ngx_crc32_init chunks) = crc32_reference (concat chunks)"
  by (simp add: ngx_crc32_short_def ngx_crc32_long_def crc32_reference_def short_step_eq long_step_eq
      ngx_crc32_final_def ngx_crc32_init_def crc_chunks)

lemma crc_bit_inj: "crc_bit x = crc_bit y \<Longrightarrow> x = y"
proof -
  assume e: "crc_bit x = crc_bit y"
  have top: "bit (crc_bit z) 31 \<longleftrightarrow> bit z 0" for z
    by (simp add: crc_bit_def bit_xor_iff bit_drop_bit_eq) (auto dest: bit_imp_le_length)
  have low: "bit x 0 \<longleftrightarrow> bit y 0" using top[of x] top[of y] e by simp
  have high: "drop_bit 1 x = drop_bit 1 y"
    using e low unfolding crc_bit_def by (cases "bit y 0") (simp_all only: if_True if_False xor_cancel)
  show "x = y"
  proof (rule bit_eqI)
    fix n
    show "bit x n \<longleftrightarrow> bit y n"
    proof (cases n)
      case (Suc k)
      then show ?thesis using arg_cong[OF high, of "\<lambda>w. bit w k"] by (simp add: bit_drop_bit_eq)
    qed (simp add: low)
  qed
qed

lemma crc_bits_inj: "(crc_bit ^^ n) x = (crc_bit ^^ n) y \<Longrightarrow> x = y"
  by (induction n arbitrary: x y) (auto dest: crc_bit_inj)

lemma crc_byte_inj: "crc_byte x c = crc_byte y c \<longleftrightarrow> x = y"
proof
  assume "crc_byte x c = crc_byte y c"
  then have "x XOR ucast c = y XOR ucast c" unfolding crc_byte_def by (rule crc_bits_inj)
  then show "x = y" by (simp only: xor_cancel)
qed simp

lemma crc_bytes_inj: "foldl crc_byte x p = foldl crc_byte y p \<longleftrightarrow> x = y"
  by (induction p arbitrary: x y) (simp_all add: crc_byte_inj)

text \<open>
  Fact (safety).  A text and the text with one byte changed have different checksums.
\<close>
lemma crc32_detects_byte:
  assumes "a \<noteq> b"
  shows "ngx_crc32_long (p @ a # q) \<noteq> ngx_crc32_long (p @ b # q)"
proof
  assume "ngx_crc32_long (p @ a # q) = ngx_crc32_long (p @ b # q)"
  then have "foldl crc_byte 0xffffffff (p @ a # q) = foldl crc_byte 0xffffffff (p @ b # q)"
    unfolding ngx_crc32_long_def long_step_eq by (simp only: xor_cancel)
  then have "crc_byte (foldl crc_byte 0xffffffff p) a = crc_byte (foldl crc_byte 0xffffffff p) b"
    by (simp add: crc_bytes_inj)
  then have "foldl crc_byte 0xffffffff p XOR ucast a = foldl crc_byte 0xffffffff p XOR ucast b"
    unfolding crc_byte_def by (rule crc_bits_inj)
  then have e: "(ucast a :: uint32) = ucast b" by (simp only: xor_cancel)
  have "a = b"
  proof (rule bit_eqI)
    fix n assume "possible_bit TYPE(8 word) n"
    then show "bit a n \<longleftrightarrow> bit b n" using arg_cong[OF e, of "\<lambda>w. bit w n"] by (simp add: bit_ucast_iff)
  qed
  then show False using assms by simp
qed

section \<open>MurmurHash2\<close>

lemma mul_inj: "x * (0x5bd1e995 :: uint32) = y * 0x5bd1e995 \<longleftrightarrow> x = y"
proof
  assume e: "x * (0x5bd1e995 :: uint32) = y * 0x5bd1e995"
  have i: "(0x5bd1e995 :: uint32) * 0xe59b19bd = 1" by simp
  have "x * 0x5bd1e995 * 0xe59b19bd = y * 0x5bd1e995 * 0xe59b19bd" using e by simp
  then show "x = y" unfolding mult.assoc i by simp
qed simp

lemma shift_xor_inj:
  assumes "0 < n" "x XOR drop_bit n x = y XOR drop_bit n (y :: uint32)"
  shows "x = y"
proof (rule bit_eqI)
  fix k
  show "bit x k \<longleftrightarrow> bit y k"
  proof (induction "32 - k" arbitrary: k rule: less_induct)
    case less
    show ?case
    proof (cases "k < 32")
      case True
      then have "bit x (n + k) \<longleftrightarrow> bit y (n + k)" using assms(1) by (intro less) simp
      moreover have "bit (x XOR drop_bit n x) k \<longleftrightarrow> bit (y XOR drop_bit n y) k" using assms(2) by simp
      ultimately show ?thesis by (simp add: bit_xor_iff bit_drop_bit_eq) blast
    next
      case False
      then show ?thesis by (auto dest!: bit_imp_le_length)
    qed
  qed
qed

lemma murmur_mix_inj: "murmur_mix x = murmur_mix y \<longleftrightarrow> x = y"
  by (auto simp: murmur_mix_def Let_def mul_inj dest: shift_xor_inj[of 24, simplified])

lemma murmur_word_inj: "murmur_word a b c d = murmur_word a' b' c' d' \<longleftrightarrow> a = a' \<and> b = b' \<and> c = c' \<and> d = d'"
proof
  assume e: "murmur_word a b c d = murmur_word a' b' c' d'"
  have bits: "bit (murmur_word a b c d) n \<longleftrightarrow>
      (if n < 8 then bit a n else if n < 16 then bit b (n - 8) else if n < 24 then bit c (n - 16) else n < 32 \<and> bit d (n - 24))" for a b c d n
  proof -
    have beyond: "\<not> n < 8 \<Longrightarrow> \<not> bit z n" for z :: u_char and n using bit_imp_le_length[of z n] by auto
    have "n - 8 < 32" "n - 16 < 32" if "n < 24" for n :: nat using that by simp_all
    then show ?thesis by (auto simp: murmur_word_def bit_or_iff bit_ucast_iff bit_push_bit_iff beyond)
  qed
  have eq: "bit (murmur_word a b c d) n \<longleftrightarrow> bit (murmur_word a' b' c' d') n" for n using e by simp
  have "bit a n = bit a' n \<and> bit b n = bit b' n \<and> bit c n = bit c' n \<and> bit d n = bit d' n" if "n < 8" for n
    using eq[of n] eq[of "n + 8"] eq[of "n + 16"] eq[of "n + 24"] that unfolding bits by simp
  then show "a = a' \<and> b = b' \<and> c = c' \<and> d = d'" by (intro conjI bit_eqI) simp_all
qed simp

lemma murmur_loop_inj: "murmur_loop h p = murmur_loop h' p \<Longrightarrow> h = h'"
proof (induction h p arbitrary: h' rule: murmur_loop.induct)
  case (1 h a b c d data)
  from 1(1)[OF 1(2)[unfolded murmur_loop.simps]] show ?case by (simp only: xor_cancel mul_inj)
qed (simp_all add: xor_cancel mul_inj)

lemma murmur_loop_blocks: "length p mod 4 = 0 \<Longrightarrow> \<exists>k. \<forall>r. murmur_loop h (p @ r) = murmur_loop k r"
  by (induction h p rule: murmur_loop.induct) auto

lemma murmur_end_inj: "x XOR drop_bit 13 x = y XOR drop_bit 13 y \<longleftrightarrow> x = y" "x XOR drop_bit 15 x = y XOR drop_bit 15 y \<longleftrightarrow> x = (y :: uint32)"
  using shift_xor_inj[of 13 x y] shift_xor_inj[of 15 x y] by auto

text \<open>
  Fact (safety).  Keys of one length that differ in one aligned block of four bytes only have different hashes; so different
  keys of four bytes never collide.
\<close>
lemma murmur_no_collision:
  assumes "length p mod 4 = 0" "length x = 4" "length y = 4" "x \<noteq> y"
  shows "ngx_murmur_hash2 (p @ x @ q) \<noteq> ngx_murmur_hash2 (p @ y @ q)"
proof
  assume e: "ngx_murmur_hash2 (p @ x @ q) = ngx_murmur_hash2 (p @ y @ q)"
  define h :: uint32 where "h = 0 XOR of_nat (length (p @ x @ q))"
  obtain k where k: "\<And>r. murmur_loop h (p @ r) = murmur_loop k r" using murmur_loop_blocks[OF assms(1)] by blast
  obtain a b c d where x: "x = [a, b, c, d]" using assms(2) by (auto simp: numeral_eq_Suc length_Suc_conv)
  obtain a' b' c' d' where y: "y = [a', b', c', d']" using assms(3) by (auto simp: numeral_eq_Suc length_Suc_conv)
  have "h = 0 XOR of_nat (length (p @ y @ q))" using assms(2,3) by (simp add: h_def)
  then have "murmur_loop h (p @ x @ q) = murmur_loop h (p @ y @ q)"
    using e unfolding ngx_murmur_hash2_def Let_def h_def[symmetric] by (simp only: murmur_end_inj mul_inj)
  then have "murmur_loop k (x @ q) = murmur_loop k (y @ q)" by (simp only: k)
  then have "(k * 0x5bd1e995) XOR murmur_mix (murmur_word a b c d) = (k * 0x5bd1e995) XOR murmur_mix (murmur_word a' b' c' d')"
    unfolding x y append_Cons append_Nil murmur_loop.simps(1) by (rule murmur_loop_inj)
  then show False using assms(4) by (simp only: xor_cancel murmur_mix_inj murmur_word_inj x y) simp
qed

end
