(* ===== verification/Ngx_Md5.thy ===== *)
theory Ngx_Md5
  imports Ngx_Prelude
begin

text \<open>
  The MD5 of \<^verbatim>\<open>core/ngx_md5.c\<close>.  A \<^verbatim>\<open>size_t\<close> is a length; the masks \<open>& 0x3f\<close> and \<open>& ~0x3f\<close> on it are written as the remainder
  and the rest by 64.
\<close>

record ngx_md5 =
  md_bytes :: uint64
  md_a :: uint32
  md_b :: uint32
  md_c :: uint32
  md_d :: uint32
  md_buffer :: bytes

definition ngx_md5_init :: "ngx_md5 \<Rightarrow> ngx_md5" where
  "ngx_md5_init ctx = ctx\<lparr> md_a := 0x67452301, md_b := 0xefcdab89, md_c := 0x98badcfe, md_d := 0x10325476, md_bytes := 0 \<rparr>"

definition md5_F :: "uint32 \<Rightarrow> uint32 \<Rightarrow> uint32 \<Rightarrow> uint32" where "md5_F x y z = z XOR (x AND (y XOR z))"
definition md5_G :: "uint32 \<Rightarrow> uint32 \<Rightarrow> uint32 \<Rightarrow> uint32" where "md5_G x y z = y XOR (z AND (x XOR y))"
definition md5_H :: "uint32 \<Rightarrow> uint32 \<Rightarrow> uint32 \<Rightarrow> uint32" where "md5_H x y z = x XOR y XOR z"
definition md5_I :: "uint32 \<Rightarrow> uint32 \<Rightarrow> uint32 \<Rightarrow> uint32" where "md5_I x y z = y XOR (x OR NOT z)"

definition md5_STEP :: "(uint32 \<Rightarrow> uint32 \<Rightarrow> uint32 \<Rightarrow> uint32) \<Rightarrow> uint32 \<Rightarrow> uint32 \<Rightarrow> uint32 \<Rightarrow> uint32 \<Rightarrow> uint32 \<Rightarrow> uint32 \<Rightarrow> nat \<Rightarrow> uint32" where
  "md5_STEP f a b c d x t s = (let a = a + (f b c d + x + t); a = push_bit s a OR drop_bit (32 - s) (a AND 0xffffffff) in a + b)"

definition md5_SET :: "bytes \<Rightarrow> nat \<Rightarrow> uint32" where
  "md5_SET p n = ucast (p ! (n * 4)) OR push_bit 8 (ucast (p ! (n * 4 + 1))) OR push_bit 16 (ucast (p ! (n * 4 + 2)))
     OR push_bit 24 (ucast (p ! (n * 4 + 3)))"

text \<open>
  The 64 steps of the four rounds: the function, the word of the block, the constant and the shift.  The first step is
  on \<^verbatim>\<open>a, b, c, d\<close>, the second on \<^verbatim>\<open>d, a, b, c\<close>, and so on round the four.
\<close>

definition md5_steps :: "((uint32 \<Rightarrow> uint32 \<Rightarrow> uint32 \<Rightarrow> uint32) \<times> nat \<times> uint32 \<times> nat) list" where
  "md5_steps =
    [(md5_F, 0, 0xd76aa478, 7), (md5_F, 1, 0xe8c7b756, 12), (md5_F, 2, 0x242070db, 17), (md5_F, 3, 0xc1bdceee, 22),
     (md5_F, 4, 0xf57c0faf, 7), (md5_F, 5, 0x4787c62a, 12), (md5_F, 6, 0xa8304613, 17), (md5_F, 7, 0xfd469501, 22),
     (md5_F, 8, 0x698098d8, 7), (md5_F, 9, 0x8b44f7af, 12), (md5_F, 10, 0xffff5bb1, 17), (md5_F, 11, 0x895cd7be, 22),
     (md5_F, 12, 0x6b901122, 7), (md5_F, 13, 0xfd987193, 12), (md5_F, 14, 0xa679438e, 17), (md5_F, 15, 0x49b40821, 22),
     (md5_G, 1, 0xf61e2562, 5), (md5_G, 6, 0xc040b340, 9), (md5_G, 11, 0x265e5a51, 14), (md5_G, 0, 0xe9b6c7aa, 20),
     (md5_G, 5, 0xd62f105d, 5), (md5_G, 10, 0x02441453, 9), (md5_G, 15, 0xd8a1e681, 14), (md5_G, 4, 0xe7d3fbc8, 20),
     (md5_G, 9, 0x21e1cde6, 5), (md5_G, 14, 0xc33707d6, 9), (md5_G, 3, 0xf4d50d87, 14), (md5_G, 8, 0x455a14ed, 20),
     (md5_G, 13, 0xa9e3e905, 5), (md5_G, 2, 0xfcefa3f8, 9), (md5_G, 7, 0x676f02d9, 14), (md5_G, 12, 0x8d2a4c8a, 20),
     (md5_H, 5, 0xfffa3942, 4), (md5_H, 8, 0x8771f681, 11), (md5_H, 11, 0x6d9d6122, 16), (md5_H, 14, 0xfde5380c, 23),
     (md5_H, 1, 0xa4beea44, 4), (md5_H, 4, 0x4bdecfa9, 11), (md5_H, 7, 0xf6bb4b60, 16), (md5_H, 10, 0xbebfbc70, 23),
     (md5_H, 13, 0x289b7ec6, 4), (md5_H, 0, 0xeaa127fa, 11), (md5_H, 3, 0xd4ef3085, 16), (md5_H, 6, 0x04881d05, 23),
     (md5_H, 9, 0xd9d4d039, 4), (md5_H, 12, 0xe6db99e5, 11), (md5_H, 15, 0x1fa27cf8, 16), (md5_H, 2, 0xc4ac5665, 23),
     (md5_I, 0, 0xf4292244, 6), (md5_I, 7, 0x432aff97, 10), (md5_I, 14, 0xab9423a7, 15), (md5_I, 5, 0xfc93a039, 21),
     (md5_I, 12, 0x655b59c3, 6), (md5_I, 3, 0x8f0ccc92, 10), (md5_I, 10, 0xffeff47d, 15), (md5_I, 1, 0x85845dd1, 21),
     (md5_I, 8, 0x6fa87e4f, 6), (md5_I, 15, 0xfe2ce6e0, 10), (md5_I, 6, 0xa3014314, 15), (md5_I, 13, 0x4e0811a1, 21),
     (md5_I, 4, 0xf7537e82, 6), (md5_I, 11, 0xbd3af235, 10), (md5_I, 2, 0x2ad7d2bb, 15), (md5_I, 9, 0xeb86d391, 21)]"

type_synonym md5_words = "uint32 \<times> uint32 \<times> uint32 \<times> uint32"

fun md5_turn :: "bytes \<Rightarrow> md5_words \<Rightarrow> (uint32 \<Rightarrow> uint32 \<Rightarrow> uint32 \<Rightarrow> uint32) \<times> nat \<times> uint32 \<times> nat \<Rightarrow> md5_words" where
  "md5_turn p (a, b, c, d) (f, n, t, s) = (d, md5_STEP f a b c d (md5_SET p n) t s, b, c)"

fun md5_add :: "md5_words \<Rightarrow> md5_words \<Rightarrow> md5_words" where
  "md5_add (a, b, c, d) (a', b', c', d') = (a + a', b + b', c + c', d + d')"

definition md5_block :: "md5_words \<Rightarrow> bytes \<Rightarrow> md5_words" where
  "md5_block w p = md5_add (foldl (md5_turn p) w md5_steps) w"

function md5_blocks :: "md5_words \<Rightarrow> bytes \<Rightarrow> md5_words" where
  "md5_blocks w p = (if length p < 64 then w else md5_blocks (md5_block w (take 64 p)) (drop 64 p))"
  by pat_completeness auto
termination
  by (relation "measure (\<lambda>(w, p). length p)") auto

declare md5_blocks.simps [simp del]

definition ngx_md5_body :: "ngx_md5 \<Rightarrow> bytes \<Rightarrow> ngx_md5" where
  "ngx_md5_body ctx data =
     (let (a, b, c, d) = md5_blocks (md_a ctx, md_b ctx, md_c ctx, md_d ctx) data
      in ctx\<lparr> md_a := a, md_b := b, md_c := c, md_d := d \<rparr>)"

text \<open>\<^verbatim>\<open>memcpy\<close> into the buffer at a position.\<close>

definition put_at :: "bytes \<Rightarrow> nat \<Rightarrow> bytes \<Rightarrow> bytes" where
  "put_at buf i data = take i buf @ data @ drop (i + length data) buf"

definition ngx_md5_update :: "ngx_md5 \<Rightarrow> bytes \<Rightarrow> ngx_md5" where
  "ngx_md5_update ctx data =
     (let used = unat (md_bytes ctx AND 0x3f);
          ctx = ctx\<lparr> md_bytes := md_bytes ctx + of_nat (length data) \<rparr>;
          free = 64 - used
      in if used \<noteq> 0 \<and> length data < free then ctx\<lparr> md_buffer := put_at (md_buffer ctx) used data \<rparr>
         else
           let (ctx, data) =
                 (if used \<noteq> 0 then
                    (let ctx = ctx\<lparr> md_buffer := put_at (md_buffer ctx) used (take free data) \<rparr>
                     in (ngx_md5_body ctx (md_buffer ctx), drop free data))
                  else (ctx, data));
               whole = length data - length data mod 64;
               (ctx, data) = (if length data \<ge> 64 then (ngx_md5_body ctx (take whole data), drop whole data) else (ctx, data))
           in ctx\<lparr> md_buffer := put_at (md_buffer ctx) 0 data \<rparr>)"

definition le32 :: "uint32 \<Rightarrow> bytes" where
  "le32 w = [ucast w, ucast (drop_bit 8 w), ucast (drop_bit 16 w), ucast (drop_bit 24 w)]"

definition le64 :: "uint64 \<Rightarrow> bytes" where
  "le64 w = [ucast w, ucast (drop_bit 8 w), ucast (drop_bit 16 w), ucast (drop_bit 24 w),
             ucast (drop_bit 32 w), ucast (drop_bit 40 w), ucast (drop_bit 48 w), ucast (drop_bit 56 w)]"

definition ngx_md5_final :: "ngx_md5 \<Rightarrow> bytes" where
  "ngx_md5_final ctx =
     (let used = unat (md_bytes ctx AND 0x3f);
          ctx = ctx\<lparr> md_buffer := (md_buffer ctx)[used := 0x80] \<rparr>;
          used = used + 1; free = 64 - used;
          (ctx, used, free) =
            (if free < 8 then
               (let ctx = ctx\<lparr> md_buffer := put_at (md_buffer ctx) used (replicate free 0) \<rparr>
                in (ngx_md5_body ctx (md_buffer ctx), 0, 64))
             else (ctx, used, free));
          ctx = ctx\<lparr> md_buffer := put_at (md_buffer ctx) used (replicate (free - 8) 0) \<rparr>;
          ctx = ctx\<lparr> md_bytes := push_bit 3 (md_bytes ctx) \<rparr>;
          ctx = ctx\<lparr> md_buffer := put_at (md_buffer ctx) 56 (le64 (md_bytes ctx)) \<rparr>;
          ctx = ngx_md5_body ctx (md_buffer ctx)
      in le32 (md_a ctx) @ le32 (md_b ctx) @ le32 (md_c ctx) @ le32 (md_d ctx))"

section \<open>The reference\<close>

text \<open>RFC 1321: the functions, the order of the words, the shifts and the padding, as the RFC defines them.\<close>

definition rfc_F :: "uint32 \<Rightarrow> uint32 \<Rightarrow> uint32 \<Rightarrow> uint32" where "rfc_F x y z = (x AND y) OR (NOT x AND z)"
definition rfc_G :: "uint32 \<Rightarrow> uint32 \<Rightarrow> uint32 \<Rightarrow> uint32" where "rfc_G x y z = (x AND z) OR (y AND NOT z)"
definition rfc_H :: "uint32 \<Rightarrow> uint32 \<Rightarrow> uint32 \<Rightarrow> uint32" where "rfc_H x y z = x XOR y XOR z"
definition rfc_I :: "uint32 \<Rightarrow> uint32 \<Rightarrow> uint32 \<Rightarrow> uint32" where "rfc_I x y z = y XOR (x OR NOT z)"

definition rfc_T :: "uint32 list" where
  "rfc_T =
    [0xd76aa478, 0xe8c7b756, 0x242070db, 0xc1bdceee, 0xf57c0faf, 0x4787c62a, 0xa8304613, 0xfd469501,
     0x698098d8, 0x8b44f7af, 0xffff5bb1, 0x895cd7be, 0x6b901122, 0xfd987193, 0xa679438e, 0x49b40821,
     0xf61e2562, 0xc040b340, 0x265e5a51, 0xe9b6c7aa, 0xd62f105d, 0x02441453, 0xd8a1e681, 0xe7d3fbc8,
     0x21e1cde6, 0xc33707d6, 0xf4d50d87, 0x455a14ed, 0xa9e3e905, 0xfcefa3f8, 0x676f02d9, 0x8d2a4c8a,
     0xfffa3942, 0x8771f681, 0x6d9d6122, 0xfde5380c, 0xa4beea44, 0x4bdecfa9, 0xf6bb4b60, 0xbebfbc70,
     0x289b7ec6, 0xeaa127fa, 0xd4ef3085, 0x04881d05, 0xd9d4d039, 0xe6db99e5, 0x1fa27cf8, 0xc4ac5665,
     0xf4292244, 0x432aff97, 0xab9423a7, 0xfc93a039, 0x655b59c3, 0x8f0ccc92, 0xffeff47d, 0x85845dd1,
     0x6fa87e4f, 0xfe2ce6e0, 0xa3014314, 0x4e0811a1, 0xf7537e82, 0xbd3af235, 0x2ad7d2bb, 0xeb86d391]"

definition rfc_step :: "nat \<Rightarrow> (uint32 \<Rightarrow> uint32 \<Rightarrow> uint32 \<Rightarrow> uint32) \<times> nat \<times> uint32 \<times> nat" where
  "rfc_step i =
     (if i < 16 then (rfc_F, i, rfc_T ! i, [7, 12, 17, 22] ! (i mod 4))
      else if i < 32 then (rfc_G, (5 * i + 1) mod 16, rfc_T ! i, [5, 9, 14, 20] ! (i mod 4))
      else if i < 48 then (rfc_H, (3 * i + 5) mod 16, rfc_T ! i, [4, 11, 16, 23] ! (i mod 4))
      else (rfc_I, 7 * i mod 16, rfc_T ! i, [6, 10, 15, 21] ! (i mod 4)))"

fun rfc_turn :: "bytes \<Rightarrow> md5_words \<Rightarrow> (uint32 \<Rightarrow> uint32 \<Rightarrow> uint32 \<Rightarrow> uint32) \<times> nat \<times> uint32 \<times> nat \<Rightarrow> md5_words" where
  "rfc_turn p (a, b, c, d) (f, n, t, s) = (d, b + word_rotl s (a + f b c d + md5_SET p n + t), b, c)"

definition rfc_block :: "md5_words \<Rightarrow> bytes \<Rightarrow> md5_words" where
  "rfc_block w p = md5_add w (foldl (rfc_turn p) w (map rfc_step [0..<64]))"

function rfc_blocks :: "md5_words \<Rightarrow> bytes \<Rightarrow> md5_words" where
  "rfc_blocks w p = (if p = [] then w else rfc_blocks (rfc_block w (take 64 p)) (drop 64 p))"
  by pat_completeness auto
termination
  by (relation "measure (\<lambda>(w, p). length p)") auto

declare rfc_blocks.simps [simp del]

definition rfc_pad :: "bytes \<Rightarrow> bytes" where
  "rfc_pad m = m @ [0x80] @ replicate ((119 - length m mod 64) mod 64) 0 @ le64 (of_nat (8 * length m))"

definition rfc_digest :: "bytes \<Rightarrow> bytes" where
  "rfc_digest m =
     (case rfc_blocks (0x67452301, 0xefcdab89, 0x98badcfe, 0x10325476) (rfc_pad m) of
        (a, b, c, d) \<Rightarrow> le32 a @ le32 b @ le32 c @ le32 d)"

section \<open>One block\<close>

lemma md5_functions: "md5_F = rfc_F" "md5_G = rfc_G" "md5_H = rfc_H" "md5_I = rfc_I"
  by (intro ext bit_eqI; auto simp: md5_F_def rfc_F_def md5_G_def rfc_G_def md5_H_def rfc_H_def md5_I_def rfc_I_def bit_xor_iff bit_and_iff bit_or_iff bit_not_iff)+

lemma rfc_steps: "map rfc_step [0..<64] = md5_steps"
proof -
  have "map (snd \<circ> rfc_step) [0..<64] = map snd md5_steps" by code_simp
  moreover have "map (fst \<circ> rfc_step) [0..<64] = map fst md5_steps"
    by (simp add: md5_functions md5_steps_def rfc_step_def upt_conv_Cons)
  ultimately have "zip (map fst (map rfc_step [0..<64])) (map snd (map rfc_step [0..<64])) = zip (map fst md5_steps) (map snd md5_steps)"
    by (simp only: map_map)
  then show ?thesis by (simp only: zip_map_fst_snd)
qed

lemma rotl_shifts:
  assumes "0 < s" "s < 32"
  shows "push_bit s (w :: uint32) OR drop_bit (32 - s) w = word_rotl s w"
proof (rule bit_eqI)
  fix n assume "possible_bit TYPE(32 word) n"
  then have n: "n < 32" by simp
  define k where "k = 32 - s"
  have k: "s + k = 32" "0 < k" "k < 32" using assms by (simp_all add: k_def)
  have rot: "bit (word_rotl s w) n \<longleftrightarrow> bit w ((n + k) mod 32)"
    using n assms unfolding bit_word_rotl_iff k_def by simp
  have shifts: "bit (push_bit s w OR drop_bit k w) n \<longleftrightarrow> s \<le> n \<and> bit w (n - s) \<or> bit w (n + k)"
    using n by (simp add: bit_or_iff bit_push_bit_iff bit_drop_bit_eq add.commute)
  show "bit (push_bit s w OR drop_bit (32 - s) w) n \<longleftrightarrow> bit (word_rotl s w) n"
  proof (cases "s \<le> n")
    case True
    then have "n + k = (n - s) + 32" using k by simp
    then have "(n + k) mod 32 = n - s" using n by (simp only: mod_add_self2) simp
    moreover have "\<not> bit w (n + k)" using bit_imp_le_length[of w "n + k"] True k by auto
    ultimately show ?thesis using True shifts rot by (simp add: k_def)
  next
    case False
    then have "(n + k) mod 32 = n + k" using k by simp
    then show ?thesis using False shifts rot by (simp add: k_def)
  qed
qed

lemma md5_STEP_rotl: "0 < s \<Longrightarrow> s < 32 \<Longrightarrow> md5_STEP f a b c d x t s = b + word_rotl s (a + f b c d + x + t)"
proof -
  assume s: "0 < s" "s < 32"
  have "(0xffffffff :: uint32) = - 1" by code_simp
  then have m: "w AND 0xffffffff = w" for w :: uint32 by (simp only: and.right_neutral)
  show ?thesis unfolding md5_STEP_def Let_def m rotl_shifts[OF s] by (simp only: add.assoc add.commute add.left_commute)
qed

lemma md5_steps_shifts: "\<forall>(f, n, t, s) \<in> set md5_steps. 0 < s \<and> s < 32"
  by (simp add: md5_steps_def)

lemma turns_eq: "\<forall>(f, n, t, s) \<in> set xs. 0 < s \<and> s < 32 \<Longrightarrow> foldl (md5_turn p) w xs = foldl (rfc_turn p) w xs"
proof (induction xs arbitrary: w)
  case (Cons x xs)
  obtain a b c d where w: "w = (a, b, c, d)" by (cases w)
  obtain f n t s where x: "x = (f, n, t, s)" by (cases x)
  have "md5_turn p w x = rfc_turn p w x" using Cons.prems by (simp add: w x md5_STEP_rotl)
  then show ?case using Cons by simp
qed simp

lemma md5_add_commute: "md5_add x y = md5_add y x"
  by (cases x; cases y) (simp add: add.commute)

lemma block_eq: "md5_block w p = rfc_block w p"
  unfolding md5_block_def rfc_block_def rfc_steps turns_eq[OF md5_steps_shifts] by (rule md5_add_commute)

lemma md5_blocks_done: "length p < 64 \<Longrightarrow> md5_blocks w p = w"
  by (simp add: md5_blocks.simps)

lemma md5_blocks_append: "length p mod 64 = 0 \<Longrightarrow> md5_blocks w (p @ q) = md5_blocks (md5_blocks w p) q"
proof (induction w p rule: md5_blocks.induct)
  case (1 w p)
  show ?case
  proof (cases "length p < 64")
    case True
    then have "p = []" using 1(2) by simp
    then show ?thesis by (simp add: md5_blocks_done)
  next
    case False
    then have m: "length (drop 64 p) mod 64 = 0" using 1(2) by (simp add: le_mod_geq)
    show ?thesis using False 1(1)[OF False m] by (simp add: md5_blocks.simps[of w])
  qed
qed

lemma blocks_eq: "length p mod 64 = 0 \<Longrightarrow> md5_blocks w p = rfc_blocks w p"
proof (induction w p rule: md5_blocks.induct)
  case (1 w p)
  show ?case
  proof (cases "length p < 64")
    case True
    then have "p = []" using 1(2) by simp
    then show ?thesis by (simp add: md5_blocks_done rfc_blocks.simps)
  next
    case False
    then have m: "length (drop 64 p) mod 64 = 0" "p \<noteq> []" using 1(2) by (auto simp: le_mod_geq)
    show ?thesis using False m(2) 1(1)[OF False m(1)] by (simp add: md5_blocks.simps[of w] rfc_blocks.simps[of w] block_eq)
  qed
qed

section \<open>The text in pieces\<close>

definition md5_words :: "ngx_md5 \<Rightarrow> md5_words" where
  "md5_words ctx = (md_a ctx, md_b ctx, md_c ctx, md_d ctx)"

definition md5_start :: md5_words where
  "md5_start = (0x67452301, 0xefcdab89, 0x98badcfe, 0x10325476)"

text \<open>The context after the text \<open>p @ q\<close>, of which the whole blocks \<open>p\<close> are digested and \<open>q\<close> is in the buffer.\<close>

definition md5_inv :: "ngx_md5 \<Rightarrow> bytes \<Rightarrow> bytes \<Rightarrow> bool" where
  "md5_inv ctx p q \<longleftrightarrow> length p mod 64 = 0 \<and> length q < 64 \<and> md_bytes ctx = of_nat (length (p @ q)) \<and>
     md5_words ctx = md5_blocks md5_start p \<and> length (md_buffer ctx) = 64 \<and> take (length q) (md_buffer ctx) = q"

lemma body_words: "md5_words (ngx_md5_body ctx data) = md5_blocks (md5_words ctx) data"
  and body_rest [simp]: "md_bytes (ngx_md5_body ctx data) = md_bytes ctx" "md_buffer (ngx_md5_body ctx data) = md_buffer ctx"
  by (simp_all add: ngx_md5_body_def md5_words_def split: prod.split)

lemma used_mod: "unat (of_nat k AND 0x3f :: uint64) = k mod 64"
proof -
  have "(of_nat k AND 0x3f :: uint64) = take_bit 6 (of_nat k)" by (simp add: take_bit_eq_mask mask_eq_exp_minus_1)
  then have "unat (of_nat k AND 0x3f :: uint64) = take_bit 6 (unat (of_nat k :: uint64))"
    by (simp only: unsigned_take_bit_eq)
  then show ?thesis by (simp add: unat_of_nat take_bit_eq_mod mod_mod_cancel)
qed

lemma md5_inv_used: "md5_inv ctx p q \<Longrightarrow> unat (md_bytes ctx AND 0x3f) = length q"
  by (simp add: md5_inv_def used_mod del: of_nat_add) (metis add_0 mod_add_left_eq mod_less)

lemma put_at_length: "i + length d \<le> length buf \<Longrightarrow> length (put_at buf i d) = length buf"
  by (simp add: put_at_def)

lemma put_at_take: "i + length d \<le> length buf \<Longrightarrow> take (i + length d) (put_at buf i d) = take i buf @ d"
  by (simp add: put_at_def)

lemma words_update [simp]: "md5_words (ctx\<lparr> md_bytes := x \<rparr>) = md5_words ctx" "md5_words (ctx\<lparr> md_buffer := y \<rparr>) = md5_words ctx"
  by (simp_all add: md5_words_def)

lemma md5_fill:
  assumes inv: "md5_inv ctx p q" and big: "64 - length q \<le> length data"
    and c: "md5_words c = md5_words ctx" "md_bytes c = n" "md_buffer c = put_at (md_buffer ctx) (length q) (take (64 - length q) data)"
  defines "c1 \<equiv> ngx_md5_body c (md_buffer c)" and "p1 \<equiv> p @ q @ take (64 - length q) data"
  shows "length p1 mod 64 = 0 \<and> md5_words c1 = md5_blocks md5_start p1 \<and> md_bytes c1 = n \<and> length (md_buffer c1) = 64"
proof -
  let ?d = "take (64 - length q) data"
  have q: "length q < 64" "length (md_buffer ctx) = 64" "take (length q) (md_buffer ctx) = q" "length p mod 64 = 0"
    "md5_words ctx = md5_blocks md5_start p"
    using inv by (simp_all add: md5_inv_def)
  have d: "length ?d = 64 - length q" using big by simp
  have buf: "md_buffer c = q @ ?d" using put_at_take[of "length q" ?d "md_buffer ctx"] put_at_length[of "length q" ?d "md_buffer ctx"] q d c(3) by simp
  have "length (q @ ?d) = 64" using d q(1) by simp
  then have m: "length p1 mod 64 = 0" using q(4) by (simp add: p1_def)
  have "md5_words c1 = md5_blocks (md5_blocks md5_start p) (q @ ?d)" by (simp only: c1_def body_words c(1) q(5) buf)
  then have "md5_words c1 = md5_blocks md5_start p1" using md5_blocks_append[OF q(4)] by (simp only: p1_def)
  then show ?thesis using m c(2) \<open>length (q @ ?d) = 64\<close> by (simp add: c1_def buf)
qed

lemma md5_whole:
  assumes "length p mod 64 = 0" "md5_words c = md5_blocks md5_start p" "md_bytes c = of_nat (length (p @ data))" "length (md_buffer c) = 64"
  defines "k \<equiv> length data - length data mod 64"
  defines "c1 \<equiv> (if length data \<ge> 64 then ngx_md5_body c (take k data) else c)" and "d1 \<equiv> (if length data \<ge> 64 then drop k data else data)"
  shows "md5_inv (c1\<lparr> md_buffer := put_at (md_buffer c1) 0 d1 \<rparr>) (p @ take k data) (drop k data)"
proof -
  have k0: "k = 0" if "length data < 64" using that by (simp add: k_def)
  have d1: "d1 = drop k data" using k0 by (simp add: d1_def)
  have lk: "length (take k data) = k" "length (drop k data) = length data mod 64"
    using mod_less_eq_dividend[of "length data" 64] by (simp_all add: k_def)
  have k64: "k mod 64 = 0" by (simp add: k_def minus_mod_eq_mult_div)
  have w: "md5_words c1 = md5_blocks md5_start (p @ take k data)"
    unfolding md5_blocks_append[OF assms(1)] by (simp add: c1_def body_words assms(2) k0 md5_blocks_done)
  have m: "length (p @ take k data) mod 64 = 0" using assms(1) lk(1) k64 by (simp add: mod_add_eq[symmetric, of _ k])
  have small: "length (drop k data) < 64" using lk(2) by simp
  have buf: "length (md_buffer c1) = 64" "md_bytes c1 = of_nat (length (p @ data))" using assms(3,4) by (simp_all add: c1_def)
  have "length (put_at (md_buffer c1) 0 d1) = 64" using put_at_length[of 0 d1 "md_buffer c1"] buf small d1 by simp
  moreover have "take (length (drop k data)) (put_at (md_buffer c1) 0 d1) = drop k data"
    using put_at_take[of 0 d1 "md_buffer c1"] buf small d1 by simp
  ultimately show ?thesis unfolding md5_inv_def using w m small buf by simp
qed

lemma md5_update_inv:
  assumes inv: "md5_inv ctx p q"
  shows "\<exists>p' q'. md5_inv (ngx_md5_update ctx data) p' q' \<and> p' @ q' = p @ q @ data"
proof -
  note used = md5_inv_used[OF inv]
  have q: "length q < 64" "length (md_buffer ctx) = 64" "take (length q) (md_buffer ctx) = q" "length p mod 64 = 0"
    "md5_words ctx = md5_blocks md5_start p" "md_bytes ctx = of_nat (length (p @ q))"
    using inv by (simp_all add: md5_inv_def)
  define n where "n = md_bytes ctx + of_nat (length data)"
  have n: "n = of_nat (length (p @ q @ data))" using q(6) by (simp add: n_def)
  consider "q \<noteq> []" "length data < 64 - length q" | "q = []" | "q \<noteq> []" "64 - length q \<le> length data" by linarith
  then show ?thesis
  proof cases
    case 1
    have "ngx_md5_update ctx data = ctx\<lparr> md_bytes := n, md_buffer := put_at (md_buffer ctx) (length q) data \<rparr>"
      using 1 by (simp add: ngx_md5_update_def used n_def Let_def)
    moreover have "md5_inv (ctx\<lparr> md_bytes := n, md_buffer := put_at (md_buffer ctx) (length q) data \<rparr>) p (q @ data)"
      using 1 q n put_at_length[of "length q" data "md_buffer ctx"] put_at_take[of "length q" data "md_buffer ctx"]
      by (simp add: md5_inv_def)
    ultimately show ?thesis by auto
  next
    case 2
    define c where "c = ctx\<lparr> md_bytes := n \<rparr>"
    have "md5_words c = md5_blocks md5_start p" "md_bytes c = of_nat (length (p @ data))" "length (md_buffer c) = 64"
      using q n 2 by (simp_all add: c_def)
    note W = md5_whole[OF q(4) this]
    have "ngx_md5_update ctx data =
       (let k = length data - length data mod 64;
            c1 = (if length data \<ge> 64 then ngx_md5_body c (take k data) else c); d1 = (if length data \<ge> 64 then drop k data else data)
        in c1\<lparr> md_buffer := put_at (md_buffer c1) 0 d1 \<rparr>)"
      using 2 by (simp add: ngx_md5_update_def used n_def c_def Let_def)
    then show ?thesis using W 2 unfolding Let_def by (metis append_Nil append_assoc append_take_drop_id)
  next
    case 3
    define d where "d = drop (64 - length q) data"
    define c where "c = ctx\<lparr> md_bytes := n, md_buffer := put_at (md_buffer ctx) (length q) (take (64 - length q) data) \<rparr>"
    define c0 where "c0 = ngx_md5_body c (md_buffer c)"
    define p1 where "p1 = p @ q @ take (64 - length q) data"
    have "length p1 mod 64 = 0 \<and> md5_words c0 = md5_blocks md5_start p1 \<and> md_bytes c0 = n \<and> length (md_buffer c0) = 64"
      unfolding c0_def p1_def by (rule md5_fill[OF inv 3(2)]) (simp_all add: c_def)
    moreover have pd: "p1 @ d = p @ q @ data" by (simp add: p1_def d_def)
    ultimately have "length p1 mod 64 = 0" "md5_words c0 = md5_blocks md5_start p1" "md_bytes c0 = of_nat (length (p1 @ d))" "length (md_buffer c0) = 64"
      using n by simp_all
    note W = md5_whole[OF this]
    have "ngx_md5_update ctx data =
       (let k = length d - length d mod 64;
            c1 = (if length d \<ge> 64 then ngx_md5_body c0 (take k d) else c0); d1 = (if length d \<ge> 64 then drop k d else d)
        in c1\<lparr> md_buffer := put_at (md_buffer c1) 0 d1 \<rparr>)"
      using 3 by (simp add: ngx_md5_update_def used n_def c_def c0_def d_def Let_def)
    then show ?thesis using W pd unfolding Let_def by (metis append_assoc append_take_drop_id)
  qed
qed

lemma md5_updates_inv:
  "md5_inv ctx p q \<Longrightarrow> \<exists>p' q'. md5_inv (foldl ngx_md5_update ctx chunks) p' q' \<and> p' @ q' = p @ q @ concat chunks"
proof (induction chunks arbitrary: ctx p q)
  case (Cons x xs)
  obtain p1 q1 where 1: "md5_inv (ngx_md5_update ctx x) p1 q1" "p1 @ q1 = p @ q @ x" using md5_update_inv[OF Cons.prems] by blast
  obtain p2 q2 where 2: "md5_inv (foldl ngx_md5_update (ngx_md5_update ctx x) xs) p2 q2" "p2 @ q2 = p1 @ q1 @ concat xs"
    using Cons.IH[OF 1(1)] by blast
  have "p2 @ q2 = p @ q @ concat (x # xs)" using 2(2) 1(2) by (metis append_assoc concat.simps(2))
  then show ?case using 2(1) by auto
qed auto

lemma md5_init_inv: "length (md_buffer ctx) = 64 \<Longrightarrow> md5_inv (ngx_md5_init ctx) [] []"
  by (simp add: md5_inv_def ngx_md5_init_def md5_words_def md5_start_def md5_blocks_done)

section \<open>The digest\<close>

definition digest_of :: "md5_words \<Rightarrow> bytes" where
  "digest_of w = (case w of (a, b, c, d) \<Rightarrow> le32 a @ le32 b @ le32 c @ le32 d)"

lemma digest_words: "le32 (md_a c) @ le32 (md_b c) @ le32 (md_c c) @ le32 (md_d c) = digest_of (md5_words c)"
  by (simp add: digest_of_def md5_words_def)

lemma le64_length [simp]: "length (le64 w) = 8"
  by (simp add: le64_def)

lemma put_at_all: "length buf = i + length d \<Longrightarrow> put_at buf i d = take i buf @ d"
  by (simp add: put_at_def)

lemma take_put_at: "i + length d \<le> length buf \<Longrightarrow> take (i + length d) (put_at buf i d) = take i buf @ d"
  by (rule put_at_take)

lemma md5_last_blocks:
  assumes "length p mod 64 = 0" "md5_words c = md5_blocks md5_start p" "length z = 56" "length (md_buffer c) = 64" "take 56 (md_buffer c) = z"
  shows "md5_words (ngx_md5_body c (put_at (md_buffer c) 56 (le64 n))) = rfc_blocks md5_start (p @ z @ le64 n)"
proof -
  have "put_at (md_buffer c) 56 (le64 n) = z @ le64 n" using put_at_all[of "md_buffer c" 56 "le64 n"] assms(4,5) by simp
  moreover have "length (p @ z @ le64 n) mod 64 = 0" using assms(1,3) by (simp add: mod_add_eq[symmetric, of "length p"])
  ultimately show ?thesis
    by (simp only: body_words assms(2) md5_blocks_append[OF assms(1), symmetric] blocks_eq)
qed

lemma md5_final_words:
  assumes inv: "md5_inv ctx p q"
  shows "ngx_md5_final ctx =
    digest_of (rfc_blocks md5_start (p @ q @ [0x80] @ replicate ((119 - length q) mod 64) 0 @ le64 (push_bit 3 (md_bytes ctx))))"
proof -
  note used = md5_inv_used[OF inv]
  have q: "length q < 64" "length (md_buffer ctx) = 64" "take (length q) (md_buffer ctx) = q" "length p mod 64 = 0"
    "md5_words ctx = md5_blocks md5_start p"
    using inv by (simp_all add: md5_inv_def)
  define n where "n = le64 (push_bit 3 (md_bytes ctx))"
  define b0 where "b0 = (md_buffer ctx)[length q := 0x80]"
  have b0: "length b0 = 64" "take (length q + 1) b0 = q @ [0x80]"
    using q by (simp_all add: b0_def take_Suc_conv_app_nth)
  show ?thesis
  proof (cases "length q < 56")
    case True
    define c where "c = ctx\<lparr> md_buffer := put_at b0 (length q + 1) (replicate (55 - length q) 0) \<rparr>"
    have len: "length q + 1 + length (replicate (55 - length q) (0 :: u_char)) = 56" using True by simp
    have buf: "length (md_buffer c) = 64" "take 56 (md_buffer c) = q @ [0x80] @ replicate (55 - length q) 0"
      using put_at_length[of "length q + 1" "replicate (55 - length q) 0" b0] put_at_take[of "length q + 1" "replicate (55 - length q) 0" b0] len b0
      by (simp_all add: c_def)
    have nf: "\<not> 63 - length q < 8" "63 - length q - 8 = 55 - length q" using True by simp_all
    have "119 - length q = (55 - length q) + 64" using True by simp
    then have pad: "(119 - length q) mod 64 = 55 - length q" using True by (simp only: mod_add_self2) simp
    have "md5_words (ngx_md5_body c (put_at (md_buffer c) 56 n)) = rfc_blocks md5_start (p @ (q @ [0x80] @ replicate (55 - length q) 0) @ n)"
      unfolding n_def by (rule md5_last_blocks[OF q(4)]) (use q(5) buf len in \<open>simp_all add: c_def\<close>)
    moreover have "ngx_md5_final ctx = digest_of (md5_words (ngx_md5_body c (put_at (md_buffer c) 56 n)))"
      using nf by (simp add: ngx_md5_final_def used n_def c_def b0_def digest_words body_words Let_def)
    ultimately show ?thesis unfolding pad n_def[symmetric] by simp
  next
    case False
    have sf: "63 - length q < 8" using False q(1) by simp
    define c0 where "c0 = ctx\<lparr> md_buffer := put_at b0 (length q + 1) (replicate (63 - length q) 0) \<rparr>"
    define c1 where "c1 = ngx_md5_body c0 (md_buffer c0)"
    define c where "c = c1\<lparr> md_buffer := put_at (md_buffer c1) 0 (replicate 56 0) \<rparr>"
    have len: "length q + 1 + length (replicate (63 - length q) (0 :: u_char)) = 64" using q(1) by simp
    have c0: "md_buffer c0 = q @ [0x80] @ replicate (63 - length q) 0" "length (md_buffer c0) = 64"
      using put_at_all[of b0 "length q + 1" "replicate (63 - length q) 0"] len b0 by (simp_all add: c0_def)
    have m: "length (p @ md_buffer c0) mod 64 = 0" using q(4) c0(2) by simp
    have w: "md5_words c1 = md5_blocks md5_start (p @ md_buffer c0)"
      unfolding c1_def body_words md5_blocks_append[OF q(4)] using q(5) by (simp add: c0_def)
    have "length (md_buffer c) = 64" "take 56 (md_buffer c) = replicate 56 0"
      using put_at_length[of 0 "replicate 56 0" "md_buffer c1"] put_at_take[of 0 "replicate 56 0" "md_buffer c1"] c0(2) by (simp_all add: c_def c1_def)
    then have "md5_words (ngx_md5_body c (put_at (md_buffer c) 56 n)) = rfc_blocks md5_start ((p @ md_buffer c0) @ replicate 56 0 @ n)"
      unfolding n_def by (intro md5_last_blocks[OF m]) (simp_all add: c_def w)
    moreover have "ngx_md5_final ctx = digest_of (md5_words (ngx_md5_body c (put_at (md_buffer c) 56 n)))"
      using sf by (simp add: ngx_md5_final_def used n_def c_def c1_def c0_def b0_def digest_words body_words Let_def)
    moreover have pad: "(119 - length q) mod 64 = (63 - length q) + 56" using False q(1) by simp
    ultimately show ?thesis unfolding pad n_def[symmetric] c0(1) replicate_add by (simp only: append_assoc)
  qed
qed

lemma md5_final_inv:
  assumes inv: "md5_inv ctx p q"
  shows "ngx_md5_final ctx = rfc_digest (p @ q)"
proof -
  have q: "length q < 64" "length p mod 64 = 0" "md_bytes ctx = of_nat (length (p @ q))" using inv by (simp_all add: md5_inv_def)
  have "length (p @ q) mod 64 = length q" using q(1,2) by (simp add: mod_add_left_eq[symmetric])
  moreover have "push_bit 3 (md_bytes ctx) = of_nat (8 * length (p @ q))" by (simp add: q(3) push_bit_eq_mult)
  ultimately have "p @ q @ [0x80] @ replicate ((119 - length q) mod 64) 0 @ le64 (push_bit 3 (md_bytes ctx)) = rfc_pad (p @ q)"
    by (simp add: rfc_pad_def)
  then show ?thesis using md5_final_words[OF inv] by (simp add: rfc_digest_def digest_of_def md5_start_def)
qed

text \<open>
  Property C34 (equivalence).  The digest that nginx computes is that of RFC 1321, of the whole text, in whatever pieces
  the text is given to \<^verbatim>\<open>ngx_md5_update\<close>.
\<close>
theorem md5_of_pieces:
  assumes "length (md_buffer ctx) = 64"
  shows "ngx_md5_final (foldl ngx_md5_update (ngx_md5_init ctx) chunks) = rfc_digest (concat chunks)"
proof -
  obtain p q where "md5_inv (foldl ngx_md5_update (ngx_md5_init ctx) chunks) p q" "p @ q = [] @ [] @ concat chunks"
    using md5_updates_inv[OF md5_init_inv[OF assms]] by blast
  then show ?thesis using md5_final_inv by simp
qed

definition md5_zero :: ngx_md5 where
  "md5_zero = \<lparr> md_bytes = 0, md_a = 0, md_b = 0, md_c = 0, md_d = 0, md_buffer = replicate 64 0 \<rparr>"

text \<open>The digest of ``abc'', of the RFC's test suite.\<close>

lemma rfc_digest_abc:
  "rfc_digest [0x61, 0x62, 0x63] =
     [0x90, 0x01, 0x50, 0x98, 0x3c, 0xd2, 0x4f, 0xb0, 0xd6, 0x96, 0x3f, 0x7d, 0x28, 0xe1, 0x7f, 0x72]"
  by code_simp

lemma md5_of_pieces_witness:
  "ngx_md5_final (foldl ngx_md5_update (ngx_md5_init md5_zero) [[0x61], [0x62, 0x63]]) =
     [0x90, 0x01, 0x50, 0x98, 0x3c, 0xd2, 0x4f, 0xb0, 0xd6, 0x96, 0x3f, 0x7d, 0x28, 0xe1, 0x7f, 0x72]"
proof -
  have "length (md_buffer md5_zero) = 64" by (simp add: md5_zero_def)
  from md5_of_pieces[OF this, of "[[0x61], [0x62, 0x63]]"] show ?thesis by (simp add: rfc_digest_abc)
qed

end
