(* ===== verification/Ngx_Rbtree.thy ===== *)
theory Ngx_Rbtree
  imports Ngx_Prelude
begin

text \<open>
  The red-black trees of \<^verbatim>\<open>core/ngx_rbtree.c\<close>.  A node's \<^verbatim>\<open>parent\<close> pointers, up to the root, are the path of the
  node: the frames of its ancestors, the parent first, each with the other child.  A pointer to a node in a tree is
  the subtree below it and its path, and what the code does by assigning pointers is done on these.  Going to the parent
  of the root, or into the sentinel, is \<^term>\<open>None\<close>.
\<close>

section \<open>Model\<close>

datatype color = Red | Black

datatype 'a rbt = Sentinel | Node color 'a "'a rbt" "'a rbt"

lemma color_not [simp]: "c \<noteq> Red \<longleftrightarrow> c = Black" "c \<noteq> Black \<longleftrightarrow> c = Red"
  by (cases c; simp)+

text \<open>The node is the left or the right child of the frame's node.\<close>

datatype 'a frame = Left_of color 'a "'a rbt" | Right_of color 'a "'a rbt"

type_synonym 'a path = "'a frame list"

fun rbt_color :: "'a rbt \<Rightarrow> color" where
  "rbt_color Sentinel = Black"
| "rbt_color (Node c x l r) = c"

fun rbt_paint :: "color \<Rightarrow> 'a rbt \<Rightarrow> 'a rbt" where
  "rbt_paint c Sentinel = Sentinel"
| "rbt_paint c (Node c' x l r) = Node c x l r"

fun frame_color :: "'a frame \<Rightarrow> color" where
  "frame_color (Left_of c x r) = c"
| "frame_color (Right_of c x l) = c"

fun plug :: "'a rbt \<Rightarrow> 'a frame \<Rightarrow> 'a rbt" where
  "plug t (Left_of c x r) = Node c x t r"
| "plug t (Right_of c x l) = Node c x l t"

definition to_root :: "'a rbt \<Rightarrow> 'a path \<Rightarrow> 'a rbt" where
  "to_root t path = foldl plug t path"

fun ngx_rbtree_left_rotate :: "'a rbt \<Rightarrow> 'a rbt option" where
  "ngx_rbtree_left_rotate (Node c x l (Node d y t r)) = Some (Node d y (Node c x l t) r)"
| "ngx_rbtree_left_rotate _ = None"

fun ngx_rbtree_right_rotate :: "'a rbt \<Rightarrow> 'a rbt option" where
  "ngx_rbtree_right_rotate (Node c x (Node d y l t) r) = Some (Node d y l (Node c x t r))"
| "ngx_rbtree_right_rotate _ = None"

text \<open>
  The insert callbacks differ in when a node goes to the left of another; the path of the new node is returned.
\<close>

fun insert_path :: "('a \<Rightarrow> 'a \<Rightarrow> bool) \<Rightarrow> 'a rbt \<Rightarrow> 'a \<Rightarrow> 'a path \<Rightarrow> 'a path" where
  "insert_path goes_left Sentinel x path = path"
| "insert_path goes_left (Node c y l r) x path =
     (if goes_left x y then insert_path goes_left l x (Left_of c y r # path)
      else insert_path goes_left r x (Right_of c y l # path))"

definition new_node :: "'a \<Rightarrow> 'a rbt" where
  "new_node x = Node Red x Sentinel Sentinel"

text \<open>
  The rebalancing after an insertion: the red node and its path.  In the case of a black uncle, the node's parent is black
  afterwards, which ends the loop.
\<close>

fun insert_fix :: "'a rbt \<Rightarrow> 'a path \<Rightarrow> 'a rbt option" where
  "insert_fix t [] = Some (rbt_paint Black t)"
| "insert_fix t [p] =
     (if frame_color p = Red then None else Some (rbt_paint Black (plug t p)))"
| "insert_fix t (p # g # path) =
     (if frame_color p = Black then Some (rbt_paint Black (to_root t (p # g # path)))
      else
        case g of
          Left_of c y temp \<Rightarrow>
            if rbt_color temp = Red then
              insert_fix (Node Red y (rbt_paint Black (plug t p)) (rbt_paint Black temp)) path
            else
              (case (case p of Left_of _ _ _ \<Rightarrow> Some (plug t p) | Right_of _ _ _ \<Rightarrow> ngx_rbtree_left_rotate (plug t p)) of
                 None \<Rightarrow> None
               | Some parent \<Rightarrow>
                   (case ngx_rbtree_right_rotate (Node Red y (rbt_paint Black parent) temp) of
                      None \<Rightarrow> None
                    | Some sub \<Rightarrow> Some (rbt_paint Black (to_root sub path))))
        | Right_of c y temp \<Rightarrow>
            if rbt_color temp = Red then
              insert_fix (Node Red y (rbt_paint Black temp) (rbt_paint Black (plug t p))) path
            else
              (case (case p of Right_of _ _ _ \<Rightarrow> Some (plug t p) | Left_of _ _ _ \<Rightarrow> ngx_rbtree_right_rotate (plug t p)) of
                 None \<Rightarrow> None
               | Some parent \<Rightarrow>
                   (case ngx_rbtree_left_rotate (Node Red y temp (rbt_paint Black parent)) of
                      None \<Rightarrow> None
                    | Some sub \<Rightarrow> Some (rbt_paint Black (to_root sub path)))))"

definition ngx_rbtree_insert :: "('a \<Rightarrow> 'a \<Rightarrow> bool) \<Rightarrow> 'a rbt \<Rightarrow> 'a \<Rightarrow> 'a rbt option" where
  "ngx_rbtree_insert goes_left t x =
     (if t = Sentinel then Some (Node Black x Sentinel Sentinel)
      else insert_fix (new_node x) (insert_path goes_left t x []))"

fun rbtree_min_from :: "color \<Rightarrow> 'a \<Rightarrow> 'a rbt \<Rightarrow> 'a rbt \<Rightarrow> 'a path \<Rightarrow> color \<times> 'a \<times> 'a rbt \<times> 'a path" where
  "rbtree_min_from c x Sentinel r path = (c, x, r, path)"
| "rbtree_min_from c x (Node d y l s) r path = rbtree_min_from d y l s (Left_of c x r # path)"

fun paint_left :: "color \<Rightarrow> 'a rbt \<Rightarrow> 'a rbt" where
  "paint_left c Sentinel = Sentinel"
| "paint_left c (Node d x l r) = Node d x (rbt_paint c l) r"

fun paint_right :: "color \<Rightarrow> 'a rbt \<Rightarrow> 'a rbt" where
  "paint_right c Sentinel = Sentinel"
| "paint_right c (Node d x l r) = Node d x l (rbt_paint c r)"

text \<open>
  The rebalancing after a deletion: \<open>temp\<close> lacks a black node.  A red sibling \<open>w\<close> is first rotated above the parent; then \<open>temp\<close> is
  the child of the parent, now red, with a child of \<open>w\<close> as its sibling.
\<close>

function delete_fix :: "'a rbt \<Rightarrow> 'a path \<Rightarrow> 'a rbt option" where
  "delete_fix temp [] = Some (rbt_paint Black temp)"
| "delete_fix temp (f # path) =
     (if rbt_color temp = Red then Some (to_root (rbt_paint Black temp) (f # path))
      else
        case f of
          Left_of c x w \<Rightarrow>
            (let (c, w, path) = (case w of Node Red y wl wr \<Rightarrow> (Red, wl, Left_of Black y wr # path) | _ \<Rightarrow> (c, w, path)) in
             case w of
               Sentinel \<Rightarrow> None
             | Node d y wl wr \<Rightarrow>
                 if rbt_color wl = Black \<and> rbt_color wr = Black then delete_fix (Node c x temp (rbt_paint Red w)) path
                 else
                   (case (if rbt_color wr = Black then ngx_rbtree_right_rotate (rbt_paint Red (paint_left Black w)) else Some w) of
                      None \<Rightarrow> None
                    | Some w \<Rightarrow>
                        (case ngx_rbtree_left_rotate (Node Black x temp (paint_right Black (rbt_paint c w))) of
                           None \<Rightarrow> None
                         | Some sub \<Rightarrow> Some (rbt_paint Black (to_root sub path)))))
        | Right_of c x w \<Rightarrow>
            (let (c, w, path) = (case w of Node Red y wl wr \<Rightarrow> (Red, wr, Right_of Black y wl # path) | _ \<Rightarrow> (c, w, path)) in
             case w of
               Sentinel \<Rightarrow> None
             | Node d y wl wr \<Rightarrow>
                 if rbt_color wl = Black \<and> rbt_color wr = Black then delete_fix (Node c x (rbt_paint Red w) temp) path
                 else
                   (case (if rbt_color wl = Black then ngx_rbtree_left_rotate (rbt_paint Red (paint_right Black w)) else Some w) of
                      None \<Rightarrow> None
                    | Some w \<Rightarrow>
                        (case ngx_rbtree_right_rotate (Node Black x (paint_left Black (rbt_paint c w)) temp) of
                           None \<Rightarrow> None
                         | Some sub \<Rightarrow> Some (rbt_paint Black (to_root sub path))))))"
  by pat_completeness auto
termination
  by (relation "measure (\<lambda>(temp, path). 2 * length path + (if rbt_color temp = Black then 1 else 0))")
     (auto split: rbt.splits color.splits if_splits)

text \<open>The deletion of the node \<open>Node c x l r\<close> at the end of a path.\<close>

definition ngx_rbtree_delete :: "color \<Rightarrow> 'a \<Rightarrow> 'a rbt \<Rightarrow> 'a rbt \<Rightarrow> 'a path \<Rightarrow> 'a rbt option" where
  "ngx_rbtree_delete c x l r path =
     (let (red, temp, tpath) =
            (case (l, r) of
               (Sentinel, _) \<Rightarrow> (c = Red, r, path)
             | (_, Sentinel) \<Rightarrow> (c = Red, l, path)
             | (_, Node rc rx rl rr) \<Rightarrow>
                 (let (sc, s, temp, spath) = rbtree_min_from rc rx rl rr []
                  in (sc = Red, temp, spath @ Right_of c s l # path)))
      in if path = [] \<and> (l = Sentinel \<or> r = Sentinel) then Some (rbt_paint Black temp)
         else if red then Some (to_root temp tpath)
         else delete_fix temp tpath)"

text \<open>Where a node is: the first of the tree for which the test holds.\<close>

fun rbt_locate :: "('a \<Rightarrow> bool) \<Rightarrow> 'a rbt \<Rightarrow> 'a path \<Rightarrow> (color \<times> 'a \<times> 'a rbt \<times> 'a rbt \<times> 'a path) option" where
  "rbt_locate P Sentinel path = None"
| "rbt_locate P (Node c x l r) path =
     (if P x then Some (c, x, l, r, path)
      else case rbt_locate P l (Left_of c x r # path) of
             Some loc \<Rightarrow> Some loc
           | None \<Rightarrow> rbt_locate P r (Right_of c x l # path))"

section \<open>The order of the nodes\<close>

fun inorder :: "'a rbt \<Rightarrow> 'a list" where
  "inorder Sentinel = []"
| "inorder (Node c x l r) = inorder l @ x # inorder r"

text \<open>What comes before and after the place at the end of a path.\<close>

fun before :: "'a path \<Rightarrow> 'a list" where
  "before [] = []"
| "before (Left_of c x r # path) = before path"
| "before (Right_of c x l # path) = before path @ inorder l @ [x]"

fun after :: "'a path \<Rightarrow> 'a list" where
  "after [] = []"
| "after (Left_of c x r # path) = x # inorder r @ after path"
| "after (Right_of c x l # path) = after path"

lemma inorder_paint [simp]: "inorder (rbt_paint c t) = inorder t"
  by (cases t) simp_all

lemma inorder_paint_child [simp]: "inorder (paint_left c t) = inorder t" "inorder (paint_right c t) = inorder t"
  by (cases t; simp)+

lemma to_root_simps [simp]: "to_root t [] = t" "to_root t (f # path) = to_root (plug t f) path"
  by (simp_all add: to_root_def)

lemma inorder_plug: "before path @ inorder (plug t f) @ after path = before (f # path) @ inorder t @ after (f # path)"
  by (cases f) simp_all

lemma inorder_to_root: "inorder (to_root t path) = before path @ inorder t @ after path"
proof (induction path arbitrary: t)
  case (Cons f path)
  then show ?case using inorder_plug[of path t f] by simp
qed simp

lemma rotate_inorder:
  "ngx_rbtree_left_rotate t = Some t' \<Longrightarrow> inorder t' = inorder t" "ngx_rbtree_right_rotate t = Some t' \<Longrightarrow> inorder t' = inorder t"
  by (cases t rule: ngx_rbtree_left_rotate.cases; auto) (cases t rule: ngx_rbtree_right_rotate.cases; auto)

lemma insert_fix_inorder: "insert_fix t path = Some t' \<Longrightarrow> inorder t' = before path @ inorder t @ after path"
proof (induction t path rule: insert_fix.induct)
  case (3 t p g path)
  then show ?case
    by (cases p; cases g)
       (auto simp: inorder_to_root dest!: rotate_inorder split: if_splits option.splits)
qed (auto simp: inorder_plug[of "[]", simplified] split: if_splits)

lemma insert_path_order:
  "\<exists>xs ys. before (insert_path gl t x path) = before path @ xs \<and> after (insert_path gl t x path) = ys @ after path \<and> inorder t = xs @ ys"
proof (induction t arbitrary: path)
  case (Node c y l r)
  show ?case
  proof (cases "gl x y")
    case True
    obtain xs ys where "before (insert_path gl l x (Left_of c y r # path)) = before path @ xs"
      "after (insert_path gl l x (Left_of c y r # path)) = ys @ y # inorder r @ after path" "inorder l = xs @ ys"
      using Node.IH(1)[of "Left_of c y r # path"] by auto
    then show ?thesis using True by (intro exI[of _ xs] exI[of _ "ys @ y # inorder r"]) simp
  next
    case False
    obtain xs ys where "before (insert_path gl r x (Right_of c y l # path)) = before path @ inorder l @ y # xs"
      "after (insert_path gl r x (Right_of c y l # path)) = ys @ after path" "inorder r = xs @ ys"
      using Node.IH(2)[of "Right_of c y l # path"] by auto
    then show ?thesis using False by (intro exI[of _ "inorder l @ y # xs"] exI[of _ ys]) simp
  qed
qed simp

text \<open>The nodes that the new one does not go to the left of come before it, where the tree is ordered.\<close>

definition ordered :: "('a \<Rightarrow> 'a \<Rightarrow> bool) \<Rightarrow> 'a list \<Rightarrow> bool" where
  "ordered gl xs \<longleftrightarrow> sorted_wrt (\<lambda>a b. \<not> gl b a) xs"

text \<open>A comparison by a key: what a node goes to the left of.\<close>

definition by_key :: "('a \<Rightarrow> 'k :: linorder) \<Rightarrow> 'a \<Rightarrow> 'a \<Rightarrow> bool" where
  "by_key key a b \<longleftrightarrow> key a < key b"

lemma ordered_by_key: "ordered (by_key key) xs \<longleftrightarrow> sorted (map key xs)"
  by (simp add: ordered_def by_key_def sorted_map not_less)

lemma insert_path_sorted:
  "sorted (map key (inorder t)) \<Longrightarrow> \<forall>y \<in> set (before path). key y \<le> key x \<Longrightarrow> \<forall>y \<in> set (after path). key x < key y \<Longrightarrow>
   before (insert_path (by_key key) t x path) = before path @ filter (\<lambda>y. key y \<le> key x) (inorder t) \<and>
   after (insert_path (by_key key) t x path) = filter (\<lambda>y. key x < key y) (inorder t) @ after path"
proof (induction t arbitrary: path)
  case (Node c y l r)
  have s: "sorted (map key (inorder l))" "sorted (map key (inorder r))" "\<forall>z \<in> set (inorder l). key z \<le> key y" "\<forall>z \<in> set (inorder r). key y \<le> key z"
    using Node.prems(1) by (auto simp: sorted_append)
  show ?case
  proof (cases "key x < key y")
    case True
    then have g: "\<forall>z \<in> set (inorder r). key x < key z" using s(4) by auto
    then have f: "filter (\<lambda>z. key z \<le> key x) (inorder r) = []" "filter (\<lambda>z. key x < key z) (inorder r) = inorder r"
      by (simp_all add: filter_empty_conv filter_id_conv not_le)
    have "\<forall>z \<in> set (after (Left_of c y r # path)). key x < key z" using True g Node.prems(3) by auto
    from Node.IH(1)[OF s(1) _ this] show ?thesis using True f Node.prems(2) by (simp add: by_key_def)
  next
    case False
    then have g: "\<forall>z \<in> set (inorder l). key z \<le> key x" using s(3) by auto
    then have f: "filter (\<lambda>z. key x < key z) (inorder l) = []" "filter (\<lambda>z. key z \<le> key x) (inorder l) = inorder l"
      by (simp_all add: filter_empty_conv filter_id_conv not_less)
    have "\<forall>z \<in> set (before (Right_of c y l # path)). key z \<le> key x" using False g Node.prems(2) by auto
    from Node.IH(2)[OF s(2) this] show ?thesis using False f Node.prems(3) by (simp add: by_key_def)
  qed
qed simp

lemma min_from_order:
  "rbtree_min_from c x l r path = (sc, s, temp, spath) \<Longrightarrow>
   before spath = before path \<and> inorder l @ x # inorder r @ after path = s # inorder temp @ after spath"
  by (induction c x l r path arbitrary: sc s temp spath rule: rbtree_min_from.induct) fastforce+

lemma before_append: "before (p @ q) = before q @ before p" and after_append: "after (p @ q) = after p @ after q"
  by (induction p rule: before.induct; simp)+

lemma delete_fix_inorder: "delete_fix temp path = Some t \<Longrightarrow> inorder t = before path @ inorder temp @ after path"
proof (induction temp path rule: delete_fix.induct)
  case (2 temp f path)
  show ?case
  proof (cases f)
    case (Left_of c x w)
    then show ?thesis using 2 
      by (auto simp: inorder_to_root Let_def dest!: rotate_inorder split: if_splits option.splits rbt.splits color.splits)
  next
    case (Right_of c x w)
    then show ?thesis using 2
      by (auto simp: inorder_to_root Let_def dest!: rotate_inorder split: if_splits option.splits rbt.splits color.splits)
  qed
qed auto

section \<open>The colours\<close>

fun bheight :: "'a rbt \<Rightarrow> nat" where
  "bheight Sentinel = 0"
| "bheight (Node c x l r) = bheight l + (if c = Black then 1 else 0)"

text \<open>No red node has a red child, and the black nodes on the way down are as many everywhere.\<close>

fun balanced :: "'a rbt \<Rightarrow> bool" where
  "balanced Sentinel = True"
| "balanced (Node c x l r) \<longleftrightarrow> balanced l \<and> balanced r \<and> bheight l = bheight r \<and>
     (c = Red \<longrightarrow> rbt_color l = Black \<and> rbt_color r = Black)"

definition rbt_valid :: "'a rbt \<Rightarrow> bool" where
  "rbt_valid t \<longleftrightarrow> balanced t \<and> rbt_color t = Black"

text \<open>A path that gives a valid tree with any subtree of black height \<open>h\<close>, of a colour \<open>c\<close> or black.\<close>

fun frame_ok :: "nat \<Rightarrow> color \<Rightarrow> 'a frame \<Rightarrow> bool" where
  "frame_ok h c (Left_of d x s) \<longleftrightarrow> balanced s \<and> bheight s = h \<and> (d = Red \<longrightarrow> c = Black \<and> rbt_color s = Black)"
| "frame_ok h c (Right_of d x s) \<longleftrightarrow> balanced s \<and> bheight s = h \<and> (d = Red \<longrightarrow> c = Black \<and> rbt_color s = Black)"

fun path_ok :: "nat \<Rightarrow> color \<Rightarrow> 'a path \<Rightarrow> bool" where
  "path_ok h c [] \<longleftrightarrow> c = Black"
| "path_ok h c (f # path) \<longleftrightarrow> frame_ok h c f \<and> path_ok (h + (if frame_color f = Black then 1 else 0)) (frame_color f) path"

lemma path_ok_black: "path_ok h c path \<Longrightarrow> path_ok h Black path"
proof (cases path)
  case (Cons f p)
  then show "path_ok h c path \<Longrightarrow> path_ok h Black path" by (cases f) auto
qed auto

lemma balanced_paint [simp]: "balanced t \<Longrightarrow> balanced (rbt_paint Black t)"
  by (cases t) auto

lemma bheight_plug: "frame_ok h c f \<Longrightarrow> bheight t = h \<Longrightarrow> bheight (plug t f) = h + (if frame_color f = Black then 1 else 0)"
  by (cases f) auto

lemma balanced_plug: "frame_ok h c f \<Longrightarrow> bheight t = h \<Longrightarrow> balanced t \<Longrightarrow> rbt_color t = c \<or> rbt_color t = Black \<Longrightarrow> balanced (plug t f)"
  by (cases f) auto

lemma color_plug [simp]: "rbt_color (plug t f) = frame_color f"
  by (cases f) auto

lemma to_root_valid:
  "path_ok h c path \<Longrightarrow> bheight t = h \<Longrightarrow> balanced t \<Longrightarrow> rbt_color t = c \<or> rbt_color t = Black \<Longrightarrow> rbt_valid (to_root t path)"
proof (induction path arbitrary: t h c)
  case Nil
  then show ?case by (auto simp: rbt_valid_def)
next
  case (Cons f path)
  then show ?case by (auto intro!: Cons.IH simp: bheight_plug balanced_plug)
qed

lemma paint_valid: "rbt_valid t \<Longrightarrow> rbt_valid (rbt_paint Black t)" "balanced t \<Longrightarrow> rbt_valid (rbt_paint Black t)"
  by (cases t; auto simp: rbt_valid_def)+

lemma insert_fix_valid:
  "balanced t \<Longrightarrow> rbt_color t = Red \<Longrightarrow> path_ok (bheight t) Black path \<Longrightarrow> \<exists>t'. insert_fix t path = Some t' \<and> rbt_valid t'"
proof (induction t path rule: insert_fix.induct)
  case (1 t)
  then show ?case by (simp add: paint_valid)
next
  case (2 t p)
  then show ?case by (cases p) (auto simp: rbt_valid_def)
next
  case (3 t p g path)
  show ?case
  proof (cases "frame_color p = Black")
    case True
    have "rbt_valid (to_root t (p # g # path))"
    proof (rule to_root_valid[of "bheight t" Red])
      show "path_ok (bheight t) Red (p # g # path)" using "3.prems"(3) True by (cases p) auto
    qed (use "3.prems" in auto)
    then show ?thesis using True by (simp add: paint_valid)
  next
    case False
    then have p: "frame_color p = Red" by simp
    show ?thesis
    proof (cases g)
      case (Left_of c y temp)
      have c: "c = Black" "balanced temp" "bheight temp = bheight t" "path_ok (bheight t + 1) Black path"
        using "3.prems"(3) p by (auto simp: Left_of)
      show ?thesis
      proof (cases "rbt_color temp = Red")
        case True
        have "balanced (Node Red y (rbt_paint Black (plug t p)) (rbt_paint Black temp))" "bheight (Node Red y (rbt_paint Black (plug t p)) (rbt_paint Black temp)) = bheight t + 1"
          using "3.prems" p c True by (cases p; cases temp; auto)+
        then show ?thesis using "3.IH"(1)[OF False Left_of True] True c(4) p by (simp add: Left_of)
      next
        case False
        show ?thesis
        proof (cases p)
          case (Left_of d x s)
          then show ?thesis using "3.prems" p c False \<open>g = Left_of c y temp\<close>
            by (cases t) (auto intro!: paint_valid(1) to_root_valid[of "bheight t + 1" Black])
        next
          case (Right_of d x s)
          then show ?thesis using "3.prems" p c False \<open>g = Left_of c y temp\<close>
            by (cases t) (auto intro!: paint_valid(1) to_root_valid[of "bheight t + 1" Black])
        qed
      qed
    next
      case (Right_of c y temp)
      have c: "c = Black" "balanced temp" "bheight temp = bheight t" "path_ok (bheight t + 1) Black path"
        using "3.prems"(3) p by (auto simp: Right_of)
      show ?thesis
      proof (cases "rbt_color temp = Red")
        case True
        have "balanced (Node Red y (rbt_paint Black temp) (rbt_paint Black (plug t p)))" "bheight (Node Red y (rbt_paint Black temp) (rbt_paint Black (plug t p))) = bheight t + 1"
          using "3.prems" p c True by (cases p; cases temp; auto)+
        then show ?thesis using "3.IH"(2)[OF False Right_of True] True c(4) p by (simp add: Right_of)
      next
        case False
        show ?thesis
        proof (cases p)
          case (Left_of d x s)
          then show ?thesis using "3.prems" p c False \<open>g = Right_of c y temp\<close>
            by (cases t) (auto intro!: paint_valid(1) to_root_valid[of "bheight t + 1" Black])
        next
          case (Right_of d x s)
          then show ?thesis using "3.prems" p c False \<open>g = Right_of c y temp\<close>
            by (cases t) (auto intro!: paint_valid(1) to_root_valid[of "bheight t + 1" Black])
        qed
      qed
    qed
  qed
qed

lemma insert_path_ok:
  "balanced t \<Longrightarrow> path_ok (bheight t) (rbt_color t) path \<Longrightarrow> path_ok 0 Black (insert_path gl t x path)"
proof (induction t arbitrary: path)
  case Sentinel
  then show ?case by simp
next
  case (Node c y l r)
  have "path_ok (bheight l) (rbt_color l) (Left_of c y r # path)" "path_ok (bheight r) (rbt_color r) (Right_of c y l # path)"
    using Node.prems by (auto split: if_splits)
  then show ?case using Node by simp
qed

lemma insert_valid:
  assumes "rbt_valid t"
  shows "\<exists>t'. ngx_rbtree_insert gl t x = Some t' \<and> rbt_valid t'"
proof (cases "t = Sentinel")
  case True
  then show ?thesis by (simp add: ngx_rbtree_insert_def rbt_valid_def)
next
  case False
  have "path_ok 0 Black (insert_path gl t x [])"
    using assms by (intro insert_path_ok) (simp_all add: rbt_valid_def)
  then show ?thesis using False insert_fix_valid[of "new_node x" "insert_path gl t x []"]
    by (simp add: ngx_rbtree_insert_def new_node_def)
qed

text \<open>A subtree that lacks one black node.\<close>

text \<open>The last step, with a black sibling that has a red child.\<close>

definition delete_end_left :: "color \<Rightarrow> 'a \<Rightarrow> 'a rbt \<Rightarrow> 'a rbt \<Rightarrow> 'a rbt \<Rightarrow> 'a path \<Rightarrow> 'a rbt option" where
  "delete_end_left c x temp w wr path =
     (case (if rbt_color wr = Black then ngx_rbtree_right_rotate (rbt_paint Red (paint_left Black w)) else Some w) of
        None \<Rightarrow> None
      | Some w \<Rightarrow>
          (case ngx_rbtree_left_rotate (Node Black x temp (paint_right Black (rbt_paint c w))) of
             None \<Rightarrow> None
           | Some sub \<Rightarrow> Some (rbt_paint Black (to_root sub path))))"

definition delete_end_right :: "color \<Rightarrow> 'a \<Rightarrow> 'a rbt \<Rightarrow> 'a rbt \<Rightarrow> 'a rbt \<Rightarrow> 'a path \<Rightarrow> 'a rbt option" where
  "delete_end_right c x temp w wl path =
     (case (if rbt_color wl = Black then ngx_rbtree_left_rotate (rbt_paint Red (paint_right Black w)) else Some w) of
        None \<Rightarrow> None
      | Some w \<Rightarrow>
          (case ngx_rbtree_right_rotate (Node Black x (paint_left Black (rbt_paint c w)) temp) of
             None \<Rightarrow> None
           | Some sub \<Rightarrow> Some (rbt_paint Black (to_root sub path))))"

lemma delete_left_done:
  assumes "\<not> (rbt_color wl = Black \<and> rbt_color wr = Black)" "balanced temp" "balanced (Node Black y wl wr)"
    "bheight (Node Black y wl wr) = bheight temp + 1" "path_ok (bheight temp + 1 + (if c = Black then 1 else 0)) c path"
  shows "\<exists>t'. delete_end_left c x temp (Node Black y wl wr) wr path = Some t' \<and> rbt_valid t'"
  using assms unfolding delete_end_left_def by (cases wl; cases wr; cases "rbt_color wr")
    (auto intro!: paint_valid(1) to_root_valid[of "bheight temp + 1 + (if c = Black then 1 else 0)" c])

lemma delete_right_done:
  assumes "\<not> (rbt_color wl = Black \<and> rbt_color wr = Black)" "balanced temp" "balanced (Node Black y wl wr)"
    "bheight (Node Black y wl wr) = bheight temp + 1" "path_ok (bheight temp + 1 + (if c = Black then 1 else 0)) c path"
  shows "\<exists>t'. delete_end_right c x temp (Node Black y wl wr) wl path = Some t' \<and> rbt_valid t'"
  using assms unfolding delete_end_right_def by (cases wl; cases wr; cases "rbt_color wl")
    (auto intro!: paint_valid(1) to_root_valid[of "bheight temp + 1 + (if c = Black then 1 else 0)" c])

lemma delete_fix_left:
  assumes "rbt_color temp = Black"
  shows "delete_fix temp (Left_of c x (Node Black y wl wr) # path) =
      (if rbt_color wl = Black \<and> rbt_color wr = Black then delete_fix (Node c x temp (Node Red y wl wr)) path
       else delete_end_left c x temp (Node Black y wl wr) wr path)"
    and "delete_fix temp (Left_of c x (Node Red y (Node Black z a b) wr) # path) =
      (if rbt_color a = Black \<and> rbt_color b = Black then delete_fix (Node Red x temp (Node Red z a b)) (Left_of Black y wr # path)
       else delete_end_left Red x temp (Node Black z a b) b (Left_of Black y wr # path))"
  using assms unfolding delete_end_left_def by simp_all

lemma delete_fix_right:
  assumes "rbt_color temp = Black"
  shows "delete_fix temp (Right_of c x (Node Black y wl wr) # path) =
      (if rbt_color wl = Black \<and> rbt_color wr = Black then delete_fix (Node c x (Node Red y wl wr) temp) path
       else delete_end_right c x temp (Node Black y wl wr) wl path)"
    and "delete_fix temp (Right_of c x (Node Red y wl (Node Black z a b)) # path) =
      (if rbt_color a = Black \<and> rbt_color b = Black then delete_fix (Node Red x (Node Red z a b) temp) (Right_of Black y wl # path)
       else delete_end_right Red x temp (Node Black z a b) a (Right_of Black y wl # path))"
  using assms unfolding delete_end_right_def by simp_all

lemma delete_fix_valid:
  fixes temp :: "'a rbt"
  shows "balanced (rbt_paint Black temp) \<Longrightarrow> path_ok (bheight temp + 1) Black path \<Longrightarrow> \<exists>t'. delete_fix temp path = Some t' \<and> rbt_valid t'"
proof (induction "2 * length path + (if rbt_color temp = Black then 1 else 0)" arbitrary: temp path rule: less_induct)
  case less
  show ?case
  proof (cases path)
    case Nil
    then show ?thesis using less.prems by (cases temp) (auto simp: rbt_valid_def)
  next
    case (Cons f rest)
    show ?thesis
    proof (cases "rbt_color temp = Red")
      case True
      have "rbt_valid (to_root (rbt_paint Black temp) (f # rest))"
        using less.prems True Cons by (intro to_root_valid[of "bheight temp + 1" Black]) (cases temp; simp)+
      then show ?thesis using True Cons by simp
    next
      case False
      then have tb: "rbt_color temp = Black" by simp
      then have bt: "balanced temp" using less.prems(1) by (cases temp) auto
      have down: "\<exists>t'. delete_fix u p = Some t' \<and> rbt_valid t'"
        if "balanced (rbt_paint Black u)" "path_ok (bheight u + 1) Black p" "length p < length path \<or> length p = length path \<and> rbt_color u = Red" for u :: "'a rbt" and p
        using that tb by (intro less.hyps) auto
      show ?thesis
      proof (cases f)
        case (Left_of c x w)
        then have w: "balanced w" "bheight w = bheight temp + 1" "c = Red \<longrightarrow> rbt_color w = Black"
          "path_ok (bheight temp + 1 + (if c = Black then 1 else 0)) c rest"
          using less.prems(2) Cons by (auto split: if_splits)
        obtain d y wl wr where n: "w = Node d y wl wr" using w(2) by (cases w) auto
        show ?thesis
        proof (cases d)
          case Black
          note n = n[unfolded Black]
          show ?thesis
          proof (cases "rbt_color wl = Black \<and> rbt_color wr = Black")
            case True
            have "\<exists>t'. delete_fix (Node c x temp (Node Red y wl wr)) rest = Some t' \<and> rbt_valid t'"
              using bt w[unfolded n] True tb Cons by (intro down) (auto dest: path_ok_black split: if_splits)
            then show ?thesis unfolding Cons Left_of n delete_fix_left(1)[OF tb] if_P[OF True] .
          next
            case other: False
            show ?thesis unfolding Cons Left_of n delete_fix_left(1)[OF tb] if_not_P[OF other]
              by (rule delete_left_done[OF other bt w(1,2,4)[unfolded n]])
          qed
        next
          case Red
          note n = n[unfolded Red]
          have c: "c = Black" using w(3) n by (cases c) auto
          have "wl \<noteq> Sentinel" using w(1,2) n by auto
          then obtain d' z a b where wn: "wl = Node d' z a b" by (cases wl) auto
          have "d' = Black" using w(1) n wn by simp
          note wn = wn[unfolded this]
          have bl: "balanced (Node Black z a b)" "bheight (Node Black z a b) = bheight temp + 1" "bheight wr = bheight temp + 1" "balanced wr"
            using w(1,2) n wn by auto
          have po: "path_ok (bheight temp + 1 + (if Red = Black then 1 else 0)) Red (Left_of Black y wr # rest)"
            using w(4) c bl by simp
          show ?thesis
          proof (cases "rbt_color a = Black \<and> rbt_color b = Black")
            case True
            have "\<exists>t'. delete_fix (Node Red x temp (Node Red z a b)) (Left_of Black y wr # rest) = Some t' \<and> rbt_valid t'"
              using bt bl True tb Cons w(4) c by (intro down) auto
            then show ?thesis unfolding Cons Left_of n wn delete_fix_left(2)[OF tb] if_P[OF True] .
          next
            case other: False
            show ?thesis unfolding Cons Left_of n wn delete_fix_left(2)[OF tb] if_not_P[OF other]
              by (rule delete_left_done[OF other bt bl(1,2) po])
          qed
        qed
      next
        case (Right_of c x w)
        then have w: "balanced w" "bheight w = bheight temp + 1" "c = Red \<longrightarrow> rbt_color w = Black"
          "path_ok (bheight temp + 1 + (if c = Black then 1 else 0)) c rest"
          using less.prems(2) Cons by (auto split: if_splits)
        obtain d y wl wr where n: "w = Node d y wl wr" using w(2) by (cases w) auto
        show ?thesis
        proof (cases d)
          case Black
          note n = n[unfolded Black]
          show ?thesis
          proof (cases "rbt_color wl = Black \<and> rbt_color wr = Black")
            case True
            have "\<exists>t'. delete_fix (Node c x (Node Red y wl wr) temp) rest = Some t' \<and> rbt_valid t'"
              using bt w[unfolded n] True tb Cons by (intro down) (auto dest: path_ok_black split: if_splits)
            then show ?thesis unfolding Cons Right_of n delete_fix_right(1)[OF tb] if_P[OF True] .
          next
            case other: False
            show ?thesis unfolding Cons Right_of n delete_fix_right(1)[OF tb] if_not_P[OF other]
              by (rule delete_right_done[OF other bt w(1,2,4)[unfolded n]])
          qed
        next
          case Red
          note n = n[unfolded Red]
          have c: "c = Black" using w(3) n by (cases c) auto
          have "wr \<noteq> Sentinel" using w(1,2) n by auto
          then obtain d' z a b where wn: "wr = Node d' z a b" by (cases wr) auto
          have "d' = Black" using w(1) n wn by simp
          note wn = wn[unfolded this]
          have bl: "balanced (Node Black z a b)" "bheight (Node Black z a b) = bheight temp + 1" "bheight wl = bheight temp + 1" "balanced wl"
            using w(1,2) n wn by auto
          have po: "path_ok (bheight temp + 1 + (if Red = Black then 1 else 0)) Red (Right_of Black y wl # rest)"
            using w(4) c bl by simp
          show ?thesis
          proof (cases "rbt_color a = Black \<and> rbt_color b = Black")
            case True
            have "\<exists>t'. delete_fix (Node Red x (Node Red z a b) temp) (Right_of Black y wl # rest) = Some t' \<and> rbt_valid t'"
              using bt bl True tb Cons w(4) c by (intro down) auto
            then show ?thesis unfolding Cons Right_of n wn delete_fix_right(2)[OF tb] if_P[OF True] .
          next
            case other: False
            show ?thesis unfolding Cons Right_of n wn delete_fix_right(2)[OF tb] if_not_P[OF other]
              by (rule delete_right_done[OF other bt bl(1,2) po])
          qed
        qed
      qed
    qed
  qed
qed

section \<open>Deletion\<close>

lemma valid_at:
  "balanced (to_root t path) \<Longrightarrow> rbt_color (to_root t path) = Black \<Longrightarrow> balanced t \<and> path_ok (bheight t) (rbt_color t) path"
proof (induction path arbitrary: t)
  case (Cons f path)
  have "balanced (plug t f) \<and> path_ok (bheight (plug t f)) (rbt_color (plug t f)) path"
    using Cons.prems by (intro Cons.IH) simp_all
  then show ?case by (cases f) auto
qed simp

lemma min_from_path:
  "rbtree_min_from c x l r path = (case rbtree_min_from c x l r [] of (sc, s, temp, sp) \<Rightarrow> (sc, s, temp, sp @ path))"
proof (induction l arbitrary: c x r path)
  case (Node d y l s)
  show ?case using Node.IH(1)[of d y s "Left_of c x r # path"] Node.IH(1)[of d y s "[Left_of c x r]"] by (simp split: prod.splits)
qed simp

lemma min_from_ok:
  "balanced (Node c x l r) \<Longrightarrow> path_ok (bheight (Node c x l r)) c path \<Longrightarrow> rbtree_min_from c x l r path = (sc, s, temp, sp) \<Longrightarrow>
   balanced temp \<and> bheight temp = 0 \<and> path_ok (if sc = Black then 1 else 0) sc sp"
proof (induction l arbitrary: c x r path)
  case Sentinel
  then show ?case by auto
next
  case (Node d y l u)
  have "balanced (Node d y l u)" "path_ok (bheight (Node d y l u)) d (Left_of c x r # path)"
    using Node.prems by (auto split: if_splits)
  then show ?case using Node.prems(3) by (intro Node.IH(1)) simp_all
qed

lemma path_ok_other: "path_ok h c (p @ Right_of d x l # q) \<longleftrightarrow> path_ok h c (p @ Right_of d y l # q)"
  by (induction p arbitrary: h c) auto

lemma delete_end:
  assumes "balanced temp" "bheight temp = h" "path_ok (h + (if c = Black then 1 else 0)) c path" "c = Red \<longrightarrow> rbt_color temp = Black"
  shows "\<exists>t'. (if c = Red then Some (to_root temp path) else delete_fix temp path) = Some t' \<and> rbt_valid t'"
proof (cases c)
  case Red
  then show ?thesis using assms by (auto intro: to_root_valid[of h Red])
next
  case Black
  then show ?thesis using assms by (auto intro!: delete_fix_valid)
qed

lemma delete_valid:
  assumes "rbt_valid (to_root (Node c x l r) path)"
  shows "\<exists>t'. ngx_rbtree_delete c x l r path = Some t' \<and> rbt_valid t'"
proof -
  have n: "balanced (Node c x l r)" and po: "path_ok (bheight (Node c x l r)) c path"
    using valid_at[of "Node c x l r" path] assms by (auto simp: rbt_valid_def)
  consider "path = []" "l = Sentinel \<or> r = Sentinel" | "path \<noteq> []" "l = Sentinel" | "path \<noteq> []" "l \<noteq> Sentinel" "r = Sentinel"
    | "l \<noteq> Sentinel" "r \<noteq> Sentinel" by blast
  then show ?thesis
  proof cases
    case 1
    then show ?thesis using n by (cases l; cases r) (auto simp: ngx_rbtree_delete_def rbt_valid_def)
  next
    case 2
    then show ?thesis using n po delete_end[of r "bheight r" c path] by (auto simp: ngx_rbtree_delete_def)
  next
    case 3
    then show ?thesis using n po delete_end[of l "bheight l" c path] by (cases l) (auto simp: ngx_rbtree_delete_def)
  next
    case 4
    obtain rc rx rl rr where r: "r = Node rc rx rl rr" using 4 by (cases r) auto
    obtain sc s temp sp where m: "rbtree_min_from rc rx rl rr [] = (sc, s, temp, sp)" by (cases "rbtree_min_from rc rx rl rr []") auto
    have full: "rbtree_min_from rc rx rl rr (Right_of c x l # path) = (sc, s, temp, sp @ Right_of c x l # path)"
      using min_from_path[of rc rx rl rr "Right_of c x l # path"] m by simp
    have "path_ok (bheight r) (rbt_color r) (Right_of c x l # path)" using n po by (auto split: if_splits)
    then have "balanced temp \<and> bheight temp = 0 \<and> path_ok (if sc = Black then 1 else 0) sc (sp @ Right_of c x l # path)"
      using n full by (intro min_from_ok[of rc rx rl rr]) (auto simp: r)
    then have t: "balanced temp" "bheight temp = 0" "path_ok (0 + (if sc = Black then 1 else 0)) sc (sp @ Right_of c s l # path)"
      using path_ok_other[of _ sc sp c x l path s] by auto
    show ?thesis
    proof -
      have "\<exists>t'. (if sc = Red then Some (to_root temp (sp @ Right_of c s l # path)) else delete_fix temp (sp @ Right_of c s l # path)) = Some t' \<and> rbt_valid t'"
      proof (cases sc)
        case Red
        then show ?thesis using t by (auto intro: to_root_valid[of 0 Red])
      next
        case Black
        then show ?thesis using t by (auto intro!: delete_fix_valid)
      qed
      then show ?thesis using 4 m by (cases l) (auto simp: ngx_rbtree_delete_def r)
    qed
  qed
qed

lemma delete_inorder:
  assumes "ngx_rbtree_delete c x l r path = Some t'"
  shows "inorder t' = before path @ inorder l @ inorder r @ after path"
proof -
  consider "path = []" "l = Sentinel \<or> r = Sentinel" | "path \<noteq> []" "l = Sentinel" | "path \<noteq> []" "l \<noteq> Sentinel" "r = Sentinel"
    | "l \<noteq> Sentinel" "r \<noteq> Sentinel" by blast
  then show ?thesis
  proof cases
    case 1
    then show ?thesis using assms by (cases l; cases r) (auto simp: ngx_rbtree_delete_def)
  next
    case 2
    then show ?thesis using assms by (auto simp: ngx_rbtree_delete_def inorder_to_root dest!: delete_fix_inorder split: if_splits)
  next
    case 3
    then show ?thesis using assms by (cases l) (auto simp: ngx_rbtree_delete_def inorder_to_root dest!: delete_fix_inorder split: if_splits)
  next
    case 4
    obtain rc rx rl rr where r: "r = Node rc rx rl rr" using 4 by (cases r) auto
    obtain sc s temp sp where m: "rbtree_min_from rc rx rl rr [] = (sc, s, temp, sp)" by (cases "rbtree_min_from rc rx rl rr []") auto
    have o: "before sp = [] \<and> inorder r = s # inorder temp @ after sp"
      using min_from_order[OF m] r by simp
    have "(if sc = Red then Some (to_root temp (sp @ Right_of c s l # path)) else delete_fix temp (sp @ Right_of c s l # path)) = Some t'"
      using assms 4 m by (cases l) (auto simp: ngx_rbtree_delete_def r)
    then have "inorder t' = before (sp @ Right_of c s l # path) @ inorder temp @ after (sp @ Right_of c s l # path)"
      by (auto simp: inorder_to_root dest!: delete_fix_inorder split: if_splits)
    then show ?thesis using o by (simp add: before_append after_append)
  qed
qed

lemma insert_fix_order: "ngx_rbtree_insert gl t x = Some t' \<Longrightarrow>
    \<exists>xs ys. inorder t = xs @ ys \<and> inorder t' = xs @ x # ys"
proof (cases "t = Sentinel")
  case False
  assume i: "ngx_rbtree_insert gl t x = Some t'"
  then have "inorder t' = before (insert_path gl t x []) @ x # after (insert_path gl t x [])"
    using False by (auto simp: ngx_rbtree_insert_def new_node_def dest!: insert_fix_inorder)
  then show ?thesis using insert_path_order[of gl t x "[]"] by auto
qed (auto simp: ngx_rbtree_insert_def)

lemma insert_sorted_order:
  assumes "ngx_rbtree_insert (by_key key) t x = Some t'" "sorted (map key (inorder t))"
  shows "inorder t' = filter (\<lambda>y. key y \<le> key x) (inorder t) @ x # filter (\<lambda>y. key x < key y) (inorder t)"
  using insert_path_sorted[OF assms(2), of "[]" x] assms(1)
  by (auto simp: ngx_rbtree_insert_def new_node_def dest!: insert_fix_inorder split: if_splits)

text \<open>
  Property C15 (invariant).  The red-black tree stays one.  An insertion into any tree whose root is black, also the empty one, in which no red node
  has a red child and all ways down have as many black nodes, with any comparison of the nodes, ends without going above the root or into the
  sentinel and gives such a tree; if the comparison is that of keys and the nodes are sorted by their keys, the new node is behind those
  that are not greater and before the others.  The deletion of any node of such a tree, given by its place, ends likewise and gives such a tree of the
  other nodes in their order.
\<close>
theorem rbtree_stays_balanced:
  fixes key :: "'a \<Rightarrow> 'k :: linorder"
  assumes "rbt_valid t"
  shows "(\<exists>t'. ngx_rbtree_insert goes_left t x = Some t' \<and> rbt_valid t' \<and>
      (goes_left = by_key key \<and> sorted (map key (inorder t)) \<longrightarrow>
        inorder t' = filter (\<lambda>z. key z \<le> key x) (inorder t) @ x # filter (\<lambda>z. key x < key z) (inorder t))) \<and>
    (\<forall>c y l r path. t = to_root (Node c y l r) path \<longrightarrow>
      (\<exists>t'. ngx_rbtree_delete c y l r path = Some t' \<and> rbt_valid t' \<and>
        inorder t = before path @ inorder l @ y # inorder r @ after path \<and>
        inorder t' = before path @ inorder l @ inorder r @ after path))"
proof (intro conjI allI impI)
  obtain t' where i: "ngx_rbtree_insert goes_left t x = Some t'" "rbt_valid t'" using insert_valid[OF assms] by blast
  then show "\<exists>t'. ngx_rbtree_insert goes_left t x = Some t' \<and> rbt_valid t' \<and>
      (goes_left = by_key key \<and> sorted (map key (inorder t)) \<longrightarrow>
        inorder t' = filter (\<lambda>z. key z \<le> key x) (inorder t) @ x # filter (\<lambda>z. key x < key z) (inorder t))"
    using insert_sorted_order[of key t x t'] by blast
next
  fix c y l r path
  assume t: "t = to_root (Node c y l r) path"
  obtain u where d: "ngx_rbtree_delete c y l r path = Some u" "rbt_valid u" using delete_valid[of c y l r path] assms t by blast
  then show "\<exists>t'. ngx_rbtree_delete c y l r path = Some t' \<and> rbt_valid t' \<and>
      inorder t = before path @ inorder l @ y # inorder r @ after path \<and>
      inorder t' = before path @ inorder l @ inorder r @ after path"
    using delete_inorder[OF d(1)] t by (auto simp: inorder_to_root)
qed

lemma rbtree_stays_balanced_witness:
  "(\<exists>t'. ngx_rbtree_insert (by_key id) (Node Black (5 :: nat) (Node Red 3 Sentinel Sentinel) (Node Red 8 Sentinel Sentinel)) 6 = Some t' \<and>
     inorder t' = [3, 5, 6, 8]) \<and>
   ngx_rbtree_delete Black (5 :: nat) (Node Red 3 Sentinel Sentinel) (Node Red 8 Sentinel Sentinel) [] \<noteq> None"
proof -
  let ?t = "Node Black (5 :: nat) (Node Red 3 Sentinel Sentinel) (Node Red 8 Sentinel Sentinel)"
  have v: "rbt_valid ?t" by (simp add: rbt_valid_def)
  obtain t' where "ngx_rbtree_insert (by_key id) ?t 6 = Some t'" "inorder t' = [3, 5, 6, 8]"
    using rbtree_stays_balanced[OF v, of "by_key id" 6 id] by auto
  moreover have "ngx_rbtree_delete Black (5 :: nat) (Node Red 3 Sentinel Sentinel) (Node Red 8 Sentinel Sentinel) [] \<noteq> None"
    using rbtree_stays_balanced[OF v, of "by_key id" 6 id] by (metis option.distinct(1) to_root_simps(1))
  ultimately show ?thesis by blast
qed

end
