(* ===== verification/Ngx_Timers.thy ===== *)
theory Ngx_Timers
  imports Ngx_Rbtree
begin

text \<open>
  The timers of the event loop, \<^verbatim>\<open>event/ngx_event_timer.c\<close>: a red-black tree of the events by the time they expire at, in
  milliseconds, which are compared by their difference, so that the clock may wrap.
\<close>

section \<open>Model\<close>

record timer_event =
  ev_key :: uint64
  ev_timer_set :: bool
  ev_timedout :: bool
  ev_cancelable :: bool

text \<open>The nodes of the tree hold the key and the event; \<open>tm_now\<close> is \<^verbatim>\<open>ngx_current_msec\<close>.
  The deletion from the tree clears the key of the node.\<close>

record timers =
  tm_tree :: "(uint64 \<times> nat) rbt"
  tm_events :: "nat \<Rightarrow> timer_event"
  tm_now :: uint64

definition NGX_TIMER_INFINITE :: uint64 where "NGX_TIMER_INFINITE = - 1"
definition NGX_TIMER_LAZY_DELAY :: int where "NGX_TIMER_LAZY_DELAY = 300"

text \<open>The comparison of \<^verbatim>\<open>ngx_rbtree_insert_timer_value\<close>, and that of \<^verbatim>\<open>ngx_rbtree_insert_value\<close>.\<close>

definition ngx_rbtree_insert_timer_value :: "uint64 \<times> nat \<Rightarrow> uint64 \<times> nat \<Rightarrow> bool" where
  "ngx_rbtree_insert_timer_value node temp \<longleftrightarrow> sint (fst node - fst temp) < 0"

definition ngx_rbtree_insert_value :: "uint64 \<times> nat \<Rightarrow> uint64 \<times> nat \<Rightarrow> bool" where
  "ngx_rbtree_insert_value node temp \<longleftrightarrow> fst node < fst temp"

definition set_event :: "nat \<Rightarrow> (timer_event \<Rightarrow> timer_event) \<Rightarrow> timers \<Rightarrow> timers" where
  "set_event e f s = s\<lparr> tm_events := (tm_events s)(e := f (tm_events s e)) \<rparr>"

definition ngx_event_del_timer :: "nat \<Rightarrow> timers \<Rightarrow> timers option" where
  "ngx_event_del_timer e s =
     (case rbt_locate (\<lambda>x. snd x = e) (tm_tree s) [] of
        None \<Rightarrow> None
      | Some (c, x, l, r, path) \<Rightarrow>
          (case ngx_rbtree_delete c x l r path of
             None \<Rightarrow> None
           | Some t \<Rightarrow> Some (set_event e (\<lambda>ev. ev\<lparr> ev_key := 0, ev_timer_set := False \<rparr>) (s\<lparr> tm_tree := t \<rparr>))))"

definition timer_start :: "nat \<Rightarrow> uint64 \<Rightarrow> timers \<Rightarrow> timers option" where
  "timer_start e key s =
     (case ngx_rbtree_insert ngx_rbtree_insert_timer_value (tm_tree s) (key, e) of
        None \<Rightarrow> None
      | Some t \<Rightarrow> Some (set_event e (\<lambda>ev. ev\<lparr> ev_key := key, ev_timer_set := True \<rparr>) (s\<lparr> tm_tree := t \<rparr>)))"

definition ngx_event_add_timer :: "nat \<Rightarrow> uint64 \<Rightarrow> timers \<Rightarrow> timers option" where
  "ngx_event_add_timer e timer s =
     (let key = tm_now s + timer; ev = tm_events s e in
      if ev_timer_set ev then
        (if \<bar>sint (key - ev_key ev)\<bar> < NGX_TIMER_LAZY_DELAY then Some s
         else case ngx_event_del_timer e s of None \<Rightarrow> None | Some s \<Rightarrow> timer_start e key s)
      else timer_start e key s)"

definition ngx_event_find_timer :: "timers \<Rightarrow> uint64" where
  "ngx_event_find_timer s =
     (case tm_tree s of
        Sentinel \<Rightarrow> NGX_TIMER_INFINITE
      | Node c x l r \<Rightarrow>
          (case rbtree_min_from c x l r [] of
             (_, node, _, _) \<Rightarrow> let timer = sint (fst node - tm_now s) in if timer > 0 then word_of_int timer else 0))"

text \<open>
  The loop of \<^verbatim>\<open>ngx_event_expire_timers\<close>.  The handlers are a parameter; they may change the timers, and the rest of the program's
  state.  The loop need not end, for a handler may set its timer again; then it is \<^term>\<open>None\<close>.
\<close>

partial_function (option) ngx_event_expire_timers :: "(nat \<Rightarrow> timers \<times> 's \<Rightarrow> timers \<times> 's) \<Rightarrow> timers \<times> 's \<Rightarrow> (timers \<times> 's) option" where
  "ngx_event_expire_timers handler st =
     (case tm_tree (fst st) of
        Sentinel \<Rightarrow> Some st
      | Node c x l r \<Rightarrow>
          (case rbtree_min_from c x l r [] of
             (c, node, temp, path) \<Rightarrow>
               if sint (fst node - tm_now (fst st)) > 0 then Some st
               else
                 case ngx_rbtree_delete c node Sentinel temp path of
                   None \<Rightarrow> None
                 | Some t \<Rightarrow>
                     ngx_event_expire_timers handler
                       (handler (snd node)
                         (set_event (snd node) (\<lambda>ev. ev\<lparr> ev_key := 0, ev_timer_set := False, ev_timedout := True \<rparr>) (fst st\<lparr> tm_tree := t \<rparr>), snd st))))"

partial_function (option) ngx_event_cancel_timers :: "(nat \<Rightarrow> timers \<times> 's \<Rightarrow> timers \<times> 's) \<Rightarrow> timers \<times> 's \<Rightarrow> (timers \<times> 's) option" where
  "ngx_event_cancel_timers handler st =
     (case tm_tree (fst st) of
        Sentinel \<Rightarrow> Some st
      | Node c x l r \<Rightarrow>
          (case rbtree_min_from c x l r [] of
             (c, node, temp, path) \<Rightarrow>
               if \<not> ev_cancelable (tm_events (fst st) (snd node)) then Some st
               else
                 case ngx_rbtree_delete c node Sentinel temp path of
                   None \<Rightarrow> None
                 | Some t \<Rightarrow>
                     ngx_event_cancel_timers handler
                       (handler (snd node)
                         (set_event (snd node) (\<lambda>ev. ev\<lparr> ev_key := 0, ev_timer_set := False \<rparr>) (fst st\<lparr> tm_tree := t \<rparr>), snd st))))"

section \<open>Places of the tree\<close>

lemma locate_Some: "rbt_locate P t path = Some (c, x, l, r, p) \<Longrightarrow> to_root (Node c x l r) p = to_root t path \<and> P x"
  by (induction t arbitrary: path) (auto split: if_splits option.splits)

lemma locate_None: "rbt_locate P t path = None \<Longrightarrow> \<forall>x \<in> set (inorder t). \<not> P x"
  by (induction t arbitrary: path) (auto split: if_splits option.splits)

lemma min_from_root: "rbtree_min_from c x l r path = (sc, s, temp, sp) \<Longrightarrow> to_root (Node sc s Sentinel temp) sp = to_root (Node c x l r) path"
  by (induction c x l r path arbitrary: sc s temp sp rule: rbtree_min_from.induct) auto

lemma insert_path_cong: "(\<And>y. y \<in> set (inorder t) \<Longrightarrow> g x y \<longleftrightarrow> g' x y) \<Longrightarrow> insert_path g t x p = insert_path g' t x p"
  by (induction t arbitrary: p) auto

section \<open>The clock\<close>

text \<open>Times in the half of the clock's range from \<open>base\<close> on are ordered by their distance to it.\<close>

definition since :: "uint64 \<Rightarrow> uint64 \<Rightarrow> nat" where
  "since base k = unat (k - base)"

definition in_window :: "uint64 \<Rightarrow> uint64 \<Rightarrow> bool" where
  "in_window base k \<longleftrightarrow> since base k < 2 ^ 63"

lemma sint_since: "in_window base a \<Longrightarrow> in_window base b \<Longrightarrow> sint (a - b) = int (since base a) - int (since base b)"
proof -
  assume w: "in_window base a" "in_window base b"
  define x y where "x = int (since base a)" and "y = int (since base b)"
  have xy: "0 \<le> x" "x < 2 ^ 63" "0 \<le> y" "y < 2 ^ 63"
    using w unfolding in_window_def by (simp_all add: x_def y_def)
  have "word_of_int x = a - base" "word_of_int y = b - base" by (simp_all add: x_def y_def since_def)
  have "a - b = (a - base) - (b - base)" by simp
  also have "\<dots> = word_of_int (x - y)" using \<open>word_of_int x = a - base\<close> \<open>word_of_int y = b - base\<close> by (metis wi_hom_sub)
  finally have e: "a - b = word_of_int (x - y)" .
  have "sint (word_of_int (x - y) :: uint64) = x - y"
    unfolding signed_of_int using xy by (simp add: signed_take_bit_int_eq_self)
  then show ?thesis unfolding e by (simp add: x_def y_def del: of_int_diff)
qed

section \<open>The invariant\<close>

text \<open>
  The tree is a valid one, in the order of the times, which lie in the window; each event is in it once at most, with the
  key it has, exactly while \<^verbatim>\<open>timer_set\<close>.
\<close>

definition items :: "timers \<Rightarrow> (uint64 \<times> nat) list" where
  "items s = inorder (tm_tree s)"

definition timers_ok :: "uint64 \<Rightarrow> timers \<Rightarrow> bool" where
  "timers_ok base s \<longleftrightarrow>
     rbt_valid (tm_tree s) \<and> sorted (map (since base \<circ> fst) (items s)) \<and> distinct (map snd (items s)) \<and>
     (\<forall>x \<in> set (items s). in_window base (fst x) \<and> ev_key (tm_events s (snd x)) = fst x \<and> ev_timer_set (tm_events s (snd x))) \<and>
     (\<forall>e. ev_timer_set (tm_events s e) \<longrightarrow> e \<in> snd ` set (items s))"

lemma items_set_event [simp]: "items (set_event e f s) = items s" "tm_tree (set_event e f s) = tm_tree s" "tm_now (set_event e f s) = tm_now s"
  by (simp_all add: set_event_def items_def)

lemma events_set_event: "tm_events (set_event e f s) d = (if d = e then f (tm_events s e) else tm_events s d)"
  by (simp add: set_event_def)

lemma insert_timer:
  assumes "rbt_valid t" "\<forall>x \<in> set (inorder t). in_window base (fst x)" "in_window base key" "sorted (map (since base \<circ> fst) (inorder t))"
  shows "\<exists>t'. ngx_rbtree_insert ngx_rbtree_insert_timer_value t (key, e) = Some t' \<and> rbt_valid t' \<and>
    inorder t' = filter (\<lambda>z. since base (fst z) \<le> since base key) (inorder t) @ (key, e) # filter (\<lambda>z. since base key < since base (fst z)) (inorder t)"
proof -
  have "insert_path ngx_rbtree_insert_timer_value t (key, e) [] = insert_path (by_key (since base \<circ> fst)) t (key, e) []"
    using assms(2,3) by (intro insert_path_cong) (auto simp: ngx_rbtree_insert_timer_value_def by_key_def sint_since)
  then have eq: "ngx_rbtree_insert ngx_rbtree_insert_timer_value t (key, e) = ngx_rbtree_insert (by_key (since base \<circ> fst)) t (key, e)"
    by (simp add: ngx_rbtree_insert_def)
  obtain t' where t': "ngx_rbtree_insert (by_key (since base \<circ> fst)) t (key, e) = Some t'" "rbt_valid t'" using insert_valid[OF assms(1)] by blast
  then show ?thesis unfolding eq using insert_sorted_order[OF t'(1) assms(4)] by simp
qed

lemma timer_start_ok:
  assumes ok: "timers_ok base s" and w: "in_window base key" and e: "\<not> ev_timer_set (tm_events s e)"
  shows "\<exists>s'. timer_start e key s = Some s' \<and> timers_ok base s' \<and> set (items s') = insert (key, e) (set (items s)) \<and> tm_now s' = tm_now s"
proof -
  note o = ok[unfolded timers_ok_def items_def]
  obtain t' where t: "ngx_rbtree_insert ngx_rbtree_insert_timer_value (tm_tree s) (key, e) = Some t'" "rbt_valid t'"
    and i: "inorder t' = filter (\<lambda>z. since base (fst z) \<le> since base key) (inorder (tm_tree s)) @ (key, e) # filter (\<lambda>z. since base key < since base (fst z)) (inorder (tm_tree s))"
    using insert_timer[of "tm_tree s" base key e] o w by auto
  let ?s = "set_event e (\<lambda>ev. ev\<lparr> ev_key := key, ev_timer_set := True \<rparr>) (s\<lparr> tm_tree := t' \<rparr>)"
  have set_i: "set (inorder t') = insert (key, e) (set (inorder (tm_tree s)))" unfolding i by auto
  have e_new: "e \<notin> snd ` set (inorder (tm_tree s))" using o e by auto
  have "sorted (map (since base \<circ> fst) (inorder t'))"
    using o unfolding i by (auto simp: sorted_append sorted_filter sorted_map sorted_wrt_filter intro: less_imp_le) 
  moreover have "distinct (map snd (inorder t'))"
  proof -
    have d: "distinct (map snd (inorder (tm_tree s)))" using o by simp
    have "\<And>x y. x \<in> set (inorder (tm_tree s)) \<Longrightarrow> y \<in> set (inorder (tm_tree s)) \<Longrightarrow> snd x = snd y \<Longrightarrow> x = y"
      using d by (metis distinct_map inj_onD)
    then show ?thesis using d e_new unfolding i by (auto simp: distinct_map_filter) (metis leD)
  qed
  ultimately have "timers_ok base ?s"
    using o t(2) w e_new set_i unfolding timers_ok_def by (auto simp: items_def events_set_event set_event_def image_iff split: if_splits) 
  moreover have "timer_start e key s = Some ?s" by (simp add: timer_start_def t)
  ultimately show ?thesis using set_i by (auto simp: items_def)
qed

lemma timers_ok_remove:
  assumes ok: "timers_ok base s" and i: "items s = xs @ (k, e) # ys" and v: "rbt_valid t'" and t: "inorder t' = xs @ ys"
    and f: "\<not> ev_timer_set (f (tm_events s e))"
  shows "timers_ok base (set_event e f (s\<lparr> tm_tree := t' \<rparr>))"
proof -
  note o = ok[unfolded timers_ok_def i]
  have new: "e \<notin> snd ` set (xs @ ys)" using o by auto
  have "sorted (map (since base \<circ> fst) (xs @ ys))" using o by (auto simp: sorted_append)
  moreover have "distinct (map snd (xs @ ys))" using o by auto
  moreover have "in_window base (fst x) \<and> ev_key (tm_events s (snd x)) = fst x \<and> ev_timer_set (tm_events s (snd x)) \<and> snd x \<noteq> e"
    if "x \<in> set (xs @ ys)" for x
    using o new that by auto
  moreover have "d \<in> snd ` set (xs @ ys)" if "ev_timer_set (tm_events s d)" "d \<noteq> e" for d
  proof -
    have "d \<in> snd ` set (xs @ (k, e) # ys)" using o that(1) by blast
    then show ?thesis using that(2) by auto
  qed
  ultimately show ?thesis using v f new t unfolding timers_ok_def items_def items_set_event by (auto simp: set_event_def)
qed

lemma del_timer_ok:
  assumes ok: "timers_ok base s" and e: "ev_timer_set (tm_events s e)"
  shows "\<exists>s'. ngx_event_del_timer e s = Some s' \<and> timers_ok base s' \<and> set (items s') = {x \<in> set (items s). snd x \<noteq> e} \<and>
    tm_now s' = tm_now s \<and> \<not> ev_timer_set (tm_events s' e)"
proof -
  have "\<exists>x \<in> set (items s). snd x = e" using ok e by (auto simp: timers_ok_def)
  then obtain c x l r path where loc: "rbt_locate (\<lambda>x. snd x = e) (tm_tree s) [] = Some (c, x, l, r, path)"
    using locate_None[of "\<lambda>x. snd x = e" "tm_tree s" "[]"] by (cases "rbt_locate (\<lambda>x. snd x = e) (tm_tree s) []") (auto simp: items_def)
  have t: "tm_tree s = to_root (Node c x l r) path" and x: "snd x = e" using locate_Some[OF loc] by simp_all
  have "rbt_valid (to_root (Node c x l r) path)" using ok t by (simp add: timers_ok_def)
  from delete_valid[OF this] obtain t' where d: "ngx_rbtree_delete c x l r path = Some t'" "rbt_valid t'" by blast
  have it: "items s = (before path @ inorder l) @ (fst x, e) # (inorder r @ after path)" using x by (simp add: items_def t inorder_to_root flip: x)
  have i': "inorder t' = (before path @ inorder l) @ (inorder r @ after path)" using delete_inorder[OF d(1)] by simp
  let ?s = "set_event e (\<lambda>ev. ev\<lparr> ev_key := 0, ev_timer_set := False \<rparr>) (s\<lparr> tm_tree := t' \<rparr>)"
  have "ngx_event_del_timer e s = Some ?s" by (simp add: ngx_event_del_timer_def loc d)
  moreover have "timers_ok base ?s" by (rule timers_ok_remove[OF ok it d(2) i']) simp
  moreover have "set (items ?s) = {x \<in> set (items s). snd x \<noteq> e}"
  proof -
    have "distinct (map snd (items s))" using ok by (simp add: timers_ok_def)
    then have "e \<notin> snd ` set (before path @ inorder l @ inorder r @ after path)" unfolding it by auto
    then show ?thesis unfolding it by (auto simp: items_def i')
  qed
  moreover have "\<not> ev_timer_set (tm_events ?s e)" by (simp add: events_set_event)
  ultimately show ?thesis by (intro exI[of _ ?s]) simp
qed

lemma add_timer_ok:
  assumes "timers_ok base s" and "in_window base (tm_now s + timer)"
  shows "\<exists>s'. ngx_event_add_timer e timer s = Some s' \<and> timers_ok base s' \<and>
    set (items s') =
      (if ev_timer_set (tm_events s e) \<and> \<bar>sint (tm_now s + timer - ev_key (tm_events s e))\<bar> < NGX_TIMER_LAZY_DELAY then set (items s)
       else insert (tm_now s + timer, e) {x \<in> set (items s). snd x \<noteq> e})"
proof (cases "ev_timer_set (tm_events s e)")
  case True
  show ?thesis
  proof (cases "\<bar>sint (tm_now s + timer - ev_key (tm_events s e))\<bar> < NGX_TIMER_LAZY_DELAY")
    case lazy: True
    then show ?thesis using True assms(1) by (simp add: ngx_event_add_timer_def Let_def)
  next
    case far: False
    obtain s1 where 1: "ngx_event_del_timer e s = Some s1" "timers_ok base s1" "set (items s1) = {x \<in> set (items s). snd x \<noteq> e}"
      "tm_now s1 = tm_now s" "\<not> ev_timer_set (tm_events s1 e)"
      using del_timer_ok[OF assms(1) True] by blast
    obtain s2 where 2: "timer_start e (tm_now s + timer) s1 = Some s2" "timers_ok base s2"
      "set (items s2) = insert (tm_now s + timer, e) (set (items s1))"
      using timer_start_ok[OF 1(2) assms(2) 1(5)] by blast
    then show ?thesis using True far 1 by (simp add: ngx_event_add_timer_def Let_def)
  qed
next
  case False
  obtain s2 where 2: "timer_start e (tm_now s + timer) s = Some s2" "timers_ok base s2"
      "set (items s2) = insert (tm_now s + timer, e) (set (items s))"
    using timer_start_ok[OF assms False] by blast
  have "{x \<in> set (items s). snd x \<noteq> e} = set (items s)"
  proof -
    have "ev_timer_set (tm_events s (snd x))" if "x \<in> set (items s)" for x using assms(1) that by (auto simp: timers_ok_def)
    then show ?thesis using False by auto
  qed
  then show ?thesis using 2 False by (simp add: ngx_event_add_timer_def Let_def)
qed

text \<open>
  Property C17 (invariant).  Setting a timer keeps the timers in order, across a wrap of the clock: as long as all times lie in one half of
  the clock's range, the tree stays a valid one, and holds the event at its new time, once, and the other events at theirs; only
  an event whose time would move by less than \<^verbatim>\<open>NGX_TIMER_LAZY_DELAY\<close> keeps its old time.
\<close>
theorem timer_added:
  assumes "timers_ok base s" and "in_window base (tm_now s + timer)"
  shows "\<exists>s'. ngx_event_add_timer e timer s = Some s' \<and> timers_ok base s' \<and>
    set (items s') =
      (if ev_timer_set (tm_events s e) \<and> \<bar>sint (tm_now s + timer - ev_key (tm_events s e))\<bar> < NGX_TIMER_LAZY_DELAY then set (items s)
       else insert (tm_now s + timer, e) {x \<in> set (items s). snd x \<noteq> e})"
  using assms by (rule add_timer_ok)

definition no_timers :: "uint64 \<Rightarrow> timers" where
  "no_timers now = \<lparr> tm_tree = Sentinel,
     tm_events = (\<lambda>e. \<lparr> ev_key = 0, ev_timer_set = False, ev_timedout = False, ev_cancelable = False \<rparr>), tm_now = now \<rparr>"

lemma no_timers_ok: "timers_ok base (no_timers now)"
  by (simp add: timers_ok_def no_timers_def items_def rbt_valid_def)

lemma timer_added_witness:
  "\<exists>s. ngx_event_add_timer 7 100 (no_timers (- 50)) = Some s \<and> set (items s) = {(50, 7)}"
proof -
  have "in_window (- 60) (tm_now (no_timers (- 50)) + 100)" by (simp add: in_window_def since_def no_timers_def)
  from timer_added[OF no_timers_ok this, of 7] show ?thesis
    by (auto simp: no_timers_def items_def)
qed

section \<open>Expiry\<close>

text \<open>A handler that leaves the timers alone.\<close>

definition quiet :: "(nat \<Rightarrow> 's \<Rightarrow> 's) \<Rightarrow> nat \<Rightarrow> timers \<times> 's \<Rightarrow> timers \<times> 's" where
  "quiet f e st = (fst st, f e (snd st))"

definition due :: "timers \<Rightarrow> uint64 \<times> nat \<Rightarrow> bool" where
  "due s x \<longleftrightarrow> sint (fst x - tm_now s) \<le> 0"

lemma min_first:
  assumes "tm_tree s = Node c x l r" "rbtree_min_from c x l r [] = (sc, n, temp, path)"
  shows "items s = n # inorder temp @ after path" "before path = []" "to_root (Node sc n Sentinel temp) path = tm_tree s"
  using min_from_order[OF assms(2)] min_from_root[OF assms(2)] assms(1) by (simp_all add: items_def)

lemma min_deleted:
  assumes ok: "timers_ok base s" and t: "tm_tree s = Node c x l r" "rbtree_min_from c x l r [] = (sc, n, temp, path)"
    and f: "\<not> ev_timer_set (f (tm_events s (snd n)))"
  shows "\<exists>t'. ngx_rbtree_delete sc n Sentinel temp path = Some t' \<and>
    timers_ok base (set_event (snd n) f (s\<lparr> tm_tree := t' \<rparr>)) \<and> inorder t' = tl (items s) \<and> items s = n # tl (items s)"
proof -
  note m = min_first[OF t]
  have "rbt_valid (to_root (Node sc n Sentinel temp) path)" using ok m(3) by (simp add: timers_ok_def)
  from delete_valid[OF this] obtain t' where d: "ngx_rbtree_delete sc n Sentinel temp path = Some t'" "rbt_valid t'" by blast
  have i': "inorder t' = inorder temp @ after path" using delete_inorder[OF d(1)] m(2) by simp
  have "timers_ok base (set_event (snd n) f (s\<lparr> tm_tree := t' \<rparr>))"
    by (rule timers_ok_remove[of base s "[]" "fst n" "snd n" "inorder temp @ after path", OF ok _ d(2)]) (simp_all add: m i' f)
  then show ?thesis using d(1) i' m(1) by simp
qed

lemma expire_step:
  assumes "tm_tree s = Node c x l r" "rbtree_min_from c x l r [] = (sc, n, temp, path)"
  shows "ngx_event_expire_timers h (s, w) =
    (if \<not> due s n then Some (s, w)
     else case ngx_rbtree_delete sc n Sentinel temp path of
       None \<Rightarrow> None
     | Some t \<Rightarrow> ngx_event_expire_timers h
         (h (snd n) (set_event (snd n) (\<lambda>ev. ev\<lparr> ev_key := 0, ev_timer_set := False, ev_timedout := True \<rparr>) (s\<lparr> tm_tree := t \<rparr>), w)))"
  by (subst ngx_event_expire_timers.simps) (simp add: assms due_def not_le split: option.split)

lemma expire_quiet:
  "timers_ok base s \<Longrightarrow>
   \<exists>s'. ngx_event_expire_timers (quiet f) (s, w) = Some (s', foldl (\<lambda>w x. f (snd x) w) w (takeWhile (due s) (items s))) \<and>
     timers_ok base s' \<and> items s' = dropWhile (due s) (items s) \<and> tm_now s' = tm_now s \<and>
     (\<forall>x \<in> set (takeWhile (due s) (items s)). ev_timedout (tm_events s' (snd x))) \<and>
     (\<forall>e. ev_timedout (tm_events s e) \<longrightarrow> ev_timedout (tm_events s' e))"
proof (induction "length (items s)" arbitrary: s w)
  case 0
  then have "tm_tree s = Sentinel" by (cases "tm_tree s") (auto simp: items_def)
  then show ?case using 0 by (subst ngx_event_expire_timers.simps) (auto simp: items_def)
next
  case (Suc k)
  obtain c x l r where t: "tm_tree s = Node c x l r" using Suc.hyps(2) by (cases "tm_tree s") (auto simp: items_def)
  obtain sc n temp path where m: "rbtree_min_from c x l r [] = (sc, n, temp, path)" by (cases "rbtree_min_from c x l r []") auto
  let ?f = "\<lambda>ev. ev\<lparr> ev_key := 0, ev_timer_set := False, ev_timedout := True \<rparr>"
  obtain t' where d: "ngx_rbtree_delete sc n Sentinel temp path = Some t'" "timers_ok base (set_event (snd n) ?f (s\<lparr> tm_tree := t' \<rparr>))"
    "inorder t' = tl (items s)" "items s = n # tl (items s)"
    using min_deleted[OF Suc.prems t m, of ?f] by auto
  define ys where "ys = tl (items s)"
  note iss = d(4)[folded ys_def] and it = d(3)[folded ys_def]
  note step = expire_step[OF t m, of "quiet f" w]
  show ?case
  proof (cases "due s n")
    case False
    then have "takeWhile (due s) (items s) = []" "dropWhile (due s) (items s) = items s" by (simp_all add: iss)
    then show ?thesis using step False Suc.prems by simp
  next
    case True
    define s1 where "s1 = set_event (snd n) ?f (s\<lparr> tm_tree := t' \<rparr>)"
    have s1: "items s1 = ys" "tm_now s1 = tm_now s" by (simp_all add: s1_def items_def it)
    have k: "k = length (items s1)" using Suc.hyps(2) s1 iss by simp
    have due1: "due s1 = due s" by (intro ext) (simp add: due_def s1)
    have "ngx_event_expire_timers (quiet f) (s, w) = ngx_event_expire_timers (quiet f) (s1, f (snd n) w)"
      using step True d(1) by (simp add: quiet_def s1_def)
    moreover have w: "takeWhile (due s) (items s) = n # takeWhile (due s) ys" "dropWhile (due s) (items s) = dropWhile (due s) ys"
      using True by (simp_all add: iss)
    moreover have "ev_timedout (tm_events s1 (snd n))" "\<And>e. ev_timedout (tm_events s e) \<Longrightarrow> ev_timedout (tm_events s1 e)"
      by (simp_all add: s1_def events_set_event set_event_def)
    ultimately show ?thesis using Suc.hyps(1)[OF k d(2)[folded s1_def], of "f (snd n) w"] unfolding s1 due1 by auto
  qed
qed

lemma due_since: "in_window base (fst x) \<Longrightarrow> in_window base (tm_now s) \<Longrightarrow> due s x \<longleftrightarrow> since base (fst x) \<le> since base (tm_now s)"
  by (simp add: due_def sint_since)

lemma takeWhile_sorted: "sorted (map g xs) \<Longrightarrow> takeWhile (\<lambda>x. g x \<le> m) xs = filter (\<lambda>x. g x \<le> m) xs \<and> dropWhile (\<lambda>x. g x \<le> m) xs = filter (\<lambda>x. m < g x) xs"
  for m :: nat
proof (induction xs)
  case (Cons x xs)
  show ?case
  proof (cases "g x \<le> m")
    case False
    then have "\<forall>y \<in> set (x # xs). m < g y" using Cons.prems by auto
    then have "filter (\<lambda>y. g y \<le> m) (x # xs) = []" "filter (\<lambda>y. m < g y) (x # xs) = x # xs"
      by (simp_all add: filter_empty_conv filter_id_conv not_le)
    then show ?thesis using False by simp
  qed (use Cons in auto)
qed simp

text \<open>Handlers that set no timers: they may delete some, and change the rest of the program's state as they like.\<close>

definition sets_none :: "uint64 \<Rightarrow> (nat \<Rightarrow> timers \<times> 's \<Rightarrow> timers \<times> 's) \<Rightarrow> bool" where
  "sets_none base h \<longleftrightarrow>
     (\<forall>e s w. timers_ok base s \<longrightarrow>
        timers_ok base (fst (h e (s, w))) \<and> tm_now (fst (h e (s, w))) = tm_now s \<and> set (items (fst (h e (s, w)))) \<subseteq> set (items s))"

text \<open>A handler that deletes the timer of one event is such a handler.\<close>

definition deletes :: "nat \<Rightarrow> (nat \<Rightarrow> 's \<Rightarrow> 's) \<Rightarrow> nat \<Rightarrow> timers \<times> 's \<Rightarrow> timers \<times> 's" where
  "deletes d f e st =
     (if ev_timer_set (tm_events (fst st) d) then (case ngx_event_del_timer d (fst st) of None \<Rightarrow> fst st | Some s \<Rightarrow> s) else fst st, f e (snd st))"

lemma deletes_sets_none: "sets_none base (deletes d f)"
  unfolding sets_none_def
proof (intro allI impI)
  fix e s w
  assume ok: "timers_ok base s"
  show "timers_ok base (fst (deletes d f e (s, w))) \<and> tm_now (fst (deletes d f e (s, w))) = tm_now s \<and>
      set (items (fst (deletes d f e (s, w)))) \<subseteq> set (items s)"
  proof (cases "ev_timer_set (tm_events s d)")
    case True
    then obtain s' where "ngx_event_del_timer d s = Some s'" "timers_ok base s'" "tm_now s' = tm_now s"
      "set (items s') = {x \<in> set (items s). snd x \<noteq> d}" using del_timer_ok[OF ok] by blast
    then show ?thesis using True by (simp add: deletes_def)
  qed (use ok in \<open>simp add: deletes_def\<close>)
qed

lemma items_length:
  assumes "timers_ok base s" "timers_ok base s'" "set (items s') \<subseteq> set (items s)"
  shows "length (items s') \<le> length (items s)"
proof -
  have "distinct (items s)" "distinct (items s')" using assms(1,2) by (auto simp: timers_ok_def distinct_map)
  then show ?thesis using card_mono[OF _ assms(3)] by (simp add: distinct_card)
qed

lemma expire_ends:
  "sets_none base h \<Longrightarrow> timers_ok base s \<Longrightarrow> in_window base (tm_now s) \<Longrightarrow>
   \<exists>s' w'. ngx_event_expire_timers h (s, w) = Some (s', w') \<and> timers_ok base s' \<and> tm_now s' = tm_now s \<and>
     set (items s') \<subseteq> set (items s) \<and> (\<forall>x \<in> set (items s'). \<not> due s x)"
proof (induction "length (items s)" arbitrary: s w rule: less_induct)
  case less
  note h = less.prems(1) and ok = less.prems(2)
  show ?case
  proof (cases "tm_tree s")
    case Sentinel
    then show ?thesis using ok by (subst ngx_event_expire_timers.simps) (simp add: items_def)
  next
    case (Node c x l r)
    obtain sc n temp path where m: "rbtree_min_from c x l r [] = (sc, n, temp, path)" by (cases "rbtree_min_from c x l r []") auto
    let ?f = "\<lambda>ev. ev\<lparr> ev_key := 0, ev_timer_set := False, ev_timedout := True \<rparr>"
    obtain t' where d: "ngx_rbtree_delete sc n Sentinel temp path = Some t'" "timers_ok base (set_event (snd n) ?f (s\<lparr> tm_tree := t' \<rparr>))"
      "inorder t' = tl (items s)" "items s = n # tl (items s)"
      using min_deleted[OF ok Node m, of ?f] by auto
    note step = expire_step[OF Node m, of h w]
    show ?thesis
    proof (cases "due s n")
      case False
      have win: "\<forall>y \<in> set (items s). in_window base (fst y)" and srt: "sorted (map (since base \<circ> fst) (items s))"
        using ok by (simp_all add: timers_ok_def)
      have n: "n \<in> set (items s)" using d(4) by (metis list.set_intros(1))
      have le: "since base (fst n) \<le> since base (fst y)" if "y \<in> set (items s)" for y using srt that d(4) by (cases "items s") auto
      have "\<not> due s y" if "y \<in> set (items s)" for y
        using False le[OF that] due_since[of base n s] due_since[of base y s] win n that less.prems(3) by auto
      then show ?thesis using step False ok by auto
    next
      case True
      define s1 where "s1 = set_event (snd n) ?f (s\<lparr> tm_tree := t' \<rparr>)"
      have s1: "items s1 = tl (items s)" "tm_now s1 = tm_now s" "timers_ok base s1" using d(2,3) by (simp_all add: s1_def items_def)
      obtain s2 w2 where h2: "h (snd n) (s1, w) = (s2, w2)" by (cases "h (snd n) (s1, w)")
      have s2: "timers_ok base s2" "tm_now s2 = tm_now s" "set (items s2) \<subseteq> set (items s1)"
        using h s1(2,3) h2 unfolding sets_none_def by (metis fst_conv)+
      have "length (items s2) < length (items s)"
        using items_length[OF s1(3) s2(1,3)] s1(1) d(4) by (cases "items s") simp_all
      from less.hyps[OF this h s2(1)] less.prems(3) s2(2) obtain s' w' where
        "ngx_event_expire_timers h (s2, w2) = Some (s', w')" "timers_ok base s'" "tm_now s' = tm_now s"
        "set (items s') \<subseteq> set (items s2)" "\<forall>x \<in> set (items s'). \<not> due s2 x" by metis
      moreover have "set (items s2) \<subseteq> set (items s)" using s2(3) s1(1) by (cases "items s") auto
      moreover have "due s2 = due s" by (intro ext) (simp add: due_def s2)
      ultimately show ?thesis using step True d(1) h2 by (auto simp: s1_def)
    qed
  qed
qed

lemma expire_exact:
  assumes "timers_ok base s" and "in_window base (tm_now s)"
  shows "\<exists>s'. ngx_event_expire_timers (quiet f) (s, w) = Some (s', foldl (\<lambda>w x. f (snd x) w) w (filter (due s) (items s))) \<and>
    timers_ok base s' \<and> items s' = filter (\<lambda>x. \<not> due s x) (items s) \<and>
    (\<forall>x \<in> set (items s). due s x \<longrightarrow> ev_timedout (tm_events s' (snd x))) \<and>
    ngx_event_find_timer s' =
      (case filter (\<lambda>x. \<not> due s x) (items s) of [] \<Rightarrow> NGX_TIMER_INFINITE | x # _ \<Rightarrow> fst x - tm_now s)"
proof -
  obtain s' where s': "ngx_event_expire_timers (quiet f) (s, w) = Some (s', foldl (\<lambda>w x. f (snd x) w) w (takeWhile (due s) (items s)))"
     "timers_ok base s'" "items s' = dropWhile (due s) (items s)" "tm_now s' = tm_now s"
     "\<forall>x \<in> set (takeWhile (due s) (items s)). ev_timedout (tm_events s' (snd x))"
    using expire_quiet[OF assms(1), of f w] by blast
  have win: "\<forall>x \<in> set (items s). in_window base (fst x)" and srt: "sorted (map (since base \<circ> fst) (items s))"
    using assms(1) by (auto simp: timers_ok_def)
  have d: "due s x \<longleftrightarrow> (since base \<circ> fst) x \<le> since base (tm_now s)" if "x \<in> set (items s)" for x
    using due_since[of base x s] win that assms(2) by simp
  define m where "m = since base (tm_now s)"
  note ts = takeWhile_sorted[OF srt, of m]
  have "takeWhile (due s) (items s) = takeWhile (\<lambda>x. (since base \<circ> fst) x \<le> m) (items s)"
    unfolding m_def by (rule takeWhile_cong[OF refl d])
  also have "\<dots> = filter (\<lambda>x. (since base \<circ> fst) x \<le> m) (items s)" using ts by blast
  also have "\<dots> = filter (due s) (items s)" unfolding m_def by (rule filter_cong[OF refl]) (simp add: d)
  finally have tw: "takeWhile (due s) (items s) = filter (due s) (items s)" .
  have "dropWhile (due s) (items s) = dropWhile (\<lambda>x. (since base \<circ> fst) x \<le> m) (items s)"
    unfolding m_def by (rule dropWhile_cong[OF refl d])
  also have "\<dots> = filter (\<lambda>x. m < (since base \<circ> fst) x) (items s)" using ts by blast
  also have "\<dots> = filter (\<lambda>x. \<not> due s x) (items s)" unfolding m_def by (rule filter_cong[OF refl]) (simp add: d not_le)
  finally have dw: "dropWhile (due s) (items s) = filter (\<lambda>x. \<not> due s x) (items s)" .
  have find: "ngx_event_find_timer s' = (case items s' of [] \<Rightarrow> NGX_TIMER_INFINITE | x # _ \<Rightarrow> fst x - tm_now s)"
  proof (cases "tm_tree s'")
    case Sentinel
    then show ?thesis by (simp add: ngx_event_find_timer_def items_def)
  next
    case (Node c x l r)
    obtain sc n temp path where m: "rbtree_min_from c x l r [] = (sc, n, temp, path)" by (cases "rbtree_min_from c x l r []") auto
    note i = min_first(1)[OF Node m]
    have "n \<in> set (dropWhile (due s) (items s))" "dropWhile (due s) (items s) \<noteq> []" using i s'(3) by simp_all
    then have "\<not> due s n" using i s'(3) hd_dropWhile[of "due s" "items s"] by simp
    then have "sint (fst n - tm_now s) > 0" by (simp add: due_def)
    then show ?thesis using i s'(4) by (simp add: ngx_event_find_timer_def Node m Let_def)
  qed
  show ?thesis using s' find unfolding tw dw by auto
qed

text \<open>
  Property C16 (liveness).  When the timers are expired, the loop ends if the handlers set no timers, though they may delete some, and
  then no timer is left whose time has come, and none is new, across a wrap of the clock as long as all times lie in one half of its range.  If the
  handlers leave the timers alone, it has called the handlers of exactly the events whose time has come, each once, the earliest first; the others are
  left, and \<^verbatim>\<open>ngx_event_find_timer\<close> then is the time to the first of these, or infinite.
\<close>
theorem timers_expire:
  assumes "timers_ok base s" and "in_window base (tm_now s)"
  shows "(\<forall>h. sets_none base h \<longrightarrow>
      (\<exists>s' w'. ngx_event_expire_timers h (s, w) = Some (s', w') \<and> timers_ok base s' \<and> tm_now s' = tm_now s \<and>
        set (items s') \<subseteq> set (items s) \<and> (\<forall>x \<in> set (items s'). \<not> due s x))) \<and>
    (\<exists>s'. ngx_event_expire_timers (quiet f) (s, w) = Some (s', foldl (\<lambda>w x. f (snd x) w) w (filter (due s) (items s))) \<and>
    timers_ok base s' \<and> items s' = filter (\<lambda>x. \<not> due s x) (items s) \<and>
    (\<forall>x \<in> set (items s). due s x \<longrightarrow> ev_timedout (tm_events s' (snd x))) \<and>
    ngx_event_find_timer s' =
      (case filter (\<lambda>x. \<not> due s x) (items s) of [] \<Rightarrow> NGX_TIMER_INFINITE | x # _ \<Rightarrow> fst x - tm_now s))"
proof (intro conjI allI impI)
  show "\<exists>s' w'. ngx_event_expire_timers h (s, w) = Some (s', w') \<and> timers_ok base s' \<and> tm_now s' = tm_now s \<and>
      set (items s') \<subseteq> set (items s) \<and> (\<forall>x \<in> set (items s'). \<not> due s x)" if "sets_none base h" for h
    using that assms by (rule expire_ends)
qed (rule expire_exact[OF assms])

lemma timers_expire_witness:
  "\<exists>s s'. ngx_event_add_timer 7 100 (no_timers (- 150)) = Some s \<and>
     (\<exists>s1 w1. ngx_event_expire_timers (deletes 7 (\<lambda>e w. w @ [e])) (s\<lparr> tm_now := 20 \<rparr>, []) = Some (s1, w1)) \<and>
     ngx_event_expire_timers (quiet (\<lambda>e w. w @ [e])) (s\<lparr> tm_now := 20 \<rparr>, []) = Some (s', [7]) \<and> items s' = []"
proof -
  have "in_window (- 160) (tm_now (no_timers (- 150)) + 100)" by (simp add: in_window_def since_def no_timers_def)
  from add_timer_ok[OF no_timers_ok this, of 7] obtain s where s: "ngx_event_add_timer 7 100 (no_timers (- 150)) = Some s" "timers_ok (- 160) s"
    "set (items s) = {(- 50, 7)}"
    by (auto simp: no_timers_def items_def)
  have w: "in_window (- 160) (tm_now (s\<lparr> tm_now := 20 \<rparr>))" by (simp add: in_window_def since_def)
  have ok: "timers_ok (- 160) (s\<lparr> tm_now := 20 \<rparr>)" using s(2) by (simp add: timers_ok_def items_def)
  have "items s = [(- 50, 7)]"
  proof -
    have "distinct (items s)" using s(2) by (auto simp: timers_ok_def distinct_map)
    then have "length (items s) = 1" using distinct_card[of "items s"] s(3) by simp
    then show ?thesis using s(3) by (cases "items s") auto
  qed
  then have i: "items (s\<lparr> tm_now := 20 \<rparr>) = [(- 50, 7)]" by (simp add: items_def)
  have "due (s\<lparr> tm_now := 20 \<rparr>) (- 50, 7)" by (simp add: due_def)
  then show ?thesis using timers_expire[OF ok w, of "[]" "\<lambda>e w. w @ [e]"] deletes_sets_none[of "- 160" 7 "\<lambda>e w. w @ [e]"] s(1)
    unfolding i by (auto; blast)
qed

end
