(* ===== verification/Spec2Isabelle.thy ===== *)
theory Spec2Isabelle
  imports Ngx_String Ngx_Numbers Ngx_Base64 Ngx_Escape Ngx_Utf8 Ngx_Hash Ngx_Shmtx Ngx_Queue Ngx_Http_Location_Rules Ngx_Upstream_Examples
    Ngx_Http_Args Ngx_Http_Cookies Ngx_Http_Request_Line Ngx_Http_Header_Line Ngx_Http_Status_Line Ngx_Http_Uri Ngx_Http_Body Ngx_Parse Ngx_Http_Range_Filter
    Ngx_Crc Ngx_Md5 Ngx_Timers
begin

text \<open>
  A verification development for nginx 1.10.0 (\<^verbatim>\<open>src/nginx-1.10.0/src\<close>; the paths below are
  relative to that directory).

  \<^bold>\<open>The program.\<close>  nginx is an event-driven server: the event loop waits until the first timer at most, and hands a
  connection to the request code, which reads into a buffer and calls a parser on what has arrived.  The parsers keep
  their state in the request, so that they can be called again when more bytes are there; what they
  find are positions in the buffer.  On the parsed request the core looks up headers in hash tables by
  the hash the parser computed, normalises the URI, finds the location of the URI in a tree built from the
  configuration, reads the body through a chain of filters, chooses a server behind it by weight, load or the
  address of the client, and sends the response through another chain, which may cut it to the ranges asked for.
  All of it stands on \<^verbatim>\<open>core/\<close>: strings, numbers, times, hash functions and digests, queues and trees, and locks in
  the memory that the worker processes share.  The development models this path from the bytes of a connection to the
  bytes of the response, where it is computation and not input or output.

  \<^bold>\<open>The theories.\<close>
  \<^item> \<open>Ngx_Prelude\<close>: bytes, return codes, tables of bits, and \<open>scan\<close>, the loop
    \<^verbatim>\<open>for (p = b->pos; p < b->last; p++) { switch (state) ... }\<close> that every parser has, with its invariant
    rules.  \<open>Ngx_Interfaces\<close>: the contracts shared by several components, as locales: a codec that is
    undone by its decoder, an escaping whose first pass sizes the second, and a parser whose step looks
    at nothing beyond the byte it is given, for which the client lemma says that input may come in any
    pieces.
  \<^item> \<open>Ngx_String\<close>, \<open>Ngx_Numbers\<close>, \<open>Ngx_Base64\<close>, \<open>Ngx_Escape\<close>, \<open>Ngx_Utf8\<close>: the functions of
    \<^verbatim>\<open>core/ngx_string.c\<close>, each under the name it has there.
  \<^item> \<open>Ngx_Hash_Key\<close>, \<open>Ngx_Hash\<close>: the hash functions of names and the static hash tables of \<^verbatim>\<open>core/ngx_hash.c\<close>, with
    their layout in memory.  \<open>Ngx_Queue\<close>: \<^verbatim>\<open>core/ngx_queue.c\<close> on a memory of pointers.  \<open>Ngx_Rbtree\<close>:
    \<^verbatim>\<open>core/ngx_rbtree.c\<close>; a node and its parents are a subtree and the path above it.  \<open>Ngx_Timers\<close>:
    \<^verbatim>\<open>event/ngx_event_timer.c\<close> on that tree.
  \<^item> \<open>Ngx_Crc\<close>, \<open>Ngx_Md5\<close>: the checksums, \<^verbatim>\<open>core/ngx_murmurhash.c\<close> and \<^verbatim>\<open>core/ngx_md5.c\<close>.
    \<open>Ngx_Parse\<close>: sizes, offsets and durations of the configuration, \<^verbatim>\<open>core/ngx_parse.c\<close>.  \<open>Ngx_Times\<close>,
    \<open>Ngx_Times_Parse\<close>: the calendar of \<^verbatim>\<open>core/ngx_times.c\<close>, and \<^verbatim>\<open>core/ngx_parse_time.c\<close>.
  \<^item> \<open>Ngx_Locks\<close>, \<open>Ngx_Rwlock\<close>, \<open>Ngx_Shmtx\<close>: the locks in shared memory, \<^verbatim>\<open>core/ngx_rwlock.c\<close> and
    \<^verbatim>\<open>core/ngx_shmtx.c\<close>, as step relations of many processes; a step is one access of the memory, one system call, or
    the death of a process.
  \<^item> \<open>Ngx_Http_Request\<close>: the parsing fields of \<^verbatim>\<open>ngx_http_request_s\<close> as the record
    \<open>http_request\<close>, and \<open>run_parser\<close>, the frame of a resumable parser.  \<open>Ngx_Http_Request_Line\<close>,
    \<open>Ngx_Http_Header_Line\<close>, \<open>Ngx_Http_Status_Line\<close>: the three line parsers of
    \<^verbatim>\<open>http/ngx_http_parse.c\<close>, one definition per state of the C enumeration (\<open>step_host\<close> is
    \<^verbatim>\<open>case sw_host\<close>) and one step function that dispatches on the state.  \<open>Ngx_Http_Uri\<close>:
    \<^verbatim>\<open>ngx_http_parse_uri\<close> and \<^verbatim>\<open>ngx_http_parse_complex_uri\<close>.  \<open>Ngx_Http_Args\<close>, \<open>Ngx_Http_Cookies\<close>: the other
    functions of that file, on untrusted URIs, arguments and cookies.
  \<^item> \<open>Ngx_Http_Chunked\<close>: \<^verbatim>\<open>ngx_http_parse_chunked\<close>.  \<open>Ngx_Http_Body\<close>: the length and chunked
    filters of \<^verbatim>\<open>http/ngx_http_request_body.c\<close>, which call it, and the filter of
    \<^verbatim>\<open>http/modules/ngx_http_chunked_filter_module.c\<close>, which encodes responses.
  \<^item> \<open>Ngx_Http_Locations\<close>, \<open>Ngx_Http_Location_Tree\<close>, \<open>Ngx_Http_Location_Rules\<close>: the locations of
    \<^verbatim>\<open>http/ngx_http.c\<close> and \<^verbatim>\<open>http/ngx_http_core_module.c\<close>: how they are sorted, joined and made a tree, the lookup in it,
    and the rule that the documentation gives.
  \<^item> \<open>Ngx_Upstream_Peers\<close>: the peers of an upstream and how one is chosen and given back, from
    \<^verbatim>\<open>http/ngx_http_upstream_round_robin.c\<close> and the least_conn and ip_hash modules.  \<open>Ngx_Upstream_Choice\<close>,
    \<open>Ngx_Upstream_Balance\<close>, \<open>Ngx_Upstream_Fair\<close>, \<open>Ngx_Upstream_Ip_Hash\<close>: what they choose.
    \<open>Ngx_Upstream_Requests\<close>: the requests that share an upstream, as a step relation of events.
    \<open>Ngx_Upstream_Examples\<close>: one upstream, on which its theorems are applied.
  \<^item> \<open>Ngx_Http_Range\<close>, \<open>Ngx_Http_Range_Filter\<close>: the header and the body filter of
    \<^verbatim>\<open>http/modules/ngx_http_range_filter_module.c\<close>.

  \<^bold>\<open>How the code is read.\<close>  A pointer and a length are the list of the bytes; a pointer into a buffer
  is a position in it, and one that the code compares with \<^verbatim>\<open>NULL\<close> is an option.  The buffer only
  grows while a request is parsed, which is what makes positions stable.  Bytes and the fields of fixed
  width are words and wrap; \<^verbatim>\<open>off_t\<close> and \<^verbatim>\<open>ngx_int_t\<close>, whose overflow C leaves undefined, are
  integers, and the theorems say that they stay in range, or an overflow is the value \<^term>\<open>None\<close>.
  Reading past an object is \<^term>\<open>None\<close> where a function may do it.  Allocation is a parameter that says
  which calls succeed, and so are regular expressions, the clock and the handlers of events.  The platform is a
  64-bit little-endian Unix with a signed \<^verbatim>\<open>char\<close>.

  \<^bold>\<open>What the lemmas show.\<close>  For each parser: that cutting the input into network reads does not
  change the answer (an interpretation of the locale), and what holds of an accepted input (an
  invariant of the loop).  For URIs: that the in-place normalisation equals a reference that decodes,
  splits at the slashes and resolves on a stack, and that what it accepts never climbs on the way.
  For bodies: that the filter refines a decoder of single bytes, never delivers more than the limit,
  never waits for bytes of the next request, and undoes the response filter.  For ranges: what is parsed against the
  grammar of the header, that every range lies within the response, and that the bytes that are sent are the header and
  the slices the ranges name, whatever buffers the response comes in.  For strings: exactness of
  the number parsers with no overflow on the way, round trips of the codecs, and that the first pass of
  every escaping sizes the second.  For times: the calendar arithmetic against a walk over the years and months, and that
  a printed time is parsed back.  For checksums and digests: the tables against the polynomial, MD5 against RFC 1321 for
  data in any pieces.  For the containers: refinement of lists by pointers, the red-black invariant and the order of the keys,
  that a hash table finds what it was built from.  For timers: that the clock may wrap, that none that is due is left, and that
  exactly those fire when the handlers leave the timers alone.  For locks: exclusion, no lost wakeup, no deadlock, refinement of a lock of readers and a
  writer, also when processes die.  For locations: that the tree finds what the rule says.  For upstreams: the choice on
  every branch, proportional shares, the counts of connections in every reachable state, and no peer twice in a request.
  Where the code does something a reader would not expect, a theorem evaluates it.

  \<^bold>\<open>Loops and fuel.\<close>  No definition takes fuel.  Nearly every loop is a total function, with a measure on
  the bytes or elements left; the loops that do not consume a byte in every turn (the escape of a URI, which
  looks at the decoded byte again, the body filter, which stops at the data of a chunk) carry a
  second component in the measure, as does the rebalancing of a tree, which may turn once in place.  The loops that may run forever are partial
  functions into an option, where \<^term>\<open>None\<close> is also a loop without end: those of \<open>Ngx_Queue\<close>, since pointers may form
  any cycle (on a well-formed queue they are proved to end), and those of \<open>Ngx_Timers\<close>, since a handler may set its
  timer again (they are proved to end when the handlers set none).

  \<^bold>\<open>Not modelled.\<close>  Debug logging, and system calls and event-driven I/O: the event loop but for its timers, the
  operating system layer, files, processes, sockets, and the modules and protocols that are sessions over them (the
  request and upstream phases, HTTP/2, mail, stream, the resolver).  Third-party libraries (OpenSSL, zlib, PCRE) are not
  under \<^verbatim>\<open>src/\<close>.  Memory pools and the slab allocator, of which the models keep only that an allocation may
  fail.  Directives and the set-up of the configuration, tables of function pointers over those.
  \<^verbatim>\<open>ngx_vslprintf\<close> is a variadic function over untyped arguments; only its number conversion is
  modelled, and the texts that the range filter prints with it.
\<close>

end
